(* ===== verification/Prelude.thy ===== *)
theory Prelude
  imports "HOL-Library.Word"
begin

text \<open>
  What every component shares: the machine types of the x86-64 build, C strings, the faults that
  the C++ code can run into, the result type of a fallible call, the POSIX read/write lock as a
  value, and the lemma collections the component proofs use.
\<close>

unbundle bit_operations_syntax

section \<open>Machine types\<close>

type_synonym u8 = "8 word"
type_synonym u32 = "32 word"
type_synonym u64 = "64 word"

text \<open>Byte strings: \<open>std::string\<close> contents, or the bytes of a \<open>char *\<close> before its NUL.\<close>

type_synonym bytes = "u8 list"

text \<open>\<open>std::string::c_str()\<close> seen by a callee that stops at the first NUL.\<close>

definition c_str :: "bytes \<Rightarrow> bytes" where
  "c_str s = takeWhile (\<lambda>b. b \<noteq> 0) s"

lemma c_str_id [simp]: "0 \<notin> set s \<Longrightarrow> c_str s = s"
  by (auto simp: c_str_def takeWhile_eq_all_conv)

lemma c_str_no_nul [simp]: "0 \<notin> set (c_str s)"
  by (auto simp: c_str_def dest: set_takeWhileD)

text \<open>Assigning a \<open>long\<close> to an \<open>int\<close> keeps its low 32 bits.\<close>

definition to_int :: "int \<Rightarrow> int" where
  "to_int x = (x + 2 ^ 31) mod 2 ^ 32 - 2 ^ 31"

lemma to_int_id [simp]: "- (2 ^ 31) \<le> x \<Longrightarrow> x < 2 ^ 31 \<Longrightarrow> to_int x = x"
  by (simp add: to_int_def)

text \<open>
  A \<open>long\<close> has 64 bits; arithmetic on it is the two's complement arithmetic of the machine, also where the
  C++ standard leaves a signed overflow undefined.
\<close>

definition to_long :: "int \<Rightarrow> int" where
  "to_long x = (x + 2 ^ 63) mod 2 ^ 64 - 2 ^ 63"

lemma to_long_id [simp]: "- (2 ^ 63) \<le> x \<Longrightarrow> x < 2 ^ 63 \<Longrightarrow> to_long x = x"
  by (simp add: to_long_def)

lemma to_long_range: "- (2 ^ 63) \<le> to_long x" "to_long x < 2 ^ 63"
  by (simp_all add: to_long_def)

lemma to_long_cong: "x mod 2 ^ 64 = y mod 2 ^ 64 \<Longrightarrow> to_long x = to_long y"
  unfolding to_long_def by (metis mod_add_left_eq)

lemma to_long_mod: "to_long x mod 2 ^ 64 = x mod 2 ^ 64"
  unfolding to_long_def by (metis add_diff_cancel_right' mod_diff_left_eq)

text \<open>\<open>isspace\<close> in the C locale.\<close>

definition is_space :: "u8 \<Rightarrow> bool" where
  "is_space c \<longleftrightarrow> c = 32 \<or> 9 \<le> c \<and> c \<le> 13"

text \<open>A string literal as bytes.\<close>

definition bytes_of :: "string \<Rightarrow> bytes" where
  "bytes_of s = map of_char s"

text \<open>A number in decimal digits.\<close>

function dec_nat :: "nat \<Rightarrow> bytes" where
  "dec_nat n = (if n < 10 then [of_nat (48 + n)] else dec_nat (n div 10) @ [of_nat (48 + n mod 10)])"
  by pat_completeness auto
termination
  by (relation "measure id") auto

declare dec_nat.simps [simp del]

lemma dec_nat_ne [simp]: "dec_nat n \<noteq> []"
  by (subst dec_nat.simps) simp

lemma length_dec_nat: "n < 10 ^ Suc k \<Longrightarrow> length (dec_nat n) \<le> Suc k"
proof (induction n arbitrary: k rule: dec_nat.induct)
  case (1 n)
  show ?case
  proof (cases "n < 10")
    case False
    then obtain k' where k: "k = Suc k'" using 1(2) by (cases k) auto
    then have "n div 10 < 10 ^ Suc k'" using 1(2) by (simp add: less_mult_imp_div_less)
    then show ?thesis using 1(1) [OF False] False k by (simp add: dec_nat.simps [of n])
  qed (simp add: dec_nat.simps [of n])
qed

section \<open>Faults and results\<close>

text \<open>
  A run of the code that C++ leaves undefined, or that would never come back, is a value of the
  model: the left side of a sum. Ordinary error codes stay ordinary results.
\<close>

datatype exn = InvalidArgument | OverflowError | BadAlloc | OutOfRange

datatype fault =
    Raise exn
  | NullDeref
  | OutOfBounds
  | BadPointer
  | DivByZero
  | BufferOverflow
  | UseAfterFree
  | Deadlock
  | BadUnlock
  | NoReturnValue
  | AssertFail
  | ProcessExit
  | Uninitialised
  | LoopsForEver

type_synonym 'a result = "fault + 'a"

definition bind_r :: "'a result \<Rightarrow> ('a \<Rightarrow> 'b result) \<Rightarrow> 'b result" where
  "bind_r r f = (case r of Inl e \<Rightarrow> Inl e | Inr x \<Rightarrow> f x)"

lemma bind_r_simps [simp]:
  "bind_r (Inl e) f = Inl e"
  "bind_r (Inr x) f = f x"
  by (simp_all add: bind_r_def)

lemma bind_r_eq_Inr: "bind_r r f = Inr y \<longleftrightarrow> (\<exists>x. r = Inr x \<and> f x = Inr y)"
  by (cases r) auto

lemma bind_r_assoc: "bind_r (bind_r r f) g = bind_r r (\<lambda>x. bind_r (f x) g)"
  by (cases r) auto

definition is_ok :: "'a result \<Rightarrow> bool" where
  "is_ok r \<longleftrightarrow> (case r of Inl _ \<Rightarrow> False | Inr _ \<Rightarrow> True)"

lemma is_ok_simps [simp]: "\<not> is_ok (Inl e)" "is_ok (Inr x)"
  by (simp_all add: is_ok_def)

lemma is_ok_iff: "is_ok r \<longleftrightarrow> (\<exists>x. r = Inr x)"
  by (cases r) auto

section \<open>POSIX read/write locks\<close>

text \<open>
  \<open>pthread_rwlock_t\<close> as the model of one thread sees it: a lock that cannot be taken in its
  present state would block that thread for ever (\<open>Deadlock\<close>), and unlocking a free lock is
  undefined.
\<close>

datatype rwlock = Unlocked | RdLocked nat | WrLocked

fun rd_lock :: "rwlock \<Rightarrow> rwlock result" where
  "rd_lock Unlocked = Inr (RdLocked 1)"
| "rd_lock (RdLocked n) = Inr (RdLocked (Suc n))"
| "rd_lock WrLocked = Inl Deadlock"

fun wr_lock :: "rwlock \<Rightarrow> rwlock result" where
  "wr_lock Unlocked = Inr WrLocked"
| "wr_lock (RdLocked n) = Inl Deadlock"
| "wr_lock WrLocked = Inl Deadlock"

fun rw_unlock :: "rwlock \<Rightarrow> rwlock result" where
  "rw_unlock Unlocked = Inl BadUnlock"
| "rw_unlock (RdLocked n) = Inr (if n \<le> 1 then Unlocked else RdLocked (n - 1))"
| "rw_unlock WrLocked = Inr Unlocked"

section \<open>Shared lemmas\<close>

named_theorems spec_defs \<open>definitions of the model's straight-line operations\<close>
named_theorems wf_intros \<open>preservation of the components' invariants\<close>

lemma unat_and_mask5: "unat ((i :: u64) AND 31) = unat i mod 32"
proof -
  have "i AND 31 = take_bit 5 i"
    by (simp add: take_bit_eq_mask mask_eq_exp_minus_1)
  then show ?thesis
    by (simp add: take_bit_eq_mod unat_mod_distrib)
qed

lemma unat_drop_bit5: "unat (drop_bit 5 (i :: u64)) = unat i div 32"
  by (simp add: drop_bit_eq_div unat_div_distrib)

lemma unat_u64_less: "unat (x :: u64) < 18446744073709551616"
proof -
  have "unat x < 2 ^ LENGTH(64)" by (rule unsigned_less)
  then show ?thesis by simp
qed

lemma unat_of_nat_u64: "n < 2 ^ 64 \<Longrightarrow> unat (of_nat n :: u64) = n"
  by (simp add: unat_of_nat take_bit_nat_eq_self)

lemma unat_of_nat_u32: "n < 2 ^ 32 \<Longrightarrow> unat (of_nat n :: u32) = n"
  by (simp add: unat_of_nat take_bit_nat_eq_self)

lemma unat_of_nat_u8: "n < 2 ^ 8 \<Longrightarrow> unat (of_nat n :: u8) = n"
  by (simp add: unat_of_nat take_bit_nat_eq_self)

lemma unat_u64_neg:
  assumes "(x :: u64) \<noteq> 0"
  shows "unat (- x) = 2 ^ 64 - unat x"
proof -
  have x: "0 < uint x" "uint x < 2 ^ 64"
    using assms uint_bounded [of x] by (simp_all add: word_neq_0_conv word_less_def)
  have "uint (- x) = (- uint x) mod 2 ^ 64" by (simp add: uint_word_ariths)
  also have "\<dots> = 2 ^ 64 - uint x" using x by (simp add: zmod_zminus1_eq_if)
  finally have "int (unat (- x)) = 2 ^ 64 - int (unat x)" by (simp only: uint_nat)
  then have "int (unat (- x)) = 18446744073709551616 - int (unat x)" by simp
  with unat_u64_less [of x] have "unat (- x) = 18446744073709551616 - unat x" by linarith
  then show ?thesis by simp
qed

lemma unat_mod_less: "(m :: u64) \<noteq> 0 \<Longrightarrow> unat (x mod m) < unat m"
  by (simp add: unat_mod_distrib unat_gt_0)

lemma list_all_set_update:
  "P y \<Longrightarrow> \<forall>x\<in>set xs. P x \<Longrightarrow> \<forall>x\<in>set (xs[i := y]). P x"
  using set_update_subset_insert by fastforce

end
