(* ===== verification/CText.thy ===== *)
theory CText
  imports Prelude "HOL-Library.Sublist"
begin

text \<open>
  Text in C and C++: what the components use of \<open>string.h\<close>, \<open>ctype.h\<close> and \<open>std::string\<close>, and the helpers
  of \<open>tools/utilcpp.cpp\<close> and \<open>tools/util.cpp\<close> that replace, erase and trim. A C string is the list of
  its bytes before the NUL; a \<open>std::string::npos\<close> is \<open>None\<close>.
\<close>

section \<open>Library functions\<close>

definition to_lower :: "u8 \<Rightarrow> u8" where
  "to_lower c = (if 65 \<le> c \<and> c \<le> 90 then c + 32 else c)"

definition to_upper :: "u8 \<Rightarrow> u8" where
  "to_upper c = (if 97 \<le> c \<and> c \<le> 122 then c - 32 else c)"

text \<open>\<open>find\<close>: the first position where the pattern stands, at or behind the position \<open>n\<close>.\<close>

fun find_sub :: "bytes \<Rightarrow> bytes \<Rightarrow> nat option" where
  "find_sub pat [] = (if pat = [] then Some 0 else None)"
| "find_sub pat (c # s) = (if prefix pat (c # s) then Some 0 else map_option Suc (find_sub pat s))"

definition find_from :: "bytes \<Rightarrow> nat \<Rightarrow> bytes \<Rightarrow> nat option" where
  "find_from pat n s = (if n \<le> length s then map_option ((+) n) (find_sub pat (drop n s)) else None)"

text \<open>\<open>strchr\<close> for a character other than NUL, as a position.\<close>

definition str_chr :: "u8 \<Rightarrow> bytes \<Rightarrow> nat option" where
  "str_chr c s = find_sub [c] s"

text \<open>\<open>strtok_r\<close>: the next token, or \<open>NULL\<close>, and what is left.\<close>

definition strtok :: "bytes \<Rightarrow> bytes \<Rightarrow> bytes option \<times> bytes" where
  "strtok delim s =
    (let s = dropWhile (\<lambda>c. c \<in> set delim) s
     in if s = [] then (None, []) else (Some (takeWhile (\<lambda>c. c \<notin> set delim) s), drop 1 (dropWhile (\<lambda>c. c \<notin> set delim) s)))"

lemma strtok_shorter: "strtok delim s = (Some t, r) \<Longrightarrow> length r < length s"
proof -
  assume a: "strtok delim s = (Some t, r)"
  let ?s = "dropWhile (\<lambda>c. c \<in> set delim) s"
  have s: "?s \<noteq> []" and r: "r = drop 1 (dropWhile (\<lambda>c. c \<notin> set delim) ?s)"
    using a by (auto simp: strtok_def Let_def split: if_splits)
  have "length (dropWhile (\<lambda>c. c \<notin> set delim) ?s) \<le> length ?s" "length ?s \<le> length s" by (simp_all add: length_dropWhile_le)
  moreover have "length (dropWhile (\<lambda>c. c \<notin> set delim) ?s) - 1 < length ?s" using s calculation(1) by (cases ?s) auto
  ultimately show ?thesis using r by simp
qed

text \<open>The tokens of a text: the loop \<open>while (t = strtok_r(NULL, \<dots>))\<close>.\<close>

function tokens_of :: "bytes \<Rightarrow> bytes \<Rightarrow> bytes list" where
  "tokens_of delim s = (case strtok delim s of (None, _) \<Rightarrow> [] | (Some t, r) \<Rightarrow> t # tokens_of delim r)"
  by pat_completeness auto
termination
  by (relation "measure (\<lambda>(delim, s). length s)") (auto dest: strtok_shorter [OF sym])

declare tokens_of.simps [simp del]

lemma find_subD: "find_sub pat s = Some i \<Longrightarrow> i + length pat \<le> length s \<and> prefix pat (drop i s) \<and> (\<forall>j<i. \<not> prefix pat (drop j s))"
proof (induction pat s arbitrary: i rule: find_sub.induct)
  case (2 pat c s)
  show ?case
  proof (cases "prefix pat (c # s)")
    case True
    then show ?thesis using 2(2) prefix_length_le [OF True] by simp
  next
    case False
    then obtain j where j: "i = Suc j" "find_sub pat s = Some j" using 2(2) by auto
    have "\<not> prefix pat (drop k (c # s))" if "k < i" for k
      using 2(1) [OF False j(2)] that j(1) False by (cases k) auto
    then show ?thesis using 2(1) [OF False j(2)] j(1) by auto
  qed
qed (auto split: if_splits)

lemma find_sub_None: "find_sub pat s = None \<longleftrightarrow> (\<forall>i\<le>length s. \<not> prefix pat (drop i s))"
proof (induction pat s rule: find_sub.induct)
  case (2 pat c s)
  have "(\<forall>i\<le>length (c # s). \<not> prefix pat (drop i (c # s))) \<longleftrightarrow> \<not> prefix pat (c # s) \<and> (\<forall>i\<le>length s. \<not> prefix pat (drop i s))"
    by (metis (no_types) Suc_le_mono bot_nat_0.extremum drop0 drop_Suc_Cons length_Cons not0_implies_Suc)
  then show ?case using 2 by simp
qed simp

lemma find_subI:
  "i \<le> length s \<Longrightarrow> prefix pat (drop i s) \<Longrightarrow> (\<And>j. j < i \<Longrightarrow> \<not> prefix pat (drop j s)) \<Longrightarrow> find_sub pat s = Some i"
proof -
  assume a: "i \<le> length s" "prefix pat (drop i s)" "\<And>j. j < i \<Longrightarrow> \<not> prefix pat (drop j s)"
  obtain k where k: "find_sub pat s = Some k" using a find_sub_None [of pat s] by (cases "find_sub pat s") auto
  have "\<not> k < i" "\<not> i < k" using find_subD [OF k] a by auto
  then show ?thesis using k by simp
qed

lemma find_fromD: "find_from pat n s = Some i \<Longrightarrow> n \<le> i \<and> i + length pat \<le> length s"
  using find_subD [of pat "drop n s"] by (fastforce simp: find_from_def split: if_splits)

section \<open>Replacing and erasing\<close>

definition toLowercase :: "bytes \<Rightarrow> bytes" where
  "toLowercase s = map to_lower s"

text \<open>The loop of \<open>replacestr\<close>, which is not entered with an empty pattern.\<close>

function replace_loop :: "bytes \<Rightarrow> bytes \<Rightarrow> nat \<Rightarrow> bytes \<Rightarrow> bytes" where
  "replace_loop sr ds n str =
    (if sr = [] then str
     else case find_from sr n str of
         None \<Rightarrow> str
       | Some idx \<Rightarrow>
           let str = take idx str @ ds @ drop (idx + length sr) str
           in if idx + length ds > length str then str else replace_loop sr ds (idx + length ds) str)"
  by pat_completeness auto
termination
  by (relation "measure (\<lambda>(sr, ds, n, str). length str - n)") (auto dest!: find_fromD simp flip: length_greater_0_conv)

declare replace_loop.simps [simp del]

definition replacestr :: "bytes \<Rightarrow> bytes \<Rightarrow> bytes \<Rightarrow> bytes" where
  "replacestr str srstr dsstr = (if length str = 0 \<or> length srstr = 0 then str else replace_loop srstr dsstr 0 str)"

function erase_loop :: "bytes \<Rightarrow> nat \<Rightarrow> bytes \<Rightarrow> bytes" where
  "erase_loop sub n str =
    (if sub = [] then str
     else case find_from sub n str of
         None \<Rightarrow> str
       | Some idx \<Rightarrow> erase_loop sub idx (take idx str @ drop (idx + length sub) str))"
  by pat_completeness auto
termination
  by (relation "measure (\<lambda>(sub, n, str). length str)") (auto dest!: find_fromD simp flip: length_greater_0_conv)

declare erase_loop.simps [simp del]

definition erasestr :: "bytes \<Rightarrow> bytes \<Rightarrow> bytes" where
  "erasestr str sub = (if length str = 0 \<or> length sub = 0 then str else erase_loop sub 0 str)"

text \<open>\<open>findcase\<close>, with the comparison \<open>_nocase_compare\<close>.\<close>

definition nocase_compare :: "u8 \<Rightarrow> u8 \<Rightarrow> bool" where
  "nocase_compare c1 c2 \<longleftrightarrow> to_upper c1 = to_upper c2"

fun search_by :: "('a \<Rightarrow> 'a \<Rightarrow> bool) \<Rightarrow> 'a list \<Rightarrow> 'a list \<Rightarrow> nat option" where
  "search_by eq needle [] = (if needle = [] then Some 0 else None)"
| "search_by eq needle (c # s) =
    (if length needle \<le> length (c # s) \<and> list_all2 eq (take (length needle) (c # s)) needle then Some 0
     else map_option Suc (search_by eq needle s))"

definition findcase :: "bytes \<Rightarrow> bytes \<Rightarrow> nat option" where
  "findcase haystack needle =
    (if haystack = [] then None else if needle = [] then None else search_by nocase_compare needle haystack)"

text \<open>
  \<open>szReplaceReply\<close> in an array of \<open>cap\<close> bytes: the text behind \<open>p1\<close> is searched again after each
  replacement. An empty \<open>szSrc\<close> is found at once, over and over.
\<close>

partial_function (option) reply_loop :: "nat \<Rightarrow> bytes \<Rightarrow> bytes \<Rightarrow> nat \<Rightarrow> bytes \<Rightarrow> bytes result option" where
  "reply_loop cap szSrc szDst p1 str =
    (case find_from szSrc p1 str of
       None \<Rightarrow> Some (Inr str)
     | Some p2 \<Rightarrow>
         let str = take p2 str @ szDst @ drop (p2 + length szSrc) str
         in if length str \<ge> cap then Some (Inl BufferOverflow) else reply_loop cap szSrc szDst (p2 + length szDst) str)"

declare reply_loop.simps [code]

definition szReplaceReply :: "nat \<Rightarrow> bytes \<Rightarrow> bytes \<Rightarrow> bytes \<Rightarrow> bytes result option" where
  "szReplaceReply cap szStr szSrc szDst = reply_loop cap szSrc szDst 0 szStr"

text \<open>The variant for a number prints it first.\<close>

definition dec_int :: "int \<Rightarrow> bytes" where
  "dec_int i = (if i < 0 then 45 # dec_nat (nat (- i)) else dec_nat (nat i))"

definition szReplaceReply_int :: "nat \<Rightarrow> bytes \<Rightarrow> bytes \<Rightarrow> int \<Rightarrow> bytes result option" where
  "szReplaceReply_int cap szStr szSrc intDst = reply_loop cap szSrc (dec_int intDst) 0 szStr"

definition charreplace :: "bytes \<Rightarrow> u8 \<Rightarrow> u8 \<Rightarrow> bytes" where
  "charreplace str old new = map (\<lambda>c. if c = old then new else c) str"

text \<open>The variant with a length works on the memory, also behind a NUL.\<close>

definition charreplace_n :: "bytes \<Rightarrow> nat \<Rightarrow> u8 \<Rightarrow> u8 \<Rightarrow> bytes result" where
  "charreplace_n mem len old new = (if len \<le> length mem then Inr (charreplace (take len mem) old new @ drop len mem) else Inl OutOfBounds)"

definition toLowerCase :: "bytes \<Rightarrow> nat \<Rightarrow> bytes result" where
  "toLowerCase src len = (if len \<le> length src then Inr (map to_lower (take len src)) else Inl OutOfBounds)"

text \<open>\<open>str_tolower\<close> calls \<open>tolower\<close> and drops its result.\<close>

definition str_tolower :: "bytes \<Rightarrow> nat \<Rightarrow> bytes" where
  "str_tolower str len = str"

section \<open>Trimming\<close>

definition blanks :: bytes where "blanks = [32, 9, 10, 13]"

definition strrtrim :: "bytes \<Rightarrow> bytes option \<Rightarrow> bytes" where
  "strrtrim str trim = (let trim = case trim of None \<Rightarrow> blanks | Some t \<Rightarrow> t in rev (dropWhile (\<lambda>c. c \<in> set trim) (rev str)))"

definition strltrim :: "bytes \<Rightarrow> bytes option \<Rightarrow> bytes" where
  "strltrim str trim = (let trim = case trim of None \<Rightarrow> blanks | Some t \<Rightarrow> t in dropWhile (\<lambda>c. c \<in> set trim) str)"

definition strtrim :: "bytes \<Rightarrow> bytes option \<Rightarrow> bytes" where
  "strtrim str trim = strltrim (strrtrim str trim) trim"

definition stringstrim :: "bytes \<Rightarrow> bytes option \<Rightarrow> bytes" where
  "stringstrim src trim = strtrim (c_str src) trim"

definition initlocalip :: "bytes \<Rightarrow> int \<times> bytes list" where
  "initlocalip localip = (let ts = tokens_of [44] localip in (int (length ts), ts))"

text \<open>\<open>my_hash\<close>: characters are signed, the sum is an \<open>unsigned long\<close>, and so is \<open>len\<close> in the division.\<close>

fun hash_sum :: "nat \<Rightarrow> bytes \<Rightarrow> u64" where
  "hash_sum i [] = 0"
| "hash_sum i (c # s) = of_int (to_int (sint c * int i)) + hash_sum (Suc i) s"

definition my_hash :: "bytes \<Rightarrow> int \<Rightarrow> int result" where
  "my_hash key len = (if len = 0 then Inl DivByZero else Inr (to_int (uint (hash_sum 1 key mod of_int len))))"

section \<open>Character sets\<close>

text \<open>
  \<open>code_convert\<close> with \<open>iconv\<close> as a parameter: what it makes of a text from one character set in another, or \<open>None\<close> when it
  fails. The bytes that were written stand at the start of the output array, whose size is passed by value.
\<close>

type_synonym iconv = "bytes \<Rightarrow> bytes \<Rightarrow> bytes \<Rightarrow> bytes option"

definition code_convert :: "iconv \<Rightarrow> bytes \<Rightarrow> bytes \<Rightarrow> bytes \<Rightarrow> nat \<Rightarrow> int \<times> bytes" where
  "code_convert conv from_charset to_charset inbuf outlen =
    (case conv from_charset to_charset inbuf of
       None \<Rightarrow> (-1, replicate outlen 0)
     | Some out \<Rightarrow> (0, take outlen (take outlen out @ replicate outlen 0)))"

text \<open>\<open>tog\<close> ends the text where the size that is left says; nothing has changed that size.\<close>

definition tog :: "iconv \<Rightarrow> bytes \<Rightarrow> bytes \<Rightarrow> bytes \<Rightarrow> bytes" where
  "tog conv str inputCharset outputCharset =
    (if str = [] then []
     else let nLengthlfOut = length str * 4 + 1; nLengthlfOutTmp = nLengthlfOut;
              output = snd (code_convert conv inputCharset outputCharset str nLengthlfOut)
          in c_str (output[nLengthlfOut - nLengthlfOutTmp := 0]))"

section \<open>Properties\<close>

text \<open>The reference: every occurrence, from the left, without looking into what was put in.\<close>

function replace_all :: "bytes \<Rightarrow> bytes \<Rightarrow> bytes \<Rightarrow> bytes" where
  "replace_all sr ds s =
    (if sr = [] \<or> s = [] then s
     else if prefix sr s then ds @ replace_all sr ds (drop (length sr) s) else hd s # replace_all sr ds (tl s))"
  by pat_completeness auto
termination
  by (relation "measure (\<lambda>(sr, ds, s). length s)") auto

declare replace_all.simps [simp del]

lemma replace_all_find:
  "sr \<noteq> [] \<Longrightarrow> replace_all sr ds s =
    (case find_sub sr s of None \<Rightarrow> s | Some i \<Rightarrow> take i s @ ds @ replace_all sr ds (drop (i + length sr) s))"
proof (induction s)
  case Nil
  then show ?case by (simp add: replace_all.simps)
next
  case (Cons c s)
  then show ?case by (simp add: replace_all.simps [of sr ds "c # s"] split: option.splits)
qed

lemma replace_all_split:
  assumes "find_sub sr (drop n str) = Some i" "sr \<noteq> []"
  shows "take n str @ replace_all sr ds (drop n str) = take (n + i) str @ ds @ replace_all sr ds (drop (n + i + length sr) str)"
proof -
  have "drop (i + length sr) (drop n str) = drop (n + i + length sr) str" by (simp add: add_ac)
  then show ?thesis using assms by (simp add: replace_all_find [of sr ds "drop n str"] take_add del: drop_drop)
qed

lemma find_from_split: "n \<le> length s \<Longrightarrow> find_from pat n s = map_option ((+) n) (find_sub pat (drop n s))"
  by (simp add: find_from_def)

lemma replace_loop_all:
  "sr \<noteq> [] \<Longrightarrow> n \<le> length str \<Longrightarrow> replace_loop sr ds n str = take n str @ replace_all sr ds (drop n str)"
proof (induction sr ds n str rule: replace_loop.induct)
  case (1 sr ds n str)
  show ?case
  proof (cases "find_sub sr (drop n str)")
    case None
    then show ?thesis using 1 by (simp add: replace_loop.simps [of sr ds n str] replace_all_find find_from_split)
  next
    case (Some i)
    let ?idx = "n + i" and ?str = "take (n + i) str @ ds @ drop (n + i + length sr) str"
    have f: "find_from sr n str = Some ?idx" using Some 1 by (simp add: find_from_split)
    have i: "?idx + length sr \<le> length str" using find_fromD [OF f] by simp
    have "\<not> length ?str < ?idx + length ds" using i by auto
    then have "replace_loop sr ds n str = replace_loop sr ds (?idx + length ds) ?str"
      using 1(2) f by (simp add: replace_loop.simps [of sr ds n str] Let_def del: length_append)
    also have "\<dots> = take (?idx + length ds) ?str @ replace_all sr ds (drop (?idx + length ds) ?str)"
      using i 1(2) by (intro 1(1) [OF _ f refl]) auto
    also have "\<dots> = take ?idx str @ ds @ replace_all sr ds (drop (?idx + length sr) str)" using i by simp
    also have "\<dots> = take n str @ replace_all sr ds (drop n str)" by (rule replace_all_split [OF Some 1(2), symmetric])
    finally show ?thesis .
  qed
qed

lemma erase_loop_all:
  "sub \<noteq> [] \<Longrightarrow> n \<le> length str \<Longrightarrow> erase_loop sub n str = take n str @ replace_all sub [] (drop n str)"
proof (induction sub n str rule: erase_loop.induct)
  case (1 sub n str)
  show ?case
  proof (cases "find_sub sub (drop n str)")
    case None
    then show ?thesis using 1 by (simp add: erase_loop.simps [of sub n str] replace_all_find find_from_split)
  next
    case (Some i)
    let ?idx = "n + i"
    have f: "find_from sub n str = Some ?idx" using Some 1 by (simp add: find_from_split)
    have i: "?idx + length sub \<le> length str" using find_fromD [OF f] by simp
    have "erase_loop sub n str = erase_loop sub ?idx (take ?idx str @ drop (?idx + length sub) str)"
      using 1(2) f by (simp add: erase_loop.simps [of sub n str])
    also have "\<dots> = take ?idx str @ replace_all sub [] (drop (?idx + length sub) str)"
      using 1(1) [OF 1(2) f 1(2)] i by simp
    also have "\<dots> = take n str @ replace_all sub [] (drop n str)" using replace_all_split [OF Some 1(2), of "[]"] by simp
    finally show ?thesis .
  qed
qed

lemma length_replace_all: "length sr \<le> length ds \<Longrightarrow> length s \<le> length (replace_all sr ds s)"
proof (induction sr ds s rule: replace_all.induct)
  case (1 sr ds s)
  show ?case
  proof (cases "sr = [] \<or> s = []")
    case False
    then obtain c t where "s = c # t" by (cases s) auto
    then show ?thesis
      using 1 False prefix_length_le [of sr s] by (auto simp: replace_all.simps [of sr ds "c # t"])
  qed (simp add: replace_all.simps [of sr ds s])
qed

lemma reply_step:
  assumes "find_sub sr (drop n str) = Some i" "n \<le> length str"
  shows "reply_loop cap sr ds n str =
    (let str = take (n + i) str @ ds @ drop (n + i + length sr) str
     in if length str \<ge> cap then Some (Inl BufferOverflow) else reply_loop cap sr ds (n + i + length ds) str)"
  using assms by (simp add: reply_loop.simps [of cap sr ds n str] find_from_split)

lemma reply_end: "find_sub sr (drop n str) = None \<Longrightarrow> n \<le> length str \<Longrightarrow> reply_loop cap sr ds n str = Some (Inr str)"
  by (simp add: reply_loop.simps [of cap sr ds n str] find_from_split)

lemma reply_loop_all:
  "sr \<noteq> [] \<Longrightarrow> n \<le> length str \<Longrightarrow> length str < cap \<Longrightarrow> length (take n str @ replace_all sr ds (drop n str)) < cap \<Longrightarrow>
    reply_loop cap sr ds n str = Some (Inr (take n str @ replace_all sr ds (drop n str)))"
proof (induction "length str - n" arbitrary: n str rule: less_induct)
  case less
  show ?case
  proof (cases "find_sub sr (drop n str)")
    case None
    then show ?thesis using less.prems by (simp add: reply_end replace_all_find [of sr ds "drop n str"])
  next
    case (Some i)
    let ?idx = "n + i" and ?str = "take (n + i) str @ ds @ drop (n + i + length sr) str"
    have i: "?idx + length sr \<le> length str" using find_subD [OF Some] less.prems(2) by auto
    have all: "take n str @ replace_all sr ds (drop n str) = take ?idx str @ ds @ replace_all sr ds (drop (?idx + length sr) str)"
      by (rule replace_all_split [OF Some less.prems(1)])
    then have all': "take n str @ replace_all sr ds (drop n str) =
        take (?idx + length ds) ?str @ replace_all sr ds (drop (?idx + length ds) ?str)" using i by simp
    have "length ?str < cap"
    proof (cases "length sr \<le> length ds")
      case True
      have "length ?str \<le> length (take ?idx str @ ds @ replace_all sr ds (drop (?idx + length sr) str))"
        using length_replace_all [OF True, of "drop (?idx + length sr) str"] by simp
      then show ?thesis using less.prems(4) unfolding all by (rule order_le_less_trans)
    qed (use i less.prems in auto)
    then have "reply_loop cap sr ds n str = reply_loop cap sr ds (?idx + length ds) ?str"
      unfolding reply_step [OF Some less.prems(2)] Let_def by (simp only: if_not_P not_le)
    also have "\<dots> = Some (Inr (take (?idx + length ds) ?str @ replace_all sr ds (drop (?idx + length ds) ?str)))"
    proof (rule less.hyps)
      show "length ?str - (?idx + length ds) < length str - n" using i less.prems(1) by (cases sr) auto
      show "?idx + length ds \<le> length ?str" using i by auto
      show "length (take (?idx + length ds) ?str @ replace_all sr ds (drop (?idx + length ds) ?str)) < cap"
        using less.prems(4) unfolding all' .
    qed (fact less.prems(1), fact)
    finally show ?thesis unfolding all' .
  qed
qed

text \<open>Whatever is to be replaced, the loop comes to an end unless an empty text is replaced by an empty one.\<close>

lemma reply_overflows:
  "ds \<noteq> [] \<Longrightarrow> n \<le> length str \<Longrightarrow> reply_loop cap [] ds n str = Some (Inl BufferOverflow)"
proof (induction "cap - length str" arbitrary: n str rule: less_induct)
  case less
  have f: "find_sub [] (drop n str) = Some 0" by (cases "drop n str") simp_all
  let ?str = "take n str @ ds @ drop n str"
  have len: "length str < length ?str" using less.prems by (cases ds) auto
  show ?case
  proof (cases "cap \<le> length ?str")
    case False
    have "reply_loop cap [] ds (n + length ds) ?str = Some (Inl BufferOverflow)"
      using less.prems len False by (intro less.hyps) (auto simp flip: length_greater_0_conv)
    then show ?thesis using reply_step [OF f less.prems(2), of cap ds] False by (simp add: Let_def)
  qed (use reply_step [OF f less.prems(2), of cap ds] in \<open>simp add: Let_def\<close>)
qed

lemma reply_returns: "sr \<noteq> [] \<Longrightarrow> n \<le> length str \<Longrightarrow> reply_loop cap sr ds n str \<noteq> None"
proof (induction "length str - n" arbitrary: n str rule: less_induct)
  case less
  show ?case
  proof (cases "find_sub sr (drop n str)")
    case (Some i)
    let ?str = "take (n + i) str @ ds @ drop (n + i + length sr) str"
    have i: "n + i + length sr \<le> length str" using find_subD [OF Some] less.prems(2) by auto
    have "reply_loop cap sr ds (n + i + length ds) ?str \<noteq> None"
      using i less.prems by (intro less.hyps) (auto simp flip: length_greater_0_conv)
    then show ?thesis unfolding reply_step [OF Some less.prems(2)] Let_def by simp
  qed (use less.prems in \<open>simp add: reply_end\<close>)
qed

lemma reply_loops_for_ever: "n \<le> length str \<Longrightarrow> length str < cap \<Longrightarrow> reply_loop cap [] [] n str = None"
proof -
  have "sr = [] \<longrightarrow> ds = [] \<longrightarrow> n \<le> length str \<longrightarrow> length str < cap \<longrightarrow> False" if "reply_loop cap sr ds n str = Some r" for sr ds n str r
    using _ that
  proof (rule reply_loop.raw_induct [where P = "\<lambda>cap sr ds n str r. sr = [] \<longrightarrow> ds = [] \<longrightarrow> n \<le> length str \<longrightarrow> length str < cap \<longrightarrow> False"])
    fix rec cap and szSrc szDst :: bytes and p1 and str :: bytes and r
    have "find_sub [] (drop p1 str) = Some 0" by (cases "drop p1 str") simp_all
    moreover assume "\<And>cap szSrc szDst p1 str y. rec cap szSrc szDst p1 str = Some y \<Longrightarrow> szSrc = [] \<longrightarrow> szDst = [] \<longrightarrow> p1 \<le> length str \<longrightarrow> length str < cap \<longrightarrow> False"
      and "(case find_from szSrc p1 str of None \<Rightarrow> Some (Inr str)
        | Some p2 \<Rightarrow> let str = take p2 str @ szDst @ drop (p2 + length szSrc) str
            in if cap \<le> length str then Some (Inl BufferOverflow) else rec cap szSrc szDst (p2 + length szDst) str) = Some r"
    ultimately show "szSrc = [] \<longrightarrow> szDst = [] \<longrightarrow> p1 \<le> length str \<longrightarrow> length str < cap \<longrightarrow> False"
      by (auto simp: find_from_split Let_def)
  qed
  then show "n \<le> length str \<Longrightarrow> length str < cap \<Longrightarrow> reply_loop cap [] [] n str = None" by (cases "reply_loop cap [] [] n str") auto
qed

text \<open>
  \<open>szReplaceReply\<close> (and \<open>szReplace\<close>, the same code) always comes to an end, except that it runs for ever when it is to replace an empty text by
  an empty text; an empty text replaced by another one overflows every array.
\<close>

theorem replace_reply_returns:
  assumes "length szStr < cap"
  shows "(szReplaceReply cap szStr szSrc szDst = None \<longleftrightarrow> szSrc = [] \<and> szDst = [])
    \<and> (szSrc = [] \<and> szDst \<noteq> [] \<longrightarrow> szReplaceReply cap szStr szSrc szDst = Some (Inl BufferOverflow))"
proof (cases "szSrc = []")
  case True
  then show ?thesis using assms reply_overflows [of szDst 0 szStr cap] reply_loops_for_ever [of 0 szStr cap]
    by (cases "szDst = []") (simp_all add: szReplaceReply_def)
qed (use reply_returns [of szSrc 0 szStr cap szDst] in \<open>simp add: szReplaceReply_def\<close>)

theorem replace_reply_returns_witness:
  "szReplaceReply 100 [97, 98] [] [99] = Some (Inl BufferOverflow) \<and> szReplaceReply 100 [97, 98] [] [] = None"
  using replace_reply_returns [of "[97, 98]" 100 "[]" "[99]"] replace_reply_returns [of "[97, 98]" 100 "[]" "[]"] by simp

text \<open>
  The four routines that replace do the same: \<open>replacestr\<close>, \<open>erasestr\<close> (with nothing to put in) and \<open>szReplaceReply\<close>, in an array that
  has room for the text before and after, replace every occurrence from the left and never look into what they put in.
\<close>

theorem replacements_agree:
  assumes "sr \<noteq> []" "length str < cap" "length (replace_all sr ds str) < cap"
  shows "replacestr str sr ds = replace_all sr ds str \<and> erasestr str sr = replace_all sr [] str
    \<and> szReplaceReply cap str sr ds = Some (Inr (replacestr str sr ds))"
proof -
  have "replacestr str sr ds = replace_all sr ds str"
    using assms(1) replace_loop_all [OF assms(1), of 0 str ds] by (auto simp: replacestr_def replace_all.simps [of sr ds "[]"])
  moreover have "erasestr str sr = replace_all sr [] str"
    using assms(1) erase_loop_all [OF assms(1), of 0 str] by (auto simp: erasestr_def replace_all.simps [of sr "[]" "[]"])
  moreover have "szReplaceReply cap str sr ds = Some (Inr (replace_all sr ds str))"
    using reply_loop_all [OF assms(1), of 0 str cap ds] assms(2,3) by (simp add: szReplaceReply_def)
  ultimately show ?thesis by simp
qed

theorem replacements_agree_witness:
  "replacestr [97, 97, 98, 98] [97, 98] [] = [97, 98] \<and> erasestr [97, 97, 98, 98] [97, 98] = [97, 98]"
proof -
  have r: "replace_all [97, 98] [] [97, 97, 98, 98] = [97, 98]" by code_simp
  show ?thesis using replacements_agree [of "[97, 98]" "[97, 97, 98, 98]" 100 "[]"] by (simp add: r)
qed

text \<open>
  \<open>tog\<close> makes every text empty, whatever \<open>iconv\<close> gives.
\<close>

theorem tog_empties: "tog conv str inputCharset outputCharset = []"
proof -
  have "c_str (xs[0 := 0]) = []" for xs by (cases xs) (simp_all add: c_str_def)
  then show ?thesis by (simp add: tog_def Let_def)
qed

end
