(* ===== verification/DateText.thy ===== *)
theory DateText
  imports Prelude
begin

text \<open>
  The text helpers of \<open>tools/CDateTime.cpp\<close>: tokens, digits and the numbers they spell, month names,
  HTML tags. Text is the bytes before the NUL; positions are \<open>int\<close>s with \<open>-1\<close> for "not found", as
  in the code.
\<close>

section \<open>Characters and numbers\<close>

definition ISDIGIT :: "u8 \<Rightarrow> bool" where
  "ISDIGIT c \<longleftrightarrow> 48 \<le> c \<and> c \<le> 57"

definition isLetter :: "u8 \<Rightarrow> bool" where
  "isLetter c \<longleftrightarrow> 97 \<le> c \<and> c \<le> 122 \<or> 65 \<le> c \<and> c \<le> 90"

definition digit_val :: "u8 \<Rightarrow> int" where
  "digit_val c = int (unat c) - 48"

definition digits_val :: "bytes \<Rightarrow> int" where
  "digits_val ds = foldl (\<lambda>n c. 10 * n + digit_val c) 0 ds"

text \<open>\<open>atoi\<close>: white space, a sign, digits; \<open>strtol\<close> saturates, and the result is cut to an \<open>int\<close>.\<close>

definition atoi :: "bytes \<Rightarrow> int" where
  "atoi s =
    (let s = dropWhile is_space s;
         (neg, s) = (case s of [] \<Rightarrow> (False, s) | c # t \<Rightarrow> if c = 45 then (True, t) else if c = 43 then (False, t) else (False, s));
         v = digits_val (takeWhile ISDIGIT s);
         v = (if neg then - v else v)
     in to_int (max (- (2 ^ 63)) (min v (2 ^ 63 - 1))))"

text \<open>Two digits, with a leading zero.\<close>

definition pad2 :: "nat \<Rightarrow> bytes" where
  "pad2 n = (if n < 10 then 48 # dec_nat n else dec_nat n)"

section \<open>Tokens\<close>

text \<open>\<open>mystrtok_r\<close>: the next token and the text after the delimiter that ended it.\<close>

definition mystrtok_r :: "u8 set \<Rightarrow> bytes \<Rightarrow> (bytes \<times> bytes) option" where
  "mystrtok_r delim s =
    (let s = dropWhile (\<lambda>c. c \<in> delim) s
     in if s = [] then None
        else Some (takeWhile (\<lambda>c. c \<notin> delim) s, drop 1 (dropWhile (\<lambda>c. c \<notin> delim) s)))"

lemma mystrtok_shorter:
  assumes "mystrtok_r delim s = Some (tok, rest)" shows "length rest < length s"
proof -
  let ?s = "dropWhile (\<lambda>c. c \<in> delim) s"
  have s: "?s \<noteq> []" and r: "rest = drop 1 (dropWhile (\<lambda>c. c \<notin> delim) ?s)"
    using assms by (auto simp: mystrtok_r_def Let_def split: if_splits)
  obtain c t where c: "?s = c # t" using s by (cases ?s) auto
  then have "c \<notin> delim" by (metis dropWhile_eq_Cons_conv)
  then have "length (dropWhile (\<lambda>c. c \<notin> delim) ?s) \<le> length t"
    using length_dropWhile_le [of "\<lambda>c. c \<notin> delim" t] by (simp add: c)
  moreover have "Suc (length t) \<le> length s" using length_dropWhile_le [of "\<lambda>c. c \<in> delim" s] c by simp
  ultimately show ?thesis by (simp add: r)
qed

text \<open>The loop \<open>while (tok) ... tok = mystrtok_r(NULL, ...)\<close>.\<close>

function tokens :: "u8 set \<Rightarrow> bytes \<Rightarrow> bytes list" where
  "tokens delim s = (case mystrtok_r delim s of None \<Rightarrow> [] | Some (tok, rest) \<Rightarrow> tok # tokens delim rest)"
  by pat_completeness auto
termination
  by (relation "measure (\<lambda>(delim, s). length s)") (auto intro: mystrtok_shorter)

declare tokens.simps [simp del]

section \<open>Searching\<close>

fun scan_from :: "(u8 \<Rightarrow> bool) \<Rightarrow> bytes \<Rightarrow> nat \<Rightarrow> int" where
  "scan_from p [] i = -1"
| "scan_from p (c # s) i = (if p c then int i else scan_from p s (i + 1))"

text \<open>A negative start compares as a huge \<open>size_t\<close>: nothing is scanned.\<close>

definition findDigit :: "bytes \<Rightarrow> int \<Rightarrow> int" where
  "findDigit text b = (if b < 0 then -1 else scan_from ISDIGIT (drop (nat b) text) (nat b))"

text \<open>The first non-digit, except that a colon there gives 0.\<close>

definition findNonDigit :: "bytes \<Rightarrow> int \<Rightarrow> int" where
  "findNonDigit text b =
    (if b < 0 then -1
     else let i = scan_from (\<lambda>c. \<not> ISDIGIT c) (drop (nat b) text) (nat b)
          in if i = -1 then -1 else if text ! nat i = 58 then 0 else i)"

definition isColon :: "bytes \<Rightarrow> nat \<Rightarrow> nat \<Rightarrow> bool" where
  "isColon text b e \<longleftrightarrow> 58 \<in> set (take (e - b) (drop b text))"

definition textLen :: "bytes \<Rightarrow> nat \<Rightarrow> nat \<Rightarrow> nat" where
  "textLen text b e = length (filter (\<lambda>c. c \<noteq> 32 \<and> c \<noteq> 10 \<and> c \<noteq> 13) (take (e - b) (drop b text)))"

text \<open>\<open>string::find\<close>.\<close>

fun str_find :: "bytes \<Rightarrow> bytes \<Rightarrow> bool" where
  "str_find pat [] = (pat = [])"
| "str_find pat (c # s) = (take (length pat) (c # s) = pat \<or> str_find pat s)"

section \<open>Month names\<close>

definition month_names :: "bytes list" where
  "month_names = [[106, 97, 110], [102, 101, 98], [109, 97, 114], [97, 112, 114], [109, 97, 121], [106, 117, 110],
     [106, 117, 108], [97, 117, 103], [115, 101, 112], [111, 99, 116], [110, 111, 118], [100, 101, 99]]"

text \<open>A text that ends inside the name counts as a match.\<close>

fun word_match :: "bytes \<Rightarrow> bytes \<Rightarrow> bool" where
  "word_match text [] = True"
| "word_match [] (c # str) = True"
| "word_match (c0 # text) (c # str) = ((c0 = c \<or> c0 + 32 = c) \<and> word_match text str)"

definition matchWordIgoreCase :: "bytes \<Rightarrow> nat \<Rightarrow> bytes \<Rightarrow> int" where
  "matchWordIgoreCase text i str = (if word_match (drop i text) str then int i else -1)"

text \<open>The loop over the text, \<open>word\<close> telling whether the last character was a letter.\<close>

fun index_loop :: "bytes \<Rightarrow> bytes \<Rightarrow> nat \<Rightarrow> bytes \<Rightarrow> bool \<Rightarrow> int" where
  "index_loop text [] i str word = -1"
| "index_loop text (c # rest) i str word =
    (if isLetter c
     then if \<not> word
          then let p = matchWordIgoreCase text i str
               in if p \<ge> 0 then p else index_loop text rest (i + 1) str True
          else index_loop text rest (i + 1) str word
     else index_loop text rest (i + 1) str False)"

definition indexOfIgoreCase :: "bytes \<Rightarrow> bytes \<Rightarrow> int" where
  "indexOfIgoreCase text str = index_loop text text 0 str False"

text \<open>\<open>isHeaderOf\<close> reads the text with \<open>at\<close>, which throws past the end.\<close>

fun isHeaderOf :: "bytes \<Rightarrow> nat \<Rightarrow> bytes \<Rightarrow> bool result" where
  "isHeaderOf text p [] = Inr True"
| "isHeaderOf text p (c # hdr) =
    (if \<not> p < length text then Inl (Raise OutOfRange)
     else if text ! p \<noteq> c \<and> c - 32 \<noteq> text ! p then Inr False
     else isHeaderOf text (p + 1) hdr)"

text \<open>\<open>englishMonth\<close>: the length of the word at \<open>p\<close> if it begins with a month name and something follows it.\<close>

fun month_loop :: "bytes \<Rightarrow> nat \<Rightarrow> bytes list \<Rightarrow> int result" where
  "month_loop text p [] = Inr 0"
| "month_loop text p (m # ms) = bind_r (isHeaderOf text p m) (\<lambda>b.
    if b then let j = scan_from (\<lambda>c. \<not> isLetter c) (drop (p + 3) text) (p + 3)
              in if j \<noteq> -1 then Inr (j - int p) else month_loop text p ms
    else month_loop text p ms)"

text \<open>The guard is an unsigned subtraction.\<close>

definition englishMonth :: "bytes \<Rightarrow> nat \<Rightarrow> int result" where
  "englishMonth text p =
    (if (int (length text) - int p) mod 2 ^ 64 < 3 then Inr 0 else month_loop text p month_names)"

section \<open>Date formats\<close>

text \<open>
  \<open>isMatchedDateFormat\<close>: the loop of the matcher from positions \<open>i\<close> of the text and \<open>j\<close> of the format; the result is
  the number of characters matched or \<open>-1\<close>. One unit of fuel per character of the text is enough, as every round
  moves \<open>i\<close> forward.
\<close>

definition same_run :: "bytes \<Rightarrow> nat \<Rightarrow> nat" where
  "same_run f j = j + length (takeWhile (\<lambda>c. c = f ! j) (drop (j + 1) f))"

definition one_more_digit :: "bytes \<Rightarrow> nat \<Rightarrow> nat" where
  "one_more_digit s i = (if i + 1 < length s \<and> ISDIGIT (s ! (i + 1)) then i + 1 else i)"

fun match_loop :: "nat \<Rightarrow> bytes \<Rightarrow> bytes \<Rightarrow> nat \<Rightarrow> nat \<Rightarrow> nat \<Rightarrow> int result" where
  "match_loop 0 s f p i j = Inr (-1)"
| "match_loop (Suc n) s f p i j =
    (if \<not> i < length s then Inr (-1)
     else if \<not> j < length f then Inl (Raise OutOfRange)
     else let c0 = s ! i; quoted = (f ! j = 39); j = (if quoted then j + 1 else j)
     in if quoted \<and> j \<ge> length f then Inr (int i - int p)
        else let cf = f ! j;
                 finish = (\<lambda>i j. if j = length f - 1 then Inr (int i - int p + 1) else match_loop n s f p (i + 1) (j + 1))
        in if cf = 121
           then if \<not> ISDIGIT c0 \<and> c0 \<noteq> cf then Inr (-1) else finish i j
           else if cf = 109 \<or> cf = 77
           then bind_r (if \<not> ISDIGIT c0 \<and> c0 \<noteq> cf then englishMonth s i else Inr 1) (\<lambda>el.
                  if \<not> el > 0 then Inr (-1)
                  else finish (one_more_digit s (i + nat (el - 1))) (same_run f j))
           else if cf \<in> {72, 104, 115, 83, 68, 100}
           then if \<not> ISDIGIT c0 \<and> c0 \<noteq> cf then Inr (-1)
                else finish (one_more_digit s i) (if j + 1 < length f \<and> f ! (j + 1) = cf then j + 1 else j)
           else if c0 \<noteq> cf then Inr (-1) else finish i j)"

definition isMatchedDateFormat :: "bytes \<Rightarrow> bytes \<Rightarrow> nat \<Rightarrow> int result" where
  "isMatchedDateFormat s f p = match_loop (Suc (length s)) s f p p 0"

section \<open>HTML tags\<close>

text \<open>\<open>FilteTag\<close>: each tag becomes a space; the argument is the text still to copy.\<close>

definition after_tag :: "bytes \<Rightarrow> bytes" where
  "after_tag b = (case dropWhile (\<lambda>c. c \<noteq> 62) b of [] \<Rightarrow> b | _ # rest \<Rightarrow> rest)"

lemma after_tag_le: "length (after_tag b) \<le> length b"
  using length_dropWhile_le [of "\<lambda>c. c \<noteq> 62" b] by (auto simp: after_tag_def split: list.splits)

lemma after_open_shorter:
  assumes "dropWhile (\<lambda>c. c \<noteq> 60) s \<noteq> []"
  shows "length (after_tag (tl (dropWhile (\<lambda>c. c \<noteq> 60) s))) < length s"
  using assms after_tag_le [of "tl (dropWhile (\<lambda>c. c \<noteq> 60) s)"] length_dropWhile_le [of "\<lambda>c. c \<noteq> 60" s]
  by (cases "dropWhile (\<lambda>c. c \<noteq> 60) s") auto

function FilteTag :: "bytes \<Rightarrow> bytes" where
  "FilteTag s =
    (if dropWhile (\<lambda>c. c \<noteq> 60) s = [] then s
     else takeWhile (\<lambda>c. c \<noteq> 60) s @ [32] @ FilteTag (after_tag (tl (dropWhile (\<lambda>c. c \<noteq> 60) s))))"
  by pat_completeness auto
termination
  by (relation "measure length") (simp, simp only: in_measure after_open_shorter not_False_eq_True)

declare FilteTag.simps [simp del]

section \<open>Reading printed numbers\<close>

lemma digit_of_nat:
  assumes "n < 10" shows "ISDIGIT (of_nat (48 + n))" "digit_val (of_nat (48 + n)) = int n"
proof -
  have u: "unat (of_nat (48 + n) :: u8) = 48 + n" by (rule unat_of_nat_u8) (use assms in simp)
  show "ISDIGIT (of_nat (48 + n))" using assms unfolding ISDIGIT_def word_le_nat_alt u by simp
  show "digit_val (of_nat (48 + n)) = int n" unfolding digit_val_def u by simp
qed

lemma dec_nat_digits: "c \<in> set (dec_nat n) \<Longrightarrow> ISDIGIT c"
proof (induction n rule: dec_nat.induct)
  case (1 n)
  show ?case
  proof (cases "n < 10")
    case True
    then show ?thesis using 1(2) digit_of_nat(1) [of n] by (simp add: dec_nat.simps [of n])
  next
    case False
    then show ?thesis using 1 digit_of_nat(1) [of "n mod 10"] by (auto simp: dec_nat.simps [of n])
  qed
qed

lemma digits_val_snoc: "digits_val (ds @ [c]) = 10 * digits_val ds + digit_val c"
  by (simp add: digits_val_def)

lemma digits_val_dec_nat: "digits_val (dec_nat n) = int n"
proof (induction n rule: dec_nat.induct)
  case (1 n)
  show ?case
  proof (cases "n < 10")
    case True
    then show ?thesis using digit_of_nat(2) [of n] by (simp add: dec_nat.simps [of n] digits_val_def)
  next
    case False
    then have "digits_val (dec_nat n) = 10 * int (n div 10) + int (n mod 10)"
      using 1 [OF False] digit_of_nat(2) [of "n mod 10"] by (simp add: dec_nat.simps [of n] digits_val_snoc)
    moreover have "n = 10 * (n div 10) + n mod 10" by simp
    ultimately show ?thesis by (metis of_nat_add of_nat_mult of_nat_numeral)
  qed
qed

lemma pad2_digits: "c \<in> set (pad2 n) \<Longrightarrow> ISDIGIT c"
  using dec_nat_digits by (auto simp: pad2_def ISDIGIT_def split: if_splits)

lemma pad2_ne [simp]: "pad2 n \<noteq> []"
  by (simp add: pad2_def)

lemma digits_val_pad2: "digits_val (pad2 n) = int n"
proof -
  have "digits_val (48 # ds) = digits_val ds" for ds by (simp add: digits_val_def digit_val_def)
  then show ?thesis by (simp add: pad2_def digits_val_dec_nat)
qed

lemma digit_not_space: "ISDIGIT c \<Longrightarrow> \<not> is_space c \<and> c \<noteq> 45 \<and> c \<noteq> 43"
  by (auto simp: ISDIGIT_def is_space_def word_le_nat_alt)

lemma atoi_digits:
  assumes "ds \<noteq> []" "\<forall>c\<in>set ds. ISDIGIT c" "0 \<le> digits_val ds" "digits_val ds < 2 ^ 31"
  shows "atoi ds = digits_val ds" "\<not> ISDIGIT x \<Longrightarrow> atoi (ds @ x # r) = digits_val ds"
proof -
  obtain c t where ds: "ds = c # t" using assms(1) by (cases ds) auto
  have c: "\<not> is_space c" "c \<noteq> 45" "c \<noteq> 43" using assms(2) digit_not_space by (auto simp: ds)
  have t: "takeWhile ISDIGIT ds = ds" using assms(2) by (simp add: takeWhile_eq_all_conv)
  have v: "to_int (max (- (2 ^ 63)) (min (digits_val ds) (2 ^ 63 - 1))) = digits_val ds" using assms(3,4) by simp
  show "atoi ds = digits_val ds" using c t v by (simp add: atoi_def ds Let_def)
  assume x: "\<not> ISDIGIT x"
  have "takeWhile ISDIGIT (ds @ x # r) = ds" using assms(2) x by (simp add: takeWhile_append2)
  then show "atoi (ds @ x # r) = digits_val ds" using c v by (simp add: atoi_def ds Let_def)
qed

lemma atoi_dec_nat: "n < 2 ^ 31 \<Longrightarrow> atoi (dec_nat n) = int n"
  using atoi_digits(1) [of "dec_nat n"] dec_nat_digits by (simp add: digits_val_dec_nat)

lemma atoi_pad2: "n < 2 ^ 31 \<Longrightarrow> atoi (pad2 n) = int n"
  using atoi_digits(1) [of "pad2 n"] pad2_digits by (simp add: digits_val_pad2)

end
