(* ===== verification/HashDb.thy ===== *)
theory HashDb
  imports CText DateText
begin

text \<open>
  The hash database of \<open>src/tools/db.cpp\<close>: an index file of text records in hash chains and a data file, with
  a list of free records. Files are byte lists; the file calls of \<open>sysutil.c\<close> do what the system call does on a
  regular file, with a disk that takes every write. One call at a time is modelled, so the read/write locks
  do not appear. A buffer whose bytes the code has not determined is \<open>None\<close>, and looking at one is a fault; a walk
  along a chain that comes back to itself is the fault \<open>LoopsForEver\<close>.
\<close>

section \<open>Constants\<close>

definition PTR_SZ :: nat where "PTR_SZ = 9"
definition IDXLEN_SZ :: nat where "IDXLEN_SZ = 4"
definition IDXLEN_MIN :: int where "IDXLEN_MIN = 6"
definition IDXLEN_MAX :: int where "IDXLEN_MAX = 4096"
definition SEP :: u8 where "SEP = 58"
definition DATLEN_MIN :: int where "DATLEN_MIN = 0"
definition DATLEN_MAX :: int where "DATLEN_MAX = 1024 * 1024 * 2"
definition DATA_FILELEN_MAX :: int where "DATA_FILELEN_MAX = 2000000000"
definition PTR_MAX :: int where "PTR_MAX = 999999999"
definition NHASH_DEF :: int where "NHASH_DEF = 1572869"
definition FREE_OFF :: int where "FREE_OFF = 0"
definition HASH_OFF :: int where "HASH_OFF = 9"
definition IDX_RANGE :: int where "IDX_RANGE = 1000"
definition DAT_RANGE :: int where "DAT_RANGE = 1024 * 3"
definition IS_FREE_SPACE :: int where "IS_FREE_SPACE = 1"
definition IS_NOT_FREE_SPACE :: int where "IS_NOT_FREE_SPACE = 0"

text \<open>The flags of \<open>db_store\<close>: \<open>DB_INSERT\<close> and \<open>DB_REPLACE\<close>.\<close>

datatype store_flag = DB_INSERT | DB_REPLACE

text \<open>Where a write goes: \<open>SEEK_SET\<close> or \<open>SEEK_END\<close>.\<close>

datatype whence = SEEK_SET | SEEK_END

section \<open>Numbers and files\<close>

text \<open>\<open>atol\<close>, which saturates; a number stored in a \<open>size_t\<close>; a text right-justified in a field, as by \<open>%*ld\<close>.\<close>

definition atol :: "bytes \<Rightarrow> int" where
  "atol s =
    (let s = dropWhile is_space s;
         (neg, s) = (case s of [] \<Rightarrow> (False, s) | c # t \<Rightarrow> if c = 45 then (True, t) else if c = 43 then (False, t) else (False, s));
         v = digits_val (takeWhile ISDIGIT s);
         v = (if neg then - v else v)
     in max (- (2 ^ 63)) (min v (2 ^ 63 - 1)))"

definition to_size :: "int \<Rightarrow> int" where
  "to_size x = x mod 2 ^ 64"

definition pad_left :: "nat \<Rightarrow> bytes \<Rightarrow> bytes" where
  "pad_left w t = replicate (w - length t) 32 @ t"

definition pad_right :: "nat \<Rightarrow> bytes \<Rightarrow> bytes" where
  "pad_right w t = t @ replicate (w - length t) 32"

text \<open>Reading and writing at a position; a negative position is refused, a gap is filled with zeros.\<close>

definition os_pread :: "bytes \<Rightarrow> nat \<Rightarrow> int \<Rightarrow> bytes" where
  "os_pread f len off = (if off < 0 then [] else take len (drop (nat off) f))"

definition os_physpwrite :: "bytes \<Rightarrow> bytes \<Rightarrow> int \<Rightarrow> bytes" where
  "os_physpwrite f buf off =
    (if off < 0 \<or> buf = [] then f
     else take (nat off) f @ replicate (nat off - length f) 0 @ buf @ drop (nat off + length buf) f)"

section \<open>The structures\<close>

text \<open>\<open>FSDBD\<close>: one element of the list of free records.\<close>

record fsdbd =
  fs_offset :: int
  fs_datlen :: int
  fs_idxlen_a :: int

text \<open>\<open>DB\<close>: the two files in place of their descriptors.\<close>

record hdb =
  idxfile :: bytes
  datfile :: bytes
  hashoff :: int
  nhash :: int
  cnt_delok :: int
  cnt_delerr :: int
  cnt_fetchok :: int
  cnt_fetcherr :: int
  cnt_nextrec :: int
  cnt_stor1 :: int
  cnt_stor2 :: int
  cnt_stor3 :: int
  cnt_stor4 :: int
  cnt_storerr :: int
  idx_len :: int
  dat_len :: int
  free_list :: "fsdbd list"

text \<open>\<open>DBD\<close>: one record on its way between the files and the caller. \<open>idxbuf\<close> is the C string in the buffer.\<close>

record dbd =
  idxbuf :: "bytes option"
  datbuf :: "bytes option"
  idxoff :: int
  datoff :: int
  chainoff :: int
  ptroff :: int
  ptrval :: int
  datlen :: int
  idxlen :: int
  isfree :: int
  datlen_u :: int
  idxlen_u :: int
  idxlen_a :: int

definition dbd_alloc :: dbd where
  "dbd_alloc = \<lparr>idxbuf = None, datbuf = None, idxoff = 0, datoff = 0, chainoff = 0, ptroff = 0, ptrval = 0,
    datlen = 0, idxlen = 0, isfree = 0, datlen_u = 0, idxlen_u = 0, idxlen_a = 0\<rparr>"

definition db_copy :: "dbd \<Rightarrow> dbd \<Rightarrow> dbd" where
  "db_copy src des = des\<lparr>datlen := datlen src, idxlen := idxlen src, datlen_u := datlen_u src, idxlen_u := idxlen_u src,
    idxlen_a := idxlen_a src, idxoff := idxoff src, datoff := datoff src, ptrval := ptrval src,
    idxbuf := map_option (take (nat (idxlen_a src))) (idxbuf src)\<rparr>"

text \<open>\<open>_db_hash\<close>: \<open>nhash\<close> is never 0, \<open>db_open\<close> sets it.\<close>

definition db_hash :: "hdb \<Rightarrow> bytes \<Rightarrow> int" where
  "db_hash db key = uint (hash_sum 1 key mod of_int (nhash db))"

definition db_chain_off :: "hdb \<Rightarrow> bytes \<Rightarrow> int" where
  "db_chain_off db key = db_hash db key * int PTR_SZ + hashoff db"

section \<open>Pointers and records of the index file\<close>

definition db_readptr :: "hdb \<Rightarrow> int \<Rightarrow> int result" where
  "db_readptr db off =
    (let b = os_pread (idxfile db) PTR_SZ off in if length b = PTR_SZ then Inr (atol b) else Inl Uninitialised)"

text \<open>A value that does not fit is only logged; one of more than nine characters overflows \<open>asciiptr\<close>.\<close>

definition db_writeptr :: "hdb \<Rightarrow> int \<Rightarrow> int \<Rightarrow> hdb result" where
  "db_writeptr db off p =
    (let t = pad_left PTR_SZ (dec_int p)
     in if PTR_SZ < length t then Inl BufferOverflow else Inr (db\<lparr>idxfile := os_physpwrite (idxfile db) t off\<rparr>))"

text \<open>
  The fields of an index record are cut off from the right at the separators. When one is missing, the buffer is left as
  cut so far.
\<close>

definition rchop :: "bytes \<Rightarrow> (bytes \<times> bytes) option" where
  "rchop s = (let t = takeWhile (\<lambda>c. c \<noteq> SEP) (rev s)
     in if length t = length s then None else Some (take (length s - length t - 1) s, rev t))"

fun chop_fields :: "nat \<Rightarrow> bytes \<Rightarrow> bytes list \<Rightarrow> bytes \<times> bytes list" where
  "chop_fields 0 s fs = (s, fs)"
| "chop_fields (Suc n) s fs = (case rchop s of None \<Rightarrow> (s, fs) | Some (k, f) \<Rightarrow> chop_fields n k (f # fs))"

text \<open>The second half of \<open>_db_readidx\<close>: from the check of the newline on.\<close>

definition parse_idx :: "dbd \<Rightarrow> bytes \<Rightarrow> (int \<times> dbd) result" where
  "parse_idx d raw =
    (if last raw \<noteq> 10 then Inr (-1, d\<lparr>idxbuf := None\<rparr>) else
     let (key, fs) = chop_fields 5 (c_str (butlast raw)) []; d = d\<lparr>idxbuf := Some key\<rparr> in
     case fs of
       [p2, p1, p3, p4, p5] \<Rightarrow>
         let d = d\<lparr>datoff := atol p2\<rparr> in
         if datoff d < 0 then Inr (-1, d) else
         let d = d\<lparr>datlen := to_size (atol p1)\<rparr> in
         if datlen d < DATLEN_MIN \<or> DATLEN_MAX < datlen d then Inr (-1, d) else
         let d = d\<lparr>idxlen_u := to_size (atol p3), datlen_u := to_size (atol p4), isfree := to_int (atol p5)\<rparr> in
         if isfree d < 0 then Inr (-1, d) else
         let d = d\<lparr>idxlen_a := int (length key)\<rparr> in
         if IDXLEN_MAX + 2 \<le> idxlen_u d then Inl OutOfBounds
         else Inr (ptrval d, d\<lparr>idxbuf := Some (take (nat (idxlen_u d)) key)\<rparr>)
     | _ \<Rightarrow> Inr (-1, d))"

text \<open>
  \<open>_db_readidx\<close>: the next pointer of the record at an offset, or -1; the record; and the offset behind the record when
  it has been read.
\<close>

definition db_readidx :: "hdb \<Rightarrow> dbd \<Rightarrow> int \<Rightarrow> (int \<times> dbd \<times> int option) result" where
  "db_readidx db d off =
    (let d = d\<lparr>idxoff := off\<rparr>;
         asciiptr = os_pread (idxfile db) PTR_SZ off;
         asciilen = os_pread (idxfile db) IDXLEN_SZ (off + int PTR_SZ)
     in if length asciiptr \<noteq> PTR_SZ \<or> length asciilen \<noteq> IDXLEN_SZ then Inr (-1, d, None) else
     let d = d\<lparr>ptrval := atol asciiptr, idxlen := to_size (atoi asciilen)\<rparr> in
     if idxlen d < IDXLEN_MIN \<or> IDXLEN_MAX < idxlen d then Inr (-1, d, None) else
     let raw = os_pread (idxfile db) (nat (idxlen d)) (off + int PTR_SZ + int IDXLEN_SZ) in
     if int (length raw) \<noteq> idxlen d then Inr (-1, d\<lparr>idxbuf := None\<rparr>, None) else
     bind_r (parse_idx d raw) (\<lambda>(ret, d). Inr (ret, d, Some (off + int PTR_SZ + int IDXLEN_SZ + int (length raw)))))"

text \<open>
  \<open>_db_writeidx\<close>: the text of the record is padded to the length of the record it replaces, and goes to the end of the
  file when it is longer. \<open>_db_dodelete\<close> passes \<open>idxbuf\<close> itself as the key: the text then starts with the bytes it
  is copied over, so they stay.
\<close>

definition idx_text :: "dbd \<Rightarrow> bytes \<Rightarrow> bytes" where
  "idx_text d key = pad_right (nat (idxlen_a d)) key @ SEP # dec_int (datoff d) @ SEP # dec_int (to_int (datlen d))
    @ SEP # dec_int (to_int (int (length key))) @ SEP # dec_int (to_int (datlen_u d)) @ SEP # dec_int (isfree d) @ [10]"

definition write_at :: "hdb \<Rightarrow> dbd \<Rightarrow> bytes \<Rightarrow> int \<Rightarrow> int \<Rightarrow> dbd \<times> hdb" where
  "write_at db d t off p =
    (let head = pad_left PTR_SZ (dec_int p) @ pad_left IDXLEN_SZ (dec_int (int (length t)))
     in (d\<lparr>idxoff := off\<rparr>,
         db\<lparr>idxfile := os_physpwrite (os_physpwrite (idxfile db) head off) t (off + int (PTR_SZ + IDXLEN_SZ))\<rparr>))"

definition db_writeidx :: "hdb \<Rightarrow> dbd \<Rightarrow> bytes \<Rightarrow> int \<Rightarrow> whence \<Rightarrow> int \<Rightarrow> (int \<times> dbd \<times> hdb) result" where
  "db_writeidx db d key off wh p =
    (let d = d\<lparr>ptrval := p\<rparr> in
     if p < 0 \<or> PTR_MAX < p then Inr (-2, d, db) else
     let t = idx_text d key in
     if IDXLEN_MAX + 2 < int (length t) + 1 then Inl BufferOverflow else
     let d = d\<lparr>idxbuf := Some (c_str t)\<rparr> in
     if int (length t) < IDXLEN_MIN \<or> IDXLEN_MAX < int (length t) then Inr (-1, d, db) else
     let (t, d) = (if int (length t) < idxlen d then (butlast t @ replicate (nat (idxlen d) - length t) 32 @ [10], d\<lparr>idxbuf := None\<rparr>)
                   else (t, d));
         wh = (if idxlen d < int (length t) then SEEK_END else wh);
         (off, db) = (if wh = SEEK_END then (idx_len db, db\<lparr>idx_len := idx_len db + int (length t + PTR_SZ + IDXLEN_SZ)\<rparr>) else (off, db));
         (d, db) = write_at db d t off p
     in Inr (0, d, db))"

section \<open>The data file\<close>

definition db_writedat_bin :: "hdb \<Rightarrow> dbd \<Rightarrow> bytes \<Rightarrow> int \<Rightarrow> whence \<Rightarrow> dbd \<times> hdb" where
  "db_writedat_bin db d data off wh =
    (let len = int (length data);
         (off, d, db) = (if wh = SEEK_END
           then (dat_len db, d\<lparr>datlen := len, datlen_u := len\<rparr>, db\<lparr>dat_len := dat_len db + len\<rparr>)
           else (off, d\<lparr>datlen_u := len\<rparr>, db))
     in (d\<lparr>datoff := off\<rparr>, db\<lparr>datfile := os_physpwrite (datfile db) data off\<rparr>))"

text \<open>\<open>_db_readdat_bin\<close>: the buffer is cleared first; what the file has not is left at zero, and nobody looks at the result.\<close>

definition db_readdat_bin :: "hdb \<Rightarrow> dbd \<Rightarrow> dbd" where
  "db_readdat_bin db d =
    (let b = os_pread (datfile db) (nat (datlen_u d)) (datoff d)
     in d\<lparr>datbuf := Some (b @ replicate (nat (datlen_u d) - length b) 0)\<rparr>)"

definition db_is_enough_file_space :: "hdb \<Rightarrow> int \<Rightarrow> int \<Rightarrow> int" where
  "db_is_enough_file_space db ilen dlen =
    (if DATA_FILELEN_MAX < dat_len db + dlen then 1 else if PTR_MAX < idx_len db + ilen then 2 else 0)"

section \<open>Looking a key up\<close>

text \<open>
  The walk along a chain. The fuel is one more than the bytes of the file: a walk with more steps has been at some
  offset twice and never ends.
\<close>

fun find_loop :: "nat \<Rightarrow> hdb \<Rightarrow> bytes \<Rightarrow> dbd \<Rightarrow> int \<Rightarrow> int \<Rightarrow> (int \<times> int \<times> dbd) result" where
  "find_loop 0 db key new ptr off = Inl LoopsForEver"
| "find_loop (Suc n) db key new ptr off =
    (if off \<le> 0 then Inr (off, ptr, new) else
     bind_r (db_readidx db new off) (\<lambda>(next, new, _).
       case idxbuf new of
         None \<Rightarrow> Inl Uninitialised
       | Some k \<Rightarrow> if k = key then Inr (off, ptr, new) else find_loop n db key new off next))"

definition find_chain :: "hdb \<Rightarrow> dbd \<Rightarrow> dbd \<Rightarrow> bytes \<Rightarrow> (int \<times> dbd) result" where
  "find_chain db new d key =
    bind_r (db_readptr db (ptroff d)) (\<lambda>off.
    bind_r (find_loop (Suc (length (idxfile db))) db key new (ptroff d) off) (\<lambda>(off, ptr, new).
      let d = d\<lparr>ptroff := ptr\<rparr> in Inr (if off \<le> 0 then (-1, d) else (0, db_copy new d))))"

text \<open>\<open>_db_find\<close>: first at the offset the caller remembers, if any, then along the chain of the key.\<close>

definition db_find :: "hdb \<Rightarrow> dbd \<Rightarrow> bytes \<Rightarrow> int \<Rightarrow> (int \<times> dbd) result" where
  "db_find db d key idx_offset =
    (let d = d\<lparr>chainoff := db_chain_off db key, ptroff := db_chain_off db key\<rparr> in
     if idx_offset = 0 then find_chain db dbd_alloc d key else
     bind_r (db_readidx db dbd_alloc idx_offset) (\<lambda>(ret, new, _).
       if 0 \<le> ret \<and> idxbuf new = Some key then Inr (0, db_copy new d) else find_chain db new d key))"

definition db_find_by_chainoff :: "hdb \<Rightarrow> dbd \<Rightarrow> int \<Rightarrow> (int \<times> dbd) result" where
  "db_find_by_chainoff db d off =
    (let d = d\<lparr>chainoff := off, ptroff := off\<rparr> in
     bind_r (db_readptr db off) (\<lambda>off.
       if off \<le> 0 then Inr (-1, d) else
       bind_r (db_readidx db dbd_alloc off) (\<lambda>(ret, new, _). Inr (if ret < 0 then (-1, d) else (0, db_copy new d)))))"

section \<open>The list of free records\<close>

definition db_cache_add :: "hdb \<Rightarrow> dbd \<Rightarrow> hdb" where
  "db_cache_add db d =
    db\<lparr>free_list := \<lparr>fs_offset = idxoff d, fs_datlen = datlen d, fs_idxlen_a = idxlen_a d\<rparr> # free_list db\<rparr>"

definition size_fits :: "int \<Rightarrow> int \<Rightarrow> int \<Rightarrow> int \<Rightarrow> bool" where
  "size_fits ilen dlen keylen len \<longleftrightarrow> keylen \<le> ilen \<and> ilen < keylen + IDX_RANGE \<and> len \<le> dlen \<and> dlen < len + DAT_RANGE"

text \<open>
  \<open>_db_findfree_cache\<close>: the first free record of about the right size. What is found comes with the offset of the pointer to it
  and the list without it (\<open>_db_cache_delete\<close>). A record that cannot be read is freed and then looked at.
\<close>

fun findfree_loop :: "hdb \<Rightarrow> int \<Rightarrow> int \<Rightarrow> dbd \<Rightarrow> int \<Rightarrow> fsdbd list \<Rightarrow> (dbd \<times> int \<times> fsdbd list) option result" where
  "findfree_loop db keylen len new save [] = Inr None"
| "findfree_loop db keylen len new save (item # rest) =
    (if size_fits (fs_idxlen_a item) (fs_datlen item) keylen len then
       bind_r (db_readidx db new (fs_offset item)) (\<lambda>(ret, new, _).
         if 0 \<le> ret then Inr (Some (new, save, rest)) else Inl UseAfterFree)
     else
       bind_r (findfree_loop db keylen len new (fs_offset item) rest) (\<lambda>r.
         Inr (map_option (\<lambda>(new, save, rest). (new, save, item # rest)) r)))"

definition db_findfree_cache :: "hdb \<Rightarrow> dbd \<Rightarrow> int \<Rightarrow> int \<Rightarrow> (int \<times> dbd \<times> hdb) result" where
  "db_findfree_cache db d keylen len =
    bind_r (findfree_loop db keylen len dbd_alloc FREE_OFF (free_list db)) (\<lambda>r.
      case r of
        None \<Rightarrow> Inr (-1, d, db)
      | Some (new, save, rest) \<Rightarrow>
          let d = db_copy new d in
          bind_r (db_writeptr db save (ptrval d)) (\<lambda>db. Inr (0, d, db\<lparr>free_list := rest\<rparr>)))"

text \<open>\<open>_db_findfree\<close>, which walks the list in the file and is no longer called.\<close>

fun findfree_disk :: "nat \<Rightarrow> hdb \<Rightarrow> int \<Rightarrow> int \<Rightarrow> dbd \<Rightarrow> dbd \<Rightarrow> int \<Rightarrow> int \<Rightarrow> (int \<times> int \<times> dbd) result" where
  "findfree_disk 0 db keylen len new d save off = Inl LoopsForEver"
| "findfree_disk (Suc n) db keylen len new d save off =
    (if off \<le> 0 then Inr (off, save, d) else
     bind_r (db_readidx db new off) (\<lambda>(next, new, _).
       if 0 \<le> next \<and> size_fits (idxlen_a new) (datlen new) keylen len then Inr (off, save, db_copy new d)
       else findfree_disk n db keylen len new d off next))"

definition db_findfree :: "hdb \<Rightarrow> dbd \<Rightarrow> int \<Rightarrow> int \<Rightarrow> (int \<times> dbd \<times> hdb) result" where
  "db_findfree db d keylen len =
    bind_r (db_readptr db FREE_OFF) (\<lambda>off.
    bind_r (findfree_disk (Suc (length (idxfile db))) db keylen len dbd_alloc d FREE_OFF off) (\<lambda>(off, save, d).
      if off \<le> 0 then Inr (-1, d, db)
      else bind_r (db_writeptr db save (ptrval d)) (\<lambda>db. Inr (0, d, db))))"

section \<open>Deleting\<close>

definition db_dodelete :: "hdb \<Rightarrow> dbd \<Rightarrow> hdb result" where
  "db_dodelete db d =
    (case idxbuf d of
       None \<Rightarrow> Inl Uninitialised
     | Some key \<Rightarrow>
         let blank = replicate (length key) 32 in
         bind_r (db_readptr db FREE_OFF) (\<lambda>freeptr.
         let saveptr = ptrval d; d = d\<lparr>isfree := IS_FREE_SPACE\<rparr> in
         bind_r (db_writeidx db d blank (idxoff d) SEEK_SET freeptr) (\<lambda>(_, d, db).
         bind_r (db_writeptr db FREE_OFF (idxoff d)) (\<lambda>db.
         bind_r (db_writeptr db (ptroff d) saveptr) (\<lambda>db.
         Inr (db_cache_add db d))))))"

definition db_delete :: "hdb \<Rightarrow> bytes \<Rightarrow> (int \<times> hdb) result" where
  "db_delete db key =
    bind_r (db_find db dbd_alloc key 0) (\<lambda>(ret, d).
      if ret = 0 then bind_r (db_dodelete db d) (\<lambda>db. Inr (0, db\<lparr>cnt_delok := cnt_delok db + 1\<rparr>))
      else Inr (-1, db\<lparr>cnt_delerr := cnt_delerr db + 1\<rparr>))"

section \<open>Fetching\<close>

text \<open>A remembered position is \<open>None\<close> for a null \<open>POS\<close>, and is set to the offset of the record that was found.\<close>

definition db_fetch :: "hdb \<Rightarrow> bytes \<Rightarrow> int option \<Rightarrow> (dbd option \<times> int option \<times> hdb) result" where
  "db_fetch db key pos =
    bind_r (db_find db dbd_alloc key (case pos of None \<Rightarrow> 0 | Some o' \<Rightarrow> o')) (\<lambda>(ret, d).
      if ret < 0 then Inr (None, pos, db\<lparr>cnt_fetcherr := cnt_fetcherr db + 1\<rparr>)
      else let d = db_readdat_bin db d
           in Inr (Some d, map_option (\<lambda>_. idxoff d) pos, db\<lparr>cnt_fetchok := cnt_fetchok db + 1\<rparr>))"

definition db_fetch_directly :: "hdb \<Rightarrow> bytes \<Rightarrow> int \<Rightarrow> dbd option \<times> hdb" where
  "db_fetch_directly db key pos =
    (let d = dbd_alloc\<lparr>datoff := pos, chainoff := db_chain_off db key\<rparr>
     in (Some (db_readdat_bin db d), db\<lparr>cnt_fetchok := cnt_fetchok db + 1\<rparr>))"

definition db_fetch_by_chainoff :: "hdb \<Rightarrow> int \<Rightarrow> dbd option result" where
  "db_fetch_by_chainoff db off =
    bind_r (db_find_by_chainoff db dbd_alloc off) (\<lambda>(ret, d).
      Inr (if ret < 0 then None else Some (db_readdat_bin db d)))"

text \<open>\<open>db_rewind\<close> and \<open>db_nextrec\<close>: the records in the order of the file, without the free ones.\<close>

definition db_rewind :: "hdb \<Rightarrow> dbd \<Rightarrow> dbd" where
  "db_rewind db d = d\<lparr>idxoff := (nhash db + 1) * int PTR_SZ + 1\<rparr>"

fun nextrec_loop :: "nat \<Rightarrow> hdb \<Rightarrow> dbd \<Rightarrow> int \<Rightarrow> (dbd option \<times> int) result" where
  "nextrec_loop 0 db d last_offset = Inl LoopsForEver"
| "nextrec_loop (Suc n) db d last_offset =
    bind_r (db_readidx db d last_offset) (\<lambda>(ret, d, next).
      let last_offset = (case next of None \<Rightarrow> last_offset | Some o' \<Rightarrow> o') in
      if ret < 0 then Inr (None, last_offset)
      else if isfree d \<noteq> 0 then nextrec_loop n db d last_offset
      else Inr (Some d, last_offset))"

definition db_nextrec :: "hdb \<Rightarrow> dbd option \<Rightarrow> int \<Rightarrow> (dbd option \<times> int \<times> hdb) result" where
  "db_nextrec db dbd_last last_offset =
    (let (d, last_offset) = (case dbd_last of
         Some d \<Rightarrow> (d\<lparr>datbuf := None\<rparr>, last_offset)
       | None \<Rightarrow> (db_rewind db dbd_alloc, idxoff (db_rewind db dbd_alloc)))
     in bind_r (nextrec_loop (Suc (length (idxfile db))) db d last_offset) (\<lambda>(r, last_offset).
       case r of
         None \<Rightarrow> Inr (None, last_offset, db)
       | Some d \<Rightarrow> Inr (Some (db_readdat_bin db d), last_offset, db\<lparr>cnt_nextrec := cnt_nextrec db + 1\<rparr>)))"

section \<open>Storing\<close>

text \<open>A new record at the ends of the files, for a chain that starts with \<open>p\<close>.\<close>

definition append_record :: "hdb \<Rightarrow> dbd \<Rightarrow> bytes \<Rightarrow> bytes \<Rightarrow> int \<Rightarrow> (dbd \<times> hdb) result" where
  "append_record db d key data p =
    (let (d, db) = db_writedat_bin db (d\<lparr>idxlen_u := int (length key)\<rparr>) data 0 SEEK_END in
     bind_r (db_writeidx db d key 0 SEEK_END p) (\<lambda>(_, d, db).
     bind_r (db_writeptr db (chainoff d) (idxoff d)) (\<lambda>db. Inr (d, db))))"

text \<open>A record in the place of a free one.\<close>

definition reuse_record :: "hdb \<Rightarrow> dbd \<Rightarrow> bytes \<Rightarrow> bytes \<Rightarrow> int \<Rightarrow> (dbd \<times> hdb) result" where
  "reuse_record db d key data p =
    (let (d, db) = db_writedat_bin db d data (datoff d) SEEK_SET in
     bind_r (db_writeidx db d key (idxoff d) SEEK_SET p) (\<lambda>(_, d, db).
     bind_r (db_writeptr db (chainoff d) (idxoff d)) (\<lambda>db. Inr (d, db))))"

text \<open>The key is not there: \<open>None\<close> is the answer 2, no room.\<close>

definition insert_record :: "hdb \<Rightarrow> dbd \<Rightarrow> bytes \<Rightarrow> bytes \<Rightarrow> (dbd option \<times> hdb) result" where
  "insert_record db d key data =
    bind_r (db_readptr db (chainoff d)) (\<lambda>p.
    bind_r (db_findfree_cache db d (int (length key)) (int (length data))) (\<lambda>(ret, d, db).
      if ret < 0 then
        if db_is_enough_file_space db (int (length key)) (int (length data)) \<noteq> 0 then Inr (None, db)
        else bind_r (append_record db d key data p) (\<lambda>(d, db). Inr (Some d, db\<lparr>cnt_stor1 := cnt_stor1 db + 1\<rparr>))
      else bind_r (reuse_record db d key data p) (\<lambda>(d, db). Inr (Some d, db\<lparr>cnt_stor2 := cnt_stor2 db + 1\<rparr>))))"

text \<open>The key is there, and its record too short: it is deleted before room for a new one is looked for.\<close>

definition regrow_record :: "hdb \<Rightarrow> dbd \<Rightarrow> bytes \<Rightarrow> bytes \<Rightarrow> (dbd option \<times> hdb) result" where
  "regrow_record db d key data =
    bind_r (db_delete db key) (\<lambda>(_, db).
    bind_r (db_findfree_cache db d (int (length key)) (int (length data))) (\<lambda>(ret, d, db).
      if ret < 0 then
        bind_r (db_readptr db (db_chain_off db key)) (\<lambda>p.
        if db_is_enough_file_space db (int (length key)) (int (length data)) \<noteq> 0 then Inr (None, db)
        else bind_r (append_record db d key data p) (\<lambda>(d, db). Inr (Some d, db\<lparr>cnt_stor3 := cnt_stor3 db + 1\<rparr>)))
      else
        let (d, db) = db_writedat_bin db d data (datoff d) SEEK_SET in
        bind_r (db_readptr db (db_chain_off db key)) (\<lambda>p.
        bind_r (db_writeidx db d key (idxoff d) SEEK_SET p) (\<lambda>(_, d, db).
        bind_r (db_writeptr db (chainoff d) (idxoff d)) (\<lambda>db.
          Inr (Some d, db\<lparr>cnt_stor2 := cnt_stor2 db + 1\<rparr>))))))"

text \<open>The key is there, and its record long enough.\<close>

definition overwrite_record :: "hdb \<Rightarrow> dbd \<Rightarrow> bytes \<Rightarrow> bytes \<Rightarrow> (dbd option \<times> hdb) result" where
  "overwrite_record db d key data =
    (let (d, db) = db_writedat_bin db d data (datoff d) SEEK_SET in
     bind_r (db_writeidx db d key (idxoff d) SEEK_SET (ptrval d)) (\<lambda>(_, d, db).
       Inr (Some d, db\<lparr>cnt_stor4 := cnt_stor4 db + 1\<rparr>)))"

definition db_store :: "hdb \<Rightarrow> bytes \<Rightarrow> bytes \<Rightarrow> store_flag \<Rightarrow> int option \<Rightarrow> (int \<times> int option \<times> hdb) result" where
  "db_store db key data flag pos =
    (let len = int (length data); d = dbd_alloc\<lparr>isfree := IS_NOT_FREE_SPACE\<rparr>;
         stored = (\<lambda>(r, db). Inr (case r of None \<Rightarrow> (2, pos, db) | Some d \<Rightarrow> (0, map_option (\<lambda>_. idxoff d) pos, db)))
     in if len < DATLEN_MIN \<or> DATLEN_MAX < len then Inr (3, pos, db) else
     bind_r (db_find db d key (case pos of None \<Rightarrow> 0 | Some o' \<Rightarrow> o')) (\<lambda>(ret, d).
       if ret < 0 then
         if flag = DB_REPLACE then Inr (-1, pos, db\<lparr>cnt_storerr := cnt_storerr db + 1\<rparr>)
         else bind_r (insert_record db d key data) stored
       else
         if flag = DB_INSERT then Inr (1, pos, db\<lparr>cnt_storerr := cnt_storerr db + 1\<rparr>)
         else if datlen d < len then bind_r (regrow_record db d key data) stored
         else bind_r (overwrite_record db d key data) stored))"

section \<open>Opening\<close>

text \<open>The template of an empty index file: the free list, the hash table and a newline.\<close>

definition db_template :: "nat \<Rightarrow> bytes" where
  "db_template n = concat (replicate (n + 1) (pad_left PTR_SZ (dec_int 0))) @ [10]"

text \<open>
  \<open>_db_retrieve_free_space\<close>. A record that cannot be read gives the next offset -1, which cannot be read either: the loop
  goes on for ever.
\<close>

fun retrieve_loop :: "nat \<Rightarrow> hdb \<Rightarrow> dbd \<Rightarrow> int \<Rightarrow> fsdbd list result" where
  "retrieve_loop 0 db d off = Inl LoopsForEver"
| "retrieve_loop (Suc n) db d off =
    (if off = 0 then Inr [] else
     bind_r (db_readidx db d off) (\<lambda>(next, d, _).
     bind_r (retrieve_loop n db d next) (\<lambda>items.
       Inr (\<lparr>fs_offset = off, fs_datlen = datlen d, fs_idxlen_a = idxlen_a d\<rparr> # items))))"

definition db_retrieve_free_space :: "hdb \<Rightarrow> fsdbd list result" where
  "db_retrieve_free_space db =
    bind_r (db_readptr db FREE_OFF) (\<lambda>off. retrieve_loop (Suc (length (idxfile db))) db dbd_alloc off)"

text \<open>
  \<open>db_open\<close> on files that are there, or on new ones that start as a copy of the template. The number of chains
  is \<open>NHASH_DEF\<close>; it is an argument here, so that the model can also be run with a short table.
\<close>

definition db_setup :: "int \<Rightarrow> bytes \<Rightarrow> bytes \<Rightarrow> hdb result" where
  "db_setup n idx dat =
    (let db = \<lparr>idxfile = idx, datfile = dat, hashoff = HASH_OFF, nhash = n, cnt_delok = 0, cnt_delerr = 0, cnt_fetchok = 0,
       cnt_fetcherr = 0, cnt_nextrec = 0, cnt_stor1 = 0, cnt_stor2 = 0, cnt_stor3 = 0, cnt_stor4 = 0, cnt_storerr = 0,
       idx_len = 0, dat_len = 0, free_list = []\<rparr>
     in bind_r (db_retrieve_free_space db) (\<lambda>fl.
       Inr (db\<lparr>dat_len := int (length dat), idx_len := int (length idx), free_list := fl\<rparr>)))"

definition db_open :: "(bytes \<times> bytes) option \<Rightarrow> hdb result" where
  "db_open files =
    (case files of
       Some (idx, dat) \<Rightarrow> db_setup NHASH_DEF idx dat
     | None \<Rightarrow> db_setup NHASH_DEF (db_template (nat NHASH_DEF)) [])"

definition db_stats :: "hdb \<Rightarrow> hdb" where
  "db_stats db = db\<lparr>cnt_delok := 0, cnt_delerr := 0, cnt_fetchok := 0, cnt_fetcherr := 0, cnt_nextrec := 0,
     cnt_stor1 := 0, cnt_stor2 := 0, cnt_stor3 := 0, cnt_stor4 := 0, cnt_storerr := 0\<rparr>"

end
