(* ===== verification/HashDbFile.thy ===== *)
theory HashDbFile
  imports HashDb
begin

text \<open>
  The bytes of the files of the hash database: what a write leaves alone, the text of an index record and how it is read
  back, and the layout of a whole database: pointers at the start of the index file, records behind them, each with its
  place in the data file.
\<close>

section \<open>Texts in files\<close>

definition holds :: "bytes \<Rightarrow> nat \<Rightarrow> bytes \<Rightarrow> bool" where
  "holds f p t \<longleftrightarrow> p + length t \<le> length f \<and> take (length t) (drop p f) = t"

lemma holds_append: "holds f p (s @ t) \<longleftrightarrow> holds f p s \<and> holds f (p + length s) t"
proof -
  have "take (length s + length t) (drop p f) = take (length s) (drop p f) @ take (length t) (drop (p + length s) f)"
    by (simp add: take_add add.commute)
  moreover have "length (take (length s) (drop p f)) = length s" if "p + length s \<le> length f" using that by simp
  ultimately show ?thesis unfolding holds_def by (metis (no_types, opaque_lifting) add.assoc add_leE append_eq_append_conv length_append)
qed

lemma pread_holds: "holds f p t \<Longrightarrow> length t = n \<Longrightarrow> os_pread f n (int p) = t"
  by (auto simp: holds_def os_pread_def)

lemma length_write: "p + length t \<le> length f \<Longrightarrow> length (os_physpwrite f t (int p)) = length f"
  by (auto simp: os_physpwrite_def)

lemma length_write_end: "length (os_physpwrite f t (int (length f))) = length f + length t"
  by (auto simp: os_physpwrite_def)

lemma write_there: "p \<le> length f \<Longrightarrow> holds (os_physpwrite f t (int p)) p t"
  by (auto simp: holds_def os_physpwrite_def)

lemma write_elsewhere:
  assumes "holds f q s" "p \<le> length f" "q + length s \<le> p \<or> p + length t \<le> q"
  shows "holds (os_physpwrite f t (int p)) q s"
proof (cases "t = []")
  case False
  have w: "os_physpwrite f t (int p) = take p f @ t @ drop (p + length t) f" using assms(2) False by (simp add: os_physpwrite_def)
  have h: "q + length s \<le> length f" "take (length s) (drop q f) = s" using assms(1) by (auto simp: holds_def)
  show ?thesis
  proof (cases "q + length s \<le> p")
    case True
    then have "length s \<le> p - q" by simp
    then have "take (length s) (drop q (take p f)) = s" using h by (simp add: drop_take min_absorb1)
    then show ?thesis unfolding w holds_def using h True assms(2) by auto
  next
    case False
    then have q: "p + length t \<le> q" using assms(3) by simp
    then have "drop q (take p f @ t @ drop (p + length t) f) = drop q f" using assms(2) by simp
    then show ?thesis unfolding w holds_def using h q by simp
  qed
qed (use assms(1) in \<open>simp add: os_physpwrite_def\<close>)

lemma write_twice:
  assumes "p \<le> length f" "s \<noteq> []" "t \<noteq> []"
  shows "os_physpwrite (os_physpwrite f s (int p)) t (int p + int (length s)) = os_physpwrite f (s @ t) (int p)"
proof -
  have w: "os_physpwrite g u (int r) = take r g @ u @ drop (r + length u) g" if "r \<le> length g" "u \<noteq> []" for g u r
    using that by (simp add: os_physpwrite_def)
  have "os_physpwrite (take p f @ s @ drop (p + length s) f) t (int (p + length s)) = take p f @ s @ t @ drop (p + length s + length t) f"
    using assms by (subst w) (simp_all add: add.commute)
  then show ?thesis using assms w [of p f s] w [of p f "s @ t"] by (simp add: add.assoc)
qed

section \<open>Numbers as texts\<close>

lemma dec_nat_no_sep: "SEP \<notin> set (dec_nat n)" "0 \<notin> set (dec_nat n)" "10 \<notin> set (dec_nat n)"
  using dec_nat_digits [of SEP n] dec_nat_digits [of 0 n] dec_nat_digits [of 10 n]
  by (simp_all add: SEP_def ISDIGIT_def) blast+

lemma atol_digits:
  assumes "\<forall>c\<in>set bs. is_space c" "r = [] \<or> \<not> ISDIGIT (hd r)" "n < 2 ^ 63"
  shows "atol (bs @ dec_nat n @ r) = int n"
proof -
  obtain c t where ds: "dec_nat n = c # t" using dec_nat_ne by (cases "dec_nat n") auto
  have c: "\<not> is_space c" "c \<noteq> 45" "c \<noteq> 43" using dec_nat_digits [of c n] digit_not_space by (auto simp: ds)
  have "dropWhile is_space (bs @ dec_nat n @ r) = dec_nat n @ r" using assms(1) c by (simp add: dropWhile_append2 ds)
  moreover have "takeWhile ISDIGIT (dec_nat n @ r) = dec_nat n"
    using assms(2) dec_nat_digits [of _ n] by (cases r) (auto simp: takeWhile_append2)
  ultimately show ?thesis using c assms(3) by (simp add: atol_def ds Let_def) (simp add: ds [symmetric] digits_val_dec_nat)
qed

lemma atol_dec: "n < 2 ^ 63 \<Longrightarrow> atol (dec_nat n) = int n" "n < 2 ^ 63 \<Longrightarrow> atol (dec_nat n @ replicate m 32) = int n"
    "n < 2 ^ 63 \<Longrightarrow> atol (pad_left w (dec_nat n)) = int n"
  using atol_digits [of "[]" "[]" n] atol_digits [of "[]" "replicate m 32" n] atol_digits [of "replicate (w - length (dec_nat n)) 32" "[]" n]
  by (cases m; simp add: is_space_def ISDIGIT_def pad_left_def)+

lemma atoi_atol: "atoi s = to_int (atol s)"
  by (simp add: atoi_def atol_def Let_def split: list.splits)

lemma length_pad_left: "length t \<le> w \<Longrightarrow> length (pad_left w t) = w"
  by (simp add: pad_left_def)

lemma length_pad_right: "length (pad_right w t) = max w (length t)"
  by (simp add: pad_right_def)

section \<open>Index records\<close>

text \<open>
  What an index record says: the next record of its chain (0 for none), the key and the room for it, the place in the
  data file with its capacity and the bytes in use, the length of the text.
\<close>

record irec =
  r_next :: nat
  r_key :: bytes
  r_alen :: nat
  r_datoff :: nat
  r_cap :: nat
  r_used :: nat
  r_free :: bool
  r_idxlen :: nat

definition rec_fields :: "irec \<Rightarrow> bytes" where
  "rec_fields r = SEP # dec_nat (r_datoff r) @ SEP # dec_nat (r_cap r) @ SEP # dec_nat (length (r_key r))
     @ SEP # dec_nat (r_used r) @ SEP # dec_nat (if r_free r then 1 else 0)"

definition rec_text :: "irec \<Rightarrow> bytes" where
  "rec_text r = pad_right (r_alen r) (r_key r) @ rec_fields r
     @ replicate (r_idxlen r - r_alen r - length (rec_fields r) - 1) 32 @ [10]"

definition rec_bytes :: "irec \<Rightarrow> bytes" where
  "rec_bytes r = pad_left PTR_SZ (dec_nat (r_next r)) @ pad_left IDXLEN_SZ (dec_nat (r_idxlen r)) @ rec_text r"

definition rec_wf :: "irec \<Rightarrow> bool" where
  "rec_wf r \<longleftrightarrow> length (r_key r) \<le> r_alen r \<and> 0 \<notin> set (r_key r) \<and> r_alen r + length (rec_fields r) + 1 \<le> r_idxlen r
     \<and> r_idxlen r \<le> 4096 \<and> r_next r \<le> 999999999 \<and> r_cap r \<le> 2097152 \<and> r_used r \<le> r_cap r \<and> r_datoff r \<le> 2000000000"

lemma length_rec_fields: "10 \<le> length (rec_fields r)"
proof -
  have "1 \<le> length (dec_nat n)" for n using dec_nat_ne [of n] by (cases "dec_nat n") auto
  from this [of "r_datoff r"] this [of "r_cap r"] this [of "length (r_key r)"] this [of "r_used r"] this [of "if r_free r then 1 else 0"]
  show ?thesis unfolding rec_fields_def by simp
qed

lemma length_rec_text: "rec_wf r \<Longrightarrow> length (rec_text r) = r_idxlen r"
  by (simp add: rec_text_def rec_wf_def length_pad_right)

lemma dec_nat_fits: "n \<le> 999999999 \<Longrightarrow> length (dec_nat n) \<le> 9" "n \<le> 4096 \<Longrightarrow> length (dec_nat n) \<le> 4"
  using length_dec_nat [of n 8] length_dec_nat [of n 3] by simp_all

lemma length_rec_bytes: "rec_wf r \<Longrightarrow> length (rec_bytes r) = r_idxlen r + 13"
  using dec_nat_fits(1) [of "r_next r"] dec_nat_fits(2) [of "r_idxlen r"]
  by (simp add: rec_bytes_def length_rec_text length_pad_left PTR_SZ_def IDXLEN_SZ_def rec_wf_def)

lemma rchop_field: "SEP \<notin> set f \<Longrightarrow> rchop (k @ SEP # f) = Some (k, f)"
proof -
  assume f: "SEP \<notin> set f"
  have "takeWhile (\<lambda>c. c \<noteq> SEP) (rev f @ SEP # rev k) = rev f" using f by (subst takeWhile_append2) auto
  then show ?thesis by (simp add: rchop_def Let_def)
qed

lemma chop_fields_text:
  assumes "SEP \<notin> set f1" "SEP \<notin> set f2" "SEP \<notin> set f3" "SEP \<notin> set f4" "SEP \<notin> set f5"
  shows "chop_fields 5 (k @ SEP # f1 @ SEP # f2 @ SEP # f3 @ SEP # f4 @ SEP # f5) [] = (k, [f1, f2, f3, f4, f5])"
proof -
  note rs = rchop_field [OF assms(5), of "k @ SEP # f1 @ SEP # f2 @ SEP # f3 @ SEP # f4"]
    rchop_field [OF assms(4), of "k @ SEP # f1 @ SEP # f2 @ SEP # f3"] rchop_field [OF assms(3), of "k @ SEP # f1 @ SEP # f2"]
    rchop_field [OF assms(2), of "k @ SEP # f1"] rchop_field [OF assms(1), of k]
  have five: "(5 :: nat) = Suc (Suc (Suc (Suc (Suc 0))))" by simp
  show ?thesis unfolding five chop_fields.simps using rs by simp
qed

text \<open>The record that \<open>_db_readidx\<close> leaves in a \<open>DBD\<close>.\<close>

definition loaded :: "nat \<Rightarrow> irec \<Rightarrow> dbd \<Rightarrow> dbd" where
  "loaded p r d = d\<lparr>idxoff := int p, ptrval := int (r_next r), idxlen := int (r_idxlen r), idxbuf := Some (r_key r),
     datoff := int (r_datoff r), datlen := int (r_cap r), idxlen_u := int (length (r_key r)), datlen_u := int (r_used r),
     isfree := (if r_free r then 1 else 0), idxlen_a := int (r_alen r)\<rparr>"

lemma loaded_simps [simp]:
  "idxoff (loaded p r d) = int p" "ptrval (loaded p r d) = int (r_next r)" "idxlen (loaded p r d) = int (r_idxlen r)"
  "idxbuf (loaded p r d) = Some (r_key r)" "datoff (loaded p r d) = int (r_datoff r)" "datlen (loaded p r d) = int (r_cap r)"
  "idxlen_u (loaded p r d) = int (length (r_key r))" "datlen_u (loaded p r d) = int (r_used r)"
  "isfree (loaded p r d) = (if r_free r then 1 else 0)" "idxlen_a (loaded p r d) = int (r_alen r)"
  "chainoff (loaded p r d) = chainoff d" "ptroff (loaded p r d) = ptroff d" "datbuf (loaded p r d) = datbuf d"
  by (simp_all add: loaded_def)

lemma parse_rec_text:
  assumes wf: "rec_wf r"
  shows "parse_idx d (rec_text r) = Inr (ptrval d, d\<lparr>idxbuf := Some (r_key r), datoff := int (r_datoff r), datlen := int (r_cap r),
    idxlen_u := int (length (r_key r)), datlen_u := int (r_used r), isfree := (if r_free r then 1 else 0), idxlen_a := int (r_alen r)\<rparr>)"
proof -
  define b where "b = replicate (r_idxlen r - r_alen r - length (rec_fields r) - 1) (32 :: u8)"
  define n where "n = (if r_free r then 1 else (0 :: nat))"
  let ?fr = "dec_nat n @ b"
  have body: "butlast (rec_text r) = pad_right (r_alen r) (r_key r) @ SEP # dec_nat (r_datoff r) @ SEP # dec_nat (r_cap r)
      @ SEP # dec_nat (length (r_key r)) @ SEP # dec_nat (r_used r) @ SEP # ?fr"
    by (simp add: rec_text_def rec_fields_def butlast_append b_def n_def)
  have nz: "0 \<notin> set (butlast (rec_text r))"
    unfolding body using wf dec_nat_no_sep(2) by (auto simp: rec_wf_def pad_right_def SEP_def b_def)
  have chop: "chop_fields 5 (c_str (butlast (rec_text r))) [] = (pad_right (r_alen r) (r_key r),
      [dec_nat (r_datoff r), dec_nat (r_cap r), dec_nat (length (r_key r)), dec_nat (r_used r), ?fr])"
    unfolding c_str_id [OF nz] unfolding body using dec_nat_no_sep(1) by (intro chop_fields_text) (auto simp: SEP_def b_def)
  have last: "last (rec_text r) = 10" by (simp add: rec_text_def)
  have bnd: "length (r_key r) \<le> r_alen r" "r_alen r \<le> 4096" "r_datoff r \<le> 2000000000" "r_cap r \<le> 2097152" "r_used r \<le> 2097152"
    "max (r_alen r) (length (r_key r)) = r_alen r"
    using wf by (auto simp: rec_wf_def)
  have nums: "atol (dec_nat (r_datoff r)) = int (r_datoff r)" "to_size (atol (dec_nat (r_cap r))) = int (r_cap r)"
    "to_size (atol (dec_nat (length (r_key r)))) = int (length (r_key r))" "to_size (atol (dec_nat (r_used r))) = int (r_used r)"
    using bnd by (simp_all add: atol_dec to_size_def)
  have fr: "to_int (atol ?fr) = int n" using atol_dec(2) [of n] by (simp add: n_def b_def)
  have key: "take (length (r_key r)) (pad_right (r_alen r) (r_key r)) = r_key r" by (simp add: pad_right_def)
  have nn: "(if r_free r then 1 else 0) = int n" by (simp add: n_def)
  show ?thesis
    unfolding parse_idx_def chop last nn using bnd
    by (simp add: Let_def nums fr key length_pad_right DATLEN_MIN_def DATLEN_MAX_def IDXLEN_MAX_def)
qed

lemma readidx_rec:
  assumes "holds (idxfile db) p (rec_bytes r)" "rec_wf r"
  shows "db_readidx db d (int p) = Inr (int (r_next r), loaded p r d, Some (int (p + 13 + r_idxlen r)))"
proof -
  have len: "length (dec_nat (r_next r)) \<le> 9" "length (dec_nat (r_idxlen r)) \<le> 4"
    using assms(2) dec_nat_fits by (simp_all add: rec_wf_def)
  have h: "holds (idxfile db) p (pad_left 9 (dec_nat (r_next r)))" "holds (idxfile db) (p + 9) (pad_left 4 (dec_nat (r_idxlen r)))"
    "holds (idxfile db) (p + 13) (rec_text r)"
    using assms(1) len by (auto simp: rec_bytes_def holds_append length_pad_left PTR_SZ_def IDXLEN_SZ_def add.assoc)
  have pr: "os_pread (idxfile db) PTR_SZ (int p) = pad_left 9 (dec_nat (r_next r))"
    "os_pread (idxfile db) IDXLEN_SZ (int p + int PTR_SZ) = pad_left 4 (dec_nat (r_idxlen r))"
    "os_pread (idxfile db) (r_idxlen r) (int p + int PTR_SZ + int IDXLEN_SZ) = rec_text r"
    using pread_holds [OF h(1)] pread_holds [OF h(2)] pread_holds [OF h(3)] len assms(2)
    by (simp_all add: length_pad_left PTR_SZ_def IDXLEN_SZ_def length_rec_text add.commute)
  have b: "6 \<le> r_idxlen r" "r_idxlen r \<le> 4096" "r_next r \<le> 999999999"
    using assms(2) length_rec_fields [of r] by (auto simp: rec_wf_def)
  have nums: "atol (pad_left 9 (dec_nat (r_next r))) = int (r_next r)" "to_size (atoi (pad_left 4 (dec_nat (r_idxlen r)))) = int (r_idxlen r)"
    using b by (simp_all add: atol_dec atoi_atol to_size_def)
  have pr3: "os_pread (idxfile db) (r_idxlen r) (13 + int p) = rec_text r"
    using pr(3) by (simp add: PTR_SZ_def IDXLEN_SZ_def add.commute)
  show ?thesis
    unfolding db_readidx_def Let_def pr using len b
    by (simp add: nums length_pad_left PTR_SZ_def IDXLEN_SZ_def IDXLEN_MIN_def IDXLEN_MAX_def pr3
        parse_rec_text assms(2) length_rec_text loaded_def)
qed

text \<open>Writing a \<open>DBD\<close> that says what the record says writes the bytes of the record.\<close>

definition says :: "dbd \<Rightarrow> bytes \<Rightarrow> int \<Rightarrow> irec \<Rightarrow> bool" where
  "says d key p r \<longleftrightarrow> key = r_key r \<and> p = int (r_next r) \<and> max (nat (idxlen_a d)) (length key) = r_alen r
     \<and> datoff d = int (r_datoff r) \<and> datlen d = int (r_cap r) \<and> datlen_u d = int (r_used r)
     \<and> isfree d = (if r_free r then 1 else 0) \<and> 0 \<le> idxlen d
     \<and> r_idxlen r = max (nat (idxlen d)) (r_alen r + length (rec_fields r) + 1)"

lemma pad_right_max: "pad_right (max w (length t)) t = pad_right w t"
  by (simp add: pad_right_def max_def)

lemma idx_text_says: "says d key p r \<Longrightarrow> rec_wf r \<Longrightarrow> idx_text d key = pad_right (r_alen r) key @ rec_fields r @ [10]"
  using pad_right_max [of "nat (idxlen_a d)" key]
  by (auto simp: says_def rec_wf_def idx_text_def rec_fields_def dec_int_def)

lemma writeidx_bytes:
  assumes "says d key p r" "rec_wf r" "q \<le> length (idxfile db)"
    "wh = SEEK_SET \<Longrightarrow> r_idxlen r = nat (idxlen d)" "int q = (if wh = SEEK_END then idx_len db else off)"
  shows "\<exists>x. db_writeidx db d key off wh p = Inr (0, d\<lparr>ptrval := p, idxbuf := x, idxoff := int q\<rparr>,
    db\<lparr>idx_len := idx_len db + (if wh = SEEK_END then int (r_idxlen r + 13) else 0),
       idxfile := os_physpwrite (idxfile db) (rec_bytes r) (int q)\<rparr>)"
proof -
  let ?T = "pad_right (r_alen r) key @ rec_fields r @ [10]" and ?n = "r_alen r + length (rec_fields r) + 1"
  have b: "r_idxlen r \<le> 4096" "?n \<le> r_idxlen r" "r_next r \<le> 999999999" "length key \<le> r_alen r" "p = int (r_next r)" "key = r_key r"
    "r_idxlen r = max (nat (idxlen d)) ?n" "0 \<le> idxlen d"
    using assms(1,2) by (auto simp: says_def rec_wf_def)
  have lT: "length ?T = ?n" using b(4) by (simp add: length_pad_right)
  have n6: "6 \<le> ?n" using length_rec_fields [of r] by simp
  define padded where "padded \<longleftrightarrow> int ?n < idxlen d"
  have tx: "(if padded then butlast ?T @ replicate (nat (idxlen d) - ?n) 32 @ [10] else ?T) = rec_text r"
    "padded \<Longrightarrow> r_idxlen r = nat (idxlen d)" "\<not> padded \<Longrightarrow> r_idxlen r = ?n"
    using b by (auto simp: padded_def rec_text_def butlast_append max_def)
  have whe: "(if idxlen d < int (length (rec_text r)) then SEEK_END else wh) = wh"
    using assms(2,4) b by (cases wh) (auto simp: length_rec_text)
  have hd13: "length (pad_left PTR_SZ (dec_nat (r_next r)) @ pad_left IDXLEN_SZ (dec_nat (r_idxlen r))) = 13"
    using b dec_nat_fits by (simp add: length_pad_left PTR_SZ_def IDXLEN_SZ_def)
  have ne: "pad_left PTR_SZ (dec_nat (r_next r)) @ pad_left IDXLEN_SZ (dec_nat (r_idxlen r)) \<noteq> []" "rec_text r \<noteq> []"
    by (simp_all add: pad_left_def rec_text_def)
  have w2: "os_physpwrite (os_physpwrite (idxfile db) (pad_left PTR_SZ (dec_nat (r_next r)) @ pad_left IDXLEN_SZ (dec_nat (r_idxlen r))) (int q))
      (rec_text r) (int q + int 13) = os_physpwrite (idxfile db) (rec_bytes r) (int q)"
    using write_twice [OF assms(3) ne] unfolding hd13 rec_bytes_def append_assoc .
  have nums: "dec_int p = dec_nat (r_next r)" "dec_int (int (length (rec_text r))) = dec_nat (r_idxlen r)" "PTR_SZ + IDXLEN_SZ = 13"
    using b(5) assms(2) by (simp_all add: dec_int_def length_rec_text PTR_SZ_def IDXLEN_SZ_def)
  have wr: "write_at e d' (rec_text r) (int q) p = (d'\<lparr>idxoff := int q\<rparr>, e\<lparr>idxfile := os_physpwrite (idxfile db) (rec_bytes r) (int q)\<rparr>)"
    if "idxfile e = idxfile db" for e d'
    unfolding write_at_def Let_def that nums w2 ..
  have idx: "idx_text (d\<lparr>ptrval := p\<rparr>) key = ?T" using idx_text_says [OF assms(1,2)] by (simp add: idx_text_def)
  have lr: "length (rec_text r) = r_idxlen r" using assms(2) by (rule length_rec_text)
  let ?x = "if padded then None else Some (c_str ?T)"
  have pick: "(if int (length ?T) < idxlen d' then (butlast ?T @ replicate (nat (idxlen d') - length ?T) 32 @ [10], d'\<lparr>idxbuf := None\<rparr>)
      else (?T, d')) = (rec_text r, d\<lparr>ptrval := p, idxbuf := ?x\<rparr>)" if "d' = d\<lparr>ptrval := p, idxbuf := Some (c_str ?T)\<rparr>" for d'
    using tx(1) unfolding lT that padded_def by (simp split: if_splits)
  have g: "\<not> (p < 0 \<or> PTR_MAX < p)" "\<not> IDXLEN_MAX + 2 < int (length ?T) + 1"
    "\<not> (int (length ?T) < IDXLEN_MIN \<or> IDXLEN_MAX < int (length ?T))" "length (rec_text r) + PTR_SZ + IDXLEN_SZ = r_idxlen r + 13"
    using b n6 unfolding lT by (simp_all add: PTR_MAX_def IDXLEN_MAX_def IDXLEN_MIN_def PTR_SZ_def IDXLEN_SZ_def lr)
  have "db_writeidx db d key off wh p = Inr (0, d\<lparr>ptrval := p, idxbuf := ?x, idxoff := int q\<rparr>,
    db\<lparr>idx_len := idx_len db + (if wh = SEEK_END then int (r_idxlen r + 13) else 0),
       idxfile := os_physpwrite (idxfile db) (rec_bytes r) (int q)\<rparr>)"
    unfolding db_writeidx_def Let_def idx if_not_P [OF g(1)] if_not_P [OF g(2)] if_not_P [OF g(3)]
    apply (subst pick, rule refl)
    using assms(5) wr by (cases wh) (simp_all add: whe g(4) del: of_nat_add)
  then show ?thesis by blast
qed

section \<open>The layout of a database\<close>

text \<open>
  The records of the database by their offsets, the pointers at the start of the index file (the head of the free list, then
  those of the chains), and the bytes in the data file.
\<close>

definition apart :: "nat \<Rightarrow> nat \<Rightarrow> nat \<Rightarrow> nat \<Rightarrow> bool" where
  "apart a m b n \<longleftrightarrow> a + m \<le> b \<or> b + n \<le> a"

definition first_rec :: "hdb \<Rightarrow> nat" where
  "first_rec db = 9 * (nat (nhash db) + 1) + 1"

definition head_at :: "hdb \<Rightarrow> nat \<Rightarrow> nat \<Rightarrow> bool" where
  "head_at db j v \<longleftrightarrow> v \<le> 999999999 \<and> holds (idxfile db) (9 * j) (pad_left 9 (dec_nat v))"

definition entry_at :: "hdb \<Rightarrow> nat \<Rightarrow> irec \<Rightarrow> bytes \<Rightarrow> bool" where
  "entry_at db p r v \<longleftrightarrow> rec_wf r \<and> holds (idxfile db) p (rec_bytes r) \<and> first_rec db \<le> p \<and> p \<le> 999999999
     \<and> holds (datfile db) (r_datoff r) v \<and> length v \<le> r_cap r \<and> r_datoff r + r_cap r \<le> length (datfile db)"

definition separate :: "(nat \<Rightarrow> irec option) \<Rightarrow> bool" where
  "separate R \<longleftrightarrow> (\<forall>p q r s. R p = Some r \<longrightarrow> R q = Some s \<longrightarrow> p \<noteq> q \<longrightarrow>
     apart p (r_idxlen r + 13) q (r_idxlen s + 13) \<and> apart (r_datoff r) (r_cap r) (r_datoff s) (r_cap s))"

definition lay :: "hdb \<Rightarrow> (nat \<Rightarrow> irec option) \<Rightarrow> (nat \<Rightarrow> nat) \<Rightarrow> (nat \<Rightarrow> bytes) \<Rightarrow> bool" where
  "lay db R H V \<longleftrightarrow> hashoff db = 9 \<and> 0 < nhash db \<and> idx_len db = int (length (idxfile db)) \<and> dat_len db = int (length (datfile db))
     \<and> first_rec db \<le> length (idxfile db) \<and> (\<forall>j \<le> nat (nhash db). head_at db j (H j))
     \<and> (\<forall>p r. R p = Some r \<longrightarrow> entry_at db p r (V p)) \<and> separate R"

lemma layD:
  assumes "lay db R H V"
  shows "hashoff db = 9" "0 < nhash db" "idx_len db = int (length (idxfile db))" "dat_len db = int (length (datfile db))"
    "first_rec db \<le> length (idxfile db)" "j \<le> nat (nhash db) \<Longrightarrow> head_at db j (H j)" "R p = Some r \<Longrightarrow> entry_at db p r (V p)" "separate R"
  using assms by (auto simp: lay_def)

lemma lay_other [simp]:
  "lay (db\<lparr>cnt_delok := n\<rparr>) R H V = lay db R H V" "lay (db\<lparr>cnt_delerr := n\<rparr>) R H V = lay db R H V"
  "lay (db\<lparr>cnt_fetchok := n\<rparr>) R H V = lay db R H V" "lay (db\<lparr>cnt_fetcherr := n\<rparr>) R H V = lay db R H V"
  "lay (db\<lparr>cnt_stor1 := n\<rparr>) R H V = lay db R H V" "lay (db\<lparr>cnt_stor2 := n\<rparr>) R H V = lay db R H V"
  "lay (db\<lparr>cnt_stor3 := n\<rparr>) R H V = lay db R H V" "lay (db\<lparr>cnt_stor4 := n\<rparr>) R H V = lay db R H V"
  "lay (db\<lparr>cnt_storerr := n\<rparr>) R H V = lay db R H V" "lay (db\<lparr>cnt_nextrec := n\<rparr>) R H V = lay db R H V"
  "lay (db\<lparr>free_list := fl\<rparr>) R H V = lay db R H V"
  by (simp_all add: lay_def head_at_def entry_at_def first_rec_def)

lemma lay_readptr: "lay db R H V \<Longrightarrow> j \<le> nat (nhash db) \<Longrightarrow> db_readptr db (int (9 * j)) = Inr (int (H j))"
  using layD(6) [of db R H V j] pread_holds [of "idxfile db" "9 * j" "pad_left 9 (dec_nat (H j))" 9] dec_nat_fits(1) [of "H j"]
  by (simp add: head_at_def db_readptr_def Let_def PTR_SZ_def length_pad_left atol_dec)

lemma lay_readidx: "lay db R H V \<Longrightarrow> R p = Some r \<Longrightarrow>
    db_readidx db d (int p) = Inr (int (r_next r), loaded p r d, Some (int (p + 13 + r_idxlen r)))"
  using layD(7) [of db R H V p r] readidx_rec [of db p r d] unfolding entry_at_def by blast

lemma lay_wf: "lay db R H V \<Longrightarrow> R p = Some r \<Longrightarrow> rec_wf r \<and> 0 < p \<and> p < length (idxfile db) \<and> p \<le> 999999999 \<and> first_rec db \<le> p"
  using layD(7) [of db R H V p r] length_rec_bytes [of r] by (auto simp: entry_at_def holds_def first_rec_def)

text \<open>Overwriting something in the index file that is not longer.\<close>

lemma entry_at_idx:
  assumes "entry_at db p r v" "holds f p (rec_bytes r)" shows "entry_at (db\<lparr>idxfile := f\<rparr>) p r v"
  using assms by (simp add: entry_at_def first_rec_def)

lemma lay_writeptr_head:
  assumes l: "lay db R H V" and j: "j \<le> nat (nhash db)" and v: "v \<le> 999999999"
  shows "\<exists>f. db_writeptr db (int (9 * j)) (int v) = Inr (db\<lparr>idxfile := f\<rparr>) \<and> lay (db\<lparr>idxfile := f\<rparr>) R (H(j := v)) V"
proof -
  let ?t = "pad_left 9 (dec_nat v)" and ?f = "os_physpwrite (idxfile db) (pad_left 9 (dec_nat v)) (int (9 * j))"
  have lt: "length ?t = 9" using v by (simp add: length_pad_left dec_nat_fits)
  have le: "9 * j + 9 < first_rec db" using j by (simp add: first_rec_def)
  note fl = layD(5) [OF l]
  have len: "length ?f = length (idxfile db)" using le fl lt by (intro length_write) simp
  have el: "holds ?f q s" if "holds (idxfile db) q s" "q + length s \<le> 9 * j \<or> 9 * j + 9 \<le> q" for q s
    using that le fl lt by (intro write_elsewhere) auto
  have "head_at (db\<lparr>idxfile := ?f\<rparr>) i ((H(j := v)) i)" if "i \<le> nat (nhash db)" for i
  proof (cases "i = j")
    case True
    have "holds ?f (9 * j) ?t" using le fl by (intro write_there) simp
    then show ?thesis using v True by (simp add: head_at_def)
  next
    case False
    then have h: "holds (idxfile db) (9 * i) (pad_left 9 (dec_nat (H i)))" "H i \<le> 999999999"
      using layD(6) [OF l that] by (auto simp: head_at_def)
    have "holds ?f (9 * i) (pad_left 9 (dec_nat (H i)))"
      using False by (intro el [OF h(1)]) (simp add: length_pad_left dec_nat_fits h(2), presburger)
    with h(2) show ?thesis using False by (simp add: head_at_def)
  qed
  moreover have "entry_at (db\<lparr>idxfile := ?f\<rparr>) p r (V p)" if "R p = Some r" for p r
  proof -
    have e: "entry_at db p r (V p)" using layD(7) [OF l that] .
    then have "holds ?f p (rec_bytes r)" using le by (intro el) (auto simp: entry_at_def)
    then show ?thesis by (rule entry_at_idx [OF e])
  qed
  ultimately have "lay (db\<lparr>idxfile := ?f\<rparr>) R (H(j := v)) V" using l len by (simp add: lay_def first_rec_def)
  moreover have "db_writeptr db (int (9 * j)) (int v) = Inr (db\<lparr>idxfile := ?f\<rparr>)"
    using lt by (simp add: db_writeptr_def Let_def dec_int_def PTR_SZ_def)
  ultimately show ?thesis by blast
qed

lemma lay_rewrite:
  assumes l: "lay db R H V" and r: "R p = Some r" and wf: "rec_wf r'" and h: "holds f p (rec_bytes r')"
    and same: "r_idxlen r' = r_idxlen r" "r_datoff r' = r_datoff r" "r_cap r' = r_cap r"
    and len: "length f = length (idxfile db)"
    and el: "\<And>q s. holds (idxfile db) q s \<Longrightarrow> apart q (length s) p (r_idxlen r + 13) \<Longrightarrow> holds f q s"
  shows "lay (db\<lparr>idxfile := f\<rparr>) (R(p := Some r')) H V"
proof -
  have p: "first_rec db \<le> p" "rec_wf r" using lay_wf [OF l r] by auto
  have "head_at (db\<lparr>idxfile := f\<rparr>) j (H j)" if "j \<le> nat (nhash db)" for j
    using layD(6) [OF l that] that p by (auto simp: head_at_def length_pad_left dec_nat_fits first_rec_def apart_def intro!: el)
  moreover have "entry_at (db\<lparr>idxfile := f\<rparr>) q s (V q)" if "(R(p := Some r')) q = Some s" for q s
  proof (cases "q = p")
    case True
    then show ?thesis using layD(7) [OF l r] that wf h same by (auto simp: entry_at_def first_rec_def)
  next
    case False
    then have s: "R q = Some s" using that by simp
    then have "apart q (length (rec_bytes s)) p (r_idxlen r + 13)"
      using layD(8) [OF l] r False lay_wf [OF l s] by (auto simp: separate_def length_rec_bytes)
    then have "holds f q (rec_bytes s)" using layD(7) [OF l s] by (intro el) (auto simp: entry_at_def)
    then show ?thesis by (rule entry_at_idx [OF layD(7) [OF l s]])
  qed
  moreover have "separate (R(p := Some r'))"
    using layD(8) [OF l] r same unfolding separate_def by (auto split: if_splits)
  ultimately show ?thesis using l len by (simp add: lay_def first_rec_def)
qed

lemma write_in_record:
  assumes "holds f p t" "length s \<le> length t" "apart q (length u) p (length t)" "holds f q u"
  shows "holds (os_physpwrite f s (int p)) q u"
  using assms by (intro write_elsewhere) (auto simp: holds_def apart_def)

lemma lay_writeptr_rec:
  assumes l: "lay db R H V" and r: "R p = Some r" and v: "v \<le> 999999999"
  shows "\<exists>f. db_writeptr db (int p) (int v) = Inr (db\<lparr>idxfile := f\<rparr>) \<and> lay (db\<lparr>idxfile := f\<rparr>) (R(p := Some (r\<lparr>r_next := v\<rparr>))) H V"
proof -
  let ?t = "pad_left 9 (dec_nat v)" and ?f = "os_physpwrite (idxfile db) (pad_left 9 (dec_nat v)) (int p)" and ?r = "r\<lparr>r_next := v\<rparr>"
  have lt: "length ?t = 9" using v by (simp add: length_pad_left dec_nat_fits)
  have wf: "rec_wf r" "rec_wf ?r" using lay_wf [OF l r] v by (auto simp: rec_wf_def rec_fields_def)
  have h: "holds (idxfile db) p (rec_bytes r)" using layD(7) [OF l r] by (simp add: entry_at_def)
  then have le: "p + (r_idxlen r + 13) \<le> length (idxfile db)" using wf by (simp add: holds_def length_rec_bytes)
  have rest: "rec_bytes r' = pad_left 9 (dec_nat (r_next r')) @ pad_left IDXLEN_SZ (dec_nat (r_idxlen r')) @ rec_text r'" for r'
    by (simp add: rec_bytes_def PTR_SZ_def)
  have next9: "length (pad_left 9 (dec_nat (r_next r))) = 9"
    using wf(1) by (simp add: rec_wf_def length_pad_left dec_nat_fits)
  have tail: "holds (idxfile db) (p + 9) (pad_left IDXLEN_SZ (dec_nat (r_idxlen r)) @ rec_text r)"
    using h next9 unfolding rest [of r] holds_append [of _ _ "pad_left 9 (dec_nat (r_next r))"] by simp
  have "holds ?f (p + 9) (pad_left IDXLEN_SZ (dec_nat (r_idxlen r)) @ rec_text r)"
    using tail le lt by (intro write_elsewhere) auto
  moreover have "rec_text ?r = rec_text r" by (simp add: rec_text_def rec_fields_def)
  moreover have "holds ?f p ?t" using le by (intro write_there) simp
  ultimately have h': "holds ?f p (rec_bytes ?r)"
    using lt unfolding rest [of ?r] holds_append [of _ _ "pad_left 9 (dec_nat (r_next ?r))"] by simp
  have "lay (db\<lparr>idxfile := ?f\<rparr>) (R(p := Some ?r)) H V"
  proof (rule lay_rewrite [OF l r wf(2) h'])
    show "length ?f = length (idxfile db)" using le lt by (intro length_write) simp
    show "holds ?f q s" if "holds (idxfile db) q s" "apart q (length s) p (r_idxlen r + 13)" for q s
      using that lt wf(1) by (intro write_in_record [OF h]) (auto simp: length_rec_bytes)
  qed simp_all
  moreover have "db_writeptr db (int p) (int v) = Inr (db\<lparr>idxfile := ?f\<rparr>)"
    using lt by (simp add: db_writeptr_def Let_def dec_int_def PTR_SZ_def)
  ultimately show ?thesis by blast
qed

lemma lay_writeidx:
  assumes l: "lay db R H V" and r: "R p = Some r" and wf: "rec_wf r'"
    and same: "r_idxlen r' = r_idxlen r" "r_datoff r' = r_datoff r" "r_cap r' = r_cap r"
    and says: "says d key n r'" "idxlen d = int (r_idxlen r)"
  shows "\<exists>x f. db_writeidx db d key (int p) SEEK_SET n = Inr (0, d\<lparr>ptrval := n, idxbuf := x, idxoff := int p\<rparr>, db\<lparr>idxfile := f\<rparr>)
    \<and> lay (db\<lparr>idxfile := f\<rparr>) (R(p := Some r')) H V"
proof -
  let ?f = "os_physpwrite (idxfile db) (rec_bytes r') (int p)"
  have h: "holds (idxfile db) p (rec_bytes r)" and wr: "rec_wf r" using layD(7) [OF l r] by (simp_all add: entry_at_def)
  then have le: "p + length (rec_bytes r') \<le> length (idxfile db)" using wf same by (simp add: holds_def length_rec_bytes)
  have "lay (db\<lparr>idxfile := ?f\<rparr>) (R(p := Some r')) H V"
  proof (rule lay_rewrite [OF l r wf _ same])
    show "holds ?f p (rec_bytes r')" using le by (intro write_there) simp
    show "length ?f = length (idxfile db)" using le by (rule length_write)
    show "holds ?f q s" if "holds (idxfile db) q s" "apart q (length s) p (r_idxlen r + 13)" for q s
      using that wf wr same by (intro write_in_record [OF h]) (auto simp: length_rec_bytes)
  qed
  moreover have "\<exists>x. db_writeidx db d key (int p) SEEK_SET n = Inr (0, d\<lparr>ptrval := n, idxbuf := x, idxoff := int p\<rparr>,
      db\<lparr>idx_len := idx_len db + (if SEEK_SET = SEEK_END then int (r_idxlen r' + 13) else 0), idxfile := ?f\<rparr>)"
    using says le same by (intro writeidx_bytes [OF _ wf]) auto
  ultimately show ?thesis by auto
qed

text \<open>Writing into the place of a record in the data file.\<close>

lemma lay_writedat:
  assumes l: "lay db R H V" and r: "R p = Some r" and len: "length data \<le> r_cap r"
  shows "lay (db\<lparr>datfile := os_physpwrite (datfile db) data (int (r_datoff r))\<rparr>) R H (V(p := data))"
proof -
  let ?f = "os_physpwrite (datfile db) data (int (r_datoff r))"
  have e: "entry_at db p r (V p)" using layD(7) [OF l r] .
  then have le: "r_datoff r + r_cap r \<le> length (datfile db)" by (simp add: entry_at_def)
  have lf: "length ?f = length (datfile db)" using le len by (intro length_write) simp
  have "entry_at (db\<lparr>datfile := ?f\<rparr>) q s ((V(p := data)) q)" if s: "R q = Some s" for q s
  proof (cases "q = p")
    case True
    have "holds ?f (r_datoff r) data" using le by (intro write_there) simp
    then show ?thesis using e True s r len lf by (simp add: entry_at_def first_rec_def)
  next
    case False
    have eq: "entry_at db q s (V q)" using layD(7) [OF l s] .
    have "apart (r_datoff s) (r_cap s) (r_datoff r) (r_cap r)" using layD(8) [OF l] s r False by (auto simp: separate_def)
    then have "holds ?f (r_datoff s) (V q)" using eq len le by (intro write_elsewhere) (auto simp: entry_at_def apart_def)
    then show ?thesis using eq False lf by (simp add: entry_at_def first_rec_def)
  qed
  then show ?thesis using l lf by (simp add: lay_def head_at_def first_rec_def)
qed

text \<open>A new record at the ends of both files.\<close>

lemma holds_in_front: "holds f q s \<Longrightarrow> holds (f @ t) q s"
  by (auto simp: holds_def)

lemma holds_behind: "holds (f @ t) (length f) t"
  by (simp add: holds_def)

lemma write_end: "os_physpwrite f t (int (length f)) = f @ t"
  by (simp add: os_physpwrite_def)

lemma writedat_end:
  "db_writedat_bin db d data q SEEK_END = (d\<lparr>datlen := int (length data), datlen_u := int (length data), datoff := dat_len db\<rparr>,
     db\<lparr>dat_len := dat_len db + int (length data), datfile := os_physpwrite (datfile db) data (dat_len db)\<rparr>)"
  "db_writedat_bin db d data q SEEK_SET = (d\<lparr>datlen_u := int (length data), datoff := q\<rparr>,
     db\<lparr>datfile := os_physpwrite (datfile db) data q\<rparr>)"
  by (simp_all add: db_writedat_bin_def Let_def)

lemma lay_append:
  assumes l: "lay db R H V" and p: "p = length (idxfile db)" "p \<le> 999999999"
    and r: "rec_wf r" "r_datoff r = length (datfile db)" "r_cap r = length data" "says d key n r"
  shows "\<exists>x. db_writeidx (db\<lparr>dat_len := dat_len db + int (length data), datfile := datfile db @ data\<rparr>) d key 0 SEEK_END n =
      Inr (0, d\<lparr>ptrval := n, idxbuf := x, idxoff := int p\<rparr>,
        db\<lparr>dat_len := dat_len db + int (length data), datfile := datfile db @ data, idx_len := idx_len db + int (r_idxlen r + 13),
          idxfile := idxfile db @ rec_bytes r\<rparr>)"
    and "lay (db\<lparr>dat_len := dat_len db + int (length data), datfile := datfile db @ data, idx_len := idx_len db + int (r_idxlen r + 13),
          idxfile := idxfile db @ rec_bytes r\<rparr>) (R(p := Some r)) H (V(p := data))"
    and "R p = None"
proof -
  let ?db = "db\<lparr>dat_len := dat_len db + int (length data), datfile := datfile db @ data, idx_len := idx_len db + int (r_idxlen r + 13),
          idxfile := idxfile db @ rec_bytes r\<rparr>"
  let ?db1 = "db\<lparr>dat_len := dat_len db + int (length data), datfile := datfile db @ data\<rparr>"
  have il: "idx_len db = int p" using layD(3) [OF l] p by simp
  have "\<exists>x. db_writeidx ?db1 d key 0 SEEK_END n = Inr (0, d\<lparr>ptrval := n, idxbuf := x, idxoff := int p\<rparr>,
      ?db1\<lparr>idx_len := idx_len ?db1 + (if SEEK_END = SEEK_END then int (r_idxlen r + 13) else 0),
        idxfile := os_physpwrite (idxfile ?db1) (rec_bytes r) (int p)\<rparr>)"
    by (rule writeidx_bytes [OF r(4,1)]) (simp_all add: p il)
  then show "\<exists>x. db_writeidx ?db1 d key 0 SEEK_END n = Inr (0, d\<lparr>ptrval := n, idxbuf := x, idxoff := int p\<rparr>, ?db)"
    by (simp add: p write_end)
  show new: "R p = None" using lay_wf [OF l, of p] p by (cases "R p") auto
  have old: "first_rec db \<le> q" "q + (r_idxlen s + 13) \<le> p" "r_datoff s + r_cap s \<le> length (datfile db)" if "R q = Some s" for q s
    using layD(7) [OF l that] p by (auto simp: entry_at_def holds_def length_rec_bytes)
  have "head_at ?db j (H j)" if "j \<le> nat (nhash db)" for j
    using layD(6) [OF l that] by (auto simp: head_at_def intro: holds_in_front)
  moreover have "entry_at ?db q s ((V(p := data)) q)" if s: "(R(p := Some r)) q = Some s" for q s
  proof (cases "q = p")
    case True
    then show ?thesis using s r(1-3) p layD(5) [OF l] by (auto simp: entry_at_def first_rec_def holds_behind)
  next
    case False
    then have "entry_at db q s (V q)" using layD(7) [OF l] s by simp
    then show ?thesis using False by (auto simp: entry_at_def first_rec_def intro: holds_in_front)
  qed
  moreover have "separate (R(p := Some r))"
    using layD(8) [OF l] old r(2,3) unfolding separate_def apart_def by (auto split: if_splits)
  ultimately show "lay ?db (R(p := Some r)) H (V(p := data))"
    using layD(1-5) [OF l] r(1) by (simp add: lay_def first_rec_def length_rec_bytes)
qed

text \<open>The bytes of a record are read with it.\<close>

lemma lay_readdat:
  assumes "lay db R H V" "R p = Some r" "length (V p) = r_used r" "datoff d = int (r_datoff r)" "datlen_u d = int (r_used r)"
  shows "db_readdat_bin db d = d\<lparr>datbuf := Some (V p)\<rparr>"
  using layD(7) [OF assms(1,2)] assms(3-) pread_holds [of "datfile db" "r_datoff r" "V p" "r_used r"]
  by (simp add: entry_at_def db_readdat_bin_def)

text \<open>The template is the layout of an empty database.\<close>

lemma length_template: "length (db_template n) = 9 * (n + 1) + 1"
proof -
  have "length (pad_left PTR_SZ (dec_int 0)) = 9" by (simp add: length_pad_left PTR_SZ_def dec_int_def dec_nat.simps [of 0])
  then have "length (concat (replicate m (pad_left PTR_SZ (dec_int 0)))) = 9 * m" for m by (induction m) auto
  then show ?thesis by (simp add: db_template_def del: replicate.simps)
qed

lemma template_heads: "j \<le> n \<Longrightarrow> holds (db_template n) (9 * j) (pad_left 9 (dec_nat 0))"
proof -
  let ?t = "pad_left 9 (dec_nat 0)"
  have t: "length ?t = 9" "pad_left PTR_SZ (dec_int 0) = ?t"
    by (simp_all add: length_pad_left PTR_SZ_def dec_int_def dec_nat.simps [of 0])
  have len: "length (concat (replicate m ?t)) = 9 * m" for m using t(1) by (induction m) auto
  assume j: "j \<le> n"
  then have "replicate (n + 1) ?t = replicate j ?t @ ?t # replicate (n - j) ?t"
    by (metis Suc_diff_le Suc_eq_plus1 le_add_diff_inverse le_SucI replicate_Suc replicate_add)
  then have "db_template n = concat (replicate j ?t) @ ?t @ concat (replicate (n - j) ?t) @ [10]"
    by (simp add: db_template_def t(2) del: replicate.simps)
  then show ?thesis by (simp add: holds_def len t(1))
qed

end
