(* ===== verification/HashDbChains.thy ===== *)
theory HashDbChains
  imports HashDbFile
begin

text \<open>
  The chains of the index file as lists of records, the free list first; a store, a deletion or a reuse moves one record from
  a chain to the head of another. The invariant of the database says which map it implements.
\<close>

section \<open>Chains of records\<close>

type_synonym recs = "nat \<Rightarrow> irec option"

fun chain :: "recs \<Rightarrow> nat \<Rightarrow> nat list \<Rightarrow> bool" where
  "chain R p [] \<longleftrightarrow> p = 0"
| "chain R p (q # qs) \<longleftrightarrow> p = q \<and> p \<noteq> 0 \<and> (\<exists>r. R p = Some r \<and> chain R (r_next r) qs)"

lemma chain_in: "chain R p qs \<Longrightarrow> q \<in> set qs \<Longrightarrow> q \<noteq> 0 \<and> (\<exists>r. R q = Some r)"
  by (induction qs arbitrary: p) auto

lemma chain_unique: "chain R p qs \<Longrightarrow> chain R p qs' \<Longrightarrow> qs = qs'"
proof (induction qs arbitrary: p qs')
  case Nil
  then show ?case by (cases qs') auto
next
  case (Cons q qs)
  then show ?case by (cases qs') auto
qed

lemma chain_tail: "chain R p (xs @ q # ys) \<Longrightarrow> chain R q (q # ys)"
  by (induction xs arbitrary: p) auto

lemma chain_distinct: "chain R p qs \<Longrightarrow> distinct qs"
proof (induction qs arbitrary: p)
  case (Cons q qs)
  then obtain r where r: "R q = Some r" "chain R (r_next r) qs" by auto
  have "q \<notin> set qs"
  proof
    assume "q \<in> set qs"
    then obtain xs ys where qs: "qs = xs @ q # ys" by (auto simp: in_set_conv_decomp)
    then have "chain R q (q # ys)" using r(2) chain_tail by simp
    then have "chain R (r_next r) ys" using r(1) by auto
    with r(2) have "qs = ys" by (rule chain_unique)
    then show False using qs by simp
  qed
  then show ?case using Cons.IH r by auto
qed simp

lemma chain_cong: "(\<And>q. q \<in> set qs \<Longrightarrow> map_option r_next (R q) = map_option r_next (R' q)) \<Longrightarrow> chain R p qs = chain R' p qs"
proof (induction qs arbitrary: p)
  case (Cons q qs)
  have "map_option r_next (R q) = map_option r_next (R' q)" using Cons.prems by simp
  then show ?case using Cons.IH [of "case R q of Some r \<Rightarrow> r_next r"] Cons.prems by (cases "R q"; cases "R' q") auto
qed simp

lemma chain_upd: "p' \<notin> set qs \<Longrightarrow> chain (R(p' := x)) p qs = chain R p qs"
  by (rule chain_cong) auto

lemma chain_next: "chain R p (xs @ q # ys) \<Longrightarrow> R q = Some r \<Longrightarrow> chain R (r_next r) ys"
  using chain_tail [of R p xs q ys] by auto

text \<open>Setting the pointer in front of a record: the head of its chain, or the record before it.\<close>

definition relink_recs :: "recs \<Rightarrow> nat list \<Rightarrow> nat \<Rightarrow> recs" where
  "relink_recs R xs v = (if xs = [] then R else R(last xs := map_option (\<lambda>r. r\<lparr>r_next := v\<rparr>) (R (last xs))))"

definition relink_heads :: "(nat \<Rightarrow> nat) \<Rightarrow> nat \<Rightarrow> nat list \<Rightarrow> nat \<Rightarrow> nat \<Rightarrow> nat" where
  "relink_heads H j xs v = (if xs = [] then H(j := v) else H)"

lemma chain_relink:
  assumes "chain R p (xs @ zs)" "chain R v ys" "set xs \<inter> set ys = {}"
  shows "chain (relink_recs R xs v) (if xs = [] then v else p) (xs @ ys)"
  using assms
proof (induction xs arbitrary: p)
  case (Cons x xs)
  obtain r where r: "p = x" "x \<noteq> 0" "R x = Some r" "chain R (r_next r) (xs @ zs)" using Cons.prems(1) by auto
  have x: "x \<notin> set xs" using chain_distinct [OF Cons.prems(1)] by simp
  show ?case
  proof (cases "xs = []")
    case True
    have "chain (relink_recs R [x] v) v ys" using Cons.prems(2,3) True by (simp add: relink_recs_def chain_upd)
    then show ?thesis using r True by (simp add: relink_recs_def fun_upd_def)
  next
    case False
    have "chain (relink_recs R xs v) (r_next r) (xs @ ys)" using Cons.IH [OF r(4)] Cons.prems(2,3) False by auto
    moreover have "relink_recs R (x # xs) v = relink_recs R xs v" using False by (simp add: relink_recs_def)
    moreover have "relink_recs R xs v x = R x" using x False by (auto simp: relink_recs_def)
    ultimately show ?thesis using r False by simp
  qed
qed (simp add: relink_recs_def)

lemma relink_same: "q \<noteq> last xs \<or> xs = [] \<Longrightarrow> relink_recs R xs v q = R q"
  by (auto simp: relink_recs_def)

lemma relink_some: "relink_recs R xs v q = Some r \<Longrightarrow> \<exists>s. R q = Some s \<and> r = s\<lparr>r_next := r_next r\<rparr>"
  by (auto simp: relink_recs_def split: if_splits)

section \<open>The chains of a database\<close>

text \<open>
  Chain 0 is the free list. A record is at home in chain 0 when it is free, else in that of its key. Keys whose length is printed
  with the same number of digits keep every record long enough for any of them.
\<close>

definition home :: "(bytes \<Rightarrow> nat) \<Rightarrow> irec \<Rightarrow> nat" where
  "home h r = (if r_free r then 0 else Suc (h (r_key r)))"

lemma home_next [simp]: "home h (r\<lparr>r_next := v\<rparr>) = home h r"
  by (simp add: home_def)

definition linked :: "nat \<Rightarrow> (bytes \<Rightarrow> nat) \<Rightarrow> recs \<Rightarrow> (nat \<Rightarrow> nat) \<Rightarrow> (nat \<Rightarrow> nat list) \<Rightarrow> bool" where
  "linked n h R H D \<longleftrightarrow> (\<forall>i\<le>n. chain R (H i) (D i)) \<and> (\<forall>i\<le>n. \<forall>p\<in>set (D i). \<exists>r. R p = Some r \<and> home h r = i)
     \<and> (\<forall>p r. R p = Some r \<longrightarrow> p \<in> set (D (home h r)))"

lemma linkedD:
  assumes "linked n h R H D"
  shows "i \<le> n \<Longrightarrow> chain R (H i) (D i)" "i \<le> n \<Longrightarrow> p \<in> set (D i) \<Longrightarrow> \<exists>r. R p = Some r \<and> home h r = i"
    "R p = Some r \<Longrightarrow> p \<in> set (D (home h r))"
  using assms by (auto simp: linked_def)

text \<open>A record leaves its chain for the head of another.\<close>

lemma linked_move:
  assumes l: "linked n h R H D" and ij: "i \<le> n" "j \<le> n" "i \<noteq> j" and di: "D i = xs @ p # ys" and p: "R p = Some r"
    and r': "home h r' = j" "r_next r' = H j"
  shows "linked n h ((relink_recs R xs (r_next r))(p := Some r')) ((relink_heads H i xs (r_next r))(j := p)) (D(i := xs @ ys, j := p # D j))"
    (is "linked n h ?R ?H ?D")
proof -
  have homes: "q \<in> set (D a) \<Longrightarrow> a \<le> n \<Longrightarrow> q \<in> set (D b) \<Longrightarrow> b \<le> n \<Longrightarrow> a = b" for q a b
    using linkedD(2) [OF l, of a q] linkedD(2) [OF l, of b q] by auto
  have ci: "chain R (H i) (xs @ p # ys)" using linkedD(1) [OF l ij(1)] di by simp
  have dist: "p \<notin> set xs" "p \<notin> set ys" "set xs \<inter> set ys = {}" "p \<noteq> 0" using chain_distinct [OF ci] chain_in [OF ci] by auto
  have pj: "p \<notin> set (D a)" if "a \<le> n" "a \<noteq> i" for a using homes [of p a i] that ij di by auto
  have lastxs: "last xs \<notin> set (D a)" if "a \<le> n" "a \<noteq> i" "xs \<noteq> []" for a using homes [of "last xs" a i] that ij di by auto
  have other: "chain ?R q (D a)" if "chain R q (D a)" "a \<le> n" "a \<noteq> i" for q a
  proof -
    have "chain R q (D a) = chain ?R q (D a)"
      using pj [of a] lastxs [of a] that by (intro chain_cong) (auto simp: relink_recs_def)
    then show ?thesis using that(1) by simp
  qed
  have "chain (relink_recs R xs (r_next r)) (if xs = [] then r_next r else H i) (xs @ ys)"
    using chain_relink [OF ci chain_next [OF ci p] dist(3)] .
  then have new_i: "chain ?R (?H i) (xs @ ys)"
    using dist ij by (auto simp: chain_upd relink_heads_def)
  have heads: "?H a = H a" if "a \<noteq> i" "a \<noteq> j" for a using that by (auto simp: relink_heads_def)
  have "chain ?R (?H j) (p # D j)" using other [OF linkedD(1) [OF l ij(2)]] ij r' dist by auto
  then have chains: "chain ?R (?H a) (?D a)" if "a \<le> n" for a
    using that new_i other [OF linkedD(1) [OF l that]] heads [of a] ij by (auto simp: fun_upd_def)
  have keep: "\<exists>s'. ?R q = Some s' \<and> home h s' = home h s" if "R q = Some s" "q \<noteq> p" for q s
    using that by (cases "xs \<noteq> [] \<and> q = last xs") (auto simp: relink_recs_def home_def)
  have "\<exists>s. ?R q = Some s \<and> home h s = a" if "a \<le> n" "q \<in> set (?D a)" for a q
  proof (cases "q = p")
    case True
    then have "a = j" using that dist pj [of a] by (auto split: if_splits)
    then show ?thesis using True r' by simp
  next
    case False
    then have "q \<in> set (D a)" using that di by (auto split: if_splits)
    then show ?thesis using linkedD(2) [OF l that(1)] keep False by blast
  qed
  moreover have "q \<in> set (?D (home h s))" if "?R q = Some s" for q s
  proof (cases "q = p")
    case True
    then show ?thesis using that r' by simp
  next
    case False
    then have "relink_recs R xs (r_next r) q = Some s" using that by simp
    then obtain s' where s': "R q = Some s'" and eq: "s = s'\<lparr>r_next := r_next s\<rparr>" using relink_some by blast
    have "home h s = home h s'" using arg_cong [OF eq, of "home h"] by (simp only: home_next)
    note s' = s' this
    then have "q \<in> set (D (home h s))" using linkedD(3) [OF l s'(1)] by simp
    then show ?thesis using False di by auto
  qed
  ultimately show ?thesis using chains by (simp add: linked_def)
qed

text \<open>A new record goes to the head of a chain, and a record changes without moving.\<close>

lemma linked_add:
  assumes l: "linked n h R H D" and j: "j \<le> n" and p: "R p = None" "p \<noteq> 0" and r': "home h r' = j" "r_next r' = H j"
  shows "linked n h (R(p := Some r')) (H(j := p)) (D(j := p # D j))"
proof -
  have out: "p \<notin> set (D a)" if "a \<le> n" for a using linkedD(2) [OF l that, of p] p by auto
  have "chain (R(p := Some r')) ((H(j := p)) a) ((D(j := p # D j)) a)" if "a \<le> n" for a
    using linkedD(1) [OF l that] out [OF that] p r' by (auto simp: chain_upd)
  moreover have "\<exists>s. (R(p := Some r')) q = Some s \<and> home h s = a" if "a \<le> n" "q \<in> set ((D(j := p # D j)) a)" for a q
    using linkedD(2) [OF l that(1), of q] out [OF that(1)] that r' p by (auto split: if_splits)
  moreover have "q \<in> set ((D(j := p # D j)) (home h s))" if "(R(p := Some r')) q = Some s" for q s
    using linkedD(3) [OF l, of q s] that r' by (auto split: if_splits)
  ultimately show ?thesis by (simp add: linked_def)
qed

lemma linked_change:
  assumes l: "linked n h R H D" and p: "R p = Some r" and r': "home h r' = home h r" "r_next r' = r_next r"
  shows "linked n h (R(p := Some r')) H D"
proof -
  have "chain (R(p := Some r')) q qs = chain R q qs" for q qs using p r' by (intro chain_cong) auto
  moreover have "\<exists>s. (R(p := Some r')) q = Some s \<and> home h s = i" if "i \<le> n" "q \<in> set (D i)" for i q
    using linkedD(2) [OF l that] p r' by auto
  moreover have "q \<in> set (D (home h s))" if "(R(p := Some r')) q = Some s" for q s
    using linkedD(3) [OF l, of q] that p r' by (auto split: if_splits)
  ultimately show ?thesis using linkedD(1) [OF l] by (simp add: linked_def)
qed

section \<open>The map that a database implements\<close>

definition bucket :: "hdb \<Rightarrow> bytes \<Rightarrow> nat" where
  "bucket db k = nat (db_hash db k)"

lemma chain_index_less: "0 < nhash db \<Longrightarrow> nhash db < 2 ^ 31 \<Longrightarrow> bucket db k < nat (nhash db)"
proof -
  assume n: "0 < nhash db" "nhash db < 2 ^ 31"
  then have "uint (of_int (nhash db) :: u64) = nhash db" by (simp add: uint_word_of_int)
  then have "db_hash db k < nhash db" "0 \<le> db_hash db k" using n by (simp_all add: db_hash_def uint_mod)
  then show ?thesis by (simp add: bucket_def)
qed

lemma chain_off: "lay db R H V \<Longrightarrow> db_chain_off db k = int (9 * Suc (bucket db k))"
proof -
  assume "lay db R H V"
  then have "hashoff db = 9" by (rule layD(1))
  moreover have "0 \<le> db_hash db k" by (simp add: db_hash_def)
  ultimately show ?thesis by (simp add: db_chain_off_def bucket_def PTR_SZ_def)
qed

text \<open>The number of digits of a number, and keys and records for keys of lengths with so many digits.\<close>

definition digits :: "nat \<Rightarrow> nat" where
  "digits n = length (dec_nat n)"

lemma digits_mono: "a \<le> b \<Longrightarrow> digits a \<le> digits b"
proof (induction b arbitrary: a rule: dec_nat.induct)
  case (1 b)
  show ?case
  proof (cases "b < 10")
    case True
    then show ?thesis using 1(2) by (simp add: digits_def dec_nat.simps [of a] dec_nat.simps [of b])
  next
    case False
    have "digits (a div 10) \<le> digits (b div 10)" using 1 False by (simp add: div_le_mono)
    then show ?thesis using False by (simp add: digits_def dec_nat.simps [of a] dec_nat.simps [of b])
  qed
qed

definition good_key :: "nat \<Rightarrow> bytes \<Rightarrow> bool" where
  "good_key c k \<longleftrightarrow> 0 \<notin> set k \<and> digits (length k) = c \<and> length k \<le> 4000"

definition roomy :: "nat \<Rightarrow> irec \<Rightarrow> bool" where
  "roomy c r \<longleftrightarrow> digits (r_alen r) = c \<and> digits (length (r_key r)) = c \<and> r_alen r \<le> 4000
     \<and> r_alen r + 7 + digits (r_datoff r) + digits (r_cap r) + c + digits (r_cap r) \<le> r_idxlen r"

lemma length_fields: "length (rec_fields r) = 6 + digits (r_datoff r) + digits (r_cap r) + digits (length (r_key r)) + digits (r_used r)"
  by (simp add: rec_fields_def digits_def dec_nat.simps [of 0] dec_nat.simps [of "Suc 0"])

lemma roomy_wf:
  assumes "roomy c r" "length (r_key r) \<le> r_alen r" "0 \<notin> set (r_key r)" "r_idxlen r \<le> 4096" "r_next r \<le> 999999999"
    "r_cap r \<le> 2097152" "r_used r \<le> r_cap r" "r_datoff r \<le> 2000000000"
  shows "rec_wf r" "r_alen r + length (rec_fields r) + 1 \<le> r_idxlen r"
  using assms digits_mono [OF assms(7)] by (simp_all add: roomy_def rec_wf_def length_fields)

text \<open>What the live records say.\<close>

definition live :: "recs \<Rightarrow> nat \<Rightarrow> irec \<Rightarrow> bool" where
  "live R p r \<longleftrightarrow> R p = Some r \<and> \<not> r_free r"

definition represents :: "recs \<Rightarrow> (nat \<Rightarrow> bytes) \<Rightarrow> (bytes \<Rightarrow> bytes option) \<Rightarrow> bool" where
  "represents R V m \<longleftrightarrow> (\<forall>p r. live R p r \<longrightarrow> m (r_key r) = Some (V p) \<and> length (V p) = r_used r)
     \<and> (\<forall>k. m k \<noteq> None \<longrightarrow> (\<exists>p r. live R p r \<and> r_key r = k))
     \<and> (\<forall>p q r s. live R p r \<longrightarrow> live R q s \<longrightarrow> r_key r = r_key s \<longrightarrow> p = q)"

lemma representsD:
  assumes "represents R V m"
  shows "live R p r \<Longrightarrow> m (r_key r) = Some (V p)" "live R p r \<Longrightarrow> length (V p) = r_used r"
    "m k = Some v \<Longrightarrow> \<exists>p r. live R p r \<and> r_key r = k \<and> V p = v"
    "live R p r \<Longrightarrow> live R q s \<Longrightarrow> r_key r = r_key s \<Longrightarrow> p = q"
proof -
  show a: "live R p r \<Longrightarrow> m (r_key r) = Some (V p)" for p r using assms unfolding represents_def by blast
  show "live R p r \<Longrightarrow> length (V p) = r_used r" "live R p r \<Longrightarrow> live R q s \<Longrightarrow> r_key r = r_key s \<Longrightarrow> p = q"
    using assms unfolding represents_def by blast+
  assume k: "m k = Some v"
  then obtain p r where "live R p r" "r_key r = k" using assms unfolding represents_def by blast
  then show "\<exists>p r. live R p r \<and> r_key r = k \<and> V p = v" using a k by fastforce
qed

definition fs_of :: "recs \<Rightarrow> nat \<Rightarrow> fsdbd" where
  "fs_of R p = \<lparr>fs_offset = int p, fs_datlen = int (r_cap (the (R p))), fs_idxlen_a = int (r_alen (the (R p)))\<rparr>"

definition db_inv :: "nat \<Rightarrow> hdb \<Rightarrow> recs \<Rightarrow> (nat \<Rightarrow> nat) \<Rightarrow> (nat \<Rightarrow> bytes) \<Rightarrow> (nat \<Rightarrow> nat list) \<Rightarrow> (bytes \<Rightarrow> bytes option) \<Rightarrow> bool" where
  "db_inv c db R H V D m \<longleftrightarrow> lay db R H V \<and> nhash db < 2 ^ 31 \<and> linked (nat (nhash db)) (bucket db) R H D
     \<and> free_list db = map (fs_of R) (D 0) \<and> (\<forall>p r. R p = Some r \<longrightarrow> roomy c r) \<and> represents R V m"

definition holds_map :: "nat \<Rightarrow> hdb \<Rightarrow> (bytes \<Rightarrow> bytes option) \<Rightarrow> bool" where
  "holds_map c db m \<longleftrightarrow> (\<exists>R H V D. db_inv c db R H V D m)"

lemma db_invD:
  assumes "db_inv c db R H V D m"
  shows "lay db R H V" "nhash db < 2 ^ 31" "linked (nat (nhash db)) (bucket db) R H D" "free_list db = map (fs_of R) (D 0)"
    "R p = Some r \<Longrightarrow> roomy c r" "represents R V m" "0 < nhash db" "bucket db k < nat (nhash db)"
  using assms layD(2) [of db R H V] chain_index_less [of db k] unfolding db_inv_def by blast+

text \<open>Two tables with the same keys but for one record.\<close>

definition same_but :: "nat \<Rightarrow> recs \<Rightarrow> recs \<Rightarrow> bool" where
  "same_but p R R' \<longleftrightarrow> (\<forall>q. q \<noteq> p \<longrightarrow> map_option (\<lambda>r. (r_key r, r_free r, r_used r)) (R q) = map_option (\<lambda>r. (r_key r, r_free r, r_used r)) (R' q))"

lemma same_but_live:
  assumes "same_but p R R'" "q \<noteq> p"
  shows "live R' q r' \<Longrightarrow> \<exists>r. live R q r \<and> r_key r = r_key r' \<and> r_used r = r_used r'"
    and "live R q r \<Longrightarrow> \<exists>r'. live R' q r' \<and> r_key r' = r_key r \<and> r_used r' = r_used r"
proof -
  have e: "map_option (\<lambda>r. (r_key r, r_free r, r_used r)) (R q) = map_option (\<lambda>r. (r_key r, r_free r, r_used r)) (R' q)"
    using assms by (simp add: same_but_def)
  show "live R' q r' \<Longrightarrow> \<exists>r. live R q r \<and> r_key r = r_key r' \<and> r_used r = r_used r'"
    using e by (cases "R q") (auto simp: live_def)
  show "live R q r \<Longrightarrow> \<exists>r'. live R' q r' \<and> r_key r' = r_key r \<and> r_used r' = r_used r"
    using e by (cases "R' q") (auto simp: live_def)
qed

lemma same_but_relink: "same_but p R ((relink_recs R xs v)(p := x))"
  by (auto simp: same_but_def relink_recs_def option.map_comp comp_def)

lemma represents_drop:
  assumes r: "represents R V m" and p: "live R p r" and s: "same_but p R R'" and p': "R' p = Some r'" "r_free r'"
  shows "represents R' V (m(r_key r := None))"
proof -
  have np: "\<not> live R' p x" for x using p' by (auto simp: live_def)
  have bk: "\<exists>x. live R q x \<and> r_key x = r_key x' \<and> r_used x = r_used x' \<and> q \<noteq> p" if "live R' q x'" for q x'
    using same_but_live(1) [OF s _ that] np that by metis
  have uniq: "a = b" if "live R a x" "live R b y" "r_key x = r_key y" for a b x y using r that unfolding represents_def by blast
  have "(m(r_key r := None)) (r_key x') = Some (V q) \<and> length (V q) = r_used x'" if l: "live R' q x'" for q x'
  proof -
    obtain x where x: "live R q x" "r_key x = r_key x'" "r_used x = r_used x'" "q \<noteq> p" using bk [OF l] by blast
    then have "r_key x \<noteq> r_key r" using uniq p by blast
    then show ?thesis using representsD(1,2) [OF r x(1)] x by auto
  qed
  moreover have "\<exists>q x. live R' q x \<and> r_key x = k" if "(m(r_key r := None)) k \<noteq> None" for k
  proof -
    have k: "k \<noteq> r_key r" "m k \<noteq> None" using that by (auto split: if_splits)
    then obtain q x where x: "live R q x" "r_key x = k" using r unfolding represents_def by blast
    have "q \<noteq> p" using x k p by (auto simp: live_def)
    then show ?thesis using same_but_live(2) [OF s _ x(1)] x(2) by metis
  qed
  moreover have "a = b" if "live R' a x" "live R' b y" "r_key x = r_key y" for a b x y
    using bk [OF that(1)] bk [OF that(2)] that(3) uniq by metis
  ultimately show ?thesis unfolding represents_def by blast
qed

lemma represents_put:
  assumes r: "represents R V m" and old: "m (r_key r') = None \<or> (\<exists>x. live R p x \<and> r_key x = r_key r')" "\<And>x. live R p x \<Longrightarrow> r_key x = r_key r'"
    and s: "same_but p R R'" and p': "live R' p r'" "r_used r' = length v"
  shows "represents R' (V(p := v)) (m(r_key r' := Some v))"
proof -
  have uniq: "a = b" if "live R a x" "live R b y" "r_key x = r_key y" for a b x y using r that unfolding represents_def by blast
  have other: "r_key x \<noteq> r_key r'" if "live R q x" "q \<noteq> p" for q x
    using old(1) uniq [OF that(1)] that r unfolding represents_def by (metis option.distinct(1))
  have at_p: "x = r'" if "live R' p x" for x using that p' by (simp add: live_def)
  have bk: "\<exists>x. live R q x \<and> r_key x = r_key x' \<and> r_used x = r_used x'" if "live R' q x'" "q \<noteq> p" for q x'
    using same_but_live(1) [OF s that(2,1)] .
  have "(m(r_key r' := Some v)) (r_key x') = Some ((V(p := v)) q) \<and> length ((V(p := v)) q) = r_used x'" if l: "live R' q x'" for q x'
  proof (cases "q = p")
    case True
    then show ?thesis using l at_p p' by auto
  next
    case False
    obtain x where x: "live R q x" "r_key x = r_key x'" "r_used x = r_used x'" using bk [OF l False] by blast
    then show ?thesis using representsD(1,2) [OF r x(1)] x other [OF x(1) False] False by auto
  qed
  moreover have "\<exists>q x. live R' q x \<and> r_key x = k" if "(m(r_key r' := Some v)) k \<noteq> None" for k
  proof (cases "k = r_key r'")
    case True
    then show ?thesis using p'(1) by blast
  next
    case False
    then have "m k \<noteq> None" using that by simp
    then obtain q x where x: "live R q x" "r_key x = k" using representsD(3) [OF r] by blast
    then have "q \<noteq> p" using old(2) False by auto
    then show ?thesis using same_but_live(2) [OF s _ x(1)] x(2) by metis
  qed
  moreover have "a = b" if "live R' a x" "live R' b y" "r_key x = r_key y" for a b x y
    using that bk other at_p uniq by metis
  ultimately show ?thesis unfolding represents_def by blast
qed

end
