(* ===== verification/HashDbOps.thy ===== *)
theory HashDbOps
  imports HashDbChains
begin

text \<open>
  Every operation of the hash database keeps its invariant and acts on the map: looking up, fetching, deleting, and the ways of storing
  (into a free record, at the end of the files, in place, or in a new place for an old key).
\<close>

section \<open>Looking a key up\<close>

lemma loaded_twice [simp]: "loaded p r (loaded q s d) = loaded p r d"
  by (simp add: loaded_def)

lemma find_hit:
  assumes l: "lay db R H V" and c: "chain R q (xs @ p # ys)" and x: "\<forall>a\<in>set xs. \<forall>s. R a = Some s \<longrightarrow> r_key s \<noteq> key"
    and r: "R p = Some r" "r_key r = key" and n: "length xs < n"
  shows "find_loop n db key new prev (int q) = Inr (int p, if xs = [] then prev else int (last xs), loaded p r new)"
  using c x n
proof (induction xs arbitrary: n q new prev)
  case Nil
  then show ?case using lay_readidx [OF l r(1), of new] r by (cases n) auto
next
  case (Cons a xs)
  then obtain s where s: "q = a" "a \<noteq> 0" "R a = Some s" "chain R (r_next s) (xs @ p # ys)" by auto
  obtain n' where n': "n = Suc n'" "length xs < n'" using Cons.prems(3) by (cases n) auto
  have px: "\<forall>a\<in>set xs. \<forall>s. R a = Some s \<longrightarrow> r_key s \<noteq> key" using Cons.prems(2) by auto
  have "r_key s \<noteq> key" using Cons.prems(2) s(3) by simp
  then show ?case using Cons.IH [OF s(4) px n'(2), of "loaded a s new" "int a"] s(1,2) n'(1) lay_readidx [OF l s(3), of new]
    by (auto simp: bind_r_def)
qed

lemma find_miss:
  assumes l: "lay db R H V" and c: "chain R q xs" and x: "\<forall>a\<in>set xs. \<forall>s. R a = Some s \<longrightarrow> r_key s \<noteq> key" and n: "length xs < n"
  shows "\<exists>prev' new'. find_loop n db key new prev (int q) = Inr (0, prev', new')"
  using c x n
proof (induction xs arbitrary: n q new prev)
  case Nil
  then show ?case by (cases n) auto
next
  case (Cons a xs)
  then obtain s where s: "q = a" "a \<noteq> 0" "R a = Some s" "chain R (r_next s) xs" by auto
  obtain n' where n': "n = Suc n'" "length xs < n'" using Cons.prems(3) by (cases n) auto
  have px: "\<forall>a\<in>set xs. \<forall>s. R a = Some s \<longrightarrow> r_key s \<noteq> key" using Cons.prems(2) by auto
  have "r_key s \<noteq> key" using Cons.prems(2) s(3) by simp
  then show ?case using Cons.IH [OF s(4) px n'(2), of "loaded a s new" "int a"] s(1,2) n'(1) lay_readidx [OF l s(3), of new]
    by (auto simp: bind_r_def)
qed

text \<open>A chain is shorter than the file.\<close>

lemma chain_short:
  assumes "lay db R H V" "chain R q xs" shows "length xs < Suc (length (idxfile db))"
proof -
  have "set xs \<subseteq> {..<length (idxfile db)}" using chain_in [OF assms(2)] lay_wf [OF assms(1)] by fastforce
  then have "card (set xs) \<le> length (idxfile db)" using card_mono [of "{..<length (idxfile db)}" "set xs"] by simp
  then show ?thesis using distinct_card [OF chain_distinct [OF assms(2)]] by simp
qed

lemma chain_live:
  assumes "linked n h R H D" "b < n" "a \<in> set (D (Suc b))"
  shows "\<exists>s. live R a s \<and> h (r_key s) = b"
  using linkedD(2) [OF assms(1), of "Suc b" a] assms(2,3) by (auto simp: home_def live_def split: if_splits)

lemma live_in_chain: "linked n h R H D \<Longrightarrow> live R p r \<Longrightarrow> p \<in> set (D (Suc (h (r_key r))))"
  using linkedD(3) [of n h R H D p r] by (auto simp: live_def home_def)

lemma db_copy_loaded:
  "length (r_key r) \<le> r_alen r \<Longrightarrow> db_copy (loaded p r new) d = (loaded p r d)\<lparr>isfree := isfree d\<rparr>"
  by (simp add: db_copy_def loaded_def)

definition pre_ptr :: "nat \<Rightarrow> nat list \<Rightarrow> int" where
  "pre_ptr j xs = (if xs = [] then int (9 * j) else int (last xs))"

lemma db_find_found:
  assumes i: "db_inv c db R H V D m" and r: "live R p r"
  obtains xs ys where "D (Suc (bucket db (r_key r))) = xs @ p # ys"
    "\<And>d. db_find db d (r_key r) 0 = Inr (0, (loaded p r (d\<lparr>chainoff := int (9 * Suc (bucket db (r_key r))),
       ptroff := pre_ptr (Suc (bucket db (r_key r))) xs\<rparr>))\<lparr>isfree := isfree d\<rparr>)"
proof -
  let ?b = "bucket db (r_key r)"
  note l = db_invD(1) [OF i] and lk = db_invD(3) [OF i] and b = db_invD(8) [OF i, of "r_key r"]
  obtain xs ys where D: "D (Suc ?b) = xs @ p # ys" using live_in_chain [OF lk r] by (auto simp: in_set_conv_decomp)
  have ch: "chain R (H (Suc ?b)) (xs @ p # ys)" using linkedD(1) [OF lk, of "Suc ?b"] b D by simp
  have Rp: "R p = Some r" using r by (simp add: live_def)
  have xk: "r_key s \<noteq> r_key r" if a: "a \<in> set xs" "R a = Some s" for a s
  proof -
    obtain s' where "live R a s'" using chain_live [OF lk b, of a] D a(1) by auto
    then have s: "live R a s" using a(2) by (simp add: live_def)
    have "a \<noteq> p" using chain_distinct [OF ch] a(1) by auto
    then show ?thesis using representsD(4) [OF db_invD(6) [OF i] s r] by auto
  qed
  then have xk2: "\<forall>a\<in>set xs. \<forall>s. R a = Some s \<longrightarrow> r_key s \<noteq> r_key r" by blast
  have off: "db_readptr db (int (9 * Suc ?b)) = Inr (int (H (Suc ?b)))" using lay_readptr [OF l, of "Suc ?b"] b by simp
  have wf: "length (r_key r) \<le> r_alen r" "0 < p" using lay_wf [OF l Rp] by (auto simp: rec_wf_def)
  have len: "length xs < Suc (length (idxfile db))" using chain_short [OF l ch] by simp
  have "db_find db d (r_key r) 0 = Inr (0, (loaded p r (d\<lparr>chainoff := int (9 * Suc ?b), ptroff := pre_ptr (Suc ?b) xs\<rparr>))\<lparr>isfree := isfree d\<rparr>)" for d
    using find_hit [OF l ch xk2 Rp refl len, of dbd_alloc "int (9 * Suc ?b)"] off wf
    by (simp add: db_find_def Let_def find_chain_def chain_off [OF l] db_copy_loaded pre_ptr_def del: find_loop.simps of_nat_mult)
  with D show ?thesis by (rule that)
qed

lemma db_find_missing:
  assumes i: "db_inv c db R H V D m" and m: "m k = None"
  obtains x where "\<And>d. db_find db d k 0 = Inr (-1, d\<lparr>chainoff := int (9 * Suc (bucket db k)), ptroff := x\<rparr>)"
proof -
  let ?b = "bucket db k"
  note l = db_invD(1) [OF i] and lk = db_invD(3) [OF i] and b = db_invD(8) [OF i, of k]
  have ch: "chain R (H (Suc ?b)) (D (Suc ?b))" using linkedD(1) [OF lk, of "Suc ?b"] b by simp
  have xk: "r_key s \<noteq> k" if a: "a \<in> set (D (Suc ?b))" "R a = Some s" for a s
  proof -
    obtain s' where "live R a s'" using chain_live [OF lk b a(1)] by blast
    then have "live R a s" using a(2) by (simp add: live_def)
    then show ?thesis using representsD(1) [OF db_invD(6) [OF i]] m by auto
  qed
  then have xk2: "\<forall>a\<in>set (D (Suc ?b)). \<forall>s. R a = Some s \<longrightarrow> r_key s \<noteq> k" by blast
  have off: "db_readptr db (int (9 * Suc ?b)) = Inr (int (H (Suc ?b)))" using lay_readptr [OF l, of "Suc ?b"] b by simp
  obtain pr nw where "find_loop (Suc (length (idxfile db))) db k dbd_alloc (int (9 * Suc ?b)) (int (H (Suc ?b))) = Inr (0, pr, nw)"
    using find_miss [OF l ch xk2 chain_short [OF l ch]] by blast
  then have "db_find db d k 0 = Inr (-1, d\<lparr>chainoff := int (9 * Suc ?b), ptroff := pr\<rparr>)" for d
    using off by (simp add: db_find_def Let_def find_chain_def chain_off [OF l] del: find_loop.simps of_nat_mult)
  then show ?thesis by (rule that)
qed

section \<open>Fetching\<close>

lemma db_inv_other [simp]:
  "db_inv c (db\<lparr>cnt_delok := n\<rparr>) R H V D m = db_inv c db R H V D m" "db_inv c (db\<lparr>cnt_delerr := n\<rparr>) R H V D m = db_inv c db R H V D m"
  "db_inv c (db\<lparr>cnt_fetchok := n\<rparr>) R H V D m = db_inv c db R H V D m" "db_inv c (db\<lparr>cnt_fetcherr := n\<rparr>) R H V D m = db_inv c db R H V D m"
  "db_inv c (db\<lparr>cnt_stor1 := n\<rparr>) R H V D m = db_inv c db R H V D m" "db_inv c (db\<lparr>cnt_stor2 := n\<rparr>) R H V D m = db_inv c db R H V D m"
  "db_inv c (db\<lparr>cnt_stor3 := n\<rparr>) R H V D m = db_inv c db R H V D m" "db_inv c (db\<lparr>cnt_stor4 := n\<rparr>) R H V D m = db_inv c db R H V D m"
  "db_inv c (db\<lparr>cnt_storerr := n\<rparr>) R H V D m = db_inv c db R H V D m"
  by (simp_all add: db_inv_def bucket_def [abs_def] db_hash_def)

lemma fetch_present:
  assumes i: "db_inv c db R H V D m" and r: "live R p r"
  shows "\<exists>d. db_fetch db (r_key r) None = Inr (Some d, None, db\<lparr>cnt_fetchok := cnt_fetchok db + 1\<rparr>) \<and> datbuf d = Some (V p)"
proof -
  obtain xs ys where f: "\<And>d. db_find db d (r_key r) 0 = Inr (0, (loaded p r (d\<lparr>chainoff := int (9 * Suc (bucket db (r_key r))),
       ptroff := pre_ptr (Suc (bucket db (r_key r))) xs\<rparr>))\<lparr>isfree := isfree d\<rparr>)"
    using db_find_found [OF i r] by metis
  have "R p = Some r" "length (V p) = r_used r" using r representsD(2) [OF db_invD(6) [OF i] r] by (simp_all add: live_def)
  then show ?thesis using lay_readdat [OF db_invD(1) [OF i]] by (simp add: db_fetch_def f del: of_nat_mult)
qed

lemma fetch_absent:
  assumes i: "db_inv c db R H V D m" and m: "m k = None"
  shows "db_fetch db k None = Inr (None, None, db\<lparr>cnt_fetcherr := cnt_fetcherr db + 1\<rparr>)"
proof -
  obtain x where "\<And>d. db_find db d k 0 = Inr (-1, d\<lparr>chainoff := int (9 * Suc (bucket db k)), ptroff := x\<rparr>)"
    using db_find_missing [OF i m] by metis
  then show ?thesis by (simp add: db_fetch_def)
qed

section \<open>Moving records\<close>

lemma lay_relink:
  assumes l: "lay db R H V" and j: "j \<le> nat (nhash db)" and v: "v \<le> 999999999" and x: "xs \<noteq> [] \<Longrightarrow> R (last xs) \<noteq> None"
  shows "\<exists>f. db_writeptr db (pre_ptr j xs) (int v) = Inr (db\<lparr>idxfile := f\<rparr>)
    \<and> lay (db\<lparr>idxfile := f\<rparr>) (relink_recs R xs v) (relink_heads H j xs v) V"
proof (cases "xs = []")
  case True
  then show ?thesis using lay_writeptr_head [OF l j v] by (simp add: pre_ptr_def relink_recs_def relink_heads_def)
next
  case False
  then obtain r where "R (last xs) = Some r" using x by auto
  then show ?thesis using lay_writeptr_rec [OF l _ v, of "last xs" r] False by (simp add: pre_ptr_def relink_recs_def relink_heads_def)
qed

lemma roomy_next [simp]: "roomy c (r\<lparr>r_next := v\<rparr>) = roomy c r"
  by (simp add: roomy_def)

lemma fs_of_other: "q \<noteq> p \<Longrightarrow> fs_of ((relink_recs R xs v)(p := x)) q = fs_of R q"
  by (cases "R q") (auto simp: fs_of_def relink_recs_def)

lemma bucket_same: "nhash db' = nhash db \<Longrightarrow> bucket db' = bucket db"
  by (simp add: fun_eq_iff bucket_def db_hash_def)

lemma db_inv_move:
  assumes i: "db_inv c db R H V D m" and ij: "a \<le> nat (nhash db)" "j \<le> nat (nhash db)" "a \<noteq> j"
    and D: "D a = xs @ p # ys" and p: "R p = Some r" and r': "home (bucket db) r' = j" "r_next r' = H j" "roomy c r'"
    and l: "lay db' ((relink_recs R xs (r_next r))(p := Some r')) ((relink_heads H a xs (r_next r))(j := p)) V'" "nhash db' = nhash db"
    and f: "free_list db' = map (fs_of ((relink_recs R xs (r_next r))(p := Some r'))) ((D(a := xs @ ys, j := p # D j)) 0)"
    and m: "represents ((relink_recs R xs (r_next r))(p := Some r')) V' m'"
  shows "db_inv c db' ((relink_recs R xs (r_next r))(p := Some r')) ((relink_heads H a xs (r_next r))(j := p)) V' (D(a := xs @ ys, j := p # D j)) m'"
proof -
  have "roomy c s" if s: "((relink_recs R xs (r_next r))(p := Some r')) q = Some s" for q s
  proof (cases "q = p")
    case False
    then obtain s' where "R q = Some s'" "s = s'\<lparr>r_next := r_next s\<rparr>" using s relink_some [of R xs "r_next r" q s] by auto
    then show ?thesis using db_invD(5) [OF i] by (metis roomy_next)
  qed (use s r' in simp)
  moreover have "linked (nat (nhash db)) (bucket db) ((relink_recs R xs (r_next r))(p := Some r')) ((relink_heads H a xs (r_next r))(j := p)) (D(a := xs @ ys, j := p # D j))"
    by (rule linked_move [OF db_invD(3) [OF i] ij D p r'(1,2)])
  ultimately show ?thesis unfolding db_inv_def l(2) bucket_same [OF l(2)] using l(1) f m db_invD(2) [OF i] by blast
qed

definition sizes :: "hdb \<Rightarrow> int \<times> nat \<times> nat" where
  "sizes db = (nhash db, length (idxfile db), length (datfile db))"

section \<open>Deleting\<close>

lemma lay_sizes: "lay db R H V \<Longrightarrow> lay db' R' H' V' \<Longrightarrow> nhash db' = nhash db \<Longrightarrow> idx_len db' = idx_len db \<Longrightarrow> dat_len db' = dat_len db \<Longrightarrow>
    sizes db' = sizes db"
  using layD(3,4) [of db R H V] layD(3,4) [of db' R' H' V'] by (simp add: sizes_def)

lemma dodelete_live:
  assumes i: "db_inv c db R H V D m" and r: "live R p r" and D: "D (Suc (bucket db (r_key r))) = xs @ p # ys"
    and d: "d = (loaded p r (d0\<lparr>chainoff := co, ptroff := pre_ptr (Suc (bucket db (r_key r))) xs\<rparr>))\<lparr>isfree := isfree d0\<rparr>"
  shows "\<exists>db' R' H' D'. db_dodelete db d = Inr db' \<and> db_inv c db' R' H' V D' (m(r_key r := None)) \<and> sizes db' = sizes db"
proof -
  let ?b = "bucket db (r_key r)" and ?k = "replicate (length (r_key r)) (32 :: u8)"
  let ?r = "r\<lparr>r_next := H 0, r_key := ?k, r_free := True\<rparr>"
  note l = db_invD(1) [OF i] and lk = db_invD(3) [OF i] and b = db_invD(8) [OF i, of "r_key r"]
  have Rp: "R p = Some r" "\<not> r_free r" using r by (simp_all add: live_def)
  have ch: "chain R (H (Suc ?b)) (xs @ p # ys)" using linkedD(1) [OF lk, of "Suc ?b"] b D by simp
  have px: "p \<notin> set xs" using chain_distinct [OF ch] by simp
  have wf: "rec_wf r" "roomy c r" "p \<le> 999999999" using lay_wf [OF l Rp(1)] db_invD(5) [OF i Rp(1)] by auto
  have h0: "H 0 \<le> 999999999" using layD(6) [OF l, of 0] by (simp add: head_at_def)
  have roomy: "roomy c ?r" using wf(2) by (simp add: roomy_def)
  have wf': "rec_wf ?r" by (rule roomy_wf [OF roomy]) (use wf(1) h0 in \<open>auto simp: rec_wf_def\<close>)
  have says: "says (d\<lparr>isfree := IS_FREE_SPACE\<rparr>) ?k (int (H 0)) ?r" "idxlen (d\<lparr>isfree := IS_FREE_SPACE\<rparr>) = int (r_idxlen r)"
    using wf(1) wf' by (simp_all add: says_def d IS_FREE_SPACE_def rec_wf_def)
  obtain x f1 where w1: "db_writeidx db (d\<lparr>isfree := IS_FREE_SPACE\<rparr>) ?k (int p) SEEK_SET (int (H 0)) =
      Inr (0, d\<lparr>isfree := IS_FREE_SPACE, ptrval := int (H 0), idxbuf := x, idxoff := int p\<rparr>, db\<lparr>idxfile := f1\<rparr>)"
    and l1: "lay (db\<lparr>idxfile := f1\<rparr>) (R(p := Some ?r)) H V"
    using lay_writeidx [OF l Rp(1) wf' _ _ _ says] by auto
  obtain f2 where w2: "db_writeptr (db\<lparr>idxfile := f1\<rparr>) FREE_OFF (int p) = Inr (db\<lparr>idxfile := f2\<rparr>)"
    and l2: "lay (db\<lparr>idxfile := f2\<rparr>) (R(p := Some ?r)) (H(0 := p)) V"
    using lay_writeptr_head [OF l1, of 0 p] wf(3) by (auto simp: FREE_OFF_def)
  have last: "xs \<noteq> [] \<Longrightarrow> (R(p := Some ?r)) (last xs) \<noteq> None" using chain_in [OF ch, of "last xs"] by auto
  have nx: "r_next r \<le> 999999999" using wf(1) by (simp add: rec_wf_def)
  have b2: "Suc ?b \<le> nat (nhash (db\<lparr>idxfile := f2\<rparr>))" using b by simp
  obtain f3 where f3: "db_writeptr (db\<lparr>idxfile := f2\<rparr>) (pre_ptr (Suc ?b) xs) (int (r_next r)) = Inr (db\<lparr>idxfile := f2\<rparr>\<lparr>idxfile := f3\<rparr>)"
    "lay (db\<lparr>idxfile := f2\<rparr>\<lparr>idxfile := f3\<rparr>) (relink_recs (R(p := Some ?r)) xs (r_next r)) (relink_heads (H(0 := p)) (Suc ?b) xs (r_next r)) V"
    using lay_relink [OF l2 b2 nx last] by blast
  have two: "db\<lparr>idxfile := f2\<rparr>\<lparr>idxfile := f3\<rparr> = db\<lparr>idxfile := f3\<rparr>" by simp
  note w3 = f3(1) [unfolded two] and l3 = f3(2) [unfolded two]
  have eqs: "relink_recs (R(p := Some ?r)) xs (r_next r) = (relink_recs R xs (r_next r))(p := Some ?r)"
    "relink_heads (H(0 := p)) (Suc ?b) xs (r_next r) = (relink_heads H (Suc ?b) xs (r_next r))(0 := p)"
    using px last_in_set [of xs] by (auto simp: relink_recs_def relink_heads_def fun_eq_iff)
  let ?R = "(relink_recs R xs (r_next r))(p := Some ?r)"
  let ?db = "db\<lparr>idxfile := f3, free_list := fs_of ?R p # free_list db\<rparr>"
  have out: "db_dodelete db d = Inr ?db"
    using lay_readptr [OF l, of 0] w1 w2 w3
    by (simp add: db_dodelete_def Let_def d FREE_OFF_def db_cache_add_def fs_of_def)
  have p0: "p \<notin> set (D 0)" using linkedD(2) [OF lk, of 0 p] Rp by (auto simp: home_def)
  have fso: "fs_of ?R q = fs_of R q" if "q \<in> set (D 0)" for q using that p0 by (intro fs_of_other) auto
  have fl: "free_list ?db = map (fs_of ?R) ((D(Suc ?b := xs @ ys, 0 := p # D 0)) 0)"
    using db_invD(4) [OF i] fso by simp
  have rep: "represents ?R V (m(r_key r := None))"
    by (rule represents_drop [OF db_invD(6) [OF i] r same_but_relink]) auto
  have "db_inv c ?db ?R ((relink_heads H (Suc ?b) xs (r_next r))(0 := p)) V (D(Suc ?b := xs @ ys, 0 := p # D 0)) (m(r_key r := None))"
    by (rule db_inv_move [OF i _ _ _ D Rp(1) _ _ roomy _ _ fl rep]) (use b l3 eqs in \<open>auto simp: home_def\<close>)
  moreover have "sizes ?db = sizes db" using lay_sizes [OF l l3] by (simp add: sizes_def)
  ultimately show ?thesis using out by blast
qed

lemma delete_live:
  assumes i: "db_inv c db R H V D m" and r: "live R p r"
  shows "\<exists>db' R' H' D'. db_delete db (r_key r) = Inr (0, db') \<and> db_inv c db' R' H' V D' (m(r_key r := None)) \<and> sizes db' = sizes db"
proof -
  obtain xs ys where D: "D (Suc (bucket db (r_key r))) = xs @ p # ys"
    and f: "\<And>d. db_find db d (r_key r) 0 = Inr (0, (loaded p r (d\<lparr>chainoff := int (9 * Suc (bucket db (r_key r))),
       ptroff := pre_ptr (Suc (bucket db (r_key r))) xs\<rparr>))\<lparr>isfree := isfree d\<rparr>)"
    using db_find_found [OF i r] by metis
  obtain db' R' H' D' where "db_dodelete db ((loaded p r (dbd_alloc\<lparr>chainoff := int (9 * Suc (bucket db (r_key r))),
       ptroff := pre_ptr (Suc (bucket db (r_key r))) xs\<rparr>))\<lparr>isfree := isfree dbd_alloc\<rparr>) = Inr db'"
    "db_inv c db' R' H' V D' (m(r_key r := None))" "sizes db' = sizes db"
    using dodelete_live [OF i r D refl] by blast
  moreover have "db_delete db (r_key r) = bind_r (db_dodelete db ((loaded p r (dbd_alloc\<lparr>chainoff := int (9 * Suc (bucket db (r_key r))),
       ptroff := pre_ptr (Suc (bucket db (r_key r))) xs\<rparr>))\<lparr>isfree := isfree dbd_alloc\<rparr>)) (\<lambda>db. Inr (0, db\<lparr>cnt_delok := cnt_delok db + 1\<rparr>))"
    by (simp add: db_delete_def f del: of_nat_mult)
  ultimately have "db_delete db (r_key r) = Inr (0, db'\<lparr>cnt_delok := cnt_delok db' + 1\<rparr>)"
    "db_inv c (db'\<lparr>cnt_delok := cnt_delok db' + 1\<rparr>) R' H' V D' (m(r_key r := None))"
    "sizes (db'\<lparr>cnt_delok := cnt_delok db' + 1\<rparr>) = sizes db"
    by (simp_all add: sizes_def)
  then show ?thesis by blast
qed

lemma delete_missing:
  assumes i: "db_inv c db R H V D m" and m: "m k = None"
  shows "db_delete db k = Inr (-1, db\<lparr>cnt_delerr := cnt_delerr db + 1\<rparr>)"
proof -
  obtain x where "\<And>d. db_find db d k 0 = Inr (-1, d\<lparr>chainoff := int (9 * Suc (bucket db k)), ptroff := x\<rparr>)"
    using db_find_missing [OF i m] by metis
  then show ?thesis by (simp add: db_delete_def)
qed

section \<open>Storing\<close>

lemma findfree_loop_result:
  assumes l: "lay db R H V" and q: "\<forall>q\<in>set qs. R q \<noteq> None"
  shows "findfree_loop db kl dl new save (map (fs_of R) qs) = Inr None
    \<or> (\<exists>xs p ys r. qs = xs @ p # ys \<and> R p = Some r \<and> kl \<le> int (r_alen r) \<and> dl \<le> int (r_cap r)
        \<and> findfree_loop db kl dl new save (map (fs_of R) qs)
          = Inr (Some (loaded p r new, if xs = [] then save else int (last xs), map (fs_of R) (xs @ ys))))"
  using q
proof (induction qs arbitrary: save)
  case (Cons q qs)
  obtain r where r: "R q = Some r" using Cons.prems by auto
  have it: "fs_offset (fs_of R q) = int q" "fs_datlen (fs_of R q) = int (r_cap r)" "fs_idxlen_a (fs_of R q) = int (r_alen r)"
    using r by (simp_all add: fs_of_def)
  show ?case
  proof (cases "size_fits (int (r_alen r)) (int (r_cap r)) kl dl")
    case True
    then have "findfree_loop db kl dl new save (map (fs_of R) (q # qs)) = Inr (Some (loaded q r new, save, map (fs_of R) qs))"
      using lay_readidx [OF l r, of new] by (simp add: it)
    then show ?thesis using True r by (intro disjI2 exI [of _ "[]"] exI [of _ q] exI [of _ qs] exI [of _ r]) (simp add: size_fits_def)
  next
    case False
    have qs: "\<forall>q\<in>set qs. R q \<noteq> None" using Cons.prems by simp
    from Cons.IH [OF qs, of "int q"] show ?thesis
    proof (elim disjE exE conjE)
      fix xs p ys s assume "qs = xs @ p # ys" "R p = Some s" "kl \<le> int (r_alen s)" "dl \<le> int (r_cap s)"
        "findfree_loop db kl dl new (int q) (map (fs_of R) qs) = Inr (Some (loaded p s new, if xs = [] then int q else int (last xs), map (fs_of R) (xs @ ys)))"
      then show ?thesis using False by (intro disjI2 exI [of _ "q # xs"] exI [of _ p] exI [of _ ys] exI [of _ s]) (simp add: it)
    qed (use False it in simp)
  qed
qed simp

lemma findfree_result:
  assumes i: "db_inv c db R H V D m"
  shows "db_findfree_cache db d kl dl = Inr (-1, d, db)
    \<or> (\<exists>xs p ys r f. D 0 = xs @ p # ys \<and> R p = Some r \<and> kl \<le> int (r_alen r) \<and> dl \<le> int (r_cap r)
        \<and> db_findfree_cache db d kl dl = Inr (0, (loaded p r d)\<lparr>isfree := isfree d\<rparr>, db\<lparr>idxfile := f, free_list := map (fs_of R) (xs @ ys)\<rparr>)
        \<and> lay (db\<lparr>idxfile := f\<rparr>) (relink_recs R xs (r_next r)) (relink_heads H 0 xs (r_next r)) V)"
proof -
  note l = db_invD(1) [OF i] and lk = db_invD(3) [OF i] and fl = db_invD(4) [OF i]
  have "\<forall>q\<in>set (D 0). R q \<noteq> None" using linkedD(2) [OF lk, of 0] by fastforce
  from findfree_loop_result [OF l this, of kl dl dbd_alloc FREE_OFF] show ?thesis
  proof (elim disjE exE conjE)
    assume "findfree_loop db kl dl dbd_alloc FREE_OFF (map (fs_of R) (D 0)) = Inr None"
    then show ?thesis by (simp add: db_findfree_cache_def fl)
  next
    fix xs p ys r
    assume D: "D 0 = xs @ p # ys" "R p = Some r" "kl \<le> int (r_alen r)" "dl \<le> int (r_cap r)"
      and f: "findfree_loop db kl dl dbd_alloc FREE_OFF (map (fs_of R) (D 0)) =
        Inr (Some (loaded p r dbd_alloc, if xs = [] then FREE_OFF else int (last xs), map (fs_of R) (xs @ ys)))"
    have wf: "length (r_key r) \<le> r_alen r" "r_next r \<le> 999999999" using lay_wf [OF l D(2)] by (auto simp: rec_wf_def)
    have last: "xs \<noteq> [] \<Longrightarrow> R (last xs) \<noteq> None" using linkedD(2) [OF lk, of 0 "last xs"] D(1) by auto
    obtain g where g: "db_writeptr db (pre_ptr 0 xs) (int (r_next r)) = Inr (db\<lparr>idxfile := g\<rparr>)"
      "lay (db\<lparr>idxfile := g\<rparr>) (relink_recs R xs (r_next r)) (relink_heads H 0 xs (r_next r)) V"
      using lay_relink [OF l _ wf(2) last, of 0] by auto
    have pre: "(if xs = [] then FREE_OFF else int (last xs)) = pre_ptr 0 xs" by (simp add: pre_ptr_def FREE_OFF_def)
    have "db_findfree_cache db d kl dl = Inr (0, (loaded p r d)\<lparr>isfree := isfree d\<rparr>, db\<lparr>idxfile := g, free_list := map (fs_of R) (xs @ ys)\<rparr>)"
      unfolding db_findfree_cache_def fl f pre by (simp add: db_copy_loaded wf(1) g(1) Let_def)
    then show ?thesis using D g(2) by blast
  qed
qed

lemma head_bound: "lay db R H V \<Longrightarrow> j \<le> nat (nhash db) \<Longrightarrow> H j \<le> 999999999"
  using layD(6) [of db R H V j] by (simp add: head_at_def)

text \<open>A record in the place of a free one.\<close>

lemma reuse_live:
  assumes i: "db_inv c db R H V D m" and D: "D 0 = xs @ p # ys" and p: "R p = Some r" and k: "good_key c k" "m k = None"
    and fits: "length k \<le> r_alen r" "length data \<le> r_cap r"
    and l: "lay (db\<lparr>idxfile := f\<rparr>) (relink_recs R xs (r_next r)) (relink_heads H 0 xs (r_next r)) V"
    and d: "isfree d = 0" "chainoff d = int (9 * Suc (bucket db k))"
  shows "\<exists>d' db' R' H' D'. reuse_record (db\<lparr>idxfile := f, free_list := map (fs_of R) (xs @ ys)\<rparr>) ((loaded p r d)\<lparr>isfree := isfree d\<rparr>) k data
      (int (H (Suc (bucket db k)))) = Inr (d', db') \<and> db_inv c db' R' H' (V(p := data)) D' (m(k := Some data)) \<and> sizes db' = sizes db"
proof -
  let ?b = "bucket db k" and ?R = "relink_recs R xs (r_next r)" and ?H = "relink_heads H 0 xs (r_next r)"
  let ?r = "r\<lparr>r_next := H (Suc ?b), r_key := k, r_used := length data, r_free := False\<rparr>"
  let ?dbx = "db\<lparr>idxfile := f, free_list := map (fs_of R) (xs @ ys)\<rparr>"
  note l0 = db_invD(1) [OF i] and lk = db_invD(3) [OF i] and b = db_invD(8) [OF i, of k]
  have free: "r_free r" using linkedD(2) [OF lk, of 0 p] D p by (auto simp: home_def split: if_splits)
  have ch: "chain R (H 0) (xs @ p # ys)" using linkedD(1) [OF lk, of 0] D by simp
  have px: "p \<notin> set xs" "p \<notin> set ys" using chain_distinct [OF ch] by auto
  have Rp: "?R p = Some r" using p px last_in_set [of xs] by (auto simp: relink_recs_def)
  have wf: "rec_wf r" "roomy c r" "p \<le> 999999999" using lay_wf [OF l0 p] db_invD(5) [OF i p] by auto
  have hb: "H (Suc ?b) \<le> 999999999" using head_bound [OF l0, of "Suc ?b"] b by simp
  have roomy: "roomy c ?r" using wf(2) k(1) by (simp add: roomy_def good_key_def)
  have wf': "rec_wf ?r" by (rule roomy_wf [OF roomy]) (use wf(1) hb fits k in \<open>auto simp: rec_wf_def good_key_def\<close>)
  define g where "g = os_physpwrite (datfile db) data (int (r_datoff r))"
  have l1: "lay (db\<lparr>idxfile := f, datfile := g\<rparr>) ?R ?H (V(p := data))" using lay_writedat [OF l Rp fits(2)] by (simp add: g_def)
  define e where "e = (loaded p r d)\<lparr>isfree := isfree d, datlen_u := int (length data), datoff := int (r_datoff r)\<rparr>"
  have says: "says e k (int (H (Suc ?b))) ?r" "idxlen e = int (r_idxlen r)"
    using wf(1) wf' fits(1) d(1) by (auto simp: says_def e_def rec_wf_def)
  have w0: "db_writedat_bin ?dbx ((loaded p r d)\<lparr>isfree := isfree d\<rparr>) data (datoff ((loaded p r d)\<lparr>isfree := isfree d\<rparr>)) SEEK_SET = (e, ?dbx\<lparr>datfile := g\<rparr>)"
    by (simp add: writedat_end e_def g_def)
  have l1': "lay (?dbx\<lparr>datfile := g\<rparr>) ?R ?H (V(p := data))"
  proof -
    have "?dbx\<lparr>datfile := g\<rparr> = (db\<lparr>idxfile := f, datfile := g\<rparr>)\<lparr>free_list := map (fs_of R) (xs @ ys)\<rparr>" by simp
    then show ?thesis using l1 by (simp only: lay_other)
  qed
  have e: "idxoff e = int p" "chainoff e = int (9 * Suc ?b)" "datlen e = int (r_cap r)" using d(2) by (simp_all add: e_def)
  have e': "chainoff (e\<lparr>ptrval := z, idxbuf := x, idxoff := int p\<rparr>) = int (9 * Suc ?b)" "idxoff (e\<lparr>ptrval := z, idxbuf := x, idxoff := int p\<rparr>) = int p"
    for z x using e by simp_all
  obtain x f1 where w1: "db_writeidx (?dbx\<lparr>datfile := g\<rparr>) e k (int p) SEEK_SET (int (H (Suc ?b))) =
      Inr (0, e\<lparr>ptrval := int (H (Suc ?b)), idxbuf := x, idxoff := int p\<rparr>, ?dbx\<lparr>datfile := g\<rparr>\<lparr>idxfile := f1\<rparr>)"
    and l2: "lay (?dbx\<lparr>datfile := g\<rparr>\<lparr>idxfile := f1\<rparr>) (?R(p := Some ?r)) ?H (V(p := data))"
    using lay_writeidx [OF l1' Rp wf' _ _ _ says] by auto
  have b2: "Suc ?b \<le> nat (nhash (?dbx\<lparr>datfile := g\<rparr>\<lparr>idxfile := f1\<rparr>))" using b by simp
  obtain f2 where w2: "db_writeptr (?dbx\<lparr>datfile := g\<rparr>\<lparr>idxfile := f1\<rparr>) (int (9 * Suc ?b)) (int p) = Inr (?dbx\<lparr>datfile := g\<rparr>\<lparr>idxfile := f1\<rparr>\<lparr>idxfile := f2\<rparr>)"
    and l3: "lay (?dbx\<lparr>datfile := g\<rparr>\<lparr>idxfile := f1\<rparr>\<lparr>idxfile := f2\<rparr>) (?R(p := Some ?r)) (?H(Suc ?b := p)) (V(p := data))"
    using lay_writeptr_head [OF l2 b2 wf(3)] by blast
  let ?db = "?dbx\<lparr>datfile := g\<rparr>\<lparr>idxfile := f1\<rparr>\<lparr>idxfile := f2\<rparr>"
  have out: "reuse_record ?dbx ((loaded p r d)\<lparr>isfree := isfree d\<rparr>) k data (int (H (Suc ?b))) =
      Inr (e\<lparr>ptrval := int (H (Suc ?b)), idxbuf := x, idxoff := int p\<rparr>, ?db)"
    by (simp only: reuse_record_def w0 Let_def prod.case e(1) e' w1 w2 bind_r_simps)
  have fso: "fs_of (?R(p := Some ?r)) q = fs_of R q" if "q \<in> set (xs @ ys)" for q using that px by (intro fs_of_other) auto
  have fl: "free_list ?db = map (fs_of (?R(p := Some ?r))) ((D(0 := xs @ ys, Suc ?b := p # D (Suc ?b))) 0)" using fso by simp
  have rep: "represents (?R(p := Some ?r)) (V(p := data)) (m(r_key ?r := Some data))"
    by (rule represents_put [OF db_invD(6) [OF i] _ _ same_but_relink]) (use k p free in \<open>auto simp: live_def\<close>)
  have "db_inv c ?db (?R(p := Some ?r)) (?H(Suc ?b := p)) (V(p := data)) (D(0 := xs @ ys, Suc ?b := p # D (Suc ?b))) (m(r_key ?r := Some data))"
    by (rule db_inv_move [OF i _ _ _ D p _ _ roomy l3 _ fl rep]) (use b in \<open>auto simp: home_def\<close>)
  moreover have "sizes ?db = sizes db" using lay_sizes [OF l0 l3] by (simp add: sizes_def)
  ultimately show ?thesis using out by auto
qed

text \<open>A new record at the ends of the files.\<close>

definition room :: "hdb \<Rightarrow> bytes \<Rightarrow> bytes \<Rightarrow> bool" where
  "room db k data \<longleftrightarrow> dat_len db + int (length data) \<le> 2000000000 \<and> idx_len db + int (length k) \<le> 999999999"

lemma enough_iff_room: "db_is_enough_file_space db (int (length k)) (int (length data)) = 0 \<longleftrightarrow> room db k data"
  by (auto simp: db_is_enough_file_space_def room_def DATA_FILELEN_MAX_def PTR_MAX_def)

definition grows :: "hdb \<Rightarrow> hdb \<Rightarrow> nat \<Rightarrow> bool" where
  "grows db db' n \<longleftrightarrow> nhash db' = nhash db \<and> length (idxfile db') \<le> length (idxfile db) + 4109
     \<and> length (datfile db') \<le> length (datfile db) + n"

lemma grows_same: "sizes db' = sizes db \<Longrightarrow> grows db db' n"
  by (simp add: grows_def sizes_def)

lemma digits_small: "n \<le> 4000 \<Longrightarrow> digits n \<le> 4" "n \<le> 2097152 \<Longrightarrow> digits n \<le> 7" "n \<le> 2000000000 \<Longrightarrow> digits n \<le> 10"
  using length_dec_nat [of n 3] length_dec_nat [of n 6] length_dec_nat [of n 9] by (simp_all add: digits_def)

lemma append_live:
  assumes i: "db_inv c db R H V D m" and k: "good_key c k" "m k = None" and data: "length data \<le> 2097152" and room: "room db k data"
    and d: "isfree d = 0" "chainoff d = int (9 * Suc (bucket db k))" "idxlen d = int il" "il \<le> 4096" "idxlen_a d = int al"
      "al = 0 \<or> digits al = c \<and> al \<le> 4000"
  shows "\<exists>d' db' R' H' D'. append_record db d k data (int (H (Suc (bucket db k)))) = Inr (d', db')
    \<and> db_inv c db' R' H' (V(length (idxfile db) := data)) D' (m(k := Some data)) \<and> grows db db' (length data)"
proof -
  let ?b = "bucket db k" and ?p = "length (idxfile db)" and ?n = "int (H (Suc (bucket db k)))"
  note l = db_invD(1) [OF i] and lk = db_invD(3) [OF i] and b = db_invD(8) [OF i, of k]
  define r0 where "r0 = \<lparr>r_next = H (Suc ?b), r_key = k, r_alen = max al (length k), r_datoff = length (datfile db), r_cap = length data,
    r_used = length data, r_free = False, r_idxlen = 0\<rparr>"
  define r where "r = r0\<lparr>r_idxlen := max il (r_alen r0 + length (rec_fields r0) + 1)\<rparr>"
  have rf: "rec_fields r = rec_fields r0" "r_alen r = r_alen r0" by (simp_all add: r_def rec_fields_def)
  have r: "r_next r = H (Suc ?b)" "r_key r = k" "r_alen r = max al (length k)" "r_datoff r = length (datfile db)" "r_cap r = length data"
    "r_used r = length data" "\<not> r_free r" "r_idxlen r = max il (r_alen r + length (rec_fields r) + 1)"
    by (simp_all add: r_def r0_def rec_fields_def)
  have kl: "0 \<notin> set k" "digits (length k) = c" "length k \<le> 4000" using k(1) by (auto simp: good_key_def)
  have al: "digits (r_alen r) = c" "r_alen r \<le> 4000" using d(6) kl r(3) by (auto simp: max_def digits_def)
  have sz: "length (datfile db) \<le> 2000000000" "?p \<le> 999999999"
    using room layD(3,4) [OF l] by (auto simp: room_def)
  have lf: "length (rec_fields r) = 6 + digits (r_datoff r) + digits (r_cap r) + c + digits (r_cap r)"
    using kl(2) r(2,5,6) by (simp add: length_fields)
  have roomy: "roomy c r" using al lf r kl(2) by (auto simp: roomy_def max_def)
  have c4: "c \<le> 4" using digits_small(1) kl by blast
  have il: "r_idxlen r \<le> 4096" using digits_small(2) [OF data] digits_small(3) [OF sz(1)] lf c4 al d(4) r(4,5) by (auto simp: r(8) max_def)
  have hb: "H (Suc ?b) \<le> 999999999" using head_bound [OF l, of "Suc ?b"] b by simp
  have wf: "rec_wf r" by (rule roomy_wf [OF roomy]) (use kl il hb data sz r(1-6) in simp_all)
  define e where "e = d\<lparr>idxlen_u := int (length k), datlen := int (length data), datlen_u := int (length data), datoff := dat_len db\<rparr>"
  have says: "says e k ?n r"
    using d r rf layD(4) [OF l] by (auto simp: says_def e_def max_def)
  let ?dbx = "db\<lparr>dat_len := dat_len db + int (length data), datfile := datfile db @ data\<rparr>"
  let ?dby = "db\<lparr>dat_len := dat_len db + int (length data), datfile := datfile db @ data, idx_len := idx_len db + int (r_idxlen r + 13),
      idxfile := idxfile db @ rec_bytes r\<rparr>"
  have w0: "db_writedat_bin db (d\<lparr>idxlen_u := int (length k)\<rparr>) data 0 SEEK_END = (e, ?dbx)"
    using layD(4) [OF l] by (simp add: writedat_end e_def write_end)
  obtain x where w1: "db_writeidx ?dbx e k 0 SEEK_END ?n = Inr (0, e\<lparr>ptrval := ?n, idxbuf := x, idxoff := int ?p\<rparr>, ?dby)"
    using lay_append(1) [OF l refl sz(2) wf r(4,5) says] by blast
  have l1: "lay ?dby (R(?p := Some r)) H (V(?p := data))" and new: "R ?p = None"
    using lay_append(2,3) [OF l refl sz(2) wf r(4,5) says] by blast+
  have b2: "Suc ?b \<le> nat (nhash ?dby)" using b by simp
  obtain f where w2: "db_writeptr ?dby (int (9 * Suc ?b)) (int ?p) = Inr (?dby\<lparr>idxfile := f\<rparr>)"
    and l2: "lay (?dby\<lparr>idxfile := f\<rparr>) (R(?p := Some r)) (H(Suc ?b := ?p)) (V(?p := data))"
    using lay_writeptr_head [OF l1 b2 sz(2)] by blast
  let ?db = "?dby\<lparr>idxfile := f\<rparr>"
  have e': "chainoff (e\<lparr>ptrval := z, idxbuf := x, idxoff := int ?p\<rparr>) = int (9 * Suc ?b)" "idxoff (e\<lparr>ptrval := z, idxbuf := x, idxoff := int ?p\<rparr>) = int ?p"
    for z x using d(2) by (simp_all add: e_def)
  have out: "append_record db d k data ?n = Inr (e\<lparr>ptrval := ?n, idxbuf := x, idxoff := int ?p\<rparr>, ?db)"
    by (simp only: append_record_def w0 Let_def prod.case e' w1 w2 bind_r_simps)
  have p0: "?p \<noteq> 0" using layD(5) [OF l] by (auto simp: first_rec_def)
  have lk': "linked (nat (nhash db)) (bucket db) (R(?p := Some r)) (H(Suc ?b := ?p)) (D(Suc ?b := ?p # D (Suc ?b)))"
    by (rule linked_add [OF lk _ new p0]) (use b r in \<open>auto simp: home_def\<close>)
  have fso: "fs_of (R(?p := Some r)) q = fs_of R q" if "q \<in> set (D 0)" for q
    using linkedD(2) [OF lk, of 0 q] that new by (auto simp: fs_of_def)
  have rep: "represents (R(?p := Some r)) (V(?p := data)) (m(r_key r := Some data))"
    by (rule represents_put [OF db_invD(6) [OF i]]) (use k new r in \<open>auto simp: live_def same_but_def\<close>)
  have "db_inv c ?db (R(?p := Some r)) (H(Suc ?b := ?p)) (V(?p := data)) (D(Suc ?b := ?p # D (Suc ?b))) (m(k := Some data))"
    unfolding db_inv_def using l2 db_invD(2,4,5) [OF i] lk' fso rep roomy r(2) bucket_same [of ?db db] by auto
  moreover have "grows db ?db (length data)"
    using layD(3) [OF l] layD(3) [OF l2] il by (simp add: grows_def)
  ultimately show ?thesis using out by blast
qed

text \<open>A record whose data changes in place.\<close>

lemma overwrite_live:
  assumes i: "db_inv c db R H V D m" and p: "live R p r" and data: "length data \<le> r_cap r"
    and d: "d = (loaded p r d0)\<lparr>isfree := 0\<rparr>"
  shows "\<exists>d' db' R'. overwrite_record db d (r_key r) data = Inr (Some d', db')
    \<and> db_inv c db' R' H (V(p := data)) D (m(r_key r := Some data)) \<and> sizes db' = sizes db"
proof -
  let ?r = "r\<lparr>r_used := length data\<rparr>"
  note l = db_invD(1) [OF i]
  have Rp: "R p = Some r" "\<not> r_free r" using p by (simp_all add: live_def)
  have wf: "rec_wf r" "roomy c r" using lay_wf [OF l Rp(1)] db_invD(5) [OF i Rp(1)] by auto
  have roomy: "roomy c ?r" using wf(2) by (simp add: roomy_def)
  have wf': "rec_wf ?r" by (rule roomy_wf [OF roomy]) (use wf(1) data in \<open>auto simp: rec_wf_def\<close>)
  define g where "g = os_physpwrite (datfile db) data (int (r_datoff r))"
  have l1: "lay (db\<lparr>datfile := g\<rparr>) R H (V(p := data))" using lay_writedat [OF l Rp(1) data] by (simp add: g_def)
  define e where "e = d\<lparr>datlen_u := int (length data), datoff := int (r_datoff r)\<rparr>"
  have says: "says e (r_key r) (int (r_next r)) ?r" "idxlen e = int (r_idxlen r)"
    using wf(1) wf' Rp(2) by (auto simp: says_def e_def d rec_wf_def)
  have w0: "db_writedat_bin db d data (datoff d) SEEK_SET = (e, db\<lparr>datfile := g\<rparr>)" by (simp add: writedat_end e_def d g_def)
  have e: "idxoff e = int p" "ptrval e = int (r_next r)" by (simp_all add: e_def d)
  obtain x f where w1: "db_writeidx (db\<lparr>datfile := g\<rparr>) e (r_key r) (int p) SEEK_SET (int (r_next r)) =
      Inr (0, e\<lparr>ptrval := int (r_next r), idxbuf := x, idxoff := int p\<rparr>, db\<lparr>datfile := g\<rparr>\<lparr>idxfile := f\<rparr>)"
    and l2: "lay (db\<lparr>datfile := g\<rparr>\<lparr>idxfile := f\<rparr>) (R(p := Some ?r)) H (V(p := data))"
    using lay_writeidx [OF l1 Rp(1) wf' _ _ _ says] by auto
  let ?db = "db\<lparr>datfile := g\<rparr>\<lparr>idxfile := f\<rparr>" and ?e = "e\<lparr>ptrval := int (r_next r), idxbuf := x, idxoff := int p\<rparr>"
  have out: "overwrite_record db d (r_key r) data = Inr (Some ?e, ?db\<lparr>cnt_stor4 := cnt_stor4 ?db + 1\<rparr>)"
    by (simp only: overwrite_record_def w0 Let_def prod.case e w1 bind_r_simps)
  have lk: "linked (nat (nhash db)) (bucket db) (R(p := Some ?r)) H D"
    by (rule linked_change [OF db_invD(3) [OF i] Rp(1)]) (simp_all add: home_def)
  have fso: "fs_of (R(p := Some ?r)) = fs_of R" using Rp(1) by (auto simp: fs_of_def fun_eq_iff)
  have rep: "represents (R(p := Some ?r)) (V(p := data)) (m(r_key ?r := Some data))"
    by (rule represents_put [OF db_invD(6) [OF i]]) (use p Rp in \<open>auto simp: live_def same_but_def\<close>)
  have "db_inv c ?db (R(p := Some ?r)) H (V(p := data)) D (m(r_key r := Some data))"
    unfolding db_inv_def using l2 db_invD(2,4,5) [OF i] lk fso rep roomy bucket_same [of ?db db] by auto
  moreover have "sizes ?db = sizes db" using lay_sizes [OF l l2] by simp
  ultimately have "db_inv c (?db\<lparr>cnt_stor4 := cnt_stor4 ?db + 1\<rparr>) (R(p := Some ?r)) H (V(p := data)) D (m(r_key r := Some data))
    \<and> sizes (?db\<lparr>cnt_stor4 := cnt_stor4 ?db + 1\<rparr>) = sizes db" by (simp only: db_inv_other) (simp add: sizes_def)
  with out show ?thesis by blast
qed

text \<open>
  Both ways to store a key that is not there: into a free record or at the end; only when neither is possible is the answer
  \<open>None\<close>.
\<close>

definition stored :: "nat \<Rightarrow> hdb \<Rightarrow> (bytes \<Rightarrow> bytes option) \<Rightarrow> bytes \<Rightarrow> bytes \<Rightarrow> dbd option \<Rightarrow> hdb \<Rightarrow> bool" where
  "stored c db m k data x db' \<longleftrightarrow>
    (case x of
       None \<Rightarrow> \<not> room db k data \<and> holds_map c db' m \<and> sizes db' = sizes db
     | Some d \<Rightarrow> holds_map c db' (m(k := Some data)) \<and> grows db db' (length data))"

lemma holds_mapI: "db_inv c db R H V D m \<Longrightarrow> holds_map c db m"
  unfolding holds_map_def by blast

lemma holds_map_other [simp]:
  "holds_map c (db\<lparr>cnt_delok := n\<rparr>) m = holds_map c db m" "holds_map c (db\<lparr>cnt_delerr := n\<rparr>) m = holds_map c db m"
  "holds_map c (db\<lparr>cnt_fetchok := n\<rparr>) m = holds_map c db m" "holds_map c (db\<lparr>cnt_fetcherr := n\<rparr>) m = holds_map c db m"
  "holds_map c (db\<lparr>cnt_stor1 := n\<rparr>) m = holds_map c db m" "holds_map c (db\<lparr>cnt_stor2 := n\<rparr>) m = holds_map c db m"
  "holds_map c (db\<lparr>cnt_stor3 := n\<rparr>) m = holds_map c db m" "holds_map c (db\<lparr>cnt_stor4 := n\<rparr>) m = holds_map c db m"
  "holds_map c (db\<lparr>cnt_storerr := n\<rparr>) m = holds_map c db m"
  by (simp_all only: holds_map_def db_inv_other)

lemma sizes_other [simp]:
  "sizes (db\<lparr>cnt_delok := n\<rparr>) = sizes db" "sizes (db\<lparr>cnt_delerr := n\<rparr>) = sizes db" "sizes (db\<lparr>cnt_fetchok := n\<rparr>) = sizes db"
  "sizes (db\<lparr>cnt_fetcherr := n\<rparr>) = sizes db" "sizes (db\<lparr>cnt_stor1 := n\<rparr>) = sizes db" "sizes (db\<lparr>cnt_stor2 := n\<rparr>) = sizes db"
  "sizes (db\<lparr>cnt_stor3 := n\<rparr>) = sizes db" "sizes (db\<lparr>cnt_stor4 := n\<rparr>) = sizes db" "sizes (db\<lparr>cnt_storerr := n\<rparr>) = sizes db"
  by (simp_all add: sizes_def)

lemma grows_other [simp]:
  "grows db (db'\<lparr>cnt_stor1 := n\<rparr>) i = grows db db' i" "grows db (db'\<lparr>cnt_stor2 := n\<rparr>) i = grows db db' i"
  "grows db (db'\<lparr>cnt_stor3 := n\<rparr>) i = grows db db' i" "grows db (db'\<lparr>cnt_stor4 := n\<rparr>) i = grows db db' i"
  by (simp_all add: grows_def)

lemma insert_missing:
  assumes i: "db_inv c db R H V D m" and k: "good_key c k" "m k = None" and data: "length data \<le> 2097152"
    and d: "isfree d = 0" "chainoff d = int (9 * Suc (bucket db k))" "idxlen d = 0" "idxlen_a d = 0"
  shows "\<exists>x db'. insert_record db d k data = Inr (x, db') \<and> stored c db m k data x db'"
proof -
  let ?b = "bucket db k"
  note l = db_invD(1) [OF i] and b = db_invD(8) [OF i, of k]
  have ptr: "db_readptr db (chainoff d) = Inr (int (H (Suc ?b)))" unfolding d(2) using lay_readptr [OF l, of "Suc ?b"] b by simp
  from findfree_result [OF i, of d "int (length k)" "int (length data)"] show ?thesis
  proof (elim disjE exE conjE)
    assume ff: "db_findfree_cache db d (int (length k)) (int (length data)) = Inr (-1, d, db)"
    show ?thesis
    proof (cases "room db k data")
      case True
      have il: "idxlen d = int 0" "(0 :: nat) \<le> 4096" "idxlen_a d = int 0" "(0 :: nat) = 0 \<or> digits 0 = c \<and> (0 :: nat) \<le> 4000" using d by simp_all
      obtain d' db' R' H' D' where "append_record db d k data (int (H (Suc ?b))) = Inr (d', db')"
        "db_inv c db' R' H' (V(length (idxfile db) := data)) D' (m(k := Some data))" "grows db db' (length data)"
        using append_live [OF i k data True d(1,2) il] by blast
      then show ?thesis using ptr ff True holds_mapI by (simp add: insert_record_def enough_iff_room stored_def)
    next
      case False
      then show ?thesis using ptr ff holds_mapI [OF i] by (simp add: insert_record_def enough_iff_room stored_def)
    qed
  next
    fix xs p ys r f
    assume ff: "D 0 = xs @ p # ys" "R p = Some r" "int (length k) \<le> int (r_alen r)" "int (length data) \<le> int (r_cap r)"
      "db_findfree_cache db d (int (length k)) (int (length data)) = Inr (0, (loaded p r d)\<lparr>isfree := isfree d\<rparr>, db\<lparr>idxfile := f, free_list := map (fs_of R) (xs @ ys)\<rparr>)"
      "lay (db\<lparr>idxfile := f\<rparr>) (relink_recs R xs (r_next r)) (relink_heads H 0 xs (r_next r)) V"
    have kd: "length k \<le> r_alen r" "length data \<le> r_cap r" using ff(3,4) by simp_all
    obtain d' db' R' H' D' where "reuse_record (db\<lparr>idxfile := f, free_list := map (fs_of R) (xs @ ys)\<rparr>) ((loaded p r d)\<lparr>isfree := isfree d\<rparr>) k data
        (int (H (Suc ?b))) = Inr (d', db')" "db_inv c db' R' H' (V(p := data)) D' (m(k := Some data))" "sizes db' = sizes db"
      using reuse_live [OF i ff(1,2) k kd ff(6) d(1,2)] by blast
    then show ?thesis using ptr ff(5) holds_mapI by (simp add: insert_record_def stored_def grows_same)
  qed
qed

lemma regrow_live:
  assumes i: "db_inv c db R H V D m" and p: "live R p r" and k: "good_key c (r_key r)" and data: "length data \<le> 2097152"
    and d: "d = (loaded p r d0)\<lparr>isfree := 0\<rparr>" "chainoff d0 = int (9 * Suc (bucket db (r_key r)))"
  shows "\<exists>x db'. regrow_record db d (r_key r) data = Inr (x, db') \<and> stored c db (m(r_key r := None)) (r_key r) data x db'"
proof -
  let ?k = "r_key r" and ?m = "m(r_key r := None)"
  obtain db1 R1 H1 D1 where del: "db_delete db ?k = Inr (0, db1)" and i1: "db_inv c db1 R1 H1 V D1 ?m" and s1: "sizes db1 = sizes db"
    using delete_live [OF i p] by blast
  note l1 = db_invD(1) [OF i1] and b1 = db_invD(8) [OF i1, of ?k]
  have bk: "bucket db1 ?k = bucket db ?k" using s1 bucket_same [of db1 db] by (simp add: sizes_def)
  let ?b = "bucket db1 ?k"
  have Rp: "R p = Some r" using p by (simp add: live_def)
  have wf: "rec_wf r" "roomy c r" using lay_wf [OF db_invD(1) [OF i] Rp] db_invD(5) [OF i Rp] by auto
  have df: "isfree d = 0" "chainoff d = int (9 * Suc ?b)" "idxlen d = int (r_idxlen r)" "r_idxlen r \<le> 4096" "idxlen_a d = int (r_alen r)"
    "r_alen r = 0 \<or> digits (r_alen r) = c \<and> r_alen r \<le> 4000"
    using d bk wf by (simp_all add: rec_wf_def roomy_def)
  have km: "?m ?k = None" by simp
  have sz: "room db1 ?k data = room db ?k data" "grows db1 db' n = grows db db' n" for db' n
    using s1 layD(3,4) [OF l1] layD(3,4) [OF db_invD(1) [OF i]] by (simp_all add: sizes_def room_def grows_def)
  have ptr: "db_readptr db' (db_chain_off db' ?k) = Inr (int (H' (Suc ?b)))"
    if "lay db' R' H' V'" "nhash db' = nhash db1" for db' R' H' V'
    using lay_readptr [OF that(1), of "Suc ?b"] b1 chain_off [OF that(1), of ?k] bucket_same [OF that(2)] that(2) by simp
  from findfree_result [OF i1, of d "int (length ?k)" "int (length data)"] show ?thesis
  proof (elim disjE exE conjE)
    assume ff: "db_findfree_cache db1 d (int (length ?k)) (int (length data)) = Inr (-1, d, db1)"
    show ?thesis
    proof (cases "room db1 ?k data")
      case True
      obtain d' db' R' H' D' where "append_record db1 d ?k data (int (H1 (Suc ?b))) = Inr (d', db')"
        "db_inv c db' R' H' (V(length (idxfile db1) := data)) D' (?m(?k := Some data))" "grows db1 db' (length data)"
        using append_live [OF i1 k km data True df] by blast
      then show ?thesis using del ff ptr [OF l1 refl] True holds_mapI sz
        by (simp add: regrow_record_def enough_iff_room stored_def)
    next
      case False
      then show ?thesis using del ff ptr [OF l1 refl] holds_mapI [OF i1] sz s1
        by (simp add: regrow_record_def enough_iff_room stored_def)
    qed
  next
    fix xs q ys s f
    let ?dbx = "db1\<lparr>idxfile := f, free_list := map (fs_of R1) (xs @ ys)\<rparr>" and ?d = "(loaded q s d)\<lparr>isfree := isfree d\<rparr>"
    assume ff: "D1 0 = xs @ q # ys" "R1 q = Some s" "int (length ?k) \<le> int (r_alen s)" "int (length data) \<le> int (r_cap s)"
      "db_findfree_cache db1 d (int (length ?k)) (int (length data)) = Inr (0, ?d, ?dbx)"
      "lay (db1\<lparr>idxfile := f\<rparr>) (relink_recs R1 xs (r_next s)) (relink_heads H1 0 xs (r_next s)) V"
    have kd: "length ?k \<le> r_alen s" "length data \<le> r_cap s" using ff(3,4) by simp_all
    obtain d' db' R' H' D' where re: "reuse_record ?dbx ?d ?k data (int (H1 (Suc ?b))) = Inr (d', db')"
      "db_inv c db' R' H' (V(q := data)) D' (?m(?k := Some data))" "sizes db' = sizes db1"
      using reuse_live [OF i1 ff(1,2) k km kd ff(6) df(1,2)] by blast
    have wd: "db_writedat_bin ?dbx ?d data (datoff ?d) SEEK_SET = (?d\<lparr>datlen_u := int (length data), datoff := datoff ?d\<rparr>,
        ?dbx\<lparr>datfile := os_physpwrite (datfile ?dbx) data (datoff ?d)\<rparr>)" by (simp add: writedat_end)
    have co: "db_chain_off (?dbx\<lparr>datfile := g\<rparr>) ?k = db_chain_off (db1\<lparr>idxfile := f\<rparr>) ?k"
      "db_readptr (?dbx\<lparr>datfile := g\<rparr>) q' = db_readptr (db1\<lparr>idxfile := f\<rparr>) q'" for g q'
      by (simp_all add: db_chain_off_def db_hash_def db_readptr_def)
    have co': "db_chain_off (?dbx\<lparr>datfile := g\<rparr>) ?k = db_chain_off db1 ?k" for g by (simp add: db_chain_off_def db_hash_def)
    have pp: "db_readptr (?dbx\<lparr>datfile := g\<rparr>) (db_chain_off (?dbx\<lparr>datfile := g\<rparr>) ?k) = Inr (int (H1 (Suc ?b)))" for g
      unfolding co using ptr [OF ff(6)] by (simp add: relink_heads_def)
    have "regrow_record db d ?k data = bind_r (reuse_record ?dbx ?d ?k data (int (H1 (Suc ?b)))) (\<lambda>(d, db). Inr (Some d, db\<lparr>cnt_stor2 := cnt_stor2 db + 1\<rparr>))"
      by (simp only: regrow_record_def reuse_record_def del ff(5) wd pp Let_def prod.case bind_r_simps less_irrefl if_False bind_r_assoc
          split_def fst_conv snd_conv)
    then show ?thesis using re holds_mapI sz s1 by (simp add: stored_def grows_same)
  qed
qed

lemma represents_some: "db_inv c db R H V D m \<Longrightarrow> m k = Some v \<Longrightarrow> \<exists>p r. live R p r \<and> r_key r = k \<and> V p = v"
  using representsD(3) [OF db_invD(6)] by blast

lemma store_outcome:
  assumes h: "holds_map c db m" and k: "good_key c k" and data: "length data \<le> 2097152"
  shows "\<exists>a db'. db_store db k data flag None = Inr (a, None, db') \<and>
    (if flag = DB_INSERT \<and> m k \<noteq> None then a = 1 \<and> holds_map c db' m \<and> sizes db' = sizes db
     else if flag = DB_REPLACE \<and> m k = None then a = -1 \<and> holds_map c db' m \<and> sizes db' = sizes db
     else a = 0 \<and> holds_map c db' (m(k := Some data)) \<and> grows db db' (length data)
       \<or> a = 2 \<and> \<not> room db k data \<and> holds_map c db' (m(k := None)) \<and> sizes db' = sizes db)"
proof -
  obtain R H V D where i: "db_inv c db R H V D m" using h by (auto simp: holds_map_def)
  let ?d = "dbd_alloc\<lparr>isfree := IS_NOT_FREE_SPACE\<rparr>"
  have lim: "\<not> (int (length data) < DATLEN_MIN \<or> DATLEN_MAX < int (length data))" using data by (simp add: DATLEN_MIN_def DATLEN_MAX_def)
  show ?thesis
  proof (cases "m k")
    case None
    obtain x where f: "\<And>d. db_find db d k 0 = Inr (-1, d\<lparr>chainoff := int (9 * Suc (bucket db k)), ptroff := x\<rparr>)"
      using db_find_missing [OF i None] by metis
    let ?e = "?d\<lparr>chainoff := int (9 * Suc (bucket db k)), ptroff := x\<rparr>"
    have e: "isfree ?e = 0" "chainoff ?e = int (9 * Suc (bucket db k))" "idxlen ?e = 0" "idxlen_a ?e = 0"
      by (simp_all add: dbd_alloc_def IS_NOT_FREE_SPACE_def)
    obtain y db' where ins: "insert_record db ?e k data = Inr (y, db')" "stored c db m k data y db'"
      using insert_missing [OF i k None data e] by blast
    have nm: "m(k := None) = m" using None by auto
    show ?thesis
    proof (cases flag)
      case DB_INSERT
      then show ?thesis using ins None nm by (cases y) (auto simp: db_store_def Let_def lim f stored_def)
    next
      case DB_REPLACE
      then show ?thesis using h None by (simp add: db_store_def Let_def lim f)
    qed
  next
    case (Some v)
    obtain p r where p: "live R p r" "r_key r = k" using represents_some [OF i Some] by blast
    have k': "good_key c (r_key r)" using k p by simp
    obtain xs where f: "\<And>d. db_find db d (r_key r) 0 = Inr (0, (loaded p r (d\<lparr>chainoff := int (9 * Suc (bucket db (r_key r))),
       ptroff := pre_ptr (Suc (bucket db (r_key r))) xs\<rparr>))\<lparr>isfree := isfree d\<rparr>)"
      using db_find_found [OF i p(1)] by metis
    let ?dy = "?d\<lparr>chainoff := int (9 * Suc (bucket db (r_key r))), ptroff := pre_ptr (Suc (bucket db (r_key r))) xs\<rparr>"
    have co: "chainoff ?dy = int (9 * Suc (bucket db (r_key r)))" by simp
    define e where "e = (loaded p r ?dy)\<lparr>isfree := 0\<rparr>"
    have f': "db_find db ?d k 0 = Inr (0, e)" using f [of ?d] p(2) by (simp add: e_def IS_NOT_FREE_SPACE_def)
    have dl: "datlen e = int (r_cap r)" by (simp add: e_def)
    show ?thesis
    proof (cases flag)
      case DB_INSERT
      then show ?thesis using h Some by (simp add: db_store_def Let_def lim f')
    next
      case DB_REPLACE
      show ?thesis
      proof (cases "length data \<le> r_cap r")
        case True
        obtain d' db' R' where "overwrite_record db e k data = Inr (Some d', db')"
          "db_inv c db' R' H (V(p := data)) D (m(k := Some data))" "sizes db' = sizes db"
          using overwrite_live [OF i p(1) True e_def] p(2) by auto
        then show ?thesis using DB_REPLACE Some True holds_mapI by (simp add: db_store_def Let_def lim f' dl grows_same)
      next
        case False
        obtain y db' where re: "regrow_record db e k data = Inr (y, db')" "stored c db (m(k := None)) k data y db'"
          using regrow_live [OF i p(1) k' data e_def co] p(2) by auto
        then show ?thesis using DB_REPLACE Some False by (cases y) (auto simp: db_store_def Let_def lim f' dl stored_def)
      qed
    qed
  qed
qed

end
