(* ===== verification/HashDbProps.thy ===== *)
theory HashDbProps
  imports HashDbOps
begin

text \<open>
  What the hash database promises: runs of its operations are runs on a map from keys to data, also after the files have been
  closed and opened again.
\<close>

section \<open>Runs of the database\<close>

datatype db_op = Store bytes bytes store_flag | Fetch bytes | Delete bytes

datatype db_answer = Code int | Value "bytes option"

definition db_step :: "db_op \<Rightarrow> hdb \<Rightarrow> (db_answer \<times> hdb) result" where
  "db_step op db = (case op of
     Store k v flag \<Rightarrow> bind_r (db_store db k v flag None) (\<lambda>(a, _, db). Inr (Code a, db))
   | Fetch k \<Rightarrow> bind_r (db_fetch db k None) (\<lambda>(r, _, db). Inr (Value (case r of None \<Rightarrow> None | Some d \<Rightarrow> datbuf d), db))
   | Delete k \<Rightarrow> bind_r (db_delete db k) (\<lambda>(a, db). Inr (Code a, db)))"

fun db_run :: "db_op list \<Rightarrow> hdb \<Rightarrow> (db_answer list \<times> hdb) result" where
  "db_run [] db = Inr ([], db)"
| "db_run (op # ops) db = bind_r (db_step op db) (\<lambda>(a, db). bind_r (db_run ops db) (\<lambda>(as, db). Inr (a # as, db)))"

text \<open>The same on a map from keys to data.\<close>

fun map_step :: "db_op \<Rightarrow> (bytes \<Rightarrow> bytes option) \<Rightarrow> db_answer \<times> (bytes \<Rightarrow> bytes option)" where
  "map_step (Store k v DB_INSERT) m = (if m k = None then (Code 0, m(k := Some v)) else (Code 1, m))"
| "map_step (Store k v DB_REPLACE) m = (if m k = None then (Code (-1), m) else (Code 0, m(k := Some v)))"
| "map_step (Fetch k) m = (Value (m k), m)"
| "map_step (Delete k) m = (if m k = None then (Code (-1), m) else (Code 0, m(k := None)))"

fun map_run :: "db_op list \<Rightarrow> (bytes \<Rightarrow> bytes option) \<Rightarrow> db_answer list \<times> (bytes \<Rightarrow> bytes option)" where
  "map_run [] m = ([], m)"
| "map_run (op # ops) m = (let (a, m) = map_step op m; (as, m) = map_run ops m in (a # as, m))"

fun op_ok :: "nat \<Rightarrow> db_op \<Rightarrow> bool" where
  "op_ok c (Store k v flag) \<longleftrightarrow> good_key c k \<and> length v \<le> 2097152"
| "op_ok c (Fetch k) \<longleftrightarrow> True"
| "op_ok c (Delete k) \<longleftrightarrow> True"

fun op_bytes :: "db_op \<Rightarrow> nat" where
  "op_bytes (Store k v flag) = length v"
| "op_bytes (Fetch k) = 0"
| "op_bytes (Delete k) = 0"

definition ops_fit :: "nat \<Rightarrow> hdb \<Rightarrow> db_op list \<Rightarrow> bool" where
  "ops_fit c db ops \<longleftrightarrow> list_all (op_ok c) ops \<and> length (datfile db) + sum_list (map op_bytes ops) \<le> 2000000000
     \<and> length (idxfile db) + 4109 * length ops \<le> 999995999"

lemma fetch_outcome:
  assumes "holds_map c db m"
  shows "\<exists>r db'. db_fetch db k None = Inr (r, None, db') \<and> (case r of None \<Rightarrow> None | Some d \<Rightarrow> datbuf d) = m k \<and> holds_map c db' m \<and> sizes db' = sizes db"
proof -
  obtain R H V D where i: "db_inv c db R H V D m" using assms by (auto simp: holds_map_def)
  show ?thesis
  proof (cases "m k")
    case None
    then show ?thesis using fetch_absent [OF i None] assms by simp
  next
    case (Some v)
    obtain p r where p: "live R p r" "r_key r = k" "V p = v" using represents_some [OF i Some] by blast
    then obtain d where "db_fetch db k None = Inr (Some d, None, db\<lparr>cnt_fetchok := cnt_fetchok db + 1\<rparr>)" "datbuf d = Some v"
      using fetch_present [OF i p(1)] by auto
    then show ?thesis using Some assms by simp
  qed
qed

lemma delete_outcome:
  assumes "holds_map c db m"
  shows "\<exists>db'. db_delete db k = Inr (if m k = None then -1 else 0, db') \<and> holds_map c db' (m(k := None)) \<and> sizes db' = sizes db"
proof -
  obtain R H V D where i: "db_inv c db R H V D m" using assms by (auto simp: holds_map_def)
  show ?thesis
  proof (cases "m k")
    case None
    then have "m(k := None) = m" by auto
    then show ?thesis using delete_missing [OF i None] None assms by simp
  next
    case (Some v)
    obtain p r where p: "live R p r" "r_key r = k" using represents_some [OF i Some] by blast
    then show ?thesis using delete_live [OF i p(1)] Some holds_mapI by fastforce
  qed
qed

lemma room_enough:
  assumes "holds_map c db m" "length (datfile db) + length v \<le> 2000000000" "length (idxfile db) + 4109 \<le> 999995999" "good_key c k"
  shows "room db k v"
proof -
  obtain R H V D where i: "db_inv c db R H V D m" using assms(1) by (auto simp: holds_map_def)
  show ?thesis using layD(3,4) [OF db_invD(1) [OF i]] assms(2-) by (simp add: room_def good_key_def)
qed

lemma db_step_map:
  assumes h: "holds_map c db m" and fit: "ops_fit c db (op # ops)"
  shows "\<exists>db'. db_step op db = Inr (fst (map_step op m), db') \<and> holds_map c db' (snd (map_step op m)) \<and> ops_fit c db' ops \<and> nhash db' = nhash db"
proof (cases op)
  case (Store k v flag)
  have k: "good_key c k" "length v \<le> 2097152" using fit Store by (auto simp: ops_fit_def)
  have room: "room db k v" using fit Store by (intro room_enough [OF h _ _ k(1)]) (auto simp: ops_fit_def)
  have fits: "ops_fit c db' ops \<and> nhash db' = nhash db" if "grows db db' (length v)" for db'
    using fit that Store by (auto simp: ops_fit_def grows_def)
  have same: "ops_fit c db' ops \<and> nhash db' = nhash db" if "sizes db' = sizes db" for db' using fits grows_same [OF that] by blast
  obtain a db' where st: "db_store db k v flag None = Inr (a, None, db')"
    and out: "if flag = DB_INSERT \<and> m k \<noteq> None then a = 1 \<and> holds_map c db' m \<and> sizes db' = sizes db
     else if flag = DB_REPLACE \<and> m k = None then a = -1 \<and> holds_map c db' m \<and> sizes db' = sizes db
     else a = 0 \<and> holds_map c db' (m(k := Some v)) \<and> grows db db' (length v)"
    using store_outcome [OF h k, of flag] unfolding eqTrueI [OF room] simp_thms by blast
  have "fst (map_step op m) = Code a \<and> holds_map c db' (snd (map_step op m)) \<and> ops_fit c db' ops \<and> nhash db' = nhash db"
    using out same [of db'] fits [of db'] by (cases flag; cases "m k = None") (simp_all add: Store)
  moreover have "db_step op db = Inr (Code a, db')" by (simp add: Store db_step_def st)
  ultimately show ?thesis by (intro exI [of _ db']) simp
next
  case (Fetch k)
  obtain r db' where f: "db_fetch db k None = Inr (r, None, db')" "(case r of None \<Rightarrow> None | Some d \<Rightarrow> datbuf d) = m k" "holds_map c db' m" "sizes db' = sizes db"
    using fetch_outcome [OF h, of k] by blast
  have "ops_fit c db' ops \<and> nhash db' = nhash db" using fit f(4) Fetch by (simp add: ops_fit_def sizes_def)
  moreover have "db_step op db = Inr (Value (m k), db')" by (simp add: Fetch db_step_def f(1,2))
  ultimately show ?thesis using f(3) by (intro exI [of _ db']) (simp add: Fetch)
next
  case (Delete k)
  obtain db' where d: "db_delete db k = Inr (if m k = None then -1 else 0, db')" "holds_map c db' (m(k := None))" "sizes db' = sizes db"
    using delete_outcome [OF h, of k] by blast
  have same: "m k = None \<Longrightarrow> m(k := None) = m" by (rule ext) simp
  have "ops_fit c db' ops \<and> nhash db' = nhash db" using fit d(3) Delete by (simp add: ops_fit_def sizes_def)
  moreover have "fst (map_step op m) = Code (if m k = None then -1 else 0)" by (simp add: Delete)
  moreover have "snd (map_step op m) = m(k := None)" using same
    by (cases "m k = None") (simp_all only: Delete map_step.simps if_True if_False simp_thms snd_conv)
  moreover have "db_step op db = Inr (Code (if m k = None then -1 else 0), db')" by (simp only: Delete db_step_def db_op.case d(1) bind_r_simps prod.case)
  ultimately show ?thesis using d(2) by (intro exI [of _ db']) (simp only: simp_thms)
qed

lemma ops_fit_append: "ops_fit c db (ops @ ops') \<Longrightarrow> ops_fit c db ops"
  by (simp add: ops_fit_def)

lemma db_run_map:
  "holds_map c db m \<Longrightarrow> ops_fit c db (ops @ ops') \<Longrightarrow> \<exists>db'. db_run ops db = Inr (fst (map_run ops m), db')
    \<and> holds_map c db' (snd (map_run ops m)) \<and> ops_fit c db' ops' \<and> nhash db' = nhash db"
proof (induction ops arbitrary: db m)
  case (Cons op ops)
  obtain db1 where 1: "db_step op db = Inr (fst (map_step op m), db1)" "holds_map c db1 (snd (map_step op m))" "ops_fit c db1 (ops @ ops')"
    "nhash db1 = nhash db"
    using db_step_map [OF Cons.prems(1), of op "ops @ ops'"] Cons.prems(2) by auto
  obtain db2 where "db_run ops db1 = Inr (fst (map_run ops (snd (map_step op m))), db2)" "holds_map c db2 (snd (map_run ops (snd (map_step op m))))"
    "ops_fit c db2 ops'" "nhash db2 = nhash db1"
    using Cons.IH [OF 1(2,3)] by blast
  then show ?case using 1(1,4) by (simp add: split_def Let_def)
qed simp

section \<open>Opening\<close>

lemma retrieve_chain:
  assumes l: "lay db R H V" and c: "chain R q qs" and n: "length qs < n" and f: "idxfile db0 = idxfile db"
  shows "retrieve_loop n db0 d (int q) = Inr (map (fs_of R) qs)"
  using c n
proof (induction qs arbitrary: n q d)
  case Nil
  then show ?case by (cases n) auto
next
  case (Cons a qs)
  then obtain s where s: "q = a" "a \<noteq> 0" "R a = Some s" "chain R (r_next s) qs" by auto
  obtain n' where n': "n = Suc n'" "length qs < n'" using Cons.prems(2) by (cases n) auto
  have "db_readidx db0 d (int a) = db_readidx db d (int a)" for d by (simp only: db_readidx_def f)
  then show ?case using Cons.IH [OF s(4) n'(2), of "loaded a s d"] lay_readidx [OF l s(3), of d] s n' by (simp add: fs_of_def)
qed

lemma setup_holds:
  assumes h: "holds_map c db m"
  shows "\<exists>db'. db_setup (nhash db) (idxfile db) (datfile db) = Inr db' \<and> holds_map c db' m \<and> sizes db' = sizes db"
proof -
  obtain R H V D where i: "db_inv c db R H V D m" using h by (auto simp: holds_map_def)
  note l = db_invD(1) [OF i]
  let ?dbx = "\<lparr>idxfile = idxfile db, datfile = datfile db, hashoff = HASH_OFF, nhash = nhash db, cnt_delok = 0, cnt_delerr = 0, cnt_fetchok = 0,
       cnt_fetcherr = 0, cnt_nextrec = 0, cnt_stor1 = 0, cnt_stor2 = 0, cnt_stor3 = 0, cnt_stor4 = 0, cnt_storerr = 0,
       idx_len = 0, dat_len = 0, free_list = []\<rparr>"
  let ?db = "?dbx\<lparr>dat_len := int (length (datfile db)), idx_len := int (length (idxfile db)), free_list := map (fs_of R) (D 0)\<rparr>"
  have ch: "chain R (H 0) (D 0)" using linkedD(1) [OF db_invD(3) [OF i], of 0] by simp
  have "db_readptr ?dbx FREE_OFF = Inr (int (H 0))" using lay_readptr [OF l, of 0] by (simp add: FREE_OFF_def db_readptr_def)
  moreover have "retrieve_loop (Suc (length (idxfile db))) ?dbx dbd_alloc (int (H 0)) = Inr (map (fs_of R) (D 0))"
    by (rule retrieve_chain [OF l ch chain_short [OF l ch]]) simp
  ultimately have "db_retrieve_free_space ?dbx = Inr (map (fs_of R) (D 0))" by (simp add: db_retrieve_free_space_def)
  then have "db_setup (nhash db) (idxfile db) (datfile db) = Inr ?db" by (simp add: db_setup_def Let_def)
  moreover have "lay ?db R H V" using l by (simp add: lay_def head_at_def entry_at_def first_rec_def HASH_OFF_def)
  then have "db_inv c ?db R H V D m" using i bucket_same [of ?db db] unfolding db_inv_def by simp
  moreover have "sizes ?db = sizes db" by (simp add: sizes_def)
  ultimately show ?thesis using holds_mapI by blast
qed

lemma empty_holds:
  assumes n: "0 < n" "n < 2 ^ 31"
  shows "\<exists>db. db_setup n (db_template (nat n)) [] = Inr db \<and> holds_map c db (\<lambda>_. None) \<and> sizes db = (n, 9 * (nat n + 1) + 1, 0)"
proof -
  let ?dbx = "\<lparr>idxfile = db_template (nat n), datfile = [], hashoff = HASH_OFF, nhash = n, cnt_delok = 0, cnt_delerr = 0, cnt_fetchok = 0,
       cnt_fetcherr = 0, cnt_nextrec = 0, cnt_stor1 = 0, cnt_stor2 = 0, cnt_stor3 = 0, cnt_stor4 = 0, cnt_storerr = 0,
       idx_len = 0, dat_len = 0, free_list = []\<rparr>"
  let ?db = "?dbx\<lparr>dat_len := 0, idx_len := int (length (db_template (nat n))), free_list := []\<rparr>"
  have heads: "holds (db_template (nat n)) (9 * j) (pad_left 9 (dec_nat 0))" if "j \<le> nat n" for j using template_heads [OF that] .
  have l: "lay ?db (\<lambda>_. None) (\<lambda>_. 0) (\<lambda>_. [])"
    using n heads by (simp add: lay_def head_at_def first_rec_def HASH_OFF_def length_template separate_def)
  have "db_readptr ?dbx FREE_OFF = Inr 0" using lay_readptr [OF l, of 0] by (simp add: FREE_OFF_def db_readptr_def)
  then have "db_retrieve_free_space ?dbx = Inr []" by (simp add: db_retrieve_free_space_def)
  then have "db_setup n (db_template (nat n)) [] = Inr ?db" by (simp add: db_setup_def Let_def)
  moreover have "db_inv c ?db (\<lambda>_. None) (\<lambda>_. 0) (\<lambda>_. []) (\<lambda>_. []) (\<lambda>_. None)"
    using l n by (simp add: db_inv_def linked_def represents_def live_def)
  moreover have "sizes ?db = (n, 9 * (nat n + 1) + 1, 0)" by (simp add: sizes_def length_template)
  ultimately show ?thesis using holds_mapI by blast
qed

section \<open>The properties\<close>

text \<open>
  C32. A new database answers every sequence of stores, fetches and deletions as the map from keys to data does, as long as there is room:
  keys without NUL and of at most 4000 bytes whose length is printed with the same number of digits, data of at most 2 MB each and 2 GB
  together, and 4109 bytes of the index file for every operation.
\<close>

theorem database_is_a_map:
  assumes n: "0 < n" "n < 2 ^ 31"
    and ops: "list_all (op_ok c) ops" "sum_list (map op_bytes ops) \<le> 2000000000" "9 * (nat n + 1) + 1 + 4109 * length ops \<le> 999995999"
  shows "\<exists>db db'. db_setup n (db_template (nat n)) [] = Inr db \<and> db_run ops db = Inr (fst (map_run ops (\<lambda>_. None)), db')"
proof -
  obtain db where db: "db_setup n (db_template (nat n)) [] = Inr db" "holds_map c db (\<lambda>_. None)" "sizes db = (n, 9 * (nat n + 1) + 1, 0)"
    using empty_holds [OF n] by blast
  have "ops_fit c db (ops @ [])" using ops db(3) by (simp add: ops_fit_def sizes_def)
  then show ?thesis using db_run_map [OF db(2)] db(1) by blast
qed

text \<open>
  C33. A database that is closed and opened again goes on as the same map: the records, the chains and the list of free records are read
  back from the files.
\<close>

theorem reopened_database:
  assumes n: "0 < n" "n < 2 ^ 31"
    and ops: "list_all (op_ok c) (ops @ ops')" "sum_list (map op_bytes (ops @ ops')) \<le> 2000000000"
      "9 * (nat n + 1) + 1 + 4109 * length (ops @ ops') \<le> 999995999"
  shows "\<exists>db db1 db2 db3. db_setup n (db_template (nat n)) [] = Inr db \<and> db_run ops db = Inr (fst (map_run ops (\<lambda>_. None)), db1)
    \<and> db_setup n (idxfile db1) (datfile db1) = Inr db2
    \<and> db_run ops' db2 = Inr (fst (map_run ops' (snd (map_run ops (\<lambda>_. None)))), db3)"
proof -
  obtain db where db: "db_setup n (db_template (nat n)) [] = Inr db" "holds_map c db (\<lambda>_. None)" "sizes db = (n, 9 * (nat n + 1) + 1, 0)"
    using empty_holds [OF n] by blast
  have "ops_fit c db (ops @ ops')" using ops db(3) by (simp add: ops_fit_def sizes_def)
  then obtain db1 where db1: "db_run ops db = Inr (fst (map_run ops (\<lambda>_. None)), db1)" "holds_map c db1 (snd (map_run ops (\<lambda>_. None)))"
    "ops_fit c db1 ops'" "nhash db1 = nhash db"
    using db_run_map [OF db(2)] by blast
  obtain db2 where db2: "db_setup (nhash db1) (idxfile db1) (datfile db1) = Inr db2" "holds_map c db2 (snd (map_run ops (\<lambda>_. None)))"
    "sizes db2 = sizes db1"
    using setup_holds [OF db1(2)] by blast
  have fit: "ops_fit c db2 (ops' @ [])" using db1(3) db2(3) by (simp add: ops_fit_def sizes_def)
  have "nhash db1 = n" using db1(4) db(3) by (simp add: sizes_def)
  then show ?thesis using db_run_map [OF db2(2) fit] db(1) db1(1) db2(1) by blast
qed

text \<open>
  C34. Replacing the data of a key either stores the new data, or, only when there is no room for it, answers 2: then the old data are gone
  as well, the key is no longer in the database.
\<close>

theorem replacement_stores_or_removes:
  assumes "holds_map c db m" "good_key c k" "length data \<le> 2097152" "m k \<noteq> None"
  shows "\<exists>a db' r p db''. db_store db k data DB_REPLACE None = Inr (a, None, db') \<and> db_fetch db' k None = Inr (r, p, db'')
    \<and> (a = 0 \<and> map_option datbuf r = Some (Some data) \<or> a = 2 \<and> \<not> room db k data \<and> r = None)"
proof -
  obtain a db' where st: "db_store db k data DB_REPLACE None = Inr (a, None, db')"
    "a = 0 \<and> holds_map c db' (m(k := Some data)) \<or> a = 2 \<and> \<not> room db k data \<and> holds_map c db' (m(k := None))"
    using store_outcome [OF assms(1-3), of DB_REPLACE] assms(4) by auto
  from st(2) show ?thesis
  proof (elim disjE conjE)
    assume a: "a = 0" "holds_map c db' (m(k := Some data))"
    obtain r db'' where f: "db_fetch db' k None = Inr (r, None, db'')" "(case r of None \<Rightarrow> None | Some d \<Rightarrow> datbuf d) = Some data"
      using fetch_outcome [OF a(2), of k] by auto
    then show ?thesis using st(1) a(1) by (cases r) auto
  next
    assume a: "a = 2" "\<not> room db k data" "holds_map c db' (m(k := None))"
    obtain R H V D where "db_inv c db' R H V D (m(k := None))" using a(3) by (auto simp: holds_map_def)
    then have "db_fetch db' k None = Inr (None, None, db'\<lparr>cnt_fetcherr := cnt_fetcherr db' + 1\<rparr>)" by (rule fetch_absent) simp
    then show ?thesis using st(1) a(1,2) by blast
  qed
qed

text \<open>A run with keys of two bytes on a table of three chains.\<close>

definition demo_ops :: "db_op list" where
  "demo_ops = [Store [97, 58] [1, 2] DB_INSERT, Store [98, 98] [3] DB_INSERT, Store [97, 58] [4, 5, 6] DB_REPLACE, Delete [98, 98], Fetch [97, 58]]"

lemma demo_ops_ok: "list_all (op_ok 1) demo_ops" "sum_list (map op_bytes demo_ops) = 6" "length demo_ops = 5"
  by (simp_all add: demo_ops_def good_key_def digits_def dec_nat.simps [of "Suc (Suc 0)"])

theorem database_is_a_map_witness:
  "\<exists>db db'. db_setup 3 (db_template 3) [] = Inr db \<and> db_run demo_ops db = Inr ([Code 0, Code 0, Code 0, Code 0, Value (Some [4, 5, 6])], db')"
proof -
  have "fst (map_run demo_ops (\<lambda>_. None)) = [Code 0, Code 0, Code 0, Code 0, Value (Some [4, 5, 6])]" by (simp add: demo_ops_def)
  then show ?thesis using database_is_a_map [of 3 1 demo_ops] by (simp add: demo_ops_ok [unfolded One_nat_def])
qed

theorem reopened_database_witness:
  "\<exists>db db1 db2 db3. db_setup 3 (db_template 3) [] = Inr db \<and> db_run demo_ops db = Inr ([Code 0, Code 0, Code 0, Code 0, Value (Some [4, 5, 6])], db1)
    \<and> db_setup 3 (idxfile db1) (datfile db1) = Inr db2 \<and> db_run [Fetch [98, 98], Fetch [97, 58]] db2 = Inr ([Value None, Value (Some [4, 5, 6])], db3)"
proof -
  have "fst (map_run demo_ops (\<lambda>_. None)) = [Code 0, Code 0, Code 0, Code 0, Value (Some [4, 5, 6])]"
    "fst (map_run [Fetch [98, 98], Fetch [97, 58]] (snd (map_run demo_ops (\<lambda>_. None)))) = [Value None, Value (Some [4, 5, 6])]"
    by (simp_all add: demo_ops_def)
  then show ?thesis using reopened_database [of 3 1 demo_ops "[Fetch [98, 98], Fetch [97, 58]]"] by (simp add: demo_ops_ok [unfolded One_nat_def])
qed

theorem replacement_stores_or_removes_witness:
  "\<exists>db a db' r p db''. holds_map 1 db [[97, 58] \<mapsto> [1, 2]] \<and> db_store db [97, 58] [4, 5, 6] DB_REPLACE None = Inr (a, None, db')
    \<and> db_fetch db' [97, 58] None = Inr (r, p, db'')
    \<and> (a = 0 \<and> map_option datbuf r = Some (Some [4, 5, 6]) \<or> a = 2 \<and> \<not> room db [97, 58] [4, 5, 6] \<and> r = None)"
proof -
  obtain db0 where db0: "holds_map 1 db0 (\<lambda>_. None)" "sizes db0 = (3, 37, 0)" using empty_holds [of 3 1] by auto
  have k: "good_key 1 [97, 58]" by (simp add: good_key_def digits_def dec_nat.simps [of "Suc (Suc 0)"])
  have len: "length (datfile db0) + length [1 :: u8, 2] \<le> 2000000000" "length (idxfile db0) + 4109 \<le> 999995999" "length [1 :: u8, 2] \<le> 2097152"
    "length [4 :: u8, 5, 6] \<le> 2097152"
    using db0(2) by (simp_all add: sizes_def)
  have room: "room db0 [97, 58] [1, 2]" by (rule room_enough [OF db0(1) len(1,2) k])
  obtain db where db: "holds_map 1 db [[97, 58] \<mapsto> [1, 2]]"
    using store_outcome [OF db0(1) k len(3), of DB_INSERT] room by (simp only: simp_thms if_True if_False store_flag.distinct option.distinct) blast
  have "[[97, 58] \<mapsto> [1 :: u8, 2]] [97, 58] \<noteq> None" by simp
  from db replacement_stores_or_removes [OF db k len(4) this] show ?thesis by blast
qed

end
