(* ===== verification/NumText.thy ===== *)
theory NumText
  imports Prelude "HOL-Library.Signed_Division"
begin

text \<open>
  Numbers as text (\<open>tools/util.cpp\<close>): \<open>int2str\<close>, its decimal version \<open>int10_to_str\<close>, and \<open>str2int\<close>. A
  \<open>long\<close> is an \<open>int\<close> kept in its range by \<open>to_long\<close>.
\<close>

section \<open>Operations\<close>

definition dig_vec_upper :: bytes where
  "dig_vec_upper = bytes_of ''0123456789ABCDEFGHIJKLMNOPQRSTUVWXYZ''"

definition dig_vec_lower :: bytes where
  "dig_vec_lower = bytes_of ''0123456789abcdefghijklmnopqrstuvwxyz''"

text \<open>
  The digit loop of \<open>int2str\<close>. The third argument is \<open>val\<close>, no longer negative here; the last one is
  the part of \<open>buffer\<close> from \<open>p\<close> to its end.
\<close>

function int2str_loop :: "bytes \<Rightarrow> nat \<Rightarrow> nat \<Rightarrow> bytes \<Rightarrow> bytes result" where
  "int2str_loop dig_vec radix val buffer =
    (if val = 0 then Inr buffer
     else if 65 \<le> length buffer then Inl BufferOverflow
     else let new_val = val div radix
          in int2str_loop dig_vec radix new_val (dig_vec ! (val - new_val * radix) # buffer))"
  by pat_completeness auto
termination
  by (relation "measure (\<lambda>(_, _, _, buffer). 65 - length buffer)") auto

declare int2str_loop.simps [simp del]

text \<open>\<open>None\<close> is \<open>NullS\<close>; otherwise the text left at \<open>dst\<close>, whose end is the pointer returned.\<close>

definition int2str :: "int \<Rightarrow> int \<Rightarrow> bool \<Rightarrow> bytes option result" where
  "int2str val radix upcase =
    (let dig_vec = (if upcase then dig_vec_upper else dig_vec_lower)
     in if radix < 0 \<and> (radix < -36 \<or> radix > -2) then Inr None
        else if \<not> radix < 0 \<and> (radix > 36 \<or> radix < 2) then Inr None
        else let neg = (radix < 0 \<and> val < 0);
                 uval = nat ((if neg then to_long (- val) else val) mod 2 ^ 64);
                 r = nat (if radix < 0 then - radix else radix);
                 new_val = uval div r
             in bind_r (int2str_loop dig_vec r new_val [dig_vec ! (uval - new_val * r), 0]) (\<lambda>p.
                  Inr (Some ((if neg then [45] else []) @ c_str p))))"

text \<open>\<open>int10_to_str\<close>: \<open>'0' + (char) d\<close> in place of the digit vector.\<close>

function int10_loop :: "nat \<Rightarrow> bytes \<Rightarrow> bytes result" where
  "int10_loop val buffer =
    (if val = 0 then Inr buffer
     else if 65 \<le> length buffer then Inl BufferOverflow
     else let new_val = val div 10 in int10_loop new_val ((48 + of_nat (val - new_val * 10)) # buffer))"
  by pat_completeness auto
termination
  by (relation "measure (\<lambda>(_, buffer). 65 - length buffer)") auto

declare int10_loop.simps [simp del]

definition int10_to_str :: "int \<Rightarrow> int \<Rightarrow> bytes result" where
  "int10_to_str val radix =
    (let neg = (radix < 0 \<and> val < 0);
         uval = nat ((if neg then to_long (- val) else val) mod 2 ^ 64);
         new_val = uval div 10
     in bind_r (int10_loop new_val [48 + of_nat (uval - new_val * 10), 0]) (\<lambda>p.
          Inr ((if neg then [45] else []) @ c_str p)))"

definition char_val :: "u8 \<Rightarrow> int" where
  "char_val X =
    (if 48 \<le> X \<and> X \<le> 57 then uint X - 48
     else if 65 \<le> X \<and> X \<le> 90 then uint X - 65 + 10
     else if 97 \<le> X \<and> X \<le> 122 then uint X - 97 + 10
     else 127)"

text \<open>The digits from \<open>n\<close> on, and what is behind them.\<close>

fun digit_loop :: "int \<Rightarrow> nat \<Rightarrow> bytes \<Rightarrow> int list \<times> bytes" where
  "digit_loop radix n [] = ([], [])"
| "digit_loop radix n (c # src) =
    (if char_val c < radix \<and> n < 20
     then let (ds, rest) = digit_loop radix (Suc n) src in (char_val c # ds, rest)
     else ([], c # src))"

text \<open>The conversion, from the last digit to the first; \<open>None\<close> is the error exit.\<close>

fun conv_loop :: "int \<Rightarrow> int list \<Rightarrow> int \<Rightarrow> int \<Rightarrow> int \<Rightarrow> int option" where
  "conv_loop radix [] limit sofar scale = Some sofar"
| "conv_loop radix [d] limit sofar scale =
    (if - d < limit then None else Some (to_long (sofar + to_long (d * scale))))"
| "conv_loop radix (d # ds) limit sofar scale =
    (if - d < limit then None
     else conv_loop radix ds ((limit + d) sdiv radix) (to_long (sofar + to_long (d * scale))) (to_long (scale * radix)))"

text \<open>The limit: neither bound is farther from zero.\<close>

definition initial_limit :: "int \<Rightarrow> int \<Rightarrow> int" where
  "initial_limit lower upper =
    (let limit = (if lower > 0 then - lower else lower);
         scale = (if upper > 0 then - upper else upper)
     in if scale < limit then scale else limit)"

datatype errno = E_OK | EDOM | ERANGE

text \<open>The pointer returned (\<open>None\<close> for \<open>NullS\<close>), \<open>*val\<close> and \<open>errno\<close>.\<close>

definition str2int :: "bytes \<Rightarrow> int \<Rightarrow> int \<Rightarrow> int \<Rightarrow> bytes option \<times> int \<times> errno" where
  "str2int src radix lower upper =
    (if radix < 2 \<or> radix > 36 then (None, 0, EDOM)
     else let limit = initial_limit lower upper;
              src = dropWhile is_space src;
              (sign, src) = (case src of c # cs \<Rightarrow> if c = 43 then (-1, cs) else if c = 45 then (1, cs) else (-1, src)
                                       | [] \<Rightarrow> (-1 :: int, src));
              start = src;
              src = dropWhile (\<lambda>c. c = 48) src;
              (digits, src) = digit_loop radix 0 src
          in if length start = length src then (None, 0, EDOM)
             else case conv_loop radix (rev digits) limit 0 (-1) of
               None \<Rightarrow> (None, 0, ERANGE)
             | Some sofar \<Rightarrow>
                 if sign < 0
                 then if sofar < - (2 ^ 63 - 1) \<or> to_long (- sofar) > upper then (None, 0, ERANGE)
                      else (Some src, to_long (- sofar), E_OK)
                 else if sofar < lower then (None, 0, ERANGE)
                 else (Some src, sofar, E_OK))"

section \<open>Printing\<close>

text \<open>The digits of a number, most significant first.\<close>

function radix_digits :: "nat \<Rightarrow> nat \<Rightarrow> nat list" where
  "radix_digits r n = (if n < r \<or> r < 2 then [n] else radix_digits r (n div r) @ [n mod r])"
  by pat_completeness auto
termination
  by (relation "measure snd") auto

declare radix_digits.simps [simp del]

lemma radix_digits_small: "n < r \<Longrightarrow> radix_digits r n = [n]"
  by (subst radix_digits.simps) simp

lemma radix_digits_big: "2 \<le> r \<Longrightarrow> r \<le> n \<Longrightarrow> radix_digits r n = radix_digits r (n div r) @ [n mod r]"
  by (subst radix_digits.simps) simp

lemma radix_digits_ne: "radix_digits r n \<noteq> []"
  by (subst radix_digits.simps) simp

lemma radix_digits_less: "2 \<le> r \<Longrightarrow> d \<in> set (radix_digits r n) \<Longrightarrow> d < r"
proof (induction r n rule: radix_digits.induct)
  case (1 r n)
  then show ?case by (cases "n < r") (auto simp: radix_digits_small radix_digits_big)
qed

lemma radix_digits_length: "2 \<le> r \<Longrightarrow> n < r ^ Suc k \<Longrightarrow> length (radix_digits r n) \<le> Suc k"
proof (induction k arbitrary: n)
  case 0
  then show ?case by (simp add: radix_digits_small)
next
  case (Suc k)
  then have "n div r < r ^ Suc k" by (simp add: less_mult_imp_div_less mult.commute)
  with Suc show ?case by (cases "n < r") (auto simp: radix_digits_small radix_digits_big)
qed

lemma int2str_loop_digits:
  "2 \<le> r \<Longrightarrow> 0 < val \<Longrightarrow> length buffer + length (radix_digits r val) \<le> 65 \<Longrightarrow>
    int2str_loop dv r val buffer = Inr (map ((!) dv) (radix_digits r val) @ buffer)"
proof (induction dv r val buffer rule: int2str_loop.induct)
  case (1 dv r val buffer)
  have e: "val - val div r * r = val mod r" by (simp add: modulo_nat_def mult.commute)
  have room: "length buffer < 65"
    using 1(4) radix_digits_ne [of r val] by (cases "radix_digits r val") auto
  show ?case
  proof (cases "val < r")
    case True
    then show ?thesis
      using 1(3) room by (simp add: int2str_loop.simps [of _ _ val] int2str_loop.simps [of _ _ 0] radix_digits_small)
  next
    case False
    then have "r \<le> val" "0 < r" using 1(2) by auto
    then have "0 < val div r" by (simp add: div_greater_zero_iff)
    with False 1 room show ?thesis
      by (simp add: int2str_loop.simps [of _ _ val] radix_digits_big e)
  qed
qed

lemma dig_vec_simps:
  "length dig_vec_upper = 36" "length dig_vec_lower = 36" "0 \<notin> set dig_vec_upper" "0 \<notin> set dig_vec_lower"
  by (simp_all add: dig_vec_upper_def dig_vec_lower_def bytes_of_def)

definition dig_vec :: "bool \<Rightarrow> bytes" where
  "dig_vec upcase = (if upcase then dig_vec_upper else dig_vec_lower)"

lemma dig_vec_nz: "d < 36 \<Longrightarrow> dig_vec upcase ! d \<noteq> 0"
  using dig_vec_simps nth_mem by (metis dig_vec_def)

lemma int2str_buffer:
  assumes "2 \<le> r" "r \<le> 36" "u < 2 ^ 64"
  shows "int2str_loop (dig_vec up) r (u div r) [dig_vec up ! (u - u div r * r), 0] = Inr (map ((!) (dig_vec up)) (radix_digits r u) @ [0])"
    and "c_str (map ((!) (dig_vec up)) (radix_digits r u) @ [0]) = map ((!) (dig_vec up)) (radix_digits r u)"
proof -
  have e: "u - u div r * r = u mod r" by (simp add: modulo_nat_def mult.commute)
  have "(2 :: nat) ^ 64 \<le> r ^ Suc 63" using power_mono [of 2 r "Suc 63"] assms(1) by simp
  then have len: "length (radix_digits r u) \<le> 64" using radix_digits_length [of r u 63] assms by simp
  show "int2str_loop (dig_vec up) r (u div r) [dig_vec up ! (u - u div r * r), 0] = Inr (map ((!) (dig_vec up)) (radix_digits r u) @ [0])"
  proof (cases "u < r")
    case True
    then show ?thesis by (simp add: radix_digits_small int2str_loop.simps [of _ _ 0])
  next
    case False
    then have "0 < u div r" and d: "radix_digits r u = radix_digits r (u div r) @ [u mod r]"
      using assms(1) by (simp_all add: div_greater_zero_iff radix_digits_big)
    then show ?thesis using len assms(1) by (simp add: e int2str_loop_digits)
  qed
  have "dig_vec up ! d \<noteq> 0" if "d \<in> set (radix_digits r u)" for d
    using radix_digits_less [OF assms(1) that] assms(2) by (intro dig_vec_nz) simp
  then have "\<forall>c\<in>set (map ((!) (dig_vec up)) (radix_digits r u)). c \<noteq> 0" by auto
  then show "c_str (map ((!) (dig_vec up)) (radix_digits r u) @ [0]) = map ((!) (dig_vec up)) (radix_digits r u)"
    by (simp add: c_str_def takeWhile_append)
qed

lemma magnitude:
  assumes "- (2 ^ 63) \<le> val" "val < 2 ^ 63"
  shows "nat ((if neg \<and> val < 0 then to_long (- val) else val) mod 2 ^ 64) = nat (if neg then \<bar>val\<bar> else val mod 2 ^ 64)"
proof (cases "neg \<and> val < 0")
  case True
  have "to_long (- val) mod 2 ^ 64 = (- val) mod 2 ^ 64" by (rule to_long_mod)
  also have "\<dots> = - val" using True assms by (intro mod_pos_pos_trivial) auto
  finally show ?thesis using True by simp
next
  case False
  then show ?thesis using assms by auto
qed

lemma int2str_value:
  assumes "2 \<le> \<bar>radix\<bar>" "\<bar>radix\<bar> \<le> 36" "- (2 ^ 63) \<le> val" "val < 2 ^ 63"
  shows "int2str val radix upcase =
    Inr (Some ((if radix < 0 \<and> val < 0 then [45] else []) @
      map ((!) (if upcase then dig_vec_upper else dig_vec_lower))
        (radix_digits (nat \<bar>radix\<bar>) (nat (if radix < 0 then \<bar>val\<bar> else val mod 2 ^ 64)))))"
proof -
  have r: "2 \<le> nat \<bar>radix\<bar>" "nat \<bar>radix\<bar> \<le> 36" "nat (if radix < 0 then - radix else radix) = nat \<bar>radix\<bar>"
    using assms(1,2) by auto
  have ok: "\<not> (radix < 0 \<and> (radix < -36 \<or> radix > -2))" "\<not> (\<not> radix < 0 \<and> (radix > 36 \<or> radix < 2))"
    using assms(1,2) by auto
  define u where "u = nat (if radix < 0 then \<bar>val\<bar> else val mod 2 ^ 64)"
  have "u < 2 ^ 64" using assms(3,4) by (auto simp: u_def)
  note b = int2str_buffer [OF r(1,2) this, of upcase]
  show ?thesis
    unfolding int2str_def Let_def magnitude [OF assms(3,4)] u_def [symmetric] r(3) dig_vec_def [symmetric]
    using ok b by simp
qed

text \<open>
  For every radix of 2 to 36, as written or negated, \<open>int2str\<close> gives the digits of the value, most
  significant first and without leading zeros: the signed value for a negated radix, also for \<open>LONG_MIN\<close>,
  and the value as an \<open>unsigned long\<close> otherwise. The 65 bytes of its buffer are enough for all of them.
\<close>

theorem int2str_gives_digits:
  assumes "2 \<le> \<bar>radix\<bar>" "\<bar>radix\<bar> \<le> 36" "- (2 ^ 63) \<le> val" "val < 2 ^ 63"
  shows "int2str val radix upcase =
    Inr (Some ((if radix < 0 \<and> val < 0 then [45] else []) @
      map ((!) (if upcase then dig_vec_upper else dig_vec_lower))
        (radix_digits (nat \<bar>radix\<bar>) (nat (if radix < 0 then \<bar>val\<bar> else val mod 2 ^ 64)))))"
  using assms by (rule int2str_value)

theorem int2str_gives_digits_witness:
  "int2str (-255) (-16) True = Inr (Some [45, 70, 70])"
  using int2str_gives_digits [of "-16" "-255" True]
  by (simp add: radix_digits_small radix_digits_big dig_vec_upper_def bytes_of_def)

lemma dig_vec_decimal: "d < 10 \<Longrightarrow> dig_vec upcase ! d = 48 + of_nat d"
proof -
  assume "d < 10"
  then have "d \<in> {0, 1, 2, 3, 4, 5, 6, 7, 8, 9}" by auto
  then show ?thesis by (auto simp: dig_vec_def dig_vec_upper_def dig_vec_lower_def bytes_of_def)
qed

lemma int10_loop_eq: "int10_loop val buffer = int2str_loop (dig_vec upcase) 10 val buffer"
proof (induction val buffer rule: int10_loop.induct)
  case (1 val buffer)
  have "val - val div 10 * 10 < 10" by (simp add: modulo_nat_def [symmetric])
  then show ?case
    using 1 by (subst int10_loop.simps, subst int2str_loop.simps) (simp add: Let_def dig_vec_decimal)
qed

text \<open>
  \<open>int10_to_str\<close> is \<open>int2str\<close> specialised to base 10: for every value and either sign of the radix it
  leaves the same text, in upper or lower case, and returns the same end.
\<close>

theorem int10_to_str_equals_int2str:
  "bind_r (int10_to_str val radix) (\<lambda>s. Inr (Some s)) = int2str val (if radix < 0 then -10 else 10) upcase"
proof -
  have d: "u - u div 10 * 10 < 10" for u :: nat by (simp add: modulo_nat_def [symmetric])
  show ?thesis
    unfolding int10_to_str_def int2str_def Let_def int10_loop_eq [of _ _ upcase] dig_vec_def [symmetric]
    using dig_vec_decimal [OF d] by (simp add: bind_r_assoc)
qed

section \<open>Reading\<close>

definition digits_value :: "int \<Rightarrow> int list \<Rightarrow> int" where
  "digits_value r ds = foldl (\<lambda>v d. r * v + d) 0 ds"

lemma digits_value_snoc: "digits_value r (ds @ [d]) = r * digits_value r ds + d"
  by (simp add: digits_value_def)

lemma digits_value_nonneg: "0 \<le> r \<Longrightarrow> \<forall>d\<in>set ds. 0 \<le> d \<Longrightarrow> 0 \<le> digits_value r ds"
  by (induction ds rule: rev_induct) (auto simp: digits_value_snoc digits_value_def)

lemma le_div_iff:
  assumes "0 < r" shows "v \<le> a div r \<longleftrightarrow> r * v \<le> (a :: int)"
proof
  assume "v \<le> a div r"
  then have "r * v \<le> r * (a div r)" using assms by simp
  also have "\<dots> \<le> a" using mult_div_mod_eq [of r a] pos_mod_sign [OF assms, of a] by linarith
  finally show "r * v \<le> a" .
next
  assume "r * v \<le> a"
  then have "r * v div r \<le> a div r" using assms by (intro zdiv_mono1)
  then show "v \<le> a div r" using assms by simp
qed

text \<open>The limit moves with the number: a digit is taken from both.\<close>

lemma limit_step:
  assumes "2 \<le> r" "0 \<le> d" "d \<le> - limit"
  shows "(limit + d) sdiv r \<le> 0" "v \<le> - ((limit + d) sdiv r) \<longleftrightarrow> r * v + d \<le> (- limit :: int)"
proof -
  have e: "(limit + d) sdiv r = - ((- limit - d) div r)"
    using assms by (cases "limit + d = 0") (auto simp: signed_divide_int_def sgn_if)
  have "0 \<le> (- limit - d) div r" using assms by (simp add: pos_imp_zdiv_nonneg_iff)
  then show "(limit + d) sdiv r \<le> 0" unfolding e by simp
  show "v \<le> - ((limit + d) sdiv r) \<longleftrightarrow> r * v + d \<le> - limit"
    unfolding e using assms(1) by (auto simp: le_div_iff)
qed

lemma to_long_step: "to_long (to_long s + to_long (d * to_long c)) = to_long (s + d * c)"
proof (rule to_long_cong)
  have "d * to_long c mod 2 ^ 64 = d * c mod 2 ^ 64" by (metis mod_mult_right_eq to_long_mod)
  then show "(to_long s + to_long (d * to_long c)) mod 2 ^ 64 = (s + d * c) mod 2 ^ 64"
    by (metis mod_add_eq to_long_mod)
qed

lemma to_long_scale: "to_long (to_long c * r) = to_long (c * r)"
  by (rule to_long_cong) (metis mod_mult_left_eq to_long_mod)

text \<open>
  The loop fails exactly when the number is beyond the limit; its scale may wrap around meanwhile, the
  sum of a number within the limit does not.
\<close>

lemma conv_loop_value:
  "2 \<le> r \<Longrightarrow> \<forall>d\<in>set ds. 0 \<le> d \<Longrightarrow> limit \<le> 0 \<Longrightarrow>
    conv_loop r ds limit (to_long s) (to_long c) =
      (if digits_value r (rev ds) \<le> - limit then Some (to_long (s + digits_value r (rev ds) * c)) else None)"
proof (induction r ds limit s c arbitrary: s c rule: conv_loop.induct)
  case (1 r limit s0 c0)
  then show ?case by (simp add: digits_value_def)
next
  case (2 r d limit s0 c0)
  then show ?case by (auto simp: digits_value_def to_long_step)
next
  case (3 r d d' ds limit s0 c0)
  let ?v = "digits_value r (rev (d' # ds))"
  have v: "digits_value r (rev (d # d' # ds)) = r * ?v + d" "0 \<le> ?v"
    using 3 by (simp_all only: rev.simps(2) [of d] digits_value_snoc digits_value_nonneg) (auto intro!: digits_value_nonneg)
  show ?case
  proof (cases "- d < limit")
    case True
    have "0 \<le> r * ?v" using 3 v by simp
    then show ?thesis using True v by simp
  next
    case False
    have "conv_loop r (d # d' # ds) limit (to_long s) (to_long c) =
      conv_loop r (d' # ds) ((limit + d) sdiv r) (to_long (s + d * c)) (to_long (c * r))"
      using False by (simp add: to_long_step to_long_scale)
    moreover have "s + d * c + ?v * (c * r) = s + (r * ?v + d) * c" by (simp add: algebra_simps)
    moreover have ls: "(limit + d) sdiv r \<le> 0" "?v \<le> - ((limit + d) sdiv r) \<longleftrightarrow> r * ?v + d \<le> - limit"
      using limit_step(1) [of r d limit] limit_step(2) [of r d limit ?v] 3(2,3) False by auto
    moreover have "conv_loop r (d' # ds) ((limit + d) sdiv r) (to_long (s + d * c)) (to_long (c * r)) =
      (if ?v \<le> - ((limit + d) sdiv r) then Some (to_long (s + d * c + ?v * (c * r))) else None)"
      by (rule 3(1)) (use 3(2,3) False ls in auto)
    ultimately show ?thesis unfolding v by metis
  qed
qed

lemma digit_loop_take:
  "n \<le> 20 \<Longrightarrow> digit_loop r n src =
    (map char_val (take (20 - n) (takeWhile (\<lambda>c. char_val c < r) src)),
     drop (length (take (20 - n) (takeWhile (\<lambda>c. char_val c < r) src))) src)"
proof (induction r n src rule: digit_loop.induct)
  case (2 r n c src)
  show ?case
  proof (cases "char_val c < r \<and> n < 20")
    case True
    then have "20 - n = Suc (20 - Suc n)" by linarith
    with 2 True show ?thesis by simp
  next
    case False
    then show ?thesis using 2(2) by auto
  qed
qed simp

lemma char_val_nonneg [simp]: "0 \<le> char_val c"
proof -
  have "48 \<le> uint c" if "48 \<le> c" using that by (simp add: word_le_def)
  moreover have "65 \<le> uint c" if "65 \<le> c" using that by (simp add: word_le_def)
  moreover have "97 \<le> uint c" if "97 \<le> c" using that by (simp add: word_le_def)
  ultimately show ?thesis by (auto simp: char_val_def)
qed

text \<open>How \<open>str2int\<close> reads its text: white space, a sign, zeros, and at most 20 more digits.\<close>

definition unsigned_part :: "bytes \<Rightarrow> bytes" where
  "unsigned_part s = (let s = dropWhile is_space s in if s \<noteq> [] \<and> (hd s = 43 \<or> hd s = 45) then tl s else s)"

definition is_negative :: "bytes \<Rightarrow> bool" where
  "is_negative s \<longleftrightarrow> (let s = dropWhile is_space s in s \<noteq> [] \<and> hd s = 45)"

definition number_digits :: "int \<Rightarrow> bytes \<Rightarrow> bytes" where
  "number_digits r s = take 20 (takeWhile (\<lambda>c. char_val c < r) (dropWhile (\<lambda>c. c = 48) (unsigned_part s)))"

definition number_rest :: "int \<Rightarrow> bytes \<Rightarrow> bytes" where
  "number_rest r s = drop (length (number_digits r s)) (dropWhile (\<lambda>c. c = 48) (unsigned_part s))"

lemma str2int_value:
  assumes "2 \<le> radix" "radix \<le> 36" "- (2 ^ 63) \<le> lower" "lower < 2 ^ 63" "- (2 ^ 63) \<le> upper" "upper < 2 ^ 63"
    and "v = digits_value radix (map char_val (number_digits radix s))"
  shows "str2int s radix lower upper =
    (if number_rest radix s = unsigned_part s then (None, 0, EDOM)
     else if is_negative s
     then if lower \<le> - v then (Some (number_rest radix s), - v, E_OK) else (None, 0, ERANGE)
     else if v \<le> upper then (Some (number_rest radix s), v, E_OK) else (None, 0, ERANGE))"
proof -
  define limit where "limit = initial_limit lower upper"
  have L: "limit \<le> 0" "- (2 ^ 63) \<le> limit" "- \<bar>lower\<bar> \<ge> limit" "- \<bar>upper\<bar> \<ge> limit"
    using assms by (auto simp: limit_def initial_limit_def Let_def)
  have v0: "0 \<le> v" unfolding assms(7) using assms(1) by (intro digits_value_nonneg) auto
  have conv: "conv_loop radix (rev (map char_val (number_digits radix s))) limit 0 (-1) =
      (if v \<le> - limit then Some (- v) else None)"
  proof -
    have "conv_loop radix (rev (map char_val (number_digits radix s))) limit (to_long 0) (to_long (-1)) =
      (if v \<le> - limit then Some (to_long (0 + v * (-1))) else None)"
      using conv_loop_value [of radix "rev (map char_val (number_digits radix s))" limit 0 "-1"] assms(1,7) L(1) by auto
    moreover have "to_long (- v) = - v" if "v \<le> - limit" using that L(2) v0 by (intro to_long_id) auto
    ultimately show ?thesis by simp
  qed
  have sign: "(case dropWhile is_space s of c # cs \<Rightarrow> if c = 43 then (-1, cs) else if c = 45 then (1, cs) else (-1, dropWhile is_space s)
      | [] \<Rightarrow> (-1, dropWhile is_space s)) = (if is_negative s then 1 else - 1 :: int, unsigned_part s)"
    by (auto simp: is_negative_def unsigned_part_def Let_def simp del: dropWhile_eq_Nil_conv split: list.splits)
  have dl: "digit_loop radix 0 (dropWhile (\<lambda>c. c = 48) (unsigned_part s)) = (map char_val (number_digits radix s), number_rest radix s)"
    by (simp add: digit_loop_take number_digits_def number_rest_def)
  obtain p where "unsigned_part s = p @ number_rest radix s"
    by (metis append_assoc append_take_drop_id number_rest_def takeWhile_dropWhile_id)
  then have edom: "length (unsigned_part s) = length (number_rest radix s) \<longleftrightarrow> number_rest radix s = unsigned_part s" by auto
  have neg: "to_long (- (- v)) = v" if "\<not> - v < - (2 ^ 63 - 1)" using that v0 by simp
  have sgn: "((if is_negative s then 1 else - 1 :: int) < 0) = (\<not> is_negative s)" by simp
  have "str2int s radix lower upper =
    (if number_rest radix s = unsigned_part s then (None, 0, EDOM)
     else case (if v \<le> - limit then Some (- v) else None) of
       None \<Rightarrow> (None, 0, ERANGE)
     | Some sofar \<Rightarrow>
         if \<not> is_negative s
         then if sofar < - (2 ^ 63 - 1) \<or> to_long (- sofar) > upper then (None, 0, ERANGE)
              else (Some (number_rest radix s), to_long (- sofar), E_OK)
         else if sofar < lower then (None, 0, ERANGE)
         else (Some (number_rest radix s), sofar, E_OK))"
    using assms(1,2) unfolding str2int_def Let_def sign prod.case dl edom limit_def [symmetric] conv
    by (simp only: sgn if_False not_less disj_comms de_Morgan_disj) auto
  then show ?thesis using neg L assms(3-6) v0 by (auto split: if_splits)
qed



section \<open>Printing and reading back\<close>

lemma char_val_dig_vec: "d < 36 \<Longrightarrow> char_val (dig_vec upcase ! d) = int d"
proof -
  have "map char_val (dig_vec upcase) = map int [0..<36]"
    by (cases upcase) (simp_all add: dig_vec_def dig_vec_upper_def dig_vec_lower_def bytes_of_def char_val_def upt_rec)
  moreover assume "d < 36"
  moreover from this have "d < length (dig_vec upcase)" by (simp add: dig_vec_def dig_vec_simps)
  ultimately show ?thesis by (metis add_0 length_upt diff_zero nth_map nth_upt)
qed

lemma dig_vec_plain:
  assumes "d < 36" shows "\<not> is_space (dig_vec upcase ! d)" "dig_vec upcase ! d \<noteq> 43" "dig_vec upcase ! d \<noteq> 45"
    "dig_vec upcase ! d = 48 \<longleftrightarrow> d = 0"
proof -
  have c: "char_val x = 127" if "is_space x \<or> x = 43 \<or> x = 45" for x
    using that by (auto simp: is_space_def char_val_def word_le_nat_alt)
  show "\<not> is_space (dig_vec upcase ! d)" "dig_vec upcase ! d \<noteq> 43" "dig_vec upcase ! d \<noteq> 45"
    using c char_val_dig_vec [OF assms, of upcase] assms by fastforce+
  show "dig_vec upcase ! d = 48 \<longleftrightarrow> d = 0"
  proof
    assume "dig_vec upcase ! d = 48"
    then show "d = 0" using char_val_dig_vec [OF assms, of upcase] by (simp add: char_val_def)
  qed (simp add: dig_vec_def dig_vec_upper_def dig_vec_lower_def bytes_of_def)
qed

lemma radix_digits_value: "2 \<le> r \<Longrightarrow> digits_value (int r) (map int (radix_digits r n)) = int n"
proof (induction r n rule: radix_digits.induct)
  case (1 r n)
  show ?case
  proof (cases "n < r")
    case True
    then show ?thesis by (simp add: radix_digits_small digits_value_def)
  next
    case False
    with 1 have "digits_value (int r) (map int (radix_digits r n)) = int r * int (n div r) + int (n mod r)"
      by (simp add: radix_digits_big digits_value_snoc)
    also have "\<dots> = int n" by (metis mult_div_mod_eq of_nat_add of_nat_mult)
    finally show ?thesis .
  qed
qed

lemma radix_digits_hd: "2 \<le> r \<Longrightarrow> 0 < n \<Longrightarrow> hd (radix_digits r n) \<noteq> 0"
proof (induction r n rule: radix_digits.induct)
  case (1 r n)
  then show ?case
    by (cases "n < r") (auto simp: radix_digits_small radix_digits_big radix_digits_ne div_greater_zero_iff)
qed

text \<open>Reading a printed number: what \<open>str2int\<close> takes for the digits.\<close>

lemma printed_digits:
  assumes "2 \<le> r" "r \<le> 36" "length (radix_digits r n) \<le> 20" "rest = [] \<or> int r \<le> char_val (hd rest)"
    and "unsigned_part s = map ((!) (dig_vec up)) (radix_digits r n) @ rest"
  shows "number_rest (int r) s = rest" "digits_value (int r) (map char_val (number_digits (int r) s)) = int n"
proof -
  let ?D = "radix_digits r n"
  have less: "d < r" "d < 36" if "d \<in> set ?D" for d using radix_digits_less [OF assms(1) that] assms(2) by auto
  have stop: "takeWhile (\<lambda>c. char_val c < int r) rest = []" using assms(4) by (cases rest) auto
  have all: "\<forall>c\<in>set (map ((!) (dig_vec up)) ?D). char_val c < int r" using less by (auto simp: char_val_dig_vec)
  have cv: "map char_val (map ((!) (dig_vec up)) ?D) = map int ?D" using less by (simp add: char_val_dig_vec)
  have "number_digits (int r) s = (if n = 0 then [] else map ((!) (dig_vec up)) ?D) \<and> number_rest (int r) s = rest"
  proof (cases "n = 0")
    case True
    have "dropWhile (\<lambda>c. c = 48) rest = rest" using assms(1,4) by (cases rest) (auto simp: char_val_def)
    moreover have "dig_vec up ! 0 = 48" using dig_vec_plain(4) [of 0 up] by simp
    ultimately show ?thesis
      using True assms(1,5) stop by (simp add: number_rest_def number_digits_def radix_digits_small)
  next
    case False
    then have "hd ?D \<noteq> 0" "?D \<noteq> []" using radix_digits_hd [OF assms(1)] radix_digits_ne by auto
    then have "dropWhile (\<lambda>c. c = 48) (map ((!) (dig_vec up)) ?D @ rest) = map ((!) (dig_vec up)) ?D @ rest"
      using less dig_vec_plain(4) by (cases ?D) auto
    then show ?thesis
      using False assms(3,5) stop all by (simp add: number_rest_def number_digits_def takeWhile_append)
  qed
  then show "number_rest (int r) s = rest" "digits_value (int r) (map char_val (number_digits (int r) s)) = int n"
    using cv radix_digits_value [OF assms(1), of n] by (auto simp del: map_map) (simp add: digits_value_def)
qed

text \<open>
  A number printed by \<open>int2str\<close> in a radix of 9 to 36, in upper or lower case, is read back by
  \<open>str2int\<close> as itself, whatever follows its digits, if it is within the bounds: from \<open>LONG_MIN\<close> to
  \<open>LONG_MAX\<close>.
\<close>

theorem int2str_str2int:
  assumes "9 \<le> r" "r \<le> 36" "lower \<le> val" "val \<le> upper" "- (2 ^ 63) \<le> lower" "lower < 2 ^ 63" "- (2 ^ 63) \<le> upper" "upper < 2 ^ 63"
    and "rest = [] \<or> r \<le> char_val (hd rest)"
  shows "\<exists>s. int2str val (- r) upcase = Inr (Some s) \<and> str2int (s @ rest) r lower upper = (Some rest, val, E_OK)"
proof -
  let ?n = "nat \<bar>val\<bar>"
  let ?ds = "map ((!) (dig_vec upcase)) (radix_digits (nat r) ?n)"
  let ?s = "(if val < 0 then [45] else []) @ ?ds"
  have r: "2 \<le> nat r" "nat r \<le> 36" "int (nat r) = r" using assms(1,2) by auto
  have "(9 :: nat) ^ Suc 19 \<le> nat r ^ Suc 19" using assms(1) by (intro power_mono) auto
  moreover have "?n < 9 ^ Suc 19" using assms(3-8) by auto
  ultimately have len: "length (radix_digits (nat r) ?n) \<le> 20" using radix_digits_length [OF r(1), of ?n 19] by simp
  obtain d ds where D: "radix_digits (nat r) ?n = d # ds" using radix_digits_ne by (metis neq_Nil_conv)
  then have d: "d < 36" using radix_digits_less [OF r(1), of d ?n] r(2) by auto
  have u: "unsigned_part (?s @ rest) = ?ds @ rest" "is_negative (?s @ rest) \<longleftrightarrow> val < 0"
    using dig_vec_plain [OF d, of upcase] by (auto simp: unsigned_part_def is_negative_def D Let_def is_space_def)
  have v: "number_rest r (?s @ rest) = rest" "digits_value r (map char_val (number_digits r (?s @ rest))) = \<bar>val\<bar>"
    using printed_digits [OF r(1,2) len _ u(1)] assms(9) r(3) by auto
  have "number_rest r (?s @ rest) \<noteq> unsigned_part (?s @ rest)" by (subst u(1), subst v(1)) (simp add: D)
  then have "str2int (?s @ rest) r lower upper = (Some rest, val, E_OK)"
    using str2int_value [of r lower upper "\<bar>val\<bar>" "?s @ rest"] assms(1-8) u(2) v by auto
  moreover have "int2str val (- r) upcase = Inr (Some ?s)"
  proof -
    have "- (2 ^ 63) \<le> val" "val < 2 ^ 63" "\<bar>- r\<bar> = r" "- r < 0" using assms(1-8) by auto
    then show ?thesis using int2str_value [of "- r" val upcase] assms(1,2) by (simp add: dig_vec_def)
  qed
  ultimately show ?thesis by blast
qed

theorem int2str_str2int_witness:
  "\<exists>s. int2str (- 9223372036854775808) (- 10) False = Inr (Some s)
    \<and> str2int (s @ [44]) 10 (- 9223372036854775808) 0 = (Some [44], - 9223372036854775808, E_OK)"
  by (rule int2str_str2int) (simp_all add: char_val_def)

end
