(* ===== verification/DbAccess.thy ===== *)
theory DbAccess
  imports HashDbProps NumText
begin

text \<open>
  \<open>DBAccess\<close>: tables, each kept in several hash databases and one that lists them, its configuration. A full database is
  followed by the next. An open database is referred to by the name under which its table keeps it.
\<close>

definition TOP_DATABASES :: nat where "TOP_DATABASES = 100"
definition DB_CONF_FIELD_COUNT :: nat where "DB_CONF_FIELD_COUNT = 1"
definition MAX_DATABASES_PER_DIR :: int where "MAX_DATABASES_PER_DIR = 1000"
definition MAX_DB_DIR :: int where "MAX_DB_DIR = 30"

section \<open>\<open>std::map\<close> with string keys\<close>

fun bytes_less :: "bytes \<Rightarrow> bytes \<Rightarrow> bool" where
  "bytes_less _ [] \<longleftrightarrow> False"
| "bytes_less [] (_ # _) \<longleftrightarrow> True"
| "bytes_less (a # s) (b # t) \<longleftrightarrow> a < b \<or> a = b \<and> bytes_less s t"

text \<open>\<open>m[k] = v\<close>, \<open>m.insert(make_pair(k, v))\<close>, which keeps a value that is there, and \<open>m.erase(k)\<close>.\<close>

fun smap_new :: "bytes \<Rightarrow> 'a \<Rightarrow> (bytes \<times> 'a) list \<Rightarrow> (bytes \<times> 'a) list" where
  "smap_new k v [] = [(k, v)]"
| "smap_new k v ((l, w) # m) = (if bytes_less k l then (k, v) # (l, w) # m else (l, w) # smap_new k v m)"

definition smap_put :: "bytes \<Rightarrow> 'a \<Rightarrow> (bytes \<times> 'a) list \<Rightarrow> (bytes \<times> 'a) list" where
  "smap_put k v m = (if map_of m k = None then smap_new k v m else map (\<lambda>(l, w). (l, if l = k then v else w)) m)"

definition smap_insert :: "bytes \<Rightarrow> 'a \<Rightarrow> (bytes \<times> 'a) list \<Rightarrow> (bytes \<times> 'a) list" where
  "smap_insert k v m = (if map_of m k = None then smap_new k v m else m)"

definition smap_erase :: "bytes \<Rightarrow> (bytes \<times> 'a) list \<Rightarrow> (bytes \<times> 'a) list" where
  "smap_erase k m = filter (\<lambda>(l, _). l \<noteq> k) m"

section \<open>\<open>split\<close> and \<open>Format\<close>\<close>

fun fields_of :: "u8 \<Rightarrow> bytes \<Rightarrow> bytes list" where
  "fields_of sep [] = [[]]"
| "fields_of sep (c # s) = (if c = sep then [] # fields_of sep s else case fields_of sep s of f # fs \<Rightarrow> (c # f) # fs | [] \<Rightarrow> [[c]])"

text \<open>\<open>split_inplace\<close> for a separator that is not NUL: with \<open>trim\<close>, separators at the end become NUL and those at the start are skipped.\<close>

definition split_inplace :: "bytes \<Rightarrow> u8 \<Rightarrow> bool \<Rightarrow> bytes list" where
  "split_inplace s sep trim =
    (let s = (if trim then rev (dropWhile (\<lambda>c. c = sep) (rev s)) else s);
         s = c_str s;
         s = (if trim then dropWhile (\<lambda>c. c = sep) s else s)
     in fields_of sep s)"

definition format_parse :: "bytes \<Rightarrow> bytes list" where
  "format_parse str = split_inplace str 10 True"

fun format_toString :: "bytes list \<Rightarrow> bytes" where
  "format_toString [] = []"
| "format_toString [f] = f"
| "format_toString (f # g # fs) = f @ 10 # format_toString (g # fs)"

section \<open>The state\<close>

text \<open>\<open>DBAccessType\<close>. An entry of \<open>dbs\<close> is \<open>None\<close> for a null pointer, which \<open>dbs[fileno]\<close> leaves behind.\<close>

record dbaccesstype =
  databases_conf :: "(bytes \<times> bytes) list"
  count_of_database :: int
  dbs :: "(bytes \<times> hdb option) list"
  db_conf :: hdb
  tablename :: bytes

text \<open>
  \<open>DBAccess\<close>, with the directory of the databases and the contents of those that are not open: the bytes of the \<open>.idx\<close> and
  of the \<open>.dat\<close> file under each path.
\<close>

type_synonym db_files = "bytes \<Rightarrow> (bytes \<times> bytes) option"

record dbaccess =
  tables :: "dbaccesstype option list"
  dbsuffix :: "(bytes \<times> nat) list"
  acc_dir :: bytes
  acc_disk :: db_files

definition dec_text :: "int \<Rightarrow> bytes result" where
  "dec_text i = bind_r (int2str i 10 False) (\<lambda>t. case t of None \<Rightarrow> Inl Uninitialised | Some s \<Rightarrow> Inr s)"

definition getPath :: "bytes \<Rightarrow> bytes \<Rightarrow> bytes option \<Rightarrow> bytes result" where
  "getPath dir filename hashfilename =
    bind_r (my_hash (c_str (case hashfilename of Some h \<Rightarrow> h | None \<Rightarrow> filename)) MAX_DB_DIR) (\<lambda>d.
      Inr (dir @ 47 # dec_int d @ 47 # filename))"

definition table_db :: "bytes \<Rightarrow> dbaccesstype \<Rightarrow> hdb option" where
  "table_db f t = (case map_of (dbs t) f of Some (Some db) \<Rightarrow> Some db | _ \<Rightarrow> None)"

definition set_db :: "bytes \<Rightarrow> hdb \<Rightarrow> dbaccesstype \<Rightarrow> dbaccesstype" where
  "set_db f db t = t\<lparr>dbs := smap_put f (Some db) (dbs t)\<rparr>"

section \<open>Opening databases\<close>

text \<open>\<open>_open\<close>: with more than \<open>TOP_DATABASES\<close> open, \<open>dbs.end()\<close> is dereferenced.\<close>

definition open_db :: "bytes \<Rightarrow> hdb \<Rightarrow> dbaccesstype \<Rightarrow> dbaccesstype result" where
  "open_db fileno db t = (if TOP_DATABASES < length (dbs t) then Inl OutOfBounds else Inr (set_db fileno db t))"

text \<open>
  \<open>openExistDB\<close>: whether the configuration has the database. The time in its entry is set to \<open>now\<close>; the new entry is written
  with the length of the old one.
\<close>

definition openExistDB :: "int \<Rightarrow> bytes \<Rightarrow> db_files \<Rightarrow> bytes \<Rightarrow> dbaccesstype \<Rightarrow> (bool \<times> dbaccesstype) result" where
  "openExistDB now dir disk fn t =
    bind_r (db_fetch (db_conf t) (c_str fn) None) (\<lambda>(d, _, conf).
      case d of
        None \<Rightarrow> Inr (False, t\<lparr>db_conf := conf\<rparr>)
      | Some d \<Rightarrow>
          let data = (case datbuf d of None \<Rightarrow> [] | Some b \<Rightarrow> b) in
          bind_r (dec_text now) (\<lambda>timestr.
          let newdata = format_toString (timestr # tl (format_parse data)) in
          if length newdata + 1 < length data then Inl OutOfBounds else
          bind_r (db_store conf (c_str fn) (take (length data) (newdata @ [0])) DB_REPLACE None) (\<lambda>(_, _, conf).
          bind_r (getPath dir fn (Some (tablename t))) (\<lambda>path.
          bind_r (db_open (disk path)) (\<lambda>db.
          bind_r (open_db fn db (t\<lparr>db_conf := conf\<rparr>)) (\<lambda>t. Inr (True, t)))))))"

text \<open>\<open>openNewDB\<close>: the name of the new database.\<close>

definition new_fileno :: "dbaccesstype \<Rightarrow> bytes result" where
  "new_fileno t =
    bind_r (dec_text ((count_of_database t + 1) div MAX_DATABASES_PER_DIR)) (\<lambda>d.
    bind_r (dec_text (count_of_database t)) (\<lambda>n. Inr (d @ 47 # tablename t @ 46 # n)))"

definition openNewDB :: "int \<Rightarrow> bytes \<Rightarrow> db_files \<Rightarrow> dbaccesstype \<Rightarrow> (bytes \<times> dbaccesstype) result" where
  "openNewDB now dir disk t =
    bind_r (new_fileno t) (\<lambda>fileno.
    bind_r (getPath dir fileno (Some (tablename t))) (\<lambda>path.
    bind_r (db_open (disk path)) (\<lambda>db.
    bind_r (dec_text now) (\<lambda>data.
    let t = t\<lparr>databases_conf := smap_insert fileno data (databases_conf t)\<rparr> in
    bind_r (db_store (db_conf t) (c_str fileno) data DB_INSERT None) (\<lambda>(_, _, conf).
    bind_r (open_db fileno db (t\<lparr>db_conf := conf\<rparr>)) (\<lambda>t.
      Inr (fileno, t\<lparr>count_of_database := count_of_database t + 1\<rparr>)))))))"

text \<open>The database of a name from the configuration, opened when \<open>dbs\<close> has no entry for it; and that of a name the caller gives.\<close>

definition listed_db :: "int \<Rightarrow> bytes \<Rightarrow> db_files \<Rightarrow> bytes \<Rightarrow> dbaccesstype \<Rightarrow> (bool \<times> dbaccesstype) result" where
  "listed_db now dir disk f t =
    (case map_of (dbs t) f of None \<Rightarrow> openExistDB now dir disk f t | Some db \<Rightarrow> Inr (db \<noteq> None, t))"

definition given_db :: "int \<Rightarrow> bytes \<Rightarrow> db_files \<Rightarrow> bytes \<Rightarrow> dbaccesstype \<Rightarrow> (bool \<times> dbaccesstype) result" where
  "given_db now dir disk f t =
    (case map_of (dbs t) f of
       Some (Some db) \<Rightarrow> Inr (True, t)
     | _ \<Rightarrow> let t = t\<lparr>dbs := smap_put f None (dbs t)\<rparr> in if f = [] then Inr (False, t) else openExistDB now dir disk f t)"

section \<open>Storing\<close>

definition replace_or_insert :: "bytes \<Rightarrow> bytes \<Rightarrow> int option \<Rightarrow> hdb \<Rightarrow> (int \<times> int option \<times> hdb) result" where
  "replace_or_insert key data pos db =
    bind_r (db_store db key data DB_REPLACE pos) (\<lambda>(ret, pos, db).
      if ret = -1 then db_store db key data DB_INSERT pos else Inr (ret, pos, db))"

text \<open>The database the caller names: a record for which there is no room is removed from it.\<close>

definition store_given :: "bytes \<Rightarrow> bytes \<Rightarrow> bytes \<Rightarrow> int option \<Rightarrow> dbaccesstype \<Rightarrow> (int \<times> int option \<times> dbaccesstype) result" where
  "store_given f key data pos t =
    (case table_db f t of
       None \<Rightarrow> Inr (2, pos, t)
     | Some db \<Rightarrow>
         bind_r (db_store db key data DB_REPLACE pos) (\<lambda>(ret, pos, db).
           if ret = -1 then bind_r (db_store db key data DB_INSERT pos) (\<lambda>(ret, pos, db). Inr (ret, pos, set_db f db t))
           else if ret = 2 then bind_r (db_delete db key) (\<lambda>(_, db). Inr (ret, pos, set_db f db t))
           else Inr (ret, pos, set_db f db t)))"

text \<open>All the databases of the configuration, in its order: the answer and the name of the one that took the record, if any did.\<close>

fun store_anywhere :: "int \<Rightarrow> bytes \<Rightarrow> db_files \<Rightarrow> bytes \<Rightarrow> bytes \<Rightarrow> bytes list \<Rightarrow> int option \<Rightarrow> dbaccesstype
    \<Rightarrow> ((int \<times> bytes option) option \<times> int option \<times> dbaccesstype) result" where
  "store_anywhere now dir disk key data [] pos t = Inr (None, pos, t)"
| "store_anywhere now dir disk key data (f # fs) pos t =
    bind_r (listed_db now dir disk f t) (\<lambda>(_, t).
      case table_db f t of
        None \<Rightarrow> store_anywhere now dir disk key data fs pos t
      | Some db \<Rightarrow>
          bind_r (replace_or_insert key data pos db) (\<lambda>(ret, pos, db).
            let t = set_db f db t in
            if ret = 0 then Inr (Some (1, Some f), pos, t)
            else if ret = 3 then Inr (Some (2, None), pos, t)
            else store_anywhere now dir disk key data fs pos t))"

text \<open>The databases are full: the record goes to a new one.\<close>

definition store_new :: "int \<Rightarrow> bytes \<Rightarrow> db_files \<Rightarrow> bytes \<Rightarrow> bytes \<Rightarrow> int option \<Rightarrow> dbaccesstype
    \<Rightarrow> (int \<times> bytes \<times> int option \<times> dbaccesstype) result" where
  "store_new now dir disk key data pos t =
    bind_r (openNewDB now dir disk t) (\<lambda>(fileno, t).
      case table_db fileno t of
        None \<Rightarrow> Inl NullDeref
      | Some db \<Rightarrow>
          bind_r (replace_or_insert key data pos db) (\<lambda>(ret, pos, db).
            Inr (if ret \<noteq> 0 then 2 else 1, fileno, pos, set_db fileno db t)))"

definition store_in :: "int \<Rightarrow> bytes \<Rightarrow> db_files \<Rightarrow> bytes \<Rightarrow> bytes \<Rightarrow> bytes \<Rightarrow> int option \<Rightarrow> dbaccesstype
    \<Rightarrow> (int \<times> bytes \<times> int option \<times> dbaccesstype) result" where
  "store_in now dir disk key data fileno pos t =
    (if key = [] then Inr (3, fileno, pos, t) else
     bind_r (if fileno = [] then Inr (False, t) else given_db now dir disk fileno t) (\<lambda>(there, t).
     bind_r (if there then store_given fileno key data pos t else Inr (2, pos, t)) (\<lambda>(ret, pos, t).
       if ret \<noteq> 2 then Inr (0, fileno, pos, t) else
       bind_r (store_anywhere now dir disk key data (map fst (databases_conf t)) pos t) (\<lambda>(r, pos, t).
         case r of
           Some (value, f) \<Rightarrow> Inr (value, case f of None \<Rightarrow> fileno | Some f \<Rightarrow> f, pos, t)
         | None \<Rightarrow> store_new now dir disk key data pos t))))"

section \<open>Fetching and erasing\<close>

definition get_by_pos_in :: "int \<Rightarrow> bytes \<Rightarrow> db_files \<Rightarrow> bytes \<Rightarrow> bytes \<Rightarrow> int option \<Rightarrow> dbaccesstype
    \<Rightarrow> (dbd option \<times> int option \<times> dbaccesstype) result" where
  "get_by_pos_in now dir disk key fileno pos t =
    bind_r (given_db now dir disk fileno t) (\<lambda>(_, t).
      case table_db fileno t of
        None \<Rightarrow> Inr (None, pos, t)
      | Some db \<Rightarrow> bind_r (db_fetch db key pos) (\<lambda>(d, pos, db). Inr (d, pos, set_db fileno db t)))"

fun get_anywhere :: "int \<Rightarrow> bytes \<Rightarrow> db_files \<Rightarrow> bytes \<Rightarrow> bytes list \<Rightarrow> dbaccesstype
    \<Rightarrow> ((dbd \<times> bytes) option \<times> dbaccesstype) result" where
  "get_anywhere now dir disk key [] t = Inr (None, t)"
| "get_anywhere now dir disk key (f # fs) t =
    bind_r (listed_db now dir disk f t) (\<lambda>(_, t).
      case table_db f t of
        None \<Rightarrow> get_anywhere now dir disk key fs t
      | Some db \<Rightarrow>
          bind_r (db_fetch db key None) (\<lambda>(d, _, db).
            case d of
              Some d \<Rightarrow> Inr (Some (d, f), set_db f db t)
            | None \<Rightarrow> get_anywhere now dir disk key fs (set_db f db t)))"

definition get_in :: "int \<Rightarrow> bytes \<Rightarrow> db_files \<Rightarrow> bytes \<Rightarrow> bytes \<Rightarrow> int option \<Rightarrow> dbaccesstype
    \<Rightarrow> (dbd option \<times> bytes \<times> int option \<times> dbaccesstype) result" where
  "get_in now dir disk fileno key pos t =
    bind_r (if fileno \<noteq> [] \<and> pos \<noteq> None then get_by_pos_in now dir disk key fileno pos t else Inr (None, pos, t)) (\<lambda>(d, pos, t).
      case d of
        Some d \<Rightarrow> Inr (Some d, fileno, pos, t)
      | None \<Rightarrow>
          bind_r (get_anywhere now dir disk key (map fst (databases_conf t)) t) (\<lambda>(r, t).
            case r of
              None \<Rightarrow> Inr (None, fileno, pos, t)
            | Some (d, f) \<Rightarrow> Inr (Some d, f, pos, t)))"

text \<open>\<open>erase\<close>: the first database that can be opened decides.\<close>

fun erase_listed :: "int \<Rightarrow> bytes \<Rightarrow> db_files \<Rightarrow> bytes \<Rightarrow> bytes list \<Rightarrow> dbaccesstype \<Rightarrow> (int \<times> dbaccesstype) result" where
  "erase_listed now dir disk key [] t = Inr (1, t)"
| "erase_listed now dir disk key (f # fs) t =
    bind_r (listed_db now dir disk f t) (\<lambda>(_, t).
      case table_db f t of
        None \<Rightarrow> erase_listed now dir disk key fs t
      | Some db \<Rightarrow> bind_r (db_delete db key) (\<lambda>(ret, db). Inr (ret, set_db f db t)))"

definition erase_in :: "int \<Rightarrow> bytes \<Rightarrow> db_files \<Rightarrow> bytes \<Rightarrow> bytes \<Rightarrow> dbaccesstype \<Rightarrow> (int \<times> dbaccesstype) result" where
  "erase_in now dir disk key fileno t =
    (let t = (if fileno \<noteq> [] \<and> map_of (dbs t) fileno = None then t\<lparr>dbs := smap_put fileno None (dbs t)\<rparr> else t)
     in case (if fileno = [] then None else table_db fileno t) of
          Some db \<Rightarrow> bind_r (db_delete db key) (\<lambda>(ret, db). Inr (ret, set_db fileno db t))
        | None \<Rightarrow> erase_listed now dir disk key (map fst (databases_conf t)) t)"

text \<open>\<open>get_random\<close>: the iterator is never advanced, so a random database is always the first.\<close>

definition get_random_in :: "int \<Rightarrow> bytes \<Rightarrow> db_files \<Rightarrow> int \<Rightarrow> bytes \<Rightarrow> dbaccesstype \<Rightarrow> (dbd option \<times> bytes \<times> dbaccesstype) result" where
  "get_random_in now dir disk rnd fileno t =
    (let fileno = (if fileno = [] \<and> databases_conf t \<noteq> [] then fst (hd (databases_conf t)) else fileno)
     in bind_r (listed_db now dir disk fileno t) (\<lambda>(_, t).
          case table_db fileno t of
            None \<Rightarrow> Inr (None, fileno, t)
          | Some db \<Rightarrow>
              bind_r (db_fetch_by_chainoff db (rnd mod nhash db * int PTR_SZ + hashoff db)) (\<lambda>d. Inr (d, fileno, t))))"

text \<open>\<open>gets\<close>: the next record, from the next open database when one is at its end.\<close>

fun next_name :: "bytes \<Rightarrow> (bytes \<times> 'a) list \<Rightarrow> bytes option" where
  "next_name f [] = None"
| "next_name f [(g, _)] = None"
| "next_name f ((g, _) # (h, y) # m) = (if f = g then Some h else next_name f ((h, y) # m))"

fun gets_loop :: "nat \<Rightarrow> int \<Rightarrow> bytes \<Rightarrow> db_files \<Rightarrow> dbd option \<Rightarrow> int \<Rightarrow> bytes \<Rightarrow> dbaccesstype
    \<Rightarrow> (dbd option \<times> int \<times> bytes \<times> dbaccesstype) result" where
  "gets_loop 0 now dir disk prior off fileno t = Inl LoopsForEver"
| "gets_loop (Suc n) now dir disk prior off fileno t =
    (let fileno = (if fileno = [] \<and> databases_conf t \<noteq> [] then fst (hd (databases_conf t)) else fileno)
     in bind_r (listed_db now dir disk fileno t) (\<lambda>(_, t).
          case table_db fileno t of
            None \<Rightarrow> Inr (prior, off, fileno, t)
          | Some db \<Rightarrow>
              bind_r (db_nextrec db prior off) (\<lambda>(d, off, db).
                let t = set_db fileno db t in
                case d of
                  Some d \<Rightarrow> Inr (Some d, off, fileno, t)
                | None \<Rightarrow>
                    (case next_name fileno (dbs t) of
                       Some f \<Rightarrow> gets_loop n now dir disk None 0 f t
                     | None \<Rightarrow> Inr (None, off, fileno, t)))))"

definition gets_in :: "int \<Rightarrow> bytes \<Rightarrow> db_files \<Rightarrow> dbd option \<Rightarrow> int \<Rightarrow> bytes \<Rightarrow> dbaccesstype
    \<Rightarrow> (dbd option \<times> int \<times> bytes \<times> dbaccesstype) result" where
  "gets_in now dir disk prior off fileno t = gets_loop (length (dbs t) + 3) now dir disk prior off fileno t"

section \<open>Tables\<close>

text \<open>\<open>_load\<close>: every database of the configuration is opened. An entry with other than one field is only logged.\<close>

fun load_loop :: "nat \<Rightarrow> int \<Rightarrow> bytes \<Rightarrow> db_files \<Rightarrow> dbd option \<Rightarrow> int \<Rightarrow> dbaccesstype \<Rightarrow> dbaccesstype result" where
  "load_loop 0 now dir disk prior off t = Inl LoopsForEver"
| "load_loop (Suc n) now dir disk prior off t =
    bind_r (db_nextrec (db_conf t) prior off) (\<lambda>(d, off, conf).
      let t = t\<lparr>db_conf := conf\<rparr> in
      case d of
        None \<Rightarrow> Inr t
      | Some d \<Rightarrow>
          (case idxbuf d of
             None \<Rightarrow> Inl Uninitialised
           | Some fileno \<Rightarrow>
               let data = (case datbuf d of None \<Rightarrow> [] | Some b \<Rightarrow> b);
                   t = t\<lparr>databases_conf := smap_insert fileno data (databases_conf t)\<rparr>
               in bind_r (openExistDB now dir disk fileno t) (\<lambda>(_, t).
                    load_loop n now dir disk (Some d) off (t\<lparr>count_of_database := count_of_database t + 1\<rparr>))))"

definition load_table :: "int \<Rightarrow> bytes \<Rightarrow> dbaccess \<Rightarrow> (nat \<times> dbaccess) result" where
  "load_table now name acc =
    (case map_of (dbsuffix acc) name of
       Some tab \<Rightarrow> Inr (tab, acc)
     | None \<Rightarrow>
         bind_r (getPath (acc_dir acc) name None) (\<lambda>path.
         bind_r (db_open (acc_disk acc path)) (\<lambda>conf.
         let t = \<lparr>databases_conf = [], count_of_database = 0, dbs = [], db_conf = conf, tablename = name\<rparr> in
         bind_r (load_loop (Suc (length (idxfile conf))) now (acc_dir acc) (acc_disk acc) None 0 t) (\<lambda>t.
           Inr (length (tables acc), acc\<lparr>tables := tables acc @ [Some t], dbsuffix := smap_put name (length (tables acc)) (dbsuffix acc)\<rparr>)))))"

text \<open>\<open>DBAccessType::destroy\<close>: the files of the databases are left with what is in them.\<close>

fun close_dbs :: "bytes \<Rightarrow> bytes \<Rightarrow> (bytes \<times> hdb option) list \<Rightarrow> db_files \<Rightarrow> db_files result" where
  "close_dbs dir name [] disk = Inr disk"
| "close_dbs dir name ((f, None) # m) disk = close_dbs dir name m disk"
| "close_dbs dir name ((f, Some db) # m) disk =
    bind_r (getPath dir f (Some name)) (\<lambda>path. close_dbs dir name m (disk(path := Some (idxfile db, datfile db))))"

definition close_table :: "bytes \<Rightarrow> dbaccesstype \<Rightarrow> db_files \<Rightarrow> db_files result" where
  "close_table dir t disk =
    bind_r (getPath dir (tablename t) None) (\<lambda>path.
      close_dbs dir (tablename t) (dbs t) (disk(path := Some (idxfile (db_conf t), datfile (db_conf t)))))"

text \<open>
  \<open>remove\<close>: the configuration is opened once more, the files of its databases are unlinked and its entries deleted. The table is
  closed at the end; what its open databases have written is gone with their files.
\<close>

fun remove_files :: "nat \<Rightarrow> bytes \<Rightarrow> bytes \<Rightarrow> dbd option \<Rightarrow> int \<Rightarrow> hdb \<Rightarrow> db_files \<Rightarrow> (hdb \<times> db_files) result" where
  "remove_files 0 dir name prior off conf disk = Inl LoopsForEver"
| "remove_files (Suc n) dir name prior off conf disk =
    bind_r (db_nextrec conf prior off) (\<lambda>(d, off, conf).
      case d of
        None \<Rightarrow> Inr (conf, disk)
      | Some d \<Rightarrow>
          (case idxbuf d of
             None \<Rightarrow> Inl Uninitialised
           | Some fileno \<Rightarrow>
               bind_r (getPath dir fileno (Some name)) (\<lambda>path.
               bind_r (db_delete conf fileno) (\<lambda>(_, conf). remove_files n dir name (Some d) off conf (disk(path := None))))))"

definition remove_table :: "nat \<Rightarrow> dbaccess \<Rightarrow> dbaccess result" where
  "remove_table tab acc =
    (if length (tables acc) \<le> tab then Inl OutOfBounds else
     case tables acc ! tab of
       None \<Rightarrow> Inl NullDeref
     | Some t \<Rightarrow>
         bind_r (close_dbs (acc_dir acc) (tablename t) (dbs t) (acc_disk acc)) (\<lambda>disk.
         bind_r (db_open (Some (idxfile (db_conf t), datfile (db_conf t)))) (\<lambda>conf.
         bind_r (remove_files (Suc (length (idxfile conf))) (acc_dir acc) (tablename t) None 0 conf disk) (\<lambda>(conf, disk).
         bind_r (getPath (acc_dir acc) (tablename t) None) (\<lambda>path.
           Inr (acc\<lparr>tables := (tables acc)[tab := None], dbsuffix := smap_erase (tablename t) (dbsuffix acc),
             acc_disk := disk(path := Some (idxfile conf, datfile conf))\<rparr>))))))"

text \<open>\<open>destroydbs\<close>.\<close>

fun close_tables :: "bytes \<Rightarrow> dbaccesstype option list \<Rightarrow> db_files \<Rightarrow> db_files result" where
  "close_tables dir [] disk = Inr disk"
| "close_tables dir (t # ts) disk =
    bind_r (case t of None \<Rightarrow> Inr disk | Some t \<Rightarrow> close_table dir t disk) (\<lambda>disk. close_tables dir ts disk)"

definition destroydbs :: "dbaccess \<Rightarrow> dbaccess result" where
  "destroydbs acc =
    bind_r (close_tables (acc_dir acc) (tables acc) (acc_disk acc)) (\<lambda>disk.
      Inr (acc\<lparr>tables := [], dbsuffix := [], acc_disk := disk\<rparr>))"

definition DBAccess :: "bytes \<Rightarrow> db_files \<Rightarrow> dbaccess" where
  "DBAccess dir disk = \<lparr>tables = [], dbsuffix = [], acc_dir = dir, acc_disk = disk\<rparr>"

text \<open>The operations take the number of a table, \<open>tab\<close>.\<close>

definition on_table :: "nat \<Rightarrow> (bytes \<Rightarrow> db_files \<Rightarrow> dbaccesstype \<Rightarrow> ('a \<times> dbaccesstype) result) \<Rightarrow> dbaccess \<Rightarrow> ('a \<times> dbaccess) result" where
  "on_table tab f acc =
    (if length (tables acc) \<le> tab then Inl OutOfBounds else
     case tables acc ! tab of
       None \<Rightarrow> Inl NullDeref
     | Some t \<Rightarrow> bind_r (f (acc_dir acc) (acc_disk acc) t) (\<lambda>(a, t). Inr (a, acc\<lparr>tables := (tables acc)[tab := Some t]\<rparr>)))"

definition acc_store :: "int \<Rightarrow> nat \<Rightarrow> bytes \<Rightarrow> bytes \<Rightarrow> bytes \<Rightarrow> int option \<Rightarrow> dbaccess \<Rightarrow> ((int \<times> bytes \<times> int option) \<times> dbaccess) result" where
  "acc_store now tab key data fileno pos =
    on_table tab (\<lambda>dir disk t. bind_r (store_in now dir disk key data fileno pos t) (\<lambda>(r, f, p, t). Inr ((r, f, p), t)))"

definition acc_get :: "int \<Rightarrow> nat \<Rightarrow> bytes \<Rightarrow> bytes \<Rightarrow> int option \<Rightarrow> dbaccess \<Rightarrow> ((dbd option \<times> bytes \<times> int option) \<times> dbaccess) result" where
  "acc_get now tab fileno key pos =
    on_table tab (\<lambda>dir disk t. bind_r (get_in now dir disk fileno key pos t) (\<lambda>(d, f, p, t). Inr ((d, f, p), t)))"

definition acc_erase :: "int \<Rightarrow> nat \<Rightarrow> bytes \<Rightarrow> bytes \<Rightarrow> dbaccess \<Rightarrow> (int \<times> dbaccess) result" where
  "acc_erase now tab key fileno = on_table tab (\<lambda>dir disk t. erase_in now dir disk key fileno t)"

definition acc_gets :: "int \<Rightarrow> nat \<Rightarrow> dbd option \<Rightarrow> int \<Rightarrow> bytes \<Rightarrow> dbaccess \<Rightarrow> ((dbd option \<times> int \<times> bytes) \<times> dbaccess) result" where
  "acc_gets now tab prior off fileno =
    on_table tab (\<lambda>dir disk t. bind_r (gets_in now dir disk prior off fileno t) (\<lambda>(d, o', f, t). Inr ((d, o', f), t)))"

definition acc_get_random :: "int \<Rightarrow> int \<Rightarrow> nat \<Rightarrow> bytes \<Rightarrow> dbaccess \<Rightarrow> ((dbd option \<times> bytes) \<times> dbaccess) result" where
  "acc_get_random now rnd tab fileno =
    on_table tab (\<lambda>dir disk t. bind_r (get_random_in now dir disk rnd fileno t) (\<lambda>(d, f, t). Inr ((d, f), t)))"

end
