(* ===== verification/Codec.thy ===== *)
theory Codec
  imports Prelude
begin

text \<open>
  The serialisation helpers at the end of \<open>tools/utilcpp.cpp\<close>: every value is written as a 4-byte
  length followed by its bytes, in the byte order of the machine (little endian). A buffer pointer that
  the code advances is the list of bytes written so far, or the list of bytes still to read.
\<close>

section \<open>Machine representation\<close>

definition le_bytes :: "nat \<Rightarrow> int \<Rightarrow> bytes" where
  "le_bytes n x = map (\<lambda>i. word_of_int (x div 256 ^ i)) [0..<n]"

fun from_le :: "bytes \<Rightarrow> int" where
  "from_le [] = 0"
| "from_le (b # bs) = uint b + 256 * from_le bs"

text \<open>The value of \<open>n\<close> bytes in two's complement.\<close>

definition signed_le :: "bytes \<Rightarrow> int" where
  "signed_le bs = (let k = 256 ^ length bs in (from_le bs + k div 2) mod k - k div 2)"

lemma length_le_bytes [simp]: "length (le_bytes n x) = n"
  by (simp add: le_bytes_def)

lemma le_bytes_0 [simp]: "le_bytes 0 x = []"
  by (simp add: le_bytes_def)

lemma le_bytes_Suc: "le_bytes (Suc n) x = word_of_int x # le_bytes n (x div 256)"
proof -
  have "[0..<Suc n] = 0 # map Suc [0..<n]" by (simp only: upt_conv_Cons zero_less_Suc map_Suc_upt)
  then show ?thesis by (simp add: le_bytes_def o_def zdiv_zmult2_eq del: upt_Suc)
qed

lemma from_le_bytes: "from_le (le_bytes n x) = x mod 256 ^ n"
proof (induction n arbitrary: x)
  case (Suc n)
  have "from_le (le_bytes (Suc n) x) = x mod 256 + 256 * (x div 256 mod 256 ^ n)"
    by (simp add: le_bytes_Suc Suc uint_word_of_int)
  also have "\<dots> = x mod (256 * 256 ^ n)" by (simp add: zmod_zmult2_eq)
  finally show ?case by simp
qed simp

lemma signed_le_bytes:
  assumes "0 < n" "- (256 ^ n div 2) \<le> x" "x < 256 ^ n div 2" shows "signed_le (le_bytes n x) = x"
proof -
  let ?k = "256 ^ n :: int"
  have "2 * (?k div 2) = ?k" using assms(1) by (cases n) simp_all
  then have r: "0 \<le> x + ?k div 2" "x + ?k div 2 < ?k" using assms(2,3) by linarith+
  have "(x mod ?k + ?k div 2) mod ?k = (x + ?k div 2) mod ?k" by (simp add: mod_add_left_eq)
  also have "\<dots> = x + ?k div 2" using r by simp
  finally show ?thesis by (simp add: signed_le_def from_le_bytes Let_def)
qed

section \<open>Writing\<close>

definition serializeLong :: "int \<Rightarrow> bytes \<Rightarrow> int \<times> bytes" where
  "serializeLong a buf = (let len = 8 in (4 + int len, buf @ le_bytes 4 (int len) @ le_bytes len a))"

definition serializeULongLong :: "int \<Rightarrow> bytes \<Rightarrow> int \<times> bytes" where
  "serializeULongLong a buf = (let len = 8 in (4 + int len, buf @ le_bytes 4 (int len) @ le_bytes len a))"

definition serializeInt :: "int \<Rightarrow> bytes \<Rightarrow> int \<times> bytes" where
  "serializeInt a buf = (let len = 4 in (4 + int len, buf @ le_bytes 4 (int len) @ le_bytes len a))"

definition serializeString :: "bytes \<Rightarrow> bytes \<Rightarrow> int \<times> bytes" where
  "serializeString a buf = (let len = length (c_str a) in (4 + int len, buf @ le_bytes 4 (int len) @ take len a))"

definition serializeChar :: "u8 \<Rightarrow> bytes \<Rightarrow> int \<times> bytes" where
  "serializeChar a buf = (let len = 1 in (4 + len, buf @ le_bytes 4 len @ [a]))"

definition serializeBool :: "bool \<Rightarrow> bytes \<Rightarrow> int \<times> bytes" where
  "serializeBool a buf = (let len = 1; a1 = (if a then 1 else 0) in (4 + len, buf @ le_bytes 4 len @ [a1]))"

section \<open>Reading\<close>

text \<open>
  The common part: the length, then \<open>memcpy\<close> of that many bytes into a variable of \<open>n\<close> bytes. A length that
  is negative or exceeds the variable, or a buffer that is too short, is undefined.
\<close>

definition read_field :: "nat \<Rightarrow> bytes \<Rightarrow> (nat \<times> bytes \<times> bytes) result" where
  "read_field n buf =
    (if length buf < 4 then Inl BufferOverflow
     else let len = signed_le (take 4 buf); buf = drop 4 buf
          in if len < 0 \<or> len > int n \<or> len > int (length buf) then Inl BufferOverflow
             else Inr (nat len, take (nat len) buf, drop (nat len) buf))"

text \<open>The variable \<open>a\<close> keeps the bytes beyond the length that was read.\<close>

definition unserializeLong :: "bytes \<Rightarrow> int \<Rightarrow> (int \<times> int \<times> bytes) result" where
  "unserializeLong buf a = bind_r (read_field 8 buf) (\<lambda>(len, xs, buf).
     Inr (int len, signed_le (xs @ drop len (le_bytes 8 a)), buf))"

definition unserializeULongLong :: "bytes \<Rightarrow> int \<Rightarrow> (int \<times> int \<times> bytes) result" where
  "unserializeULongLong buf a = bind_r (read_field 8 buf) (\<lambda>(len, xs, buf).
     Inr (int len, from_le (xs @ drop len (le_bytes 8 a)), buf))"

definition unserializeInt :: "bytes \<Rightarrow> int \<Rightarrow> (int \<times> int \<times> bytes) result" where
  "unserializeInt buf a = bind_r (read_field 4 buf) (\<lambda>(len, xs, buf).
     Inr (int len, signed_le (xs @ drop len (le_bytes 4 a)), buf))"

text \<open>Into an array of \<open>cap\<close> characters, with a NUL behind.\<close>

definition unserializeString :: "nat \<Rightarrow> bytes \<Rightarrow> (int \<times> bytes \<times> bytes) result" where
  "unserializeString cap buf =
    (if cap = 0 then Inl BufferOverflow
     else bind_r (read_field (cap - 1) buf) (\<lambda>(len, xs, buf). Inr (int len, c_str xs, buf)))"

definition unserializeChar :: "bytes \<Rightarrow> u8 \<Rightarrow> (int \<times> u8 \<times> bytes) result" where
  "unserializeChar buf a = bind_r (read_field 1 buf) (\<lambda>(len, xs, buf).
     Inr (int len, hd (xs @ [a]), buf))"

text \<open>The byte goes into \<open>a\<close>, but \<open>a1\<close>, still 0, decides.\<close>

definition unserializeBool :: "bytes \<Rightarrow> bool \<Rightarrow> (int \<times> bool \<times> bytes) result" where
  "unserializeBool buf a = bind_r (read_field 1 buf) (\<lambda>(len, xs, buf).
     let a1 = 0 :: u8; a = (if a1 = 0 then False else True) in Inr (int len, a, buf))"

section \<open>The contract of a field type\<close>

text \<open>
  A field type: what \<open>serialize\<close> appends, what \<open>unserialize\<close> makes of the rest of the buffer, and the
  values that survive. Its law is that reading gives back the value and leaves what follows.
\<close>

locale field_codec =
  fixes put :: "'v \<Rightarrow> bytes \<Rightarrow> int \<times> bytes"
    and get :: "bytes \<Rightarrow> (int \<times> 'v \<times> bytes) result"
    and ok :: "'v \<Rightarrow> bool"
  assumes put_appends: "snd (put a buf) = buf @ snd (put a [])"
    and put_size: "fst (put a buf) = int (length (snd (put a [])))"
    and get_put: "ok a \<Longrightarrow> get (snd (put a []) @ rest) = Inr (fst (put a []) - 4, a, rest)"
begin

fun put_all :: "'v list \<Rightarrow> bytes \<Rightarrow> int \<times> bytes" where
  "put_all [] buf = (0, buf)"
| "put_all (a # as) buf = (let (n, buf) = put a buf; (m, buf) = put_all as buf in (n + m, buf))"

fun get_n :: "nat \<Rightarrow> bytes \<Rightarrow> ('v list \<times> bytes) result" where
  "get_n 0 buf = Inr ([], buf)"
| "get_n (Suc n) buf = bind_r (get buf) (\<lambda>(_, a, buf). bind_r (get_n n buf) (\<lambda>(as, buf). Inr (a # as, buf)))"

lemma put_all_appends:
  "put_all as buf = (int (length (concat (map (\<lambda>a. snd (put a [])) as))), buf @ concat (map (\<lambda>a. snd (put a [])) as))"
proof (induction as arbitrary: buf)
  case (Cons a as)
  obtain n b where p: "put a buf = (n, b)" by force
  then have "n = int (length (snd (put a [])))" "b = buf @ snd (put a [])"
    using put_appends [of a buf] put_size [of a buf] by auto
  then show ?case by (simp add: p Cons)
qed simp

lemma get_n_put_all:
  "\<forall>a\<in>set as. ok a \<Longrightarrow> get_n (length as) (snd (put_all as []) @ rest) = Inr (as, rest)"
  by (induction as) (simp_all add: put_all_appends get_put)

end

lemma read_field_written:
  assumes "length xs \<le> n" "length xs < 2 ^ 31"
  shows "read_field n (le_bytes 4 (int (length xs)) @ xs @ rest) = Inr (length xs, xs, rest)"
proof -
  have "signed_le (le_bytes 4 (int (length xs))) = int (length xs)"
    using assms(2) by (intro signed_le_bytes) simp_all
  then show ?thesis using assms(1) by (simp add: read_field_def Let_def)
qed

interpretation long_field: field_codec serializeLong "\<lambda>buf. unserializeLong buf old" "\<lambda>a. - (2 ^ 63) \<le> a \<and> a < 2 ^ 63"
  using read_field_written [of "le_bytes 8 _" 8]
  by unfold_locales (simp_all add: serializeLong_def unserializeLong_def signed_le_bytes)

interpretation ulonglong_field: field_codec serializeULongLong "\<lambda>buf. unserializeULongLong buf old" "\<lambda>a. 0 \<le> a \<and> a < 2 ^ 64"
  using read_field_written [of "le_bytes 8 _" 8]
  by unfold_locales (simp_all add: serializeULongLong_def unserializeULongLong_def from_le_bytes)

interpretation int_field: field_codec serializeInt "\<lambda>buf. unserializeInt buf old" "\<lambda>a. - (2 ^ 31) \<le> a \<and> a < 2 ^ 31"
  using read_field_written [of "le_bytes 4 _" 4]
  by unfold_locales (simp_all add: serializeInt_def unserializeInt_def signed_le_bytes)

interpretation char_field: field_codec serializeChar "\<lambda>buf. unserializeChar buf old" "\<lambda>a. True"
  using read_field_written [of "[_]" 1]
  by unfold_locales (simp_all add: serializeChar_def unserializeChar_def)

interpretation string_field: field_codec serializeString "unserializeString cap" "\<lambda>a. 0 \<notin> set a \<and> length a < cap \<and> length a < 2 ^ 31"
proof
  show "snd (serializeString a buf) = buf @ snd (serializeString a [])" for a buf by (simp add: serializeString_def Let_def)
  have "length (c_str a) \<le> length a" for a by (simp add: c_str_def length_takeWhile_le)
  then show "fst (serializeString a buf) = int (length (snd (serializeString a [])))" for a buf
    by (simp add: serializeString_def Let_def min.absorb2)
  fix a rest :: bytes
  assume a: "0 \<notin> set a \<and> length a < cap \<and> length a < 2 ^ 31"
  then have "length a \<le> cap - 1" "length a < 2 ^ 31" by auto
  from read_field_written [OF this, of rest] a
  show "unserializeString cap (snd (serializeString a []) @ rest) = Inr (fst (serializeString a []) - 4, a, rest)"
    by (simp add: serializeString_def unserializeString_def Let_def)
qed

section \<open>Properties\<close>

text \<open>
  Every value but a boolean is read back as it was written, whatever follows it in the buffer and
  whatever the variable held before: \<open>long\<close>, \<open>unsigned long long\<close>, \<open>int\<close>, \<open>char\<close>, and strings that fit the
  array they are read into. The count returned by the reader is that of the writer less the 4 bytes of
  the length.
\<close>

theorem serialize_roundtrip:
  assumes "- (2 ^ 63) \<le> l" "l < 2 ^ 63" "0 \<le> u" "u < 2 ^ 64" "- (2 ^ 31) \<le> i" "i < 2 ^ 31"
    and "0 \<notin> set s" "length s < cap" "length s < 2 ^ 31"
  shows "unserializeLong (snd (serializeLong l []) @ rest) old = Inr (fst (serializeLong l []) - 4, l, rest)
    \<and> unserializeULongLong (snd (serializeULongLong u []) @ rest) old = Inr (fst (serializeULongLong u []) - 4, u, rest)
    \<and> unserializeInt (snd (serializeInt i []) @ rest) old = Inr (fst (serializeInt i []) - 4, i, rest)
    \<and> unserializeChar (snd (serializeChar c []) @ rest) oldc = Inr (fst (serializeChar c []) - 4, c, rest)
    \<and> unserializeString cap (snd (serializeString s []) @ rest) = Inr (fst (serializeString s []) - 4, s, rest)"
  using assms long_field.get_put ulonglong_field.get_put int_field.get_put char_field.get_put string_field.get_put
  by blast

theorem serialize_roundtrip_witness:
  "unserializeLong (snd (serializeLong (-5) []) @ [7]) 0 = Inr (8, -5, [7])
    \<and> unserializeString 4 (snd (serializeString [65, 66, 67] []) @ [7]) = Inr (3, [65, 66, 67], [7])"
  using serialize_roundtrip [of "-5" 1 1 "[65, 66, 67]" 4 "[7]" 0 0 0]
  by (simp add: serializeLong_def serializeString_def)

text \<open>
  Reading trusts the length in the buffer: \<open>unserializeInt\<close> is defined exactly when that length is
  between 0 and 4 and the buffer holds that many bytes behind it.
\<close>

theorem unserialize_int_fault:
  "is_ok (unserializeInt buf a) \<longleftrightarrow>
    4 \<le> length buf \<and> 0 \<le> signed_le (take 4 buf) \<and> signed_le (take 4 buf) \<le> 4 \<and> signed_le (take 4 buf) + 4 \<le> int (length buf)"
  by (auto simp: unserializeInt_def read_field_def Let_def)

text \<open>
  A boolean never comes back as \<open>true\<close>: \<open>unserializeBool\<close> tests a variable that still holds its initial zero.
\<close>

theorem bool_is_lost: "unserializeBool (snd (serializeBool a []) @ rest) old = Inr (1, False, rest)"
  using read_field_written [of "[if a then 1 else 0]" 1 rest]
  by (simp add: unserializeBool_def serializeBool_def Let_def)

end
