(* ===== verification/UrlNode.thy ===== *)
theory UrlNode
  imports Codec
begin

text \<open>
  The queue element of the crawler, \<open>UrlNode\<close> of \<open>tools/ic_types.h\<close>: its two constructors, the copies into
  its arrays, its attachments, and the serialisation under which it is kept in the table of unfetched
  addresses. The set \<open>urls\<close>, which nothing reads, is left out.
\<close>

definition MAX_URL_LEN :: nat where "MAX_URL_LEN = 1024"
definition MAX_TITLE_LEN :: nat where "MAX_TITLE_LEN = 128"

text \<open>
  An entry of the array of attachments: the null pointer, an \<open>Other\<close> with its length and its data, or memory
  that was never written. The data pointer of an \<open>Other\<close> is not set, \<open>None\<close>, when it was made of an empty text.
\<close>

datatype cell = Null | Other int "bytes option" | Junk

record urlnode =
  u_url :: bytes
  u_username :: bytes
  u_fatherurl :: bytes
  u_refererurl :: bytes
  u_title :: bytes
  u_topicsource :: bytes
  u_taskid :: int
  u_other :: "cell list option"
  u_type :: int
  u_errornum :: u8
  u_id :: int
  u_page :: int
  u_maxtype :: int
  u_layerid :: int
  u_bbsid :: int
  u_needtologin :: bool
  u_redirectnum :: u8
  u_taskbatch :: int
  u_task :: nat
  u_nextpage :: int
  u_ipnum :: int
  u_nowpage :: int
  u_totalpage :: int
  u_html :: bytes
  u_keyid :: int
  u_searchid :: int
  u_fetched_page :: int
  u_onepage :: bytes
  u_sqlite_id :: int

section \<open>Constructors and copies\<close>

text \<open>The default constructor; \<open>junk\<close> stands for the memory the object is made in, which keeps its \<open>keyid\<close>,
  \<open>searchid\<close> and \<open>onepage\<close>.\<close>

definition UrlNode0 :: "urlnode \<Rightarrow> urlnode" where
  "UrlNode0 junk = junk\<lparr>u_url := [], u_username := [], u_taskid := 0, u_type := 0, u_errornum := 0, u_id := 0,
     u_page := 1, u_maxtype := -1, u_other := None, u_layerid := 1, u_bbsid := -1, u_needtologin := False, u_redirectnum := 0,
     u_fatherurl := [], u_refererurl := [], u_taskbatch := -1, u_title := [], u_topicsource := [], u_task := 0,
     u_ipnum := 0, u_nextpage := 1, u_fetched_page := 0, u_sqlite_id := 0, u_nowpage := 1, u_totalpage := 1, u_html := []\<rparr>"

text \<open>\<open>strcpy\<close> into an array of \<open>cap\<close> characters.\<close>

definition strcpy_to :: "nat \<Rightarrow> bytes \<Rightarrow> bytes result" where
  "strcpy_to cap s = (if length s < cap then Inr s else Inl BufferOverflow)"

text \<open>
  The pattern of the copies: a text longer than \<open>lim\<close> is cut to \<open>n\<close> characters and a NUL is written at index
  \<open>lim\<close>; any other is copied whole.
\<close>

definition copy_cut :: "nat \<Rightarrow> nat \<Rightarrow> nat \<Rightarrow> bytes \<Rightarrow> bytes result" where
  "copy_cut cap lim n s =
    (if length s > lim then if lim < cap \<and> n \<le> cap then Inr (take lim (take n s)) else Inl BufferOverflow
     else strcpy_to cap s)"

definition copyurl :: "bytes \<Rightarrow> urlnode \<Rightarrow> urlnode result" where
  "copyurl s u = bind_r (copy_cut MAX_URL_LEN (MAX_URL_LEN - 1) (MAX_URL_LEN - 1) s) (\<lambda>s. Inr (u\<lparr>u_url := s\<rparr>))"

definition copyfatherurl :: "bytes \<Rightarrow> urlnode \<Rightarrow> urlnode result" where
  "copyfatherurl s u = bind_r (copy_cut MAX_URL_LEN (MAX_URL_LEN - 1) (MAX_URL_LEN - 1) s) (\<lambda>s. Inr (u\<lparr>u_fatherurl := s\<rparr>))"

definition copyrefererurl :: "bytes \<Rightarrow> urlnode \<Rightarrow> urlnode result" where
  "copyrefererurl s u = bind_r (copy_cut MAX_URL_LEN (MAX_URL_LEN - 10) (MAX_URL_LEN - 10) s) (\<lambda>s. Inr (u\<lparr>u_refererurl := s\<rparr>))"

definition copytitle :: "bytes \<Rightarrow> urlnode \<Rightarrow> urlnode result" where
  "copytitle s u = bind_r (copy_cut MAX_TITLE_LEN (MAX_TITLE_LEN - 1) (MAX_TITLE_LEN - 1) s) (\<lambda>s. Inr (u\<lparr>u_title := s\<rparr>))"

definition copytopicsource :: "bytes \<Rightarrow> urlnode \<Rightarrow> urlnode result" where
  "copytopicsource s u = bind_r (copy_cut MAX_TITLE_LEN (MAX_TITLE_LEN - 1) (MAX_TITLE_LEN - 1) s) (\<lambda>s. Inr (u\<lparr>u_topicsource := s\<rparr>))"

text \<open>The array has 128 characters, but the length is compared with that of an address.\<close>

definition copyusername :: "bytes \<Rightarrow> urlnode \<Rightarrow> urlnode result" where
  "copyusername s u = bind_r (copy_cut 128 (MAX_URL_LEN - 1) (128 - 1) s) (\<lambda>s. Inr (u\<lparr>u_username := s\<rparr>))"

section \<open>Attachments\<close>

definition Other_make :: "int \<Rightarrow> bytes \<Rightarrow> cell" where
  "Other_make len data = Other len (if c_str data \<noteq> [] then Some (take (nat len) (c_str data)) else None)"

text \<open>\<open>delete other[type]\<close>: the destructor of \<open>Other\<close> deletes its data.\<close>

definition delete_other :: "cell \<Rightarrow> unit result" where
  "delete_other c = (case c of Other _ (Some _) \<Rightarrow> Inr () | _ \<Rightarrow> Inl BadPointer)"

text \<open>\<open>other[type] = new Other (len, data)\<close>, in an array whose bounds are not checked.\<close>

definition put_other :: "cell list \<Rightarrow> int \<Rightarrow> cell \<Rightarrow> cell list result" where
  "put_other cs typ c = (if 0 \<le> typ \<and> nat typ < length cs then Inr (cs[nat typ := c]) else Inl OutOfBounds)"

definition get_other :: "cell list \<Rightarrow> int \<Rightarrow> cell result" where
  "get_other cs typ =
    (if 0 \<le> typ \<and> nat typ < length cs then (case cs ! nat typ of Junk \<Rightarrow> Inl BadPointer | c \<Rightarrow> Inr c) else Inl OutOfBounds)"

text \<open>\<open>realloc\<close> to \<open>typ + 1\<close> entries and the loop that clears those from \<open>from\<close> on.\<close>

definition grow_other :: "cell list \<Rightarrow> int \<Rightarrow> int \<Rightarrow> cell list" where
  "grow_other cs from typ = map (\<lambda>i. if from \<le> int i then Null else if i < length cs then cs ! i else Junk) [0..<nat (typ + 1)]"

definition insertother :: "int \<Rightarrow> bytes option \<Rightarrow> int \<Rightarrow> urlnode \<Rightarrow> urlnode result" where
  "insertother typ data len u =
    (case data of None \<Rightarrow> Inr u
     | Some data \<Rightarrow>
       if len \<le> 0 then Inr u
       else let new = Other_make len data; fresh = replicate (nat (typ + 1)) Null
            in if typ \<le> u_maxtype u then
                 (case u_other u of
                    Some cs \<Rightarrow> bind_r (get_other cs typ) (\<lambda>c.
                      bind_r (if c \<noteq> Null then delete_other c else Inr ()) (\<lambda>_.
                      bind_r (put_other cs typ new) (\<lambda>cs. Inr (u\<lparr>u_other := Some cs\<rparr>))))
                  | None \<Rightarrow> bind_r (put_other fresh typ new) (\<lambda>cs. Inr (u\<lparr>u_other := Some cs\<rparr>)))
               else
                 bind_r (case u_other u of
                    Some cs \<Rightarrow> put_other (grow_other cs (u_maxtype u + 1) typ) typ new
                  | None \<Rightarrow> put_other fresh typ new) (\<lambda>cs. Inr (u\<lparr>u_other := Some cs, u_maxtype := typ\<rparr>)))"

text \<open>The data of an attachment; the text behind a pointer that was never set cannot be read.\<close>

definition getothervalue :: "int \<Rightarrow> urlnode \<Rightarrow> bytes option result" where
  "getothervalue typ u =
    (if typ \<le> u_maxtype u then
       case u_other u of
         Some cs \<Rightarrow> bind_r (get_other cs typ) (\<lambda>c.
           case c of Other _ (Some data) \<Rightarrow> Inr (Some data) | Other _ None \<Rightarrow> Inl BadPointer | _ \<Rightarrow> Inr None)
       | None \<Rightarrow> Inr None
     else Inr None)"

text \<open>\<open>copyother\<close> of the array \<open>src\<close>, whose entries \<open>0\<close> to \<open>srcmax\<close> are read.\<close>

fun copyother_from :: "nat \<Rightarrow> nat \<Rightarrow> cell list \<Rightarrow> urlnode \<Rightarrow> urlnode result" where
  "copyother_from 0 i src u = Inr u"
| "copyother_from (Suc n) i src u =
    bind_r (get_other src (int i)) (\<lambda>c.
      bind_r (case c of Other len (Some data) \<Rightarrow> insertother (int i) (Some data) len u
              | Other _ None \<Rightarrow> Inl BadPointer | _ \<Rightarrow> Inr u) (copyother_from n (Suc i) src))"

definition copyother :: "cell list option \<Rightarrow> int \<Rightarrow> urlnode \<Rightarrow> urlnode result" where
  "copyother src srcmax u =
    (case src of None \<Rightarrow> if 0 \<le> srcmax then Inl NullDeref else Inr u
     | Some cs \<Rightarrow> copyother_from (nat (srcmax + 1)) 0 cs u)"

text \<open>The destructor, which deletes the entries \<open>0\<close> to \<open>maxtype\<close>.\<close>

definition destroy :: "urlnode \<Rightarrow> unit result" where
  "destroy u =
    (case u_other u of None \<Rightarrow> if 0 \<le> u_maxtype u then Inl NullDeref else Inr ()
     | Some cs \<Rightarrow> foldl (\<lambda>r i. bind_r r (\<lambda>_. bind_r (get_other cs (int i)) (\<lambda>c. if c = Null then Inr () else delete_other c)))
         (Inr ()) [0..<nat (u_maxtype u + 1)])"

text \<open>The constructor with arguments; \<open>task\<close> is the pointer and \<open>taskid\<close> what it leads to.\<close>

definition UrlNode_make :: "urlnode \<Rightarrow> nat \<Rightarrow> int \<Rightarrow> bytes option \<Rightarrow> bytes option \<Rightarrow> int \<Rightarrow> bytes \<Rightarrow> bytes
    \<Rightarrow> cell list option \<Rightarrow> int \<Rightarrow> int \<Rightarrow> u8 \<Rightarrow> int \<Rightarrow> u8 \<Rightarrow> int \<Rightarrow> int \<Rightarrow> int \<Rightarrow> bool \<Rightarrow> urlnode result" where
  "UrlNode_make junk task taskid topicsource title taskbatch fatherurl url other othermaxtype typ errornum i redirectnum page layerid bbsid needtologin =
    bind_r (copyurl url junk) (\<lambda>u.
    bind_r (copyfatherurl fatherurl u) (\<lambda>u.
    bind_r (case title of Some s \<Rightarrow> copytitle s u | None \<Rightarrow> Inr (u\<lparr>u_title := []\<rparr>)) (\<lambda>u.
    bind_r (case topicsource of Some s \<Rightarrow> copytopicsource s u | None \<Rightarrow> Inr (u\<lparr>u_topicsource := []\<rparr>)) (\<lambda>u.
    let u = u\<lparr>u_other := None, u_maxtype := -1\<rparr> in
    bind_r (case other of Some _ \<Rightarrow> copyother other othermaxtype u | None \<Rightarrow> Inr u) (\<lambda>u.
      Inr (u\<lparr>u_taskid := taskid, u_type := typ, u_errornum := errornum, u_id := i, u_page := page,
        u_layerid := layerid, u_needtologin := needtologin, u_redirectnum := redirectnum, u_taskbatch := taskbatch,
        u_bbsid := bbsid, u_task := task, u_nextpage := 1, u_ipnum := 0, u_refererurl := [], u_username := [], u_html := []\<rparr>))))))"

section \<open>Serialisation\<close>

text \<open>The fields in the order they are written, each with the function that writes it.\<close>

definition serialize_fields :: "urlnode \<Rightarrow> (bytes \<Rightarrow> int \<times> bytes) list" where
  "serialize_fields u =
    [serializeString (u_url u), serializeString (u_fatherurl u), serializeString (u_title u), serializeString (u_topicsource u),
     serializeInt (u_taskid u), serializeInt (u_type u), serializeChar (u_errornum u), serializeULongLong (u_id u),
     serializeInt (u_page u), serializeInt (u_maxtype u), serializeInt (u_layerid u), serializeInt (u_bbsid u),
     serializeBool (u_needtologin u), serializeChar (u_redirectnum u), serializeInt (u_taskbatch u),
     serializeLong (u_keyid u), serializeLong (u_searchid u), serializeInt (u_nextpage u), serializeInt (u_totalpage u),
     serializeInt (u_fetched_page u), serializeString (u_onepage u), serializeInt (u_ipnum u), serializeLong (u_sqlite_id u)]"

text \<open>The length returned, and the bytes behind \<open>buf\<close>.\<close>

definition serialize :: "urlnode \<Rightarrow> int \<times> bytes" where
  "serialize u = fold (\<lambda>f (len, buf). let (n, buf) = f buf in (len + n, buf)) (serialize_fields u) (0, [])"

definition unserialize :: "bytes \<Rightarrow> urlnode \<Rightarrow> urlnode result" where
  "unserialize buf u =
    bind_r (unserializeString MAX_URL_LEN buf) (\<lambda>(_, a, buf). let u = u\<lparr>u_url := a\<rparr> in
    bind_r (unserializeString MAX_URL_LEN buf) (\<lambda>(_, a, buf). let u = u\<lparr>u_fatherurl := a\<rparr> in
    bind_r (unserializeString MAX_TITLE_LEN buf) (\<lambda>(_, a, buf). let u = u\<lparr>u_title := a\<rparr> in
    bind_r (unserializeString MAX_TITLE_LEN buf) (\<lambda>(_, a, buf). let u = u\<lparr>u_topicsource := a\<rparr> in
    bind_r (unserializeInt buf (u_taskid u)) (\<lambda>(_, a, buf). let u = u\<lparr>u_taskid := a\<rparr> in
    bind_r (unserializeInt buf (u_type u)) (\<lambda>(_, a, buf). let u = u\<lparr>u_type := a\<rparr> in
    bind_r (unserializeChar buf (u_errornum u)) (\<lambda>(_, a, buf). let u = u\<lparr>u_errornum := a\<rparr> in
    bind_r (unserializeULongLong buf (u_id u)) (\<lambda>(_, a, buf). let u = u\<lparr>u_id := a\<rparr> in
    bind_r (unserializeInt buf (u_page u)) (\<lambda>(_, a, buf). let u = u\<lparr>u_page := a\<rparr> in
    bind_r (unserializeInt buf (u_maxtype u)) (\<lambda>(_, a, buf). let u = u\<lparr>u_maxtype := a\<rparr> in
    bind_r (unserializeInt buf (u_layerid u)) (\<lambda>(_, a, buf). let u = u\<lparr>u_layerid := a\<rparr> in
    bind_r (unserializeInt buf (u_bbsid u)) (\<lambda>(_, a, buf). let u = u\<lparr>u_bbsid := a\<rparr> in
    bind_r (unserializeBool buf (u_needtologin u)) (\<lambda>(_, a, buf). let u = u\<lparr>u_needtologin := a\<rparr> in
    bind_r (unserializeChar buf (u_redirectnum u)) (\<lambda>(_, a, buf). let u = u\<lparr>u_redirectnum := a\<rparr> in
    bind_r (unserializeInt buf (u_taskbatch u)) (\<lambda>(_, a, buf). let u = u\<lparr>u_taskbatch := a\<rparr> in
    bind_r (unserializeLong buf (u_keyid u)) (\<lambda>(_, a, buf). let u = u\<lparr>u_keyid := a\<rparr> in
    bind_r (unserializeLong buf (u_searchid u)) (\<lambda>(_, a, buf). let u = u\<lparr>u_searchid := a\<rparr> in
    bind_r (unserializeInt buf (u_nextpage u)) (\<lambda>(_, a, buf). let u = u\<lparr>u_nextpage := a\<rparr> in
    bind_r (unserializeInt buf (u_totalpage u)) (\<lambda>(_, a, buf). let u = u\<lparr>u_totalpage := a\<rparr> in
    bind_r (unserializeInt buf (u_fetched_page u)) (\<lambda>(_, a, buf). let u = u\<lparr>u_fetched_page := a\<rparr> in
    bind_r (unserializeString 32 buf) (\<lambda>(_, a, buf). let u = u\<lparr>u_onepage := a\<rparr> in
    bind_r (unserializeInt buf (u_ipnum u)) (\<lambda>(_, a, buf). let u = u\<lparr>u_ipnum := a\<rparr> in
    bind_r (unserializeLong buf (u_sqlite_id u)) (\<lambda>(_, a, buf). Inr (u\<lparr>u_sqlite_id := a\<rparr>))))))))))))))))))))))))"

section \<open>Properties\<close>

text \<open>A field that only appends to the buffer, and returns how much.\<close>

definition appends :: "(bytes \<Rightarrow> int \<times> bytes) \<Rightarrow> bool" where
  "appends f \<longleftrightarrow> (\<forall>buf. f buf = (int (length (snd (f []))), buf @ snd (f [])))"

lemma appends_fields:
  "appends (serializeString s)" "appends (serializeInt i)" "appends (serializeChar c)"
  "appends (serializeULongLong n)" "appends (serializeBool b)" "appends (serializeLong l)"
proof -
  have codec: "appends (put a)" if "\<And>buf. snd (put a buf) = buf @ snd (put a [])" "\<And>buf. fst (put a buf) = int (length (snd (put a [])))"
    for put :: "'v \<Rightarrow> bytes \<Rightarrow> int \<times> bytes" and a
    unfolding appends_def using that by (metis prod.collapse)
  show "appends (serializeString s)" by (rule codec) (fact string_field.put_appends, fact string_field.put_size)
  show "appends (serializeInt i)" by (rule codec) (fact int_field.put_appends, fact int_field.put_size)
  show "appends (serializeChar c)" by (rule codec) (fact char_field.put_appends, fact char_field.put_size)
  show "appends (serializeULongLong n)" by (rule codec) (fact ulonglong_field.put_appends, fact ulonglong_field.put_size)
  show "appends (serializeLong l)" by (rule codec) (fact long_field.put_appends, fact long_field.put_size)
  show "appends (serializeBool b)" by (simp add: appends_def serializeBool_def)
qed

lemma serialize_concat:
  "serialize u = (int (length (concat (map (\<lambda>f. snd (f [])) (serialize_fields u)))), concat (map (\<lambda>f. snd (f [])) (serialize_fields u)))"
proof -
  have all: "\<forall>f\<in>set (serialize_fields u). appends f" by (simp add: serialize_fields_def appends_fields)
  have "fold (\<lambda>f (len, buf). let (n, buf) = f buf in (len + n, buf)) fs (len, buf) =
      (len + int (length (concat (map (\<lambda>f. snd (f [])) fs))), buf @ concat (map (\<lambda>f. snd (f [])) fs))"
    if "\<forall>f\<in>set fs. appends f" for fs len buf
    using that
  proof (induction fs arbitrary: len buf)
    case (Cons f fs)
    have f: "f buf = (int (length (snd (f []))), buf @ snd (f []))"
      using Cons.prems unfolding appends_def by (meson list.set_intros(1))
    have "fold (\<lambda>f (len, buf). let (n, buf) = f buf in (len + n, buf)) (f # fs) (len, buf) =
        fold (\<lambda>f (len, buf). let (n, buf) = f buf in (len + n, buf)) fs (len + int (length (snd (f []))), buf @ snd (f []))"
      by (simp add: f)
    also have "\<dots> = (len + int (length (snd (f []))) + int (length (concat (map (\<lambda>f. snd (f [])) fs))),
        (buf @ snd (f [])) @ concat (map (\<lambda>f. snd (f [])) fs))"
      by (rule Cons.IH) (use Cons.prems in simp)
    finally show ?case by simp
  qed simp
  from this [OF all, of 0 "[]"] show ?thesis by (simp add: serialize_def)
qed

definition node_ok :: "urlnode \<Rightarrow> bool" where
  "node_ok u \<longleftrightarrow>
    (\<forall>(s, n)\<in>{(u_url u, 1024), (u_fatherurl u, 1024), (u_title u, 128), (u_topicsource u, 128), (u_onepage u, 32)}. 0 \<notin> set s \<and> length s < n)
    \<and> (\<forall>i\<in>{u_taskid u, u_type u, u_page u, u_maxtype u, u_layerid u, u_bbsid u, u_taskbatch u, u_nextpage u, u_totalpage u, u_fetched_page u,
          u_ipnum u}. - (2 ^ 31) \<le> i \<and> i < 2 ^ 31)
    \<and> (\<forall>l\<in>{u_keyid u, u_searchid u, u_sqlite_id u}. - (2 ^ 63) \<le> l \<and> l < 2 ^ 63) \<and> 0 \<le> u_id u \<and> u_id u < 2 ^ 64"

text \<open>Reading goes field by field: the rest of the reader is not looked into before its turn.\<close>

lemma bind_r_weak_cong: "m = m' \<Longrightarrow> bind_r m f = bind_r m' f"
  by simp

lemma node_read_back:
  assumes "node_ok u"
  shows "unserialize (snd (serialize u) @ rest) v = Inr (v\<lparr>u_url := u_url u, u_fatherurl := u_fatherurl u, u_title := u_title u,
        u_topicsource := u_topicsource u, u_taskid := u_taskid u, u_type := u_type u, u_errornum := u_errornum u, u_id := u_id u,
        u_page := u_page u, u_maxtype := u_maxtype u, u_layerid := u_layerid u, u_bbsid := u_bbsid u, u_needtologin := False,
        u_redirectnum := u_redirectnum u, u_taskbatch := u_taskbatch u, u_keyid := u_keyid u, u_searchid := u_searchid u,
        u_nextpage := u_nextpage u, u_totalpage := u_totalpage u, u_fetched_page := u_fetched_page u, u_onepage := u_onepage u,
        u_ipnum := u_ipnum u, u_sqlite_id := u_sqlite_id u\<rparr>)"
proof -
  have s: "0 \<notin> set (u_url u) \<and> length (u_url u) < MAX_URL_LEN \<and> length (u_url u) < 2 ^ 31"
    "0 \<notin> set (u_fatherurl u) \<and> length (u_fatherurl u) < MAX_URL_LEN \<and> length (u_fatherurl u) < 2 ^ 31"
    "0 \<notin> set (u_title u) \<and> length (u_title u) < MAX_TITLE_LEN \<and> length (u_title u) < 2 ^ 31"
    "0 \<notin> set (u_topicsource u) \<and> length (u_topicsource u) < MAX_TITLE_LEN \<and> length (u_topicsource u) < 2 ^ 31"
    "0 \<notin> set (u_onepage u) \<and> length (u_onepage u) < 32 \<and> length (u_onepage u) < 2 ^ 31"
    using assms by (auto simp: node_ok_def MAX_URL_LEN_def MAX_TITLE_LEN_def)
  have i: "- (2 ^ 31) \<le> i \<and> i < 2 ^ 31" if "i \<in> {u_taskid u, u_type u, u_page u, u_maxtype u, u_layerid u, u_bbsid u, u_taskbatch u,
      u_nextpage u, u_totalpage u, u_fetched_page u, u_ipnum u}" for i using assms that unfolding node_ok_def by blast
  have l: "- (2 ^ 63) \<le> l \<and> l < 2 ^ 63" if "l \<in> {u_keyid u, u_searchid u, u_sqlite_id u}" for l
    using assms that unfolding node_ok_def by blast
  have n: "0 \<le> u_id u \<and> u_id u < 2 ^ 64" using assms unfolding node_ok_def by blast
  note g = string_field.get_put [OF s(1)] string_field.get_put [OF s(2)] string_field.get_put [OF s(3)] string_field.get_put [OF s(4)]
    string_field.get_put [OF s(5)] int_field.get_put [OF i] long_field.get_put [OF l] ulonglong_field.get_put [OF n]
    char_field.get_put [OF TrueI] bool_is_lost
  show ?thesis
    unfolding serialize_concat serialize_fields_def unserialize_def
    by (simp only: list.map concat.simps append_assoc append_Nil append_Nil2 snd_conv g insertI1 insertI2 bind_r_simps Let_def
        prod.case cong: bind_r_weak_cong)
qed

text \<open>
  C21. A node written to the table of unfetched addresses and read back into another is the same in every
  field that is written, except that \<open>needtologin\<close> is lost; the other fields of the target stay as they were.
  The length returned is the number of bytes written.
\<close>

theorem node_roundtrip:
  assumes "node_ok u"
  shows "fst (serialize u) = int (length (snd (serialize u)))
    \<and> unserialize (snd (serialize u) @ rest) v = Inr (v\<lparr>u_url := u_url u, u_fatherurl := u_fatherurl u, u_title := u_title u,
        u_topicsource := u_topicsource u, u_taskid := u_taskid u, u_type := u_type u, u_errornum := u_errornum u, u_id := u_id u,
        u_page := u_page u, u_maxtype := u_maxtype u, u_layerid := u_layerid u, u_bbsid := u_bbsid u, u_needtologin := False,
        u_redirectnum := u_redirectnum u, u_taskbatch := u_taskbatch u, u_keyid := u_keyid u, u_searchid := u_searchid u,
        u_nextpage := u_nextpage u, u_totalpage := u_totalpage u, u_fetched_page := u_fetched_page u, u_onepage := u_onepage u,
        u_ipnum := u_ipnum u, u_sqlite_id := u_sqlite_id u\<rparr>)"
  using node_read_back [OF assms] by (simp add: serialize_concat)

theorem node_roundtrip_witness:
  "\<forall>v. unserialize (snd (serialize (UrlNode0 v\<lparr>u_url := [104], u_id := 5, u_keyid := 1, u_searchid := 2, u_onepage := [65]\<rparr>)) @ [9]) v =
    Inr (v\<lparr>u_url := [104], u_fatherurl := [], u_title := [], u_topicsource := [], u_taskid := 0, u_type := 0, u_errornum := 0,
      u_id := 5, u_page := 1, u_maxtype := -1, u_layerid := 1, u_bbsid := -1, u_needtologin := False, u_redirectnum := 0,
      u_taskbatch := -1, u_keyid := 1, u_searchid := 2, u_nextpage := 1, u_totalpage := 1, u_fetched_page := 0, u_onepage := [65],
      u_ipnum := 0, u_sqlite_id := 0\<rparr>)"
  using node_roundtrip [of "UrlNode0 v\<lparr>u_url := [104], u_id := 5, u_keyid := 1, u_searchid := 2, u_onepage := [65]\<rparr>" "[9]" v for v]
  by (simp add: node_ok_def UrlNode0_def)

section \<open>The attachments\<close>

definition cell_ok :: "cell \<Rightarrow> bool" where
  "cell_ok c = (case c of Null \<Rightarrow> True | Junk \<Rightarrow> False | Other _ None \<Rightarrow> False
     | Other len (Some d) \<Rightarrow> 0 < len \<and> d \<noteq> [] \<and> 0 \<notin> set d \<and> int (length d) \<le> len)"

definition other_ok :: "urlnode \<Rightarrow> bool" where
  "other_ok u = (case u_other u of None \<Rightarrow> u_maxtype u = -1
     | Some cs \<Rightarrow> int (length cs) = u_maxtype u + 1 \<and> list_all cell_ok cs)"

definition cell_value :: "cell \<Rightarrow> bytes option" where
  "cell_value c = (case c of Other _ d \<Rightarrow> d | _ \<Rightarrow> None)"

text \<open>What the node holds, as a map.\<close>

definition attached :: "urlnode \<Rightarrow> nat \<Rightarrow> bytes option" where
  "attached u i = (case u_other u of Some cs \<Rightarrow> if i < length cs then cell_value (cs ! i) else None | None \<Rightarrow> None)"

lemma cell_ok_Other_make: "c_str data \<noteq> [] \<Longrightarrow> 0 < len \<Longrightarrow> cell_ok (Other_make len data)"
  by (auto simp: cell_ok_def Other_make_def c_str_def dest!: in_set_takeD set_takeWhileD)

lemma get_other_ok: "list_all cell_ok cs \<Longrightarrow> i < length cs \<Longrightarrow> get_other cs (int i) = Inr (cs ! i)"
  by (auto simp: get_other_def cell_ok_def list_all_length split: cell.splits)

lemma delete_ok: "cell_ok c \<Longrightarrow> c \<noteq> Null \<Longrightarrow> delete_other c = Inr ()"
  by (auto simp: delete_other_def cell_ok_def split: cell.splits option.splits)

lemma other_in_range: "other_ok u \<Longrightarrow> u_other u = Some cs \<Longrightarrow> int i \<le> u_maxtype u \<longleftrightarrow> i < length cs"
  by (auto simp: other_ok_def)

lemma getothervalue_attached: "other_ok u \<Longrightarrow> getothervalue (int i) u = Inr (attached u i)"
proof (cases "u_other u")
  case (Some cs)
  assume ok: "other_ok u"
  then have "list_all cell_ok cs" using Some by (simp add: other_ok_def)
  then show ?thesis using other_in_range [OF ok Some] Some
    by (auto simp: getothervalue_def attached_def get_other_ok cell_value_def cell_ok_def list_all_length
        split: option.splits cell.splits)
qed (simp add: getothervalue_def attached_def)

lemma destroy_ok:
  assumes "other_ok u" shows "destroy u = Inr ()"
proof (cases "u_other u")
  case (Some cs)
  have "foldl (\<lambda>r i. bind_r r (\<lambda>_. bind_r (get_other cs (int i)) (\<lambda>c. if c = Null then Inr () else delete_other c))) (Inr ()) xs = Inr ()"
    if "\<forall>i\<in>set xs. i < length cs" for xs
    using that assms Some
    by (induction xs) (auto simp: other_ok_def get_other_ok list_all_length delete_ok)
  from this [of "[0..<length cs]"] Some assms show ?thesis by (simp add: destroy_def other_ok_def) (metis nat_int)
qed (use assms in \<open>simp add: destroy_def other_ok_def\<close>)


lemma grow_other_nth:
  "list_all cell_ok cs \<Longrightarrow> int (length cs) = from \<Longrightarrow> from \<le> typ + 1 \<Longrightarrow> grow_other cs from typ = cs @ replicate (nat (typ + 1) - length cs) Null"
  by (rule nth_equalityI) (auto simp: grow_other_def nth_append)

lemma attach_array:
  assumes "list_all cell_ok cs" "cell_ok c" "typ < length cs + k"
  shows "list_all cell_ok ((cs @ replicate k Null)[typ := c])"
    and "(\<lambda>i. if i < length cs + k then cell_value ((cs @ replicate k Null)[typ := c] ! i) else None)
      = (\<lambda>i. if i < length cs then cell_value (cs ! i) else None)(typ := cell_value c)"
  using assms by (auto simp: list_all_length nth_list_update nth_append cell_ok_def cell_value_def fun_eq_iff)

lemma insertother_ok:
  assumes u: "other_ok u" and d: "c_str data \<noteq> []" and len: "0 < len"
  shows "\<exists>v. insertother (int typ) (Some data) len u = Inr v \<and> other_ok v \<and> u_maxtype v = max (u_maxtype u) (int typ)
    \<and> attached v = (attached u)(typ := Some (take (nat len) (c_str data)))"
proof -
  let ?new = "Other_make len data"
  define cs where "cs = (case u_other u of None \<Rightarrow> [] | Some cs \<Rightarrow> cs)"
  define k where "k = Suc typ - length cs"
  define v where "v = u\<lparr>u_other := Some ((cs @ replicate k Null)[typ := ?new]), u_maxtype := max (u_maxtype u) (int typ)\<rparr>"
  have cs: "list_all cell_ok cs" "int (length cs) = u_maxtype u + 1"
    and at: "attached u = (\<lambda>i. if i < length cs then cell_value (cs ! i) else None)"
    using u by (auto simp: cs_def other_ok_def attached_def fun_eq_iff split: option.splits)
  have new: "cell_ok ?new" "cell_value ?new = Some (take (nat len) (c_str data))"
    using cell_ok_Other_make [OF d len] d by (simp_all add: Other_make_def cell_value_def)
  have k: "typ < length cs + k" by (simp add: k_def)
  have "insertother (int typ) (Some data) len u = Inr v"
  proof (cases "u_other u")
    case None
    then have "u_maxtype u = -1" using u by (simp add: other_ok_def)
    with None show ?thesis using len
      by (simp add: insertother_def Let_def v_def cs_def k_def put_other_def nat_add_distrib del: replicate_Suc)
  next
    case (Some cs')
    then have [simp]: "cs' = cs" by (simp add: cs_def)
    show ?thesis
    proof (cases "typ < length cs")
      case True
      then have "cell_ok (cs ! typ)" using cs by (simp add: list_all_length)
      then show ?thesis using True Some len cs
        by (auto simp: insertother_def get_other_ok put_other_def delete_ok v_def k_def intro!: urlnode.equality)
    next
      case False
      then have "grow_other cs (u_maxtype u + 1) (int typ) = cs @ replicate k Null"
        using grow_other_nth [OF cs, of "int typ"] cs(2) by (simp add: nat_add_distrib k_def)
      then show ?thesis using False Some len cs k by (simp add: insertother_def Let_def put_other_def v_def)
    qed
  qed
  moreover have "other_ok v"
    using attach_array(1) [OF cs(1) new(1) k] cs(2) k by (auto simp: other_ok_def v_def k_def)
  moreover have "attached v = (attached u)(typ := cell_value ?new)"
    unfolding at using attach_array(2) [OF cs(1) new(1) k] by (simp add: attached_def v_def fun_eq_iff)
  ultimately show ?thesis using new(2) by (auto simp: v_def)
qed


text \<open>
  C22. The array of attachments is well formed: it ends at \<open>maxtype\<close>, and every entry is null or a text of its own. \<open>insertother\<close> with a
  type that is not negative and a text that is not empty is defined on such a node and keeps it well formed, its value is then found
  under that type and every other one is as it was, and the destructor can delete it.
\<close>

theorem attachments_well_formed:
  assumes "other_ok u" "c_str data \<noteq> []" "0 < len"
  shows "\<exists>v. insertother (int typ) (Some data) len u = Inr v \<and> other_ok v \<and> destroy v = Inr ()
    \<and> (\<forall>i. getothervalue (int i) v = (if i = typ then Inr (Some (take (nat len) (c_str data))) else getothervalue (int i) u))"
proof -
  obtain v where v: "insertother (int typ) (Some data) len u = Inr v" "other_ok v"
    "attached v = (attached u)(typ := Some (take (nat len) (c_str data)))"
    using insertother_ok [OF assms, of "typ"] by blast
  then show ?thesis using destroy_ok [OF v(2)] getothervalue_attached [OF assms(1)] getothervalue_attached [OF v(2)] by simp
qed

theorem attachments_well_formed_witness:
  "\<forall>u. \<exists>v. insertother (int 2) (Some [107, 61, 49]) 3 (UrlNode0 u) = Inr v \<and> other_ok v \<and> destroy v = Inr ()
    \<and> (\<forall>i. getothervalue (int i) v = (if i = 2 then Inr (Some (take (nat 3) (c_str [107, 61, 49]))) else getothervalue (int i) (UrlNode0 u)))"
  by (rule allI, rule attachments_well_formed) (simp_all add: other_ok_def UrlNode0_def c_str_def)

lemma copyother_from_ok:
  assumes cs: "list_all cell_ok cs"
  shows "other_ok u \<Longrightarrow> i + n = length cs \<Longrightarrow>
    \<exists>v. copyother_from n i cs u = Inr v \<and> other_ok v
      \<and> attached v = (\<lambda>j. if i \<le> j \<and> j < length cs \<and> cell_value (cs ! j) \<noteq> None then cell_value (cs ! j) else attached u j)"
proof (induction n arbitrary: i u)
  case (Suc n)
  then have i: "i < length cs" by simp
  then have ci: "cell_ok (cs ! i)" using cs by (simp add: list_all_length)
  show ?case
  proof (cases "cs ! i")
    case Null
    obtain v where "copyother_from n (Suc i) cs u = Inr v" "other_ok v"
      "attached v = (\<lambda>j. if Suc i \<le> j \<and> j < length cs \<and> cell_value (cs ! j) \<noteq> None then cell_value (cs ! j) else attached u j)"
      using Suc.IH [of u "Suc i"] Suc.prems by auto
    moreover have "cell_value (cs ! i) = None" by (simp add: Null cell_value_def)
    ultimately show ?thesis using i Null by (auto simp: get_other_ok [OF cs] fun_eq_iff le_less Suc_le_eq)
  next
    case (Other len d)
    then obtain d' where d: "d = Some d'" "0 < len" "d' \<noteq> []" "0 \<notin> set d'" "int (length d') \<le> len"
      using ci by (auto simp: cell_ok_def split: option.splits)
    have "c_str d' = d'" using d(4) by simp
    then have "take (nat len) (c_str d') = d'" using d by simp
    with insertother_ok [OF Suc.prems(1), of d' len i] d \<open>c_str d' = d'\<close>
    obtain w where w: "insertother (int i) (Some d') len u = Inr w" "other_ok w" "attached w = (attached u)(i := Some d')" by auto
    obtain v where "copyother_from n (Suc i) cs w = Inr v" "other_ok v"
      "attached v = (\<lambda>j. if Suc i \<le> j \<and> j < length cs \<and> cell_value (cs ! j) \<noteq> None then cell_value (cs ! j) else attached w j)"
      using Suc.IH [OF w(2), of "Suc i"] Suc.prems by auto
    moreover have "cell_value (cs ! i) = Some d'" by (simp add: Other d cell_value_def)
    ultimately show ?thesis using i Other d w by (auto simp: get_other_ok [OF cs] fun_eq_iff le_less Suc_le_eq)
  qed (use ci in \<open>simp add: cell_ok_def\<close>)
qed (auto simp: fun_eq_iff)


text \<open>Copying the attachments into a fresh node gives a node with the same attachments.\<close>

lemma copyother_same:
  assumes v: "other_ok v" and u: "u_other u = None" "u_maxtype u = -1"
  shows "\<exists>w. copyother (u_other v) (u_maxtype v) u = Inr w \<and> other_ok w \<and> attached w = attached v"
proof (cases "u_other v")
  case None
  then show ?thesis using v u by (simp add: copyother_def other_ok_def attached_def fun_eq_iff)
next
  case (Some cs)
  then have cs: "list_all cell_ok cs" "nat (u_maxtype v + 1) = length cs" using v by (auto simp: other_ok_def)
  have "other_ok u" using u by (simp add: other_ok_def)
  from copyother_from_ok [OF cs(1) this, of 0 "length cs"]
  obtain w where "copyother_from (length cs) 0 cs u = Inr w" "other_ok w"
    "attached w = (\<lambda>j. if j < length cs \<and> cell_value (cs ! j) \<noteq> None then cell_value (cs ! j) else attached u j)" by auto
  moreover have "attached u = (\<lambda>_. None)" by (simp add: attached_def u fun_eq_iff)
  ultimately show ?thesis using Some cs(2) by (auto simp: copyother_def attached_def fun_eq_iff)
qed

text \<open>
  A node written with attachments and read back into a fresh node cannot be deleted: \<open>maxtype\<close> is restored and the array is not, so
  the destructor follows a null pointer. Without attachments it is deleted as usual.
\<close>

theorem restored_node_delete:
  assumes "node_ok u"
  shows "bind_r (unserialize (snd (serialize u) @ rest) (UrlNode0 junk)) destroy = (if u_maxtype u < 0 then Inr () else Inl NullDeref)"
  by (simp add: node_read_back [OF assms] destroy_def UrlNode0_def)

theorem restored_node_delete_witness:
  "\<forall>junk. bind_r (unserialize (snd (serialize (UrlNode0 junk\<lparr>u_maxtype := 0, u_keyid := 0, u_searchid := 0, u_onepage := []\<rparr>)) @ []) (UrlNode0 junk)) destroy
    = Inl NullDeref"
  using restored_node_delete [of "UrlNode0 junk\<lparr>u_maxtype := 0, u_keyid := 0, u_searchid := 0, u_onepage := []\<rparr>" "[]" junk for junk]
  by (simp add: node_ok_def UrlNode0_def)

text \<open>
  Every copy into an array of the node is defined whatever the length of the text, and stores a prefix of it that fits, except that of the
  user name: it faults exactly when the name has 128 characters or more.
\<close>

theorem copies_fit:
  "(\<exists>k<1024. copyurl s u = Inr (u\<lparr>u_url := take k s\<rparr>)) \<and> (\<exists>k<1024. copyfatherurl s u = Inr (u\<lparr>u_fatherurl := take k s\<rparr>))
    \<and> (\<exists>k<1024. copyrefererurl s u = Inr (u\<lparr>u_refererurl := take k s\<rparr>))
    \<and> (\<exists>k<128. copytitle s u = Inr (u\<lparr>u_title := take k s\<rparr>)) \<and> (\<exists>k<128. copytopicsource s u = Inr (u\<lparr>u_topicsource := take k s\<rparr>))
    \<and> (is_ok (copyusername s u) \<longleftrightarrow> length s < 128)"
proof -
  have "\<exists>k<cap. copy_cut cap lim lim s = Inr (take k s)" if "lim < cap" for cap lim
    by (cases "lim < length s") (use that in \<open>auto simp: copy_cut_def strcpy_to_def intro: exI [of _ lim] exI [of _ "length s"]\<close>)
  from this [of 1023 1024] this [of 1014 1024] this [of 127 128]
  show ?thesis
    by (auto simp: copyurl_def copyfatherurl_def copyrefererurl_def copytitle_def copytopicsource_def copyusername_def copy_cut_def strcpy_to_def
        MAX_URL_LEN_def MAX_TITLE_LEN_def)
qed

end
