(* ===== verification/PageBuffer.thy ===== *)
theory PageBuffer
  imports Prelude
begin

text \<open>
  \<open>buffer.c\<close>: the growing buffer in which pages and their heads are put together. \<open>buf_data\<close> are the bytes up to \<open>length\<close>; one
  NUL is written behind them.
\<close>

record buffer =
  buf_size :: int
  buf_default :: int
  buf_data :: bytes

definition create_buffer :: "int \<Rightarrow> buffer" where
  "create_buffer n = \<lparr>buf_size = n, buf_default = n, buf_data = []\<rparr>"

definition increase_buffer :: "int \<Rightarrow> buffer \<Rightarrow> buffer" where
  "increase_buffer sz b = b\<lparr>buf_size := buf_size b + sz\<rparr>"

definition grow_buffer :: "buffer \<Rightarrow> buffer" where
  "grow_buffer b = increase_buffer (buf_default b) b"

definition shrink_buffer :: "buffer \<Rightarrow> buffer" where
  "shrink_buffer b = b\<lparr>buf_data := [], buf_size := buf_default b\<rparr>"

text \<open>\<open>add_buffer\<close> of a whole text.\<close>

definition add_buffer :: "bytes \<Rightarrow> buffer \<Rightarrow> buffer result" where
  "add_buffer s b =
    (let sz = int (length s); len = int (length (buf_data b)) in
     if sz < 1 then Inr b else
     let b = (if len + sz + 1 > buf_size b then increase_buffer sz b else b) in
     if buf_size b \<le> len + sz then Inl BufferOverflow else Inr (b\<lparr>buf_data := buf_data b @ s\<rparr>))"

text \<open>There is room for the NUL; this is all that \<open>add_buffer\<close> needs.\<close>

definition buf_ok :: "buffer \<Rightarrow> bool" where
  "buf_ok b \<longleftrightarrow> int (length (buf_data b)) < buf_size b"

lemma create_ok [simp]: "buf_ok (create_buffer n) \<longleftrightarrow> 0 < n"
  by (simp add: buf_ok_def create_buffer_def)

lemma create_data [simp]: "buf_data (create_buffer n) = []"
  by (simp add: create_buffer_def)

lemma add_buffer_ok: "buf_ok b \<Longrightarrow> \<exists>b'. add_buffer s b = Inr b' \<and> buf_ok b' \<and> buf_data b' = buf_data b @ s"
  by (cases s) (auto simp: buf_ok_def add_buffer_def Let_def increase_buffer_def)

text \<open>A buffer that was made with no bytes is written behind its end by the first text.\<close>

lemma add_to_nothing: "s \<noteq> [] \<Longrightarrow> add_buffer s (create_buffer 0) = Inl BufferOverflow"
  by (cases s) (auto simp: add_buffer_def create_buffer_def Let_def increase_buffer_def)

end
