(* ===== verification/PageStore.thy ===== *)
theory PageStore
  imports DbAccess UrlNode PageBuffer
begin

text \<open>
  The store of pages, \<open>LocalDbManager\<close> as it is built (pages in the hash databases, fetched addresses in Memcached): the head of a
  record, which lists its pages, the head of each page, and the operations that save, read, complete and erase a record.
\<close>

definition TASKDB_NUM :: int where "TASKDB_NUM = 30"

section \<open>Names\<close>

definition getTaskDB :: "int \<Rightarrow> int" where
  "getTaskDB taskid = (if taskid < 0 then - ((- taskid) mod TASKDB_NUM) else taskid mod TASKDB_NUM)"

definition getContentDBName :: "int \<Rightarrow> bytes" where
  "getContentDBName taskid = bytes_of ''task_'' @ dec_int (getTaskDB taskid)"

definition getUrlDBName :: "int \<Rightarrow> bytes" where
  "getUrlDBName taskid = bytes_of ''url_task_'' @ dec_int (getTaskDB taskid)"

definition getCookieDBName :: bytes where
  "getCookieDBName = bytes_of ''task_cookie''"

definition getCookieKeyName :: "int \<Rightarrow> bytes" where
  "getCookieKeyName taskid = dec_int (getTaskDB taskid)"

definition getRecordKeyName :: "int \<Rightarrow> bytes" where
  "getRecordKeyName uid = dec_int uid"

definition getMemcachedbKeyName :: "int \<Rightarrow> int \<Rightarrow> bytes" where
  "getMemcachedbKeyName uid taskid = dec_int uid @ 47 # dec_int taskid"

section \<open>Heads of records\<close>

text \<open>\<open>ContentPageHead\<close> and \<open>ContentHead\<close>.\<close>

record pagehead =
  ph_id :: int
  ph_offset :: int
  ph_length :: int
  ph_page :: int

record contenthead =
  ch_totallength :: int
  ch_headlength :: int
  ch_totalpage :: int
  ch_nowpage :: int
  ch_taskid :: int
  ch_batchid :: int
  ch_pages :: "pagehead list"

definition PageHead0 :: pagehead where
  "PageHead0 = \<lparr>ph_id = 0, ph_offset = 0, ph_length = 0, ph_page = 1\<rparr>"

definition ContentHead0 :: contenthead where
  "ContentHead0 = \<lparr>ch_totallength = 0, ch_headlength = 0, ch_totalpage = 0, ch_nowpage = 0, ch_taskid = -1, ch_batchid = -1, ch_pages = []\<rparr>"

text \<open>What \<open>sprintf\<close> makes of a format of numbers that each end in a slash; \<open>%d\<close> prints the low 32 bits of a \<open>size_t\<close>.\<close>

definition slashed :: "int list \<Rightarrow> bytes" where
  "slashed xs = concat (map (\<lambda>x. dec_int x @ [47]) xs)"

definition head_fields :: "contenthead \<Rightarrow> int list" where
  "head_fields h = [to_int (ch_totallength h), ch_totalpage h, ch_nowpage h, ch_taskid h, ch_batchid h]"

definition page_fields :: "pagehead \<Rightarrow> int list" where
  "page_fields p = [ph_id p, to_int (ph_offset p), to_int (ph_length p), ph_page p]"

definition sprintf64 :: "bytes \<Rightarrow> bytes result" where
  "sprintf64 t = (if 64 \<le> length t then Inl BufferOverflow else Inr t)"

fun write_pages :: "nat \<Rightarrow> pagehead list \<Rightarrow> buffer \<Rightarrow> buffer result" where
  "write_pages 0 ps b = Inr b"
| "write_pages (Suc n) [] b = Inl OutOfBounds"
| "write_pages (Suc n) (p # ps) b =
    bind_r (sprintf64 (slashed (page_fields p))) (\<lambda>t. bind_r (add_buffer t b) (\<lambda>b. write_pages n ps b))"

definition writeHead :: "contenthead \<Rightarrow> (bytes \<times> contenthead) result" where
  "writeHead h =
    bind_r (sprintf64 (slashed (head_fields h))) (\<lambda>t.
    bind_r (add_buffer t (create_buffer 100)) (\<lambda>b.
    bind_r (write_pages (nat (ch_nowpage h)) (ch_pages h) b) (\<lambda>b.
    let headlength = length (buf_data b);
        t = pad_left 8 (dec_int (to_int (int headlength + 8 + 1))) @ 47 # buf_data b
    in if headlength + 32 \<le> length t then Inl BufferOverflow
       else Inr (t, h\<lparr>ch_headlength := int (length t)\<rparr>))))"

text \<open>
  \<open>sscanf\<close> with a format of numbers that each end in a slash: the numbers that are read before the text stops to match. A width
  bounds the characters of a number, white space in front of it aside.
\<close>

definition scan_number :: "nat \<Rightarrow> bytes \<Rightarrow> (int \<times> bytes) option" where
  "scan_number w s =
    (let s = dropWhile is_space s;
         (neg, n) = (case s of [] \<Rightarrow> (False, 0) | c # _ \<Rightarrow> if c = 45 then (True, 1) else if c = 43 then (False, 1) else (False, 0));
         ds = takeWhile ISDIGIT (take (w - n) (drop n s));
         v = digits_val ds
     in if ds = [] then None else Some (if neg then - v else v, drop (n + length ds) s))"

fun scan_slashed :: "(nat option \<times> (int \<Rightarrow> int)) list \<Rightarrow> bytes \<Rightarrow> int list" where
  "scan_slashed [] s = []"
| "scan_slashed ((w, conv) # fs) s =
    (case scan_number (case w of None \<Rightarrow> length s | Some w \<Rightarrow> w) s of
       None \<Rightarrow> []
     | Some (v, s) \<Rightarrow> conv v # (case s of [] \<Rightarrow> [] | c # s \<Rightarrow> if c = 47 then scan_slashed fs s else []))"

text \<open>The conversions: \<open>%d\<close> into an \<open>int\<close>, into the low half of a \<open>size_t\<close> that is 0, and \<open>%llu\<close>.\<close>

definition conv_d :: "int \<Rightarrow> int" where
  "conv_d v = to_int (max (- (2 ^ 63)) (min v (2 ^ 63 - 1)))"

definition conv_low :: "int \<Rightarrow> int" where
  "conv_low v = conv_d v mod 2 ^ 32"

definition conv_llu :: "int \<Rightarrow> int" where
  "conv_llu v = (if 2 ^ 64 \<le> \<bar>v\<bar> then 2 ^ 64 - 1 else v mod 2 ^ 64)"

definition nth_else :: "'a list \<Rightarrow> nat \<Rightarrow> 'a \<Rightarrow> 'a" where
  "nth_else xs i d = (if i < length xs then xs ! i else d)"

definition scan_head :: "bytes \<Rightarrow> contenthead \<Rightarrow> contenthead" where
  "scan_head buf h =
    (let vs = scan_slashed [(Some 8, conv_low), (None, conv_low), (None, conv_d), (None, conv_d), (None, conv_d), (None, conv_d)] buf
     in h\<lparr>ch_headlength := nth_else vs 0 (ch_headlength h), ch_totallength := nth_else vs 1 (ch_totallength h),
          ch_totalpage := nth_else vs 2 (ch_totalpage h), ch_nowpage := nth_else vs 3 (ch_nowpage h),
          ch_taskid := nth_else vs 4 (ch_taskid h), ch_batchid := nth_else vs 5 (ch_batchid h)\<rparr>)"

definition scan_page :: "bytes \<Rightarrow> pagehead" where
  "scan_page buf =
    (let vs = scan_slashed [(None, conv_llu), (None, conv_low), (None, conv_low), (None, conv_d)] buf
     in \<lparr>ph_id = nth_else vs 0 0, ph_offset = nth_else vs 1 0, ph_length = nth_else vs 2 0, ph_page = nth_else vs 3 1\<rparr>)"

text \<open>Where the next number stands is found by printing what was read.\<close>

definition skip_bytes :: "nat \<Rightarrow> bytes \<Rightarrow> bytes result" where
  "skip_bytes n buf = (if length buf < n then Inl OutOfBounds else Inr (drop n buf))"

fun read_pages :: "nat \<Rightarrow> bytes \<Rightarrow> pagehead list result" where
  "read_pages 0 buf = Inr []"
| "read_pages (Suc n) buf =
    (let p = scan_page buf in
     bind_r (sprintf64 (slashed (page_fields p))) (\<lambda>t.
     bind_r (skip_bytes (length t) buf) (\<lambda>buf.
     bind_r (read_pages n buf) (\<lambda>ps. Inr (p # ps)))))"

definition readHead :: "bytes \<Rightarrow> contenthead \<Rightarrow> contenthead result" where
  "readHead buf h =
    (let h = scan_head buf h in
     bind_r (sprintf64 (pad_left 8 (dec_int (to_int (ch_headlength h))) @ 47 # slashed (head_fields h))) (\<lambda>t.
     bind_r (skip_bytes (length t) buf) (\<lambda>buf.
     if ch_nowpage h < 0 then Inl (Raise BadAlloc) else
     bind_r (read_pages (nat (ch_nowpage h)) buf) (\<lambda>ps. Inr (h\<lparr>ch_pages := ps\<rparr>)))))"

text \<open>\<open>appendPageHead\<close> with the new entry filled in.\<close>

definition appendPageHead :: "pagehead \<Rightarrow> contenthead \<Rightarrow> contenthead" where
  "appendPageHead p h = h\<lparr>ch_pages := take (nat (ch_nowpage h)) (ch_pages h) @ [p], ch_nowpage := ch_nowpage h + 1\<rparr>"

section \<open>Heads of pages\<close>

text \<open>
  What lies outside: the clock, zlib's \<open>compress2\<close> into a buffer of \<open>compressBound\<close> bytes and \<open>uncompress\<close> into one of a given
  size (its code and what it leaves there), and the number of the spider.
\<close>

record pageenv =
  pe_now :: int
  pe_compress :: "bytes \<Rightarrow> bytes"
  pe_uncompress :: "bytes \<Rightarrow> nat \<Rightarrow> int \<times> bytes"
  pe_spiderid :: int

record response =
  rh_contenttype :: bytes
  rh_charset :: bytes

definition page_line :: "string \<Rightarrow> bytes \<Rightarrow> bytes result" where
  "page_line name v =
    (let t = bytes_of name @ [58, 32] @ v @ [10] in if MAX_URL_LEN + 30 \<le> length t then Inl BufferOverflow else Inr t)"

fun page_lines :: "(string \<times> bytes) list \<Rightarrow> bytes result" where
  "page_lines [] = Inr []"
| "page_lines ((name, v) # ls) = bind_r (page_line name v) (\<lambda>t. bind_r (page_lines ls) (\<lambda>ts. Inr (t @ ts)))"

definition writePageHead :: "pageenv \<Rightarrow> urlnode \<Rightarrow> response \<Rightarrow> int \<Rightarrow> bytes result" where
  "writePageHead env node rh contentlength =
    bind_r (page_lines
      [(''contentlength'', dec_int contentlength), (''url'', u_url node), (''page'', dec_int (u_page node)), (''charset'', c_str (rh_charset rh)),
       (''contenttype'', c_str (rh_contenttype rh)), (''id'', dec_int (u_id node)), (''date'', dec_int (pe_now env mod 2 ^ 32)),
       (''fatherurl'', u_fatherurl node), (''title'', u_title node), (''spiderid'', dec_int (pe_spiderid env)), (''topicsource'', u_topicsource node)])
      (\<lambda>ls. Inr (bytes_of ''version: 1.0'' @ [10] @ ls @ [10, 10]))"

section \<open>\<open>inf\<close>\<close>

text \<open>Six tries, each in a buffer of twice the size, the first of twice the size of the source.\<close>

definition Z_BUF_ERROR :: int where "Z_BUF_ERROR = -5"

fun inf_loop :: "(bytes \<Rightarrow> nat \<Rightarrow> int \<times> bytes) \<Rightarrow> bytes \<Rightarrow> nat list \<Rightarrow> int \<times> bytes" where
  "inf_loop unz src [] = (Z_BUF_ERROR, [])"
| "inf_loop unz src (n # ns) = (let (ret, out) = unz src n in if ret = Z_BUF_ERROR \<and> ns \<noteq> [] then inf_loop unz src ns else (ret, out))"

definition inf :: "(bytes \<Rightarrow> nat \<Rightarrow> int \<times> bytes) \<Rightarrow> bytes \<Rightarrow> int \<times> bytes" where
  "inf unz src = inf_loop unz src (map (\<lambda>i. length src * 2 * 2 ^ i) [0..<6])"

section \<open>Saving\<close>

text \<open>\<open>getUrlContent\<close>: what \<open>saveUrl\<close> hands to Memcached under the address.\<close>

definition getUrlContent :: "int \<Rightarrow> urlnode \<Rightarrow> bytes" where
  "getUrlContent now node = dec_int (u_id node) @ 47 # dec_int (u_page node) @ 47 # dec_int (sint (u_errornum node)) @ 47 # dec_int (u_type node)
     @ 47 # dec_int (u_taskid node) @ 47 # dec_int (now mod 2 ^ 32)"

definition saveUrl :: "int \<Rightarrow> bool \<Rightarrow> urlnode \<Rightarrow> bytes \<times> bytes" where
  "saveUrl now savefather node = (if savefather then u_fatherurl node else u_url node, getUrlContent now node)"

text \<open>A record with its first page.\<close>

definition first_page :: "pageenv \<Rightarrow> urlnode \<Rightarrow> response \<Rightarrow> bytes \<Rightarrow> int \<Rightarrow> bytes result" where
  "first_page env node rh content nextpage =
    bind_r (writePageHead env node rh (int (length content))) (\<lambda>pagehead.
    let p = \<lparr>ph_id = u_id node, ph_offset = 0, ph_length = int (length pagehead + length content), ph_page = u_page node\<rparr>;
        h = \<lparr>ch_totallength = ph_length p, ch_headlength = 0, ch_totalpage = nextpage, ch_nowpage = 1, ch_taskid = u_taskid node,
          ch_batchid = u_taskbatch node, ch_pages = [p]\<rparr>
    in bind_r (writeHead h) (\<lambda>(headbuf, h). Inr (headbuf @ pe_compress env (pagehead @ content))))"

text \<open>
  A record with one page more, from the record that was fetched: \<open>None\<close> when it has the page. The compressed pages are taken to reach
  to \<open>datlen\<close>, the size of the place of the record, which the buffer of the data may not have.
\<close>

definition next_page :: "pageenv \<Rightarrow> urlnode \<Rightarrow> response \<Rightarrow> bytes \<Rightarrow> dbd \<Rightarrow> (bytes \<times> int) option result" where
  "next_page env node rh content d =
    (case datbuf d of
       None \<Rightarrow> Inl NullDeref
     | Some buf \<Rightarrow>
         bind_r (readHead buf ContentHead0) (\<lambda>h.
         if list_ex (\<lambda>p. ph_id p = u_id node \<and> ph_page p = u_page node) (ch_pages h) then Inr None else
         bind_r (writePageHead env node rh (int (length content))) (\<lambda>pagehead.
         if datlen d < ch_headlength h \<or> int (length buf) + 2 < datlen d then Inl OutOfBounds else
         let src = take (nat (datlen d - ch_headlength h)) (drop (nat (ch_headlength h)) (buf @ [0, 0]));
             tmp = snd (inf (pe_uncompress env) src);
             newcontent = tmp @ pagehead @ content;
             n = int (length content + length pagehead);
             h = h\<lparr>ch_totalpage := ch_totalpage h + 1, ch_totallength := ch_totallength h + n\<rparr>;
             h = appendPageHead \<lparr>ph_id = u_id node, ph_offset = int (length tmp), ph_length = n, ph_page = u_page node\<rparr> h
         in bind_r (writeHead h) (\<lambda>(headbuf, h).
            if int (length newcontent) < ch_totallength h then Inl OutOfBounds
            else Inr (Some (headbuf @ pe_compress env (take (nat (ch_totallength h)) newcontent), ch_nowpage h))))))"

text \<open>\<open>savecontent\<close>: the node with its \<open>nowpage\<close>, what goes to Memcached, if anything, and the databases.\<close>

definition savecontent :: "pageenv \<Rightarrow> urlnode \<Rightarrow> response \<Rightarrow> bytes \<Rightarrow> int \<Rightarrow> dbaccess \<Rightarrow> (urlnode \<times> (bytes \<times> bytes) option \<times> dbaccess) result" where
  "savecontent env node rh content nextpage acc =
    (let now = pe_now env; key = getRecordKeyName (u_id node) in
     bind_r (load_table now (getContentDBName (u_taskid node)) acc) (\<lambda>(tab, acc).
     bind_r (load_table now (getUrlDBName (u_taskid node)) acc) (\<lambda>(_, acc).
     bind_r (acc_get now tab [] key None acc) (\<lambda>((d, fileno, _), acc).
     bind_r (case d of
         None \<Rightarrow> bind_r (first_page env node rh content nextpage) (\<lambda>data. Inr (Some (data, 1)))
       | Some d \<Rightarrow> next_page env node rh content d) (\<lambda>r.
     case r of
       None \<Rightarrow> Inr (node, None, acc)
     | Some (data, nowpage) \<Rightarrow>
         let node = node\<lparr>u_nowpage := nowpage\<rparr> in
         bind_r (acc_store now tab key data fileno None acc) (\<lambda>((ret, _, _), acc).
           Inr (node, if ret = 0 \<or> ret = 1 then Some (saveUrl now False node) else None, acc)))))))"

section \<open>Reading, completing and erasing\<close>

text \<open>\<open>readContent\<close>: only a record with as many pages as it expects.\<close>

definition readContent :: "int \<Rightarrow> int \<Rightarrow> int \<Rightarrow> dbaccess \<Rightarrow> (dbd option \<times> dbaccess) result" where
  "readContent now uid taskid acc =
    bind_r (load_table now (getContentDBName taskid) acc) (\<lambda>(tab, acc).
    bind_r (acc_get now tab [] (getRecordKeyName uid) None acc) (\<lambda>((d, _, _), acc).
      case d of
        None \<Rightarrow> Inr (None, acc)
      | Some d \<Rightarrow>
          (case datbuf d of
             None \<Rightarrow> Inl NullDeref
           | Some buf \<Rightarrow>
               bind_r (readHead buf ContentHead0) (\<lambda>h.
                 Inr (if ch_totalpage h \<noteq> ch_nowpage h then None else Some d, acc)))))"

text \<open>\<open>altertotalpageforced\<close>: the pages that are there are all that will come.\<close>

definition complete_record :: "bytes \<Rightarrow> bytes result" where
  "complete_record buf =
    bind_r (readHead buf ContentHead0) (\<lambda>h.
    let lastlength = ch_headlength h in
    bind_r (writeHead (h\<lparr>ch_totalpage := ch_nowpage h\<rparr>)) (\<lambda>(headbuf, h).
      if int (length buf) < lastlength then Inl OutOfBounds
      else if int (length buf) + 100 < int (length buf) - lastlength + ch_headlength h then Inl BufferOverflow
      else Inr (headbuf @ drop (nat lastlength) buf)))"

definition altertotalpageforced :: "int \<Rightarrow> urlnode \<Rightarrow> dbaccess \<Rightarrow> dbaccess result" where
  "altertotalpageforced now node acc =
    (let key = getRecordKeyName (u_id node) in
     bind_r (load_table now (getContentDBName (u_taskid node)) acc) (\<lambda>(tab, acc).
     bind_r (load_table now (getUrlDBName (u_taskid node)) acc) (\<lambda>(_, acc).
     bind_r (acc_get now tab [] key None acc) (\<lambda>((d, fileno, _), acc).
       case d of
         None \<Rightarrow> Inr acc
       | Some d \<Rightarrow>
           (case datbuf d of
              None \<Rightarrow> Inl NullDeref
            | Some buf \<Rightarrow>
                bind_r (complete_record buf) (\<lambda>data.
                bind_r (acc_store now tab key data fileno None acc) (\<lambda>(_, acc). Inr acc)))))))"

definition erasecontent_db :: "int \<Rightarrow> int \<Rightarrow> int \<Rightarrow> dbaccess \<Rightarrow> (int \<times> dbaccess) result" where
  "erasecontent_db now uid taskid acc =
    bind_r (load_table now (getContentDBName taskid) acc) (\<lambda>(tab, acc).
    bind_r (acc_get now tab [] (getRecordKeyName uid) None acc) (\<lambda>((d, fileno, _), acc).
      case d of
        None \<Rightarrow> Inr (-1, acc)
      | Some _ \<Rightarrow> acc_erase now tab (getRecordKeyName uid) fileno acc))"

definition find_in_db :: "int \<Rightarrow> int \<Rightarrow> int \<Rightarrow> dbaccess \<Rightarrow> (bool \<times> dbaccess) result" where
  "find_in_db now taskid uid acc =
    bind_r (load_table now (getContentDBName taskid) acc) (\<lambda>(tab, acc).
    bind_r (acc_get now tab [] (getRecordKeyName uid) None acc) (\<lambda>((d, _, _), acc). Inr (d \<noteq> None, acc)))"

text \<open>\<open>erasecontent\<close> for a page that is not in memory: the arguments of \<open>erasecontent_db\<close> are the wrong way round, and cut to their types.\<close>

definition erasecontent :: "int \<Rightarrow> int \<Rightarrow> int \<Rightarrow> dbaccess \<Rightarrow> (int \<times> dbaccess) result" where
  "erasecontent now uid taskid acc =
    bind_r (find_in_db now taskid uid acc) (\<lambda>(there, acc).
      if there then bind_r (erasecontent_db now (taskid mod 2 ^ 64) (to_int uid) acc) (\<lambda>(_, acc). Inr (0, acc)) else Inr (0, acc))"

section \<open>Cookies\<close>

definition readCookie :: "int \<Rightarrow> int \<Rightarrow> dbaccess \<Rightarrow> (dbd option \<times> dbaccess) result" where
  "readCookie now taskid acc =
    bind_r (load_table now getCookieDBName acc) (\<lambda>(tab, acc).
    bind_r (acc_get now tab [] (getCookieKeyName taskid) None acc) (\<lambda>((d, _, _), acc). Inr (d, acc)))"

definition savecookiecontent :: "int \<Rightarrow> bytes \<Rightarrow> int \<Rightarrow> dbaccess \<Rightarrow> (int \<times> dbaccess) result" where
  "savecookiecontent now content taskid acc =
    bind_r (load_table now getCookieDBName acc) (\<lambda>(tab, acc).
    bind_r (acc_get now tab [] (getCookieKeyName taskid) None acc) (\<lambda>((_, fileno, _), acc).
    bind_r (acc_store now tab (getCookieKeyName taskid) content fileno None acc) (\<lambda>(_, acc). Inr (0, acc))))"

end
