(* ===== verification/DbAccessProps.thy ===== *)
theory DbAccessProps
  imports DbAccess
begin

text \<open>
  A table of several databases is one map: a key is looked up in the databases in the order of the configuration. What is stored is
  what is fetched, whichever database it went to; what is erased without a file name is only erased from the first of them.
\<close>

section \<open>Sorted maps and names\<close>

lemma smap_new_split: "\<exists>xs ys. m = xs @ ys \<and> smap_new k v m = xs @ (k, v) # ys"
proof (induction k v m rule: smap_new.induct)
  case (2 k v l w m)
  show ?case
  proof (cases "bytes_less k l")
    case True
    then show ?thesis by (intro exI [of _ "[]"] exI [of _ "(l, w) # m"]) simp
  next
    case False
    then obtain xs ys where "m = xs @ ys" "smap_new k v m = xs @ (k, v) # ys" using 2 by blast
    then show ?thesis using False by (intro exI [of _ "(l, w) # xs"] exI [of _ ys]) simp
  qed
qed simp

lemma map_of_smap_new [simp]: "map_of m k = None \<Longrightarrow> map_of (smap_new k v m) = (map_of m)(k \<mapsto> v)"
  by (induction k v m rule: smap_new.induct) (auto simp: fun_eq_iff split: if_splits)

lemma map_of_replace: "map_of (map (\<lambda>(l, w). (l, if l = k then v else w)) m) x = (if x = k \<and> map_of m k \<noteq> None then Some v else map_of m x)"
  by (induction m) auto

lemma map_of_smap_put [simp]: "map_of (smap_put k v m) = (map_of m)(k \<mapsto> v)"
  by (auto simp: smap_put_def map_of_replace fun_eq_iff)

lemma length_smap_new [simp]: "length (smap_new k v m) = Suc (length m)"
  by (induction k v m rule: smap_new.induct) auto

lemma length_smap_put: "length (smap_put k v m) = (if map_of m k = None then Suc (length m) else length m)"
  by (simp add: smap_put_def)

lemma dec_nat_inj: "dec_nat m = dec_nat n \<Longrightarrow> m = n"
  by (metis digits_val_dec_nat of_nat_eq_iff)

lemma radix_digits_dec: "map ((!) dig_vec_lower) (radix_digits 10 n) = dec_nat n"
proof (induction n rule: dec_nat.induct)
  case (1 n)
  have d: "d < 10 \<Longrightarrow> dig_vec_lower ! d = 48 + of_nat d" for d using dig_vec_decimal [of d False] by (simp add: dig_vec_def)
  show ?case
    using 1 d [of n] d [of "n mod 10"] by (cases "n < 10") (simp_all add: dec_nat.simps [of n] radix_digits_small radix_digits_big)
qed

lemma dec_text_nat: "n < 2 ^ 63 \<Longrightarrow> dec_text (int n) = Inr (dec_nat n)"
  using int2str_value [of 10 "int n" False] by (simp add: dec_text_def radix_digits_dec)

section \<open>The maps of a table\<close>

definition names :: "dbaccesstype \<Rightarrow> bytes list" where
  "names t = map fst (databases_conf t)"

fun look_up :: "(bytes \<Rightarrow> bytes \<Rightarrow> bytes option) \<Rightarrow> bytes list \<Rightarrow> bytes \<Rightarrow> bytes option" where
  "look_up M [] k = None"
| "look_up M (f # fs) k = (case M f k of Some v \<Rightarrow> Some v | None \<Rightarrow> look_up M fs k)"

lemma look_up_cong: "(\<And>f. f \<in> set fs \<Longrightarrow> M f k = M' f k) \<Longrightarrow> look_up M fs k = look_up M' fs k"
  by (induction fs) (auto split: option.splits)

lemma look_up_append: "look_up M (fs @ gs) k = (case look_up M fs k of Some v \<Rightarrow> Some v | None \<Rightarrow> look_up M gs k)"
  by (induction fs) (auto split: option.splits)

lemma look_up_none: "(\<And>f. f \<in> set fs \<Longrightarrow> M f k = None) \<Longrightarrow> look_up M fs k = None"
  by (induction fs) (auto split: option.splits)

text \<open>The open databases of a list hold maps.\<close>

definition open_maps :: "nat \<Rightarrow> bytes list \<Rightarrow> dbaccesstype \<Rightarrow> (bytes \<Rightarrow> bytes \<Rightarrow> bytes option) \<Rightarrow> bool" where
  "open_maps c fs t M \<longleftrightarrow> (\<forall>f\<in>set fs. \<exists>db. map_of (dbs t) f = Some (Some db) \<and> holds_map c db (M f))"

text \<open>Two tables that differ in the contents of open databases at most.\<close>

definition same_table :: "dbaccesstype \<Rightarrow> dbaccesstype \<Rightarrow> bool" where
  "same_table t t' \<longleftrightarrow> (\<exists>d. t' = t\<lparr>dbs := d\<rparr> \<and> length d = length (dbs t))"

lemma same_table_refl [simp]: "same_table t t"
  unfolding same_table_def by (intro exI [of _ "dbs t"]) simp

lemma same_table_trans: "same_table t t' \<Longrightarrow> same_table t' t'' \<Longrightarrow> same_table t t''"
  by (auto simp: same_table_def)

lemma same_tableD: "same_table t t' \<Longrightarrow> databases_conf t' = databases_conf t \<and> count_of_database t' = count_of_database t
    \<and> db_conf t' = db_conf t \<and> tablename t' = tablename t \<and> length (dbs t') = length (dbs t) \<and> names t' = names t"
  by (auto simp: same_table_def names_def)

lemma set_db_same: "map_of (dbs t) f \<noteq> None \<Longrightarrow> same_table t (set_db f db t)"
  by (auto simp: same_table_def set_db_def length_smap_put)

lemma set_db_maps: "open_maps c fs t M \<Longrightarrow> holds_map c db m \<Longrightarrow> open_maps c fs (set_db f db t) (M(f := m))"
  by (auto simp: open_maps_def set_db_def)

lemma set_db_map_of [simp]: "map_of (dbs (set_db f db t)) = (map_of (dbs t))(f \<mapsto> Some db)"
  by (simp add: set_db_def)

text \<open>Offering a record to one database.\<close>

definition crowded :: "hdb \<Rightarrow> bytes \<Rightarrow> bool" where
  "crowded db data \<longleftrightarrow> \<not> (length (datfile db) + length data \<le> 2000000000 \<and> length (idxfile db) + 4109 \<le> 999995999)"

lemma no_room_crowded: "holds_map c db m \<Longrightarrow> good_key c key \<Longrightarrow> \<not> room db key data \<Longrightarrow> crowded db data"
  unfolding crowded_def using room_enough [of c db m data key] by blast

lemma replace_or_insert_outcome:
  assumes h: "holds_map c db m" and k: "good_key c key" and data: "length data \<le> 2097152"
  shows "\<exists>r db' m'. replace_or_insert key data None db = Inr (r, None, db') \<and> holds_map c db' m'
    \<and> (\<forall>l. l \<noteq> key \<longrightarrow> m' l = m l) \<and> (r = 0 \<and> m' key = Some data \<or> r = 2 \<and> m' key = None \<and> crowded db data)"
proof (cases "m key")
  case None
  obtain a db' where 1: "db_store db key data DB_REPLACE None = Inr (a, None, db')" "a = -1" "holds_map c db' m" "sizes db' = sizes db"
    using store_outcome [OF h k data, of DB_REPLACE] None by auto
  obtain b db'' where 2: "db_store db' key data DB_INSERT None = Inr (b, None, db'')"
    "b = 0 \<and> holds_map c db'' (m(key := Some data)) \<or> b = 2 \<and> \<not> room db' key data \<and> holds_map c db'' (m(key := None))"
    using store_outcome [OF 1(3) k data, of DB_INSERT] None by auto
  have "crowded db' data = crowded db data" using 1(4) by (simp add: crowded_def sizes_def)
  then have "b = 2 \<Longrightarrow> crowded db data" using 2(2) no_room_crowded [OF 1(3) k] by auto
  then show ?thesis using 1 2 by (auto simp: replace_or_insert_def)
next
  case (Some v)
  obtain a db' where 1: "db_store db key data DB_REPLACE None = Inr (a, None, db')"
    "a = 0 \<and> holds_map c db' (m(key := Some data)) \<or> a = 2 \<and> \<not> room db key data \<and> holds_map c db' (m(key := None))"
    using store_outcome [OF h k data, of DB_REPLACE] Some by auto
  then show ?thesis using no_room_crowded [OF h k] by (auto simp: replace_or_insert_def)
qed

text \<open>Offering it to all of them in turn.\<close>

lemma store_anywhere_outcome:
  assumes "good_key c key" "length data \<le> 2097152" "distinct fs" "set fs \<subseteq> set all" "open_maps c all t M"
  shows "\<exists>r t' M'. store_anywhere now dir disk key data fs None t = Inr (r, None, t') \<and> same_table t t' \<and> open_maps c all t' M'
    \<and> (\<forall>f l. l \<noteq> key \<or> f \<notin> set fs \<longrightarrow> M' f l = M f l)
    \<and> (case r of None \<Rightarrow> \<forall>f\<in>set fs. M' f key = None
        | Some (v, g) \<Rightarrow> \<exists>f xs ys. v = 1 \<and> g = Some f \<and> fs = xs @ f # ys \<and> M' f key = Some data \<and> (\<forall>x\<in>set xs. M' x key = None))"
  using assms(3-)
proof (induction fs arbitrary: t M)
  case Nil
  then show ?case by auto
next
  case (Cons f fs)
  obtain db where db: "map_of (dbs t) f = Some (Some db)" "holds_map c db (M f)" using Cons.prems(2,3) by (auto simp: open_maps_def)
  obtain r db' m' where r: "replace_or_insert key data None db = Inr (r, None, db')" "holds_map c db' m'" "\<forall>l. l \<noteq> key \<longrightarrow> m' l = M f l"
    "r = 0 \<and> m' key = Some data \<or> r = 2 \<and> m' key = None"
    using replace_or_insert_outcome [OF db(2) assms(1,2)] by blast
  have t1: "open_maps c all (set_db f db' t) (M(f := m'))" "same_table t (set_db f db' t)"
    using set_db_maps [OF Cons.prems(3) r(2)] set_db_same [of t f] db(1) by auto
  have st: "store_anywhere now dir disk key data (f # fs) None t =
      (if r = 0 then Inr (Some (1, Some f), None, set_db f db' t)
       else if r = 3 then Inr (Some (2, None), None, set_db f db' t)
       else store_anywhere now dir disk key data fs None (set_db f db' t))"
    by (simp add: listed_db_def table_db_def db(1) r(1) Let_def)
  show ?case
  proof (cases "r = 0")
    case True
    then have "m' key = Some data" using r(4) by auto
    then have "\<exists>g xs ys. (1 :: int) = 1 \<and> Some f = Some g \<and> f # fs = xs @ g # ys \<and> (M(f := m')) g key = Some data \<and> (\<forall>x\<in>set xs. (M(f := m')) x key = None)"
      by (intro exI [of _ f] exI [of _ "[]"] exI [of _ fs]) simp
    moreover have "\<forall>g l. l \<noteq> key \<or> g \<notin> set (f # fs) \<longrightarrow> (M(f := m')) g l = M g l" using r(3) by auto
    ultimately show ?thesis unfolding st using True t1
      by (intro exI [of _ "Some (1, Some f)"] exI [of _ "set_db f db' t"] exI [of _ "M(f := m')"]) (simp del: fun_upd_apply)
  next
    case False
    then have rr: "r = 2" "m' key = None" using r(4) by auto
    have df: "distinct fs" "set fs \<subseteq> set all" using Cons.prems(1,2) by auto
    obtain s t' M' where IH: "store_anywhere now dir disk key data fs None (set_db f db' t) = Inr (s, None, t')" "same_table (set_db f db' t) t'"
      "open_maps c all t' M'" "\<forall>g l. l \<noteq> key \<or> g \<notin> set fs \<longrightarrow> M' g l = (M(f := m')) g l"
      "case s of None \<Rightarrow> \<forall>g\<in>set fs. M' g key = None
        | Some (v, h) \<Rightarrow> \<exists>g xs ys. v = 1 \<and> h = Some g \<and> fs = xs @ g # ys \<and> M' g key = Some data \<and> (\<forall>x\<in>set xs. M' x key = None)"
      using Cons.IH [OF df t1(1)] by blast
    have mf: "M' f key = None" using IH(4) Cons.prems(1) rr(2) by auto
    have old: "\<forall>g l. l \<noteq> key \<or> g \<notin> set (f # fs) \<longrightarrow> M' g l = M g l" using IH(4) r(3) by auto
    have "case s of None \<Rightarrow> \<forall>g\<in>set (f # fs). M' g key = None
        | Some (v, h) \<Rightarrow> \<exists>g xs ys. v = 1 \<and> h = Some g \<and> f # fs = xs @ g # ys \<and> M' g key = Some data \<and> (\<forall>x\<in>set xs. M' x key = None)"
    proof (cases s)
      case None
      then show ?thesis using IH(5) mf by simp
    next
      case (Some vh)
      then obtain g xs ys where g: "vh = (1, Some g)" "fs = xs @ g # ys" "M' g key = Some data" "\<forall>x\<in>set xs. M' x key = None"
        using IH(5) by (cases vh) auto
      have "f # fs = (f # xs) @ g # ys" "\<forall>x\<in>set (f # xs). M' x key = None" using g(2,4) mf by auto
      then show ?thesis unfolding Some g(1) option.case prod.case using g(3) by blast
    qed
    then show ?thesis unfolding st using rr(1) IH(1,3) old same_table_trans [OF t1(2) IH(2)] by auto
  qed
qed

section \<open>A new database\<close>

definition fileno_of :: "dbaccesstype \<Rightarrow> nat \<Rightarrow> bytes" where
  "fileno_of t i = dec_nat ((i + 1) div 1000) @ 47 # tablename t @ 46 # dec_nat i"

lemma dec_nat_no: "x \<in> set (dec_nat i) \<Longrightarrow> x \<noteq> 46 \<and> x \<noteq> 0"
  using dec_nat_digits [of x i] by (auto simp: ISDIGIT_def)

lemma after_dot: "xs @ 46 # ys = xs' @ 46 # ys' \<Longrightarrow> 46 \<notin> set ys \<Longrightarrow> 46 \<notin> set ys' \<Longrightarrow> ys = (ys' :: bytes)"
proof (induction ys arbitrary: ys' rule: rev_induct)
  case Nil
  then show ?case by (cases ys' rule: rev_cases) auto
next
  case (snoc y ys)
  show ?case
  proof (cases ys' rule: rev_cases)
    case Nil
    then show ?thesis using snoc.prems by auto
  next
    case (snoc ys'' y')
    have "(xs @ 46 # ys) @ [y] = (xs' @ 46 # ys'') @ [y']" using snoc.prems(1) snoc by simp
    then have "xs @ 46 # ys = xs' @ 46 # ys'' \<and> y = y'" by (simp only: append1_eq_conv)
    then show ?thesis using snoc.IH snoc.prems snoc by auto
  qed
qed

lemma fileno_inj: "fileno_of t i = fileno_of t j \<Longrightarrow> i = j"
proof -
  assume e: "fileno_of t i = fileno_of t j"
  have "(dec_nat ((i + 1) div 1000) @ 47 # tablename t) @ 46 # dec_nat i = (dec_nat ((j + 1) div 1000) @ 47 # tablename t) @ 46 # dec_nat j"
    using e by (simp add: fileno_of_def)
  then show "i = j" using after_dot dec_nat_no dec_nat_inj by blast
qed

lemma new_fileno_value: "count_of_database t = int n \<Longrightarrow> n < 2 ^ 31 \<Longrightarrow> new_fileno t = Inr (fileno_of t n)"
proof -
  assume n: "count_of_database t = int n" "n < 2 ^ 31"
  have d: "(int n + 1) div MAX_DATABASES_PER_DIR = int ((n + 1) div 1000)" by (simp add: MAX_DATABASES_PER_DIR_def zdiv_int)
  have "(n + 1) div 1000 < 2 ^ 63" using n(2) by simp
  then show ?thesis using n dec_text_nat [of "(n + 1) div 1000"] dec_text_nat [of n] by (simp add: new_fileno_def d fileno_of_def)
qed

lemma fileno_good: "n \<le> 100 \<Longrightarrow> 6 \<le> length (tablename t) \<Longrightarrow> length (tablename t) \<le> 80 \<Longrightarrow> 0 \<notin> set (tablename t) \<Longrightarrow> good_key 2 (fileno_of t n)"
proof -
  assume a: "n \<le> 100" "6 \<le> length (tablename t)" "length (tablename t) \<le> 80" "0 \<notin> set (tablename t)"
  have l: "length (dec_nat n) \<le> 3" using a(1) by (intro length_dec_nat [of n 2, simplified]) simp
  have "(n + 1) div 1000 = 0" using a(1) by simp
  then have d: "dec_nat ((n + 1) div 1000) = [48]" by (simp only: dec_nat.simps [of 0]) simp
  have "1 \<le> length (dec_nat n)" by (cases "dec_nat n") (use dec_nat_ne in auto)
  then have "10 \<le> length (fileno_of t n)" "length (fileno_of t n) < 100" using a l unfolding fileno_of_def d by simp_all
  then have "digits (length (fileno_of t n)) = 2" by (simp add: digits_def dec_nat.simps [of "length (fileno_of t n)"] dec_nat.simps [of "length (fileno_of t n) div 10"] div_less_iff_less_mult)
  moreover have "0 \<notin> set (fileno_of t n)" using a(4) dec_nat_no [of 0 n] unfolding fileno_of_def d by auto
  ultimately show ?thesis using \<open>length (fileno_of t n) < 100\<close> by (simp add: good_key_def)
qed

text \<open>A table in order: its configuration, its open databases and the files that are free for new ones.\<close>

definition tab_ok :: "nat \<Rightarrow> bytes \<Rightarrow> db_files \<Rightarrow> dbaccesstype \<Rightarrow> (bytes \<Rightarrow> bytes \<Rightarrow> bytes option) \<Rightarrow> bool" where
  "tab_ok c dir disk t M \<longleftrightarrow> distinct (names t) \<and> open_maps c (names t) t M \<and> count_of_database t = int (length (names t))
     \<and> (\<forall>f\<in>set (names t). \<exists>i<length (names t). f = fileno_of t i) \<and> (\<exists>m. holds_map 2 (db_conf t) m)
     \<and> 6 \<le> length (tablename t) \<and> length (tablename t) \<le> 80 \<and> 0 \<notin> set (tablename t)
     \<and> (\<forall>i\<ge>length (names t). \<forall>p. getPath dir (fileno_of t i) (Some (tablename t)) = Inr p \<longrightarrow> disk p = None)"

lemma tab_okD:
  assumes "tab_ok c dir disk t M"
  shows "distinct (names t)" "open_maps c (names t) t M" "count_of_database t = int (length (names t))"
    "f \<in> set (names t) \<Longrightarrow> \<exists>i<length (names t). f = fileno_of t i" "\<exists>m. holds_map 2 (db_conf t) m"
    "6 \<le> length (tablename t)" "length (tablename t) \<le> 80" "0 \<notin> set (tablename t)"
    "length (names t) \<le> i \<Longrightarrow> getPath dir (fileno_of t i) (Some (tablename t)) = Inr p \<Longrightarrow> disk p = None"
  using assms unfolding tab_ok_def by blast+

lemma tab_ok_same:
  assumes "tab_ok c dir disk t M" "same_table t t'" "open_maps c (names t) t' M'"
  shows "tab_ok c dir disk t' M'"
proof -
  have "fileno_of t' = fileno_of t" using same_tableD [OF assms(2)] by (simp add: fileno_of_def fun_eq_iff)
  then show ?thesis using assms(1,3) same_tableD [OF assms(2)] by (simp add: tab_ok_def)
qed

lemma names_open: "open_maps c (names t) t M \<Longrightarrow> distinct (names t) \<Longrightarrow> length (names t) \<le> length (dbs t)"
proof -
  assume o: "open_maps c (names t) t M" and d: "distinct (names t)"
  have "set (names t) \<subseteq> fst ` set (dbs t)"
  proof
    fix f assume "f \<in> set (names t)"
    then have "map_of (dbs t) f \<noteq> None" using o by (auto simp: open_maps_def)
    then show "f \<in> fst ` set (dbs t)" by (simp add: map_of_eq_None_iff)
  qed
  then have "card (set (names t)) \<le> card (fst ` set (dbs t))" by (intro card_mono) auto
  also have "\<dots> \<le> length (dbs t)" by (meson card_image_le card_length finite_set le_trans)
  finally show ?thesis using d by (simp add: distinct_card)
qed

lemma getPath_ok: "\<exists>p. getPath dir f h = Inr p"
  by (simp add: getPath_def my_hash_def MAX_DB_DIR_def)

lemma open_new_file:
  "disk path = None \<Longrightarrow> \<exists>db. db_open (disk path) = Inr db \<and> holds_map c db (\<lambda>_. None) \<and> length (datfile db) = 0 \<and> length (idxfile db) = 14155831"
  using empty_holds [of NHASH_DEF c] by (auto simp: db_open_def NHASH_DEF_def sizes_def)

lemma store_holds:
  assumes "holds_map c db m" "good_key c k" "length data \<le> 2097152"
  shows "\<exists>a db' m'. db_store db k data flag None = Inr (a, None, db') \<and> holds_map c db' m'"
  using store_outcome [OF assms, of flag] by (elim exE conjE) (auto split: if_splits)

lemma openNewDB_outcome:
  assumes ok: "tab_ok c dir disk t M" and len: "length (dbs t) \<le> 100" and now: "0 \<le> now" "now < 2 ^ 63"
  shows "\<exists>f t' db xs ys. openNewDB now dir disk t = Inr (f, t') \<and> tab_ok c dir disk t' (M(f := \<lambda>_. None)) \<and> f \<notin> set (names t)
    \<and> map_of (dbs t') f = Some (Some db) \<and> length (datfile db) = 0 \<and> length (idxfile db) = 14155831
    \<and> names t = xs @ ys \<and> names t' = xs @ f # ys \<and> length (dbs t') \<le> Suc (length (dbs t))"
proof -
  define n where "n = length (names t)"
  define f where "f = fileno_of t n"
  have n: "n \<le> 100" using names_open [OF tab_okD(2,1) [OF ok]] len by (simp add: n_def)
  have nf: "new_fileno t = Inr f" using new_fileno_value [of t n] tab_okD(3) [OF ok] n by (simp add: n_def f_def)
  have good: "good_key 2 f" unfolding f_def using fileno_good [OF n tab_okD(6-8) [OF ok]] .
  then have cf: "c_str f = f" by (simp add: good_key_def)
  obtain path where path: "getPath dir f (Some (tablename t)) = Inr path" using getPath_ok by blast
  have "disk path = None" using tab_okD(9) [OF ok _ path [unfolded f_def]] by (simp add: n_def)
  then obtain db where db: "db_open (disk path) = Inr db" "holds_map c db (\<lambda>_. None)" "length (datfile db) = 0" "length (idxfile db) = 14155831"
    using open_new_file [of disk path c] by blast
  have "now = int (nat now)" "nat now < 2 ^ 63" using now by (simp_all add: nat_less_iff)
  then have time: "dec_text now = Inr (dec_nat (nat now))" using dec_text_nat [of "nat now"] by argo
  have "nat now < 10 ^ Suc 19" using now by (simp add: nat_less_iff)
  then have "length (dec_nat (nat now)) \<le> 20" using length_dec_nat [of "nat now" 19] by simp
  then have small: "length (dec_nat (nat now)) \<le> 2097152" by simp
  obtain mc where mc: "holds_map 2 (db_conf t) mc" using tab_okD(5) [OF ok] by blast
  obtain a conf m where conf: "db_store (db_conf t) f (dec_nat (nat now)) DB_INSERT None = Inr (a, None, conf)" "holds_map 2 conf m"
    using store_holds [OF mc good small] by blast
  have new: "f \<notin> set (names t)" using tab_okD(4) [OF ok] fileno_inj by (auto simp: f_def n_def)
  then have nm: "map_of (databases_conf t) f = None" by (simp add: names_def map_of_eq_None_iff)
  obtain xs ys where split: "databases_conf t = xs @ ys" "smap_insert f (dec_nat (nat now)) (databases_conf t) = xs @ (f, dec_nat (nat now)) # ys"
    using smap_new_split [of "databases_conf t" f "dec_nat (nat now)"] nm by (auto simp: smap_insert_def)
  define t1 where "t1 = t\<lparr>databases_conf := xs @ (f, dec_nat (nat now)) # ys, db_conf := conf\<rparr>"
  define t' where "t' = (set_db f db t1)\<lparr>count_of_database := count_of_database t + 1\<rparr>"
  have run: "openNewDB now dir disk t = Inr (f, t')"
    using len by (simp add: openNewDB_def nf path db(1) time split(2) cf conf(1) open_db_def TOP_DATABASES_def t'_def t1_def set_db_def)
  have nt: "names t = map fst xs @ map fst ys" "names t' = map fst xs @ f # map fst ys"
    using split(1) by (simp_all add: names_def t'_def t1_def set_db_def)
  have same: "fileno_of t' = fileno_of t" "tablename t' = tablename t" by (simp_all add: t'_def t1_def set_db_def fileno_of_def fun_eq_iff)
  have "open_maps c (names t') t' (M(f := \<lambda>_. None))"
    using tab_okD(2) [OF ok] db(2) new nt by (auto simp: open_maps_def t'_def t1_def set_db_def)
  moreover have "\<exists>i<length (names t'). g = fileno_of t i" if "g \<in> set (names t')" for g
  proof (cases "g = f")
    case True
    then show ?thesis using nt by (intro exI [of _ n]) (simp add: n_def f_def)
  next
    case False
    then have "g \<in> set (names t)" using that nt by auto
    then obtain i where "i < length (names t)" "g = fileno_of t i" using tab_okD(4) [OF ok] by blast
    then show ?thesis using nt by (intro exI [of _ i]) simp
  qed
  moreover have "disk p = None" if "length (names t') \<le> i" "getPath dir (fileno_of t i) (Some (tablename t)) = Inr p" for i p
  proof (rule tab_okD(9) [OF ok _ that(2)])
    show "length (names t) \<le> i" using that(1) nt by simp
  qed
  moreover have "distinct (names t')" using tab_okD(1) [OF ok] new nt by auto
  moreover have "count_of_database t' = int (length (names t'))" using tab_okD(3) [OF ok] nt by (simp add: t'_def)
  moreover have "\<exists>m. holds_map 2 (db_conf t') m" using conf(2) by (auto simp: t'_def t1_def set_db_def)
  ultimately have "tab_ok c dir disk t' (M(f := \<lambda>_. None))"
    unfolding tab_ok_def same using tab_okD(6-8) [OF ok] by blast
  moreover have "length (dbs t') \<le> Suc (length (dbs t))" by (simp add: t'_def t1_def set_db_def length_smap_put)
  moreover have "map_of (dbs t') f = Some (Some db)" by (simp add: t'_def set_db_def)
  ultimately show ?thesis using run new db(3,4) nt by blast
qed

lemma store_new_outcome:
  assumes ok: "tab_ok c dir disk t M" and len: "length (dbs t) \<le> 100" and now: "0 \<le> now" "now < 2 ^ 63"
    and k: "good_key c key" and data: "length data \<le> 2097152"
  shows "\<exists>f t' xs ys M'. store_new now dir disk key data None t = Inr (1, f, None, t') \<and> tab_ok c dir disk t' M' \<and> f \<notin> set (names t)
    \<and> names t = xs @ ys \<and> names t' = xs @ f # ys \<and> M' = M(f := [key \<mapsto> data]) \<and> length (dbs t') \<le> Suc (length (dbs t))"
proof -
  obtain f t1 db xs ys where o: "openNewDB now dir disk t = Inr (f, t1)" "tab_ok c dir disk t1 (M(f := \<lambda>_. None))" "f \<notin> set (names t)"
    "map_of (dbs t1) f = Some (Some db)" "length (datfile db) = 0" "length (idxfile db) = 14155831" "names t = xs @ ys" "names t1 = xs @ f # ys"
    "length (dbs t1) \<le> Suc (length (dbs t))"
    using openNewDB_outcome [OF ok len now] by blast
  have "holds_map c db (\<lambda>_. None)" using tab_okD(2) [OF o(2)] o(4,8) by (auto simp: open_maps_def)
  then obtain r db' m' where r: "replace_or_insert key data None db = Inr (r, None, db')" "holds_map c db' m'" "\<forall>l. l \<noteq> key \<longrightarrow> m' l = None"
    "r = 0 \<and> m' key = Some data \<or> r = 2 \<and> m' key = None \<and> crowded db data"
    using replace_or_insert_outcome [OF _ k data, of db "\<lambda>_. None"] by blast
  have "\<not> crowded db data" using o(5,6) data by (simp add: crowded_def)
  then have r0: "r = 0" "m' key = Some data" using r(4) by auto
  have m': "m' = [key \<mapsto> data]" using r0(2) r(3) by (auto simp: fun_eq_iff)
  define t' where "t' = set_db f db' t1"
  have st: "same_table t1 t'" unfolding t'_def using o(4) by (intro set_db_same) simp
  have "open_maps c (names t1) t' ((M(f := \<lambda>_. None))(f := m'))" unfolding t'_def by (rule set_db_maps [OF tab_okD(2) [OF o(2)] r(2)])
  then have "tab_ok c dir disk t' (M(f := [key \<mapsto> data]))" using tab_ok_same [OF o(2) st] m' by simp
  moreover have "store_new now dir disk key data None t = Inr (1, f, None, t')"
    by (simp add: store_new_def o(1) table_db_def o(4) r(1) r0(1) t'_def)
  ultimately show ?thesis using o(3,7,8,9) same_tableD [OF st] by auto
qed

text \<open>A record is offered to the database that the caller names.\<close>

lemma store_given_outcome:
  assumes f: "map_of (dbs t) f = Some (Some db)" "f \<in> set fs" and o: "open_maps c fs t M" and k: "good_key c key" and data: "length data \<le> 2097152"
  shows "\<exists>r t' m'. store_given f key data None t = Inr (r, None, t') \<and> same_table t t' \<and> open_maps c fs t' (M(f := m'))
    \<and> (\<forall>l. l \<noteq> key \<longrightarrow> m' l = M f l) \<and> (r = 0 \<and> m' key = Some data \<or> r = 2 \<and> m' key = None)"
proof -
  have h: "holds_map c db (M f)" using o f by (auto simp: open_maps_def)
  have st: "same_table t (set_db f db' t)" for db' using f by (intro set_db_same) simp
  note upd = set_db_maps [OF o]
  show ?thesis
  proof (cases "M f key")
    case None
    obtain a db1 where 1: "db_store db key data DB_REPLACE None = Inr (a, None, db1)" "a = -1" "holds_map c db1 (M f)"
      using store_outcome [OF h k data, of DB_REPLACE] None by auto
    obtain b db2 where 2: "db_store db1 key data DB_INSERT None = Inr (b, None, db2)"
      "b = 0 \<and> holds_map c db2 ((M f)(key := Some data)) \<or> b = 2 \<and> holds_map c db2 ((M f)(key := None))"
      using store_outcome [OF 1(3) k data, of DB_INSERT] None by auto
    have run: "store_given f key data None t = Inr (b, None, set_db f db2 t)" by (simp add: store_given_def table_db_def f 1 2(1))
    from 2(2) show ?thesis
    proof (elim disjE conjE)
      assume b: "b = 0" "holds_map c db2 ((M f)(key := Some data))"
      show ?thesis using run st upd [OF b(2)] b(1)
        by (intro exI [of _ b] exI [of _ "set_db f db2 t"] exI [of _ "(M f)(key := Some data)"]) simp
    next
      assume b: "b = 2" "holds_map c db2 ((M f)(key := None))"
      show ?thesis using run st upd [OF b(2)] b(1)
        by (intro exI [of _ b] exI [of _ "set_db f db2 t"] exI [of _ "(M f)(key := None)"]) simp
    qed
  next
    case (Some v)
    obtain a db1 where 1: "db_store db key data DB_REPLACE None = Inr (a, None, db1)"
      "a = 0 \<and> holds_map c db1 ((M f)(key := Some data)) \<or> a = 2 \<and> holds_map c db1 ((M f)(key := None))"
      using store_outcome [OF h k data, of DB_REPLACE] Some by auto
    from 1(2) show ?thesis
    proof (elim disjE conjE)
      assume a: "a = 0" "holds_map c db1 ((M f)(key := Some data))"
      have "store_given f key data None t = Inr (a, None, set_db f db1 t)" by (simp add: store_given_def table_db_def f 1(1) a(1))
      then show ?thesis using st upd [OF a(2)] a(1)
        by (intro exI [of _ a] exI [of _ "set_db f db1 t"] exI [of _ "(M f)(key := Some data)"]) simp
    next
      assume a: "a = 2" "holds_map c db1 ((M f)(key := None))"
      obtain db2 where d: "db_delete db1 key = Inr (-1, db2)" "holds_map c db2 (((M f)(key := None))(key := None))"
        using delete_outcome [OF a(2), of key] by auto
      have "store_given f key data None t = Inr (2, None, set_db f db2 t)" by (simp add: store_given_def table_db_def f 1(1) a(1) d(1))
      then show ?thesis using st upd [OF d(2)]
        by (intro exI [of _ "2 :: int"] exI [of _ "set_db f db2 t"] exI [of _ "(M f)(key := None)"]) simp
    qed
  qed
qed

lemma look_up_first: "fs = xs @ f # ys \<Longrightarrow> M f k = Some v \<Longrightarrow> (\<And>x. x \<in> set xs \<Longrightarrow> M x k = None) \<Longrightarrow> look_up M fs k = Some v"
  using look_up_none [of xs M k] by (simp add: look_up_append)

lemma store_elsewhere:
  assumes ok: "tab_ok c dir disk t M" and len: "length (dbs t) \<le> 100" and now: "0 \<le> now" "now < 2 ^ 63"
    and k: "good_key c key" and data: "length data \<le> 2097152"
  shows "\<exists>f t' M'. bind_r (store_anywhere now dir disk key data (map fst (databases_conf t)) None t) (\<lambda>(r, pos, t).
         case r of
           Some (value, g) \<Rightarrow> Inr (value, case g of None \<Rightarrow> fileno | Some g \<Rightarrow> g, pos, t)
         | None \<Rightarrow> store_new now dir disk key data pos t) = Inr (1, f, None, t')
    \<and> tab_ok c dir disk t' M' \<and> look_up M' (names t') = (look_up M (names t))(key \<mapsto> data) \<and> length (dbs t') \<le> Suc (length (dbs t))"
proof -
  obtain r t1 M1 where s: "store_anywhere now dir disk key data (names t) None t = Inr (r, None, t1)" "same_table t t1" "open_maps c (names t) t1 M1"
    "\<forall>f l. l \<noteq> key \<or> f \<notin> set (names t) \<longrightarrow> M1 f l = M f l"
    "case r of None \<Rightarrow> \<forall>f\<in>set (names t). M1 f key = None
        | Some (v, g) \<Rightarrow> \<exists>f xs ys. v = 1 \<and> g = Some f \<and> names t = xs @ f # ys \<and> M1 f key = Some data \<and> (\<forall>x\<in>set xs. M1 x key = None)"
    using store_anywhere_outcome [OF k data tab_okD(1) [OF ok] _ tab_okD(2) [OF ok]] by blast
  have ok1: "tab_ok c dir disk t1 M1" by (rule tab_ok_same [OF ok s(2,3)])
  have n1: "names t1 = names t" "length (dbs t1) = length (dbs t)" using same_tableD [OF s(2)] by auto
  have other: "look_up M1 (names t) l = look_up M (names t) l" if "l \<noteq> key" for l using s(4) that by (intro look_up_cong) auto
  show ?thesis
  proof (cases r)
    case None
    have none: "\<forall>f\<in>set (names t). M1 f key = None" using s(5) None by simp
    obtain f t' xs ys where w: "store_new now dir disk key data None t1 = Inr (1, f, None, t')" "tab_ok c dir disk t' (M1(f := [key \<mapsto> data]))"
      "f \<notin> set (names t1)" "names t1 = xs @ ys" "names t' = xs @ f # ys" "length (dbs t') \<le> Suc (length (dbs t1))"
      using store_new_outcome [OF ok1 _ now k data] len n1 by auto
    let ?M = "M1(f := [key \<mapsto> data])"
    have xy: "f \<notin> set xs" "f \<notin> set ys" using w(3,4) by auto
    have "M1 x key = None" if "x \<in> set xs" for x using none that w(4) n1(1) by (metis Un_iff set_append)
    then have "look_up ?M (names t') key = Some data" unfolding w(5)
      using xy by (intro look_up_first [OF refl]) auto
    moreover have "look_up ?M (names t') l = look_up M (names t) l" if "l \<noteq> key" for l
    proof -
      have "look_up ?M xs l = look_up M1 xs l" "look_up ?M ys l = look_up M1 ys l" using xy by (auto intro!: look_up_cong)
      then have "look_up ?M (names t') l = look_up M1 (names t1) l" using that by (simp add: w(4,5) look_up_append split: option.split)
      then show ?thesis using other [OF that] n1 by simp
    qed
    ultimately have "look_up ?M (names t') = (look_up M (names t))(key \<mapsto> data)" by (simp add: fun_eq_iff)
    then show ?thesis using s(1) None w(1,2,6) n1(2)
      by (intro exI [of _ f] exI [of _ t'] exI [of _ ?M]) (simp add: names_def del: fun_upd_apply)
  next
    case (Some vg)
    then obtain f xs ys where f: "vg = (1, Some f)" "names t = xs @ f # ys" "M1 f key = Some data" "\<forall>x\<in>set xs. M1 x key = None"
      using s(5) by (cases vg) auto
    have "look_up M1 (names t) key = Some data" using f(3,4) by (intro look_up_first [OF f(2)]) auto
    then have "look_up M1 (names t1) = (look_up M (names t))(key \<mapsto> data)" using other n1 by (simp add: fun_eq_iff)
    then show ?thesis using s(1) Some f(1) ok1 n1(2)
      by (intro exI [of _ f] exI [of _ t1] exI [of _ M1]) (simp add: names_def del: fun_upd_apply)
  qed
qed

text \<open>\<open>store\<close>, without a file name or with that of the first database that has the key.\<close>

definition names_first :: "dbaccesstype \<Rightarrow> (bytes \<Rightarrow> bytes \<Rightarrow> bytes option) \<Rightarrow> bytes \<Rightarrow> bytes \<Rightarrow> bool" where
  "names_first t M key fileno \<longleftrightarrow> fileno = [] \<or> (\<exists>xs ys. names t = xs @ fileno # ys \<and> (\<forall>x\<in>set xs. M x key = None))"

lemma names_nonempty: "tab_ok c dir disk t M \<Longrightarrow> [] \<notin> set (names t)"
  using tab_okD(4) by (fastforce simp: fileno_of_def)

lemma store_in_outcome:
  assumes ok: "tab_ok c dir disk t M" and len: "length (dbs t) \<le> 100" and now: "0 \<le> now" "now < 2 ^ 63"
    and k: "good_key c key" "key \<noteq> []" and data: "length data \<le> 2097152" and f: "names_first t M key fileno"
  shows "\<exists>r f t' M'. store_in now dir disk key data fileno None t = Inr (r, f, None, t') \<and> (r = 0 \<or> r = 1)
    \<and> tab_ok c dir disk t' M' \<and> look_up M' (names t') = (look_up M (names t))(key \<mapsto> data) \<and> length (dbs t') \<le> Suc (length (dbs t))"
proof (cases "fileno = []")
  case True
  show ?thesis using store_elsewhere [OF ok len now k(1) data, of fileno] True k(2) by (auto simp: store_in_def)
next
  case False
  then obtain xs ys where sp: "names t = xs @ fileno # ys" "\<forall>x\<in>set xs. M x key = None" using f by (auto simp: names_first_def)
  then have fn: "fileno \<in> set (names t)" by simp
  obtain db where db: "map_of (dbs t) fileno = Some (Some db)" using tab_okD(2) [OF ok] fn by (auto simp: open_maps_def)
  obtain r t1 m' where s: "store_given fileno key data None t = Inr (r, None, t1)" "same_table t t1" "open_maps c (names t) t1 (M(fileno := m'))"
    "\<forall>l. l \<noteq> key \<longrightarrow> m' l = M fileno l" "r = 0 \<and> m' key = Some data \<or> r = 2 \<and> m' key = None"
    using store_given_outcome [OF db fn tab_okD(2) [OF ok] k(1) data] by blast
  let ?M = "M(fileno := m')"
  have ok1: "tab_ok c dir disk t1 ?M" by (rule tab_ok_same [OF ok s(2,3)])
  have n1: "names t1 = names t" "length (dbs t1) = length (dbs t)" using same_tableD [OF s(2)] by auto
  have other: "look_up ?M (names t) l = look_up M (names t) l" if "l \<noteq> key" for l using s(4) that by (intro look_up_cong) auto
  have g: "given_db now dir disk fileno t = Inr (True, t)" by (simp add: given_db_def db)
  from s(5) show ?thesis
  proof (elim disjE conjE)
    assume r: "r = 0" "m' key = Some data"
    have "fileno \<notin> set xs" using tab_okD(1) [OF ok] sp(1) by auto
    then have "look_up ?M (names t) key = Some data" using r(2) sp(2) by (intro look_up_first [OF sp(1)]) auto
    then have "look_up ?M (names t1) = (look_up M (names t))(key \<mapsto> data)" using other n1 by (simp add: fun_eq_iff)
    moreover have "store_in now dir disk key data fileno None t = Inr (0, fileno, None, t1)"
      using k(2) False by (simp add: store_in_def g s(1) r(1))
    ultimately show ?thesis using ok1 n1(2) by (intro exI [of _ "0 :: int"] exI [of _ fileno] exI [of _ t1] exI [of _ ?M]) simp
  next
    assume r: "r = 2" "m' key = None"
    obtain h t' M' where e: "bind_r (store_anywhere now dir disk key data (map fst (databases_conf t1)) None t1) (\<lambda>(r, pos, t).
         case r of
           Some (value, g) \<Rightarrow> Inr (value, case g of None \<Rightarrow> fileno | Some g \<Rightarrow> g, pos, t)
         | None \<Rightarrow> store_new now dir disk key data pos t) = Inr (1, h, None, t')"
      "tab_ok c dir disk t' M'" "look_up M' (names t') = (look_up ?M (names t1))(key \<mapsto> data)" "length (dbs t') \<le> Suc (length (dbs t1))"
      using store_elsewhere [OF ok1 _ now k(1) data, of fileno] len n1 by auto
    have "look_up M' (names t') = (look_up M (names t))(key \<mapsto> data)" unfolding e(3) using other n1 by (simp add: fun_eq_iff)
    moreover have "store_in now dir disk key data fileno None t = Inr (1, h, None, t')"
      using k(2) False by (simp add: store_in_def g s(1) r(1) e(1))
    ultimately show ?thesis using e(2,4) n1(2) by (intro exI [of _ "1 :: int"] exI [of _ h] exI [of _ t'] exI [of _ M']) simp
  qed
qed

section \<open>Fetching\<close>

lemma get_anywhere_outcome:
  assumes "set fs \<subseteq> set all" "open_maps c all t M"
  shows "\<exists>r t'. get_anywhere now dir disk key fs t = Inr (r, t') \<and> same_table t t' \<and> open_maps c all t' M
    \<and> (case r of None \<Rightarrow> look_up M fs key = None
        | Some (d, f) \<Rightarrow> datbuf d = look_up M fs key \<and> look_up M fs key \<noteq> None \<and> (\<exists>xs ys. fs = xs @ f # ys \<and> (\<forall>x\<in>set xs. M x key = None)))"
  using assms
proof (induction fs arbitrary: t)
  case Nil
  then show ?case by auto
next
  case (Cons f fs)
  obtain db where db: "map_of (dbs t) f = Some (Some db)" "holds_map c db (M f)" using Cons.prems by (auto simp: open_maps_def)
  obtain r db' where r: "db_fetch db key None = Inr (r, None, db')" "(case r of None \<Rightarrow> None | Some d \<Rightarrow> datbuf d) = M f key" "holds_map c db' (M f)"
    using fetch_outcome [OF db(2)] by blast
  have t1: "open_maps c all (set_db f db' t) M" "same_table t (set_db f db' t)"
    using set_db_maps [OF Cons.prems(2) r(3), of f] set_db_same [of t f] db(1) by (simp_all only: fun_upd_triv) simp
  have hit: "r = None \<longleftrightarrow> M f key = None"
  proof
    show "r = None \<Longrightarrow> M f key = None" using r(2) by simp
    show "M f key = None \<Longrightarrow> r = None"
      using r(1) db(2) unfolding holds_map_def by (auto simp: fetch_absent)
  qed
  have run: "get_anywhere now dir disk key (f # fs) t =
      (case r of Some d \<Rightarrow> Inr (Some (d, f), set_db f db' t) | None \<Rightarrow> get_anywhere now dir disk key fs (set_db f db' t))"
    by (simp add: listed_db_def table_db_def db(1) r(1))
  show ?case
  proof (cases r)
    case None
    then have mf: "M f key = None" using hit by simp
    obtain s t' where IH: "get_anywhere now dir disk key fs (set_db f db' t) = Inr (s, t')" "same_table (set_db f db' t) t'" "open_maps c all t' M"
      "case s of None \<Rightarrow> look_up M fs key = None
        | Some (d, g) \<Rightarrow> datbuf d = look_up M fs key \<and> look_up M fs key \<noteq> None \<and> (\<exists>xs ys. fs = xs @ g # ys \<and> (\<forall>x\<in>set xs. M x key = None))"
      using Cons.IH [OF _ t1(1)] Cons.prems(1) by auto
    have "case s of None \<Rightarrow> look_up M (f # fs) key = None
        | Some (d, g) \<Rightarrow> datbuf d = look_up M (f # fs) key \<and> look_up M (f # fs) key \<noteq> None \<and> (\<exists>xs ys. f # fs = xs @ g # ys \<and> (\<forall>x\<in>set xs. M x key = None))"
    proof (cases s)
      case None
      then show ?thesis using IH(4) mf by simp
    next
      case (Some dg)
      then obtain d g xs ys where g: "dg = (d, g)" "datbuf d = look_up M fs key" "look_up M fs key \<noteq> None" "fs = xs @ g # ys" "\<forall>x\<in>set xs. M x key = None"
        using IH(4) by (cases dg) auto
      have "f # fs = (f # xs) @ g # ys" "\<forall>x\<in>set (f # xs). M x key = None" using g(4,5) mf by auto
      moreover have "look_up M (f # fs) key = look_up M fs key" using mf by simp
      ultimately show ?thesis unfolding Some g(1) option.case prod.case using g(2,3) by metis
    qed
    then show ?thesis using run None IH(1,3) same_table_trans [OF t1(2) IH(2)] by auto
  next
    case (Some d)
    then have "datbuf d = M f key" "M f key \<noteq> None" using r(2) hit by auto
    then have "datbuf d = look_up M (f # fs) key" "look_up M (f # fs) key \<noteq> None" by auto
    moreover have "\<exists>xs ys. f # fs = xs @ f # ys \<and> (\<forall>x\<in>set xs. M x key = None)" by (intro exI [of _ "[]"] exI [of _ fs]) simp
    ultimately show ?thesis using run Some t1 by (intro exI [of _ "Some (d, f)"] exI [of _ "set_db f db' t"]) simp
  qed
qed

lemma get_in_outcome:
  assumes ok: "tab_ok c dir disk t M"
  shows "\<exists>d h t'. get_in now dir disk g key None t = Inr (d, h, None, t') \<and> (case d of None \<Rightarrow> None | Some d \<Rightarrow> datbuf d) = look_up M (names t) key
    \<and> (d = None \<longleftrightarrow> look_up M (names t) key = None) \<and> (d = None \<longrightarrow> h = g)
    \<and> tab_ok c dir disk t' M \<and> names t' = names t \<and> length (dbs t') = length (dbs t) \<and> (d \<noteq> None \<longrightarrow> names_first t' M key h)"
proof -
  obtain r t' where r: "get_anywhere now dir disk key (names t) t = Inr (r, t')" "same_table t t'" "open_maps c (names t) t' M"
    "case r of None \<Rightarrow> look_up M (names t) key = None
      | Some (d, f) \<Rightarrow> datbuf d = look_up M (names t) key \<and> look_up M (names t) key \<noteq> None \<and> (\<exists>xs ys. names t = xs @ f # ys \<and> (\<forall>x\<in>set xs. M x key = None))"
    using get_anywhere_outcome [OF subset_refl tab_okD(2) [OF ok]] by blast
  have ok': "tab_ok c dir disk t' M" "names t' = names t" "length (dbs t') = length (dbs t)"
    using tab_ok_same [OF ok r(2,3)] same_tableD [OF r(2)] by auto
  show ?thesis
  proof (cases r)
    case None
    then show ?thesis using r(1,4) ok' by (simp add: get_in_def names_def)
  next
    case (Some df)
    obtain d f where df: "df = (d, f)" by (cases df)
    then have "names_first t' M key f" using r(4) Some ok'(2) by (simp add: names_first_def)
    then show ?thesis using r(1,4) Some df ok' by (simp add: get_in_def names_def)
  qed
qed

text \<open>A table that is loaded for the first time.\<close>

lemma nextrec_empty:
  assumes "db_open None = Inr db"
  shows "db_nextrec db None off = Inr (None, 14155831, db)"
proof -
  have e: "nhash db = NHASH_DEF" "length (idxfile db) = 14155831"
    using assms empty_holds [of NHASH_DEF 1] by (auto simp: db_open_def NHASH_DEF_def sizes_def)
  have "os_pread (idxfile db) PTR_SZ 14155831 = []" using e(2) by (simp add: os_pread_def)
  then have "db_readidx db d 14155831 = Inr (-1, d\<lparr>idxoff := 14155831\<rparr>, None)" for d by (simp add: db_readidx_def Let_def PTR_SZ_def)
  then show ?thesis by (simp add: db_nextrec_def db_rewind_def e(1) NHASH_DEF_def PTR_SZ_def Let_def)
qed

lemma load_fresh_table:
  assumes name: "6 \<le> length name" "length name \<le> 80" "0 \<notin> set name" "map_of (dbsuffix acc) name = None" and fresh: "acc_disk acc = (\<lambda>_. None)"
  shows "\<exists>t. load_table now name acc
      = Inr (length (tables acc), acc\<lparr>tables := tables acc @ [Some t], dbsuffix := smap_put name (length (tables acc)) (dbsuffix acc)\<rparr>)
    \<and> tab_ok c (acc_dir acc) (\<lambda>_. None) t (\<lambda>_ _. None) \<and> names t = [] \<and> dbs t = []"
proof -
  obtain path where path: "getPath (acc_dir acc) name None = Inr path" using getPath_ok by blast
  obtain conf where conf: "db_open None = Inr conf" "holds_map 2 conf (\<lambda>_. None)" using open_new_file [of "acc_disk acc" path 2] fresh by auto
  define t where "t = \<lparr>databases_conf = [], count_of_database = 0, dbs = [], db_conf = conf, tablename = name\<rparr>"
  have "load_loop (Suc (length (idxfile conf))) now (acc_dir acc) (\<lambda>_. None) None 0 t = Inr t"
    by (simp add: t_def nextrec_empty [OF conf(1)] Let_def)
  then have "load_table now name acc
      = Inr (length (tables acc), acc\<lparr>tables := tables acc @ [Some t], dbsuffix := smap_put name (length (tables acc)) (dbsuffix acc)\<rparr>)"
    using conf(1) by (simp add: load_table_def name(4) path fresh t_def Let_def del: load_loop.simps)
  moreover have "names t = []" "dbs t = []" by (simp_all add: t_def names_def)
  moreover have "tab_ok c (acc_dir acc) (\<lambda>_. None) t (\<lambda>_ _. None)"
    using name conf(2) by (auto simp: tab_ok_def open_maps_def t_def names_def)
  ultimately show ?thesis by blast
qed

lemma load_new_table:
  assumes name: "6 \<le> length name" "length name \<le> 80" "0 \<notin> set name" and fresh: "disk = (\<lambda>_. None)"
  shows "\<exists>t. load_table now name (DBAccess dir disk) = Inr (0, \<lparr>tables = [Some t], dbsuffix = [(name, 0)], acc_dir = dir, acc_disk = disk\<rparr>)
    \<and> tab_ok c dir disk t (\<lambda>_ _. None) \<and> names t = [] \<and> dbs t = []"
  using load_fresh_table [of name "DBAccess dir disk" now c] assms by (simp add: DBAccess_def smap_put_def)

section \<open>The properties\<close>

text \<open>
  C35. What was stored in a table is what is fetched from it, whichever of its databases took the record and however many are full, also
  when the store names the database where a fetch has found the key; all other keys keep their data.
\<close>

theorem store_then_get:
  assumes "tab_ok c dir disk t M" "length (dbs t) \<le> 100" "0 \<le> now" "now < 2 ^ 63"
    and "good_key c key" "key \<noteq> []" "length data \<le> 2097152" "names_first t M key fileno"
  shows "\<exists>r f t'. store_in now dir disk key data fileno None t = Inr (r, f, None, t') \<and> (r = 0 \<or> r = 1)
    \<and> (\<forall>l g. \<exists>d h t'' M'. get_in now dir disk g l None t' = Inr (d, h, None, t'')
        \<and> (case d of None \<Rightarrow> None | Some d \<Rightarrow> datbuf d) = (if l = key then Some data else look_up M (names t) l)
        \<and> tab_ok c dir disk t'' M' \<and> look_up M' (names t'') = (look_up M (names t))(key \<mapsto> data) \<and> (d \<noteq> None \<longrightarrow> names_first t'' M' l h))"
proof -
  obtain r f t' M' where s: "store_in now dir disk key data fileno None t = Inr (r, f, None, t')" "r = 0 \<or> r = 1"
    "tab_ok c dir disk t' M'" "look_up M' (names t') = (look_up M (names t))(key \<mapsto> data)"
    using store_in_outcome [OF assms] by blast
  have "\<exists>d h t'' M'. get_in now dir disk g l None t' = Inr (d, h, None, t'')
        \<and> (case d of None \<Rightarrow> None | Some d \<Rightarrow> datbuf d) = (if l = key then Some data else look_up M (names t) l)
        \<and> tab_ok c dir disk t'' M' \<and> look_up M' (names t'') = (look_up M (names t))(key \<mapsto> data) \<and> (d \<noteq> None \<longrightarrow> names_first t'' M' l h)" for l g
  proof -
    obtain d h t'' where g: "get_in now dir disk g l None t' = Inr (d, h, None, t'')" "(case d of None \<Rightarrow> None | Some d \<Rightarrow> datbuf d) = look_up M' (names t') l"
      "tab_ok c dir disk t'' M'" "names t'' = names t'" "d \<noteq> None \<longrightarrow> names_first t'' M' l h"
      using get_in_outcome [OF s(3)] by blast
    have "look_up M' (names t') l = (if l = key then Some data else look_up M (names t) l)" using s(4) by simp
    then show ?thesis using g s(4) by (intro exI [of _ d] exI [of _ h] exI [of _ t''] exI [of _ M']) (simp del: fun_upd_apply)
  qed
  then show ?thesis using s(1,2) by blast
qed

text \<open>
  C36. \<open>erase\<close> without a file name deletes a key from the first database of the table only: a record in another one stays, and is still
  found, although the answer is that of the first.
\<close>

theorem erase_only_from_first:
  assumes ok: "tab_ok c dir disk t M" and fs: "names t = f # fs"
  shows "\<exists>t'. erase_in now dir disk key [] t = Inr (if M f key = None then -1 else 0, t')
    \<and> (\<forall>l g. \<exists>d h t''. get_in now dir disk g l None t' = Inr (d, h, None, t'')
        \<and> (case d of None \<Rightarrow> None | Some d \<Rightarrow> datbuf d) = (if l = key then look_up M fs key else look_up M (names t) l))"
proof -
  obtain db where db: "map_of (dbs t) f = Some (Some db)" "holds_map c db (M f)" using tab_okD(2) [OF ok] fs by (auto simp: open_maps_def)
  obtain db' where d: "db_delete db key = Inr (if M f key = None then -1 else 0, db')" "holds_map c db' ((M f)(key := None))"
    using delete_outcome [OF db(2), of key] by blast
  let ?M = "M(f := (M f)(key := None))" and ?t = "set_db f db' t"
  have st: "same_table t ?t" using db(1) by (intro set_db_same) simp
  have ok': "tab_ok c dir disk ?t ?M" by (rule tab_ok_same [OF ok st set_db_maps [OF tab_okD(2) [OF ok] d(2)]])
  have n: "names ?t = f # fs" using same_tableD [OF st] fs by simp
  have "map fst (databases_conf t) = f # fs" using fs by (simp add: names_def)
  then have run: "erase_in now dir disk key [] t = Inr (if M f key = None then -1 else 0, ?t)"
    by (simp add: erase_in_def listed_db_def table_db_def db(1) d(1))
  have nf: "f \<notin> set fs" using tab_okD(1) [OF ok] fs by simp
  have "look_up ?M fs l = look_up M fs l" for l using nf by (intro look_up_cong) auto
  then have look_up: "look_up ?M (names ?t) l = (if l = key then look_up M fs key else look_up M (names t) l)" for l
    by (simp add: n fs split: option.split)
  have "\<exists>d h t''. get_in now dir disk g l None ?t = Inr (d, h, None, t'')
        \<and> (case d of None \<Rightarrow> None | Some d \<Rightarrow> datbuf d) = (if l = key then look_up M fs key else look_up M (names t) l)" for l g
    using get_in_outcome [OF ok', of now g l] unfolding look_up by blast
  then show ?thesis using run by blast
qed

theorem store_then_get_witness:
  "\<exists>t r f t' d h t''. load_table 0 (bytes_of ''task_1'') (DBAccess [46] (\<lambda>_. None))
      = Inr (0, \<lparr>tables = [Some t], dbsuffix = [(bytes_of ''task_1'', 0)], acc_dir = [46], acc_disk = (\<lambda>_. None)\<rparr>)
    \<and> store_in 0 [46] (\<lambda>_. None) [49, 50] [7, 8] [] None t = Inr (r, f, None, t')
    \<and> get_in 0 [46] (\<lambda>_. None) [] [49, 50] None t' = Inr (d, h, None, t'') \<and> (case d of None \<Rightarrow> None | Some d \<Rightarrow> datbuf d) = Some [7, 8]"
proof -
  obtain t where t: "load_table 0 (bytes_of ''task_1'') (DBAccess [46] (\<lambda>_. None))
      = Inr (0, \<lparr>tables = [Some t], dbsuffix = [(bytes_of ''task_1'', 0)], acc_dir = [46], acc_disk = (\<lambda>_. None)\<rparr>)"
    "tab_ok 1 [46] (\<lambda>_. None) t (\<lambda>_ _. None)" "dbs t = []"
    using load_new_table [of "bytes_of ''task_1''" "\<lambda>_. None" 0 "[46]" 1] by (auto simp: bytes_of_def)
  have k: "good_key 1 [49, 50]" by (simp add: good_key_def digits_def dec_nat.simps [of "Suc (Suc 0)"])
  have p: "length (dbs t) \<le> 100" "(0 :: int) \<le> 0" "(0 :: int) < 2 ^ 63" "[49, 50] \<noteq> ([] :: bytes)" "length [7 :: u8, 8] \<le> 2097152"
    "names_first t (\<lambda>_ _. None) [49, 50] []"
    using t(3) by (simp_all add: names_first_def)
  obtain r f t' where s: "store_in 0 [46] (\<lambda>_. None) [49, 50] [7, 8] [] None t = Inr (r, f, None, t')"
    "\<forall>l g. \<exists>d h t'' M'. get_in 0 [46] (\<lambda>_. None) g l None t' = Inr (d, h, None, t'')
        \<and> (case d of None \<Rightarrow> None | Some d \<Rightarrow> datbuf d) = (if l = [49, 50] then Some [7, 8] else look_up (\<lambda>_ _. None) (names t) l)
        \<and> tab_ok 1 [46] (\<lambda>_. None) t'' M' \<and> look_up M' (names t'') = (look_up (\<lambda>_ _. None) (names t))([49, 50] \<mapsto> [7, 8])
        \<and> (d \<noteq> None \<longrightarrow> names_first t'' M' l h)"
    using store_then_get [OF t(2) p(1-3) k p(4-6)] by blast
  obtain d h t'' where "get_in 0 [46] (\<lambda>_. None) [] [49, 50] None t' = Inr (d, h, None, t'')"
    "(case d of None \<Rightarrow> None | Some d \<Rightarrow> datbuf d) = (if [49, 50] = [49, 50 :: u8] then Some [7, 8] else look_up (\<lambda>_ _. None) (names t) [49, 50])"
    using s(2) by blast
  then show ?thesis using t(1) s(1) by auto
qed

theorem erase_only_from_first_witness:
  "\<exists>t f t' d h t''. names t = [f] \<and> erase_in 0 [46] (\<lambda>_. None) [49, 50] [] t = Inr (0, t')
    \<and> get_in 0 [46] (\<lambda>_. None) [] [49, 50] None t' = Inr (d, h, None, t'') \<and> (case d of None \<Rightarrow> None | Some d \<Rightarrow> datbuf d) = None"
proof -
  obtain t where t: "tab_ok 1 [46] (\<lambda>_. None) t (\<lambda>_ _. None)" "dbs t = []" "names t = []"
    using load_new_table [of "bytes_of ''task_1''" "\<lambda>_. None" 0 "[46]" 1] by (auto simp: bytes_of_def)
  have k: "good_key 1 [49, 50]" by (simp add: good_key_def digits_def dec_nat.simps [of "Suc (Suc 0)"])
  have p: "length (dbs t) \<le> 100" "(0 :: int) \<le> 0" "(0 :: int) < 2 ^ 63" "length [7 :: u8, 8] \<le> 2097152" using t(2) by simp_all
  obtain f t1 xs ys M where s: "tab_ok 1 [46] (\<lambda>_. None) t1 M" "names t = xs @ ys" "names t1 = xs @ f # ys" "M = (\<lambda>_ _. None)(f := [[49, 50] \<mapsto> [7, 8]])"
    using store_new_outcome [OF t(1) p(1-3) k p(4)] by blast
  have n: "names t1 = [f]" using s(2,3) t(3) by simp
  have m: "M f [49, 50] \<noteq> None" unfolding s(4) by simp
  obtain t' where e: "erase_in 0 [46] (\<lambda>_. None) [49, 50] [] t1 = Inr (if M f [49, 50] = None then -1 else 0, t')"
    "\<forall>l g. \<exists>d h t''. get_in 0 [46] (\<lambda>_. None) g l None t' = Inr (d, h, None, t'')
        \<and> (case d of None \<Rightarrow> None | Some d \<Rightarrow> datbuf d) = (if l = [49, 50] then look_up M [] [49, 50] else look_up M (names t1) l)"
    using erase_only_from_first [OF s(1) n, of 0 "[49, 50]"] by blast
  obtain d h t'' where "get_in 0 [46] (\<lambda>_. None) [] [49, 50] None t' = Inr (d, h, None, t'')"
    "(case d of None \<Rightarrow> None | Some d \<Rightarrow> datbuf d) = (if [49, 50] = [49, 50 :: u8] then look_up M [] [49, 50] else look_up M (names t1) [49, 50])"
    using e(2) by blast
  then show ?thesis using n e(1) m by (intro exI [of _ t1] exI [of _ f] exI [of _ t'] exI [of _ d] exI [of _ h] exI [of _ t'']) auto
qed

end
