(* ===== verification/PageStoreProps.thy ===== *)
theory PageStoreProps
  imports PageStore DbAccessProps
begin

text \<open>
  Heads that are written are read back, pages are appended one behind the other, and what was saved is read from the databases when
  its head says that it is complete.
\<close>

section \<open>Reading what was printed\<close>

lemma digits_stop: "takeWhile ISDIGIT (take w (dec_nat n @ 47 # s)) = dec_nat n" if "length (dec_nat n) \<le> w"
proof -
  have "take w (dec_nat n @ 47 # s) = dec_nat n @ take (w - length (dec_nat n)) (47 # s)" using that by simp
  moreover have "takeWhile ISDIGIT (take k (47 # s)) = []" for k by (cases k) (simp_all add: ISDIGIT_def)
  moreover have "\<forall>c\<in>set (dec_nat n). ISDIGIT c" using dec_nat_digits by blast
  ultimately show ?thesis by (simp add: takeWhile_append)
qed

lemma spaces_skipped: "dropWhile is_space (replicate k 32 @ c # s) = c # s" if "\<not> is_space c"
  using that by (induction k) (simp_all add: is_space_def [of 32])

lemma scan_number_print:
  assumes "length (dec_int v) \<le> w"
  shows "scan_number w (replicate k 32 @ dec_int v @ 47 # s) = Some (v, 47 # s)"
proof (cases "v < 0")
  case False
  obtain c ds where c: "dec_nat (nat v) = c # ds" by (cases "dec_nat (nat v)") auto
  have dc: "ISDIGIT c" using dec_nat_digits [of c "nat v"] c by simp
  have d: "\<not> is_space c" "c \<noteq> 45" "c \<noteq> 43" using dc digit_not_space [of c] by (auto simp: ISDIGIT_def)
  have v: "dec_int v = c # ds" using False c by (simp add: dec_int_def)
  have "dropWhile is_space (replicate k 32 @ dec_int v @ 47 # s) = c # ds @ 47 # s" using spaces_skipped [OF d(1)] v by simp
  moreover have "takeWhile ISDIGIT (take w (c # ds @ 47 # s)) = c # ds" using digits_stop [of "nat v" w s] assms c v by simp
  moreover have "digits_val (c # ds) = v" using digits_val_dec_nat [of "nat v"] c False by simp
  ultimately show ?thesis using d by (simp add: scan_number_def Let_def)
next
  case True
  have v: "dec_int v = 45 # dec_nat (nat (- v))" using True by (simp add: dec_int_def)
  have "dropWhile is_space (replicate k 32 @ dec_int v @ 47 # s) = 45 # dec_nat (nat (- v)) @ 47 # s"
    using spaces_skipped [of 45] v by (simp add: is_space_def)
  moreover have "takeWhile ISDIGIT (take (w - 1) (dec_nat (nat (- v)) @ 47 # s)) = dec_nat (nat (- v))"
    using assms v by (intro digits_stop) simp
  moreover have "digits_val (dec_nat (nat (- v))) = - v" using digits_val_dec_nat [of "nat (- v)"] True by simp
  ultimately show ?thesis by (simp add: scan_number_def Let_def)
qed

lemma scan_slashed_print:
  "length fs = length vs \<Longrightarrow> scan_slashed (map (Pair None) fs) (slashed vs @ s) = map2 (\<lambda>f v. f v) fs vs"
proof (induction fs vs rule: list_induct2)
  case (Cons f fs v vs)
  have "slashed (v # vs) @ s = replicate 0 32 @ dec_int v @ 47 # slashed vs @ s" by (simp add: slashed_def)
  then show ?case using Cons scan_number_print [of v "length (slashed (v # vs) @ s)" 0 "slashed vs @ s"] by (simp add: slashed_def)
qed (simp add: slashed_def)

section \<open>Heads\<close>

definition int_range :: "int \<Rightarrow> bool" where
  "int_range v \<longleftrightarrow> - (2 ^ 31) \<le> v \<and> v < 2 ^ 31"

lemma conv_in_range [simp]: "int_range v \<Longrightarrow> conv_d v = v" "0 \<le> v \<Longrightarrow> v < 2 ^ 31 \<Longrightarrow> conv_low v = v" "0 \<le> v \<Longrightarrow> v < 2 ^ 64 \<Longrightarrow> conv_llu v = v"
proof -
  have m: "max (- (2 ^ 63)) (min v (2 ^ 63 - 1)) = v" if "- (2 ^ 31) \<le> v" "v < 2 ^ 31" using that by simp
  show d: "int_range v \<Longrightarrow> conv_d v = v" using m by (simp add: conv_d_def int_range_def)
  show "0 \<le> v \<Longrightarrow> v < 2 ^ 31 \<Longrightarrow> conv_low v = v" using m by (simp add: conv_low_def conv_d_def)
  show "0 \<le> v \<Longrightarrow> v < 2 ^ 64 \<Longrightarrow> conv_llu v = v" by (simp add: conv_llu_def)
qed

lemma dec_int_fits: "int_range v \<Longrightarrow> length (dec_int v) \<le> 11" "0 \<le> v \<Longrightarrow> v < 10 ^ Suc k \<Longrightarrow> length (dec_int v) \<le> Suc k"
proof -
  show "0 \<le> v \<Longrightarrow> v < 10 ^ Suc k \<Longrightarrow> length (dec_int v) \<le> Suc k"
  proof -
    assume v: "0 \<le> v" "v < 10 ^ Suc k"
    then have "nat v < 10 ^ Suc k" by (metis nat_less_iff of_nat_numeral of_nat_power)
    then show ?thesis using v length_dec_nat [of "nat v" k] by (simp add: dec_int_def)
  qed
  assume "int_range v"
  then have "nat (- v) < 10 ^ Suc 9" "nat v < 10 ^ Suc 9" by (auto simp: int_range_def)
  then show "length (dec_int v) \<le> 11" using length_dec_nat [of "nat (- v)" 9] length_dec_nat [of "nat v" 9] by (simp add: dec_int_def)
qed

definition page_ok :: "pagehead \<Rightarrow> bool" where
  "page_ok p \<longleftrightarrow> 0 \<le> ph_id p \<and> ph_id p < 2 ^ 64 \<and> 0 \<le> ph_offset p \<and> ph_offset p < 2 ^ 31 \<and> 0 \<le> ph_length p \<and> ph_length p < 2 ^ 31
     \<and> int_range (ph_page p)"

definition head_ok :: "contenthead \<Rightarrow> bool" where
  "head_ok h \<longleftrightarrow> 0 \<le> ch_totallength h \<and> ch_totallength h < 2 ^ 31 \<and> 0 \<le> ch_totalpage h \<and> ch_totalpage h < 10000000
     \<and> ch_nowpage h = int (length (ch_pages h)) \<and> length (ch_pages h) \<le> 1000000 \<and> int_range (ch_taskid h) \<and> int_range (ch_batchid h)
     \<and> list_all page_ok (ch_pages h)"

lemma slashed_length: "length (slashed vs) = sum_list (map (\<lambda>v. Suc (length (dec_int v))) vs)"
  by (induction vs) (simp_all add: slashed_def)

lemma page_fields_length: "page_ok p \<Longrightarrow> length (slashed (page_fields p)) \<le> 57"
proof -
  assume p: "page_ok p"
  have "length (dec_int (ph_id p)) \<le> Suc 19" using p by (intro dec_int_fits(2)) (auto simp: page_ok_def)
  moreover have "length (dec_int (to_int (ph_offset p))) \<le> Suc 9" using p by (intro dec_int_fits(2)) (auto simp: page_ok_def)
  moreover have "length (dec_int (to_int (ph_length p))) \<le> Suc 9" using p by (intro dec_int_fits(2)) (auto simp: page_ok_def)
  moreover have "length (dec_int (ph_page p)) \<le> 11" using p by (intro dec_int_fits(1)) (auto simp: page_ok_def)
  ultimately show ?thesis by (simp add: slashed_length page_fields_def)
qed

lemma scan_page_print: "page_ok p \<Longrightarrow> scan_page (slashed (page_fields p) @ s) = p"
  using scan_slashed_print [of "[conv_llu, conv_low, conv_low, conv_d]" "page_fields p" s]
  by (simp add: scan_page_def page_fields_def page_ok_def nth_else_def)

definition pages_text :: "pagehead list \<Rightarrow> bytes" where
  "pages_text ps = concat (map (\<lambda>p. slashed (page_fields p)) ps)"

lemma read_pages_print: "list_all page_ok ps \<Longrightarrow> read_pages (length ps) (pages_text ps @ s) = Inr ps"
proof (induction ps)
  case (Cons p ps)
  have l: "length (slashed (page_fields p)) \<le> 57" using Cons.prems by (intro page_fields_length) simp
  have "scan_page (slashed (page_fields p) @ pages_text ps @ s) = p" using Cons.prems by (intro scan_page_print) simp
  then show ?case using Cons l by (simp add: pages_text_def Let_def sprintf64_def skip_bytes_def)
qed simp

lemma write_pages_print:
  "list_all page_ok ps \<Longrightarrow> buf_ok b \<Longrightarrow> \<exists>b'. write_pages (length ps) ps b = Inr b' \<and> buf_ok b' \<and> buf_data b' = buf_data b @ pages_text ps"
proof (induction ps arbitrary: b)
  case Nil
  then show ?case by (simp add: pages_text_def)
next
  case (Cons p ps)
  have l: "length (slashed (page_fields p)) \<le> 57" using Cons.prems by (intro page_fields_length) simp
  obtain b1 where b1: "add_buffer (slashed (page_fields p)) b = Inr b1" "buf_ok b1" "buf_data b1 = buf_data b @ slashed (page_fields p)"
    using add_buffer_ok [OF Cons.prems(2)] by blast
  obtain b2 where "write_pages (length ps) ps b1 = Inr b2" "buf_ok b2" "buf_data b2 = buf_data b1 @ pages_text ps"
    using Cons.IH [OF _ b1(2)] Cons.prems(1) by auto
  then show ?case using b1 l by (simp add: sprintf64_def pages_text_def)
qed

lemma pages_text_length: "list_all page_ok ps \<Longrightarrow> length (pages_text ps) \<le> 57 * length ps"
proof (induction ps)
  case (Cons p ps)
  then show ?case using page_fields_length [of p] by (simp add: pages_text_def)
qed (simp add: pages_text_def)

lemma head_fields_length: "head_ok h \<Longrightarrow> length (slashed (head_fields h)) \<le> 53"
proof -
  assume h: "head_ok h"
  have "length (dec_int (to_int (ch_totallength h))) \<le> Suc 9" using h by (intro dec_int_fits(2)) (auto simp: head_ok_def)
  moreover have "length (dec_int (ch_totalpage h)) \<le> Suc 6" using h by (intro dec_int_fits(2)) (auto simp: head_ok_def)
  moreover have "length (dec_int (ch_nowpage h)) \<le> Suc 6" using h by (intro dec_int_fits(2)) (auto simp: head_ok_def)
  moreover have "length (dec_int (ch_taskid h)) \<le> 11" "length (dec_int (ch_batchid h)) \<le> 11" using h by (auto intro!: dec_int_fits(1) simp: head_ok_def)
  ultimately show ?thesis by (simp add: slashed_length head_fields_def)
qed

text \<open>The text of a head, and that it is read back.\<close>

definition head_text :: "contenthead \<Rightarrow> bytes" where
  "head_text h = (let t = slashed (head_fields h) @ pages_text (ch_pages h) in pad_left 8 (dec_int (int (length t) + 9)) @ 47 # t)"

lemma head_text_facts:
  assumes "head_ok h"
  defines "t \<equiv> slashed (head_fields h) @ pages_text (ch_pages h)"
  shows "length t \<le> 57000053" "length (dec_int (int (length t) + 9)) \<le> 8" "length (head_text h) = length t + 9"
proof -
  show l: "length t \<le> 57000053"
    using head_fields_length [OF assms(1)] pages_text_length [of "ch_pages h"] assms by (simp add: head_ok_def)
  have "length (dec_int (int (length t) + 9)) \<le> Suc 7" using l by (intro dec_int_fits(2)) auto
  then show "length (dec_int (int (length t) + 9)) \<le> 8" by simp
  then show "length (head_text h) = length t + 9" unfolding head_text_def t_def by (simp add: Let_def pad_left_def)
qed

lemma writeHead_text:
  assumes h: "head_ok h"
  shows "writeHead h = Inr (head_text h, h\<lparr>ch_headlength := int (length (head_text h))\<rparr>)"
proof -
  let ?t = "slashed (head_fields h) @ pages_text (ch_pages h)"
  note f = head_text_facts [OF h]
  obtain b1 where b1: "add_buffer (slashed (head_fields h)) (create_buffer 100) = Inr b1" "buf_ok b1" "buf_data b1 = slashed (head_fields h)"
    using add_buffer_ok [of "create_buffer 100"] by auto
  have n: "nat (ch_nowpage h) = length (ch_pages h)" "list_all page_ok (ch_pages h)" using h by (simp_all add: head_ok_def)
  obtain b2 where b2: "write_pages (nat (ch_nowpage h)) (ch_pages h) b1 = Inr b2" "buf_data b2 = ?t"
    using write_pages_print [OF n(2) b1(2)] b1(3) n(1) by auto
  have i: "to_int (int (length ?t) + 8 + 1) = int (length ?t) + 9" using f(1) by (subst to_int_id) auto
  have "\<not> 64 \<le> length (slashed (head_fields h))" using head_fields_length [OF h] by simp
  then have "writeHead h = (let headlength = length ?t; t = pad_left 8 (dec_int (to_int (int headlength + 8 + 1))) @ 47 # ?t
    in if headlength + 32 \<le> length t then Inl BufferOverflow else Inr (t, h\<lparr>ch_headlength := int (length t)\<rparr>))"
    unfolding writeHead_def sprintf64_def using b1(1) b2 by simp
  also have "\<dots> = (if length ?t + 32 \<le> length (head_text h) then Inl BufferOverflow else Inr (head_text h, h\<lparr>ch_headlength := int (length (head_text h))\<rparr>))"
    unfolding Let_def i head_text_def ..
  finally show ?thesis using f(3) by simp
qed

lemma head_text_shape:
  assumes h: "head_ok h"
  shows "head_text h = pad_left 8 (dec_int (int (length (head_text h)))) @ 47 # slashed (head_fields h) @ pages_text (ch_pages h)"
    and "length (dec_int (int (length (head_text h)))) \<le> 8" "int (length (head_text h)) < 2 ^ 31"
proof -
  have n: "int (length (head_text h)) = int (length (slashed (head_fields h) @ pages_text (ch_pages h))) + 9"
    using head_text_facts(3) [OF h] by simp
  show "head_text h = pad_left 8 (dec_int (int (length (head_text h)))) @ 47 # slashed (head_fields h) @ pages_text (ch_pages h)"
    unfolding n by (simp only: head_text_def Let_def)
  show "length (dec_int (int (length (head_text h)))) \<le> 8" "int (length (head_text h)) < 2 ^ 31"
    unfolding n using head_text_facts(1,2) [OF h] by simp_all
qed

lemma scan_head_print:
  assumes h: "head_ok h"
  shows "scan_head (head_text h @ s) h0 = h0\<lparr>ch_headlength := int (length (head_text h)), ch_totallength := ch_totallength h,
    ch_totalpage := ch_totalpage h, ch_nowpage := ch_nowpage h, ch_taskid := ch_taskid h, ch_batchid := ch_batchid h\<rparr>"
proof -
  let ?n = "int (length (head_text h))"
  let ?fs = "[conv_low, conv_d, conv_d, conv_d, conv_d]"
  note shape = head_text_shape [OF h]
  have n: "0 \<le> ?n" by simp
  have front: "head_text h @ s = replicate (8 - length (dec_int ?n)) 32 @ dec_int ?n @ 47 # slashed (head_fields h) @ pages_text (ch_pages h) @ s"
    using arg_cong [OF shape(1), of "\<lambda>t. t @ s"] by (simp only: pad_left_def append_assoc append_Cons)
  have "scan_number 8 (head_text h @ s) = Some (?n, 47 # slashed (head_fields h) @ pages_text (ch_pages h) @ s)"
    unfolding front by (rule scan_number_print [OF shape(2)])
  moreover have "scan_slashed (map (Pair None) ?fs) (slashed (head_fields h) @ pages_text (ch_pages h) @ s) = map2 (\<lambda>f v. f v) ?fs (head_fields h)"
    by (rule scan_slashed_print) (simp add: head_fields_def)
  moreover have "map2 (\<lambda>f v. f v) ?fs (head_fields h) = [ch_totallength h, ch_totalpage h, ch_nowpage h, ch_taskid h, ch_batchid h]"
    using h by (simp add: head_fields_def head_ok_def int_range_def)
  ultimately have "scan_slashed ((Some 8, conv_low) # map (Pair None) ?fs) (head_text h @ s)
      = [?n, ch_totallength h, ch_totalpage h, ch_nowpage h, ch_taskid h, ch_batchid h]"
    using n shape(3) by simp
  then show ?thesis unfolding scan_head_def by (simp add: nth_else_def Let_def)
qed

lemma readHead_text:
  assumes h: "head_ok h"
  shows "readHead (head_text h @ s) ContentHead0 = Inr (h\<lparr>ch_headlength := int (length (head_text h))\<rparr>)"
proof -
  let ?n = "int (length (head_text h))"
  let ?h = "ContentHead0\<lparr>ch_headlength := ?n, ch_totallength := ch_totallength h,
    ch_totalpage := ch_totalpage h, ch_nowpage := ch_nowpage h, ch_taskid := ch_taskid h, ch_batchid := ch_batchid h\<rparr>"
  let ?p = "pad_left 8 (dec_int (to_int ?n)) @ 47 # slashed (head_fields h)"
  note shape = head_text_shape [OF h]
  have n: "to_int ?n = ?n" using shape(3) by (intro to_int_id) simp_all
  have whole: "head_text h @ s = ?p @ pages_text (ch_pages h) @ s"
    using arg_cong [OF shape(1), of "\<lambda>t. t @ s"] unfolding n by (simp only: append_assoc append_Cons)
  have p: "length ?p < 64" using head_fields_length [OF h] shape(2) n by (simp add: pad_left_def)
  have hf: "head_fields ?h = head_fields h" by (simp add: head_fields_def)
  have now: "ch_nowpage h = int (length (ch_pages h))" "list_all page_ok (ch_pages h)" using h by (simp_all add: head_ok_def)
  have sel: "ch_headlength ?h = ?n" by simp
  have sc: "scan_head (head_text h @ s) ContentHead0 = ?h" by (rule scan_head_print [OF h])
  have "skip_bytes (length ?p) (head_text h @ s) = Inr (pages_text (ch_pages h) @ s)" unfolding whole by (simp add: skip_bytes_def)
  moreover have "sprintf64 ?p = Inr ?p" using p by (simp add: sprintf64_def)
  ultimately have "readHead (head_text h @ s) ContentHead0
      = bind_r (read_pages (length (ch_pages h)) (pages_text (ch_pages h) @ s)) (\<lambda>ps. Inr (?h\<lparr>ch_pages := ps\<rparr>))"
    unfolding readHead_def sc Let_def sel hf by (simp add: now(1))
  also have "\<dots> = Inr (?h\<lparr>ch_pages := ch_pages h\<rparr>)" by (simp add: read_pages_print [OF now(2)])
  also have "?h\<lparr>ch_pages := ch_pages h\<rparr> = h\<lparr>ch_headlength := ?n\<rparr>" by (simp add: ContentHead0_def)
  finally show ?thesis .
qed

section \<open>Pages one behind the other\<close>

text \<open>What the code relies on: zlib gives back what it compressed, whatever follows, when the buffer is large enough.\<close>

definition zlib_works :: "pageenv \<Rightarrow> bool" where
  "zlib_works env \<longleftrightarrow> (\<forall>x y n. if length x \<le> n then pe_uncompress env (pe_compress env x @ y) n = (0, x)
     else fst (pe_uncompress env (pe_compress env x @ y) n) = Z_BUF_ERROR)"

lemma zlibD:
  assumes "zlib_works env"
  shows "length x \<le> n \<Longrightarrow> pe_uncompress env (pe_compress env x @ y) n = (0, x)"
    "n < length x \<Longrightarrow> fst (pe_uncompress env (pe_compress env x @ y) n) = Z_BUF_ERROR"
proof -
  have z: "if length x \<le> n then pe_uncompress env (pe_compress env x @ y) n = (0, x)
     else fst (pe_uncompress env (pe_compress env x @ y) n) = Z_BUF_ERROR" for n
    using assms unfolding zlib_works_def by blast
  show "length x \<le> n \<Longrightarrow> pe_uncompress env (pe_compress env x @ y) n = (0, x)" using z [of n] by simp
  show "n < length x \<Longrightarrow> fst (pe_uncompress env (pe_compress env x @ y) n) = Z_BUF_ERROR" using z [of n] by simp
qed

lemma inf_loop_finds:
  "zlib_works env \<Longrightarrow> \<exists>n\<in>set ns. length x \<le> n \<Longrightarrow> inf_loop (pe_uncompress env) (pe_compress env x @ y) ns = (0, x)"
proof (induction ns)
  case (Cons n ns)
  show ?case
  proof (cases "length x \<le> n")
    case True
    then show ?thesis using zlibD(1) [OF Cons.prems(1)] by (simp add: Z_BUF_ERROR_def)
  next
    case False
    obtain ret out where r: "pe_uncompress env (pe_compress env x @ y) n = (ret, out)" by (cases "pe_uncompress env (pe_compress env x @ y) n")
    have "ret = Z_BUF_ERROR" using zlibD(2) [OF Cons.prems(1), of n x y] False r by simp
    moreover have "\<exists>n\<in>set ns. length x \<le> n" "ns \<noteq> []" using Cons.prems(2) False by auto
    ultimately show ?thesis using Cons.IH [OF Cons.prems(1)] r by simp
  qed
qed simp

lemma inf_works: "zlib_works env \<Longrightarrow> length x \<le> 64 * length (pe_compress env x) \<Longrightarrow> inf (pe_uncompress env) (pe_compress env x @ y) = (0, x)"
  unfolding inf_def by (rule inf_loop_finds) (auto intro!: bexI [of _ 5])

text \<open>A record for a list of pages: number of the node, number of the page and bytes.\<close>

type_synonym saved_page = "int \<times> int \<times> bytes"

fun heads_from :: "nat \<Rightarrow> saved_page list \<Rightarrow> pagehead list" where
  "heads_from off [] = []"
| "heads_from off ((i, n, b) # ps) = \<lparr>ph_id = i, ph_offset = int off, ph_length = int (length b), ph_page = n\<rparr> # heads_from (off + length b) ps"

definition all_pages :: "saved_page list \<Rightarrow> bytes" where
  "all_pages ps = concat (map (\<lambda>(_, _, b). b) ps)"

definition head_of :: "int \<Rightarrow> int \<Rightarrow> int \<Rightarrow> saved_page list \<Rightarrow> contenthead" where
  "head_of tot taskid batch ps = \<lparr>ch_totallength = int (length (all_pages ps)), ch_headlength = 0, ch_totalpage = tot,
     ch_nowpage = int (length ps), ch_taskid = taskid, ch_batchid = batch, ch_pages = heads_from 0 ps\<rparr>"

definition record_of :: "pageenv \<Rightarrow> int \<Rightarrow> int \<Rightarrow> int \<Rightarrow> saved_page list \<Rightarrow> bytes" where
  "record_of env tot taskid batch ps = head_text (head_of tot taskid batch ps) @ pe_compress env (all_pages ps)"

definition pages_fit :: "int \<Rightarrow> int \<Rightarrow> int \<Rightarrow> saved_page list \<Rightarrow> bool" where
  "pages_fit tot taskid batch ps \<longleftrightarrow> length (all_pages ps) < 2 ^ 31 \<and> 0 \<le> tot \<and> tot < 10000000 \<and> length ps \<le> 1000000
     \<and> int_range taskid \<and> int_range batch \<and> list_all (\<lambda>(i, n, b). 0 \<le> i \<and> i < 2 ^ 64 \<and> int_range n) ps"

lemma length_heads [simp]: "length (heads_from off ps) = length ps"
  by (induction off ps rule: heads_from.induct) auto

lemma heads_append: "heads_from off (ps @ qs) = heads_from off ps @ heads_from (off + length (all_pages ps)) qs"
  by (induction off ps rule: heads_from.induct) (auto simp: all_pages_def add_ac)

lemma heads_ok: "off + length (all_pages ps) < 2 ^ 31 \<Longrightarrow> list_all (\<lambda>(i, n, b). 0 \<le> i \<and> i < 2 ^ 64 \<and> int_range n) ps \<Longrightarrow> list_all page_ok (heads_from off ps)"
  by (induction off ps rule: heads_from.induct) (auto simp: all_pages_def page_ok_def)

lemma head_of_ok: "pages_fit tot taskid batch ps \<Longrightarrow> head_ok (head_of tot taskid batch ps)"
  using heads_ok [of 0 ps] by (simp add: pages_fit_def head_ok_def head_of_def)

lemma listed: "list_ex (\<lambda>p. ph_id p = i \<and> ph_page p = n) (heads_from off ps) \<longleftrightarrow> (\<exists>b. (i, n, b) \<in> set ps)"
  by (induction off ps rule: heads_from.induct) auto

lemma first_page_record:
  assumes "writePageHead env node rh (int (length content)) = Inr ph" "u_taskid node = taskid" "u_taskbatch node = batch"
    and fit: "pages_fit nextpage taskid batch [(u_id node, u_page node, ph @ content)]"
  shows "first_page env node rh content nextpage = Inr (record_of env nextpage taskid batch [(u_id node, u_page node, ph @ content)])"
proof -
  let ?h = "head_of nextpage taskid batch [(u_id node, u_page node, ph @ content)]"
  have "writeHead ?h = Inr (head_text ?h, ?h\<lparr>ch_headlength := int (length (head_text ?h))\<rparr>)" by (rule writeHead_text [OF head_of_ok [OF fit]])
  moreover have "?h = \<lparr>ch_totallength = int (length ph + length content), ch_headlength = 0, ch_totalpage = nextpage, ch_nowpage = 1, ch_taskid = u_taskid node,
          ch_batchid = u_taskbatch node, ch_pages = [\<lparr>ph_id = u_id node, ph_offset = 0, ph_length = int (length ph + length content), ph_page = u_page node\<rparr>]\<rparr>"
    using assms(2,3) by (simp add: head_of_def all_pages_def)
  ultimately show ?thesis using assms(1) unfolding first_page_def record_of_def by (simp add: Let_def all_pages_def)
qed

lemma head_text_length_free [simp]: "head_text (h\<lparr>ch_headlength := x\<rparr>) = head_text h" "head_ok (h\<lparr>ch_headlength := x\<rparr>) = head_ok h"
  by (simp_all add: head_text_def head_fields_def head_ok_def)

lemma head_of_append:
  "appendPageHead \<lparr>ph_id = i, ph_offset = int (length (all_pages ps)), ph_length = int (length b), ph_page = n\<rparr>
     ((head_of tot taskid batch ps)\<lparr>ch_headlength := x, ch_totalpage := tot + 1, ch_totallength := int (length (all_pages ps)) + int (length b)\<rparr>)
   = (head_of (tot + 1) taskid batch (ps @ [(i, n, b)]))\<lparr>ch_headlength := x\<rparr>"
  by (simp add: appendPageHead_def head_of_def heads_append all_pages_def)

lemma next_page_record:
  assumes z: "zlib_works env" and ph: "writePageHead env node rh (int (length content)) = Inr ph"
    and d: "datbuf d = Some (record_of env tot taskid batch ps)"
    and len: "int (length (record_of env tot taskid batch ps)) \<le> datlen d" "datlen d \<le> int (length (record_of env tot taskid batch ps)) + 2"
    and ratio: "length (all_pages ps) \<le> 64 * length (pe_compress env (all_pages ps))"
    and fit: "pages_fit tot taskid batch ps" "pages_fit (tot + 1) taskid batch (ps @ [(u_id node, u_page node, ph @ content)])"
  shows "next_page env node rh content d = (if \<exists>b. (u_id node, u_page node, b) \<in> set ps then Inr None
    else Inr (Some (record_of env (tot + 1) taskid batch (ps @ [(u_id node, u_page node, ph @ content)]), int (length ps) + 1)))"
proof (cases "\<exists>b. (u_id node, u_page node, b) \<in> set ps")
  case True
  have "readHead (record_of env tot taskid batch ps) ContentHead0
      = Inr ((head_of tot taskid batch ps)\<lparr>ch_headlength := int (length (head_text (head_of tot taskid batch ps)))\<rparr>)"
    unfolding record_of_def by (rule readHead_text [OF head_of_ok [OF fit(1)]])
  then show ?thesis using True listed [of "u_id node" "u_page node" 0 ps] by (simp add: next_page_def d head_of_def)
next
  case False
  let ?h = "head_of tot taskid batch ps" and ?z = "pe_compress env (all_pages ps)" and ?p = "(u_id node, u_page node, ph @ content)"
  let ?l = "int (length (head_text ?h))" and ?g = "head_of (tot + 1) taskid batch (ps @ [?p])"
  have rh: "readHead (record_of env tot taskid batch ps) ContentHead0 = Inr (?h\<lparr>ch_headlength := ?l\<rparr>)"
    unfolding record_of_def by (rule readHead_text [OF head_of_ok [OF fit(1)]])
  have new: "\<not> list_ex (\<lambda>p. ph_id p = u_id node \<and> ph_page p = u_page node) (ch_pages (?h\<lparr>ch_headlength := ?l\<rparr>))"
    using False listed [of "u_id node" "u_page node" 0 ps] by (simp add: head_of_def)
  have bounds: "\<not> (datlen d < ?l \<or> int (length (record_of env tot taskid batch ps)) + 2 < datlen d)"
    using len by (simp add: record_of_def)
  have "take (nat (datlen d - ?l)) (drop (nat ?l) (record_of env tot taskid batch ps @ [0, 0])) = ?z @ take (nat (datlen d - ?l) - length ?z) [0, 0]"
    using len by (simp add: record_of_def)
  then have src: "snd (inf (pe_uncompress env) (take (nat (datlen d - ?l)) (drop (nat ?l) (record_of env tot taskid batch ps @ [0, 0])))) = all_pages ps"
    using inf_works [OF z ratio] by simp
  have all: "all_pages (ps @ [?p]) = all_pages ps @ ph @ content" by (simp add: all_pages_def)
  have head: "appendPageHead \<lparr>ph_id = u_id node, ph_offset = int (length (all_pages ps)), ph_length = int (length content + length ph), ph_page = u_page node\<rparr>
      ((?h\<lparr>ch_headlength := ?l\<rparr>)\<lparr>ch_totalpage := ch_totalpage (?h\<lparr>ch_headlength := ?l\<rparr>) + 1,
        ch_totallength := ch_totallength (?h\<lparr>ch_headlength := ?l\<rparr>) + int (length content + length ph)\<rparr>) = ?g\<lparr>ch_headlength := ?l\<rparr>"
    using head_of_append [where i="u_id node" and ps=ps and b="ph @ content" and n="u_page node" and tot=tot and taskid=taskid and batch=batch and x="?l"]
    by (simp add: head_of_def add_ac)
  have ok: "head_ok (?g\<lparr>ch_headlength := ?l\<rparr>)" using head_of_ok [OF fit(2)] by simp
  have "writeHead (?g\<lparr>ch_headlength := ?l\<rparr>) = Inr (head_text ?g, ?g\<lparr>ch_headlength := int (length (head_text ?g))\<rparr>)"
    using writeHead_text [OF ok] by simp
  moreover have "nat (ch_totallength ?g) = length (all_pages ps @ ph @ content)" "\<not> int (length (all_pages ps @ ph @ content)) < ch_totallength ?g"
    by (simp_all add: head_of_def all)
  moreover have "record_of env (tot + 1) taskid batch (ps @ [?p]) = head_text ?g @ pe_compress env (all_pages ps @ ph @ content)"
    by (simp only: record_of_def all)
  moreover have "ch_nowpage ?g = int (length ps) + 1" by (simp add: head_of_def)
  moreover have hl: "ch_headlength (?h\<lparr>ch_headlength := ?l\<rparr>) = ?l" by simp
  ultimately show ?thesis
    unfolding next_page_def d option.case rh bind_r_simps if_not_P [OF new] ph hl if_not_P [OF bounds] Let_def src head
    using False by simp
qed

section \<open>Through the databases\<close>

definition has_table :: "nat \<Rightarrow> dbaccess \<Rightarrow> bytes \<Rightarrow> nat \<Rightarrow> dbaccesstype \<Rightarrow> (bytes \<Rightarrow> bytes \<Rightarrow> bytes option) \<Rightarrow> bool" where
  "has_table c acc name tab t M \<longleftrightarrow> map_of (dbsuffix acc) name = Some tab \<and> tab < length (tables acc) \<and> tables acc ! tab = Some t
     \<and> tab_ok c (acc_dir acc) (acc_disk acc) t M"

lemma has_tableD:
  "has_table c acc name tab t M \<Longrightarrow> load_table now name acc = Inr (tab, acc)"
  "has_table c acc name tab t M \<Longrightarrow> f (acc_dir acc) (acc_disk acc) t = Inr (a, t') \<Longrightarrow> on_table tab f acc = Inr (a, acc\<lparr>tables := (tables acc)[tab := Some t']\<rparr>)"
  "has_table c acc name tab t M \<Longrightarrow> tab_ok c (acc_dir acc) (acc_disk acc) t M"
  "has_table c acc name tab t M \<Longrightarrow> tab_ok c (acc_dir acc) (acc_disk acc) t' M' \<Longrightarrow> has_table c (acc\<lparr>tables := (tables acc)[tab := Some t']\<rparr>) name tab t' M'"
  by (auto simp: has_table_def load_table_def on_table_def)

lemma acc_get_outcome:
  assumes h: "has_table c acc name tab t M"
  shows "\<exists>d f t'. acc_get now tab g key None acc = Inr ((d, f, None), acc\<lparr>tables := (tables acc)[tab := Some t']\<rparr>)
    \<and> (case d of None \<Rightarrow> None | Some d \<Rightarrow> datbuf d) = look_up M (names t) key \<and> (d = None \<longleftrightarrow> look_up M (names t) key = None) \<and> (d = None \<longrightarrow> f = g)
    \<and> (d \<noteq> None \<longrightarrow> names_first t' M key f)
    \<and> tab_ok c (acc_dir acc) (acc_disk acc) t' M \<and> names t' = names t \<and> length (dbs t') = length (dbs t)"
proof -
  obtain d f t' where g: "get_in now (acc_dir acc) (acc_disk acc) g key None t = Inr (d, f, None, t')"
    "(case d of None \<Rightarrow> None | Some d \<Rightarrow> datbuf d) = look_up M (names t) key" "d = None \<longleftrightarrow> look_up M (names t) key = None" "d = None \<longrightarrow> f = g"
    "d \<noteq> None \<longrightarrow> names_first t' M key f" "tab_ok c (acc_dir acc) (acc_disk acc) t' M" "names t' = names t" "length (dbs t') = length (dbs t)"
    using get_in_outcome [OF has_tableD(3) [OF h]] by blast
  have "acc_get now tab g key None acc = Inr ((d, f, None), acc\<lparr>tables := (tables acc)[tab := Some t']\<rparr>)"
    unfolding acc_get_def by (rule has_tableD(2) [OF h]) (simp add: g(1))
  then show ?thesis using g(2-8) by (intro exI [of _ d] exI [of _ f] exI [of _ t'] conjI) simp_all
qed


lemma acc_store_outcome:
  assumes h: "has_table c acc name tab t M" and l: "length (dbs t) \<le> 100" "0 \<le> now" "now < 2 ^ 63" "good_key c key" "key \<noteq> []"
    "length data \<le> 2097152" "names_first t M key fileno"
  shows "\<exists>r f t' M'. acc_store now tab key data fileno None acc = Inr ((r, f, None), acc\<lparr>tables := (tables acc)[tab := Some t']\<rparr>)
    \<and> (r = 0 \<or> r = 1) \<and> tab_ok c (acc_dir acc) (acc_disk acc) t' M' \<and> look_up M' (names t') = (look_up M (names t))(key \<mapsto> data)"
proof -
  obtain r f t' M' where g: "store_in now (acc_dir acc) (acc_disk acc) key data fileno None t = Inr (r, f, None, t')" "r = 0 \<or> r = 1"
    "tab_ok c (acc_dir acc) (acc_disk acc) t' M'" "look_up M' (names t') = (look_up M (names t))(key \<mapsto> data)"
    using store_in_outcome [OF has_tableD(3) [OF h] l] by blast
  have "acc_store now tab key data fileno None acc = Inr ((r, f, None), acc\<lparr>tables := (tables acc)[tab := Some t']\<rparr>)"
    unfolding acc_store_def by (rule has_tableD(2) [OF h]) (simp add: g(1))
  then show ?thesis using g(2-4) by (intro exI [of _ r] exI [of _ f] exI [of _ t'] exI [of _ M'] conjI) simp_all
qed

lemma readHead_record:
  "pages_fit tot taskid batch ps \<Longrightarrow> readHead (record_of env tot taskid batch ps) ContentHead0
     = Inr ((head_of tot taskid batch ps)\<lparr>ch_headlength := int (length (head_text (head_of tot taskid batch ps)))\<rparr>)"
  unfolding record_of_def by (rule readHead_text [OF head_of_ok])

lemma read_record:
  assumes h: "has_table c acc (getContentDBName task) tab t M" and fit: "pages_fit tot taskid batch ps"
    and rec: "look_up M (names t) (getRecordKeyName uid) = Some (record_of env tot taskid batch ps)"
  shows "\<exists>d acc'. readContent now uid task acc = Inr (d, acc')
    \<and> (if tot = int (length ps) then \<exists>e. d = Some e \<and> datbuf e = Some (record_of env tot taskid batch ps) else d = None)"
proof -
  obtain d f t' where g: "acc_get now tab [] (getRecordKeyName uid) None acc = Inr ((d, f, None), acc\<lparr>tables := (tables acc)[tab := Some t']\<rparr>)"
    "(case d of None \<Rightarrow> None | Some d \<Rightarrow> datbuf d) = look_up M (names t) (getRecordKeyName uid)"
    using acc_get_outcome [OF h] by blast
  obtain e where e: "d = Some e" "datbuf e = Some (record_of env tot taskid batch ps)" using g(2) rec by (cases d) auto
  have "readContent now uid task acc = Inr (if ch_totalpage (head_of tot taskid batch ps) \<noteq> ch_nowpage (head_of tot taskid batch ps) then None
      else Some e, acc\<lparr>tables := (tables acc)[tab := Some t']\<rparr>)"
    unfolding readContent_def has_tableD(1) [OF h] bind_r_simps prod.case g(1) e option.case readHead_record [OF fit] by simp
  then show ?thesis using e by (auto simp: head_of_def)
qed

lemma record_key_nonempty [simp]: "getRecordKeyName uid \<noteq> []"
  by (simp add: getRecordKeyName_def dec_int_def)

lemma set_table_facts [simp]: "dbsuffix (acc\<lparr>tables := x\<rparr>) = dbsuffix acc" "acc_dir (acc\<lparr>tables := x\<rparr>) = acc_dir acc"
  "acc_disk (acc\<lparr>tables := x\<rparr>) = acc_disk acc" "tables (acc\<lparr>tables := x\<rparr>) = x"
  by simp_all

lemma complete_text:
  assumes fit: "pages_fit tot taskid batch ps" "pages_fit (int (length ps)) taskid batch ps"
  shows "complete_record (record_of env tot taskid batch ps) = Inr (record_of env (int (length ps)) taskid batch ps)"
proof -
  let ?h = "head_of tot taskid batch ps" and ?g = "head_of (int (length ps)) taskid batch ps"
  let ?l = "int (length (head_text ?h))"
  have eq: "(?h\<lparr>ch_headlength := ?l\<rparr>)\<lparr>ch_totalpage := ch_nowpage (?h\<lparr>ch_headlength := ?l\<rparr>)\<rparr> = ?g\<lparr>ch_headlength := ?l\<rparr>"
    by (simp add: head_of_def)
  have w: "writeHead (?g\<lparr>ch_headlength := ?l\<rparr>) = Inr (head_text ?g, ?g\<lparr>ch_headlength := int (length (head_text ?g))\<rparr>)"
    using writeHead_text [of "?g\<lparr>ch_headlength := ?l\<rparr>"] head_of_ok [OF fit(2)] by simp
  have "length (slashed (head_fields ?g)) \<le> 53" by (rule head_fields_length [OF head_of_ok [OF fit(2)]])
  moreover have "ch_pages ?g = ch_pages ?h" by (simp add: head_of_def)
  ultimately have "length (head_text ?g) \<le> length (head_text ?h) + 53"
    using head_text_facts(3) [OF head_of_ok [OF fit(1)]] head_text_facts(3) [OF head_of_ok [OF fit(2)]] by simp
  then have b: "\<not> int (length (record_of env tot taskid batch ps)) < ?l"
    "\<not> int (length (record_of env tot taskid batch ps)) + 100 < int (length (record_of env tot taskid batch ps)) - ?l + int (length (head_text ?g))"
    by (simp_all add: record_of_def)
  have sel: "ch_headlength (?h\<lparr>ch_headlength := x\<rparr>) = x" "ch_headlength (?g\<lparr>ch_headlength := x\<rparr>) = x" for x by simp_all
  show ?thesis
    unfolding complete_record_def readHead_record [OF fit(1)] bind_r_simps Let_def eq w prod.case sel if_not_P [OF b(1)] if_not_P [OF b(2)]
    by (simp add: record_of_def)
qed

section \<open>The properties\<close>

text \<open>
  C40. A head that is written with its list of pages is read back as it was, its own length filled in, whatever follows it.
\<close>

theorem heads_roundtrip:
  assumes "head_ok h"
  shows "\<exists>buf h'. writeHead h = Inr (buf, h') \<and> ch_headlength h' = int (length buf)
    \<and> (\<forall>s. readHead (buf @ s) ContentHead0 = Inr (h\<lparr>ch_headlength := int (length buf)\<rparr>))"
  using writeHead_text [OF assms] readHead_text [OF assms] by simp

text \<open>
  C38. A page that a record does not have is put behind its pages: the new record lists all pages with their places, expects one page
  more than before and holds their bytes one behind the other. A page that it has is not stored again.
\<close>

theorem page_is_appended:
  assumes "zlib_works env" "writePageHead env node rh (int (length content)) = Inr ph" "datbuf d = Some (record_of env tot taskid batch ps)"
    and "int (length (record_of env tot taskid batch ps)) \<le> datlen d" "datlen d \<le> int (length (record_of env tot taskid batch ps)) + 2"
    and "length (all_pages ps) \<le> 64 * length (pe_compress env (all_pages ps))"
    and "pages_fit tot taskid batch ps" "pages_fit (tot + 1) taskid batch (ps @ [(u_id node, u_page node, ph @ content)])"
  shows "next_page env node rh content d = (if \<exists>b. (u_id node, u_page node, b) \<in> set ps then Inr None
    else Inr (Some (record_of env (tot + 1) taskid batch (ps @ [(u_id node, u_page node, ph @ content)]), int (length ps) + 1)))"
  by (rule next_page_record [OF assms])


text \<open>
  C39. A record that waits for pages that do not come is completed by \<open>altertotalpageforced\<close>: it expects just the pages that it has, and it
  is read from then on; all other records stay.
\<close>

theorem completed_record_is_read:
  assumes h: "has_table c acc (getContentDBName (u_taskid node)) tab t M" and url: "map_of (dbsuffix acc) (getUrlDBName (u_taskid node)) = Some tab2"
    and lim: "length (dbs t) \<le> 100" "0 \<le> now" "now < 2 ^ 63" "good_key c (getRecordKeyName (u_id node))"
    and rec: "look_up M (names t) (getRecordKeyName (u_id node)) = Some (record_of env tot taskid batch ps)"
    and fit: "pages_fit tot taskid batch ps" "pages_fit (int (length ps)) taskid batch ps"
    and len: "length (record_of env (int (length ps)) taskid batch ps) \<le> 2097152"
  shows "\<exists>acc' t' M' e acc''. altertotalpageforced now node acc = Inr acc'
    \<and> has_table c acc' (getContentDBName (u_taskid node)) tab t' M'
    \<and> look_up M' (names t') = (look_up M (names t))(getRecordKeyName (u_id node) \<mapsto> record_of env (int (length ps)) taskid batch ps)
    \<and> readContent now (u_id node) (u_taskid node) acc' = Inr (Some e, acc'') \<and> datbuf e = Some (record_of env (int (length ps)) taskid batch ps)"
proof -
  let ?key = "getRecordKeyName (u_id node)" and ?data = "record_of env (int (length ps)) taskid batch ps"
  obtain d f t1 where g: "acc_get now tab [] ?key None acc = Inr ((d, f, None), acc\<lparr>tables := (tables acc)[tab := Some t1]\<rparr>)"
    "(case d of None \<Rightarrow> None | Some d \<Rightarrow> datbuf d) = look_up M (names t) ?key" "d \<noteq> None \<longrightarrow> names_first t1 M ?key f"
    "tab_ok c (acc_dir acc) (acc_disk acc) t1 M" "names t1 = names t" "length (dbs t1) = length (dbs t)"
    using acc_get_outcome [OF h] by blast
  obtain e where e: "d = Some e" "datbuf e = Some (record_of env tot taskid batch ps)" using g(2) rec by (cases d) auto
  define acc1 where "acc1 = acc\<lparr>tables := (tables acc)[tab := Some t1]\<rparr>"
  have h1: "has_table c acc1 (getContentDBName (u_taskid node)) tab t1 M" unfolding acc1_def by (rule has_tableD(4) [OF h g(4)])
  have l1: "length (dbs t1) \<le> 100" "length ?data \<le> 2097152" "names_first t1 M ?key f" using lim(1) g(3,6) len e(1) by simp_all
  obtain r f' t' M' where s: "acc_store now tab ?key ?data f None acc1 = Inr ((r, f', None), acc1\<lparr>tables := (tables acc1)[tab := Some t']\<rparr>)"
    "tab_ok c (acc_dir acc1) (acc_disk acc1) t' M'" "look_up M' (names t') = (look_up M (names t1))(?key \<mapsto> ?data)"
    using acc_store_outcome [OF h1 l1(1) lim(2-4) record_key_nonempty l1(2,3)] by blast
  define acc2 where "acc2 = acc1\<lparr>tables := (tables acc1)[tab := Some t']\<rparr>"
  have h2: "has_table c acc2 (getContentDBName (u_taskid node)) tab t' M'" unfolding acc2_def by (rule has_tableD(4) [OF h1 s(2)])
  have u: "load_table now (getUrlDBName (u_taskid node)) acc = Inr (tab2, acc)" using url by (simp add: load_table_def)
  have "altertotalpageforced now node acc = Inr acc2"
    unfolding altertotalpageforced_def Let_def has_tableD(1) [OF h] u bind_r_simps prod.case g(1) acc1_def [symmetric] e option.case
      complete_text [OF fit] s(1) acc2_def [symmetric] ..
  moreover have r: "look_up M' (names t') ?key = Some ?data" unfolding s(3) by simp
  obtain x acc3 where x: "readContent now (u_id node) (u_taskid node) acc2 = Inr (x, acc3)"
    "if int (length ps) = int (length ps) then \<exists>e. x = Some e \<and> datbuf e = Some ?data else x = None"
    using read_record [OF h2 fit(2) r] by blast
  then obtain y where y: "x = Some y" "datbuf y = Some ?data" by auto
  moreover have "look_up M' (names t') = (look_up M (names t))(?key \<mapsto> ?data)" unfolding s(3) g(5) ..
  ultimately show ?thesis using h2 x(1)
    by (intro exI [of _ acc2] exI [of _ t'] exI [of _ M'] exI [of _ y] exI [of _ acc3] conjI) simp_all
qed

section \<open>Witnesses\<close>

theorem heads_roundtrip_witness:
  "\<exists>h buf h'. ch_pages h = [\<lparr>ph_id = 7, ph_offset = 0, ph_length = 10, ph_page = -1\<rparr>] \<and> writeHead h = Inr (buf, h')
    \<and> readHead (buf @ [1, 2]) ContentHead0 = Inr (h\<lparr>ch_headlength := int (length buf)\<rparr>)"
proof -
  let ?h = "\<lparr>ch_totallength = 10, ch_headlength = 0, ch_totalpage = 1, ch_nowpage = 1, ch_taskid = 3, ch_batchid = -1,
    ch_pages = [\<lparr>ph_id = 7, ph_offset = 0, ph_length = 10, ph_page = -1\<rparr>]\<rparr>"
  have "head_ok ?h" by (simp add: head_ok_def page_ok_def int_range_def)
  then obtain buf h' where "writeHead ?h = Inr (buf, h')" "\<forall>s. readHead (buf @ s) ContentHead0 = Inr (?h\<lparr>ch_headlength := int (length buf)\<rparr>)"
    using heads_roundtrip [of ?h] by blast
  then show ?thesis by (intro exI [of _ ?h] exI [of _ buf] exI [of _ h'] conjI) simp_all
qed

text \<open>A compressor that marks every byte and the end.\<close>

definition marked :: "bytes \<Rightarrow> bytes" where
  "marked x = concat (map (\<lambda>b. [1, b]) x) @ [0]"

fun unmarked :: "bytes \<Rightarrow> bytes" where
  "unmarked (m # b # s) = (if m = 1 then b # unmarked s else [])"
| "unmarked s = []"

definition marking_env :: pageenv where
  "marking_env = \<lparr>pe_now = 0, pe_compress = marked,
     pe_uncompress = (\<lambda>s n. if length (unmarked s) \<le> n then (0, unmarked s) else (Z_BUF_ERROR, [])), pe_spiderid = 1\<rparr>"

lemma unmarked_marked [simp]: "unmarked (marked x @ y) = x"
proof (induction x)
  case Nil
  show ?case by (cases y) (simp_all add: marked_def)
qed (simp add: marked_def)

lemma length_marked [simp]: "length (marked x) = 2 * length x + 1"
  by (induction x) (simp_all add: marked_def)

lemma marking_works: "zlib_works marking_env"
  by (simp add: zlib_works_def marking_env_def)

definition small_node :: "urlnode \<Rightarrow> urlnode" where
  "small_node j = UrlNode0 j\<lparr>u_url := [104], u_taskid := 1, u_id := 7, u_page := 1\<rparr>"

definition small_response :: response where
  "small_response = \<lparr>rh_contenttype = [116], rh_charset = [117]\<rparr>"

lemma small_head:
  "\<exists>ph. writePageHead marking_env (small_node j) small_response 1 = Inr ph \<and> length ph \<le> 400"
  "\<exists>ph. writePageHead marking_env (small_node j\<lparr>u_page := 2\<rparr>) small_response 1 = Inr ph \<and> length ph \<le> 400"
  by (simp_all add: writePageHead_def page_line_def small_node_def UrlNode0_def small_response_def marking_env_def c_str_def bytes_of_def
      MAX_URL_LEN_def dec_int_def dec_nat.simps)

lemma small_pages:
  assumes "length ph \<le> 400" "length x \<le> 1" "0 \<le> n" "n \<le> 5"
  shows "pages_fit n 1 (-1) [(7, 1, ph @ x)]" "pages_fit n 1 (-1) [(7, 1, [65]), (7, 2, ph @ x)]"
    "length (record_of marking_env n 1 (-1) [(7, 1, ph @ x)]) \<le> 2097152"
proof -
  show fit: "pages_fit n 1 (-1) [(7, 1, ph @ x)]" "pages_fit n 1 (-1) [(7, 1, [65]), (7, 2, ph @ x)]"
    using assms by (auto simp: pages_fit_def int_range_def all_pages_def)
  have ok: "head_ok (head_of n 1 (-1) [(7, 1, ph @ x)])" by (rule head_of_ok [OF fit(1)])
  have l: "length (ch_pages (head_of n 1 (-1) [(7, 1, ph @ x)])) = 1" by (simp add: head_of_def)
  have "length (pages_text (ch_pages (head_of n 1 (-1) [(7, 1, ph @ x)]))) \<le> 57"
    using pages_text_length [of "ch_pages (head_of n 1 (-1) [(7, 1, ph @ x)])"] ok l by (simp add: head_ok_def)
  then show "length (record_of marking_env n 1 (-1) [(7, 1, ph @ x)]) \<le> 2097152"
    using head_text_facts(3) [OF ok] head_fields_length [OF ok] assms by (simp add: record_of_def marking_env_def all_pages_def)
qed

theorem page_is_appended_witness:
  "\<forall>j. \<exists>ph d. next_page marking_env (small_node j\<lparr>u_page := 2\<rparr>) small_response [66] d
    = Inr (Some (record_of marking_env 3 1 (-1) [(7, 1, [65]), (7, 2, ph @ [66])], 2))"
proof
  fix j
  let ?n = "small_node j\<lparr>u_page := 2\<rparr>"
  obtain ph where ph: "writePageHead marking_env ?n small_response (int (length [66 :: u8])) = Inr ph" "length ph \<le> 400"
    using small_head(2) [of j] by auto
  define d where "d = dbd_alloc\<lparr>datbuf := Some (record_of marking_env 2 1 (-1) [(7, 1, [65])]), datlen := int (length (record_of marking_env 2 1 (-1) [(7, 1, [65])]))\<rparr>"
  have d: "datbuf d = Some (record_of marking_env 2 1 (-1) [(7, 1, [65])])"
    "int (length (record_of marking_env 2 1 (-1) [(7, 1, [65])])) \<le> datlen d" "datlen d \<le> int (length (record_of marking_env 2 1 (-1) [(7, 1, [65])])) + 2"
    by (simp_all add: d_def)
  have n: "u_id ?n = 7" "u_page ?n = 2" by (simp_all add: small_node_def)
  have fit: "pages_fit 2 1 (-1) [(7, 1, [65])]" "pages_fit (2 + 1) 1 (-1) ([(7, 1, [65])] @ [(u_id ?n, u_page ?n, ph @ [66])])"
    using small_pages(1) [of "[]" "[65]" 2] small_pages(2) [OF ph(2), of "[66]" 3] by (simp_all add: n)
  have r: "length (all_pages [(7, 1, [65])]) \<le> 64 * length (pe_compress marking_env (all_pages [(7, 1, [65])]))"
    by (simp add: all_pages_def marking_env_def)
  show "\<exists>ph d. next_page marking_env (small_node j\<lparr>u_page := 2\<rparr>) small_response [66] d
    = Inr (Some (record_of marking_env 3 1 (-1) [(7, 1, [65]), (7, 2, ph @ [66])], 2))"
    using page_is_appended [OF marking_works ph(1) d r fit] by (intro exI [of _ ph] exI [of _ d]) (simp add: n)
qed

lemma two_tables:
  "\<exists>acc t. has_table 1 acc (bytes_of ''task_1'') 0 t (\<lambda>_ _. None) \<and> map_of (dbsuffix acc) (bytes_of ''url_task_1'') = Some 1
    \<and> dbs t = [] \<and> names t = [] \<and> acc_dir acc = [46] \<and> bind_r (load_table 0 (bytes_of ''task_1'') (DBAccess [46] (\<lambda>_. None)))
        (\<lambda>(_, acc). load_table 0 (bytes_of ''url_task_1'') acc) = Inr (1, acc)"
proof -
  obtain t where t: "load_table 0 (bytes_of ''task_1'') (DBAccess [46] (\<lambda>_. None))
      = Inr (0, \<lparr>tables = [Some t], dbsuffix = [(bytes_of ''task_1'', 0)], acc_dir = [46], acc_disk = (\<lambda>_. None)\<rparr>)"
    "tab_ok 1 [46] (\<lambda>_. None) t (\<lambda>_ _. None)" "names t = []" "dbs t = []"
    using load_new_table [of "bytes_of ''task_1''" "\<lambda>_. None" 0 "[46]" 1] by (auto simp: bytes_of_def)
  let ?acc = "\<lparr>tables = [Some t], dbsuffix = [(bytes_of ''task_1'', 0)], acc_dir = [46], acc_disk = (\<lambda>_. None)\<rparr> :: dbaccess"
  obtain u where u: "load_table 0 (bytes_of ''url_task_1'') ?acc = Inr (1, ?acc\<lparr>tables := [Some t, Some u],
      dbsuffix := smap_put (bytes_of ''url_task_1'') 1 (dbsuffix ?acc)\<rparr>)"
    using load_fresh_table [of "bytes_of ''url_task_1''" ?acc 0 1] by (auto simp: bytes_of_def)
  show ?thesis
    by (rule exI [of _ "?acc\<lparr>tables := [Some t, Some u], dbsuffix := smap_put (bytes_of ''url_task_1'') 1 (dbsuffix ?acc)\<rparr>"], rule exI [of _ t])
      (simp add: has_table_def t u del: One_nat_def, simp add: bytes_of_def smap_put_def)
qed

lemma small_names: "getContentDBName 1 = bytes_of ''task_1''" "getUrlDBName 1 = bytes_of ''url_task_1''"
  "getRecordKeyName 7 = [55]" "good_key 1 [55]" "u_taskid (small_node j) = 1" "u_taskbatch (small_node j) = -1" "u_id (small_node j) = 7" "u_page (small_node j) = 1"
  by (simp_all add: getContentDBName_def getUrlDBName_def getRecordKeyName_def getTaskDB_def TASKDB_NUM_def small_node_def UrlNode0_def dec_int_def dec_nat.simps
      bytes_of_def good_key_def digits_def)

text \<open>Two pages announced, one saved: the record is not read, until it is completed.\<close>

lemma saved_once:
  "\<exists>acc t ph. has_table 1 acc (bytes_of ''task_1'') 0 t (\<lambda>_ _. None) \<and> map_of (dbsuffix acc) (bytes_of ''url_task_1'') = Some 1
    \<and> dbs t = [] \<and> names t = [] \<and> writePageHead marking_env (small_node j) small_response 1 = Inr ph \<and> length ph \<le> 400"
  using two_tables small_head(1) by blast


theorem completed_record_is_read_witness:
  "\<forall>j. \<exists>acc acc' e acc''. altertotalpageforced 0 (small_node j) acc = Inr acc' \<and> readContent 0 7 1 acc' = Inr (Some e, acc'')
    \<and> datbuf e = Some (record_of marking_env 1 1 (-1) [(7, 1, [65])])"
proof
  fix j
  obtain acc t where s: "has_table 1 acc (bytes_of ''task_1'') 0 t (\<lambda>_ _. None)" "map_of (dbsuffix acc) (bytes_of ''url_task_1'') = Some 1"
    "dbs t = []" "names t = []"
    using two_tables by blast
  let ?data = "record_of marking_env 2 1 (-1) [(7, 1, [65])]"
  note x = small_pages(1,3) [of "[]" "[65]", simplified]
  have ok: "tab_ok 1 (acc_dir acc) (acc_disk acc) t (\<lambda>_ _. None)" by (rule has_tableD(3) [OF s(1)])
  have p: "length (dbs t) \<le> 100" "(0 :: int) \<le> 0" "(0 :: int) < 2 ^ 63" "length ?data \<le> 2097152" using s(3) x(2) [of 2] by simp_all
  obtain f t' xs ys where r: "tab_ok 1 (acc_dir acc) (acc_disk acc) t' ((\<lambda>_ _. None)(f := [[55] \<mapsto> ?data]))" "names t = xs @ ys" "names t' = xs @ f # ys"
    "length (dbs t') \<le> Suc (length (dbs t))"
    using store_new_outcome [OF ok p(1-3) small_names(4) p(4)] by blast
  define acc1 where "acc1 = acc\<lparr>tables := (tables acc)[0 := Some t']\<rparr>"
  have h1: "has_table 1 acc1 (bytes_of ''task_1'') 0 t' ((\<lambda>_ _. None)(f := [[55] \<mapsto> ?data]))" unfolding acc1_def by (rule has_tableD(4) [OF s(1) r(1)])
  have n: "names t' = [f]" using r(2,3) s(4) by simp
  have "\<exists>acc' t2 M' e acc''. altertotalpageforced 0 (small_node j) acc1 = Inr acc'
    \<and> has_table 1 acc' (getContentDBName (u_taskid (small_node j))) 0 t2 M'
    \<and> look_up M' (names t2) = (look_up ((\<lambda>_ _. None)(f := [[55] \<mapsto> ?data])) (names t'))(getRecordKeyName (u_id (small_node j))
        \<mapsto> record_of marking_env (int (length [(7 :: int, 1 :: int, [65 :: u8])])) 1 (-1) [(7, 1, [65])])
    \<and> readContent 0 (u_id (small_node j)) (u_taskid (small_node j)) acc' = Inr (Some e, acc'')
    \<and> datbuf e = Some (record_of marking_env (int (length [(7 :: int, 1 :: int, [65 :: u8])])) 1 (-1) [(7, 1, [65])])"
    by (rule completed_record_is_read [where ?tab2.0 = 1 and tot = 2])
      (use h1 s r(4) n x [of 2] x [of 1] in \<open>simp_all add: small_names acc1_def del: One_nat_def\<close>)
  then show "\<exists>acc acc' e acc''. altertotalpageforced 0 (small_node j) acc = Inr acc' \<and> readContent 0 7 1 acc' = Inr (Some e, acc'')
    \<and> datbuf e = Some (record_of marking_env 1 1 (-1) [(7, 1, [65])])"
    by (simp add: small_names) blast
qed

end
