(* ===== verification/HostDb.thy ===== *)
theory HostDb
  imports UrlNode CText
begin

text \<open>
  The tables of \<open>module/DbManager.cpp\<close> in which the addresses wait that do not fit into the queue of their host: one of hosts, and one of
  serialised nodes. Every operation prints an SQL statement into an array and gives it to SQLite.
\<close>

section \<open>Tables\<close>

record url_row =
  ur_id :: int
  ur_hostid :: int
  ur_pushback :: int
  ur_url :: bytes
  ur_data :: bytes

record hostdb =
  host_rows :: "(int \<times> bytes) list"
  url_rows :: "url_row list"

text \<open>
  What SQLite makes of a statement: what it says on the tables, an error when it is prepared or when it is run, or, since texts are put between
  quotes as they are, something else, with new tables and perhaps a first result.
\<close>

datatype outcome = As_meant | Prepare_fails | Step_fails | Other_effect hostdb "int option"

type_synonym sqlite = "bytes \<Rightarrow> hostdb \<Rightarrow> outcome"

text \<open>The key of a row for which \<open>NULL\<close> is given: one more than the largest, or 1.\<close>

definition next_key :: "int list \<Rightarrow> int" where
  "next_key ks = foldr max ks 0 + 1"

definition quoted :: "bytes \<Rightarrow> bytes" where
  "quoted s = [39] @ s @ [39]"

definition sqlbuf :: "bytes \<Rightarrow> bytes result" where
  "sqlbuf s = strcpy_to 1024 s"

section \<open>Operations\<close>

definition select_host :: "bytes \<Rightarrow> bytes" where
  "select_host domain = bytes_of ''select id from host_table where domain = '' @ quoted domain"

definition insert_host_sql :: "bytes \<Rightarrow> bytes" where
  "insert_host_sql domain = bytes_of ''insert into host_table values(NULL, '' @ quoted domain @ [41]"

definition insert_url_sql :: "bytes \<Rightarrow> int \<Rightarrow> bool \<Rightarrow> bytes" where
  "insert_url_sql url hostid pushback =
    bytes_of ''insert into not_fetched_url_table values(NULL, '' @ dec_int hostid @ bytes_of '', '' @ dec_int (if pushback then 1 else 0)
      @ bytes_of '', '' @ quoted url @ bytes_of '', ?)''"

definition delete_url_sql :: "int \<Rightarrow> bytes" where
  "delete_url_sql i = bytes_of ''delete from not_fetched_url_table where id = '' @ dec_int i"

definition select_urls_sql :: "int \<Rightarrow> int \<Rightarrow> bytes" where
  "select_urls_sql hostid n =
    bytes_of ''select urldata, id from not_fetched_url_table where hostid = '' @ dec_int hostid @ bytes_of '' order by pushback, id limit '' @ dec_int n"

text \<open>\<open>id\<close> stays as it is when there is no row; the result is always \<open>STATE_SUCCESS\<close>.\<close>

definition get_hostid_by_domain :: "sqlite \<Rightarrow> bytes \<Rightarrow> int \<Rightarrow> hostdb \<Rightarrow> (int \<times> int \<times> hostdb) result" where
  "get_hostid_by_domain sq domain i db =
    bind_r (sqlbuf (select_host domain)) (\<lambda>s.
      Inr (case sq s db of
             As_meant \<Rightarrow> (0, case filter (\<lambda>(_, d). d = domain) (host_rows db) of (k, _) # _ \<Rightarrow> k | [] \<Rightarrow> i, db)
           | Other_effect db' r \<Rightarrow> (0, case r of Some k \<Rightarrow> k | None \<Rightarrow> i, db')
           | _ \<Rightarrow> (0, i, db)))"

definition insert_host :: "sqlite \<Rightarrow> bytes \<Rightarrow> hostdb \<Rightarrow> (int \<times> hostdb) result" where
  "insert_host sq domain db =
    bind_r (sqlbuf (insert_host_sql domain)) (\<lambda>s.
      Inr (case sq s db of
             As_meant \<Rightarrow> (0, db\<lparr>host_rows := host_rows db @ [(next_key (map fst (host_rows db)), domain)]\<rparr>)
           | Other_effect db' _ \<Rightarrow> (0, db')
           | _ \<Rightarrow> (0, db)))"

definition insert_unfetched_url :: "sqlite \<Rightarrow> bytes \<Rightarrow> bytes \<Rightarrow> int \<Rightarrow> bool \<Rightarrow> hostdb \<Rightarrow> (int \<times> hostdb) result" where
  "insert_unfetched_url sq url data hostid pushback db =
    bind_r (sqlbuf (insert_url_sql url hostid pushback)) (\<lambda>s.
      Inr (case sq s db of
             As_meant \<Rightarrow> (0, db\<lparr>url_rows := url_rows db @ [\<lparr>ur_id = next_key (map ur_id (url_rows db)), ur_hostid = hostid,
                ur_pushback = (if pushback then 1 else 0), ur_url = url, ur_data = data\<rparr>]\<rparr>)
           | Prepare_fails \<Rightarrow> (0, db)
           | Step_fails \<Rightarrow> (1, db)
           | Other_effect db' _ \<Rightarrow> (0, db')))"

definition delete_unfetched_url_by_id :: "sqlite \<Rightarrow> int \<Rightarrow> hostdb \<Rightarrow> (int \<times> hostdb) result" where
  "delete_unfetched_url_by_id sq i db =
    (if i = 0 then Inr (0, db)
     else bind_r (sqlbuf (delete_url_sql i)) (\<lambda>s.
       Inr (case sq s db of
              As_meant \<Rightarrow> (0, db\<lparr>url_rows := filter (\<lambda>r. ur_id r \<noteq> i) (url_rows db)\<rparr>)
            | Other_effect db' _ \<Rightarrow> (0, db')
            | _ \<Rightarrow> (0, db))))"

text \<open>The rows of the statement, with the data of each and its key.\<close>

definition waiting_rows :: "int \<Rightarrow> hostdb \<Rightarrow> url_row list" where
  "waiting_rows hostid db = sort_key ur_pushback (sort_key ur_id (filter (\<lambda>r. ur_hostid r = hostid) (url_rows db)))"

text \<open>A node is made of each row, in memory that holds \<open>junk\<close>.\<close>

fun nodes_of_rows :: "urlnode \<Rightarrow> url_row list \<Rightarrow> urlnode list result" where
  "nodes_of_rows junk [] = Inr []"
| "nodes_of_rows junk (r # rs) =
    bind_r (unserialize (ur_data r) (UrlNode0 junk)) (\<lambda>u.
    bind_r (nodes_of_rows junk rs) (\<lambda>us. Inr (u\<lparr>u_sqlite_id := ur_id r\<rparr> # us)))"

definition get_unfetched_urls :: "sqlite \<Rightarrow> urlnode \<Rightarrow> int \<Rightarrow> int \<Rightarrow> hostdb \<Rightarrow> urlnode list result" where
  "get_unfetched_urls sq junk hostid url_to_read db =
    bind_r (sqlbuf (select_urls_sql hostid url_to_read)) (\<lambda>s.
      case sq s db of
        As_meant \<Rightarrow> nodes_of_rows junk ((if 0 \<le> url_to_read then take (nat url_to_read) else id) (waiting_rows hostid db))
      | _ \<Rightarrow> Inr [])"

section \<open>Properties\<close>

text \<open>SQLite as the code expects it: a statement whose texts have no quote does what it says.\<close>

definition sql_works :: "sqlite \<Rightarrow> bool" where
  "sql_works sq \<longleftrightarrow> (\<forall>db.
     (\<forall>d. 39 \<notin> set d \<longrightarrow> sq (select_host d) db = As_meant \<and> sq (insert_host_sql d) db = As_meant)
     \<and> (\<forall>u i b. 39 \<notin> set u \<longrightarrow> sq (insert_url_sql u i b) db = As_meant)
     \<and> (\<forall>i. sq (delete_url_sql i) db = As_meant) \<and> (\<forall>i n. sq (select_urls_sql i n) db = As_meant))"

text \<open>Nodes put in one after the other.\<close>

fun spill_all :: "sqlite \<Rightarrow> int \<Rightarrow> (bool \<times> urlnode) list \<Rightarrow> hostdb \<Rightarrow> hostdb result" where
  "spill_all sq hostid [] db = Inr db"
| "spill_all sq hostid ((back, u) # us) db =
    bind_r (insert_unfetched_url sq (u_url u) (snd (serialize u)) hostid back db) (\<lambda>(_, db). spill_all sq hostid us db)"

text \<open>What of a node comes back.\<close>

definition restored :: "urlnode \<Rightarrow> int \<Rightarrow> urlnode \<Rightarrow> urlnode" where
  "restored junk k u = UrlNode0 junk\<lparr>u_url := u_url u, u_fatherurl := u_fatherurl u, u_title := u_title u,
     u_topicsource := u_topicsource u, u_taskid := u_taskid u, u_type := u_type u, u_errornum := u_errornum u, u_id := u_id u,
     u_page := u_page u, u_maxtype := u_maxtype u, u_layerid := u_layerid u, u_bbsid := u_bbsid u,
     u_redirectnum := u_redirectnum u, u_taskbatch := u_taskbatch u, u_keyid := u_keyid u, u_searchid := u_searchid u,
     u_nextpage := u_nextpage u, u_totalpage := u_totalpage u, u_fetched_page := u_fetched_page u, u_onepage := u_onepage u,
     u_ipnum := u_ipnum u, u_sqlite_id := k\<rparr>"

lemma length_dec_int: "- (2 ^ 31) \<le> i \<Longrightarrow> i < 2 ^ 31 \<Longrightarrow> length (dec_int i) \<le> 11"
  using length_dec_nat [of "nat i" 9] length_dec_nat [of "nat (- i)" 9] by (cases "i < 0") (simp_all add: dec_int_def nat_less_iff)

text \<open>A statement that inserts an address fits when the address has less than 930 characters.\<close>

lemma insert_url_fits: "length url < 930 \<Longrightarrow> - (2 ^ 31) \<le> i \<Longrightarrow> i < 2 ^ 31 \<Longrightarrow> sqlbuf (insert_url_sql url i b) = Inr (insert_url_sql url i b)"
  using length_dec_int [of i] length_dec_int [of "if b then 1 else 0"]
  by (cases b) (simp_all add: sqlbuf_def strcpy_to_def insert_url_sql_def quoted_def bytes_of_def)

lemma select_urls_fits: "- (2 ^ 31) \<le> i \<Longrightarrow> i < 2 ^ 31 \<Longrightarrow> - (2 ^ 31) \<le> n \<Longrightarrow> n < 2 ^ 31 \<Longrightarrow>
    sqlbuf (select_urls_sql i n) = Inr (select_urls_sql i n)"
  using length_dec_int [of i] length_dec_int [of n] by (simp add: sqlbuf_def strcpy_to_def select_urls_sql_def bytes_of_def)

lemma next_key_snoc [simp]: "next_key (ks @ [next_key ks]) = next_key ks + 1"
proof -
  have top: "foldr max ks a = max a (foldr max ks 0)" if "0 \<le> a" for a :: int
    using that by (induction ks) (auto simp: max_def)
  have "0 \<le> foldr max ks (0 :: int)" by (induction ks) auto
  then show ?thesis using top [of "foldr max ks 0 + 1"] by (simp add: next_key_def)
qed

lemma sort_key_flag:
  fixes f :: "'a \<Rightarrow> int"
  assumes "\<forall>x\<in>set xs. f x = 0 \<or> f x = 1"
  shows "sort_key f xs = filter (\<lambda>x. f x = 0) xs @ filter (\<lambda>x. f x = 1) xs"
  using assms
proof (induction xs)
  case (Cons x xs)
  have skip: "insort_key f x (as @ bs) = as @ insort_key f x bs" if "\<forall>a\<in>set as. f a < f x" for as bs
    using that by (induction as) auto
  have "f x = 0 \<or> f x = 1" using Cons.prems by simp
  then show ?case
  proof
    assume "f x = 0"
    then show ?thesis using Cons by (subst sort_key_simps) (auto intro!: insort_is_Cons)
  next
    assume "f x = 1"
    then show ?thesis using Cons by (simp add: skip insort_is_Cons)
  qed
qed simp

text \<open>The rows of nodes put in one after the other, from a key on.\<close>

fun spilled :: "int \<Rightarrow> int \<Rightarrow> (bool \<times> urlnode) list \<Rightarrow> url_row list" where
  "spilled hostid k [] = []"
| "spilled hostid k ((b, u) # us) = \<lparr>ur_id = k, ur_hostid = hostid, ur_pushback = (if b then 1 else 0), ur_url = u_url u,
     ur_data = snd (serialize u)\<rparr> # spilled hostid (k + 1) us"

text \<open>A node that can be put in and read again.\<close>

definition spillable :: "urlnode \<Rightarrow> bool" where
  "spillable u \<longleftrightarrow> node_ok u \<and> 39 \<notin> set (u_url u) \<and> length (u_url u) < 930"

lemma spill_all_rows:
  assumes "sql_works sq" "- (2 ^ 31) \<le> hostid" "hostid < 2 ^ 31" "list_all (spillable \<circ> snd) us"
  shows "spill_all sq hostid us db = Inr (db\<lparr>url_rows := url_rows db @ spilled hostid (next_key (map ur_id (url_rows db))) us\<rparr>)"
  using assms(4)
proof (induction us arbitrary: db)
  case (Cons p us)
  obtain b u where p: "p = (b, u)" by (cases p)
  have "39 \<notin> set (u_url u)" "length (u_url u) < 930" using Cons.prems by (auto simp: p spillable_def)
  then have "insert_unfetched_url sq (u_url u) (snd (serialize u)) hostid b db =
      Inr (0, db\<lparr>url_rows := url_rows db @ spilled hostid (next_key (map ur_id (url_rows db))) [p]\<rparr>)"
    using assms(1-3) by (simp add: insert_unfetched_url_def insert_url_fits sql_works_def p)
  then show ?case using Cons by (simp add: p)
qed simp

lemma spilled_rows: "map ur_id (spilled h k us) = [k..k + int (length us) - 1]" "\<forall>r\<in>set (spilled h k us). ur_hostid r = h \<and> ur_pushback r \<in> {0, 1}"
  by (induction h k us rule: spilled.induct) (simp_all add: upto_rec1)

lemma filter_spilled:
  assumes "list_all (spillable \<circ> snd) us"
  shows "list_all2 (\<lambda>r (i, _, u). unserialize (ur_data r) (UrlNode0 junk) = Inr (restored junk i u\<lparr>u_sqlite_id := u_sqlite_id u\<rparr>) \<and> ur_id r = i)
    (filter (\<lambda>r. ur_pushback r = (if c then 1 else 0)) (spilled h k us)) (filter (\<lambda>(_, b, _). b = c) (zip [k..k + int (length us) - 1] us))"
  using assms
proof (induction us arbitrary: k)
  case (Cons p us)
  obtain b u where p: "p = (b, u)" by (cases p)
  have "node_ok u" using Cons.prems by (simp add: p spillable_def)
  from node_read_back [OF this, of "[]" "UrlNode0 junk"]
  have "unserialize (snd (serialize u)) (UrlNode0 junk) = Inr (restored junk k u\<lparr>u_sqlite_id := u_sqlite_id u\<rparr>)"
    by (simp add: restored_def UrlNode0_def)
  moreover have "[k..k + int (length (p # us)) - 1] = k # [k + 1..k + 1 + int (length us) - 1]" by (simp add: upto_rec1)
  ultimately show ?case using Cons.IH [of "k + 1"] Cons.prems by (auto simp: p)
qed simp

lemma nodes_of_rows_read:
  "list_all2 (\<lambda>r (i, _, u). unserialize (ur_data r) (UrlNode0 junk) = Inr (restored junk i u\<lparr>u_sqlite_id := u_sqlite_id u\<rparr>) \<and> ur_id r = i) rs us \<Longrightarrow>
    nodes_of_rows junk rs = Inr (map (\<lambda>(i, _, u). restored junk i u) us)"
  by (induction rule: list_all2_induct) (auto simp: restored_def)

lemma nodes_of_spilled:
  assumes "list_all (spillable \<circ> snd) us"
  shows "nodes_of_rows junk (take m (filter (\<lambda>r. ur_pushback r = 0) (spilled h k us) @ filter (\<lambda>r. ur_pushback r = 1) (spilled h k us))) =
    Inr (map (\<lambda>(i, _, u). restored junk i u) (take m (filter (\<lambda>(_, b, _). \<not> b) (zip [k..k + int (length us) - 1] us)
      @ filter (\<lambda>(_, b, _). b) (zip [k..k + int (length us) - 1] us))))"
  using filter_spilled [OF assms, of junk False h k] filter_spilled [OF assms, of junk True h k]
  by (intro nodes_of_rows_read list_all2_takeI list_all2_appendI) (simp_all)


text \<open>Three nodes, the first of them pushed back, of which two are asked for.\<close>

definition demo_waiting :: "urlnode \<Rightarrow> (bool \<times> urlnode) list" where
  "demo_waiting junk = map (\<lambda>(b, s). (b, UrlNode0 junk\<lparr>u_url := [s], u_keyid := 0, u_searchid := 0, u_onepage := []\<rparr>))
    [(True, 97), (False, 98), (False, 99)]"

definition literal_sqlite :: sqlite where
  "literal_sqlite s db = As_meant"


end
