(* ===== verification/PQueue.thy ===== *)
theory PQueue
  imports Prelude "HOL-Library.Multiset"
begin

text \<open>
  What the schedulers need of \<open>std::priority_queue\<close> over pointers whose keys are read through the pointers:
  which element is on top. The other operations act on the list of the elements.
\<close>

type_synonym ptr = nat

text \<open>
  \<open>std::priority_queue::top\<close>: which element of the queue is on top, given the keys the comparison reads.
\<close>

type_synonym chooser = "(ptr \<Rightarrow> int) \<Rightarrow> ptr list \<Rightarrow> ptr"

text \<open>Popping every element: what comes out, in order.\<close>

fun drain :: "chooser \<Rightarrow> (ptr \<Rightarrow> int) \<Rightarrow> nat \<Rightarrow> ptr list \<Rightarrow> ptr list" where
  "drain sel key 0 q = []"
| "drain sel key (Suc n) q = (if q = [] then [] else let p = sel key q in p # drain sel key n (remove1 p q))"

section \<open>What the queue promises\<close>

text \<open>
  An element on top is an element of the queue, also when keys were changed under it; as long as they were
  not, no element has a smaller key.
\<close>

locale queue_choice =
  fixes sel :: chooser
  assumes sel_in: "q \<noteq> [] \<Longrightarrow> sel key q \<in> set q"
begin

lemma drain_all: "mset (drain sel key (length q) q) = mset q"
proof (induction "length q" arbitrary: q)
  case (Suc n)
  then have ne: "q \<noteq> []" by auto
  let ?p = "sel key q"
  have p: "?p \<in> set q" by (rule sel_in [OF ne])
  then have "n = length (remove1 ?p q)" using Suc(2) by (simp add: length_remove1)
  from Suc(1) [OF this] have "mset (drain sel key (Suc n) q) = add_mset ?p (mset (remove1 ?p q))"
    using ne \<open>n = length (remove1 ?p q)\<close> by (simp add: Let_def)
  then show ?case using p Suc(2) by simp
qed simp

end

locale priority_choice = queue_choice +
  assumes sel_min: "p \<in> set q \<Longrightarrow> key (sel key q) \<le> key p"

text \<open>The first of the elements with the least key.\<close>

fun first_min :: chooser where
  "first_min key [] = 0"
| "first_min key (p # q) = (if q = [] then p else let m = first_min key q in if key m < key p then m else p)"

interpretation first_min: priority_choice first_min
proof
  fix q :: "ptr list" and key :: "ptr \<Rightarrow> int" and p
  show "q \<noteq> [] \<Longrightarrow> first_min key q \<in> set q"
    by (induction q) (auto simp: Let_def)
  show "p \<in> set q \<Longrightarrow> key (first_min key q) \<le> key p"
    by (induction q) (auto simp: Let_def)
qed

end
