(* ===== verification/TaskSched.thy ===== *)
theory TaskSched
  imports PQueue "HOL-Library.Signed_Division"
begin

text \<open>
  The task schedule of \<open>module/TaskScheduleManager.cpp\<close>: the priority queue of tasks by \<open>timeToFetch\<close>, the
  map from identifiers to the same tasks, and the operations that keep the two together. Tasks are objects
  shared by pointer; the queue reads their times through the pointers. The operations take their locks one
  after the other and give each back before the next, so each is modelled as one step; the logging is left
  out.
\<close>

section \<open>Data\<close>

text \<open>\<open>Task\<close>; of \<open>sourcestate\<close> and \<open>intervalauto\<close> only the characters that are read are kept.\<close>

record task =
  t_id :: int
  t_name :: bytes
  t_host :: bytes
  t_industry :: bytes
  t_homeurl :: bytes
  t_pageurl :: bytes
  t_sourcestate0 :: u8
  t_sourcestate1 :: u8
  t_loginurl :: bytes
  t_ultimatepageurl :: bytes
  t_bbsultimatepageurl :: bytes
  t_ignoreurl :: bytes
  t_tasksendtype :: int
  timeToFetch :: int
  lastFetchNum :: int
  t_interval :: int
  currentInterval :: int
  t_sourcetype :: int
  t_depth :: int
  t_intervalauto0 :: u8
  t_noaccessInterval :: int
  t_intxt :: bytes

text \<open>
  \<open>tasks\<close>: the elements of the priority queue, \<open>tasksmap\<close>, and the objects the pointers lead to.
\<close>

record sched =
  sq :: "ptr list"
  tasksmap :: "int \<Rightarrow> ptr option"
  tobj :: "ptr \<Rightarrow> task"

definition SOURCE_TYPE_BBS :: int where "SOURCE_TYPE_BBS = 2"
definition SOURCE_TYPE_SEARCHENGINE :: int where "SOURCE_TYPE_SEARCHENGINE = 4"
definition SOURCE_TYPE_TOPIC :: int where "SOURCE_TYPE_TOPIC = 5"
definition TASK_FROM_DB :: int where "TASK_FROM_DB = 1"
definition TASK_UNFROM_DB :: int where "TASK_UNFROM_DB = 2"

section \<open>The queue\<close>

definition task_key :: "sched \<Rightarrow> ptr \<Rightarrow> int" where
  "task_key s p = timeToFetch (tobj s p)"

text \<open>Reading or popping an empty queue is undefined.\<close>

definition q_top :: "chooser \<Rightarrow> sched \<Rightarrow> ptr result" where
  "q_top sel s = (if sq s = [] then Inl OutOfBounds else Inr (sel (task_key s) (sq s)))"

definition push :: "ptr \<Rightarrow> sched \<Rightarrow> sched" where
  "push p s = s\<lparr>sq := sq s @ [p]\<rparr>"

definition pop :: "chooser \<Rightarrow> sched \<Rightarrow> (ptr \<times> sched) result" where
  "pop sel s =
    bind_r (q_top sel s) (\<lambda>p.
      let s = s\<lparr>sq := remove1 p (sq s)\<rparr>;
          i = t_id (tobj s p)
      in Inr (p, if tasksmap s i \<noteq> None then s\<lparr>tasksmap := (tasksmap s)(i := None)\<rparr> else s))"

definition removeTaskFromPriorityQueue :: "chooser \<Rightarrow> int \<Rightarrow> sched \<Rightarrow> sched result" where
  "removeTaskFromPriorityQueue sel i s =
    bind_r (q_top sel s) (\<lambda>p.
      if t_id (tobj s p) = i then Inr (s\<lparr>sq := remove1 p (sq s)\<rparr>)
      else let tmptasks = filter (\<lambda>t. t_id (tobj s t) \<noteq> i) (drain sel (task_key s) (length (sq s)) (sq s))
           in Inr (fold push tmptasks (s\<lparr>sq := []\<rparr>)))"

section \<open>Operations\<close>

definition combineTask :: "task \<Rightarrow> task \<Rightarrow> task" where
  "combineTask des src = des\<lparr>t_name := t_name src, t_industry := t_industry src, t_homeurl := t_homeurl src,
     t_ultimatepageurl := t_ultimatepageurl src, t_bbsultimatepageurl := t_bbsultimatepageurl src,
     t_loginurl := t_loginurl src, t_sourcestate0 := t_sourcestate0 src, t_sourcestate1 := t_sourcestate1 src,
     t_interval := t_interval src, currentInterval := t_interval src, t_sourcetype := t_sourcetype src,
     t_pageurl := t_pageurl src, t_ignoreurl := t_ignoreurl src, timeToFetch := timeToFetch src,
     t_depth := t_depth src, t_tasksendtype := t_tasksendtype src, t_intervalauto0 := t_intervalauto0 src\<rparr>"

definition putTask :: "chooser \<Rightarrow> ptr \<Rightarrow> int \<Rightarrow> sched \<Rightarrow> (int \<times> sched) result" where
  "putTask sel p taskfromdb s =
    (let t = tobj s p
     in case tasksmap s (t_id t) of
          None \<Rightarrow>
            if t_sourcestate0 t = 49 then Inr (1, push p (s\<lparr>tasksmap := (tasksmap s)(t_id t := Some p)\<rparr>))
            else Inr (0, s)
        | Some old \<Rightarrow>
            if taskfromdb = TASK_FROM_DB
            then let s = s\<lparr>tobj := (tobj s)(old := combineTask (tobj s old) t)\<rparr>
                 in if timeToFetch t = 1
                    then bind_r (removeTaskFromPriorityQueue sel (t_id t) s) (\<lambda>s. Inr (0, push old s))
                    else Inr (0, s)
            else bind_r (removeTaskFromPriorityQueue sel (t_id t) s) (\<lambda>s. Inr (0, push old s)))"

text \<open>\<open>remove\<close> acts when the identifier is \<open>not\<close> in the map.\<close>

definition sched_remove :: "chooser \<Rightarrow> int \<Rightarrow> sched \<Rightarrow> sched result" where
  "sched_remove sel i s =
    (if tasksmap s i = None
     then removeTaskFromPriorityQueue sel i (s\<lparr>tasksmap := (tasksmap s)(i := None)\<rparr>)
     else Inr s)"

definition getTask :: "int \<Rightarrow> sched \<Rightarrow> ptr option" where
  "getTask i s = tasksmap s i"

text \<open>The clone is stored in a variable of the inner block; the outer one is returned, still \<open>NULL\<close>.\<close>

definition getTaskClone :: "int \<Rightarrow> sched \<Rightarrow> ptr option" where
  "getTaskClone i s = None"

text \<open>\<open>recalculateTime\<close> at the hour and the day of the week that \<open>localtime_r\<close> gives for \<open>now\<close>.\<close>

definition recalculateTime :: "(int \<Rightarrow> int \<times> int) \<Rightarrow> int \<Rightarrow> task \<Rightarrow> int \<times> task" where
  "recalculateTime localtime now t =
    (let (tm_hour, tm_wday) = localtime now
     in if tm_hour > 17 \<or> tm_hour < 9 \<or> tm_wday = 0 \<or> tm_wday = 6 then (1, t)
        else let t = (if lastFetchNum t = 0 then t\<lparr>currentInterval := to_long (currentInterval t * 2)\<rparr>
                      else if currentInterval t > t_interval t then t\<lparr>currentInterval := currentInterval t sdiv 2\<rparr>
                      else t);
                 t = (if currentInterval t > 604800 then t\<lparr>currentInterval := 604800\<rparr> else t);
                 t = (if currentInterval t < t_interval t then t\<lparr>currentInterval := t_interval t\<rparr> else t)
             in (0, t))"

definition maybe_recalculate :: "(int \<Rightarrow> int \<times> int) \<Rightarrow> int \<Rightarrow> task \<Rightarrow> task" where
  "maybe_recalculate localtime now t = (if t_intervalauto0 t = 49 then snd (recalculateTime localtime now t) else t)"

text \<open>
  \<open>getNextTask\<close>. The clock is read up to four times: \<open>clk 0\<close> for the comparison, \<open>clk 1\<close> by
  \<open>recalculateTime\<close>, \<open>clk 2\<close> for the hour and \<open>clk 3\<close> for the new time. The result is the task, the waiting
  time left in \<open>*nexttime\<close>, and the state.
\<close>

definition night_ratio :: "(int \<Rightarrow> int \<times> int) \<Rightarrow> int \<Rightarrow> task \<Rightarrow> int" where
  "night_ratio localtime now t =
    (if t_sourcetype t = SOURCE_TYPE_BBS \<or> t_sourcetype t = SOURCE_TYPE_SEARCHENGINE \<or> t_sourcetype t = SOURCE_TYPE_TOPIC
     then if fst (localtime now) \<ge> 0 \<and> fst (localtime now) < 6 then 4 else 1
     else 1)"

definition getNextTask :: "chooser \<Rightarrow> (int \<Rightarrow> int \<times> int) \<Rightarrow> (nat \<Rightarrow> int) \<Rightarrow> sched \<Rightarrow> (ptr option \<times> int \<times> sched) result" where
  "getNextTask sel localtime clk s =
    (if sq s = [] then Inr (None, 10, s)
     else let p = sel (task_key s) (sq s); t = tobj s p
          in if t_sourcestate0 t = 49
             then if timeToFetch t \<le> clk 0
                  then let t = maybe_recalculate localtime (clk 1) t;
                           ratio = night_ratio localtime (clk 2) t;
                           t = t\<lparr>timeToFetch := to_long (clk 3 + currentInterval t * ratio), lastFetchNum := 0\<rparr>
                       in bind_r (putTask sel p TASK_UNFROM_DB (s\<lparr>tobj := (tobj s)(p := t)\<rparr>)) (\<lambda>(_, s).
                            Inr (Some p, 1, s))
                  else Inr (None, 10, s)
             else bind_r (pop sel s) (\<lambda>(p, s).
                    let t = maybe_recalculate localtime (clk 1) (tobj s p);
                        t = t\<lparr>timeToFetch := to_long (clk 3 + currentInterval t), lastFetchNum := 0\<rparr>
                    in Inr (None, 1, s\<lparr>tobj := (tobj s)(p := t)\<rparr>)))"

section \<open>The queue and the map agree\<close>

definition sched_ok :: "sched \<Rightarrow> bool" where
  "sched_ok s \<longleftrightarrow> distinct (sq s) \<and> (\<forall>i p. tasksmap s i = Some p \<longleftrightarrow> p \<in> set (sq s) \<and> t_id (tobj s p) = i)"

definition sched0 :: "(ptr \<Rightarrow> task) \<Rightarrow> sched" where
  "sched0 objs = \<lparr>sq = [], tasksmap = (\<lambda>_. None), tobj = objs\<rparr>"

lemma sched_okD:
  assumes "sched_ok s"
  shows "distinct (sq s)" "\<And>p. p \<in> set (sq s) \<Longrightarrow> tasksmap s (t_id (tobj s p)) = Some p"
    "\<And>i p. tasksmap s i = Some p \<Longrightarrow> p \<in> set (sq s) \<and> t_id (tobj s p) = i"
  using assms by (auto simp: sched_ok_def)

text \<open>Only the elements and the identifiers matter.\<close>

lemma sched_ok_cong:
  assumes "sched_ok s" "mset (sq s') = mset (sq s)" "tasksmap s' = tasksmap s" "\<And>p. t_id (tobj s' p) = t_id (tobj s p)"
  shows "sched_ok s'"
proof -
  have "set (sq s') = set (sq s)" "distinct (sq s') = distinct (sq s)"
    using assms(2) by (metis set_mset_mset) (metis assms(2) mset_eq_imp_distinct_iff)
  then show ?thesis using assms by (simp add: sched_ok_def)
qed

lemma fold_push: "fold push ts s = s\<lparr>sq := sq s @ ts\<rparr>"
  by (induction ts arbitrary: s) (simp_all add: push_def)

lemma task_key_simps [simp]:
  "task_key (s\<lparr>sq := q\<rparr>) = task_key s" "task_key (s\<lparr>tasksmap := m\<rparr>) = task_key s"
  by (simp_all add: task_key_def fun_eq_iff)

lemma recalc_id [simp]: "t_id (maybe_recalculate lt now t) = t_id t" "t_sourcestate0 (maybe_recalculate lt now t) = t_sourcestate0 t"
  "t_interval (maybe_recalculate lt now t) = t_interval t" "t_sourcetype (maybe_recalculate lt now t) = t_sourcetype t"
  by (auto simp: maybe_recalculate_def recalculateTime_def Let_def split: prod.splits)

text \<open>The task \<open>getNextTask\<close> leaves behind when it returns it.\<close>

definition rescheduled :: "(int \<Rightarrow> int \<times> int) \<Rightarrow> (nat \<Rightarrow> int) \<Rightarrow> task \<Rightarrow> task" where
  "rescheduled lt clk t =
    (let t = maybe_recalculate lt (clk 1) t
     in t\<lparr>timeToFetch := to_long (clk 3 + currentInterval t * night_ratio lt (clk 2) t), lastFetchNum := 0\<rparr>)"

lemma rescheduled_simps [simp]:
  "t_id (rescheduled lt clk t) = t_id t" "t_sourcestate0 (rescheduled lt clk t) = t_sourcestate0 t"
  "t_interval (rescheduled lt clk t) = t_interval t"
  by (simp_all add: rescheduled_def Let_def)

context queue_choice
begin

lemma top_in: "sq s \<noteq> [] \<Longrightarrow> sel (task_key s) (sq s) \<in> set (sq s)"
  by (rule sel_in)

text \<open>Removing a task from the queue: whichever way it is done, the others stay.\<close>

lemma removeTask_filters:
  assumes "distinct (sq s)" "inj_on (\<lambda>p. t_id (tobj s p)) (set (sq s))" "sq s \<noteq> []"
  shows "\<exists>q. removeTaskFromPriorityQueue sel i s = Inr (s\<lparr>sq := q\<rparr>)
    \<and> mset q = filter_mset (\<lambda>t. t_id (tobj s t) \<noteq> i) (mset (sq s))"
proof -
  let ?p = "sel (task_key s) (sq s)"
  have p: "?p \<in> set (sq s)" by (rule top_in [OF assms(3)])
  show ?thesis
  proof (cases "t_id (tobj s ?p) = i")
    case True
    have "t_id (tobj s t) \<noteq> i" if "t \<in> set (sq s)" "t \<noteq> ?p" for t
      using that p True inj_onD [OF assms(2), of t ?p] by auto
    then have "filter (\<lambda>t. t_id (tobj s t) \<noteq> i) (sq s) = filter (\<lambda>t. t \<noteq> ?p) (sq s)"
      using True by (intro filter_cong) auto
    also have "\<dots> = remove1 ?p (sq s)" using assms(1) by (simp add: distinct_remove1_removeAll removeAll_filter_not_eq eq_commute)
    finally have "filter_mset (\<lambda>t. t_id (tobj s t) \<noteq> i) (mset (sq s)) = mset (remove1 ?p (sq s))" by (metis mset_filter)
    then show ?thesis using True assms(3)
      by (intro exI [of _ "remove1 ?p (sq s)"]) (simp add: removeTaskFromPriorityQueue_def q_top_def)
  next
    case False
    let ?q = "filter (\<lambda>t. t_id (tobj s t) \<noteq> i) (drain sel (task_key s) (length (sq s)) (sq s))"
    have "mset ?q = filter_mset (\<lambda>t. t_id (tobj s t) \<noteq> i) (mset (sq s))" by (simp only: mset_filter drain_all)
    moreover have "removeTaskFromPriorityQueue sel i s = Inr (s\<lparr>sq := ?q\<rparr>)"
      using False assms(3) by (simp add: removeTaskFromPriorityQueue_def q_top_def fold_push Let_def)
    ultimately show ?thesis by blast
  qed
qed

lemma sched_ok_inj:
  assumes "sched_ok s" shows "inj_on (\<lambda>p. t_id (tobj s p)) (set (sq s))"
proof (rule inj_onI)
  fix p q assume "p \<in> set (sq s)" "q \<in> set (sq s)" "t_id (tobj s p) = t_id (tobj s q)"
  then have "Some p = Some q" using sched_okD(2) [OF assms] by metis
  then show "p = q" by simp
qed

lemma removeTask_registered:
  assumes "sched_ok s" "tasksmap s i = Some p"
  shows "\<exists>q. removeTaskFromPriorityQueue sel i s = Inr (s\<lparr>sq := q\<rparr>) \<and> add_mset p (mset q) = mset (sq s)"
proof -
  note d = sched_okD [OF assms(1)]
  have p: "p \<in> set (sq s)" "t_id (tobj s p) = i" using d(3) assms(2) by auto
  then have ne: "sq s \<noteq> []" by auto
  have "(t_id (tobj s t) \<noteq> i) = (t \<noteq> p)" if "t \<in> set (sq s)" for t
    using inj_onD [OF sched_ok_inj [OF assms(1)] _ that p(1)] p(2) by auto
  then have "filter (\<lambda>t. t_id (tobj s t) \<noteq> i) (sq s) = filter (\<lambda>t. t \<noteq> p) (sq s)" by (intro filter_cong) auto
  also have "\<dots> = remove1 p (sq s)" using d(1) by (simp add: distinct_remove1_removeAll removeAll_filter_not_eq eq_commute)
  finally have m: "filter_mset (\<lambda>t. t_id (tobj s t) \<noteq> i) (mset (sq s)) = mset (sq s) - {#p#}" by (metis mset_filter mset_remove1)
  obtain q where q: "removeTaskFromPriorityQueue sel i s = Inr (s\<lparr>sq := q\<rparr>)" "mset q = mset (sq s) - {#p#}"
    using removeTask_filters [OF d(1) sched_ok_inj [OF assms(1)] ne, of i] m by auto
  moreover have "add_mset p (mset q) = mset (sq s)" using p q(2) by simp
  ultimately show ?thesis by blast
qed

text \<open>A task that is in the map is taken from the queue and put back.\<close>

lemma requeue:
  assumes "sched_ok s" "tasksmap s i = Some p"
  shows "\<exists>q. bind_r (removeTaskFromPriorityQueue sel i s) (\<lambda>s. Inr (0 :: int, push p s)) = Inr (0, s\<lparr>sq := q\<rparr>)
    \<and> mset q = mset (sq s)"
proof -
  obtain q where q: "removeTaskFromPriorityQueue sel i s = Inr (s\<lparr>sq := q\<rparr>)" "add_mset p (mset q) = mset (sq s)"
    using removeTask_registered [OF assms] by blast
  then show ?thesis by (intro exI [of _ "q @ [p]"]) (simp add: push_def)
qed

lemma putTask_ok:
  assumes "sched_ok s"
  shows "\<exists>r s'. putTask sel p db s = Inr (r, s') \<and> sched_ok s'
    \<and> (r = 1 \<longleftrightarrow> p \<notin> set (sq s) \<and> p \<in> set (sq s'))
    \<and> (r \<noteq> 1 \<longrightarrow> mset (sq s') = mset (sq s) \<and> tasksmap s' = tasksmap s)"
proof (cases "tasksmap s (t_id (tobj s p))")
  case None
  then have p: "p \<notin> set (sq s)" using sched_okD [OF assms] by auto
  show ?thesis
  proof (cases "t_sourcestate0 (tobj s p) = 49")
    case True
    have "t_id (tobj s q) \<noteq> t_id (tobj s p)" if "q \<in> set (sq s)" for q
      using sched_okD(2) [OF assms that] None by auto
    then have "sched_ok (push p (s\<lparr>tasksmap := (tasksmap s)(t_id (tobj s p) := Some p)\<rparr>))"
      using assms p by (auto simp: sched_ok_def push_def)
    moreover have "putTask sel p db s = Inr (1, push p (s\<lparr>tasksmap := (tasksmap s)(t_id (tobj s p) := Some p)\<rparr>))"
      using None True by (simp add: putTask_def Let_def)
    ultimately show ?thesis using p by (auto simp: push_def)
  next
    case False
    then show ?thesis using None p assms by (simp add: putTask_def Let_def)
  qed
next
  case (Some old)
  let ?s = "if db = TASK_FROM_DB then s\<lparr>tobj := (tobj s)(old := combineTask (tobj s old) (tobj s p))\<rparr> else s"
  have s: "sched_ok ?s" "tasksmap ?s = tasksmap s" "sq ?s = sq s"
    using sched_ok_cong [OF assms, of ?s] assms by (auto simp: combineTask_def)
  obtain q where q: "bind_r (removeTaskFromPriorityQueue sel (t_id (tobj s p)) ?s) (\<lambda>s. Inr (0 :: int, push old s)) = Inr (0, ?s\<lparr>sq := q\<rparr>)"
    "mset q = mset (sq s)"
    using requeue [OF s(1), of "t_id (tobj s p)" old] Some s(2,3) by auto
  have ok: "sched_ok (?s\<lparr>sq := q\<rparr>)" using sched_ok_cong [OF s(1), of "?s\<lparr>sq := q\<rparr>"] q(2) s(3) by auto
  show ?thesis
  proof (cases "db = TASK_FROM_DB \<and> timeToFetch (tobj s p) \<noteq> 1")
    case True
    then have "putTask sel p db s = Inr (0, ?s)" using Some by (simp add: putTask_def Let_def)
    then show ?thesis using s by (intro exI [of _ 0] exI [of _ ?s]) simp
  next
    case False
    then have "putTask sel p db s = Inr (0, ?s\<lparr>sq := q\<rparr>)" using Some q(1) by (auto simp: putTask_def Let_def)
    then show ?thesis using ok q(2) s(2,3) mset_eq_setD [OF q(2)] by (intro exI [of _ 0] exI [of _ "?s\<lparr>sq := q\<rparr>"]) simp
  qed
qed

text \<open>\<open>pop\<close> takes the task out of both.\<close>

lemma pop_ok:
  assumes "sched_ok s" "sq s \<noteq> []"
  shows "\<exists>s'. pop sel s = Inr (sel (task_key s) (sq s), s') \<and> sched_ok s' \<and> tobj s' = tobj s
    \<and> set (sq s') = set (sq s) - {sel (task_key s) (sq s)}"
proof -
  let ?p = "sel (task_key s) (sq s)"
  have p: "tasksmap s (t_id (tobj s ?p)) = Some ?p" by (rule sched_okD(2) [OF assms(1) top_in [OF assms(2)]])
  have inj: "q = ?p" if "q \<in> set (sq s)" "t_id (tobj s q) = t_id (tobj s ?p)" for q
    using inj_onD [OF sched_ok_inj [OF assms(1)] that(2) that(1) top_in [OF assms(2)]] .
  have set: "set (remove1 ?p (sq s)) = set (sq s) - {?p}" using sched_okD(1) [OF assms(1)] by simp
  have "sched_ok (s\<lparr>sq := remove1 ?p (sq s), tasksmap := (tasksmap s)(t_id (tobj s ?p) := None)\<rparr>)"
    using assms(1) set p inj unfolding sched_ok_def by auto
  then show ?thesis using p set assms(2) by (simp add: pop_def q_top_def Let_def)
qed

lemma next_due:
  assumes "sched_ok s" "sq s \<noteq> []" "p = sel (task_key s) (sq s)" "t_sourcestate0 (tobj s p) = 49" "timeToFetch (tobj s p) \<le> clk 0"
  shows "\<exists>q. getNextTask sel lt clk s = Inr (Some p, 1, s\<lparr>tobj := (tobj s)(p := rescheduled lt clk (tobj s p)), sq := q\<rparr>)
    \<and> mset q = mset (sq s)"
proof -
  let ?s = "s\<lparr>tobj := (tobj s)(p := rescheduled lt clk (tobj s p))\<rparr>"
  have p: "p \<in> set (sq s)" using top_in [OF assms(2)] assms(3) by simp
  have ok: "sched_ok ?s" using sched_ok_cong [OF assms(1), of ?s] by simp
  have m: "tasksmap ?s (t_id (tobj s p)) = Some p" using sched_okD(2) [OF assms(1) p] by simp
  obtain q where q: "bind_r (removeTaskFromPriorityQueue sel (t_id (tobj s p)) ?s) (\<lambda>s. Inr (0 :: int, push p s)) = Inr (0, ?s\<lparr>sq := q\<rparr>)"
    "mset q = mset (sq s)" using requeue [OF ok m] by auto
  then have put: "putTask sel p TASK_UNFROM_DB ?s = Inr (0, ?s\<lparr>sq := q\<rparr>)"
    using m by (simp add: putTask_def Let_def TASK_UNFROM_DB_def TASK_FROM_DB_def)
  have "getNextTask sel lt clk s = bind_r (putTask sel p TASK_UNFROM_DB ?s) (\<lambda>(_, s). Inr (Some p, 1, s))"
    using assms(2-5) by (simp add: getNextTask_def Let_def rescheduled_def)
  then show ?thesis unfolding put using q(2) by auto
qed

lemma next_other:
  assumes "sched_ok s"
  shows "sq s = [] \<Longrightarrow> getNextTask sel lt clk s = Inr (None, 10, s)"
    and "sq s \<noteq> [] \<Longrightarrow> p = sel (task_key s) (sq s) \<Longrightarrow> t_sourcestate0 (tobj s p) = 49 \<Longrightarrow> \<not> timeToFetch (tobj s p) \<le> clk 0 \<Longrightarrow>
      getNextTask sel lt clk s = Inr (None, 10, s)"
    and "sq s \<noteq> [] \<Longrightarrow> p = sel (task_key s) (sq s) \<Longrightarrow> t_sourcestate0 (tobj s p) \<noteq> 49 \<Longrightarrow>
      \<exists>s'. getNextTask sel lt clk s = Inr (None, 1, s') \<and> sched_ok s' \<and> set (sq s') = set (sq s) - {p}
        \<and> (\<forall>q. q \<noteq> p \<longrightarrow> tobj s' q = tobj s q)"
proof -
  show "\<exists>s'. getNextTask sel lt clk s = Inr (None, 1, s') \<and> sched_ok s' \<and> set (sq s') = set (sq s) - {p}
        \<and> (\<forall>q. q \<noteq> p \<longrightarrow> tobj s' q = tobj s q)"
    if "sq s \<noteq> []" "p = sel (task_key s) (sq s)" "t_sourcestate0 (tobj s p) \<noteq> 49"
  proof -
    note h = that
    obtain s1 where s1: "pop sel s = Inr (p, s1)" "sched_ok s1" "tobj s1 = tobj s" "set (sq s1) = set (sq s) - {p}"
      using pop_ok [OF assms h(1)] h(2) by auto
    let ?t = "maybe_recalculate lt (clk 1) (tobj s1 p)"
    let ?s = "s1\<lparr>tobj := (tobj s1)(p := ?t\<lparr>timeToFetch := to_long (clk 3 + currentInterval ?t), lastFetchNum := 0\<rparr>)\<rparr>"
    have "sched_ok ?s" using sched_ok_cong [OF s1(2), of ?s] by simp
    moreover have "getNextTask sel lt clk s = Inr (None, 1, ?s)"
      using that s1(1) by (simp add: getNextTask_def Let_def)
    ultimately show ?thesis using s1(3,4) by auto
  qed
qed (simp_all add: getNextTask_def Let_def)

lemma getNextTask_keeps:
  assumes "sched_ok s"
  shows "\<exists>r n s'. getNextTask sel lt clk s = Inr (r, n, s') \<and> sched_ok s'"
proof -
  let ?p = "sel (task_key s) (sq s)"
  consider "sq s = []" | "sq s \<noteq> []" "t_sourcestate0 (tobj s ?p) = 49" "timeToFetch (tobj s ?p) \<le> clk 0"
    | "sq s \<noteq> []" "t_sourcestate0 (tobj s ?p) = 49" "\<not> timeToFetch (tobj s ?p) \<le> clk 0"
    | "sq s \<noteq> []" "t_sourcestate0 (tobj s ?p) \<noteq> 49" by blast
  then show ?thesis
  proof cases
    case 2
    from next_due [of s ?p clk lt, OF assms 2(1) refl 2(2,3)] obtain q where q: "getNextTask sel lt clk s = Inr (Some ?p, 1, s\<lparr>tobj := (tobj s)(?p := rescheduled lt clk (tobj s ?p)), sq := q\<rparr>)"
      "mset q = mset (sq s)" by blast
    have "sched_ok (s\<lparr>tobj := (tobj s)(?p := rescheduled lt clk (tobj s ?p)), sq := q\<rparr>)"
      using sched_ok_cong [OF assms] q(2) by simp
    then show ?thesis using q(1) by blast
  next
    case 4
    from next_other(3) [of s ?p lt clk, OF assms 4(1) refl 4(2)] show ?thesis by blast
  qed (use next_other(1,2) [OF assms] assms in blast)+
qed

lemma remove_keeps:
  assumes "sched_ok s" "sched_remove sel i s = Inr s'" shows "sched_ok s' \<and> mset (sq s') = mset (sq s) \<and> tasksmap s' = tasksmap s"
proof (cases "tasksmap s i")
  case None
  let ?s = "s\<lparr>tasksmap := (tasksmap s)(i := None)\<rparr>"
  have m: "(tasksmap s)(i := None) = tasksmap s" using None by auto
  have s: "?s = s" unfolding m by simp
  have ne: "sq s \<noteq> []" using assms(2) None by (auto simp: sched_remove_def removeTaskFromPriorityQueue_def q_top_def)
  note d = sched_okD [OF assms(1)]
  obtain q where q: "removeTaskFromPriorityQueue sel i s = Inr (s\<lparr>sq := q\<rparr>)" "mset q = filter_mset (\<lambda>t. t_id (tobj s t) \<noteq> i) (mset (sq s))"
    using removeTask_filters [OF d(1) sched_ok_inj [OF assms(1)] ne] by blast
  have "t_id (tobj s t) \<noteq> i" if "t \<in> set (sq s)" for t using d(2) [OF that] None by auto
  then have "mset q = mset (sq s)" using q(2) by (simp add: filter_mset_eq_conv)
  moreover have "s' = s\<lparr>sq := q\<rparr>" using assms(2) None q(1) unfolding sched_remove_def s by simp
  ultimately show ?thesis using sched_ok_cong [OF assms(1), of s'] by simp
next
  case (Some a)
  then show ?thesis using assms by (simp add: sched_remove_def)
qed

end

section \<open>Reachable schedules\<close>

text \<open>
  What happens to the schedule: a new task object is put, the next task is asked for, a task is removed or
  popped, and the pages fetched for a task are counted.
\<close>

inductive sched_step :: "chooser \<Rightarrow> sched \<Rightarrow> sched \<Rightarrow> bool" for sel where
  put: "p \<notin> set (sq s) \<Longrightarrow> putTask sel p db (s\<lparr>tobj := (tobj s)(p := t)\<rparr>) = Inr (r, s') \<Longrightarrow> sched_step sel s s'"
| get_next: "getNextTask sel lt clk s = Inr (r, n, s') \<Longrightarrow> sched_step sel s s'"
| removed: "sched_remove sel i s = Inr s' \<Longrightarrow> sched_step sel s s'"
| popped: "pop sel s = Inr (p, s') \<Longrightarrow> sched_step sel s s'"
| fetched: "s' = s\<lparr>tobj := (tobj s)(p := tobj s p\<lparr>lastFetchNum := lastFetchNum (tobj s p) + 1\<rparr>)\<rparr> \<Longrightarrow> sched_step sel s s'"

context queue_choice
begin

lemma step_keeps: "sched_step sel s s' \<Longrightarrow> sched_ok s \<Longrightarrow> sched_ok s'"
proof (induction rule: sched_step.induct)
  case (put p s db t r s')
  let ?s = "s\<lparr>tobj := (tobj s)(p := t)\<rparr>"
  have "sched_ok ?s"
  proof -
    have e: "(q \<in> set (sq s) \<and> t_id (tobj ?s q) = i) = (q \<in> set (sq s) \<and> t_id (tobj s q) = i)" for q i
      using put(1) by auto
    have "sq ?s = sq s" "tasksmap ?s = tasksmap s" by simp_all
    then show ?thesis using put(3) e unfolding sched_ok_def by metis
  qed
  from putTask_ok [OF this, of p db] put(2) show ?case by auto
next
  case (get_next lt clk s r n s')
  then show ?case using getNextTask_keeps [OF get_next(2), of lt clk] by auto
next
  case (removed i s s')
  then show ?case using remove_keeps by blast
next
  case (popped s p s')
  then have "sq s \<noteq> []" by (auto simp: pop_def q_top_def)
  from pop_ok [OF popped(2) this] popped(1) show ?case by auto
next
  case (fetched s' s p)
  then show ?case using sched_ok_cong [OF fetched(2), of s'] by simp
qed

lemma reachable_ok: "(sched_step sel)\<^sup>*\<^sup>* (sched0 objs) s \<Longrightarrow> sched_ok s"
proof (induction rule: rtranclp_induct)
  case base
  then show ?case by (simp add: sched_ok_def sched0_def)
next
  case (step s s')
  then show ?case using step_keeps by blast
qed

end


definition demo_task :: "int \<Rightarrow> int \<Rightarrow> task" where
  "demo_task i tm = \<lparr>t_id = i, t_name = [], t_host = [], t_industry = [], t_homeurl = [], t_pageurl = [],
     t_sourcestate0 = 49, t_sourcestate1 = 0, t_loginurl = [], t_ultimatepageurl = [], t_bbsultimatepageurl = [],
     t_ignoreurl = [], t_tasksendtype = 1, timeToFetch = tm, lastFetchNum = 1, t_interval = 60, currentInterval = 60,
     t_sourcetype = 6, t_depth = 5, t_intervalauto0 = 0, t_noaccessInterval = 2, t_intxt = []\<rparr>"

lemma demo_task_simps [simp]:
  "t_id (demo_task i tm) = i" "timeToFetch (demo_task i tm) = tm" "t_sourcestate0 (demo_task i tm) = 49"
  "t_interval (demo_task i tm) = 60" "currentInterval (demo_task i tm) = 60" "t_intervalauto0 (demo_task i tm) = 0"
  "t_sourcetype (demo_task i tm) = 6" "lastFetchNum (demo_task i tm) = 1"
  by (simp_all add: demo_task_def)

text \<open>Three tasks, two of them due at time 100.\<close>

definition demo_sched :: sched where
  "demo_sched = \<lparr>sq = [1, 2, 3], tasksmap = (\<lambda>i. if i = 7 then Some 1 else if i = 8 then Some 2 else if i = 9 then Some 3 else None),
     tobj = (\<lambda>p. if p = 1 then demo_task 7 90 else if p = 2 then demo_task 8 200 else demo_task 9 50)\<rparr>"


section \<open>What a request does\<close>


lemma demo_sched_ok: "sched_ok demo_sched"
proof -
  have "tasksmap demo_sched i = Some p \<longleftrightarrow> p \<in> set (sq demo_sched) \<and> t_id (tobj demo_sched p) = i" for i p
    by (auto simp: demo_sched_def)
  moreover have "distinct (sq demo_sched)" by (simp add: demo_sched_def)
  ultimately show ?thesis unfolding sched_ok_def by blast
qed


section \<open>Nobody waits for ever\<close>

text \<open>\<open>n\<close> requests at the time \<open>now\<close>: the tasks returned.\<close>

fun requests :: "chooser \<Rightarrow> (int \<Rightarrow> int \<times> int) \<Rightarrow> int \<Rightarrow> nat \<Rightarrow> sched \<Rightarrow> ptr option list \<times> sched" where
  "requests sel lt now 0 s = ([], s)"
| "requests sel lt now (Suc n) s =
    (case getNextTask sel lt (\<lambda>_. now) s of
       Inl _ \<Rightarrow> ([], s)
     | Inr (r, _, s) \<Rightarrow> (let (rs, s) = requests sel lt now n s in (r # rs, s)))"

definition due :: "int \<Rightarrow> sched \<Rightarrow> ptr set" where
  "due now s = {p \<in> set (sq s). timeToFetch (tobj s p) \<le> now}"

definition plausible :: "task \<Rightarrow> bool" where
  "plausible t \<longleftrightarrow> 0 < t_interval t \<and> t_interval t \<le> currentInterval t \<and> currentInterval t \<le> 10 ^ 9"

lemma recalculated_range:
  "plausible t \<Longrightarrow> 0 < currentInterval (maybe_recalculate lt now t) \<and> currentInterval (maybe_recalculate lt now t) \<le> 2 * 10 ^ 9"
  by (auto simp: plausible_def maybe_recalculate_def recalculateTime_def Let_def signed_divide_int_def split: prod.splits)

lemma rescheduled_later:
  assumes "plausible t" "0 \<le> now" "now \<le> 10 ^ 12"
  shows "now < timeToFetch (rescheduled lt (\<lambda>_. now) t)"
proof -
  let ?c = "currentInterval (maybe_recalculate lt now t)"
  let ?r = "night_ratio lt now (maybe_recalculate lt now t)"
  have c: "0 < ?c" "?c \<le> 2 * 10 ^ 9" using recalculated_range [OF assms(1)] by auto
  have r: "?r = 1 \<or> ?r = 4" by (simp add: night_ratio_def)
  then have "0 < ?c * ?r" "?c * ?r \<le> 8 * 10 ^ 9" using c by auto
  then show ?thesis using assms by (simp add: rescheduled_def Let_def)
qed

context priority_choice
begin

lemma top_due:
  assumes "due now s \<noteq> {}" shows "sq s \<noteq> [] \<and> sel (task_key s) (sq s) \<in> due now s"
proof -
  obtain d where d: "d \<in> set (sq s)" "task_key s d \<le> now" using assms by (auto simp: due_def task_key_def)
  then have ne: "sq s \<noteq> []" by auto
  have "task_key s (sel (task_key s) (sq s)) \<le> now" using sel_min [OF d(1), of "task_key s"] d(2) by linarith
  then show ?thesis using ne top_in [OF ne] by (simp add: due_def task_key_def)
qed

lemma requests_served:
  assumes "0 \<le> now" "now \<le> 10 ^ 12"
  shows "sched_ok s \<Longrightarrow> \<forall>p\<in>set (sq s). t_sourcestate0 (tobj s p) = 49 \<Longrightarrow> \<forall>p\<in>due now s. plausible (tobj s p) \<Longrightarrow> card (due now s) = n \<Longrightarrow>
    \<exists>ps s'. requests sel lt now n s = (map Some ps, s') \<and> distinct ps \<and> set ps = due now s
      \<and> getNextTask sel lt (\<lambda>_. now) s' = Inr (None, 10, s')"
proof (induction n arbitrary: s)
  case 0
  have "finite (due now s)" by (simp add: due_def)
  then have none: "due now s = {}" using 0 by simp
  have "getNextTask sel lt (\<lambda>_. now) s = Inr (None, 10, s)"
  proof (cases "sq s = []")
    case False
    then show ?thesis
      using none top_in [OF False] 0(2) next_other(2) [where p = "sel (task_key s) (sq s)" and clk = "\<lambda>_. now" and lt = lt, OF 0(1) False refl]
      by (auto simp: due_def)
  qed (rule next_other(1) [OF 0(1)])
  then show ?case using none by auto
next
  case (Suc n)
  let ?p = "sel (task_key s) (sq s)"
  have fin: "finite (due now s)" by (simp add: due_def)
  have "due now s \<noteq> {}" using Suc.prems(4) by auto
  from top_due [OF this] have ne: "sq s \<noteq> []" and p: "?p \<in> due now s" by auto
  then have p': "?p \<in> set (sq s)" "timeToFetch (tobj s ?p) \<le> now" by (auto simp: due_def)
  have act: "t_sourcestate0 (tobj s ?p) = 49" using Suc.prems(2) p' by blast
  let ?t = "rescheduled lt (\<lambda>_. now) (tobj s ?p)"
  obtain q where q: "getNextTask sel lt (\<lambda>_. now) s = Inr (Some ?p, 1, s\<lparr>tobj := (tobj s)(?p := ?t), sq := q\<rparr>)" "mset q = mset (sq s)"
    using next_due [where p = ?p and clk = "\<lambda>_. now" and lt = lt, OF Suc.prems(1) ne refl act] p'(2) by auto
  let ?s = "s\<lparr>tobj := (tobj s)(?p := ?t), sq := q\<rparr>"
  have setq: "set q = set (sq s)" by (rule mset_eq_setD [OF q(2)])
  have ok: "sched_ok ?s" using sched_ok_cong [OF Suc.prems(1), of ?s] q(2) by simp
  have "now < timeToFetch ?t" using rescheduled_later [OF _ assms] Suc.prems(3) p by blast
  then have due': "due now ?s = due now s - {?p}" using setq by (auto simp: due_def)
  have "\<forall>x\<in>set (sq ?s). t_sourcestate0 (tobj ?s x) = 49" using Suc.prems(2) setq act by auto
  moreover have "\<forall>x\<in>due now ?s. plausible (tobj ?s x)" unfolding due' using Suc.prems(3) by auto
  moreover have "card (due now ?s) = n" unfolding due' using fin p Suc.prems(4) by simp
  ultimately obtain ps s' where ps: "requests sel lt now n ?s = (map Some ps, s')" "distinct ps" "set ps = due now ?s"
    "getNextTask sel lt (\<lambda>_. now) s' = Inr (None, 10, s')" using Suc.IH [OF ok] by blast
  have "requests sel lt now (Suc n) s = (map Some (?p # ps), s')" using q(1) ps(1) by simp
  moreover have "distinct (?p # ps)" "set (?p # ps) = due now s" using ps(2,3) p unfolding due' by auto
  ultimately show ?case using ps(4) by blast
qed

end



section \<open>The interval\<close>

definition recalculated :: "(int \<Rightarrow> int \<times> int) \<Rightarrow> int \<Rightarrow> task \<Rightarrow> task" where
  "recalculated lt now t = snd (recalculateTime lt now t)"

lemma recalculated_step:
  assumes "fst (lt now) \<le> 17" "9 \<le> fst (lt now)" "snd (lt now) \<noteq> 0" "snd (lt now) \<noteq> 6"
    and "0 < t_interval t" "t_interval t \<le> currentInterval t" "currentInterval t \<le> 604800"
  shows "recalculated lt now t = t\<lparr>currentInterval :=
    (if lastFetchNum t = 0 then min 604800 (currentInterval t * 2) else max (t_interval t) (currentInterval t div 2))\<rparr>"
proof -
  obtain h w where l: "lt now = (h, w)" by (cases "lt now")
  have same: "t\<lparr>currentInterval := currentInterval t\<rparr> = t" by (cases t) simp
  have half: "currentInterval t sdiv 2 = currentInterval t div 2" using assms(5,6) by (simp add: signed_divide_int_def)
  have off: "\<not> (h > 17 \<or> h < 9 \<or> w = 0 \<or> w = 6)" using assms(1-4) by (auto simp: l)
  show ?thesis
  proof (cases "lastFetchNum t = 0")
    case True
    then show ?thesis
      using assms(5-7) off by (simp add: recalculated_def recalculateTime_def l Let_def min_def del: de_Morgan_disj)
  next
    case False
    show ?thesis
    proof (cases "currentInterval t > t_interval t")
      case True
      then show ?thesis
        using False assms(5-7) off half by (simp add: recalculated_def recalculateTime_def l Let_def max_def del: de_Morgan_disj)
    next
      case no: False
      then have "max (t_interval t) (currentInterval t div 2) = currentInterval t" using assms(5,6) by simp
      then show ?thesis
        using False no assms(5-7) off same by (simp add: recalculated_def recalculateTime_def l Let_def del: de_Morgan_disj)
    qed
  qed
qed

text \<open>
  In working hours the interval of a task follows its success: \<open>k\<close> rounds without a new page double it
  \<open>k\<close> times, up to a week, and \<open>k\<close> rounds with pages halve it \<open>k\<close> times, down to the interval that is
  configured; it never leaves these bounds.
\<close>

theorem interval_adapts:
  assumes "fst (lt now) \<le> 17" "9 \<le> fst (lt now)" "snd (lt now) \<noteq> 0" "snd (lt now) \<noteq> 6"
    and "0 < t_interval t" "t_interval t \<le> currentInterval t" "currentInterval t \<le> 604800"
  shows "(recalculated lt now ^^ k) t = t\<lparr>currentInterval :=
    (if lastFetchNum t = 0 then min 604800 (currentInterval t * 2 ^ k) else max (t_interval t) (currentInterval t div 2 ^ k))\<rparr>"
proof (induction k)
  case 0
  show ?case using assms by (cases t) simp
next
  case (Suc k)
  let ?c = "if lastFetchNum t = 0 then min 604800 (currentInterval t * 2 ^ k) else max (t_interval t) (currentInterval t div 2 ^ k)"
  have d: "currentInterval t div 2 ^ k \<le> currentInterval t" using assms(5,6) by (intro int_div_le_self) simp
  have "currentInterval t \<le> currentInterval t * 2 ^ k"
    using mult_left_mono [of 1 "2 ^ k" "currentInterval t"] assms(5,6) by simp
  then have "t_interval t \<le> currentInterval t * 2 ^ k" using assms(6) by (rule order_trans [rotated])
  then have b: "t_interval t \<le> ?c" "?c \<le> 604800" using assms(5-7) d by (simp_all del: mult_le_cancel_left1)
  have "(recalculated lt now ^^ Suc k) t = recalculated lt now (t\<lparr>currentInterval := ?c\<rparr>)" by (simp only: funpow.simps o_apply Suc)
  also have "\<dots> = t\<lparr>currentInterval := (if lastFetchNum t = 0 then min 604800 (?c * 2) else max (t_interval t) (?c div 2))\<rparr>"
    using recalculated_step [of lt now "t\<lparr>currentInterval := ?c\<rparr>", OF assms(1-4)] assms(5) b by simp
  also have "(if lastFetchNum t = 0 then min 604800 (?c * 2) else max (t_interval t) (?c div 2)) =
      (if lastFetchNum t = 0 then min 604800 (currentInterval t * 2 ^ Suc k) else max (t_interval t) (currentInterval t div 2 ^ Suc k))"
  proof (cases "lastFetchNum t = 0")
    case False
    have "currentInterval t div 2 ^ Suc k = currentInterval t div 2 ^ k div 2" by (metis power_Suc2 zdiv_zmult2_eq zero_le_numeral)
    moreover have "max a b div 2 = max (a div 2) (b div 2)" for a b :: int
      using zdiv_mono1 [of a b 2] zdiv_mono1 [of b a 2] by (auto simp: max_def)
    ultimately show ?thesis using False assms(5) by (auto simp: max_def)
  qed (auto simp: min_def)
  finally show ?case .
qed

theorem interval_adapts_witness:
  "(recalculated (\<lambda>_. (12, 3)) 0 ^^ 3) (demo_task 7 90) = demo_task 7 90\<lparr>currentInterval := 60\<rparr>"
  using interval_adapts [of "\<lambda>_. (12, 3)" 0 "demo_task 7 90" 3] by simp

section \<open>Removing\<close>

text \<open>
  \<open>remove\<close> never removes a task: for a task of the schedule it does nothing, and for an identifier that is
  not there it rebuilds the queue with the same tasks, or reads the top of an empty queue.
\<close>

theorem remove_removes_nothing:
  assumes "queue_choice sel" "sched_ok s"
  shows "if tasksmap s i = None \<and> sq s = [] then sched_remove sel i s = Inl OutOfBounds
    else \<exists>s'. sched_remove sel i s = Inr s' \<and> mset (sq s') = mset (sq s) \<and> tasksmap s' = tasksmap s"
proof (cases "tasksmap s i = None \<and> sq s = []")
  case True
  then show ?thesis by (simp add: sched_remove_def removeTaskFromPriorityQueue_def q_top_def)
next
  case False
  have "\<exists>s'. sched_remove sel i s = Inr s'"
  proof (cases "tasksmap s i = None")
    case True
    then have "(tasksmap s)(i := None) = tasksmap s" "sq s \<noteq> []" using False by auto
    then show ?thesis
      using queue_choice.removeTask_filters [OF assms(1) sched_okD(1) [OF assms(2)] queue_choice.sched_ok_inj [OF assms]] True
      by (auto simp: sched_remove_def)
  qed (auto simp: sched_remove_def)
  then have "\<exists>s'. sched_remove sel i s = Inr s' \<and> mset (sq s') = mset (sq s) \<and> tasksmap s' = tasksmap s"
    using queue_choice.remove_keeps [OF assms] by blast
  then show ?thesis unfolding if_not_P [OF False] .
qed

theorem remove_removes_nothing_witness:
  "\<exists>s'. sched_remove first_min 8 demo_sched = Inr s' \<and> mset (sq s') = {#1, 2, 3#} \<and> tasksmap s' = tasksmap demo_sched"
  using remove_removes_nothing [OF first_min.queue_choice_axioms demo_sched_ok, of 8] by (simp add: demo_sched_def)

end
