(* ===== verification/TaskOther.thy ===== *)
theory TaskOther
  imports TaskSched
begin

text \<open>
  What the task schedule keeps of a running task, \<open>TaskOtherInfo\<close> of \<open>tools/ic_types.h\<close>: its cookie, the
  addresses of the round and the counters; the map of these objects in \<open>module/TaskScheduleManager.cpp\<close>,
  which several threads look up, count in and delete from; and the keywords of the search sources.
\<close>

section \<open>The object\<close>

text \<open>\<open>taskcookie\<close> is the array it points to, with the NUL at its end.\<close>

record tother =
  o_id :: int
  fetchingcookie :: bool
  running :: bool
  taskcookie :: "bytes option"
  taskcookielen :: int
  errorurlnum :: int
  fetchnum :: int
  urlnum :: int
  insurlnum :: int
  alreadyused :: bool
  o_urls :: "bytes set"
  o_taskbatch :: int
  savefetched :: int
  begintime :: u64

definition TaskOtherInfo :: "int \<Rightarrow> int \<Rightarrow> tother" where
  "TaskOtherInfo i now = \<lparr>o_id = i, fetchingcookie = False, running = False, taskcookie = None, taskcookielen = 0, errorurlnum = 0,
     fetchnum = 0, urlnum = 0, insurlnum = 0, alreadyused = True, o_urls = {}, o_taskbatch = 0, savefetched = 0,
     begintime = word_of_int now\<rparr>"

text \<open>\<open>strncpy(dst, s, n)\<close>: the bytes written, padded with NULs.\<close>

definition strncpy_bytes :: "nat \<Rightarrow> bytes \<Rightarrow> bytes" where
  "strncpy_bytes n s = take n (c_str s @ replicate n 0)"

definition insertcookie :: "bytes option \<Rightarrow> int \<Rightarrow> tother \<Rightarrow> tother" where
  "insertcookie cookie cookielen o1 =
    (case cookie of None \<Rightarrow> o1
     | Some c \<Rightarrow> if cookielen > 0
         then o1\<lparr>taskcookie := Some (strncpy_bytes (nat cookielen) c @ [0]), taskcookielen := cookielen\<rparr> else o1)"

text \<open>The sum of the lengths is an \<open>int\<close>; an array of negative size is not made.\<close>

definition appendcookie :: "bytes option \<Rightarrow> int \<Rightarrow> tother \<Rightarrow> tother result" where
  "appendcookie cookie cookielen o1 =
    (case cookie of None \<Rightarrow> Inr o1
     | Some c \<Rightarrow> if cookielen > 0
         then let tmp = taskcookielen o1; total = to_int (taskcookielen o1 + cookielen)
              in if total < 0 then Inl (Raise BadAlloc)
                 else bind_r (case taskcookie o1 of Some b \<Rightarrow> Inr (strncpy_bytes (nat tmp) b)
                              | None \<Rightarrow> if tmp > 0 then Inl NullDeref else Inr []) (\<lambda>old.
                   Inr (o1\<lparr>taskcookielen := total, taskcookie := Some (old @ strncpy_bytes (nat cookielen) c @ [0])\<rparr>))
         else Inr o1)"

definition findurl :: "bytes \<Rightarrow> tother \<Rightarrow> bool" where
  "findurl url o1 \<longleftrightarrow> url \<in> o_urls o1"

definition inserttaskurl :: "bytes \<Rightarrow> tother \<Rightarrow> tother" where
  "inserttaskurl url o1 = o1\<lparr>o_urls := insert url (o_urls o1)\<rparr>"

definition deletetaskurl :: "bytes \<Rightarrow> tother \<Rightarrow> tother" where
  "deletetaskurl url o1 = o1\<lparr>o_urls := o_urls o1 - {url}\<rparr>"

text \<open>It is declared to return a number and does not; no caller uses one.\<close>

definition combineTaskOtherInfo :: "tother \<Rightarrow> tother \<Rightarrow> tother" where
  "combineTaskOtherInfo des src = insertcookie (taskcookie src) (taskcookielen src) (des\<lparr>fetchingcookie := fetchingcookie src\<rparr>)"

section \<open>The map\<close>

text \<open>\<open>tasksothermap\<close>, and the objects that have been made and not deleted.\<close>

record tothers =
  othermap :: "int \<Rightarrow> ptr option"
  oobj :: "ptr \<Rightarrow> tother option"

text \<open>Access through a pointer that was looked up before.\<close>

definition touch :: "(tother \<Rightarrow> tother) \<Rightarrow> ptr \<Rightarrow> tothers \<Rightarrow> tothers result" where
  "touch f p s = (case oobj s p of None \<Rightarrow> Inl UseAfterFree | Some o1 \<Rightarrow> Inr (s\<lparr>oobj := (oobj s)(p := Some (f o1))\<rparr>))"

definition look :: "ptr \<Rightarrow> tothers \<Rightarrow> tother result" where
  "look p s = (case oobj s p of None \<Rightarrow> Inl UseAfterFree | Some o1 \<Rightarrow> Inr o1)"

text \<open>The result of \<open>getTaskOtherInfo\<close>: the pointer, \<open>*exists\<close>, and the state.\<close>

definition getTaskOtherInfo :: "int \<Rightarrow> bool \<Rightarrow> tothers \<Rightarrow> (ptr option \<times> bool \<times> tothers) result" where
  "getTaskOtherInfo i needmutex s =
    (case othermap s i of
       None \<Rightarrow> Inr (None, False, s)
     | Some p \<Rightarrow>
         if needmutex
         then bind_r (look p s) (\<lambda>o1.
                if alreadyused o1 then Inr (None, True, s)
                else bind_r (touch (\<lambda>o1. o1\<lparr>alreadyused := True\<rparr>) p s) (\<lambda>s. Inr (Some p, True, s)))
         else Inr (Some p, True, s))"

definition poptaskother :: "int \<Rightarrow> bool \<Rightarrow> tothers \<Rightarrow> (ptr option \<times> tothers) result" where
  "poptaskother i needmutex s =
    (case othermap s i of
       None \<Rightarrow> Inr (None, s)
     | Some p \<Rightarrow>
         bind_r (look p s) (\<lambda>o1.
           if needmutex \<and> alreadyused o1 then Inr (None, s)
           else bind_r (if needmutex then touch (\<lambda>o1. o1\<lparr>alreadyused := True\<rparr>) p s else Inr s) (\<lambda>s.
             Inr (Some p, s\<lparr>othermap := (othermap s)(i := None)\<rparr>))))"

definition putTaskOtherInfo :: "ptr \<Rightarrow> tothers \<Rightarrow> (int \<times> tothers) result" where
  "putTaskOtherInfo p s =
    bind_r (look p s) (\<lambda>o1.
      if othermap s (o_id o1) = None then Inr (1, s\<lparr>othermap := (othermap s)(o_id o1 := Some p)\<rparr>) else Inr (0, s))"

section \<open>Counting\<close>

text \<open>
  The counters: the object is looked up under one lock and counted in under another; \<open>None\<close> when there is
  no such task.
\<close>

definition count_in :: "(tother \<Rightarrow> tother) \<Rightarrow> int \<Rightarrow> tothers \<Rightarrow> (bool \<times> tothers) result" where
  "count_in f i s =
    bind_r (getTaskOtherInfo i False s) (\<lambda>(p, _, s).
      case p of Some p \<Rightarrow> bind_r (touch f p s) (\<lambda>s. Inr (True, s)) | None \<Rightarrow> Inr (False, s))"

definition increaseTaskErrorUrlNum :: "int \<Rightarrow> tothers \<Rightarrow> (bool \<times> tothers) result" where
  "increaseTaskErrorUrlNum = count_in (\<lambda>o1. o1\<lparr>errorurlnum := to_int (errorurlnum o1 + 1)\<rparr>)"

definition increaseTaskSavefetchedNum :: "int \<Rightarrow> tothers \<Rightarrow> (bool \<times> tothers) result" where
  "increaseTaskSavefetchedNum = count_in (\<lambda>o1. o1\<lparr>savefetched := to_int (savefetched o1 + 1)\<rparr>)"

definition increaseTaskUrlNum :: "int \<Rightarrow> tothers \<Rightarrow> (bool \<times> tothers) result" where
  "increaseTaskUrlNum = count_in (\<lambda>o1. o1\<lparr>urlnum := to_int (urlnum o1 + 1)\<rparr>)"

definition increaseTaskInsUrl :: "int \<Rightarrow> tothers \<Rightarrow> (bool \<times> tothers) result" where
  "increaseTaskInsUrl = count_in (\<lambda>o1. o1\<lparr>insurlnum := to_int (insurlnum o1 + 1)\<rparr>)"

text \<open>\<open>deleteTaskOther\<close> of a task with the given identifier and \<open>lastFetchNum\<close>; the new count is only logged.\<close>

definition deleteTaskOther :: "int \<Rightarrow> int \<Rightarrow> tothers \<Rightarrow> tothers result" where
  "deleteTaskOther i lastfetch s =
    bind_r (poptaskother i True s) (\<lambda>(p, s).
      case p of None \<Rightarrow> Inr s
      | Some p \<Rightarrow> bind_r (touch (\<lambda>o1. o1\<lparr>fetchnum := to_int (fetchnum o1 + lastfetch)\<rparr>) p s) (\<lambda>s.
          Inr (s\<lparr>oobj := (oobj s)(p := None)\<rparr>)))"

definition decreaseTaskUrlNum :: "int \<Rightarrow> int \<Rightarrow> tothers \<Rightarrow> (int \<times> tothers) result" where
  "decreaseTaskUrlNum i lastfetch s =
    bind_r (getTaskOtherInfo i False s) (\<lambda>(p, _, s).
      case p of None \<Rightarrow> Inr (-1, s)
      | Some p \<Rightarrow> bind_r (touch (\<lambda>o1. o1\<lparr>urlnum := to_int (urlnum o1 - 1)\<rparr>) p s) (\<lambda>s.
          bind_r (look p s) (\<lambda>o1.
            bind_r (if urlnum o1 = 0 then deleteTaskOther i lastfetch s else Inr s) (\<lambda>s. Inr (-1, s)))))"

definition getCookieFromTask :: "int \<Rightarrow> tothers \<Rightarrow> bytes option result" where
  "getCookieFromTask i s =
    bind_r (getTaskOtherInfo i False s) (\<lambda>(p, _, s).
      case p of None \<Rightarrow> Inr None | Some p \<Rightarrow> bind_r (look p s) (\<lambda>o1. Inr (taskcookie o1)))"

section \<open>The round of the task thread\<close>

definition SOURCE_TYPE_COMPANY :: int where "SOURCE_TYPE_COMPANY = 6"

text \<open>
  What \<open>getTaskThread\<close> does with the task it got from \<open>getNextTask\<close> before it inserts its addresses: it claims the object of
  the task, or makes one at \<open>new\<close>; \<open>lk\<close> is \<open>rwlock_task_running\<close>, and \<open>clk\<close> the readings of the clock. The result is the object to
  work with, or \<open>None\<close> to go on with the next task. The difference of the times is an unsigned number.
\<close>

definition claim_round :: "task \<Rightarrow> int \<Rightarrow> (nat \<Rightarrow> int) \<Rightarrow> ptr \<Rightarrow> rwlock \<Rightarrow> tothers \<Rightarrow> (ptr option \<times> rwlock \<times> tothers) result" where
  "claim_round t resinsertinterval clk new lk s =
    bind_r (getTaskOtherInfo (t_id t) True s) (\<lambda>(r, there, s).
      case r of
        Some p \<Rightarrow>
          bind_r (wr_lock lk) (\<lambda>lk. bind_r (look p s) (\<lambda>o1.
            if \<not> running o1
            then bind_r (touch (\<lambda>o1. o1\<lparr>running := True\<rparr>) p s) (\<lambda>s. bind_r (rw_unlock lk) (\<lambda>lk.
                 bind_r (touch (\<lambda>o1. o1\<lparr>o_taskbatch := 0\<rparr>) p s) (\<lambda>s. Inr (Some p, lk, s))))
            else bind_r (touch (\<lambda>o1. o1\<lparr>fetchnum := to_int (fetchnum o1 + lastFetchNum t)\<rparr>) p s) (\<lambda>s. bind_r (rw_unlock lk) (\<lambda>lk.
                 let reinsertintervaltmp = (if t_interval t < resinsertinterval then to_int (t_interval t) else resinsertinterval)
                 in if t_sourcetype t = SOURCE_TYPE_BBS \<or> t_sourcetype t = SOURCE_TYPE_COMPANY
                       \<or> word_of_int (clk 0) - begintime o1 < word_of_int reinsertintervaltmp
                    then bind_r (touch (\<lambda>o1. o1\<lparr>alreadyused := False\<rparr>) p s) (\<lambda>s. Inr (None, lk, s))
                    else bind_r (touch (\<lambda>o1. o1\<lparr>begintime := word_of_int (clk 1)\<rparr>) p s) (\<lambda>s. Inr (Some p, lk, s))))))
      | None \<Rightarrow>
          if \<not> there
          then bind_r (wr_lock lk) (\<lambda>lk.
               let s = s\<lparr>oobj := (oobj s)(new := Some (TaskOtherInfo (t_id t) (clk 0)))\<rparr>
               in bind_r (putTaskOtherInfo new s) (\<lambda>(_, s). bind_r (look new s) (\<lambda>o1.
                    bind_r (touch (\<lambda>o1. o1\<lparr>running := True\<rparr>) new s) (\<lambda>s. bind_r (rw_unlock lk) (\<lambda>lk.
                      bind_r (touch (\<lambda>o1. o1\<lparr>o_taskbatch := 0\<rparr>) new s) (\<lambda>s. Inr (Some new, lk, s)))))))
          else bind_r (rw_unlock lk) (\<lambda>lk. Inr (None, lk, s)))"

text \<open>The end of the round.\<close>

definition release_round :: "ptr \<Rightarrow> tothers \<Rightarrow> tothers result" where
  "release_round p s = touch (\<lambda>o1. o1\<lparr>alreadyused := False\<rparr>) p s"

section \<open>Keywords\<close>

record keyword =
  kw_keyword :: bytes
  kw_state :: int
  kw_source_id :: int

text \<open>\<open>keywordsmap\<close> in the order of the multimap: a new entry comes behind those with the same key.\<close>

type_synonym keyword_map = "(int \<times> keyword) list"

definition multimap_insert :: "int \<Rightarrow> keyword \<Rightarrow> keyword_map \<Rightarrow> keyword_map" where
  "multimap_insert k kw m = takeWhile (\<lambda>(j, _). j \<le> k) m @ (k, kw) # dropWhile (\<lambda>(j, _). j \<le> k) m"

definition same_keyword :: "keyword \<Rightarrow> int \<times> keyword \<Rightarrow> bool" where
  "same_keyword kw e \<longleftrightarrow> fst e = kw_source_id kw \<and> c_str (kw_keyword (snd e)) = c_str (kw_keyword kw)"

text \<open>Erasing the first element of the range with the same text.\<close>

fun erase_first :: "('e \<Rightarrow> bool) \<Rightarrow> 'e list \<Rightarrow> 'e list" where
  "erase_first P [] = []"
| "erase_first P (e # es) = (if P e then es else e # erase_first P es)"

definition InsertKeywordMap :: "keyword \<Rightarrow> keyword_map \<Rightarrow> bool \<times> keyword_map" where
  "InsertKeywordMap kw m =
    (if \<exists>e\<in>set m. same_keyword kw e
     then (False, if kw_state kw = 0 then erase_first (same_keyword kw) m else m)
     else if kw_state kw \<noteq> 0 then (True, multimap_insert (kw_source_id kw) kw m) else (False, m))"

definition DelKeywordMap :: "keyword_map \<Rightarrow> keyword_map" where
  "DelKeywordMap m = []"

definition keywordmapsize :: "keyword_map \<Rightarrow> nat" where
  "keywordmapsize m = length m"

section \<open>Cookies\<close>

text \<open>An array that ends in a NUL at the length the object remembers.\<close>

definition cookie_ok :: "tother \<Rightarrow> bool" where
  "cookie_ok o1 = (case taskcookie o1 of None \<Rightarrow> taskcookielen o1 = 0
     | Some b \<Rightarrow> 0 < taskcookielen o1 \<and> taskcookielen o1 < 2 ^ 31 \<and> int (length b) = taskcookielen o1 + 1 \<and> last b = 0)"

definition cookie_text :: "tother \<Rightarrow> bytes" where
  "cookie_text o1 = (case taskcookie o1 of None \<Rightarrow> [] | Some b \<Rightarrow> c_str b)"

lemma length_strncpy_bytes [simp]: "length (strncpy_bytes n s) = n"
  by (simp add: strncpy_bytes_def)

lemma c_str_append: "c_str (a @ b) = (if 0 \<in> set a then c_str a else a @ c_str b)"
  by (induction a) (auto simp: c_str_def)

lemma c_str_strncpy: "c_str (strncpy_bytes n s @ [0]) = take n (c_str s)"
proof (cases "length (c_str s) < n")
  case True
  then have "strncpy_bytes n s = c_str s @ 0 # replicate (n - length (c_str s) - 1) 0"
    by (simp add: strncpy_bytes_def take_append flip: replicate_Suc)
  then show ?thesis using True by (simp add: c_str_append) (simp add: c_str_def)
next
  case False
  then have "strncpy_bytes n s = take n (c_str s)" by (simp add: strncpy_bytes_def)
  moreover have "0 \<notin> set (take n (c_str s))" by (meson c_str_no_nul in_set_takeD)
  ultimately show ?thesis by (simp add: c_str_append) (simp add: c_str_def)
qed

lemma cookie_text_insert:
  "0 < n \<Longrightarrow> n < 2 ^ 31 \<Longrightarrow> cookie_ok (insertcookie (Some c) n o1) \<and> cookie_text (insertcookie (Some c) n o1) = take (nat n) (c_str c)"
  by (simp add: insertcookie_def cookie_ok_def cookie_text_def c_str_strncpy)

lemma c_str_short: "length b = Suc n \<Longrightarrow> last b = 0 \<Longrightarrow> length (c_str b) \<le> n"
proof -
  assume b: "length b = Suc n" "last b = 0"
  then have "b \<noteq> []" by auto
  then have "0 \<in> set b" using b(2) last_in_set [of b] by simp
  then have "c_str b \<noteq> b" using c_str_no_nul [of b] by metis
  moreover have "take (length (c_str b)) b = c_str b" unfolding c_str_def by (rule takeWhile_eq_take [symmetric])
  ultimately have "\<not> length b \<le> length (c_str b)" by (metis take_all)
  then show ?thesis using b(1) by simp
qed

lemma strncpy_bytes_cases:
  "strncpy_bytes n s = (if n \<le> length (c_str s) then take n (c_str s) else c_str s @ 0 # replicate (n - length (c_str s) - 1) 0)"
proof (cases "n \<le> length (c_str s)")
  case False
  then have "replicate (n - length (c_str s)) (0 :: u8) = 0 # replicate (n - length (c_str s) - 1) 0"
    by (cases "n - length (c_str s)") auto
  then show ?thesis using False by (simp add: strncpy_bytes_def)
qed (simp add: strncpy_bytes_def)

lemma cookie_text_length: "cookie_ok o1 \<Longrightarrow> int (length (cookie_text o1)) \<le> taskcookielen o1"
proof (cases "taskcookie o1")
  case (Some b)
  assume ok: "cookie_ok o1"
  then have "length b = Suc (nat (taskcookielen o1))" "last b = 0" "0 < taskcookielen o1" using Some by (auto simp: cookie_ok_def)
  then show ?thesis using Some c_str_short [of b "nat (taskcookielen o1)"] by (simp add: cookie_text_def)
qed (simp add: cookie_text_def cookie_ok_def)

lemma appended_text:
  assumes ok: "cookie_ok o1" and n: "0 < n" "taskcookielen o1 + n < 2 ^ 31"
  shows "\<exists>o2. appendcookie (Some c) n o1 = Inr o2 \<and> cookie_ok o2
    \<and> cookie_text o2 = cookie_text o1 @ (if int (length (cookie_text o1)) = taskcookielen o1 then take (nat n) (c_str c) else [])"
proof (cases "taskcookie o1")
  case None
  then have "taskcookielen o1 = 0" using ok by (simp add: cookie_ok_def)
  with None show ?thesis using n
    by (simp add: appendcookie_def cookie_ok_def cookie_text_def c_str_strncpy)
next
  case (Some b)
  let ?k = "taskcookielen o1"
  have k: "0 < ?k" and len: "int (length (c_str b)) \<le> ?k"
    using ok Some cookie_text_length [OF ok] by (auto simp: cookie_ok_def cookie_text_def)
  let ?old = "strncpy_bytes (nat ?k) b"
  have "c_str (?old @ strncpy_bytes (nat n) c @ [0]) = c_str b @ (if int (length (c_str b)) = ?k then take (nat n) (c_str c) else [])"
  proof (cases "int (length (c_str b)) = ?k")
    case True
    then have "?old = c_str b" by (simp add: strncpy_bytes_cases)
    moreover have "c_str (c_str b @ xs) = c_str b @ c_str xs" for xs by (simp add: c_str_append)
    ultimately show ?thesis using True by (simp add: c_str_strncpy)
  next
    case False
    then have "?old = c_str b @ 0 # replicate (nat ?k - length (c_str b) - 1) 0" using len by (simp add: strncpy_bytes_cases)
    then show ?thesis using False by (simp add: c_str_append) (simp add: c_str_def)
  qed
  then show ?thesis using Some k n
    by (simp add: appendcookie_def cookie_ok_def cookie_text_def Let_def nat_add_distrib)
qed

text \<open>
  The cookie of a task is always a terminated text. \<open>insertcookie\<close> sets it to the first \<open>n\<close> characters of the new one, and
  \<open>appendcookie\<close> puts them behind it, provided the text in place fills its array: what is appended behind a shorter text stands
  behind its NUL and is never seen.
\<close>

theorem cookies_are_texts:
  assumes "cookie_ok o1" "0 < n" "taskcookielen o1 + n < 2 ^ 31"
  shows "cookie_ok (insertcookie (Some c) n o1) \<and> cookie_text (insertcookie (Some c) n o1) = take (nat n) (c_str c)
    \<and> (\<exists>o2. appendcookie (Some c) n o1 = Inr o2 \<and> cookie_ok o2
      \<and> cookie_text o2 = cookie_text o1 @ (if int (length (cookie_text o1)) = taskcookielen o1 then take (nat n) (c_str c) else []))"
proof -
  have "0 \<le> taskcookielen o1" using assms(1) by (auto simp: cookie_ok_def split: option.splits)
  then have "n < 2 ^ 31" using assms(3) by linarith
  then show ?thesis using cookie_text_insert [OF assms(2)] appended_text [OF assms] by blast
qed

theorem cookies_are_texts_witness:
  "\<exists>o2. appendcookie (Some [51, 52]) 2 (insertcookie (Some [49, 50, 0]) 2 (TaskOtherInfo 7 0)) = Inr o2 \<and> cookie_text o2 = [49, 50, 51, 52]"
proof -
  let ?o1 = "insertcookie (Some [49, 50, 0]) 2 (TaskOtherInfo 7 0)"
  have t: "cookie_ok ?o1" "taskcookielen ?o1 = 2" "cookie_text ?o1 = [49, 50]"
    by (simp_all add: insertcookie_def cookie_ok_def cookie_text_def strncpy_bytes_def c_str_def)
  show ?thesis using cookies_are_texts [OF t(1), of 2 "[51, 52]"] t by (auto simp: c_str_def)
qed

section \<open>The keywords are a set\<close>

definition keyword_set :: "keyword_map \<Rightarrow> (int \<times> bytes) set" where
  "keyword_set m = (\<lambda>(k, kw). (k, c_str (kw_keyword kw))) ` set m"

definition keywords_ok :: "keyword_map \<Rightarrow> bool" where
  "keywords_ok m \<longleftrightarrow> sorted (map fst m) \<and> distinct (map (\<lambda>(k, kw). (k, c_str (kw_keyword kw))) m)"

definition keyword_entry :: "keyword \<Rightarrow> int \<times> bytes" where
  "keyword_entry kw = (kw_source_id kw, c_str (kw_keyword kw))"

lemma same_keyword_entry: "same_keyword kw e \<longleftrightarrow> (\<lambda>(k, kw). (k, c_str (kw_keyword kw))) e = keyword_entry kw"
  by (cases e) (auto simp: same_keyword_def keyword_entry_def)

lemma erase_first_map:
  assumes "distinct (map f m)"
  shows "f ` set (erase_first (\<lambda>e. f e = x) m) = f ` set m - {x}" "distinct (map f (erase_first (\<lambda>e. f e = x) m))"
proof -
  have "map f (erase_first (\<lambda>e. f e = x) m) = remove1 x (map f m)" by (induction m) auto
  then show "f ` set (erase_first (\<lambda>e. f e = x) m) = f ` set m - {x}" "distinct (map f (erase_first (\<lambda>e. f e = x) m))"
    using assms by (metis list.set_map set_remove1_eq, metis assms distinct_remove1)
qed

lemma sorted_erase_first: "sorted (map g m) \<Longrightarrow> sorted (map g (erase_first P m)) \<and> set (erase_first P m) \<subseteq> set m"
  by (induction m) auto

lemma multimap_insert_sorted: "sorted (map fst m) \<Longrightarrow> sorted (map fst (multimap_insert k kw m))"
proof (induction m)
  case (Cons e m)
  then show ?case
    by (cases e) (force simp: multimap_insert_def dest: set_takeWhileD set_dropWhileD split: prod.splits)
qed (simp add: multimap_insert_def)

lemma mset_multimap_insert: "mset (multimap_insert k kw m) = add_mset (k, kw) (mset m)"
proof -
  have "mset m = mset (takeWhile P m) + mset (dropWhile P m)" for P :: "int \<times> keyword \<Rightarrow> bool"
    by (metis mset_append takeWhile_dropWhile_id)
  then show ?thesis by (simp add: multimap_insert_def)
qed

lemma InsertKeywordMap_step:
  assumes "keywords_ok m"
  shows "keywords_ok (snd (InsertKeywordMap kw m))
    \<and> fst (InsertKeywordMap kw m) = (kw_state kw \<noteq> 0 \<and> keyword_entry kw \<notin> keyword_set m)
    \<and> keyword_set (snd (InsertKeywordMap kw m)) =
        (if kw_state kw \<noteq> 0 then insert (keyword_entry kw) (keyword_set m) else keyword_set m - {keyword_entry kw})"
proof -
  let ?f = "\<lambda>(k, kw). (k :: int, c_str (kw_keyword kw))"
  have there: "(\<exists>e\<in>set m. same_keyword kw e) \<longleftrightarrow> keyword_entry kw \<in> keyword_set m"
    unfolding keyword_set_def same_keyword_entry by (metis (no_types, lifting) image_iff)
  have P: "same_keyword kw = (\<lambda>e. ?f e = keyword_entry kw)" by (simp add: same_keyword_entry fun_eq_iff)
  have d: "distinct (map ?f m)" "sorted (map fst m)" using assms by (auto simp: keywords_ok_def)
  show ?thesis
  proof (cases "keyword_entry kw \<in> keyword_set m")
    case True
    then have "InsertKeywordMap kw m = (False, if kw_state kw = 0 then erase_first (same_keyword kw) m else m)"
      using there by (simp add: InsertKeywordMap_def)
    then show ?thesis
      using True assms erase_first_map [OF d(1), of "keyword_entry kw"] sorted_erase_first [OF d(2), of "same_keyword kw"]
      by (auto simp: keywords_ok_def keyword_set_def P)
  next
    case False
    let ?m = "multimap_insert (kw_source_id kw) kw m"
    have ins: "InsertKeywordMap kw m = (if kw_state kw \<noteq> 0 then (True, ?m) else (False, m))"
      using False there by (simp add: InsertKeywordMap_def)
    have "mset (map ?f ?m) = add_mset (keyword_entry kw) (mset (map ?f m))" by (simp add: mset_multimap_insert keyword_entry_def)
    then have m: "set (map ?f ?m) = insert (keyword_entry kw) (set (map ?f m))" "distinct (map ?f ?m)"
      using d(1) False by (metis set_mset_add_mset_insert set_mset_mset)
        (use d(1) False mset_eq_imp_distinct_iff [of "map ?f ?m" "keyword_entry kw # map ?f m"] in \<open>auto simp: keyword_set_def mset_multimap_insert keyword_entry_def\<close>)
    show ?thesis
    proof (cases "kw_state kw = 0")
      case True
      then show ?thesis using False ins assms by auto
    next
      case False
      have "keywords_ok ?m" using m(2) multimap_insert_sorted [OF d(2)] by (simp add: keywords_ok_def)
      moreover have "keyword_set ?m = insert (keyword_entry kw) (keyword_set m)" using m(1) by (simp add: keyword_set_def)
      ultimately show ?thesis using False ins \<open>keyword_entry kw \<notin> keyword_set m\<close> by simp
    qed
  qed
qed

text \<open>Keywords inserted one after the other: the answers, and the map.\<close>

fun keyword_runs :: "keyword list \<Rightarrow> keyword_map \<Rightarrow> bool list \<times> keyword_map" where
  "keyword_runs [] m = ([], m)"
| "keyword_runs (kw # kws) m = (let (r, m) = InsertKeywordMap kw m; (rs, m) = keyword_runs kws m in (r # rs, m))"

text \<open>What they do to the set of pairs of a source and a text.\<close>

fun keyword_spec :: "keyword list \<Rightarrow> (int \<times> bytes) set \<Rightarrow> bool list \<times> (int \<times> bytes) set" where
  "keyword_spec [] S = ([], S)"
| "keyword_spec (kw # kws) S =
    (let r = (kw_state kw \<noteq> 0 \<and> keyword_entry kw \<notin> S);
         (rs, S) = keyword_spec kws (if kw_state kw \<noteq> 0 then insert (keyword_entry kw) S else S - {keyword_entry kw})
     in (r # rs, S))"

text \<open>
  C24. The keywords behave as a set: whatever is inserted or, with state 0, taken out, the map holds each pair of a source and a text
  once, ordered by source, and every call answers whether it added a pair; its size is the number of pairs.
\<close>

theorem keywords_are_a_set:
  assumes "keywords_ok m"
  shows "keywords_ok (snd (keyword_runs kws m)) \<and> keyword_spec kws (keyword_set m) = (fst (keyword_runs kws m), keyword_set (snd (keyword_runs kws m)))
    \<and> keywordmapsize (snd (keyword_runs kws m)) = card (keyword_set (snd (keyword_runs kws m)))"
proof -
  have size: "keywordmapsize m' = card (keyword_set m')" if "keywords_ok m'" for m'
    using that distinct_card [of "map (\<lambda>(k, kw). (k, c_str (kw_keyword kw))) m'"]
    by (simp add: keywords_ok_def keywordmapsize_def keyword_set_def)
  have "keywords_ok (snd (keyword_runs kws m)) \<and> keyword_spec kws (keyword_set m) = (fst (keyword_runs kws m), keyword_set (snd (keyword_runs kws m)))"
    using assms
  proof (induction kws arbitrary: m)
    case (Cons kw kws)
    obtain r m' where i: "InsertKeywordMap kw m = (r, m')" by force
    from InsertKeywordMap_step [OF Cons.prems, of kw] have "keywords_ok m'"
      "r = (kw_state kw \<noteq> 0 \<and> keyword_entry kw \<notin> keyword_set m)"
      "keyword_set m' = (if kw_state kw \<noteq> 0 then insert (keyword_entry kw) (keyword_set m) else keyword_set m - {keyword_entry kw})"
      by (simp_all add: i)
    with Cons.IH [OF this(1)] show ?case by (cases "keyword_runs kws m'") (simp add: i)
  qed simp
  then show ?thesis using size by blast
qed

theorem keywords_are_a_set_witness:
  "keyword_spec [\<lparr>kw_keyword = [97], kw_state = 1, kw_source_id = 3\<rparr>, \<lparr>kw_keyword = [97, 0, 5], kw_state = 1, kw_source_id = 3\<rparr>] {}
    = ([True, False], {(3, [97])})
    \<and> fst (keyword_runs [\<lparr>kw_keyword = [97], kw_state = 1, kw_source_id = 3\<rparr>, \<lparr>kw_keyword = [97, 0, 5], kw_state = 1, kw_source_id = 3\<rparr>] [])
      = [True, False]"
proof -
  let ?kws = "[\<lparr>kw_keyword = [97], kw_state = 1, kw_source_id = 3\<rparr>, \<lparr>kw_keyword = [97, 0, 5], kw_state = 1, kw_source_id = 3\<rparr>]"
  have "keyword_spec ?kws {} = ([True, False], {(3, [97])})" by (simp add: keyword_entry_def c_str_def)
  moreover have "keywords_ok []" "keyword_set [] = {}" by (simp_all add: keywords_ok_def keyword_set_def)
  ultimately show ?thesis using keywords_are_a_set [of "[]" ?kws] by (simp del: keyword_runs.simps keyword_spec.simps)
qed

section \<open>Threads\<close>

text \<open>
  Where a thread stands between the locks: it has looked an object up and is about to count in it, or to take one address off; it is about
  to delete the object of a task, or has taken it out of the map and is about to delete it; or it works with an object it claimed.
\<close>

datatype opc = Idle | Counting ptr | Dropping int ptr | Popping int | Deleting ptr | Working ptr

record osys =
  og :: tothers
  opcs :: "nat \<Rightarrow> opc"

definition at :: "nat \<Rightarrow> opc \<Rightarrow> tothers \<Rightarrow> osys \<Rightarrow> osys" where
  "at t pc g y = y\<lparr>og := g, opcs := (opcs y)(t := pc)\<rparr>"

definition keeps_claim :: "(tother \<Rightarrow> tother) \<Rightarrow> bool" where
  "keeps_claim f \<longleftrightarrow> (\<forall>o1. o_id (f o1) = o_id o1 \<and> alreadyused (f o1) = alreadyused o1)"

text \<open>One critical section of one thread. A new object is at an address where nothing lives.\<close>

inductive ostep :: "osys \<Rightarrow> osys \<Rightarrow> bool" where
  find: "opcs y t = Idle \<Longrightarrow> getTaskOtherInfo i False (og y) = Inr (Some p, b, g) \<Longrightarrow> pc \<in> {Counting p, Dropping i p} \<Longrightarrow> ostep y (at t pc g y)"
| count: "opcs y t = Counting p \<Longrightarrow> keeps_claim f \<Longrightarrow> touch f p (og y) = Inr g \<Longrightarrow> ostep y (at t Idle g y)"
| take_off: "opcs y t = Dropping i p \<Longrightarrow> touch (\<lambda>o1. o1\<lparr>urlnum := to_int (urlnum o1 - 1)\<rparr>) p (og y) = Inr g \<Longrightarrow> look p g = Inr o1 \<Longrightarrow>
    ostep y (at t (if urlnum o1 = 0 then Popping i else Idle) g y)"
| pop_other: "opcs y t = Popping i \<Longrightarrow> poptaskother i True (og y) = Inr (r, g) \<Longrightarrow>
    ostep y (at t (case r of Some p \<Rightarrow> Deleting p | None \<Rightarrow> Idle) g y)"
| delete_other: "opcs y t = Deleting p \<Longrightarrow> look p (og y) = Inr o1 \<Longrightarrow> ostep y (at t Idle ((og y)\<lparr>oobj := (oobj (og y))(p := None)\<rparr>) y)"
| claim: "opcs y t = Idle \<Longrightarrow> getTaskOtherInfo i True (og y) = Inr (Some p, b, g) \<Longrightarrow> ostep y (at t (Working p) g y)"
| make: "opcs y t = Idle \<Longrightarrow> getTaskOtherInfo i True (og y) = Inr (None, False, g) \<Longrightarrow> oobj g p = None \<Longrightarrow>
    putTaskOtherInfo p (g\<lparr>oobj := (oobj g)(p := Some (TaskOtherInfo i now))\<rparr>) = Inr (r, g') \<Longrightarrow> ostep y (at t (Working p) g' y)"
| work: "opcs y t = Working p \<Longrightarrow> keeps_claim f \<Longrightarrow> touch f p (og y) = Inr g \<Longrightarrow> ostep y (at t (Working p) g y)"
| release: "opcs y t = Working p \<Longrightarrow> release_round p (og y) = Inr g \<Longrightarrow> ostep y (at t Idle g y)"

definition osys0 :: osys where
  "osys0 = \<lparr>og = \<lparr>othermap = (\<lambda>_. None), oobj = (\<lambda>_. None)\<rparr>, opcs = (\<lambda>_. Idle)\<rparr>"

definition owns :: "opc \<Rightarrow> ptr option" where
  "owns pc = (case pc of Deleting p \<Rightarrow> Some p | Working p \<Rightarrow> Some p | _ \<Rightarrow> None)"

definition others_ok :: "osys \<Rightarrow> bool" where
  "others_ok y \<longleftrightarrow>
    (\<forall>i p. othermap (og y) i = Some p \<longrightarrow> (\<exists>o1. oobj (og y) p = Some o1 \<and> o_id o1 = i))
    \<and> (\<forall>t p. owns (opcs y t) = Some p \<longrightarrow> (\<exists>o1. oobj (og y) p = Some o1 \<and> alreadyused o1))
    \<and> (\<forall>t u p. owns (opcs y t) = Some p \<and> owns (opcs y u) = Some p \<longrightarrow> t = u)
    \<and> (\<forall>t p i. opcs y t = Deleting p \<longrightarrow> othermap (og y) i \<noteq> Some p)"

lemma owns_simps [simp]:
  "owns Idle = None" "owns (Counting p) = None" "owns (Dropping i p) = None" "owns (Popping i) = None"
  "owns (Deleting p) = Some p" "owns (Working p) = Some p"
  by (simp_all add: owns_def)

lemma at_simps [simp]: "og (at t pc g y) = g" "opcs (at t pc g y) u = (if u = t then pc else opcs y u)"
  by (simp_all add: at_def)

lemma touch_Inr: "touch f p g = Inr g' \<longleftrightarrow> (\<exists>o1. oobj g p = Some o1 \<and> g' = g\<lparr>oobj := (oobj g)(p := Some (f o1))\<rparr>)"
  by (auto simp: touch_def split: option.splits)

lemma look_Inr: "look p g = Inr o1 \<longleftrightarrow> oobj g p = Some o1"
  by (auto simp: look_def split: option.splits)

lemma find_Inr: "getTaskOtherInfo i False g = Inr (r, b, g') \<longleftrightarrow> g' = g \<and> r = othermap g i \<and> b = (r \<noteq> None)"
  by (auto simp: getTaskOtherInfo_def split: option.splits)

lemma claim_Inr: "getTaskOtherInfo i True g = Inr (Some p, b, g') \<longleftrightarrow>
    b \<and> othermap g i = Some p \<and> (\<exists>o1. oobj g p = Some o1 \<and> \<not> alreadyused o1 \<and> g' = g\<lparr>oobj := (oobj g)(p := Some (o1\<lparr>alreadyused := True\<rparr>))\<rparr>)"
  by (auto simp: getTaskOtherInfo_def look_def touch_def split: option.splits)

lemma absent_Inr: "getTaskOtherInfo i True g = Inr (None, False, g') \<longleftrightarrow> g' = g \<and> othermap g i = None"
  by (auto simp: getTaskOtherInfo_def look_def touch_def split: option.splits if_splits)

lemma pop_Inr: "poptaskother i True g = Inr (r, g') \<longleftrightarrow>
    (case othermap g i of None \<Rightarrow> r = None \<and> g' = g
     | Some p \<Rightarrow> \<exists>o1. oobj g p = Some o1 \<and> (if alreadyused o1 then r = None \<and> g' = g
         else r = Some p \<and> g' = g\<lparr>oobj := (oobj g)(p := Some (o1\<lparr>alreadyused := True\<rparr>)), othermap := (othermap g)(i := None)\<rparr>))"
  by (auto simp: poptaskother_def look_def touch_def split: option.splits)

lemma others_okD:
  assumes "others_ok y"
  shows "\<And>i p. othermap (og y) i = Some p \<Longrightarrow> \<exists>o1. oobj (og y) p = Some o1 \<and> o_id o1 = i"
    "\<And>t p. owns (opcs y t) = Some p \<Longrightarrow> \<exists>o1. oobj (og y) p = Some o1 \<and> alreadyused o1"
    "\<And>t u p. owns (opcs y t) = Some p \<Longrightarrow> owns (opcs y u) = Some p \<Longrightarrow> t = u"
    "\<And>t p i. opcs y t = Deleting p \<Longrightarrow> othermap (og y) i \<noteq> Some p"
  using assms by (auto simp: others_ok_def)

text \<open>A change of one object in place, with the thread that makes it moving on.\<close>

lemma others_ok_update:
  assumes ok: "others_ok y" and p: "oobj (og y) p = Some o1" "o_id o2 = o_id o1"
    and used: "\<And>u. owns (if u = t then pc else opcs y u) = Some p \<Longrightarrow> alreadyused o2"
    and pc: "owns pc = owns (opcs y t) \<or> owns pc = None" "\<And>q. pc = Deleting q \<Longrightarrow> opcs y t = Deleting q"
  shows "others_ok (at t pc ((og y)\<lparr>oobj := (oobj (og y))(p := Some o2)\<rparr>) y)"
proof -
  note d = others_okD [OF ok]
  let ?y = "at t pc ((og y)\<lparr>oobj := (oobj (og y))(p := Some o2)\<rparr>) y"
  have own: "owns (opcs y u) = Some q" if "owns (opcs ?y u) = Some q" for u q using that pc(1) by (auto split: if_splits)
  have "\<exists>o1. oobj (og ?y) q = Some o1 \<and> o_id o1 = i" if "othermap (og ?y) i = Some q" for i q
    using d(1) [of i q] that p by auto
  moreover have "\<exists>o1. oobj (og ?y) q = Some o1 \<and> alreadyused o1" if "owns (opcs ?y u) = Some q" for u q
    using d(2) [OF own [OF that]] used [of u] that by auto
  moreover have "u = v" if "owns (opcs ?y u) = Some q" "owns (opcs ?y v) = Some q" for u v q using d(3) own that by blast
  moreover have "othermap (og ?y) i \<noteq> Some q" if "opcs ?y u = Deleting q" for u q i
    using d(4) [of u q i] that pc(2) [of q] by (auto split: if_splits)
  ultimately show ?thesis unfolding others_ok_def by blast
qed

text \<open>Nobody owns what is not in use.\<close>

lemma free_unowned: "others_ok y \<Longrightarrow> oobj (og y) p = Some o1 \<Longrightarrow> \<not> alreadyused o1 \<Longrightarrow> owns (opcs y u) \<noteq> Some p"
  using others_okD(2) by fastforce

lemma used_if_owned: "others_ok y \<Longrightarrow> oobj (og y) p = Some o1 \<Longrightarrow> owns (opcs y u) = Some p \<Longrightarrow> alreadyused o1"
  using free_unowned by blast

text \<open>A thread that owned nothing takes an object nobody owns.\<close>

lemma others_ok_take:
  assumes ok: "others_ok y" and p: "\<And>o1. oobj (og y) p = Some o1 \<Longrightarrow> o_id o2 = o_id o1" "alreadyused o2"
    and free: "\<And>u. owns (opcs y u) \<noteq> Some p" and m: "\<And>i q. m i = Some q \<Longrightarrow> othermap (og y) i = Some q \<or> q = p \<and> o_id o2 = i"
    and pc: "pc = Working p \<or> pc = Deleting p \<and> (\<forall>i. m i \<noteq> Some p)"
  shows "others_ok (at t pc ((og y)\<lparr>oobj := (oobj (og y))(p := Some o2), othermap := m\<rparr>) y)"
proof -
  note d = others_okD [OF ok]
  let ?y = "at t pc ((og y)\<lparr>oobj := (oobj (og y))(p := Some o2), othermap := m\<rparr>) y"
  have own: "u = t \<and> q = p \<or> u \<noteq> t \<and> q \<noteq> p \<and> owns (opcs y u) = Some q" if "owns (opcs ?y u) = Some q" for u q
    using that pc free [of u] by (auto split: if_splits)
  have "\<exists>o1. oobj (og ?y) q = Some o1 \<and> o_id o1 = i" if "othermap (og ?y) i = Some q" for i q
    using d(1) [of i q] m [of i q] that p(1) by auto
  moreover have "\<exists>o1. oobj (og ?y) q = Some o1 \<and> alreadyused o1" if "owns (opcs ?y u) = Some q" for u q
    using own [OF that] d(2) [of u q] p(2) by auto
  moreover have "u = v" if "owns (opcs ?y u) = Some q" "owns (opcs ?y v) = Some q" for u v q
    using own [OF that(1)] own [OF that(2)] d(3) by blast
  moreover have "othermap (og ?y) i \<noteq> Some q" if "opcs ?y u = Deleting q" for u q i
  proof (cases "u = t")
    case False
    then have "opcs y u = Deleting q" "q \<noteq> p" using that free [of u] by auto
    then show ?thesis using d(4) [of u q i] m [of i q] by auto
  qed (use that pc in auto)
  ultimately show ?thesis unfolding others_ok_def by blast
qed

lemma ostep_ok: "ostep y y' \<Longrightarrow> others_ok y \<Longrightarrow> others_ok y'"
proof (induction rule: ostep.induct)
  case (find y t i p b g pc)
  note d = others_okD [OF find.prems]
  have "owns pc = None" "\<And>q. pc \<noteq> Deleting q" using find(3) by auto
  then show ?case using find(2) d unfolding others_ok_def by (auto simp: find_Inr)
next
  case (count y t p f g)
  obtain o1 where o1: "oobj (og y) p = Some o1" "g = (og y)\<lparr>oobj := (oobj (og y))(p := Some (f o1))\<rparr>" using count by (auto simp: touch_Inr)
  show ?case unfolding o1(2)
    by (rule others_ok_update [OF count.prems o1(1)])
      (use count(2) used_if_owned [OF count.prems o1(1)] in \<open>auto simp: keeps_claim_def split: if_splits\<close>)
next
  case (take_off y t i p g o1)
  obtain o2 where o2: "oobj (og y) p = Some o2" "g = (og y)\<lparr>oobj := (oobj (og y))(p := Some (o2\<lparr>urlnum := to_int (urlnum o2 - 1)\<rparr>))\<rparr>"
    using take_off by (auto simp: touch_Inr)
  show ?case unfolding o2(2)
    by (rule others_ok_update [OF take_off.prems o2(1)])
      (use used_if_owned [OF take_off.prems o2(1)] in \<open>auto split: if_splits\<close>)
next
  case (work y t p f g)
  obtain o1 where o1: "oobj (og y) p = Some o1" "g = (og y)\<lparr>oobj := (oobj (og y))(p := Some (f o1))\<rparr>" using work by (auto simp: touch_Inr)
  show ?case unfolding o1(2)
    by (rule others_ok_update [OF work.prems o1(1)])
      (use work(1,2) used_if_owned [OF work.prems o1(1)] used_if_owned [OF work.prems o1(1), of t] in \<open>auto simp: keeps_claim_def split: if_splits\<close>)
next
  case (release y t p g)
  obtain o1 where o1: "oobj (og y) p = Some o1" "g = (og y)\<lparr>oobj := (oobj (og y))(p := Some (o1\<lparr>alreadyused := False\<rparr>))\<rparr>"
    using release by (auto simp: release_round_def touch_Inr)
  have "owns (opcs y u) = Some p \<Longrightarrow> u = t" for u using release(1) others_okD(3) [OF release.prems, of u p t] by simp
  then show ?case unfolding o1(2)
    by (intro others_ok_update [OF release.prems o1(1)]) (use release(1) in \<open>auto split: if_splits\<close>)
next
  case (claim y t i p b g)
  obtain o1 where o1: "oobj (og y) p = Some o1" "\<not> alreadyused o1" "g = (og y)\<lparr>oobj := (oobj (og y))(p := Some (o1\<lparr>alreadyused := True\<rparr>))\<rparr>"
    using claim by (auto simp: claim_Inr)
  have "g = (og y)\<lparr>oobj := (oobj (og y))(p := Some (o1\<lparr>alreadyused := True\<rparr>)), othermap := othermap (og y)\<rparr>" using o1(3) by simp
  then show ?case
    using others_ok_take [OF claim.prems, of p "o1\<lparr>alreadyused := True\<rparr>" "othermap (og y)" "Working p" t] o1 free_unowned [OF claim.prems o1(1,2)] by auto
next
  case (pop_other y t i r g)
  show ?case
  proof (cases r)
    case None
    then have "g = og y" using pop_other(2) by (auto simp: pop_Inr split: option.splits if_splits)
    then show ?thesis using None others_okD [OF pop_other.prems] unfolding others_ok_def by auto
  next
    case (Some p)
    then obtain o1 where o1: "othermap (og y) i = Some p" "oobj (og y) p = Some o1" "\<not> alreadyused o1"
      "g = (og y)\<lparr>oobj := (oobj (og y))(p := Some (o1\<lparr>alreadyused := True\<rparr>)), othermap := (othermap (og y))(i := None)\<rparr>"
      using pop_other(2) by (auto simp: pop_Inr split: option.splits if_splits)
    have "((othermap (og y))(i := None)) j \<noteq> Some p" for j
      using others_okD(1) [OF pop_other.prems o1(1)] others_okD(1) [OF pop_other.prems, of j p] by auto
    then have "others_ok (at t (Deleting p) g y)" unfolding o1(4)
      by (intro others_ok_take [OF pop_other.prems]) (use o1 free_unowned [OF pop_other.prems o1(2,3)] in \<open>auto split: if_splits\<close>)
    then show ?thesis using Some by simp
  qed
next
  case (make y t i g p now r g')
  have g: "g = og y" "othermap (og y) i = None" using make(2) by (auto simp: absent_Inr)
  then have g': "g' = (og y)\<lparr>oobj := (oobj (og y))(p := Some (TaskOtherInfo i now)), othermap := (othermap (og y))(i := Some p)\<rparr>"
    using make(4) by (auto simp: putTaskOtherInfo_def look_def TaskOtherInfo_def)
  have p: "oobj (og y) p = None" using make(3) g by simp
  have "owns (opcs y u) \<noteq> Some p" "othermap (og y) j \<noteq> Some p" for u j
    using others_okD(1,2) [OF make.prems] p by fastforce+
  then show ?case unfolding g'
    by (intro others_ok_take [OF make.prems]) (use p in \<open>auto simp: TaskOtherInfo_def split: if_splits\<close>)
next
  case (delete_other y t p o1)
  note d = others_okD [OF delete_other.prems]
  let ?y = "at t Idle ((og y)\<lparr>oobj := (oobj (og y))(p := None)\<rparr>) y"
  have unmapped: "othermap (og y) i \<noteq> Some p" for i by (rule d(4) [OF delete_other(1)])
  have other: "q \<noteq> p \<and> u \<noteq> t" if "owns (opcs ?y u) = Some q" for u q
    using that d(3) [of u p t] delete_other(1) by (auto split: if_splits)
  have "\<exists>o1. oobj (og ?y) q = Some o1 \<and> o_id o1 = i" if "othermap (og ?y) i = Some q" for i q
    using d(1) [of i q] that unmapped [of i] by auto
  moreover have "\<exists>o1. oobj (og ?y) q = Some o1 \<and> alreadyused o1" if "owns (opcs ?y u) = Some q" for u q
    using other [OF that] d(2) [of u q] that by auto
  moreover have "u = v" if "owns (opcs ?y u) = Some q" "owns (opcs ?y v) = Some q" for u v q
    using other [OF that(1)] other [OF that(2)] d(3) that by auto
  moreover have "othermap (og ?y) i \<noteq> Some q" if "opcs ?y u = Deleting q" for u q i
    using d(4) [of u q i] that by (auto split: if_splits)
  ultimately show ?case unfolding others_ok_def by blast
qed




text \<open>
  A run of two threads: task 7 is made by thread 0 at address 1 and given back, thread 1 counts one address, and takes it off again
  while thread 0 has just looked the object up.
\<close>

definition race_info :: "int \<Rightarrow> bool \<Rightarrow> tother" where
  "race_info n used = (TaskOtherInfo 7 0)\<lparr>alreadyused := used, urlnum := n\<rparr>"

definition race_g :: "int \<Rightarrow> bool \<Rightarrow> tothers" where
  "race_g n used = \<lparr>othermap = (\<lambda>_. None)(7 := Some 1), oobj = (\<lambda>_. None)(1 := Some (race_info n used))\<rparr>"

lemma claimed_run: "ostep osys0 (at 0 (Working 1) (race_g 0 True) osys0)"
  by (rule ostep.make [where i = 7 and now = 0 and r = 1 and g = "og osys0"])
    (auto simp: osys0_def getTaskOtherInfo_def putTaskOtherInfo_def look_def race_g_def race_info_def TaskOtherInfo_def fun_eq_iff)


text \<open>
  The look-up and the count are two critical sections, and the object can go between them: a state can be reached in which a thread is
  about to count in an object that another thread has deleted.
\<close>

theorem counting_races_with_deletion:
  "\<exists>y t p. ostep\<^sup>*\<^sup>* osys0 y \<and> opcs y t = Counting p \<and> (\<forall>f. touch f p (og y) = Inl UseAfterFree)"
proof -
  let ?inc = "\<lambda>o1. o1\<lparr>urlnum := to_int (urlnum o1 + 1)\<rparr>"
  define y1 where "y1 = at 0 (Working 1) (race_g 0 True) osys0"
  define y2 where "y2 = at 0 Idle (race_g 0 False) y1"
  define y3 where "y3 = at 1 (Counting 1) (race_g 0 False) y2"
  define y4 where "y4 = at 1 Idle (race_g 1 False) y3"
  define y5 where "y5 = at 0 (Counting 1) (race_g 1 False) y4"
  define y6 where "y6 = at 1 (Dropping 7 1) (race_g 1 False) y5"
  define y7 where "y7 = at 1 (Popping 7) (race_g 0 False) y6"
  define y8 where "y8 = at 1 (Deleting 1) ((race_g 0 True)\<lparr>othermap := (\<lambda>_. None)\<rparr>) y7"
  define y9 where "y9 = at 1 Idle ((og y8)\<lparr>oobj := (oobj (og y8))(1 := None)\<rparr>) y8"
  note ys = y1_def y2_def y3_def y4_def y5_def y6_def y7_def y8_def y9_def
  note ops = race_g_def race_info_def getTaskOtherInfo_def touch_def look_def release_round_def poptaskother_def osys0_def fun_eq_iff
  have r1: "ostep osys0 y1" unfolding y1_def by (rule claimed_run)
  have r2: "ostep y1 y2" unfolding y2_def by (rule ostep.release [where p = 1]) (simp_all add: y1_def ops)
  have r3: "ostep y2 y3" unfolding y3_def by (rule ostep.find [where i = 7]) (simp_all add: y1_def y2_def ops)
  have r4: "ostep y3 y4" unfolding y4_def
    by (rule ostep.count [where p = 1 and f = ?inc]) (simp_all add: y3_def ops keeps_claim_def)
  have r5: "ostep y4 y5" unfolding y5_def by (rule ostep.find [where i = 7]) (simp_all add: y1_def y2_def y3_def y4_def ops)
  have r6: "ostep y5 y6" unfolding y6_def by (rule ostep.find [where i = 7]) (simp_all add: y4_def y5_def ops)
  have r7: "ostep y6 y7"
    using ostep.take_off [of y6 1 7 1 "race_g 0 False" "race_info 0 False"] by (simp add: y6_def y7_def ops)
  have r8: "ostep y7 y8"
    using ostep.pop_other [of y7 1 7 "Some 1" "(race_g 0 True)\<lparr>othermap := (\<lambda>_. None)\<rparr>"] by (simp add: y7_def y8_def ops)
  have r9: "ostep y8 y9" unfolding y9_def
    by (rule ostep.delete_other [where p = 1 and ?o1.0 = "race_info 0 True"]) (simp_all add: y8_def ops)
  have "ostep\<^sup>*\<^sup>* osys0 y9" by (rule converse_rtranclp_into_rtranclp [of ostep, OF r1
    converse_rtranclp_into_rtranclp [of ostep, OF r2
    converse_rtranclp_into_rtranclp [of ostep, OF r3
    converse_rtranclp_into_rtranclp [of ostep, OF r4
    converse_rtranclp_into_rtranclp [of ostep, OF r5
    converse_rtranclp_into_rtranclp [of ostep, OF r6
    converse_rtranclp_into_rtranclp [of ostep, OF r7
    converse_rtranclp_into_rtranclp [of ostep, OF r8
    converse_rtranclp_into_rtranclp [of ostep, OF r9 rtranclp.rtrancl_refl]]]]]]]]])
  moreover have "opcs y9 0 = Counting 1" by (simp add: y5_def y6_def y7_def y8_def y9_def)
  moreover have "touch f 1 (og y9) = Inl UseAfterFree" for f by (simp add: y9_def touch_def)
  ultimately show ?thesis by blast
qed

section \<open>A round\<close>

definition map_live :: "tothers \<Rightarrow> bool" where
  "map_live s \<longleftrightarrow> (\<forall>i p. othermap s i = Some p \<longrightarrow> (\<exists>o1. oobj s p = Some o1 \<and> o_id o1 = i))"

definition in_use :: "int \<Rightarrow> tothers \<Rightarrow> bool" where
  "in_use i s \<longleftrightarrow> (case othermap s i of None \<Rightarrow> False | Some p \<Rightarrow> (case oobj s p of None \<Rightarrow> False | Some o1 \<Rightarrow> alreadyused o1))"

text \<open>What a round leaves: the object to work with is in the map, in use and running; a task passed over is free again.\<close>

definition round_done :: "int \<Rightarrow> ptr option \<Rightarrow> tothers \<Rightarrow> bool" where
  "round_done i r s \<longleftrightarrow> (case r of None \<Rightarrow> \<not> in_use i s
     | Some p \<Rightarrow> othermap s i = Some p \<and> (case oobj s p of None \<Rightarrow> False | Some o1 \<Rightarrow> alreadyused o1 \<and> running o1))"

text \<open>
  A round of the task thread claims the object of its task, or makes it, and gives the lock back, unless the object is in use, as it is
  while the round before has not ended: then it unlocks a lock that nobody holds, which is undefined.
\<close>

theorem claim_round_outcome:
  assumes "map_live s"
  shows "if in_use (t_id t) s then claim_round t ri clk new Unlocked s = Inl BadUnlock
    else \<exists>r s'. claim_round t ri clk new Unlocked s = Inr (r, Unlocked, s') \<and> round_done (t_id t) r s'"
proof (cases "othermap s (t_id t)")
  case None
  then show ?thesis
    by (simp add: in_use_def claim_round_def getTaskOtherInfo_def putTaskOtherInfo_def look_def touch_def round_done_def TaskOtherInfo_def Let_def)
next
  case (Some p)
  then obtain o1 where o1: "oobj s p = Some o1" using assms by (auto simp: map_live_def)
  show ?thesis
  proof (cases "alreadyused o1")
    case True
    then show ?thesis using Some o1 by (simp add: in_use_def claim_round_def getTaskOtherInfo_def look_def)
  next
    case False
    then show ?thesis using Some o1
      by (simp add: in_use_def claim_round_def getTaskOtherInfo_def look_def touch_def round_done_def Let_def)
  qed
qed

theorem claim_round_outcome_witness:
  "claim_round (demo_task 7 90) 60 (\<lambda>_. 100) 2 Unlocked (race_g 0 True) = Inl BadUnlock"
proof -
  have "map_live (race_g 0 True)" by (simp add: map_live_def race_g_def race_info_def TaskOtherInfo_def)
  moreover have "in_use (t_id (demo_task 7 90)) (race_g 0 True)"
    by (simp add: in_use_def race_g_def race_info_def)
  ultimately show ?thesis using claim_round_outcome [of "race_g 0 True" "demo_task 7 90" 60 "\<lambda>_. 100" 2] by simp
qed

end
