(* ===== verification/UrlParse.thy ===== *)
theory UrlParse
  imports CText NumText DateText
begin

text \<open>
  \<open>CUrl\<close> of \<open>tools/Url.cpp\<close>: taking an address apart, putting it together again, and reducing its path. The
  members are a record; a call of \<open>parse\<close> leaves the members it does not set as they were.
\<close>

section \<open>Data\<close>

datatype url_scheme = SCHEME_HTTP | SCHEME_HTTPS | SCHEME_FTP | SCHEME_INVALID

record curl =
  m_eScheme :: url_scheme
  m_sHost :: bytes
  m_sUrl :: bytes
  m_sPort :: int
  m_sPath :: bytes
  m_sUser :: bytes
  m_sProtocol :: bytes
  url_signature :: bytes
  url_built :: bytes
  url_extension :: bytes

definition CUrl :: curl where
  "CUrl = \<lparr>m_eScheme = SCHEME_INVALID, m_sHost = [], m_sUrl = [], m_sPort = 80, m_sPath = [], m_sUser = [], m_sProtocol = [],
     url_signature = [], url_built = [], url_extension = []\<rparr>"

text \<open>\<open>strncasecmp\<close> of the first characters with a leading string.\<close>

definition has_scheme :: "bytes \<Rightarrow> string \<Rightarrow> bool" where
  "has_scheme url s \<longleftrightarrow> prefix (bytes_of s) (map to_lower url)"

definition ParseScheme :: "bytes \<Rightarrow> curl \<Rightarrow> curl" where
  "ParseScheme url u = u\<lparr>m_eScheme :=
     (if has_scheme url ''http://'' then SCHEME_HTTP else if has_scheme url ''https://'' then SCHEME_HTTPS else SCHEME_INVALID)\<rparr>"

definition IsValidHostChar :: "u8 \<Rightarrow> bool" where
  "IsValidHostChar ch \<longleftrightarrow> isLetter ch \<or> ISDIGIT ch \<or> ch = 45 \<or> ch = 46 \<or> ch = 58 \<or> ch = 95"

text \<open>\<open>strlen(host)\<close> is taken again in every round, while \<open>host\<close> moves.\<close>

function valid_host_loop :: "nat \<Rightarrow> bytes \<Rightarrow> bool" where
  "valid_host_loop i host =
    (if i < length host then if IsValidHostChar (hd host) then valid_host_loop (Suc i) (tl host) else False else True)"
  by pat_completeness auto
termination
  by (relation "measure (\<lambda>(i, host). length host)") auto

declare valid_host_loop.simps [simp del]

definition IsValidHost :: "bytes option \<Rightarrow> bool" where
  "IsValidHost host = (case host of None \<Rightarrow> False | Some h \<Rightarrow> if length h < 6 then False else valid_host_loop 0 h)"

definition MAX_HOST_LEN :: nat where "MAX_HOST_LEN = 128"

text \<open>The last \<open>'.'\<close> and what follows it.\<close>

definition rfind_char :: "u8 \<Rightarrow> bytes \<Rightarrow> nat option" where
  "rfind_char c s = (if c \<in> set s then Some (length s - 1 - length (takeWhile (\<lambda>x. x \<noteq> c) (rev s))) else None)"

definition after_dot :: "bytes \<Rightarrow> bytes" where
  "after_dot s = (case rfind_char 46 s of None \<Rightarrow> [] | Some idx \<Rightarrow> drop (idx + 1) s)"

text \<open>\<open>inet_addr\<close> decides whether a host is an address; \<open>is_addr\<close> stands for it.\<close>

definition IsForeignHost :: "(bytes \<Rightarrow> bool) \<Rightarrow> bytes \<Rightarrow> bool" where
  "IsForeignHost is_addr host =
    (if host = [] then True else if length host > MAX_HOST_LEN then True else if is_addr (c_str host) then False
     else after_dot host \<notin> set (map bytes_of [''cn'', ''com'', ''net'', ''org'', ''info'', ''biz'', ''tv'', ''cc'', ''hk'', ''tw'']))"

definition IsImageUrl :: "bytes \<Rightarrow> bool" where
  "IsImageUrl url =
    (if url = [] then False else if length url > MAX_HOST_LEN then False
     else toLowercase (after_dot url) \<in> set (map bytes_of [''gif'', ''jpg'', ''jpeg'', ''png'', ''bmp'', ''tif'', ''psd'']))"

definition slashes :: "bytes \<Rightarrow> nat" where
  "slashes p = (if p = bytes_of ''mailto'' \<or> p = bytes_of ''news'' then 0 else 2)"

definition DefaultPort :: "curl \<Rightarrow> int" where
  "DefaultPort u =
    (let p = m_sProtocol u
     in if p = bytes_of ''http'' then 80 else if p = bytes_of ''https'' then 443 else if p = bytes_of ''ftp'' then 21
        else if p = bytes_of ''gopher'' then 70 else if p = bytes_of ''file'' then 0 else if p = bytes_of ''news'' then 119 else 80)"

section \<open>The path\<close>

text \<open>
  Positions are \<open>size_t\<close>; \<open>npos\<close>, the largest, is \<open>None\<close>. \<open>pathend < 0\<close> never holds, so once \<open>find('?')\<close> has failed in a
  loop \<open>pathend\<close> stays \<open>npos\<close>.
\<close>

definition before :: "nat \<Rightarrow> nat option \<Rightarrow> bool" where
  "before i pos \<longleftrightarrow> (case pos of None \<Rightarrow> True | Some e \<Rightarrow> i < e)"

definition query_pos :: "bytes \<Rightarrow> nat option" where
  "query_pos path = find_sub [63] path"

text \<open>The loops that take a text out of the path: everything from \<open>n\<close> characters into the pattern on stays.\<close>

function cut_loop :: "bytes \<Rightarrow> nat \<Rightarrow> bytes \<times> nat option \<Rightarrow> bytes \<times> nat option" where
  "cut_loop pat n (path, pathend) =
    (case find_sub pat path of
       None \<Rightarrow> (path, pathend)
     | Some i \<Rightarrow>
         if before i pathend \<and> 0 < n \<and> n \<le> length pat
         then let path = take i path @ drop (i + n) path in cut_loop pat n (path, query_pos path)
         else (path, pathend))"
  by pat_completeness auto
termination
  by (relation "measure (\<lambda>(pat, n, path, pathend). length path)") (auto dest!: find_subD)

declare cut_loop.simps [simp del]

text \<open>\<open>find_last_of('/', i - 1)\<close>.\<close>

definition last_slash :: "nat \<Rightarrow> bytes \<Rightarrow> nat option" where
  "last_slash i path = rfind_char 47 (take i path)"

text \<open>\<open>find_last_of\<close> is always \<open>\<ge> 0\<close>, also when it is \<open>npos\<close>: then the whole path is kept in front, and grows.\<close>

partial_function (option) dotdot_loop :: "bytes \<Rightarrow> nat option \<Rightarrow> (bytes \<times> nat option) option" where
  "dotdot_loop path pathend =
    (case find_sub [47, 46, 46, 47] path of
       None \<Rightarrow> Some (path, pathend)
     | Some i \<Rightarrow>
         if before i pathend
         then let path = (if 0 < i then (case last_slash i path of None \<Rightarrow> path | Some limit \<Rightarrow> take limit path) @ drop (i + 3) path else drop (i + 3) path)
              in dotdot_loop path (query_pos path)
         else Some (path, pathend))"

declare dotdot_loop.simps [code]

function tilde_loop :: "bytes \<times> nat option \<Rightarrow> bytes \<times> nat option" where
  "tilde_loop (path, pathend) =
    (case find_sub [37, 55, 69] path of
       None \<Rightarrow> (path, pathend)
     | Some i \<Rightarrow>
         if before i pathend then let path = take i path @ [126] @ drop (i + 3) path in tilde_loop (path, query_pos path)
         else (path, pathend))"
  by pat_completeness auto
termination
  by (relation "measure (\<lambda>(path, pathend). length path)") (auto dest!: find_subD)

declare tilde_loop.simps [simp del]

text \<open>The two steps that are taken once, for a path that ends in \<open>/.\<close> or \<open>/..\<close>.\<close>

definition trailing_dot :: "bytes \<times> nat option \<Rightarrow> bytes \<times> nat option" where
  "trailing_dot pp = (case pp of (path, pathend) \<Rightarrow>
    (case find_sub [47, 46] path of
       None \<Rightarrow> (path, pathend)
     | Some i \<Rightarrow> if pathend = Some (i + 2) then (take (i + 1) path @ drop (i + 2) path, Some (i + 1)) else (path, pathend)))"

definition trailing_dotdot :: "bytes \<times> nat option \<Rightarrow> bytes \<times> nat option" where
  "trailing_dotdot pp = (case pp of (path, pathend) \<Rightarrow>
    (case find_sub [47, 46, 46] path of
       None \<Rightarrow> (path, pathend)
     | Some i \<Rightarrow>
         if pathend = Some (i + 3)
         then let path = (if 0 < i then (case last_slash i path of None \<Rightarrow> [] | Some limit \<Rightarrow> take (limit + 1) path) else [47]) @ drop (i + 3) path
              in (path, query_pos path)
         else (path, pathend)))"

definition normalizePath :: "bytes \<Rightarrow> bytes option" where
  "normalizePath path =
    (let pathend = (case find_sub [63] path of None \<Rightarrow> Some (length path) | Some i \<Rightarrow> Some i);
         pp = trailing_dot (cut_loop [47, 46, 47] 2 (cut_loop [47, 47] 1 (path, pathend)))
     in map_option (\<lambda>pp. fst (tilde_loop (trailing_dotdot pp))) (dotdot_loop (fst pp) (snd pp)))"

section \<open>Putting together\<close>

text \<open>The port printed into an array of ten characters.\<close>

definition port_text :: "int \<Rightarrow> bytes result" where
  "port_text port = bind_r (int2str port 10 False) (\<lambda>r.
     case r of None \<Rightarrow> Inr [] | Some s \<Rightarrow> if length s < 10 then Inr s else Inl BufferOverflow)"

definition constructURL :: "curl \<Rightarrow> curl result" where
  "constructURL u =
    (if m_sProtocol u \<noteq> bytes_of ''file'' \<and> m_sHost u = [] then Inr (u\<lparr>url_built := []\<rparr>)
     else let url = m_sProtocol u @ [58] @ replicate (slashes (m_sProtocol u)) 47
          in bind_r
               (if slashes (m_sProtocol u) = 2
                then let url = (if m_sProtocol u \<noteq> bytes_of ''file''
                                then url @ (if m_sUser u \<noteq> [] then m_sUser u @ [64] else []) @ m_sHost u else url)
                     in if m_sPort u \<noteq> DefaultPort u \<and> m_sPort u \<noteq> 0
                        then bind_r (port_text (m_sPort u)) (\<lambda>ps. Inr (url @ [58] @ ps)) else Inr url
                else Inr url)
               (\<lambda>url. Inr (u\<lparr>url_built := url @ m_sPath u\<rparr>)))"

definition getUrl :: "curl \<Rightarrow> bytes" where
  "getUrl u = url_built u"

definition signature :: "curl \<Rightarrow> (bytes \<times> curl) result" where
  "signature u =
    (if url_signature u = []
     then bind_r (port_text (m_sPort u)) (\<lambda>ps.
            let sig = m_sProtocol u @ bytes_of ''://'' @ (if m_sUser u \<noteq> [] then m_sUser u @ [64] else []) @ m_sHost u @ [58] @ ps @ [47]
            in Inr (sig, u\<lparr>url_signature := sig\<rparr>))
     else Inr (url_signature u, u))"

text \<open>The position goes into an \<open>unsigned int\<close>, which never equals \<open>npos\<close>.\<close>

definition extension :: "curl \<Rightarrow> (bytes \<times> curl) result" where
  "extension u =
    (if url_extension u = [] \<and> m_sPath u \<noteq> []
     then let begin = (case rfind_char 46 (m_sPath u) of None \<Rightarrow> 2 ^ 32 - 1 | Some i \<Rightarrow> i mod 2 ^ 32)
          in if begin \<le> length (m_sPath u) then Inr (drop begin (m_sPath u), u\<lparr>url_extension := drop begin (m_sPath u)\<rparr>)
             else Inl (Raise OutOfRange)
     else Inr (url_extension u, u))"

definition IsValidScheme :: "curl \<Rightarrow> bool \<times> curl" where
  "IsValidScheme u =
    (let u = ParseScheme (c_str (m_sProtocol u)) u in (\<not> (m_eScheme u \<noteq> SCHEME_HTTP \<and> m_eScheme u \<noteq> SCHEME_HTTPS), u))"

section \<open>Taking apart\<close>

text \<open>Spaces become \<open>%20\<close> when something follows, but not at the start.\<close>

fun space_loop :: "bytes \<Rightarrow> bytes \<Rightarrow> bytes" where
  "space_loop [] temp = temp"
| "space_loop (c # s) temp =
    (if c = 32 \<and> temp \<noteq> [] then space_loop s (if dropWhile is_space s \<noteq> [] then temp @ [37, 50, 48] else temp)
     else space_loop s (temp @ [c]))"

text \<open>The path when no host is given: the slashes of the protocol are skipped if they are all there.\<close>

definition skip_slashes :: "bytes \<Rightarrow> bytes \<Rightarrow> bytes" where
  "skip_slashes protocol p =
    (let n = length (takeWhile (\<lambda>c. c = 47) (take (slashes protocol) p)) in if n < slashes protocol then p else drop n p)"

text \<open>\<open>m_sPort = atoi(p)\<close>, with the default when there is none.\<close>

definition set_port :: "bytes option \<Rightarrow> curl \<Rightarrow> curl" where
  "set_port p u =
    (let u = (case p of Some t \<Rightarrow> u\<lparr>m_sPort := atoi t\<rparr> | None \<Rightarrow> u)
     in if p = None \<or> m_sPort u \<le> 0 then u\<lparr>m_sPort := DefaultPort u\<rparr> else u)"

definition set_host :: "bytes option \<Rightarrow> curl \<Rightarrow> curl" where
  "set_host t u = (case t of Some h \<Rightarrow> u\<lparr>m_sHost := h\<rparr> | None \<Rightarrow> u)"

definition add_path :: "bytes option \<Rightarrow> curl \<Rightarrow> curl" where
  "add_path t u = (case t of Some h \<Rightarrow> u\<lparr>m_sPath := m_sPath u @ h\<rparr> | None \<Rightarrow> u)"

text \<open>An address with a user. \<open>len != strlen(p)\<close> holds when \<open>strtok_r\<close> has ended the token at a colon.\<close>

definition parse_user :: "nat option \<Rightarrow> nat \<Rightarrow> bytes \<Rightarrow> curl \<Rightarrow> curl" where
  "parse_user slash at p u =
    (let (p, u) = (if (case slash of None \<Rightarrow> True | Some k \<Rightarrow> at < k) then (drop (at + 1) p, u\<lparr>m_sUser := take at p\<rparr>) else (p, u));
         (t, buff) = strtok [58] p
     in if (case t of None \<Rightarrow> False | Some tok \<Rightarrow> length (takeWhile (\<lambda>c. c = 58) p) + length tok < length p)
        then let u = set_host t u; (q, buff) = strtok [47] buff; u = set_port q u
             in add_path (fst (strtok [10] buff)) u
        else let (t, buff) = strtok [47] p in add_path (fst (strtok [10] buff)) (set_host t u))"

definition parse_plain :: "nat option \<Rightarrow> bytes \<Rightarrow> curl \<Rightarrow> curl" where
  "parse_plain slash p u =
    (let colon = str_chr 58 p
     in if (case (colon, slash) of (Some c, Some k) \<Rightarrow> c < k | _ \<Rightarrow> False)
        then let (t, buff) = strtok [58] p
             in if t \<noteq> None
                then let u = set_host t u; (q, buff) = strtok [47] buff in add_path (fst (strtok [10] buff)) (set_port q u)
                else let (t, buff) = strtok [47] p; u = set_host t u
                     in add_path (fst (strtok [10] buff)) (u\<lparr>m_sPort := DefaultPort u\<rparr>)
        else let (t, buff) = strtok [47] p; u = set_host t u
             in add_path (fst (strtok [10] buff)) (u\<lparr>m_sPort := DefaultPort u\<rparr>))"

text \<open>An address of a file: the rest goes behind the protocol.\<close>

definition parse_file :: "bytes \<Rightarrow> curl \<Rightarrow> curl" where
  "parse_file p u =
    (let t = (if \<not> prefix [47] p then fst (strtok [10] (snd (strtok [47] p))) else fst (strtok [10] (drop 1 p)));
         u = (case t of Some t \<Rightarrow> u\<lparr>m_sProtocol := m_sProtocol u @ t\<rparr> | None \<Rightarrow> u)
     in u\<lparr>m_sHost := bytes_of ''localhost'', m_sPort := 0\<rparr>)"

definition parse_host :: "bytes \<Rightarrow> curl \<Rightarrow> curl" where
  "parse_host p u =
    (let q = str_chr 58 p; slash = str_chr 47 p; at = str_chr 64 p; u = u\<lparr>m_sPath := [47]\<rparr>
     in if m_sProtocol u = bytes_of ''file'' then parse_file p u
        else case at of
          Some a \<Rightarrow>
            if (case slash of None \<Rightarrow> True | Some k \<Rightarrow> (case q of None \<Rightarrow> True | Some c \<Rightarrow> c < k)) then parse_user slash a p u
            else parse_plain slash p u
        | None \<Rightarrow> parse_plain slash p u)"

text \<open>The whole; \<open>None\<close> when the path is reduced for ever.\<close>

definition parse :: "bytes \<Rightarrow> curl \<Rightarrow> curl result option" where
  "parse urlToParse u =
    (if length urlToParse > 1024 then Some (Inr u)
     else let u = u\<lparr>m_sUrl := urlToParse\<rparr>;
              nurl = takeWhile (\<lambda>c. c \<noteq> 35) (space_loop (c_str urlToParse) []);
              u = ParseScheme nurl u
          in if m_eScheme u \<noteq> SCHEME_HTTP \<and> m_eScheme u \<noteq> SCHEME_HTTPS then Some (Inr u)
             else let (u, p) = (if 58 \<in> set nurl
                        then let (t, buff) = strtok [58] nurl
                             in (case t of Some t \<Rightarrow> u\<lparr>m_sProtocol := t\<rparr> | None \<Rightarrow> u, fst (strtok [10] buff))
                        else (u\<lparr>m_sProtocol := bytes_of ''http''\<rparr>, fst (strtok [10] nurl)));
                      u = u\<lparr>m_sProtocol := toLowercase (m_sProtocol u)\<rparr>
                  in case p of
                       None \<Rightarrow> Some (Inl NullDeref)
                     | Some p \<Rightarrow>
                         let u = (if \<not> prefix [47, 47] p
                                  then let u = u\<lparr>m_sPort := 0, m_sPath := skip_slashes (m_sProtocol u) p\<rparr>
                                       in if m_sProtocol u = bytes_of ''file'' \<or> slashes (m_sProtocol u) < 2
                                          then u\<lparr>m_sHost := bytes_of ''localhost''\<rparr> else u
                                  else parse_host (drop 2 p) u)
                         in map_option (\<lambda>path. constructURL (u\<lparr>m_sPath := path\<rparr>)) (normalizePath (m_sPath u)))"

section \<open>\<open>ParseUrlEx\<close>\<close>

text \<open>Here all white space goes, also at the start.\<close>

fun strip_loop :: "bytes \<Rightarrow> bytes \<Rightarrow> bytes" where
  "strip_loop [] temp = temp"
| "strip_loop (c # s) temp =
    (if c = 32 \<and> temp \<noteq> [] then strip_loop s (if dropWhile is_space s \<noteq> [] then temp @ [37, 50, 48] else temp)
     else strip_loop s (if is_space c then temp else temp @ [c]))"

text \<open>\<open>strncpy\<close> into an array, and the text that is read from an array: without a NUL the end is passed.\<close>

definition strncpy_array :: "nat \<Rightarrow> bytes \<Rightarrow> bytes" where
  "strncpy_array n s = take n (s @ replicate n 0)"

definition array_text :: "bytes \<Rightarrow> bytes result" where
  "array_text a = (if 0 \<in> set a then Inr (c_str a) else Inl OutOfBounds)"

text \<open>The parts of the address: protocol, host, request and port, and the user if there is one.\<close>

definition split_url :: "bytes \<Rightarrow> bytes \<times> bytes \<times> bytes \<times> bytes option" where
  "split_url curl =
    (let work = strip_loop curl [];
         (protocol, ptr) = (case str_chr 58 work of Some k \<Rightarrow> (take k work, drop (k + 1) work) | None \<Rightarrow> (bytes_of ''HTTP'', work));
         ptr = (if prefix [47, 47] ptr then drop 2 ptr else ptr);
         (user, ptr) = (case (str_chr 47 ptr, str_chr 64 ptr) of
           (Some slashMark, Some atMark) \<Rightarrow> if atMark < slashMark then (Some (take atMark ptr), drop (atMark + 1) ptr) else (None, ptr)
         | _ \<Rightarrow> (None, ptr))
     in (protocol, takeWhile IsValidHostChar ptr, dropWhile IsValidHostChar ptr, user))"

definition ParseUrlEx_parts :: "bytes \<Rightarrow> nat \<Rightarrow> nat \<Rightarrow> nat \<Rightarrow> (bytes \<times> bytes \<times> bytes \<times> int \<times> bytes option) result" where
  "ParseUrlEx_parts curl lprotocol lhost lrequest =
    (let (protocol, host, request, user) = split_url curl;
         host = strncpy_array lhost host
     in bind_r (if 58 \<in> set (c_str host)
          then let k = length (takeWhile (\<lambda>c. c \<noteq> 58) host)
               in bind_r (array_text (drop (k + 1) host)) (\<lambda>port. Inr (host[k := 0], atoi port))
          else bind_r (array_text host) (\<lambda>_. Inr (host, 80))) (\<lambda>(host, port).
        Inr (strncpy_array lprotocol protocol, host, strncpy_array lrequest request, port, user)))"

definition ParseUrlEx :: "bytes \<Rightarrow> curl \<Rightarrow> (bool \<times> curl) result" where
  "ParseUrlEx strUrl u =
    (let u = ParseScheme (c_str strUrl) u
     in if m_eScheme u \<noteq> SCHEME_HTTP \<and> m_eScheme u \<noteq> SCHEME_HTTPS then Inr (False, u)
        else bind_r (ParseUrlEx_parts (c_str strUrl) 10 MAX_HOST_LEN 2048) (\<lambda>(protocol, host, request, port, user).
             let u = (case user of Some s \<Rightarrow> u\<lparr>m_sUser := s\<rparr> | None \<Rightarrow> u)
             in bind_r (array_text host) (\<lambda>host. bind_r (array_text request) (\<lambda>request. bind_r (array_text protocol) (\<lambda>protocol.
                  let u = u\<lparr>m_sUrl := strUrl, m_sHost := host, m_sPath := request, m_sProtocol := protocol\<rparr>
                  in Inr (True, if port > 0 then u\<lparr>m_sPort := port\<rparr> else u))))))"

end
