(* ===== verification/UrlAnalyse.thy ===== *)
theory UrlAnalyse
  imports UrlNode CText TaskSched "HOL-Library.List_Lexorder"
begin

unbundle bit_operations_syntax

text \<open>
  The helpers of the page analysis in \<open>module/UrlAnalyseManager.cpp\<close>: taking tags out of a text, the test for home
  pages, the list of final pages, and the addresses that are made from a user name.
\<close>

section \<open>Tags\<close>

text \<open>
  The search for the end of a tag behind a \<open><\<close>, from the character number \<open>j\<close>: how it ended (0: not at all, 1: no tag, 2: a tag)
  and the number behind.
\<close>

fun tag_scan :: "nat \<Rightarrow> bytes \<Rightarrow> nat \<times> nat" where
  "tag_scan j [] = (0, j)"
| "tag_scan j (c # s) =
    (if j < 200 then if c = 60 then (1, Suc j) else if c = 62 then (2, Suc j) else if j > 180 then (1, Suc j) else tag_scan (Suc j) s
     else (0, j))"

text \<open>\<open>*p1 < 0\<close> for characters that are signed.\<close>

definition tag_kind :: "bytes \<Rightarrow> nat \<times> nat" where
  "tag_kind s = (case s of [] \<Rightarrow> (0, 1) | c # _ \<Rightarrow> if c = 62 \<or> 128 \<le> c then (1, 1) else tag_scan 1 s)"

text \<open>When the search ends at the end of the text, \<open>p\<close> stays where it is.\<close>

partial_function (option) kill_loop :: "bytes \<Rightarrow> bytes \<Rightarrow> bytes option" where
  "kill_loop p rtemp =
    (case p of
       [] \<Rightarrow> Some rtemp
     | c # s \<Rightarrow>
         if c \<noteq> 60 then kill_loop s (rtemp @ [c])
         else let (nfind, j) = tag_kind s
              in if nfind = 1 then kill_loop s (rtemp @ [c]) else if nfind = 2 then kill_loop (drop j p) rtemp else kill_loop p rtemp)"

declare kill_loop.simps [code]

text \<open>The result in \<open>rout\<close>, an array of \<open>cap\<close> characters; the text is collected in one of ten more than its length.\<close>

definition killhtmlcode :: "nat \<Rightarrow> bytes \<Rightarrow> bytes result option" where
  "killhtmlcode cap rin =
    map_option (\<lambda>rtemp. if length rtemp < length rin + 10 \<and> length rtemp < cap then Inr rtemp else Inl BufferOverflow) (kill_loop rin [])"

section \<open>Pages\<close>

definition isHomeUrl :: "bytes \<Rightarrow> bytes \<Rightarrow> bool" where
  "isHomeUrl url homeurl \<longleftrightarrow> url \<in> set (tokens_of [13, 10, 9, 32] homeurl)"

text \<open>
  The list of final pages is a \<open>std::map\<close> from addresses to nodes: in the order of the addresses, which are compared byte by byte.
\<close>

type_synonym page_map = "(bytes \<times> nat \<times> urlnode) list"

fun put_sorted :: "'k :: linorder \<Rightarrow> 'v \<Rightarrow> ('k \<times> 'v) list \<Rightarrow> ('k \<times> 'v) list" where
  "put_sorted k v [] = [(k, v)]"
| "put_sorted k v ((k', v') # m) =
    (if k < k' then (k, v) # (k', v') # m else if k = k' then (k, v) # m else (k', v') # put_sorted k v m)"

definition PutFinalPage :: "page_map \<Rightarrow> nat \<times> urlnode \<Rightarrow> int \<times> page_map" where
  "PutFinalPage finalpagelist node =
    (if map_of finalpagelist (u_url (snd node)) = None then (1, put_sorted (u_url (snd node)) node finalpagelist) else (0, finalpagelist))"

section \<open>Types\<close>

definition URL_TYPE_NOTYPE :: int where "URL_TYPE_NOTYPE = 0"
definition URL_TYPE_FINALPAGE :: int where "URL_TYPE_FINALPAGE = 1"
definition URL_TYPE_LISTPAGE :: int where "URL_TYPE_LISTPAGE = 2"
definition URL_TYPE_HOMEPAGE :: int where "URL_TYPE_HOMEPAGE = 4"
definition URL_TYPE_BBS_FINALPAGE :: int where "URL_TYPE_BBS_FINALPAGE = 5"
definition URL_TYPE_NEEDTODOWN :: int where "URL_TYPE_NEEDTODOWN = 16"
definition URL_TYPE_NEEDTOANALYSEURL :: int where "URL_TYPE_NEEDTOANALYSEURL = 32"
definition URL_TYPE_NEEDTOSAVE :: int where "URL_TYPE_NEEDTOSAVE = 64"
definition URL_TYPE_NEEDTOADDNEW :: int where "URL_TYPE_NEEDTOADDNEW = 128"
definition SOURCE_TYPE_INFO :: int where "SOURCE_TYPE_INFO = 1"
definition SOURCE_TYPE_COURT :: int where "SOURCE_TYPE_COURT = 200"

text \<open>
  \<open>is\<close>: whether an address matches a pattern as a whole. Boost.Regex is a parameter; \<open>None\<close> stands for an exception, for instance of
  a pattern that is not well formed.
\<close>

type_synonym matcher = "bytes \<Rightarrow> bytes \<Rightarrow> bool option"

definition matches :: "matcher \<Rightarrow> bytes \<Rightarrow> bytes \<Rightarrow> bool" where
  "matches rx url format = (case rx url format of Some b \<Rightarrow> b | None \<Rightarrow> False)"

definition getType_url :: "matcher \<Rightarrow> bytes \<Rightarrow> task option \<Rightarrow> int result" where
  "getType_url rx url task =
    (case task of None \<Rightarrow> Inr URL_TYPE_NOTYPE
     | Some t \<Rightarrow>
         bind_r (strcpy_to 8192 (if t_sourcetype t = SOURCE_TYPE_BBS \<and> t_ultimatepageurl t = [] then t_bbsultimatepageurl t else t_ultimatepageurl t))
           (\<lambda>ultimatepageurl. Inr
             (if matches rx url ultimatepageurl
              then URL_TYPE_FINALPAGE OR URL_TYPE_NEEDTODOWN OR URL_TYPE_NEEDTOSAVE OR URL_TYPE_NEEDTOADDNEW
                OR (if t_sourcetype t = SOURCE_TYPE_INFO then URL_TYPE_NEEDTOANALYSEURL else 0)
              else if matches rx url (t_pageurl t)
              then URL_TYPE_LISTPAGE OR URL_TYPE_NEEDTODOWN OR URL_TYPE_NEEDTOANALYSEURL OR URL_TYPE_NEEDTOSAVE OR URL_TYPE_NEEDTOADDNEW
              else if matches rx url (t_homeurl t)
              then URL_TYPE_HOMEPAGE OR URL_TYPE_NEEDTODOWN OR URL_TYPE_NEEDTOANALYSEURL OR URL_TYPE_NEEDTOADDNEW
              else URL_TYPE_NOTYPE)))"

text \<open>The type for a number, which is one of an address or one of a source; any other ends without a value.\<close>

definition getType_number :: "int \<Rightarrow> int result" where
  "getType_number urltype =
    (if urltype = URL_TYPE_BBS_FINALPAGE
     then Inr (URL_TYPE_BBS_FINALPAGE OR URL_TYPE_NEEDTODOWN OR URL_TYPE_NEEDTOSAVE OR URL_TYPE_NEEDTOADDNEW OR URL_TYPE_NEEDTOANALYSEURL)
     else if urltype = URL_TYPE_FINALPAGE
     then Inr (URL_TYPE_FINALPAGE OR URL_TYPE_NEEDTODOWN OR URL_TYPE_NEEDTOSAVE OR URL_TYPE_NEEDTOADDNEW OR URL_TYPE_NEEDTOANALYSEURL)
     else if urltype = URL_TYPE_LISTPAGE
     then Inr (URL_TYPE_LISTPAGE OR URL_TYPE_NEEDTODOWN OR URL_TYPE_NEEDTOANALYSEURL OR URL_TYPE_NEEDTOADDNEW)
     else if urltype = SOURCE_TYPE_TOPIC \<or> urltype = SOURCE_TYPE_SEARCHENGINE
     then Inr (URL_TYPE_FINALPAGE OR URL_TYPE_NEEDTODOWN OR URL_TYPE_NEEDTOSAVE OR URL_TYPE_NEEDTOADDNEW)
     else Inl NoReturnValue)"

definition getHomeType :: int where
  "getHomeType = URL_TYPE_HOMEPAGE OR URL_TYPE_NEEDTODOWN OR URL_TYPE_NEEDTOANALYSEURL"

section \<open>User names\<close>

text \<open>\<open>substr\<close>, and the count \<open>end - begin - length\<close>, which is unsigned.\<close>

definition substr :: "nat \<Rightarrow> nat \<Rightarrow> bytes \<Rightarrow> bytes result" where
  "substr pos n s = (if pos \<le> length s then Inr (take n (drop pos s)) else Inl (Raise OutOfRange))"

definition count_between :: "nat \<Rightarrow> nat \<Rightarrow> nat \<Rightarrow> nat" where
  "count_between b e len = nat ((int e - int b - int len) mod 2 ^ 64)"

definition user_between :: "bytes \<Rightarrow> bytes \<Rightarrow> bytes \<Rightarrow> urlnode \<Rightarrow> urlnode result" where
  "user_between front back url node =
    (case (find_sub front url, find_sub back url) of
       (Some b, Some e) \<Rightarrow> bind_r (substr (b + length front) (count_between b e (length front)) url) (\<lambda>username. copyusername username node)
     | _ \<Rightarrow> Inr node)"

definition GetUserName :: "bytes \<Rightarrow> urlnode \<Rightarrow> urlnode \<Rightarrow> urlnode \<Rightarrow> urlnode \<Rightarrow> (urlnode \<times> urlnode \<times> urlnode \<times> urlnode) result" where
  "GetUserName url node newnode newnode1 newnode2 =
    (let urlfrees = bytes_of ''http://china.alibaba.com/company/detail/''; urlfreee = bytes_of ''.html'';
         urlcharges = bytes_of ''http://''; urlchargee = bytes_of ''.cn.alibaba.com''
     in bind_r
         (if find_sub urlfrees url \<noteq> None
          then bind_r (user_between urlfrees urlfreee url node) (\<lambda>node.
               if u_username node \<noteq> []
               then bind_r (copyurl (bytes_of ''http://china.alibaba.com/member/ajax/memberCardJson.htm?callback=jQuery&loginId='' @ u_username node) newnode1)
                      (\<lambda>newnode1. Inr (node, newnode1))
               else Inr (node, newnode1))
          else bind_r (user_between urlcharges urlchargee url node) (\<lambda>node. Inr (node, newnode1))) (\<lambda>(node, newnode1).
        if u_username node \<noteq> []
        then bind_r (copyurl (bytes_of ''http://china.alibaba.com/member/bizcomm_profile_front_interface.htm?memberId='' @ u_username node
                    @ bytes_of ''&iframe_delete=true'') newnode) (\<lambda>newnode.
             bind_r (copyurl (bytes_of ''http://club.china.alibaba.com/misc/memberajax/memberInfoForAjax.html?memberId='' @ u_username node
                    @ bytes_of ''&iframe_delete=true'') newnode2) (\<lambda>newnode2. Inr (node, newnode, newnode1, newnode2)))
        else Inr (node, newnode, newnode1, newnode2)))"

section \<open>Properties\<close>

lemma tag_scan_result:
  "j \<le> 181 \<Longrightarrow> fst (tag_scan j s) = 0 \<longleftrightarrow> 60 \<notin> set s \<and> 62 \<notin> set s \<and> length s + j \<le> 181"
proof (induction j s rule: tag_scan.induct)
  case (2 j c s)
  show ?case
  proof (cases "c = 60 \<or> c = 62 \<or> j > 180")
    case True
    then show ?thesis using 2(2) by auto
  next
    case False
    then show ?thesis using 2 by auto
  qed
qed simp

text \<open>A tag that is found ends behind its \<open>></\<close>, and has no other \<open><\<close> inside.\<close>

lemma tag_scan_tag:
  "tag_scan j s = (2, k) \<Longrightarrow> \<exists>a b. s = a @ 62 # b \<and> 60 \<notin> set a \<and> k = j + length a + 1"
proof (induction j s rule: tag_scan.induct)
  case (2 j c s)
  show ?case
  proof (cases "c = 62")
    case True
    then have "k = Suc j" using 2(2) by (auto split: if_splits)
    then show ?thesis using True by (intro exI [of _ "[]"] exI [of _ s]) auto
  next
    case False
    then have c: "j < 200" "c \<noteq> 60" "\<not> j > 180" "tag_scan (Suc j) s = (2, k)" using 2(2) by (auto split: if_splits)
    from 2(1) [OF c(1,2) False c(3,4)] obtain a b where "s = a @ 62 # b" "60 \<notin> set a" "k = Suc j + length a + 1" by blast
    then show ?thesis using c(2) by (intro exI [of _ "c # a"] exI [of _ b]) auto
  qed
qed simp

lemma tag_scan_cases: "fst (tag_scan j s) = 0 \<or> fst (tag_scan j s) = 1 \<or> fst (tag_scan j s) = 2"
  by (induction j s rule: tag_scan.induct) auto

text \<open>What is behind a \<open><\<close> that keeps the loop where it is.\<close>

definition stuck_tag :: "bytes \<Rightarrow> bool" where
  "stuck_tag t \<longleftrightarrow> 60 \<notin> set t \<and> 62 \<notin> set t \<and> length t \<le> 180 \<and> (t = [] \<or> hd t < 128)"

lemma tag_kind_stuck: "fst (tag_kind t) = 0 \<longleftrightarrow> stuck_tag t"
  using tag_scan_result [of 1 t] by (cases t) (auto simp: tag_kind_def stuck_tag_def not_le)

lemma tag_kind_cases: "fst (tag_kind t) = 0 \<or> fst (tag_kind t) = 1 \<or> fst (tag_kind t) = 2"
  using tag_scan_cases [of 1 t] by (auto simp: tag_kind_def split: list.splits)

lemma tag_kind_tag: "tag_kind t = (2, k) \<Longrightarrow> \<exists>a b. t = a @ 62 # b \<and> 60 \<notin> set a \<and> k = length a + 2"
  using tag_scan_tag [of 1 t k] by (auto simp: tag_kind_def split: list.splits if_splits)

text \<open>A text with a \<open><\<close> that keeps the loop where it is.\<close>

definition stuck :: "bytes \<Rightarrow> bool" where
  "stuck s \<longleftrightarrow> (\<exists>u t. s = u @ 60 # t \<and> stuck_tag t)"

lemma stuck_Cons: "stuck (c # s) \<longleftrightarrow> c = 60 \<and> stuck_tag s \<or> stuck s"
  unfolding stuck_def by (auto simp: append_eq_Cons_conv Cons_eq_append_conv)

lemma stuck_append: "60 \<notin> set a \<Longrightarrow> stuck (a @ s) \<longleftrightarrow> stuck s"
  by (induction a) (auto simp: stuck_Cons)

lemma kill_loop_ends: "\<not> stuck p \<Longrightarrow> \<exists>out. kill_loop p rtemp = Some (rtemp @ out) \<and> length out \<le> length p"
proof (induction "length p" arbitrary: p rtemp rule: less_induct)
  case less
  show ?case
  proof (cases p)
    case (Cons c s)
    have plain: "kill_loop s (rtemp @ [c]) = kill_loop p rtemp \<Longrightarrow> ?thesis"
    proof -
      assume e: "kill_loop s (rtemp @ [c]) = kill_loop p rtemp"
      have "\<not> stuck s" using less.prems Cons by (simp add: stuck_Cons)
      then obtain out where "kill_loop s (rtemp @ [c]) = Some ((rtemp @ [c]) @ out)" "length out \<le> length s"
        using less.hyps [of s "rtemp @ [c]"] Cons by auto
      then show ?thesis using e Cons by (intro exI [of _ "c # out"]) auto
    qed
    show ?thesis
    proof (cases "c = 60")
      case False
      then show ?thesis using Cons by (intro plain) (simp add: kill_loop.simps [of "c # s"])
    next
      case True
      obtain n k where k: "tag_kind s = (n, k)" by fastforce
      have "n \<noteq> 0" using less.prems Cons True tag_kind_stuck [of s] k by (simp add: stuck_Cons)
      then consider "n = 1" | "n = 2" using tag_kind_cases [of s] k by auto
      then show ?thesis
      proof cases
        case 1
        then show ?thesis using Cons True k by (intro plain) (simp add: kill_loop.simps [of "60 # s"])
      next
        case 2
        then obtain a b where ab: "s = a @ 62 # b" "60 \<notin> set a" "k = length a + 2" using tag_kind_tag k by blast
        have d: "drop k p = b" using Cons ab by simp
        have "\<not> stuck b" using less.prems Cons ab stuck_append [OF ab(2), of "62 # b"] by (simp add: stuck_Cons)
        then obtain out where "kill_loop b rtemp = Some (rtemp @ out)" "length out \<le> length b"
          using less.hyps [of b rtemp] Cons ab by auto
        moreover have "kill_loop p rtemp = kill_loop (drop k p) rtemp" using Cons True k 2 by (simp add: kill_loop.simps [of "60 # s"])
        ultimately show ?thesis using d Cons ab by auto
      qed
    qed
  qed (simp add: kill_loop.simps)
qed

lemma kill_loop_stuck: "stuck p \<Longrightarrow> kill_loop p rtemp = None"
proof -
  have "\<not> stuck p" if "kill_loop p rtemp = Some r" for p rtemp r
    using _ that
  proof (rule kill_loop.raw_induct [where P = "\<lambda>p rtemp r. \<not> stuck p"])
    fix rec and p rtemp r :: bytes
    assume IH: "\<And>p rtemp r. rec p rtemp = Some r \<Longrightarrow> \<not> stuck p"
      and e: "(case p of [] \<Rightarrow> Some rtemp
        | c # s \<Rightarrow> if c \<noteq> 60 then rec s (rtemp @ [c])
            else let (nfind, j) = tag_kind s in if nfind = 1 then rec s (rtemp @ [c]) else if nfind = 2 then rec (drop j p) rtemp else rec p rtemp) = Some r"
    show "\<not> stuck p"
    proof (cases p)
      case (Cons c s)
      obtain n k where k: "tag_kind s = (n, k)" by fastforce
      consider "c \<noteq> 60" | "c = 60" "n = 0" | "c = 60" "n = 1" | "c = 60" "n = 2" using tag_kind_cases [of s] k by auto
      then show ?thesis
      proof cases
        case 1
        then show ?thesis using e Cons IH by (auto simp: stuck_Cons)
      next
        case 2
        then show ?thesis using e Cons k IH by auto
      next
        case 3
        then have "\<not> stuck_tag s" using tag_kind_stuck [of s] k by simp
        then show ?thesis using 3 e Cons k IH by (auto simp: stuck_Cons)
      next
        case 4
        then obtain a b where ab: "s = a @ 62 # b" "60 \<notin> set a" "k = length a + 2" using tag_kind_tag k by blast
        have "\<not> stuck b" using 4 e Cons k ab IH by auto
        then show ?thesis using 4 Cons k tag_kind_stuck [of s] stuck_append [OF ab(2), of "62 # b"] ab by (simp add: stuck_Cons)
      qed
    qed (simp add: stuck_def)
  qed
  then show "stuck p \<Longrightarrow> kill_loop p rtemp = None" by (cases "kill_loop p rtemp") auto
qed

text \<open>
  \<open>killhtmlcode\<close> runs for ever exactly on the texts with a \<open><\<close> that is followed up to the end by at most 180 characters, none of them \<open><\<close>
  or \<open>></\<close> and the first of them, if any, an ASCII character; on every other text it returns one that is no longer.
\<close>

theorem killhtmlcode_returns:
  "(killhtmlcode (length rin + 1) rin = None \<longleftrightarrow>
      (\<exists>u t. rin = u @ 60 # t \<and> 60 \<notin> set t \<and> 62 \<notin> set t \<and> length t \<le> 180 \<and> (t = [] \<or> hd t < 128)))
    \<and> (killhtmlcode (length rin + 1) rin \<noteq> None \<longrightarrow> (\<exists>out. killhtmlcode (length rin + 1) rin = Some (Inr out) \<and> length out \<le> length rin))"
proof (cases "stuck rin")
  case True
  then show ?thesis using kill_loop_stuck [OF True] by (simp add: killhtmlcode_def stuck_def stuck_tag_def)
next
  case False
  obtain out where "kill_loop rin [] = Some out" "length out \<le> length rin" using kill_loop_ends [OF False, of "[]"] by auto
  then have "killhtmlcode (length rin + 1) rin = Some (Inr out)" by (simp add: killhtmlcode_def)
  then show ?thesis using False \<open>length out \<le> length rin\<close> unfolding stuck_def stuck_tag_def by auto
qed

end
