(* ===== verification/HostSched.thy ===== *)
theory HostSched
  imports HostDb TaskOther UrlParse UrlAnalyse
begin

text \<open>
  The schedule of hosts of \<open>module/UrlAnalyseManager.cpp\<close>: each host has a queue of nodes (\<open>HostsFifoQueue\<close> and \<open>HostNode\<close> of
  \<open>tools/ic_types.h\<close>), a vector owns the hosts and uses their places again, a map leads from a domain to its host, and a priority queue
  orders them by the time at which they may be asked next. \<open>insertUrl\<close> puts a node into the queue of its host, or into the tables of
  \<open>HostDb\<close> when the queue is long; \<open>getUrl\<close> takes the next node out.

  Hosts are shared by pointer; a node has one owner and is a value. The operations take each lock for a short part and give it back, and are
  modelled as one step each; the logging is left out.
\<close>

section \<open>Hosts\<close>

record fifo =
  fq_urls :: "urlnode list"
  fq_urlnum :: int

definition HostsFifoQueue :: fifo where
  "HostsFifoQueue = \<lparr>fq_urls = [], fq_urlnum = 0\<rparr>"

definition fifo_push_back :: "urlnode \<Rightarrow> fifo \<Rightarrow> fifo" where
  "fifo_push_back u q = q\<lparr>fq_urls := fq_urls q @ [u], fq_urlnum := to_int (fq_urlnum q + 1)\<rparr>"

definition fifo_push_front :: "urlnode \<Rightarrow> fifo \<Rightarrow> fifo" where
  "fifo_push_front u q = q\<lparr>fq_urls := u # fq_urls q, fq_urlnum := to_int (fq_urlnum q + 1)\<rparr>"

definition fifo_empty :: "fifo \<Rightarrow> bool" where
  "fifo_empty q \<longleftrightarrow> fq_urls q = []"

definition fifo_pop :: "fifo \<Rightarrow> urlnode option \<times> fifo" where
  "fifo_pop q = (case fq_urls q of [] \<Rightarrow> (None, q) | u # us \<Rightarrow> (Some u, q\<lparr>fq_urls := us, fq_urlnum := to_int (fq_urlnum q - 1)\<rparr>))"

text \<open>\<open>fifoqueue\<close> is \<open>None\<close> for a null pointer; times are in milliseconds, \<open>nexttime\<close> an unsigned number of 64 bits.\<close>

record hostnode =
  hn_host :: bytes
  hn_fifo :: "fifo option"
  hn_nexttime :: int
  hn_id :: int
  hn_emptytimes :: int
  hn_available :: bool
  hn_interval :: int
  hn_retnum :: int
  hn_sqlite :: int

definition HostNode :: hostnode where
  "HostNode = \<lparr>hn_host = [], hn_fifo = None, hn_nexttime = 0, hn_id = -1, hn_emptytimes = 0, hn_available = False, hn_interval = 500,
     hn_retnum = 0, hn_sqlite = -1\<rparr>"

definition clear_host :: "hostnode \<Rightarrow> hostnode" where
  "clear_host h = h\<lparr>hn_available := True, hn_host := [], hn_nexttime := 0, hn_emptytimes := 0, hn_retnum := 0, hn_sqlite := -1\<rparr>"

text \<open>
  The manager: \<open>hosts\<close>, \<open>hostToFifoqueue\<close>, \<open>hostsVector\<close> and the objects; the managers it calls; and the nodes it gave to
  \<open>decidesaveFetched\<close> before it deleted them.
\<close>

record hsys =
  hosts :: "ptr list"
  hostmap :: "bytes \<Rightarrow> ptr option"
  hostvec :: "ptr list"
  hobj :: "ptr \<Rightarrow> hostnode"
  oths :: tothers
  tsk :: sched
  hdb :: hostdb
  handed :: "urlnode list"

definition on_host :: "(hostnode \<Rightarrow> hostnode) \<Rightarrow> ptr \<Rightarrow> hsys \<Rightarrow> hsys" where
  "on_host f p s = s\<lparr>hobj := (hobj s)(p := f (hobj s p))\<rparr>"

section \<open>Putting a node into the queue of a host\<close>

text \<open>The key of the host in the table: it is looked for, and made when there is none.\<close>

definition host_row :: "sqlite \<Rightarrow> ptr \<Rightarrow> hsys \<Rightarrow> hsys result" where
  "host_row lite p s =
    (if hn_sqlite (hobj s p) = -1
     then bind_r (get_hostid_by_domain lite (hn_host (hobj s p)) (-1) (hdb s)) (\<lambda>(ret, i, db).
            let s = on_host (\<lambda>h. h\<lparr>hn_sqlite := i\<rparr>) p (s\<lparr>hdb := db\<rparr>)
            in if ret = 0 \<and> i = -1
               then bind_r (insert_host lite (hn_host (hobj s p)) (hdb s)) (\<lambda>(ret, db).
                      let s = s\<lparr>hdb := db\<rparr>
                      in if ret = 0
                         then bind_r (get_hostid_by_domain lite (hn_host (hobj s p)) (-1) (hdb s)) (\<lambda>(_, i, db).
                                Inr (on_host (\<lambda>h. h\<lparr>hn_sqlite := i\<rparr>) p (s\<lparr>hdb := db\<rparr>)))
                         else Inr s)
               else Inr s)
     else Inr s)"

text \<open>The array the node is serialised into is as large as the object, which has room for all that is written.\<close>

definition spill :: "sqlite \<Rightarrow> bool \<Rightarrow> urlnode \<Rightarrow> ptr \<Rightarrow> hsys \<Rightarrow> hsys result" where
  "spill lite pushback u p s =
    bind_r (getTaskOtherInfo (u_taskid u) False (oths s)) (\<lambda>(o1, _, os).
      case o1 of None \<Rightarrow> Inl NullDeref
      | Some o1 \<Rightarrow> bind_r (touch (deletetaskurl (u_url u)) o1 os) (\<lambda>os.
          bind_r (insert_unfetched_url lite (u_url u) (snd (serialize u)) (hn_sqlite (hobj s p)) pushback (hdb s)) (\<lambda>(_, db).
          bind_r (destroy u) (\<lambda>_. Inr (s\<lparr>oths := os, hdb := db\<rparr>)))))"

definition host_push :: "sqlite \<Rightarrow> bool \<Rightarrow> urlnode \<Rightarrow> bool \<Rightarrow> ptr \<Rightarrow> hsys \<Rightarrow> hsys result" where
  "host_push lite ispushback u only_memory p s =
    (case hn_fifo (hobj s p) of None \<Rightarrow> Inl NullDeref
     | Some q \<Rightarrow>
         let queue = (\<lambda>s. Inr (on_host (\<lambda>h. h\<lparr>hn_fifo := map_option (if ispushback then fifo_push_back u else fifo_push_front u) (hn_fifo h)\<rparr>) p s))
         in if fq_urlnum q > 2000 \<and> \<not> only_memory
            then bind_r (host_row lite p s) (\<lambda>s. if hn_sqlite (hobj s p) > 0 then spill lite ispushback u p s else queue s)
            else queue s)"

definition HostNode_push_back :: "sqlite \<Rightarrow> urlnode \<Rightarrow> bool \<Rightarrow> ptr \<Rightarrow> hsys \<Rightarrow> hsys result" where
  "HostNode_push_back lite = host_push lite True"

definition HostNode_push_front :: "sqlite \<Rightarrow> urlnode \<Rightarrow> bool \<Rightarrow> ptr \<Rightarrow> hsys \<Rightarrow> hsys result" where
  "HostNode_push_front lite = host_push lite False"

section \<open>Inserting\<close>

definition INSERT_URL_FORCED :: int where "INSERT_URL_FORCED = 1"
definition INSERT_URL_NOT_FORCED :: int where "INSERT_URL_NOT_FORCED = 0"

text \<open>The host of an address; \<open>None\<close> would be a parser that does not end.\<close>

definition host_of :: "bytes \<Rightarrow> bytes result option" where
  "host_of url = map_option (map_sum id m_sHost) (parse url CUrl)"

text \<open>
  Whether the node is to be inserted: not when it was already fetched, nor when its address is one of the round of its task; else the address
  becomes one of them. \<open>already\<close> is \<open>alreadyfetched\<close>.
\<close>

definition note_url :: "(urlnode \<Rightarrow> bool) \<Rightarrow> int \<Rightarrow> urlnode \<Rightarrow> tothers \<Rightarrow> (bool \<times> tothers) result" where
  "note_url already flag u os =
    bind_r (getTaskOtherInfo (u_taskid u) False os) (\<lambda>(o1, _, os).
      case o1 of None \<Rightarrow> Inr (True, os)
      | Some o1 \<Rightarrow>
          if flag \<noteq> INSERT_URL_FORCED \<and> u_type u AND URL_TYPE_LISTPAGE \<noteq> 0 \<and> already u then Inr (False, os)
          else bind_r (look o1 os) (\<lambda>i.
                 if findurl (u_url u) i then Inr (flag = INSERT_URL_FORCED, os)
                 else bind_r (touch (inserttaskurl (u_url u)) o1 os) (\<lambda>os. Inr (True, os))))"

text \<open>The first host of the vector that may be used again is taken.\<close>

definition findEmptyVector :: "hsys \<Rightarrow> int \<times> hsys" where
  "findEmptyVector s =
    (case filter (\<lambda>i. hn_available (hobj s (hostvec s ! i))) [0..<length (hostvec s)] of
       [] \<Rightarrow> (-1, s)
     | i # _ \<Rightarrow> (int i, on_host (\<lambda>h. h\<lparr>hn_available := False\<rparr>) (hostvec s ! i) s))"

definition push_host :: "ptr \<Rightarrow> hsys \<Rightarrow> hsys" where
  "push_host p s = s\<lparr>hosts := p # hosts s\<rparr>"

definition get_host_sqlite_id :: "sqlite \<Rightarrow> ptr \<Rightarrow> hsys \<Rightarrow> hsys result" where
  "get_host_sqlite_id lite p s =
    (if hn_sqlite (hobj s p) = -1
     then bind_r (get_hostid_by_domain lite (hn_host (hobj s p)) (-1) (hdb s)) (\<lambda>(_, i, db).
            Inr (on_host (\<lambda>h. h\<lparr>hn_sqlite := i\<rparr>) p (s\<lparr>hdb := db\<rparr>)))
     else Inr s)"

text \<open>The time between two visits, for some kinds of source.\<close>

definition set_interval :: "task \<Rightarrow> hostnode \<Rightarrow> hostnode" where
  "set_interval t h =
    (if t_sourcetype t = SOURCE_TYPE_SEARCHENGINE then h\<lparr>hn_interval := 1000\<rparr>
     else if t_sourcetype t = SOURCE_TYPE_COMPANY then h\<lparr>hn_interval := to_int (t_noaccessInterval t * 1000)\<rparr> else h)"

definition task_of :: "urlnode \<Rightarrow> hsys \<Rightarrow> task result" where
  "task_of u s = (if u_task u = 0 then Inl NullDeref else Inr (tobj (tsk s) (u_task u)))"

definition count_url :: "urlnode \<Rightarrow> hsys \<Rightarrow> hsys result" where
  "count_url u s = bind_r (increaseTaskUrlNum (u_taskid u) (oths s)) (\<lambda>(_, os). bind_r (increaseTaskInsUrl (u_taskid u) os) (\<lambda>(_, os). Inr (s\<lparr>oths := os\<rparr>)))"

definition HostNode_push :: "sqlite \<Rightarrow> urlnode \<Rightarrow> bool \<Rightarrow> bool \<Rightarrow> ptr \<Rightarrow> hsys \<Rightarrow> hsys result" where
  "HostNode_push lite u ispushback only_memory p s =
    (if ispushback then HostNode_push_back lite u only_memory p s else HostNode_push_front lite u only_memory p s)"

text \<open>The node is given to \<open>decidesaveFetched\<close> and deleted, or only deleted.\<close>

definition hand_over_node :: "urlnode \<Rightarrow> hsys \<Rightarrow> hsys result" where
  "hand_over_node u s = bind_r (destroy u) (\<lambda>_. Inr (s\<lparr>handed := handed s @ [u]\<rparr>))"

definition drop_node :: "urlnode \<Rightarrow> hsys \<Rightarrow> hsys result" where
  "drop_node u s = bind_r (destroy u) (\<lambda>_. Inr s)"

text \<open>The three places a node can go: a host of the map, a host that is used again, a new host.\<close>

definition insert_found :: "sqlite \<Rightarrow> urlnode \<Rightarrow> bool \<Rightarrow> bool \<Rightarrow> ptr \<Rightarrow> hsys \<Rightarrow> hsys result" where
  "insert_found lite u ispushback only_memory p s =
    (if hn_fifo (hobj s p) = None then hand_over_node u s
     else bind_r (count_url u s) (HostNode_push lite u ispushback only_memory p))"

definition map_insert :: "ptr \<Rightarrow> hsys \<Rightarrow> hsys" where
  "map_insert p s = (let d = hn_host (hobj s p) in if hostmap s d = None then s\<lparr>hostmap := (hostmap s)(d \<mapsto> p)\<rparr> else s)"

definition insert_again :: "sqlite \<Rightarrow> int \<Rightarrow> urlnode \<Rightarrow> task \<Rightarrow> bytes \<Rightarrow> bool \<Rightarrow> bool \<Rightarrow> ptr \<Rightarrow> hsys \<Rightarrow> hsys result" where
  "insert_again lite now u t host ispushback only_memory p s =
    (if p = 0 then hand_over_node u s
     else bind_r (count_url u (on_host (set_interval t) p s)) (\<lambda>s.
       bind_r (HostNode_push lite u ispushback only_memory p s) (\<lambda>s.
       bind_r (strcpy_to MAX_URL_LEN host) (\<lambda>host.
       bind_r (get_host_sqlite_id lite p (on_host (\<lambda>h. h\<lparr>hn_nexttime := (now + 2000) mod 2 ^ 64, hn_host := host\<rparr>) p s)) (\<lambda>s.
         Inr (push_host p (map_insert p s)))))))"

definition insert_new :: "sqlite \<Rightarrow> int \<Rightarrow> ptr \<Rightarrow> urlnode \<Rightarrow> task \<Rightarrow> bytes \<Rightarrow> bool \<Rightarrow> bool \<Rightarrow> hsys \<Rightarrow> hsys result" where
  "insert_new lite now p u t host ispushback only_memory s =
    bind_r (strcpy_to MAX_URL_LEN host) (\<lambda>host.
      bind_r (get_host_sqlite_id lite p (s\<lparr>hobj := (hobj s)(p := (set_interval t HostNode)\<lparr>hn_fifo := Some HostsFifoQueue,
        hn_nexttime := (now + 2000) mod 2 ^ 64, hn_host := host\<rparr>)\<rparr>)) (\<lambda>s.
      let s = s\<lparr>hostvec := hostvec s @ [p]\<rparr>; i = to_int (int (length (hostvec s)) - 1)
      in bind_r (count_url u s) (\<lambda>s.
         bind_r (HostNode_push lite u ispushback only_memory p s) (\<lambda>s.
           Inr (push_host p (map_insert p (on_host (\<lambda>h. h\<lparr>hn_id := i\<rparr>) p s)))))))"

text \<open>
  \<open>insertUrl\<close>, which always returns 0. \<open>i_newid\<close> is the identifier the node gets when it has none, \<open>i_now\<close> the time and \<open>i_new\<close> the memory a
  new host is made in, given the hosts there are.
\<close>

record insertion =
  i_now :: int
  i_newid :: int
  i_new :: "ptr list \<Rightarrow> ptr"

definition place_url :: "sqlite \<Rightarrow> insertion \<Rightarrow> urlnode \<Rightarrow> bytes \<Rightarrow> bool \<Rightarrow> bool \<Rightarrow> hsys \<Rightarrow> hsys result" where
  "place_url lite e u urlhost ispushback only_memory s =
    bind_r (task_of u s) (\<lambda>t.
      let host = (if t_host t \<noteq> [] then t_host t else urlhost)
      in case hostmap s host of
           Some p \<Rightarrow> insert_found lite u ispushback only_memory p s
         | None \<Rightarrow> (case findEmptyVector s of (i, s) \<Rightarrow>
             if i \<noteq> -1 then insert_again lite (i_now e) u t host ispushback only_memory (hostvec s ! nat i) s
             else insert_new lite (i_now e) (i_new e (hostvec s)) u t host ispushback only_memory s))"

definition insertUrl :: "sqlite \<Rightarrow> (urlnode \<Rightarrow> bool) \<Rightarrow> insertion \<Rightarrow> urlnode \<Rightarrow> int \<Rightarrow> bool \<Rightarrow> bool \<Rightarrow> hsys \<Rightarrow> hsys result option" where
  "insertUrl lite already e u flag ispushback only_memory s =
    map_option (\<lambda>h. bind_r h (\<lambda>urlhost.
      if urlhost = [] \<or> length urlhost > MAX_URL_LEN - 1 then hand_over_node u s
      else let u = (if u_id u < 1 then u\<lparr>u_id := i_newid e\<rparr> else u)
           in bind_r (note_url already flag u (oths s)) (\<lambda>(go, os).
                if go then place_url lite e u urlhost ispushback only_memory (s\<lparr>oths := os\<rparr>) else drop_node u (s\<lparr>oths := os\<rparr>))))
      (host_of (u_url u))"

section \<open>Taking out\<close>

definition host_key :: "hsys \<Rightarrow> ptr \<Rightarrow> int" where
  "host_key s p = hn_nexttime (hobj s p)"

definition pop_host :: "chooser \<Rightarrow> hsys \<Rightarrow> ptr \<times> hsys" where
  "pop_host sel s = (let p = sel (host_key s) (hosts s) in (p, s\<lparr>hosts := remove1 p (hosts s)\<rparr>))"

text \<open>
  The next host that may be asked, and the number of the local address to ask it from: as often as there are such addresses, then the host
  goes back into the queue for its interval, or out of it after 100 times without a node. \<open>now 0\<close> and \<open>now 1\<close> are the readings of the clock.
\<close>

definition rotate_host :: "int \<Rightarrow> ptr \<Rightarrow> hsys \<Rightarrow> (bool \<times> hsys) result" where
  "rotate_host now p s =
    (let s = on_host (\<lambda>h. h\<lparr>hn_nexttime := (now + hn_interval h) mod 2 ^ 64\<rparr>) p s
     in case hn_fifo (hobj s p) of None \<Rightarrow> Inl NullDeref
        | Some q \<Rightarrow>
            let s = on_host (\<lambda>h. h\<lparr>hn_emptytimes := if fifo_empty q then to_int (hn_emptytimes h + 1) else 0\<rparr>) p s
            in if hn_emptytimes (hobj s p) > 100
               then Inr (False, on_host clear_host p (s\<lparr>hostmap := (hostmap s)(hn_host (hobj s p) := None)\<rparr>))
               else Inr (True, push_host p s))"

definition getNextHost :: "chooser \<Rightarrow> int \<Rightarrow> (nat \<Rightarrow> int) \<Rightarrow> int \<Rightarrow> hsys \<Rightarrow> (ptr option \<times> int \<times> hsys) result" where
  "getNextHost sel localipnum now ipnum s =
    (if hosts s = [] then Inr (None, ipnum, s)
     else let p = sel (host_key s) (hosts s)
          in if hn_nexttime (hobj s p) \<le> now 0
             then let s = on_host (\<lambda>h. h\<lparr>hn_retnum := to_int (hn_retnum h + 1)\<rparr>) p s
                  in if hn_retnum (hobj s p) \<le> localipnum then Inr (Some p, hn_retnum (hobj s p), s)
                     else (case pop_host sel (on_host (\<lambda>h. h\<lparr>hn_retnum := 0\<rparr>) p s) of (p, s) \<Rightarrow>
                       bind_r (rotate_host (now 1) p s) (\<lambda>(kept, s).
                         Inr (if kept \<and> localipnum = 0 then Some p else None, ipnum, s)))
             else Inr (None, ipnum, s))"

text \<open>The nodes that were read from the table go into memory one after the other, each to the front.\<close>

fun reload :: "sqlite \<Rightarrow> (urlnode \<Rightarrow> bool) \<Rightarrow> (nat \<Rightarrow> insertion) \<Rightarrow> nat \<Rightarrow> urlnode list \<Rightarrow> hsys \<Rightarrow> hsys result option" where
  "reload lite already e i [] s = Some (Inr s)"
| "reload lite already e i (u # us) s =
    (case delete_unfetched_url_by_id lite (u_sqlite_id u) (hdb s) of
       Inl f \<Rightarrow> Some (Inl f)
     | Inr (_, db) \<Rightarrow>
         let u = u\<lparr>u_other := None, u_task := (case getTask (u_taskid u) (tsk s) of Some p \<Rightarrow> p | None \<Rightarrow> 0)\<rparr>
         in case insertUrl lite already (e i) u INSERT_URL_NOT_FORCED False True (s\<lparr>hdb := db\<rparr>) of
              Some (Inr s) \<Rightarrow> reload lite already e (Suc i) us s
            | r \<Rightarrow> r)"

record fetching =
  f_now :: "nat \<Rightarrow> int"
  f_ins :: "nat \<Rightarrow> insertion"
  f_junk :: urlnode

definition take_url :: "int \<Rightarrow> ptr \<Rightarrow> hsys \<Rightarrow> (urlnode option \<times> hsys) result" where
  "take_url ipnum p s =
    (case hn_fifo (hobj s p) of None \<Rightarrow> Inl NullDeref
     | Some q \<Rightarrow> (case fifo_pop q of (u, q) \<Rightarrow>
         Inr (map_option (\<lambda>u. u\<lparr>u_ipnum := to_int (ipnum - 1)\<rparr>) u, on_host (\<lambda>h. h\<lparr>hn_fifo := Some q\<rparr>) p s)))"

definition manager_getUrl :: "chooser \<Rightarrow> int \<Rightarrow> sqlite \<Rightarrow> (urlnode \<Rightarrow> bool) \<Rightarrow> fetching \<Rightarrow> hsys \<Rightarrow> (urlnode option \<times> hsys) result option" where
  "manager_getUrl sel localipnum lite already e s =
    (case getNextHost sel localipnum (f_now e) 0 s of
       Inl f \<Rightarrow> Some (Inl f)
     | Inr (None, _, s) \<Rightarrow> Some (Inr (None, s))
     | Inr (Some p, ipnum, s) \<Rightarrow>
         (case hn_fifo (hobj s p) of None \<Rightarrow> Some (Inl NullDeref)
          | Some q \<Rightarrow>
              if fq_urlnum q < 20 \<and> hn_sqlite (hobj s p) > 0
              then (case get_unfetched_urls lite (f_junk e) (hn_sqlite (hobj s p)) 1000 (hdb s) of
                      Inl f \<Rightarrow> Some (Inl f)
                    | Inr us \<Rightarrow> map_option (\<lambda>r. bind_r r (take_url ipnum p)) (reload lite already (f_ins e) 0 us s))
              else Some (take_url ipnum p s)))"

text \<open>
  \<open>removeNodeFromPriorityQueue\<close> looks at the top of the queue as long as the queue is not empty, and never takes it off.
\<close>

partial_function (option) remove_loop :: "chooser \<Rightarrow> int \<Rightarrow> hsys \<Rightarrow> ptr list \<Rightarrow> ptr list option" where
  "remove_loop sel i s tmphosts =
    (if hosts s = [] then Some tmphosts
     else let t = sel (host_key s) (hosts s) in remove_loop sel i s (if hn_id (hobj s t) \<noteq> i then tmphosts @ [t] else tmphosts))"

definition removeNodeFromPriorityQueue :: "chooser \<Rightarrow> int \<Rightarrow> hsys \<Rightarrow> hsys option" where
  "removeNodeFromPriorityQueue sel i s = map_option (\<lambda>tmphosts. fold push_host tmphosts s) (remove_loop sel i s [])"

definition remove_host :: "chooser \<Rightarrow> int \<Rightarrow> hsys \<Rightarrow> hsys option" where
  "remove_host = removeNodeFromPriorityQueue"

section \<open>What the operations do to the hosts\<close>

definition fifo_ok :: "fifo \<Rightarrow> bool" where
  "fifo_ok q \<longleftrightarrow> fq_urlnum q = to_int (int (length (fq_urls q)))"

text \<open>Another state of the same host: at most its queue and its key differ, and the queue is still counted.\<close>

definition same_host :: "hostnode \<Rightarrow> hostnode \<Rightarrow> bool" where
  "same_host h h' \<longleftrightarrow> h' = h\<lparr>hn_fifo := hn_fifo h', hn_sqlite := hn_sqlite h'\<rparr>
    \<and> (\<forall>q. hn_fifo h = Some q \<and> fifo_ok q \<longrightarrow> (\<exists>q'. hn_fifo h' = Some q' \<and> fifo_ok q'))"

definition moved :: "ptr set \<Rightarrow> hsys \<Rightarrow> hsys \<Rightarrow> bool" where
  "moved P s s' \<longleftrightarrow> hosts s' = hosts s \<and> hostmap s' = hostmap s \<and> hostvec s' = hostvec s \<and> tsk s' = tsk s
    \<and> (\<forall>r. if r \<in> P then same_host (hobj s r) (hobj s' r) else hobj s' r = hobj s r)"

lemma to_int_step [simp]: "to_int (to_int a + b) = to_int (a + b)" "to_int (b + to_int a) = to_int (b + a)" "to_int (to_int a - b) = to_int (a - b)"
proof -
  let ?k = "(a + 2 ^ 31) div 2 ^ 32"
  have e: "to_int a = a - 2 ^ 32 * ?k" unfolding to_int_def by (simp add: minus_mult_div_eq_mod [symmetric])
  have p: "to_int (x - 2 ^ 32 * k) = to_int x" for x k
    using mod_mult_self1 [of "x + 2 ^ 31" "- k" "2 ^ 32"] by (simp add: to_int_def algebra_simps)
  have "to_int a + b = a + b - 2 ^ 32 * ?k" using e by simp
  then show f: "to_int (to_int a + b) = to_int (a + b)" by (simp only: p)
  then show "to_int (b + to_int a) = to_int (b + a)" by (simp only: add.commute)
  have "to_int a - b = a - b - 2 ^ 32 * ?k" using e by simp
  then show "to_int (to_int a - b) = to_int (a - b)" by (simp only: p)
qed

lemma fifo_ok_ops [simp]: "fifo_ok HostsFifoQueue" "fifo_ok q \<Longrightarrow> fifo_ok (fifo_push_back u q)" "fifo_ok q \<Longrightarrow> fifo_ok (fifo_push_front u q)"
  "fifo_ok q \<Longrightarrow> fifo_ok (snd (fifo_pop q))"
  by (auto simp: fifo_ok_def HostsFifoQueue_def fifo_push_back_def fifo_push_front_def fifo_pop_def add.commute split: list.splits)

lemma same_host_refl [simp]: "same_host h h"
  by (simp add: same_host_def)

lemma same_host_sqlite [simp]: "same_host h (h\<lparr>hn_sqlite := i\<rparr>)"
  by (simp add: same_host_def)

lemma same_host_trans: "same_host a b \<Longrightarrow> same_host b c \<Longrightarrow> same_host a c"
  unfolding same_host_def by (metis (no_types, lifting) hostnode.surjective hostnode.update_convs(2,9))

lemma moved_refl [simp]: "moved P s s"
  by (simp add: moved_def)

lemma moved_trans: "moved P s t \<Longrightarrow> moved P t u \<Longrightarrow> moved P s u"
  unfolding moved_def by (metis same_host_trans)

lemma moved_on_host: "p \<in> P \<Longrightarrow> same_host (hobj s p) (f (hobj s p)) \<Longrightarrow> moved P s (on_host f p s)"
  by (simp add: moved_def on_host_def)

lemma moved_other [simp]: "moved P s (s\<lparr>hdb := db\<rparr>) " "moved P s (s\<lparr>oths := os\<rparr>)" "moved P s (s\<lparr>handed := us\<rparr>)" "moved P s (s\<lparr>oths := os, hdb := db\<rparr>)"
  "moved P s (s\<lparr>hdb := db, oths := os\<rparr>)"
  by (simp_all add: moved_def)

lemma moved_sqlite: "p \<in> P \<Longrightarrow> moved P s (on_host (\<lambda>h. h\<lparr>hn_sqlite := i\<rparr>) p (s\<lparr>hdb := db\<rparr>))"
  by (simp add: moved_def on_host_def)

text \<open>Whatever the computation does, if it does not fail: rules to go through its steps.\<close>

definition moves :: "ptr set \<Rightarrow> hsys \<Rightarrow> hsys result \<Rightarrow> bool" where
  "moves P s r \<longleftrightarrow> (\<forall>s'. r = Inr s' \<longrightarrow> moved P s s')"

named_theorems moving

lemma moves_Inr [moving]: "moved P s t \<Longrightarrow> moves P s (Inr t)"
  and moves_Inl [moving]: "moves P s (Inl f)"
  by (simp_all add: moves_def)

lemma moves_bind [moving]: "(\<And>x. moves P s (f x)) \<Longrightarrow> moves P s (bind_r r f)"
  by (auto simp: moves_def bind_r_eq_Inr)

lemma moves_if [moving]: "(b \<Longrightarrow> moves P s x) \<Longrightarrow> (\<not> b \<Longrightarrow> moves P s y) \<Longrightarrow> moves P s (if b then x else y)"
  by simp

lemma moves_pair [moving]: "(\<And>x y. moves P s (f x y)) \<Longrightarrow> moves P s (case p of (x, y) \<Rightarrow> f x y)"
  by (cases p) simp

lemma moves_option [moving]: "moves P s x \<Longrightarrow> (\<And>y. moves P s (f y)) \<Longrightarrow> moves P s (case z of None \<Rightarrow> x | Some y \<Rightarrow> f y)"
  by (cases z) simp_all

lemma moves_bind_state: "moves P s r \<Longrightarrow> (\<And>t. moved P s t \<Longrightarrow> moves P s (f t)) \<Longrightarrow> moves P s (bind_r r f)"
  by (auto simp: moves_def bind_r_eq_Inr)

lemma moves_step: "moved P s t \<Longrightarrow> moves P t r \<Longrightarrow> moves P s r"
  by (auto simp: moves_def intro: moved_trans)

lemma movesD: "r = Inr s' \<Longrightarrow> moves P s r \<Longrightarrow> moved P s s'"
  by (simp add: moves_def)

lemma moved_hdb [moving]: "moved P s t \<Longrightarrow> moved P s (t\<lparr>hdb := db\<rparr>)"
  and moved_oths [moving]: "moved P s t \<Longrightarrow> moved P s (t\<lparr>oths := os\<rparr>)"
  and moved_handed [moving]: "moved P s t \<Longrightarrow> moved P s (t\<lparr>handed := us\<rparr>)"
  and moved_key [moving]: "p \<in> P \<Longrightarrow> moved P s t \<Longrightarrow> moved P s (on_host (\<lambda>h. h\<lparr>hn_sqlite := i\<rparr>) p t)"
  by (auto intro!: moved_on_host elim!: moved_trans)

lemmas [moving] = moved_refl

lemma host_row_moves: "p \<in> P \<Longrightarrow> moves P s (host_row lite p s)"
  unfolding host_row_def Let_def by (intro moving; assumption)

lemma spill_moves: "moves P s (spill lite b u p s)"
  unfolding spill_def by (intro moving)

lemma host_push_moves:
  assumes "p \<in> P"
  shows "moves P s (host_push lite b u m p s)"
proof -
  let ?f = "\<lambda>h. h\<lparr>hn_fifo := map_option (if b then fifo_push_back u else fifo_push_front u) (hn_fifo h)\<rparr>"
  have q: "moved P t (on_host ?f p t)" for t by (rule moved_on_host [OF assms]) (auto simp: same_host_def)
  then show ?thesis unfolding host_push_def Let_def
    by (intro moves_option moves_Inl moves_if moves_bind_state [OF host_row_moves [OF assms]] moves_Inr)
      (blast intro: moves_step spill_moves moved_trans)+
qed

lemma HostNode_push_moves: "p \<in> P \<Longrightarrow> moves P s (HostNode_push lite u b m p s)"
  by (simp add: HostNode_push_def HostNode_push_back_def HostNode_push_front_def host_push_moves)

lemma get_host_sqlite_id_moves: "p \<in> P \<Longrightarrow> moves P s (get_host_sqlite_id lite p s)"
  unfolding get_host_sqlite_id_def by (intro moving; assumption)

lemma count_url_moves: "moves P s (count_url u s)"
  unfolding count_url_def by (intro moving)

lemma hand_over_node_moves: "moves P s (hand_over_node u s)"
  unfolding hand_over_node_def by (intro moving)

lemma drop_node_moves: "moves P s (drop_node u s)"
  unfolding drop_node_def by (intro moving)

lemma insert_found_moves: "p \<in> P \<Longrightarrow> moves P s (insert_found lite u b m p s)"
  unfolding insert_found_def
  by (intro moves_if hand_over_node_moves moves_bind_state [OF count_url_moves]) (rule moves_step [OF _ HostNode_push_moves])

section \<open>What insertion does\<close>

definition host_ok :: "hostnode \<Rightarrow> bool" where
  "host_ok h \<longleftrightarrow> (\<exists>q. hn_fifo h = Some q \<and> fifo_ok q \<and> (hn_available h \<longrightarrow> fq_urls q = [])) \<and> (hn_available h \<longrightarrow> hn_retnum h = 0)"

text \<open>
  The vector, the map and the queue agree: the hosts of the queue are those of the vector that are in use, and the map leads from their domains
  to them; each knows its place and counts its nodes, and a host that may be used again has none.
\<close>

definition hosts_ok :: "hsys \<Rightarrow> bool" where
  "hosts_ok s \<longleftrightarrow> distinct (hostvec s) \<and> 0 \<notin> set (hostvec s)
    \<and> (\<forall>i<length (hostvec s). hn_id (hobj s (hostvec s ! i)) = to_int (int i))
    \<and> (\<forall>p\<in>set (hostvec s). host_ok (hobj s p))
    \<and> distinct (hosts s) \<and> set (hosts s) = {p \<in> set (hostvec s). \<not> hn_available (hobj s p)}
    \<and> (\<forall>d p. hostmap s d = Some p \<longleftrightarrow> p \<in> set (hosts s) \<and> hn_host (hobj s p) = d)"

text \<open>
  A domain comes to the schedule: it had no host, and gets one, used again or new, that may be asked after two seconds.
\<close>

definition joins :: "int \<Rightarrow> task \<Rightarrow> bytes \<Rightarrow> ptr \<Rightarrow> hsys \<Rightarrow> hsys \<Rightarrow> bool" where
  "joins now t d p s s' \<longleftrightarrow> hostmap s d = None \<and> p \<noteq> 0 \<and> hosts s' = p # hosts s \<and> hostmap s' = (hostmap s)(d \<mapsto> p)
    \<and> tsk s' = tsk s \<and> (\<forall>r. r \<noteq> p \<longrightarrow> hobj s' r = hobj s r) \<and> hn_host (hobj s' p) = d
    \<and> hn_nexttime (hobj s' p) = (now + 2000) mod 2 ^ 64 \<and> \<not> hn_available (hobj s' p) \<and> hn_retnum (hobj s' p) = 0 \<and> host_ok (hobj s' p)
    \<and> (if p \<in> set (hostvec s)
       then hn_available (hobj s p) \<and> hostvec s' = hostvec s \<and> hn_id (hobj s' p) = hn_id (hobj s p)
         \<and> hn_interval (hobj s' p) = hn_interval (set_interval t (hobj s p))
       else hostvec s' = hostvec s @ [p] \<and> hn_id (hobj s' p) = to_int (int (length (hostvec s)))
         \<and> hn_interval (hobj s' p) = hn_interval (set_interval t HostNode))"

lemma host_ok_same: "same_host h h' \<Longrightarrow> host_ok h \<Longrightarrow> \<not> hn_available h \<Longrightarrow> host_ok h'"
  unfolding same_host_def host_ok_def by (metis hostnode.select_convs(6) hostnode.surjective hostnode.update_convs(2,9))

lemma same_hostD:
  "same_host h h' \<Longrightarrow> hn_host h' = hn_host h \<and> hn_nexttime h' = hn_nexttime h \<and> hn_id h' = hn_id h \<and> hn_available h' = hn_available h
    \<and> hn_emptytimes h' = hn_emptytimes h \<and> hn_interval h' = hn_interval h \<and> hn_retnum h' = hn_retnum h"
  unfolding same_host_def
  by (metis (no_types, lifting) hostnode.ext_inject hostnode.surjective hostnode.update_convs(2,9))

lemma movedD: "moved P s s' \<Longrightarrow> hosts s' = hosts s \<and> hostmap s' = hostmap s \<and> hostvec s' = hostvec s \<and> tsk s' = tsk s"
  by (simp add: moved_def)

lemma moved_host: "moved P s s' \<Longrightarrow> same_host (hobj s r) (hobj s' r)"
  unfolding moved_def by (metis same_host_refl)

lemma moved_frame: "moved P s s' \<Longrightarrow> r \<notin> P \<Longrightarrow> hobj s' r = hobj s r"
  unfolding moved_def by meson

lemma moved_hosts_ok:
  assumes ok: "hosts_ok s" and m: "moved (set (hosts s)) s s'"
  shows "hosts_ok s'"
proof -
  note e = movedD [OF m] and f = same_hostD [OF moved_host [OF m]]
  have "host_ok (hobj s' p)" if "p \<in> set (hostvec s)" for p
  proof (cases "p \<in> set (hosts s)")
    case True
    then have "host_ok (hobj s p)" "\<not> hn_available (hobj s p)" using ok by (auto simp: hosts_ok_def)
    then show ?thesis by (rule host_ok_same [OF moved_host [OF m]])
  next
    case False
    then show ?thesis using ok moved_frame [OF m False] that by (simp add: hosts_ok_def)
  qed
  then show ?thesis using ok by (simp add: hosts_ok_def e f)
qed

lemma joins_hosts_ok:
  assumes ok: "hosts_ok s" and j: "joins now t d p s s'"
  shows "hosts_ok s'"
proof -
  have other: "hobj s' r = hobj s r" if "r \<noteq> p" for r using j that by (simp add: joins_def)
  have p: "p \<notin> set (hosts s)" using ok j by (auto simp: hosts_ok_def joins_def split: if_splits)
  have vec: "set (hostvec s') = insert p (set (hostvec s))" using j by (auto simp: joins_def split: if_splits)
  have "distinct (hostvec s')" using ok j by (auto simp: hosts_ok_def joins_def split: if_splits)
  moreover have "0 \<notin> set (hostvec s')" using ok j by (simp add: vec hosts_ok_def joins_def)
  moreover have "hn_id (hobj s' (hostvec s' ! i)) = to_int (int i)" if i: "i < length (hostvec s')" for i
  proof (cases "i < length (hostvec s)")
    case True
    then have nth: "hostvec s' ! i = hostvec s ! i" using j by (auto simp: joins_def nth_append split: if_splits)
    have "hostvec s ! i \<in> set (hostvec s)" using True by simp
    then have "hn_id (hobj s' (hostvec s ! i)) = hn_id (hobj s (hostvec s ! i))"
      using j other by (cases "hostvec s ! i = p") (auto simp: joins_def)
    then show ?thesis using ok True by (simp add: nth hosts_ok_def)
  next
    case False
    then have "hostvec s' = hostvec s @ [p]" "i = length (hostvec s)" "p \<notin> set (hostvec s)"
      using i j by (auto simp: joins_def split: if_splits)
    then show ?thesis using j by (simp add: joins_def)
  qed
  moreover have "host_ok (hobj s' r)" if "r \<in> set (hostvec s')" for r
    using ok j that by (cases "r = p") (auto simp: hosts_ok_def joins_def vec)
  moreover have "distinct (hosts s')" using ok j p by (simp add: hosts_ok_def joins_def)
  moreover have "hn_available (hobj s' r) \<longleftrightarrow> r \<noteq> p \<and> hn_available (hobj s r)" for r using j other by (cases "r = p") (auto simp: joins_def)
  then have "set (hosts s') = {r \<in> set (hostvec s'). \<not> hn_available (hobj s' r)}"
    using ok j by (auto simp: vec hosts_ok_def joins_def)
  moreover have "hostmap s' e = Some r \<longleftrightarrow> r \<in> set (hosts s') \<and> hn_host (hobj s' r) = e" for e r
  proof (cases "r = p")
    case False
    have "hn_host (hobj s r) \<noteq> d" if "r \<in> set (hosts s)" using ok j that unfolding hosts_ok_def joins_def by (metis option.distinct(1))
    moreover have "hostmap s e = Some r \<longleftrightarrow> r \<in> set (hosts s) \<and> hn_host (hobj s r) = e" using ok unfolding hosts_ok_def by blast
    ultimately show ?thesis using j False other [OF False] by (auto simp: joins_def)
  next
    case True
    have "hostmap s e \<noteq> Some p" using ok p unfolding hosts_ok_def by blast
    then show ?thesis using j True by (auto simp: joins_def)
  qed
  ultimately show ?thesis by (simp add: hosts_ok_def)
qed

lemma set_interval_simps [simp]: "hn_host (set_interval t h) = hn_host h" "hn_fifo (set_interval t h) = hn_fifo h" "hn_nexttime (set_interval t h) = hn_nexttime h"
  "hn_id (set_interval t h) = hn_id h" "hn_emptytimes (set_interval t h) = hn_emptytimes h" "hn_available (set_interval t h) = hn_available h"
  "hn_retnum (set_interval t h) = hn_retnum h" "hn_sqlite (set_interval t h) = hn_sqlite h" "hn_interval (set_interval t (h\<lparr>hn_available := b\<rparr>)) = hn_interval (set_interval t h)"
  by (simp_all add: set_interval_def)

lemma on_host_simps [simp]: "hosts (on_host f p s) = hosts s" "hostmap (on_host f p s) = hostmap s" "hostvec (on_host f p s) = hostvec s" "tsk (on_host f p s) = tsk s"
  "hobj (on_host f p s) r = (if r = p then f (hobj s p) else hobj s r)"
  by (simp_all add: on_host_def)

lemma same_host_fifo: "same_host h h' \<Longrightarrow> hn_fifo h = Some q \<Longrightarrow> fifo_ok q \<Longrightarrow> \<exists>q'. hn_fifo h' = Some q' \<and> fifo_ok q'"
  by (simp add: same_host_def)

text \<open>The end of both branches that bring a domain to a host.\<close>

lemma joins_end:
  assumes "hostmap s0 d = None" "p \<noteq> 0" "hosts s = hosts s0" "hostmap s = hostmap s0" "tsk s = tsk s0" "\<And>r. r \<noteq> p \<Longrightarrow> hobj s r = hobj s0 r"
    and "hn_host (hobj s p) = d" "hn_nexttime (hobj s p) = (now + 2000) mod 2 ^ 64" "\<not> hn_available (hobj s p)" "hn_retnum (hobj s p) = 0"
    and "\<exists>q. hn_fifo (hobj s p) = Some q \<and> fifo_ok q"
    and "if p \<in> set (hostvec s0)
       then hn_available (hobj s0 p) \<and> hostvec s = hostvec s0 \<and> hn_id (hobj s p) = hn_id (hobj s0 p)
         \<and> hn_interval (hobj s p) = hn_interval (set_interval t (hobj s0 p))
       else hostvec s = hostvec s0 @ [p] \<and> hn_id (hobj s p) = to_int (int (length (hostvec s0)))
         \<and> hn_interval (hobj s p) = hn_interval (set_interval t HostNode)"
  shows "joins now t d p s0 (push_host p (map_insert p s))"
  using assms by (simp add: joins_def push_host_def map_insert_def Let_def host_ok_def split: if_splits)

lemma insert_again_joins:
  assumes r: "insert_again lite now u t host b m p (on_host (\<lambda>h. h\<lparr>hn_available := False\<rparr>) p s0) = Inr s'"
    and p: "p \<in> set (hostvec s0)" "p \<noteq> 0" "hn_available (hobj s0 p)" "host_ok (hobj s0 p)" and none: "hostmap s0 host = None"
  shows "joins now t host p s0 s'"
proof -
  let ?s = "on_host (\<lambda>h. h\<lparr>hn_available := False\<rparr>) p s0"
  let ?fin = "\<lambda>h. h\<lparr>hn_nexttime := (now + 2000) mod 2 ^ 64, hn_host := host\<rparr>"
  obtain s1 s2 s3 where 1: "count_url u (on_host (set_interval t) p ?s) = Inr s1" and 2: "HostNode_push lite u b m p s1 = Inr s2"
    and 3: "get_host_sqlite_id lite p (on_host ?fin p s2) = Inr s3" and s': "s' = push_host p (map_insert p s3)"
    using r p(2) by (auto simp: insert_again_def bind_r_eq_Inr strcpy_to_def split: if_splits)
  have "moved {p} (on_host (set_interval t) p ?s) s2"
    using moved_trans movesD [OF 1 count_url_moves] movesD [OF 2 HostNode_push_moves] by blast
  note m = movedD [OF this] moved_frame [OF this] moved_host [OF this]
  have n: "moved {p} (on_host ?fin p s2) s3" using movesD [OF 3 get_host_sqlite_id_moves] by blast
  note n = movedD [OF n] moved_frame [OF n] moved_host [OF n]
  obtain q where "hn_fifo (hobj s0 p) = Some q" "fifo_ok q" using p(4) by (auto simp: host_ok_def)
  then obtain q2 where "hn_fifo (hobj s2 p) = Some q2" "fifo_ok q2" using same_host_fifo [OF m(3) [of p]] by auto
  then have q3: "\<exists>q. hn_fifo (hobj s3 p) = Some q \<and> fifo_ok q" using same_host_fifo [OF n(3) [of p]] by simp
  show ?thesis unfolding s'
    by (rule joins_end)
      (use p none m(1,2) n(1,2) q3 same_hostD [OF m(3) [of p]] same_hostD [OF n(3) [of p]] in \<open>simp_all add: host_ok_def\<close>)
qed

lemma insert_new_joins:
  assumes r: "insert_new lite now p u t host b m s0 = Inr s'"
    and p: "p \<notin> set (hostvec s0)" "p \<noteq> 0" and none: "hostmap s0 host = None"
  shows "joins now t host p s0 s'"
proof -
  define s where "s = s0\<lparr>hobj := (hobj s0)(p := (set_interval t HostNode)\<lparr>hn_fifo := Some HostsFifoQueue,
        hn_nexttime := (now + 2000) mod 2 ^ 64, hn_host := host\<rparr>)\<rparr>"
  obtain s1 s2 s3 where 1: "get_host_sqlite_id lite p s = Inr s1" and 2: "count_url u (s1\<lparr>hostvec := hostvec s1 @ [p]\<rparr>) = Inr s2"
    and 3: "HostNode_push lite u b m p s2 = Inr s3"
    and s': "s' = push_host p (map_insert p (on_host (\<lambda>h. h\<lparr>hn_id := to_int (int (length (hostvec s1)))\<rparr>) p s3))"
    using r by (auto simp: insert_new_def bind_r_eq_Inr strcpy_to_def s_def Let_def split: if_splits)
  have m: "moved {p} s s1" using movesD [OF 1 get_host_sqlite_id_moves] by blast
  note m = movedD [OF m] moved_frame [OF m] moved_host [OF m]
  have "moved {p} (s1\<lparr>hostvec := hostvec s1 @ [p]\<rparr>) s3"
    using moved_trans movesD [OF 2 count_url_moves] movesD [OF 3 HostNode_push_moves] by blast
  note n = movedD [OF this] moved_frame [OF this] moved_host [OF this]
  obtain q2 where "hn_fifo (hobj s1 p) = Some q2" "fifo_ok q2" using same_host_fifo [OF m(3) [of p]] by (auto simp: s_def)
  then have q3: "\<exists>q. hn_fifo (hobj s3 p) = Some q \<and> fifo_ok q" using same_host_fifo [OF n(3) [of p]] by simp
  show ?thesis unfolding s'
    by (rule joins_end)
      (use p none m(1,2) n(1,2) q3 same_hostD [OF m(3) [of p]] same_hostD [OF n(3) [of p]] in \<open>simp_all add: s_def HostNode_def\<close>)
qed

text \<open>Memory that no host is in.\<close>

definition fresh_memory :: "insertion \<Rightarrow> bool" where
  "fresh_memory e \<longleftrightarrow> (\<forall>v. i_new e v \<notin> set v \<and> i_new e v \<noteq> 0)"

lemma findEmptyVector_cases:
  obtains "findEmptyVector s = (-1, s)"
  | i where "i < length (hostvec s)" "hn_available (hobj s (hostvec s ! i))"
      "findEmptyVector s = (int i, on_host (\<lambda>h. h\<lparr>hn_available := False\<rparr>) (hostvec s ! i) s)"
proof (cases "filter (\<lambda>i. hn_available (hobj s (hostvec s ! i))) [0..<length (hostvec s)]")
  case (Cons i js)
  have "i \<in> set (filter (\<lambda>i. hn_available (hobj s (hostvec s ! i))) [0..<length (hostvec s)])" unfolding Cons by simp
  then have "i < length (hostvec s)" "hn_available (hobj s (hostvec s ! i))" by auto
  then show ?thesis using that(2) [of i] Cons by (simp add: findEmptyVector_def)
qed (use that(1) in \<open>simp add: findEmptyVector_def\<close>)

lemma place_url_cases:
  assumes ok: "hosts_ok s" and new: "fresh_memory e" and r: "place_url lite e u h b m s = Inr s'"
  shows "moved (set (hosts s)) s s' \<or> (\<exists>d p. joins (i_now e) (tobj (tsk s) (u_task u)) d p s s')"
proof -
  let ?t = "tobj (tsk s) (u_task u)" and ?P = "moved (set (hosts s)) s s' \<or> (\<exists>d p. joins (i_now e) (tobj (tsk s) (u_task u)) d p s s')"
  define d where "d = (if t_host ?t \<noteq> [] then t_host ?t else h)"
  have t: "u_task u \<noteq> 0" using r by (auto simp: place_url_def task_of_def split: if_splits)
  show ?P
  proof (cases "hostmap s d")
    case (Some p)
    then have "p \<in> set (hosts s)" using ok by (simp add: hosts_ok_def)
    then show ?P using r t Some movesD [OF _ insert_found_moves] by (simp add: place_url_def task_of_def d_def [symmetric] Let_def)
  next
    case none: None
    show ?P
    proof (rule findEmptyVector_cases [of s])
      assume "findEmptyVector s = (-1, s)"
      then have "insert_new lite (i_now e) (i_new e (hostvec s)) u ?t d b m s = Inr s'"
        using r t none by (simp add: place_url_def task_of_def d_def [symmetric] Let_def)
      then show ?P using insert_new_joins [OF _ _ _ none] new unfolding fresh_memory_def by blast
    next
      fix i
      let ?p = "hostvec s ! i"
      assume i: "i < length (hostvec s)" "hn_available (hobj s ?p)"
        and f: "findEmptyVector s = (int i, on_host (\<lambda>h. h\<lparr>hn_available := False\<rparr>) ?p s)"
      then have "insert_again lite (i_now e) u ?t d b m ?p (on_host (\<lambda>h. h\<lparr>hn_available := False\<rparr>) ?p s) = Inr s'"
        using r t none by (simp add: place_url_def task_of_def d_def [symmetric] Let_def)
      moreover have "?p \<in> set (hostvec s)" using i(1) by simp
      moreover have "?p \<noteq> 0" "host_ok (hobj s ?p)" using ok \<open>?p \<in> set (hostvec s)\<close> unfolding hosts_ok_def by metis+
      ultimately show ?P using insert_again_joins [OF _ _ _ i(2) _ none] by blast
    qed
  qed
qed

lemma elsewhere: "moved P (s\<lparr>oths := os\<rparr>) s' \<longleftrightarrow> moved P s s'" "joins now t d p (s\<lparr>oths := os\<rparr>) s' \<longleftrightarrow> joins now t d p s s'"
  "moved P (s\<lparr>hdb := db\<rparr>) s' \<longleftrightarrow> moved P s s'" "joins now t d p (s\<lparr>hdb := db\<rparr>) s' \<longleftrightarrow> joins now t d p s s'"
  by (simp_all add: moved_def joins_def cong: if_cong)

lemma insertUrl_cases:
  assumes ok: "hosts_ok s" and new: "fresh_memory e" and r: "insertUrl lite already e u flag b m s = Some (Inr s')"
  shows "moved (set (hosts s)) s s' \<or> (\<exists>d p. joins (i_now e) (tobj (tsk s) (u_task u)) d p s s')"
proof -
  define v where "v = (if u_id u < 1 then u\<lparr>u_id := i_newid e\<rparr> else u)"
  have task: "u_task v = u_task u" by (simp add: v_def)
  from r obtain h where h: "host_of (u_url u) = Some (Inr h)"
    and r: "(if h = [] \<or> length h > MAX_URL_LEN - 1 then hand_over_node u s
      else bind_r (note_url already flag v (oths s)) (\<lambda>(go, os).
        if go then place_url lite e v h b m (s\<lparr>oths := os\<rparr>) else drop_node v (s\<lparr>oths := os\<rparr>))) = Inr s'"
    unfolding insertUrl_def Let_def v_def by (auto simp: bind_r_eq_Inr)
  from r consider "hand_over_node u s = Inr s'" | os h where "place_url lite e v h b m (s\<lparr>oths := os\<rparr>) = Inr s'" | os where "drop_node v (s\<lparr>oths := os\<rparr>) = Inr s'"
    by (auto simp: bind_r_eq_Inr split: if_splits)
  then show ?thesis
  proof cases
    case 1
    then show ?thesis using movesD [OF _ hand_over_node_moves] by blast
  next
    case (2 os h)
    have "hosts_ok (s\<lparr>oths := os\<rparr>)" using ok by (simp add: hosts_ok_def)
    then show ?thesis using place_url_cases [OF _ _ 2] new by (simp add: task elsewhere)
  next
    case (3 os)
    then show ?thesis using movesD [OF _ drop_node_moves] moved_other(2) moved_trans by blast
  qed
qed

section \<open>The hosts as a state machine\<close>

text \<open>
  What one step of an operation does to the hosts, when each may be asked from \<open>n\<close> addresses: at which time, and the domain that may be asked.
  A host is asked; it goes back into the queue; it leaves; a domain comes; or at most the queues of the hosts change.
\<close>

inductive host_step :: "int \<Rightarrow> int \<Rightarrow> bytes option \<Rightarrow> hsys \<Rightarrow> hsys \<Rightarrow> bool" for n where
  quiet: "moved (set (hosts s)) s s' \<Longrightarrow> host_step n now None s s'"
| arrive: "joins now (tobj (tsk s) q) d p s s' \<Longrightarrow> host_step n now None s s'"
| ask: "p \<in> set (hosts s) \<Longrightarrow> hn_nexttime (hobj s p) \<le> now \<Longrightarrow> to_int (hn_retnum (hobj s p) + 1) \<le> n \<Longrightarrow>
    s' = on_host (\<lambda>h. h\<lparr>hn_retnum := to_int (hn_retnum h + 1)\<rparr>) p s \<Longrightarrow> host_step n now (Some (hn_host (hobj s p))) s s'"
| rotate: "p \<in> set (hosts s) \<Longrightarrow>
    s' = s\<lparr>hosts := p # remove1 p (hosts s), hobj := (hobj s)(p := (hobj s p)\<lparr>hn_retnum := 0, hn_nexttime := (now + hn_interval (hobj s p)) mod 2 ^ 64,
      hn_emptytimes := k\<rparr>)\<rparr> \<Longrightarrow> host_step n now None s s'"
| leave: "p \<in> set (hosts s) \<Longrightarrow> hn_fifo (hobj s p) = Some q \<Longrightarrow> fq_urls q = [] \<Longrightarrow>
    s' = s\<lparr>hosts := remove1 p (hosts s), hostmap := (hostmap s)(hn_host (hobj s p) := None),
      hobj := (hobj s)(p := clear_host ((hobj s p)\<lparr>hn_emptytimes := k\<rparr>))\<rparr> \<Longrightarrow> host_step n now None s s'"

lemma touch_hosts_ok:
  assumes ok: "hosts_ok s" and p: "p \<in> set (hosts s)"
    and f: "hn_id h = hn_id (hobj s p)" "hn_host h = hn_host (hobj s p)" "hn_available h = hn_available (hobj s p)" "hn_fifo h = hn_fifo (hobj s p)"
    and q: "distinct q" "set q = set (hosts s)"
  shows "hosts_ok (s\<lparr>hosts := q, hobj := (hobj s)(p := h)\<rparr>)"
proof -
  let ?s = "s\<lparr>hosts := q, hobj := (hobj s)(p := h)\<rparr>"
  have "\<not> hn_available (hobj s p)" "host_ok (hobj s p)" using ok p by (auto simp: hosts_ok_def)
  then have "host_ok h" using f by (simp add: host_ok_def)
  then have "host_ok (hobj ?s r)" if "host_ok (hobj s r)" for r using that by simp
  moreover have "hn_id (hobj ?s r) = hn_id (hobj s r)" "hn_host (hobj ?s r) = hn_host (hobj s r)" "hn_available (hobj ?s r) = hn_available (hobj s r)" for r
    using f by simp_all
  ultimately show ?thesis using ok q unfolding hosts_ok_def by simp
qed

lemma leave_hosts_ok:
  assumes ok: "hosts_ok s" and p: "p \<in> set (hosts s)" and q: "hn_fifo (hobj s p) = Some q" "fq_urls q = []"
  shows "hosts_ok (s\<lparr>hosts := remove1 p (hosts s), hostmap := (hostmap s)(hn_host (hobj s p) := None),
      hobj := (hobj s)(p := clear_host ((hobj s p)\<lparr>hn_emptytimes := k\<rparr>))\<rparr>)" (is "hosts_ok ?s")
proof -
  have d: "set (hosts ?s) = set (hosts s) - {p}" "distinct (hosts ?s)" using ok by (auto simp: hosts_ok_def)
  have "host_ok (hobj s p)" using ok p by (auto simp: hosts_ok_def)
  then have h: "host_ok (clear_host ((hobj s p)\<lparr>hn_emptytimes := k\<rparr>))" using q by (simp add: host_ok_def clear_host_def)
  have m: "hostmap ?s d = Some r \<longleftrightarrow> r \<in> set (hosts ?s) \<and> hn_host (hobj ?s r) = d" for d r
  proof -
    have "hostmap s d = Some r \<longleftrightarrow> r \<in> set (hosts s) \<and> hn_host (hobj s r) = d" "hostmap s (hn_host (hobj s p)) = Some p"
      using ok p unfolding hosts_ok_def by blast+
    then show ?thesis unfolding d(1) by (cases "d = hn_host (hobj s p)") auto
  qed
  show ?thesis using ok h p d m unfolding hosts_ok_def by (auto simp: clear_host_def)
qed

lemma host_step_hosts_ok: "host_step n now g s s' \<Longrightarrow> hosts_ok s \<Longrightarrow> hosts_ok s'"
proof (induction rule: host_step.induct)
  case (ask p s now s')
  have "on_host (\<lambda>h. h\<lparr>hn_retnum := to_int (hn_retnum h + 1)\<rparr>) p s =
      s\<lparr>hosts := hosts s, hobj := (hobj s)(p := (hobj s p)\<lparr>hn_retnum := to_int (hn_retnum (hobj s p) + 1)\<rparr>)\<rparr>" by (simp add: on_host_def)
  then show ?case unfolding ask(4) using ask by (simp only:) (rule touch_hosts_ok, auto simp: hosts_ok_def)
next
  case (rotate p s s' now k)
  then show ?case by (simp only:) (rule touch_hosts_ok, auto simp: hosts_ok_def)
next
  case (leave p s q s' now k)
  then show ?case using leave_hosts_ok by blast
qed (blast intro: moved_hosts_ok joins_hosts_ok)+

text \<open>Steps one after the other, at times that do not go back; the times and what is asked.\<close>

inductive host_steps :: "int \<Rightarrow> int \<Rightarrow> (int \<times> bytes) list \<Rightarrow> int \<Rightarrow> hsys \<Rightarrow> hsys \<Rightarrow> bool" for n where
  none: "host_steps n t [] t s s"
| step: "host_step n now g s s1 \<Longrightarrow> t \<le> now \<Longrightarrow> host_steps n now gs t' s1 s' \<Longrightarrow>
    host_steps n t ((case g of None \<Rightarrow> [] | Some d \<Rightarrow> [(now, d)]) @ gs) t' s s'"

lemma host_steps_trans: "host_steps n t gs t1 s s1 \<Longrightarrow> host_steps n t1 gs' t' s1 s' \<Longrightarrow> host_steps n t (gs @ gs') t' s s'"
  by (induction rule: host_steps.induct) (auto intro: host_steps.step)

lemma host_steps_one: "host_step n now g s s' \<Longrightarrow> t \<le> now \<Longrightarrow> host_steps n t (case g of None \<Rightarrow> [] | Some d \<Rightarrow> [(now, d)]) now s s'"
  using host_steps.step [OF _ _ host_steps.none] by fastforce

lemma host_steps_wait: "host_steps n t gs t' s s' \<Longrightarrow> t' \<le> t'' \<Longrightarrow> host_steps n t gs t'' s s'"
  using host_steps_trans [OF _ host_steps_one [OF host_step.quiet [OF moved_refl]]] by fastforce

lemma host_steps_ok: "host_steps n t gs t' s s' \<Longrightarrow> hosts_ok s \<Longrightarrow> hosts_ok s'"
  by (induction rule: host_steps.induct) (auto dest: host_step_hosts_ok)

lemma insertUrl_steps:
  "hosts_ok s \<Longrightarrow> fresh_memory e \<Longrightarrow> insertUrl lite already e u flag b m s = Some (Inr s') \<Longrightarrow> t \<le> i_now e \<Longrightarrow> host_steps n t [] (i_now e) s s'"
  using insertUrl_cases [of s e lite already u flag b m s'] host_steps_one [of n "i_now e" None s s' t] by (auto intro: host_step.quiet host_step.arrive)

lemma host_key_retnum [simp]: "host_key (on_host (\<lambda>h. h\<lparr>hn_retnum := i\<rparr>) p s) = host_key s" "host_key (on_host (\<lambda>h. h\<lparr>hn_retnum := f h\<rparr>) p s) = host_key s"
  by (auto simp: host_key_def)

lemma rotate_host_eq:
  assumes "hn_fifo (hobj s p) = Some q" "j = (if fifo_empty q then to_int (hn_emptytimes (hobj s p) + 1) else 0)"
  shows "rotate_host now p s =
    (if j > 100 then Inr (False, s\<lparr>hostmap := (hostmap s)(hn_host (hobj s p) := None), hobj := (hobj s)(p := clear_host ((hobj s p)\<lparr>hn_emptytimes := j\<rparr>))\<rparr>)
     else Inr (True, s\<lparr>hosts := p # hosts s, hobj := (hobj s)(p := (hobj s p)\<lparr>hn_nexttime := (now + hn_interval (hobj s p)) mod 2 ^ 64, hn_emptytimes := j\<rparr>)\<rparr>))"
proof (cases "fifo_empty q")
  case True
  then show ?thesis using assms by (simp add: rotate_host_def Let_def on_host_def push_host_def clear_host_def)
next
  case False
  then show ?thesis using assms by (simp add: rotate_host_def Let_def on_host_def push_host_def clear_host_def)
qed

lemma getNextHost_steps:
  assumes ok: "hosts_ok s" and sel: "queue_choice sel" and r: "getNextHost sel n now k s = Inr (g, i, s')" and t: "t \<le> now 0" "now 0 \<le> now 1" and n: "0 < n"
  shows "host_steps n t (case g of None \<Rightarrow> [] | Some p \<Rightarrow> [(now 0, hn_host (hobj s p))]) (now 1) s s' \<and> (\<forall>p. g = Some p \<longrightarrow> p \<in> set (hosts s'))"
proof (cases "hosts s = []")
  case True
  then show ?thesis using r t host_steps_wait [OF host_steps.none] by (auto simp: getNextHost_def)
next
  case False
  define p where "p = sel (host_key s) (hosts s)"
  have p: "p \<in> set (hosts s)" using queue_choice.sel_in [OF sel False] by (simp add: p_def)
  show ?thesis
  proof (cases "hn_nexttime (hobj s p) \<le> now 0")
    case False
    then show ?thesis using r t \<open>hosts s \<noteq> []\<close> host_steps_wait [OF host_steps.none] by (auto simp: getNextHost_def p_def [symmetric])
  next
    case due: True
    show ?thesis
    proof (cases "to_int (hn_retnum (hobj s p) + 1) \<le> n")
      case True
      then have "g = Some p" "s' = on_host (\<lambda>h. h\<lparr>hn_retnum := to_int (hn_retnum h + 1)\<rparr>) p s"
        using r due \<open>hosts s \<noteq> []\<close> by (auto simp: getNextHost_def p_def [symmetric] Let_def)
      then show ?thesis using p t host_steps_wait [OF host_steps_one [OF host_step.ask [OF p due True] t(1)] t(2)] by simp
    next
      case False
      define s1 where "s1 = s\<lparr>hosts := remove1 p (hosts s), hobj := (hobj s)(p := (hobj s p)\<lparr>hn_retnum := 0\<rparr>)\<rparr>"
      have "pop_host sel (on_host (\<lambda>h. h\<lparr>hn_retnum := 0\<rparr>) p (on_host (\<lambda>h. h\<lparr>hn_retnum := to_int (hn_retnum h + 1)\<rparr>) p s)) = (p, s1)"
        by (simp add: pop_host_def s1_def p_def [symmetric] Let_def) (simp add: on_host_def)
      then obtain kept where kept: "rotate_host (now 1) p s1 = Inr (kept, s')" and g: "g = None"
        using r due False \<open>hosts s \<noteq> []\<close> n by (auto simp: getNextHost_def p_def [symmetric] Let_def bind_r_eq_Inr)
      obtain q where q: "hn_fifo (hobj s p) = Some q" using ok p by (auto simp: hosts_ok_def host_ok_def)
      define j where "j = (if fifo_empty q then to_int (hn_emptytimes (hobj s p) + 1) else 0)"
      have "hn_fifo (hobj s1 p) = Some q" "j = (if fifo_empty q then to_int (hn_emptytimes (hobj s1 p) + 1) else 0)" using q by (simp_all add: s1_def j_def)
      note eq = rotate_host_eq [OF this, of "now 1"]
      have "host_step n (now 1) None s s'"
      proof (cases "j > 100")
        case True
        then have e: "fq_urls q = []" by (auto simp: j_def fifo_empty_def split: if_splits)
        have "s' = s\<lparr>hosts := remove1 p (hosts s), hostmap := (hostmap s)(hn_host (hobj s p) := None),
            hobj := (hobj s)(p := clear_host ((hobj s p)\<lparr>hn_emptytimes := j\<rparr>))\<rparr>"
          using kept [unfolded eq] True by (simp add: s1_def clear_host_def)
        then show ?thesis by (rule host_step.leave [OF p q e])
      next
        case False
        then have "s' = s\<lparr>hosts := p # remove1 p (hosts s), hobj := (hobj s)(p := (hobj s p)\<lparr>hn_retnum := 0,
            hn_nexttime := (now 1 + hn_interval (hobj s p)) mod 2 ^ 64, hn_emptytimes := j\<rparr>)\<rparr>"
          using kept [unfolded eq] by (simp add: s1_def)
        then show ?thesis by (rule host_step.rotate [OF p])
      qed
      then show ?thesis using host_steps_one [of n "now 1" None s s' t] t g by simp
    qed
  qed
qed

text \<open>Whatever the nodes read from the table are, putting them in is a sequence of steps.\<close>

definition steady :: "int \<Rightarrow> (nat \<Rightarrow> insertion) \<Rightarrow> int \<Rightarrow> bool" where
  "steady t e t' \<longleftrightarrow> t \<le> t' \<and> (\<forall>i. fresh_memory (e i) \<and> i_now (e i) \<le> i_now (e (Suc i)) \<and> t \<le> i_now (e i) \<and> i_now (e i) \<le> t')"

lemma reload_steps:
  assumes "reload lite already e i us s = Some (Inr s')" "hosts_ok s" "steady t0 e t'" "t \<le> i_now (e i)" "t \<le> t'"
  shows "host_steps n t [] t' s s' \<and> set (hosts s) \<subseteq> set (hosts s')"
  using assms
proof (induction us arbitrary: i s t)
  case Nil
  then show ?case using host_steps_wait [OF host_steps.none] by auto
next
  case (Cons u us)
  define v where "v = u\<lparr>u_other := None, u_task := (case getTask (u_taskid u) (tsk s) of Some p \<Rightarrow> p | None \<Rightarrow> 0)\<rparr>"
  from Cons.prems(1) obtain k db s1 where d: "delete_unfetched_url_by_id lite (u_sqlite_id u) (hdb s) = Inr (k, db)"
    and 1: "insertUrl lite already (e i) v INSERT_URL_NOT_FORCED False True (s\<lparr>hdb := db\<rparr>) = Some (Inr s1)" and 2: "reload lite already e (Suc i) us s1 = Some (Inr s')"
    by (auto simp: v_def Let_def split: sum.splits option.splits)
  have e: "fresh_memory (e i)" "i_now (e i) \<le> i_now (e (Suc i))" "i_now (e i) \<le> t'" using Cons.prems(3) by (auto simp: steady_def)
  have ok: "hosts_ok (s\<lparr>hdb := db\<rparr>)" using Cons.prems(2) by (simp add: hosts_ok_def)
  have "set (hosts s) \<subseteq> set (hosts s1)" using insertUrl_cases [OF ok e(1) 1] by (auto simp: moved_def joins_def)
  moreover from insertUrl_steps [OF ok e(1) 1 Cons.prems(4)] have "host_steps n t [] (i_now (e i)) (s\<lparr>hdb := db\<rparr>) s1" .
  from host_steps_trans [OF host_steps_one [OF host_step.quiet [OF moved_other(1)] order_refl] this]
  have a: "host_steps n t [] (i_now (e i)) s s1" by simp
  from Cons.IH [OF 2 host_steps_ok [OF a Cons.prems(2)] Cons.prems(3) e(2,3)] host_steps_trans [OF a]
  have "host_steps n t [] t' s s' \<and> set (hosts s1) \<subseteq> set (hosts s')" by fastforce
  ultimately show ?case by blast
qed

lemma take_url_moves: "p \<in> P \<Longrightarrow> take_url k p s = Inr (u, s') \<Longrightarrow> moved P s s'"
  by (auto simp: take_url_def moved_def same_host_def split: option.splits prod.splits) (metis fifo_ok_ops(4) snd_conv)

definition asked :: "chooser \<Rightarrow> int \<Rightarrow> fetching \<Rightarrow> hsys \<Rightarrow> (int \<times> bytes) list" where
  "asked sel localipnum e s = (case getNextHost sel localipnum (f_now e) 0 s of Inr (Some p, _, _) \<Rightarrow> [(f_now e 0, hn_host (hobj s p))] | _ \<Rightarrow> [])"

lemma getUrl_steps:
  assumes ok: "hosts_ok s" and sel: "queue_choice sel" and n: "0 < n" and t: "t \<le> f_now e 0" "f_now e 0 \<le> f_now e 1" and e: "steady (f_now e 1) (f_ins e) t'"
    and r: "manager_getUrl sel n lite already e s = Some (Inr (u, s'))"
  shows "host_steps n t (asked sel n e s) t' s s'"
proof -
  obtain g k s1 where 1: "getNextHost sel n (f_now e) 0 s = Inr (g, k, s1)"
    using r unfolding manager_getUrl_def by (cases "getNextHost sel n (f_now e) 0 s") auto
  note steps = getNextHost_steps [OF ok sel 1 t n]
  have t': "f_now e 1 \<le> t'" using e by (simp add: steady_def)
  have a: "host_steps n t (asked sel n e s) (f_now e 1) s s1" using steps 1 by (cases g) (auto simp: asked_def)
  have ok1: "hosts_ok s1" by (rule host_steps_ok [OF a ok])
  show ?thesis
  proof (cases g)
    case None
    then show ?thesis using r 1 host_steps_wait [OF a t'] by (simp add: manager_getUrl_def)
  next
    case (Some p)
    then have p: "p \<in> set (hosts s1)" using steps by simp
    have "\<exists>s2. host_steps n (f_now e 1) [] t' s1 s2 \<and> p \<in> set (hosts s2) \<and> take_url k p s2 = Inr (u, s')"
    proof (cases "\<exists>q. hn_fifo (hobj s1 p) = Some q \<and> fq_urlnum q < 20 \<and> hn_sqlite (hobj s1 p) > 0")
      case True
      then obtain us s2 where 2: "reload lite already (f_ins e) 0 us s1 = Some (Inr s2)" and 3: "take_url k p s2 = Inr (u, s')"
        using r 1 Some by (auto simp: manager_getUrl_def bind_r_eq_Inr split: sum.splits if_splits)
      have "f_now e 1 \<le> i_now (f_ins e 0)" using e by (simp add: steady_def)
      from reload_steps [OF 2 ok1 e this t'] 3 p show ?thesis by blast
    next
      case False
      then have "take_url k p s1 = Inr (u, s')" using r 1 Some by (auto simp: manager_getUrl_def split: option.splits if_splits)
      then show ?thesis using p host_steps_wait [OF host_steps.none t'] by blast
    qed
    then obtain s2 where b: "host_steps n (f_now e 1) [] t' s1 s2" and p: "p \<in> set (hosts s2)" and 3: "take_url k p s2 = Inr (u, s')" by blast
    have "host_steps n t' [] t' s2 s'" using host_steps_one [OF host_step.quiet [OF take_url_moves [OF p 3]] order_refl] by fastforce
    from host_steps_trans [OF a host_steps_trans [OF b this]] show ?thesis by simp
  qed
qed

section \<open>How often a host is asked\<close>

text \<open>The times in \<open>G\<close>: from each to the one \<open>n\<close> further on at least \<open>m\<close> pass.\<close>

definition spaced :: "int \<Rightarrow> int \<Rightarrow> int list \<Rightarrow> bool" where
  "spaced n m G \<longleftrightarrow> (\<forall>i j. j < length G \<and> int j - int i = n \<longrightarrow> G ! i + m \<le> G ! j)"

definition times_of :: "bytes \<Rightarrow> (int \<times> bytes) list \<Rightarrow> int list" where
  "times_of d gs = map fst (filter (\<lambda>(_, d'). d' = d) gs)"

text \<open>
  The state of a domain that was asked at the times \<open>G\<close>, the last no later than \<open>t\<close>: those since its host went back into the queue are as many
  as it counts, and not before its time; the others are \<open>m\<close> before its time.
\<close>

definition pace :: "int \<Rightarrow> int \<Rightarrow> int \<Rightarrow> bytes \<Rightarrow> int list \<Rightarrow> hsys \<Rightarrow> bool" where
  "pace n m t d G s \<longleftrightarrow> (\<forall>g\<in>set G. g \<le> t) \<and> spaced n m G
    \<and> (\<forall>p. hostmap s d = Some p \<longrightarrow> (\<exists>old new. G = old @ new \<and> int (length new) = hn_retnum (hobj s p) \<and> hn_retnum (hobj s p) \<le> n
         \<and> (\<forall>g\<in>set old. g + m \<le> hn_nexttime (hobj s p)) \<and> (\<forall>g\<in>set new. hn_nexttime (hobj s p) \<le> g)))"

text \<open>No host is to be asked again earlier than after \<open>m\<close>.\<close>

definition patient :: "int \<Rightarrow> hsys \<Rightarrow> bool" where
  "patient m s \<longleftrightarrow> hosts_ok s \<and> (\<forall>p\<in>set (hostvec s). m \<le> hn_interval (hobj s p) \<and> hn_interval (hobj s p) < 2 ^ 31)
    \<and> (\<forall>q. t_sourcetype (tobj (tsk s) q) = SOURCE_TYPE_COMPANY \<longrightarrow> m \<le> to_int (t_noaccessInterval (tobj (tsk s) q) * 1000))"

lemma spaced_snoc:
  assumes "spaced n m (old @ new)" "0 < n" "int (length new) < n" "\<forall>g\<in>set old. g + m \<le> t"
  shows "spaced n m ((old @ new) @ [t])"
  unfolding spaced_def
proof (intro allI impI)
  fix i j assume ij: "j < length ((old @ new) @ [t]) \<and> int j - int i = n"
  show "((old @ new) @ [t]) ! i + m \<le> ((old @ new) @ [t]) ! j"
  proof (cases "j < length (old @ new)")
    case True
    then show ?thesis using assms(1,2) ij by (auto simp: spaced_def nth_append simp del: append_assoc)
  next
    case False
    then have j: "j = length (old @ new)" using ij by simp
    then have "i < length old" using ij assms(3) by simp
    then show ?thesis using assms(4) by (simp add: j nth_append)
  qed
qed

lemma interval_set: "patient m s \<Longrightarrow> m \<le> 500 \<Longrightarrow> m \<le> i \<Longrightarrow> i < 2 ^ 31 \<Longrightarrow> hn_interval h = i \<Longrightarrow>
    m \<le> hn_interval (set_interval (tobj (tsk s) q) h) \<and> hn_interval (set_interval (tobj (tsk s) q) h) < 2 ^ 31"
  by (auto simp: set_interval_def patient_def to_int_def)

lemma host_step_patient: "host_step n now g s s' \<Longrightarrow> m \<le> 500 \<Longrightarrow> patient m s \<Longrightarrow> patient m s'"
proof (induction rule: host_step.cases)
  case (quiet s1 s2 t)
  then show ?case using moved_hosts_ok same_hostD [OF moved_host] movedD by (fastforce simp: patient_def)
next
  case (arrive t s1 q d p s2)
  have ok: "hosts_ok s'" using arrive joins_hosts_ok by (auto simp: patient_def)
  have "hn_interval HostNode = 500" by (simp add: HostNode_def)
  then have "m \<le> hn_interval (hobj s' p) \<and> hn_interval (hobj s' p) < 2 ^ 31"
    using arrive interval_set [OF arrive(7,6), of "hn_interval (hobj s p)" "hobj s p" q] interval_set [OF arrive(7,6), of 500 HostNode q]
    by (auto simp: joins_def patient_def split: if_splits)
  moreover have "m \<le> hn_interval (hobj s' r) \<and> hn_interval (hobj s' r) < 2 ^ 31" if "r \<in> set (hostvec s')" "r \<noteq> p" for r
    using arrive that by (auto simp: joins_def patient_def split: if_splits)
  moreover have "tsk s' = tsk s" using arrive by (simp add: joins_def)
  ultimately show ?case using arrive(7) ok unfolding patient_def by metis
next
  case (ask p s1 t s2)
  then show ?case using host_step_hosts_ok [OF host_step.ask [OF ask(5-7) refl]] by (auto simp: patient_def)
next
  case (rotate p s1 s2 t k)
  then show ?case using host_step_hosts_ok [OF host_step.rotate [OF rotate(5) refl]] by (auto simp: patient_def)
next
  case (leave p s1 q s2 t k)
  then show ?case using host_step_hosts_ok [OF host_step.leave [OF leave(5-7) refl]] by (auto simp: patient_def clear_host_def)
qed

lemma paceI:
  assumes "\<forall>g\<in>set G. g \<le> t" "spaced n m G" "hostmap s d = Some p" "G = old @ new" "int (length new) = hn_retnum (hobj s p)"
    "hn_retnum (hobj s p) \<le> n" "\<forall>g\<in>set old. g + m \<le> hn_nexttime (hobj s p)" "\<forall>g\<in>set new. hn_nexttime (hobj s p) \<le> g"
  shows "pace n m t d G s"
  unfolding pace_def using assms by (metis option.inject)

lemma pace_again:
  assumes "pace n m t d G s" "t \<le> now" "hostmap s' d = Some p" "hn_retnum (hobj s' p) = 0" "t + m \<le> hn_nexttime (hobj s' p)" "0 < n"
  shows "pace n m now d G s'"
proof -
  have "\<forall>g\<in>set G. g \<le> t" "spaced n m G" using assms(1) by (auto simp: pace_def)
  then show ?thesis using assms(2-) by (intro paceI [of G now n m s' d p G "[]"]) fastforce+
qed

lemma host_step_pace:
  assumes step: "host_step n now g s s'" and pat: "patient m s" and pace: "pace n m t d G s"
    and t: "0 \<le> t" "t \<le> now" "now < 2 ^ 62" and m: "0 \<le> m" "m \<le> 500" and n: "0 < n" "n < 2 ^ 31 - 1"
  shows "pace n m now d (G @ times_of d (case g of None \<Rightarrow> [] | Some d \<Rightarrow> [(now, d)])) s'"
  using step
proof cases
  case quiet
  have "hostmap s' = hostmap s" using movedD [OF quiet(2)] by simp
  moreover have "hn_retnum (hobj s' p) = hn_retnum (hobj s p) \<and> hn_nexttime (hobj s' p) = hn_nexttime (hobj s p)" for p
    using same_hostD [OF moved_host [OF quiet(2)], of p] by simp
  moreover have "\<forall>g\<in>set G. g \<le> now" using pace t(2) by (fastforce simp: pace_def)
  ultimately show ?thesis using pace quiet(1) by (simp add: pace_def times_of_def)
next
  case (arrive q e p)
  have now: "(now + 2000) mod 2 ^ 64 = now + 2000" using t by simp
  show ?thesis
  proof (cases "e = d")
    case True
    have "hostmap s' d = Some p" "hn_retnum (hobj s' p) = 0" "hn_nexttime (hobj s' p) = now + 2000" using arrive(2) True now by (simp_all add: joins_def)
    then show ?thesis using pace_again [OF pace t(2), of s' p] arrive(1) t m n by (simp add: times_of_def)
  next
    case False
    have "p \<notin> set (hosts s)" using arrive(2) pat by (auto simp: joins_def patient_def hosts_ok_def split: if_splits)
    then have "hostmap s d \<noteq> Some p" using pat unfolding patient_def hosts_ok_def by blast
    then have "hostmap s' d = hostmap s d" "\<forall>r. hostmap s d = Some r \<longrightarrow> hobj s' r = hobj s r" using arrive(2) False by (auto simp: joins_def)
    then show ?thesis using pace t(2) arrive(1) by (fastforce simp: pace_def times_of_def)
  qed
next
  case (ask p)
  have p: "hostmap s e = Some p \<longleftrightarrow> hn_host (hobj s p) = e" for e using ask(2) pat unfolding patient_def hosts_ok_def by blast
  show ?thesis
  proof (cases "hn_host (hobj s p) = d")
    case True
    then obtain old new where G: "G = old @ new" "int (length new) = hn_retnum (hobj s p)" "hn_retnum (hobj s p) \<le> n"
        "\<forall>g\<in>set old. g + m \<le> hn_nexttime (hobj s p)" "\<forall>g\<in>set new. hn_nexttime (hobj s p) \<le> g" and sp: "spaced n m G" "\<forall>g\<in>set G. g \<le> t"
      using pace p [of d] by (auto simp: pace_def)
    have r: "to_int (hn_retnum (hobj s p) + 1) = hn_retnum (hobj s p) + 1" using G(2,3) n by (intro to_int_id) auto
    then have "spaced n m ((old @ new) @ [now])" using G ask(3,4) sp n by (intro spaced_snoc) auto
    moreover have "\<forall>g\<in>set (G @ [now]). g \<le> now" using sp(2) t(2) by fastforce
    ultimately have "pace n m now d (G @ [now]) s'"
      using G ask(3,4) r True p [of d] unfolding ask(5) by (intro paceI [of _ _ _ _ _ _ p old "new @ [now]"]) simp_all
    then show ?thesis using ask(1) True by (simp add: times_of_def)
  next
    case False
    then show ?thesis using pace t(2) ask(1,5) p by (fastforce simp: pace_def times_of_def)
  qed
next
  case (rotate p k)
  have p: "hostmap s e = Some p \<longleftrightarrow> hn_host (hobj s p) = e" for e using rotate(2) pat unfolding patient_def hosts_ok_def by blast
  have "p \<in> set (hostvec s)" using rotate(2) pat by (auto simp: patient_def hosts_ok_def)
  then have i: "m \<le> hn_interval (hobj s p)" "hn_interval (hobj s p) < 2 ^ 31" using pat by (auto simp: patient_def)
  then have now: "(now + hn_interval (hobj s p)) mod 2 ^ 64 = now + hn_interval (hobj s p)" using t m by simp
  show ?thesis
  proof (cases "hn_host (hobj s p) = d")
    case True
    then have "hostmap s' d = Some p" "hn_retnum (hobj s' p) = 0" "hn_nexttime (hobj s' p) = now + hn_interval (hobj s p)"
      using rotate(3) p [of d] now by simp_all
    then show ?thesis using pace_again [OF pace t(2), of s' p] rotate(1) t i n by (simp add: times_of_def)
  next
    case False
    then show ?thesis using pace t(2) rotate(1,3) p by (fastforce simp: pace_def times_of_def)
  qed
next
  case (leave p q k)
  have p: "hostmap s e = Some p \<longleftrightarrow> hn_host (hobj s p) = e" for e using leave(2) pat unfolding patient_def hosts_ok_def by blast
  show ?thesis using pace t(2) leave(1,5) p by (fastforce simp: pace_def times_of_def)
qed

lemma host_steps_time: "host_steps n t gs t' s s' \<Longrightarrow> t \<le> t'"
  by (induction rule: host_steps.induct) auto

lemma host_steps_pace:
  assumes "host_steps n t gs t' s s'" "patient m s" "pace n m t d G s" "0 \<le> t" "t' < 2 ^ 62" "0 \<le> m" "m \<le> 500" "0 < n" "n < 2 ^ 31 - 1"
  shows "pace n m t' d (G @ times_of d gs) s'"
  using assms
proof (induction arbitrary: G rule: host_steps.induct)
  case (none t s)
  then show ?case by (simp add: times_of_def)
next
  case (step now g s s1 t gs t' s')
  have "now < 2 ^ 62" "0 \<le> now" using host_steps_time [OF step(3)] step.prems step(2) by auto
  note p = host_step_pace [OF step(1) step.prems(1,2,3) step(2) this(1) step.prems(5-8)]
  show ?case using step.IH [OF host_step_patient [OF step(1) step.prems(6,1)] p \<open>0 \<le> now\<close> step.prems(4-8)]
    by (simp add: times_of_def)
qed

text \<open>Operations one after the other; the number with \<open>Fetch\<close> is a time after it.\<close>

datatype hop = Insert insertion urlnode int bool bool | Fetch fetching int

fun run_hosts :: "chooser \<Rightarrow> int \<Rightarrow> sqlite \<Rightarrow> (urlnode \<Rightarrow> bool) \<Rightarrow> hop list \<Rightarrow> hsys \<Rightarrow> ((int \<times> bytes) list \<times> hsys) result option" where
  "run_hosts sel n lite already [] s = Some (Inr ([], s))"
| "run_hosts sel n lite already (Insert e u flag b m # ops) s =
    (case insertUrl lite already e u flag b m s of
       Some (Inr s) \<Rightarrow> run_hosts sel n lite already ops s | Some (Inl f) \<Rightarrow> Some (Inl f) | None \<Rightarrow> None)"
| "run_hosts sel n lite already (Fetch e t # ops) s =
    (case manager_getUrl sel n lite already e s of
       Some (Inr (_, s1)) \<Rightarrow> map_option (map_sum id (apfst ((@) (asked sel n e s)))) (run_hosts sel n lite already ops s1)
     | Some (Inl f) \<Rightarrow> Some (Inl f) | None \<Rightarrow> None)"

text \<open>The clock does not go back, and memory is fresh.\<close>

fun timely :: "int \<Rightarrow> hop list \<Rightarrow> bool" where
  "timely t [] \<longleftrightarrow> True"
| "timely t (Insert e u flag b m # ops) \<longleftrightarrow> fresh_memory e \<and> t \<le> i_now e \<and> i_now e < 2 ^ 62 \<and> timely (i_now e) ops"
| "timely t (Fetch e t' # ops) \<longleftrightarrow> t \<le> f_now e 0 \<and> f_now e 0 \<le> f_now e 1 \<and> steady (f_now e 1) (f_ins e) t' \<and> t' < 2 ^ 62 \<and> timely t' ops"

lemma returned_apfst: "map_sum id (apfst f) r = Inr (x, y) \<longleftrightarrow> (\<exists>z. r = Inr (z, y) \<and> x = f z)"
  by (cases r) auto

lemma run_hosts_steps:
  assumes "run_hosts sel n lite already ops s = Some (Inr (gs, s'))" "hosts_ok s" "timely t ops" "t < 2 ^ 62" "queue_choice sel" "0 < n"
  shows "\<exists>t' < 2 ^ 62. host_steps n t gs t' s s'"
  using assms
proof (induction ops arbitrary: s t gs)
  case Nil
  then show ?case using host_steps.none by auto
next
  case (Cons op ops)
  show ?case
  proof (cases op)
    case (Insert e u flag b m)
    obtain s1 where 1: "insertUrl lite already e u flag b m s = Some (Inr s1)" and 2: "run_hosts sel n lite already ops s1 = Some (Inr (gs, s'))"
      using Cons.prems(1) Insert by (auto split: option.splits sum.splits)
    have a: "host_steps n t [] (i_now e) s s1" using insertUrl_steps [OF Cons.prems(2) _ 1] Cons.prems(3) Insert by simp
    obtain t' where "t' < 2 ^ 62" "host_steps n (i_now e) gs t' s1 s'"
      using Cons.IH [OF 2 host_steps_ok [OF a Cons.prems(2)], of "i_now e"] Cons.prems(3,5,6) Insert by auto
    then show ?thesis using host_steps_trans [OF a] by (metis append_Nil)
  next
    case (Fetch e t1)
    obtain u s1 gs1 where 1: "manager_getUrl sel n lite already e s = Some (Inr (u, s1))" and 2: "run_hosts sel n lite already ops s1 = Some (Inr (gs1, s'))"
      and gs: "gs = asked sel n e s @ gs1"
      using Cons.prems(1) Fetch by (auto simp: returned_apfst split: option.splits sum.splits)
    have a: "host_steps n t (asked sel n e s) t1 s s1" using getUrl_steps [OF Cons.prems(2,5,6) _ _ _ 1] Cons.prems(3) Fetch by simp
    obtain t' where "t' < 2 ^ 62" "host_steps n t1 gs1 t' s1 s'"
      using Cons.IH [OF 2 host_steps_ok [OF a Cons.prems(2)], of t1] Cons.prems(3,5,6) Fetch by auto
    then show ?thesis using host_steps_trans [OF a] gs by blast
  qed
qed

definition UrlAnalyseManager :: "tothers \<Rightarrow> sched \<Rightarrow> hostdb \<Rightarrow> hsys" where
  "UrlAnalyseManager os ts db = \<lparr>hosts = [], hostmap = Map.empty, hostvec = [], hobj = (\<lambda>_. HostNode), oths = os, tsk = ts, hdb = db, handed = []\<rparr>"

lemma manager_starts_ok: "hosts_ok (UrlAnalyseManager os ts db)"
  by (simp add: UrlAnalyseManager_def hosts_ok_def)

text \<open>A host with two nodes, asked three times from one address.\<close>

definition demo_hosts :: "urlnode \<Rightarrow> hsys" where
  "demo_hosts u = \<lparr>hosts = [1], hostmap = [[104] \<mapsto> 1], hostvec = [1],
     hobj = (\<lambda>_. HostNode\<lparr>hn_host := [104], hn_id := 0, hn_fifo := Some \<lparr>fq_urls = [u, u], fq_urlnum = 2\<rparr>\<rparr>),
     oths = \<lparr>othermap = Map.empty, oobj = Map.empty\<rparr>, tsk = demo_sched, hdb = \<lparr>host_rows = [], url_rows = []\<rparr>, handed = []\<rparr>"

definition fetch_at :: "int \<Rightarrow> urlnode \<Rightarrow> hop" where
  "fetch_at t u = Fetch \<lparr>f_now = \<lambda>_. t, f_ins = \<lambda>_. \<lparr>i_now = t, i_newid = 1, i_new = \<lambda>v. Suc (sum_list v)\<rparr>, f_junk = u\<rparr> t"

lemma demo_hosts_ok: "hosts_ok (demo_hosts u)" "patient 500 (demo_hosts u)" "\<forall>p\<in>set (hosts (demo_hosts u)). hn_retnum (hobj (demo_hosts u) p) = 0"
proof -
  show ok: "hosts_ok (demo_hosts u)" by (auto simp: hosts_ok_def demo_hosts_def host_ok_def HostNode_def fifo_ok_def)
  show "patient 500 (demo_hosts u)" using ok by (auto simp: patient_def demo_hosts_def HostNode_def demo_sched_def demo_task_def SOURCE_TYPE_COMPANY_def)
  show "\<forall>p\<in>set (hosts (demo_hosts u)). hn_retnum (hobj (demo_hosts u) p) = 0" by (simp add: demo_hosts_def HostNode_def)
qed

lemma demo_timely: "timely 0 [fetch_at 10 u, fetch_at 20 u, fetch_at 700 u]"
  by (auto simp: fetch_at_def steady_def fresh_memory_def dest: member_le_sum_list)

lemma demo_run: "\<exists>s'. run_hosts first_min 1 literal_sqlite (\<lambda>_. False) [fetch_at 10 u, fetch_at 20 u, fetch_at 700 u] (demo_hosts u) =
    Some (Inr ([(10, [104]), (700, [104])], s'))"
  by (simp add: fetch_at_def demo_hosts_def HostNode_def manager_getUrl_def getNextHost_def asked_def on_host_def host_key_def take_url_def
      fifo_pop_def pop_host_def rotate_host_def push_host_def fifo_empty_def Let_def)

section \<open>Properties\<close>





lemma remove_loop_never: "hosts s \<noteq> [] \<Longrightarrow> remove_loop sel i s tmphosts = None"
proof -
  have "hosts s \<noteq> [] \<longrightarrow> False" if "remove_loop sel i s tmphosts = Some r" for sel i s tmphosts r
    using _ that by (rule remove_loop.raw_induct [where P = "\<lambda>sel i s tmphosts r. hosts s \<noteq> [] \<longrightarrow> False"]) (auto simp: Let_def split: if_splits)
  then show "hosts s \<noteq> [] \<Longrightarrow> remove_loop sel i s tmphosts = None" by (cases "remove_loop sel i s tmphosts") auto
qed

text \<open>
  \<open>removeNodeFromPriorityQueue\<close>, and with it \<open>remove\<close>, comes to an end only when there is no host in the queue, and then changes nothing.
\<close>

theorem remove_never_ends: "remove_host sel i s = (if hosts s = [] then Some s else None)"
proof (cases "hosts s = []")
  case True
  then show ?thesis by (subst remove_host_def, subst removeNodeFromPriorityQueue_def, subst remove_loop.simps) simp
qed (simp add: remove_host_def removeNodeFromPriorityQueue_def remove_loop_never)

end
