(* ===== verification/FinalPage.thy ===== *)
theory FinalPage
  imports UrlAnalyse UrlParse
begin

text \<open>
  \<open>FinalPage\<close> of \<open>tools/finalpage.cpp\<close>: guessing the address of the next page of a page from its address, its number and
  the templates of the configuration.
\<close>

section \<open>Operations\<close>

text \<open>\<open>rfind(s)\<close>: the last position of a text.\<close>

definition rfind_sub :: "bytes \<Rightarrow> bytes \<Rightarrow> nat option" where
  "rfind_sub pat s = (case filter (\<lambda>i. prefix pat (drop i s)) (rev [0..<length s + 1]) of [] \<Rightarrow> None | i # _ \<Rightarrow> Some i)"

text \<open>Comparing positions: \<open>npos\<close> is the largest.\<close>

definition pos_less :: "nat option \<Rightarrow> nat option \<Rightarrow> bool" where
  "pos_less a b = (case (a, b) of (Some i, Some j) \<Rightarrow> i < j | (Some _, None) \<Rightarrow> True | (None, _) \<Rightarrow> False)"

definition template_mark :: bytes where "template_mark = bytes_of ''[n]''"

definition have_suffix :: "bytes \<Rightarrow> bytes \<Rightarrow> nat \<Rightarrow> nat \<Rightarrow> bytes \<Rightarrow> bytes \<Rightarrow> bytes" where
  "have_suffix fatherurl urltemplet urlbegin urlend fatherpage nextpage =
    (let tmpurl = drop (urlbegin + 1) fatherurl
     in case find_sub template_mark urltemplet of
          Some templetbegin \<Rightarrow>
            if urltemplet = [] \<and> tmpurl \<noteq> []
            then let templet1 = take templetbegin urltemplet; templet = templet1 @ fatherpage @ drop urlend fatherurl
                 in if templet \<noteq> []
                    then case rfind_sub templet tmpurl of
                           Some t \<Rightarrow> take (urlbegin + 1) fatherurl @ take t tmpurl @ templet1 @ nextpage @ drop urlend fatherurl
                         | None \<Rightarrow> take urlend fatherurl @ templet1 @ nextpage @ drop urlend fatherurl
                    else []
            else []
        | None \<Rightarrow> [])"

definition no_suffix :: "bytes \<Rightarrow> bytes \<Rightarrow> nat \<Rightarrow> bytes \<Rightarrow> bytes \<Rightarrow> bytes" where
  "no_suffix fatherurl urltemplet urlbegin fatherpage nextpage =
    (let tmpurl = drop (urlbegin + 1) fatherurl
     in case find_sub template_mark urltemplet of
          Some templetbegin \<Rightarrow>
            if urltemplet = [] \<and> tmpurl \<noteq> []
            then let templet1 = take templetbegin urltemplet; templet = templet1 @ fatherpage
                 in if length tmpurl > length templet \<and> drop (length tmpurl - length templet) tmpurl = templet
                    then take (urlbegin + 1) fatherurl @ take (length tmpurl - length templet) tmpurl @ templet1 @ nextpage
                    else fatherurl @ templet1 @ nextpage
            else []
        | None \<Rightarrow> [])"

definition have_questionmark :: "bytes \<Rightarrow> bytes \<Rightarrow> bytes \<Rightarrow> bytes \<Rightarrow> bytes" where
  "have_questionmark fatherurl urltemplet fatherpage nextpage =
    (case find_sub template_mark urltemplet of
       Some templetbegin \<Rightarrow>
         if urltemplet = []
         then let templet1 = take (templetbegin - 1) (drop 1 urltemplet); templet = templet1 @ fatherpage
              in case find_sub templet fatherurl of
                   Some urlbegin \<Rightarrow> take urlbegin fatherurl @ templet1 @ nextpage @ drop (urlbegin + length templet) fatherurl
                 | None \<Rightarrow> fatherurl @ [38] @ templet1 @ nextpage
         else []
     | None \<Rightarrow> [])"

text \<open>
  One template: what \<open>newurl\<close> of the loop is afterwards, or \<open>None\<close> when the function returns. The results of \<open>have_suffix\<close> and
  \<open>no_suffix\<close> go into variables of their own with the same name, which are dropped.
\<close>

definition page_token :: "bytes \<Rightarrow> nat option \<Rightarrow> nat option \<Rightarrow> bytes \<Rightarrow> bytes \<Rightarrow> bytes \<Rightarrow> bytes \<Rightarrow> bytes option" where
  "page_token fatherurl urlbegin urlend page nextpage tok newurl =
    (case rfind_char 63 fatherurl of
       Some qm \<Rightarrow>
         let url_front = take qm fatherurl; url_back = drop qm fatherurl
         in if find_sub [38] tok \<noteq> None then Some (url_front @ have_questionmark url_back tok page nextpage)
            else (let urlend = rfind_char 46 url_front; urlbegin = rfind_char 47 url_front
                  in case (urlbegin, urlend) of
                       (Some b, Some e) \<Rightarrow> let shadow = (if e > b then have_suffix url_front tok b e page nextpage
                                                         else no_suffix url_front tok b page nextpage) @ url_back in Some newurl
                     | _ \<Rightarrow> Some newurl)
     | None \<Rightarrow>
         if urlbegin \<noteq> None \<and> urlend \<noteq> None \<and> pos_less urlbegin urlend
         then let shadow = have_suffix fatherurl tok (the urlbegin) (the urlend) page nextpage in Some newurl
         else if urlbegin \<noteq> None \<and> pos_less urlend urlbegin
         then let shadow = no_suffix fatherurl tok (the urlbegin) page nextpage in Some newurl
         else None)"

fun page_tokens :: "bytes \<Rightarrow> nat option \<Rightarrow> nat option \<Rightarrow> bytes \<Rightarrow> bytes \<Rightarrow> bytes list \<Rightarrow> bytes \<Rightarrow> bytes list \<Rightarrow> bytes list" where
  "page_tokens fatherurl urlbegin urlend page nextpage [] newurl urls = urls"
| "page_tokens fatherurl urlbegin urlend page nextpage (tok # toks) newurl urls =
    (case page_token fatherurl urlbegin urlend page nextpage tok newurl of
       None \<Rightarrow> urls
     | Some newurl \<Rightarrow> page_tokens fatherurl urlbegin urlend page nextpage toks newurl (if newurl \<noteq> [] then List.insert newurl urls else urls))"

text \<open>The positions \<open>urlbegin\<close> and \<open>urlend\<close>; \<open>length - 1\<close> of an empty text is \<open>npos\<close>.\<close>

definition page_bounds :: "bytes \<Rightarrow> nat option \<times> nat option" where
  "page_bounds fatherurl =
    (case rfind_char 47 fatherurl of
       Some b \<Rightarrow> if b + 1 = length fatherurl then (rfind_char 47 (take b fatherurl), Some b) else (Some b, rfind_char 46 fatherurl)
     | None \<Rightarrow> if fatherurl = [] then (None, None) else (None, rfind_char 46 fatherurl))"

text \<open>The set of addresses, as a list without repetitions.\<close>

definition genNextPage :: "bytes \<Rightarrow> urlnode \<Rightarrow> bytes list result" where
  "genNextPage urltemplate fatherurlnode =
    bind_r (strcpy_to 1024 urltemplate) (\<lambda>urltemplet.
    bind_r (strcpy_to 10 (dec_int (u_page fatherurlnode))) (\<lambda>page.
    bind_r (strcpy_to 10 (dec_int (to_int (u_page fatherurlnode + 1)))) (\<lambda>nextpage.
      let fatherurl = u_url fatherurlnode; pos = page_bounds fatherurl
      in Inr (page_tokens fatherurl (fst pos) (snd pos) page nextpage (tokens_of [32] urltemplet) [] []))))"

text \<open>\<open>nextPage\<close>: the first of the addresses of the page that was guessed goes into \<open>url\<close>.\<close>

definition nextPage :: "bytes \<Rightarrow> urlnode \<Rightarrow> urlnode list \<Rightarrow> bytes \<Rightarrow> (int \<times> bytes) result" where
  "nextPage urltemplate fatherurlnode urls url =
    bind_r (genNextPage urltemplate fatherurlnode) (\<lambda>nextpageurls.
      case filter (\<lambda>u. u_url u \<in> set nextpageurls) urls of [] \<Rightarrow> Inr (0, url) | u # _ \<Rightarrow> Inr (1, u_url u))"

section \<open>Properties\<close>

text \<open>A template with a mark is not empty, so the three helpers make nothing.\<close>

lemma mark_in_empty: "find_sub template_mark [] = None"
proof -
  have "template_mark \<noteq> []" by code_simp
  then show ?thesis by simp
qed

lemma helpers_empty:
  "have_suffix fatherurl urltemplet b e page nextpage = []" "no_suffix fatherurl urltemplet b page nextpage = []"
  "have_questionmark fatherurl urltemplet page nextpage = []"
proof -
  have "find_sub template_mark urltemplet = None \<or> urltemplet \<noteq> []" using mark_in_empty by auto
  then show "have_suffix fatherurl urltemplet b e page nextpage = []" "no_suffix fatherurl urltemplet b page nextpage = []"
    "have_questionmark fatherurl urltemplet page nextpage = []"
    unfolding have_suffix_def no_suffix_def have_questionmark_def Let_def by (cases "find_sub template_mark urltemplet"; simp)+
qed

lemma page_token_query:
  "rfind_char 63 u = Some qm \<Longrightarrow> page_token u b e page nextpage tok newurl = Some (if 38 \<in> set tok then take qm u else newurl)"
proof -
  assume q: "rfind_char 63 u = Some qm"
  have "find_sub [38] tok = None \<longleftrightarrow> 38 \<notin> set tok" by (induction tok) auto
  then show ?thesis using q unfolding page_token_def by (simp add: helpers_empty Let_def split: option.splits)
qed

lemma page_token_no_query:
  "rfind_char 63 u = None \<Longrightarrow> page_token u b e page nextpage tok newurl = None \<or> page_token u b e page nextpage tok newurl = Some newurl"
  by (simp add: page_token_def)

lemma page_tokens_query:
  assumes "rfind_char 63 u = Some qm"
  shows "newurl \<in> {[], take qm u} \<Longrightarrow>
    set (page_tokens u b e page nextpage toks newurl urls) = set urls \<union>
      (if take qm u \<noteq> [] \<and> ((\<exists>tok\<in>set toks. 38 \<in> set tok) \<or> newurl \<noteq> [] \<and> toks \<noteq> []) then {take qm u} else {})"
proof (induction toks arbitrary: newurl urls)
  case (Cons tok toks)
  define n where "n = (if 38 \<in> set tok then take qm u else newurl)"
  have n: "n \<in> {[], take qm u}" using Cons.prems by (auto simp: n_def)
  show ?case using Cons.IH [OF n, of "if n \<noteq> [] then List.insert n urls else urls"] Cons.prems
    by (cases "38 \<in> set tok"; cases "newurl = []"; cases "take qm u = []") (simp_all add: page_token_query [OF assms] n_def del: take_eq_Nil)
qed simp

lemma page_tokens_no_query:
  "rfind_char 63 u = None \<Longrightarrow> page_tokens u b e page nextpage toks [] [] = []"
proof (induction toks)
  case (Cons tok toks)
  then show ?case using page_token_no_query [of u b e page nextpage tok "[]"] by auto
qed simp

lemma dec_int_short: "- (10 ^ 8) < i \<Longrightarrow> i \<le> 10 ^ 8 \<Longrightarrow> length (dec_int i) < 10"
proof -
  assume i: "- (10 ^ 8) < i" "i \<le> 10 ^ 8"
  then have "i < 0 \<Longrightarrow> length (dec_nat (nat (- i))) \<le> Suc 7" "\<not> i < 0 \<Longrightarrow> length (dec_nat (nat i)) \<le> Suc 8"
    using length_dec_nat [of "nat (- i)" 7] length_dec_nat [of "nat i" 8] by simp_all
  then show ?thesis by (cases "i < 0") (auto simp: dec_int_def)
qed

text \<open>
  The guesses of the next page come to nothing: whatever the templates are, the only address ever guessed is that of the page itself up to its last
  question mark, and only if a template has an ampersand.
\<close>

theorem next_page_guesses:
  assumes "length urltemplate < 1024" "- (10 ^ 8) < u_page u" "u_page u < 10 ^ 8"
  shows "\<exists>urls. genNextPage urltemplate u = Inr urls
    \<and> set urls = (case rfind_char 63 (u_url u) of
         None \<Rightarrow> {}
       | Some qm \<Rightarrow> if 0 < qm \<and> (\<exists>t\<in>set (tokens_of [32] urltemplate). 38 \<in> set t) then {take qm (u_url u)} else {})"
proof -
  have dec: "length (dec_int i) < 10" if "- (10 ^ 8) < i" "i \<le> 10 ^ 8" for i
    using that by (intro dec_int_short) auto
  have p: "strcpy_to 10 (dec_int (u_page u)) = Inr (dec_int (u_page u))"
    "strcpy_to 10 (dec_int (to_int (u_page u + 1))) = Inr (dec_int (u_page u + 1))"
    using dec [of "u_page u"] dec [of "u_page u + 1"] assms(2,3) by (simp_all add: strcpy_to_def)
  have t: "strcpy_to 1024 urltemplate = Inr urltemplate" using assms(1) by (simp add: strcpy_to_def)
  show ?thesis
  proof (cases "rfind_char 63 (u_url u)")
    case None
    then show ?thesis unfolding genNextPage_def t p bind_r_simps Let_def by (simp add: page_tokens_no_query)
  next
    case (Some qm)
    then have q: "take qm (u_url u) \<noteq> [] \<longleftrightarrow> 0 < qm" by (auto simp: rfind_char_def)
    show ?thesis unfolding genNextPage_def t p bind_r_simps Let_def
      by (intro exI conjI, rule refl) (simp add: page_tokens_query [OF Some] Some q del: take_eq_Nil)
  qed
qed

theorem next_page_guesses_witness:
  "\<forall>v. \<exists>urls. genNextPage (bytes_of ''_[n] &page=[n]'') (UrlNode0 v\<lparr>u_url := bytes_of ''http://h/l?x=1''\<rparr>) = Inr urls
    \<and> set urls = {bytes_of ''http://h/l''}"
proof
  fix v
  let ?u = "UrlNode0 v\<lparr>u_url := bytes_of ''http://h/l?x=1''\<rparr>"
  have f: "rfind_char 63 (bytes_of ''http://h/l?x=1'') = Some 10" "take 10 (bytes_of ''http://h/l?x=1'') = bytes_of ''http://h/l''"
    "\<exists>t\<in>set (tokens_of [32] (bytes_of ''_[n] &page=[n]'')). 38 \<in> set t" "length (bytes_of ''_[n] &page=[n]'') = 14"
    by code_simp+
  show "\<exists>urls. genNextPage (bytes_of ''_[n] &page=[n]'') ?u = Inr urls \<and> set urls = {bytes_of ''http://h/l''}"
    using next_page_guesses [of "bytes_of ''_[n] &page=[n]''" ?u] f by (simp add: UrlNode0_def)
qed

end
