(* ===== verification/PageUrls.thy ===== *)
theory PageUrls
  imports FinalPage TaskOther
begin

unbundle bit_operations_syntax

text \<open>
  What becomes of the addresses on a page, \<open>analyseUrls\<close> of \<open>module/UrlAnalyseManager.cpp\<close>: each is made a node, typed by the patterns of the
  task, and then inserted into the queues, first the final pages and then the others, or deleted. A node is a pointer with the record it leads to.
\<close>

section \<open>Extraction\<close>

text \<open>
  What the lexer finds: the address, as \<open>uri_combine\<close> puts it together, and the text of the anchor. \<open>untag\<close> is the replacement of
  \<open><[^>]+>\<close> by nothing with \<open>HtRegex\<close>.
\<close>

record found =
  f_buff :: bytes
  f_anchor :: "bytes option"

text \<open>\<open>%02d\<close>, and the four ways to write the number of the next page, in arrays of ten characters.\<close>

definition dec_int2 :: "int \<Rightarrow> bytes" where
  "dec_int2 i = (if length (dec_int i) < 2 then 48 # dec_int i else dec_int i)"

definition next_numbers :: "urlnode \<Rightarrow> bytes list result" where
  "next_numbers u =
    (let n = to_int (u_page u + 1)
     in bind_r (strcpy_to 10 (dec_int n)) (\<lambda>a. bind_r (strcpy_to 10 ([91] @ dec_int n @ [93])) (\<lambda>b.
        bind_r (strcpy_to 10 (dec_int2 n)) (\<lambda>c. bind_r (strcpy_to 10 ([91] @ dec_int2 n @ [93])) (\<lambda>d. Inr [a, b, c, d])))))"

text \<open>The texts of the links to a next page, in two encodings.\<close>

definition next_texts :: "bytes list" where
  "next_texts =
    (let gbk = [0xCF, 0xC2, 0xD2, 0xBB, 0xD2, 0xB3]; utf8 = [0xE4, 0xB8, 0x8B, 0xE4, 0xB8, 0x80, 0xE9, 0xA1, 0xB5]
     in [gbk, [91] @ gbk @ [93], utf8, [91] @ utf8 @ [93]])"

definition onfind :: "(bytes \<Rightarrow> bytes) \<Rightarrow> urlnode \<Rightarrow> bytes list \<Rightarrow> urlnode \<Rightarrow> found \<Rightarrow> bytes \<Rightarrow> (urlnode \<times> bytes) result" where
  "onfind untag father nums junk f nextpageurl =
    bind_r (copyurl (f_buff f) (UrlNode0 junk)) (\<lambda>node.
    case f_anchor f of
      None \<Rightarrow> Inr (node, nextpageurl)
    | Some a \<Rightarrow>
        let tmp = strtrim (untag a) None
        in bind_r (copytitle tmp node) (\<lambda>node. Inr (node,
             if u_type father AND (URL_TYPE_FINALPAGE OR URL_TYPE_LISTPAGE OR URL_TYPE_HOMEPAGE) \<noteq> 0 \<and> tmp \<noteq> [] \<and> nextpageurl = []
                \<and> (if length tmp \<le> 4 then tmp \<in> set nums else tmp \<in> set next_texts)
             then f_buff f else nextpageurl)))"

fun onfind_all :: "(bytes \<Rightarrow> bytes) \<Rightarrow> urlnode \<Rightarrow> bytes list \<Rightarrow> urlnode \<Rightarrow> (nat \<times> found) list \<Rightarrow> bytes \<Rightarrow> ((nat \<times> urlnode) list \<times> bytes) result" where
  "onfind_all untag father nums junk [] nextpageurl = Inr ([], nextpageurl)"
| "onfind_all untag father nums junk ((p, f) # fs) nextpageurl =
    bind_r (onfind untag father nums junk f nextpageurl) (\<lambda>(node, nextpageurl).
    bind_r (onfind_all untag father nums junk fs nextpageurl) (\<lambda>(urls, nextpageurl). Inr ((p, node) # urls, nextpageurl)))"

definition extractUrlsFromContent :: "(bytes \<Rightarrow> bytes) \<Rightarrow> urlnode \<Rightarrow> urlnode \<Rightarrow> (nat \<times> found) list \<Rightarrow> bytes \<Rightarrow> ((nat \<times> urlnode) list \<times> bytes) result" where
  "extractUrlsFromContent untag father junk fs nextpageurl =
    bind_r (next_numbers father) (\<lambda>nums. onfind_all untag father nums junk fs nextpageurl)"

section \<open>Analysis\<close>

text \<open>The configuration: the pattern matcher, the templates, and how many pages of a list and of a final page are turned.\<close>

record pagecfg =
  pc_rx :: matcher
  pc_urltemplate :: bytes
  pc_maxlist :: int
  pc_maxfinal :: int

text \<open>The father, the list of final pages, the list of others, and what was deleted.\<close>

record pageacc =
  pa_father :: urlnode
  pa_final :: page_map
  pa_others :: "(nat \<times> urlnode) list"
  pa_deleted :: "nat list"

definition delete_page :: "nat \<times> urlnode \<Rightarrow> pageacc \<Rightarrow> pageacc result" where
  "delete_page node a = bind_r (destroy (snd node)) (\<lambda>_. Inr (a\<lparr>pa_deleted := pa_deleted a @ [fst node]\<rparr>))"

text \<open>\<open>PutFinalPage\<close> and the number of the page, or the end of the node if its address is there already.\<close>

definition put_final :: "nat \<times> urlnode \<Rightarrow> pageacc \<Rightarrow> pageacc result" where
  "put_final node a =
    (if fst (PutFinalPage (pa_final a) node) = 1
     then let n = u_page (pa_father a)
          in Inr (a\<lparr>pa_final := snd (PutFinalPage (pa_final a) (fst node, (snd node)\<lparr>u_page := n\<rparr>)),
               pa_father := (pa_father a)\<lparr>u_page := to_int (n + 1)\<rparr>\<rparr>)
     else delete_page node a)"

text \<open>What every node takes from its father.\<close>

definition inherit_from :: "urlnode \<Rightarrow> urlnode \<Rightarrow> urlnode result" where
  "inherit_from father node =
    bind_r (copyother (u_other father) (u_maxtype father) (node\<lparr>u_task := u_task father, u_taskid := u_taskid father\<rparr>)) (\<lambda>node.
    bind_r (copyfatherurl (u_url father) (node\<lparr>u_layerid := to_int (u_layerid father + 1), u_needtologin := u_needtologin father\<rparr>)) (\<lambda>node.
    Inr (node\<lparr>u_taskbatch := u_taskbatch father\<rparr>)))"

text \<open>A page made from a user name.\<close>

definition add_made :: "pagecfg \<Rightarrow> task option \<Rightarrow> nat \<times> urlnode \<Rightarrow> pageacc \<Rightarrow> pageacc result" where
  "add_made cfg t node a =
    (if u_url (snd node) \<noteq> []
     then bind_r (getType_url (pc_rx cfg) (u_url (snd node)) t) (\<lambda>ty.
          bind_r (inherit_from (pa_father a) ((snd node)\<lparr>u_id := u_id (pa_father a), u_type := ty\<rparr>)) (\<lambda>n.
          put_final (fst node, n\<lparr>u_nextpage := 2\<rparr>) a))
     else delete_page node a)"

definition made_pages :: "pagecfg \<Rightarrow> task option \<Rightarrow> urlnode \<Rightarrow> nat \<times> nat \<times> nat \<Rightarrow> pageacc \<Rightarrow> (int \<times> pageacc) result" where
  "made_pages cfg t junk ps a =
    (case ps of (p, p1, p2) \<Rightarrow>
     if u_type (pa_father a) AND URL_TYPE_LISTPAGE \<noteq> 0
     then let f = (pa_father a)\<lparr>u_nextpage := 2\<rparr>
          in bind_r (GetUserName (u_url f) f (UrlNode0 junk) (UrlNode0 junk) (UrlNode0 junk)) (\<lambda>(f, n, n1, n2).
             bind_r (add_made cfg t (p, n) (a\<lparr>pa_father := f\<rparr>)) (\<lambda>a.
             bind_r (add_made cfg t (p1, n1) a) (\<lambda>a.
             bind_r (add_made cfg t (p2, n2) a) (\<lambda>a. Inr (if u_url n2 \<noteq> [] then 5 else 3, a)))))
     else Inr (3, a))"

text \<open>Where a typed node goes.\<close>

definition keep_page :: "task \<Rightarrow> nat \<times> urlnode \<Rightarrow> pageacc \<Rightarrow> pageacc result" where
  "keep_page t node a =
    (let new = snd node
     in if u_type new AND URL_TYPE_FINALPAGE \<noteq> 0
        then if t_sourcetype t = SOURCE_TYPE_TOPIC
             then if u_layerid new = t_depth t then Inr (a\<lparr>pa_final := put_sorted (u_url new) node (pa_final a)\<rparr>) else delete_page node a
             else if t_sourcetype t = SOURCE_TYPE_COMPANY \<and> u_type (pa_father a) AND URL_TYPE_HOMEPAGE \<noteq> 0 then delete_page node a
             else put_final node a
        else if u_type new AND (URL_TYPE_LISTPAGE OR URL_TYPE_HOMEPAGE) \<noteq> 0
        then if u_layerid new \<le> t_depth t then Inr (a\<lparr>pa_others := pa_others a @ [node]\<rparr>) else delete_page node a
        else delete_page node a)"

text \<open>The final pages in the list of a company are pages of one document.\<close>

definition company_page :: "task \<Rightarrow> int \<Rightarrow> urlnode \<Rightarrow> urlnode \<Rightarrow> urlnode" where
  "company_page t pagenumtmp father new =
    (if t_sourcetype t = SOURCE_TYPE_COMPANY \<and> u_type father AND URL_TYPE_LISTPAGE \<noteq> 0 \<and> u_type new AND URL_TYPE_FINALPAGE \<noteq> 0
     then let new = new\<lparr>u_id := u_id father\<rparr> in if u_page new < pagenumtmp then new\<lparr>u_nextpage := 2\<rparr> else new
     else new)"

text \<open>One address of the page.\<close>

definition classify :: "pagecfg \<Rightarrow> task \<Rightarrow> bool \<Rightarrow> int \<Rightarrow> nat \<times> urlnode \<Rightarrow> pageacc \<Rightarrow> pageacc result" where
  "classify cfg t no_need pagenumtmp node a =
    (let father = pa_father a; p = fst node; new = snd node in
     bind_r (if t_sourcetype t = SOURCE_TYPE_SEARCHENGINE then getType_number SOURCE_TYPE_SEARCHENGINE
             else getType_url (pc_rx cfg) (u_url new) (Some t)) (\<lambda>ty.
     bind_r (if ty AND URL_TYPE_FINALPAGE \<noteq> 0 \<and> t_sourcetype t = SOURCE_TYPE_TOPIC
             then bind_r (getType_number SOURCE_TYPE_TOPIC) (\<lambda>ty. copytopicsource (u_title father) (new\<lparr>u_type := ty\<rparr>))
             else Inr (new\<lparr>u_type := ty\<rparr>)) (\<lambda>new.
     if no_need \<and> u_type new = u_type father then delete_page (p, new) a
     else if u_type new AND URL_TYPE_NEEDTOADDNEW \<noteq> 0
     then bind_r (inherit_from father (company_page t pagenumtmp father new)) (\<lambda>new. keep_page t (p, new) a)
     else delete_page (p, new) a)))"

fun each_page :: "(nat \<times> urlnode \<Rightarrow> pageacc \<Rightarrow> pageacc result) \<Rightarrow> (nat \<times> urlnode) list \<Rightarrow> pageacc \<Rightarrow> pageacc result" where
  "each_page f [] a = Inr a"
| "each_page f (node # nodes) a = bind_r (f node a) (each_page f nodes)"

text \<open>The address of the next page, by the type of the father.\<close>

definition guess_next :: "pagecfg \<Rightarrow> urlnode \<Rightarrow> urlnode list \<Rightarrow> bytes \<Rightarrow> bytes result" where
  "guess_next cfg father urls nextpageurl =
    (if nextpageurl = [] then bind_r (nextPage (pc_urltemplate cfg) father urls nextpageurl) (\<lambda>(_, n). Inr n) else Inr nextpageurl)"

definition turn_page :: "pagecfg \<Rightarrow> task option \<Rightarrow> urlnode \<Rightarrow> urlnode list \<Rightarrow> bytes \<Rightarrow> bytes result" where
  "turn_page cfg t father urls nextpageurl =
    (if u_type father AND URL_TYPE_LISTPAGE \<noteq> 0
     then case t of None \<Rightarrow> Inl NullDeref
       | Some t \<Rightarrow> if t_sourcetype t = SOURCE_TYPE_BBS
           then bind_r (guess_next cfg father urls nextpageurl) (\<lambda>n. Inr (if n = u_url father \<or> u_page father > pc_maxlist cfg then [] else n))
           else Inr []
     else if u_type father AND URL_TYPE_FINALPAGE \<noteq> 0
     then bind_r (guess_next cfg father urls nextpageurl) (\<lambda>n. Inr (if n = u_url father \<or> u_page father \<ge> pc_maxfinal cfg then [] else n))
     else if u_type father AND URL_TYPE_HOMEPAGE \<noteq> 0
     then case t of None \<Rightarrow> Inl NullDeref
       | Some t \<Rightarrow> if t_sourcetype t = SOURCE_TYPE_COURT \<or> t_sourcetype t = SOURCE_TYPE_COMPANY then guess_next cfg father urls nextpageurl else Inr []
     else Inr nextpageurl)"

definition turn_final :: "pagecfg \<Rightarrow> task option \<Rightarrow> urlnode \<Rightarrow> urlnode list \<Rightarrow> bytes \<Rightarrow> bytes result" where
  "turn_final cfg t father urls nextpageurl =
    bind_r (guess_next cfg father urls nextpageurl) (\<lambda>n.
      case t of None \<Rightarrow> Inl NullDeref
      | Some t \<Rightarrow> Inr (if t_sourcetype t = SOURCE_TYPE_SEARCHENGINE then (if n = u_url father \<or> u_page father \<ge> 10 then [] else n)
          else if t_sourcetype t = SOURCE_TYPE_COMPANY then []
          else if n = u_url father \<or> u_page father \<ge> pc_maxfinal cfg then [] else n))"

text \<open>Whether the addresses are looked at, and whether pages are made from a user name.\<close>

definition looks_at :: "urlnode \<Rightarrow> task option \<Rightarrow> bool" where
  "looks_at father t \<longleftrightarrow> u_type father AND URL_TYPE_NEEDTOANALYSEURL \<noteq> 0 \<and> (case t of Some t \<Rightarrow> u_layerid father \<le> t_depth t | None \<Rightarrow> False)"

definition sort_out :: "pagecfg \<Rightarrow> task option \<Rightarrow> bool \<Rightarrow> urlnode \<Rightarrow> nat \<times> nat \<times> nat \<Rightarrow> (nat \<times> urlnode) list \<Rightarrow> pageacc \<Rightarrow> bytes \<Rightarrow> (bytes \<times> pageacc) result" where
  "sort_out cfg t no_need junk ps urls a nextpageurl =
    (let father = pa_father a; us = map snd urls in
     if u_type father AND URL_TYPE_NEEDTOANALYSEURL \<noteq> 0
     then bind_r (turn_page cfg t father us nextpageurl) (\<lambda>nextpageurl.
          case t of None \<Rightarrow> Inl NullDeref
          | Some t \<Rightarrow>
              if u_layerid father \<le> t_depth t
              then bind_r (made_pages cfg (Some t) junk ps a) (\<lambda>(pagenumtmp, a).
                   bind_r (each_page (classify cfg t no_need pagenumtmp) urls a) (\<lambda>a. Inr (nextpageurl, a)))
              else bind_r (each_page delete_page urls a) (\<lambda>a. Inr (nextpageurl, a)))
     else if u_type father AND URL_TYPE_FINALPAGE \<noteq> 0
     then bind_r (turn_final cfg t father us nextpageurl) (\<lambda>nextpageurl. bind_r (each_page delete_page urls a) (\<lambda>a. Inr (nextpageurl, a)))
     else bind_r (each_page delete_page urls a) (\<lambda>a. Inr ([], a)))"

text \<open>The end: what is given to \<open>insertUrl\<close>, with \<open>ispushback\<close>, unless the task says to ignore it.\<close>

type_synonym insertion = "nat \<times> urlnode \<times> bool"

definition ignored :: "pagecfg \<Rightarrow> task option \<Rightarrow> urlnode \<Rightarrow> bool" where
  "ignored cfg t node \<longleftrightarrow> (case t of None \<Rightarrow> True | Some t \<Rightarrow> matches (pc_rx cfg) (u_url node) (t_ignoreurl t))"

fun hand_over :: "pagecfg \<Rightarrow> task option \<Rightarrow> (nat \<times> urlnode \<Rightarrow> insertion) \<Rightarrow> (nat \<times> urlnode) list \<Rightarrow> (insertion list \<times> nat list) result" where
  "hand_over cfg t f [] = Inr ([], [])"
| "hand_over cfg t f (node # nodes) =
    bind_r (if ignored cfg t (snd node) then bind_r (destroy (snd node)) (\<lambda>_. Inr ([], [fst node])) else Inr ([f node], [])) (\<lambda>(i, d).
    bind_r (hand_over cfg t f nodes) (\<lambda>(is, ds). Inr (i @ is, d @ ds)))"

definition insert_final :: "int \<Rightarrow> nat \<times> urlnode \<Rightarrow> insertion" where
  "insert_final pages node = (fst node, (snd node)\<lparr>u_totalpage := pages\<rparr>, \<not> u_nextpage (snd node) > 1)"

definition insert_other :: "nat \<times> urlnode \<Rightarrow> insertion" where
  "insert_other node = (fst node, snd node, True)"

text \<open>The result, the address of the next page, the father, what is inserted, and what was deleted.\<close>

definition analyseUrls :: "pagecfg \<Rightarrow> (bytes \<Rightarrow> bytes) \<Rightarrow> task option \<Rightarrow> bool \<Rightarrow> urlnode \<Rightarrow> nat \<times> nat \<times> nat \<Rightarrow> urlnode \<Rightarrow> (nat \<times> found) list \<Rightarrow> int \<Rightarrow> bytes
    \<Rightarrow> (int \<times> bytes \<times> urlnode \<times> insertion list \<times> nat list) result" where
  "analyseUrls cfg untag t no_need junk ps father fs contentlen nextpageurl =
    (if contentlen = 0 then Inr (0, nextpageurl, father, [], [])
     else bind_r (extractUrlsFromContent untag father junk fs nextpageurl) (\<lambda>(urls, nextpageurl).
          bind_r (sort_out cfg t no_need junk ps urls \<lparr>pa_father = father, pa_final = [], pa_others = [], pa_deleted = []\<rparr> nextpageurl) (\<lambda>(nextpageurl, a).
          let father = (let u = pa_father a in if u_type u AND URL_TYPE_LISTPAGE \<noteq> 0 then u\<lparr>u_totalpage := u_page u\<rparr> else u)
          in bind_r (hand_over cfg t (insert_final (u_page father)) (map snd (pa_final a))) (\<lambda>(i1, d1).
             bind_r (hand_over cfg t insert_other (pa_others a)) (\<lambda>(i2, d2).
             Inr (if nextpageurl \<noteq> [] then to_int (u_page father + 1) else 1, nextpageurl, father, i1 @ i2, pa_deleted a @ d1 @ d2))))))"

section \<open>Properties\<close>

text \<open>What the copies leave alone.\<close>

definition same_page :: "urlnode \<Rightarrow> urlnode \<Rightarrow> bool" where
  "same_page u v \<longleftrightarrow> u_url v = u_url u \<and> u_type v = u_type u \<and> u_page v = u_page u \<and> u_nextpage v = u_nextpage u"

lemma insertother_same: "insertother typ data len u = Inr v \<Longrightarrow> same_page u v"
  by (auto simp: same_page_def insertother_def Let_def bind_r_eq_Inr split: option.splits if_splits)

lemma copyother_from_same: "copyother_from n i src u = Inr v \<Longrightarrow> same_page u v"
proof (induction n arbitrary: i u)
  case (Suc n)
  then obtain c w where w: "(case c of Other len (Some data) \<Rightarrow> insertother (int i) (Some data) len u | Other _ None \<Rightarrow> Inl BadPointer | _ \<Rightarrow> Inr u) = Inr w"
    "copyother_from n (Suc i) src w = Inr v" by (auto simp: bind_r_eq_Inr)
  have "same_page u w"
  proof (cases "w = u")
    case False
    then show ?thesis using w(1) insertother_same by (auto split: cell.splits option.splits)
  qed (simp add: same_page_def)
  then show ?case using Suc.IH [OF w(2)] by (simp add: same_page_def)
qed (simp add: same_page_def)

lemma copyother_keeps_node: "copyother src m u = Inr v \<Longrightarrow> same_page u v"
  using copyother_from_same by (auto simp: copyother_def same_page_def split: option.splits if_splits)

lemma inherit_same: "inherit_from father node = Inr n \<Longrightarrow> same_page node n"
  by (auto simp: inherit_from_def bind_r_eq_Inr copyfatherurl_def same_page_def dest!: copyother_keeps_node)

text \<open>Where every node is.\<close>

definition owned :: "pageacc \<Rightarrow> nat multiset" where
  "owned a = mset (map (fst \<circ> snd) (pa_final a)) + mset (map fst (pa_others a)) + mset (pa_deleted a)"

lemma mset_put_sorted: "map_of m k = None \<Longrightarrow> mset (map f (put_sorted k v m)) = add_mset (f (k, v)) (mset (map f m))"
  by (induction k v m rule: put_sorted.induct) auto

lemma keys_put_sorted: "set (map fst (put_sorted k v m)) = insert k (set (map fst m))"
  by (induction k v m rule: put_sorted.induct) auto

lemma delete_page_result: "delete_page node a = Inr b \<Longrightarrow> b = a\<lparr>pa_deleted := pa_deleted a @ [fst node]\<rparr>"
  by (auto simp: delete_page_def bind_r_eq_Inr)

text \<open>
  A node that is a final page is either deleted or put into the list of final pages under its address with the number the father gives it.
\<close>

lemma put_final_cases:
  assumes "put_final node a = Inr b"
  obtains "b = a\<lparr>pa_deleted := pa_deleted a @ [fst node]\<rparr>"
  | "map_of (pa_final a) (u_url (snd node)) = None"
    "b = a\<lparr>pa_final := put_sorted (u_url (snd node)) (fst node, (snd node)\<lparr>u_page := u_page (pa_father a)\<rparr>) (pa_final a),
       pa_father := (pa_father a)\<lparr>u_page := to_int (u_page (pa_father a) + 1)\<rparr>\<rparr>"
  using assms delete_page_result by (auto simp: put_final_def PutFinalPage_def Let_def split: if_splits)

lemma add_made_cases:
  assumes "add_made cfg t node a = Inr b"
  obtains "b = a\<lparr>pa_deleted := pa_deleted a @ [fst node]\<rparr>"
  | n where "u_url n = u_url (snd node)" "put_final (fst node, n) a = Inr b"
proof (cases "u_url (snd node) = []")
  case True
  then have "b = a\<lparr>pa_deleted := pa_deleted a @ [fst node]\<rparr>" using assms delete_page_result by (auto simp: add_made_def)
  then show thesis by (rule that(1))
next
  case False
  then obtain ty n where n: "inherit_from (pa_father a) ((snd node)\<lparr>u_id := u_id (pa_father a), u_type := ty\<rparr>) = Inr n"
    "put_final (fst node, n\<lparr>u_nextpage := 2\<rparr>) a = Inr b" using assms by (auto simp: add_made_def bind_r_eq_Inr)
  show thesis by (rule that(2) [OF _ n(2)]) (use inherit_same [OF n(1)] in \<open>simp add: same_page_def\<close>)
qed

text \<open>
  The final pages are kept under their addresses, and have the numbers from \<open>k\<close> up to the one the father is at; the other pages are lists or home
  pages.
\<close>

definition pages_ok :: "int \<Rightarrow> pageacc \<Rightarrow> bool" where
  "pages_ok k a \<longleftrightarrow> distinct (map fst (pa_final a)) \<and> list_all (\<lambda>(url, p, n). url = u_url n) (pa_final a)
     \<and> mset (map (u_page \<circ> snd \<circ> snd) (pa_final a)) = mset (map (\<lambda>i. k + int i) [0..<length (pa_final a)])
     \<and> u_page (pa_father a) = k + int (length (pa_final a))
     \<and> list_all (\<lambda>(p, n). u_type n AND (URL_TYPE_LISTPAGE OR URL_TYPE_HOMEPAGE) \<noteq> 0) (pa_others a)"

definition step_ok :: "int \<Rightarrow> nat multiset \<Rightarrow> pageacc \<Rightarrow> pageacc \<Rightarrow> bool" where
  "step_ok k ps a b \<longleftrightarrow> owned b = ps + owned a \<and> length (pa_final b) \<le> length (pa_final a) + size ps
     \<and> (pages_ok k a \<and> - (2 ^ 31) \<le> k \<and> k + int (length (pa_final a) + size ps) < 2 ^ 31 \<longrightarrow> pages_ok k b)"

lemma step_ok_refl: "step_ok k {#} a a"
  by (simp add: step_ok_def)

lemma step_ok_trans: "step_ok k ps a b \<Longrightarrow> step_ok k qs b c \<Longrightarrow> step_ok k (qs + ps) a c"
  unfolding step_ok_def by (auto simp: ac_simps)

lemma deleted_ok: "step_ok k {#p#} a (a\<lparr>pa_deleted := pa_deleted a @ [p]\<rparr>)"
  by (simp add: step_ok_def owned_def pages_ok_def)

lemma delete_page_ok: "delete_page node a = Inr b \<Longrightarrow> step_ok k {#fst node#} a b"
  by (drule delete_page_result) (simp add: deleted_ok)

lemma distinct_put_sorted: "map_of m k = None \<Longrightarrow> distinct (map fst (put_sorted k v m)) \<longleftrightarrow> distinct (map fst m)"
proof -
  assume m: "map_of m k = None"
  then have "mset (map fst (put_sorted k v m)) = add_mset k (mset (map fst m))" using mset_put_sorted [of m k fst v] by simp
  then have "mset (map fst (put_sorted k v m)) = mset (k # map fst m)" by simp
  then have "distinct (map fst (put_sorted k v m)) \<longleftrightarrow> distinct (k # map fst m)" by (rule mset_eq_imp_distinct_iff)
  then show ?thesis using m by (simp add: map_of_eq_None_iff)
qed

lemma set_put_sorted: "map_of m k = None \<Longrightarrow> set (put_sorted k v m) = insert (k, v) (set m)"
  by (induction k v m rule: put_sorted.induct) auto

lemma length_put_sorted: "map_of m k = None \<Longrightarrow> length (put_sorted k v m) = Suc (length m)"
  by (induction k v m rule: put_sorted.induct) auto

lemma put_final_ok: "put_final node a = Inr b \<Longrightarrow> step_ok k {#fst node#} a b"
proof (erule put_final_cases)
  let ?url = "u_url (snd node)" and ?n = "u_page (pa_father a)"
  assume new: "map_of (pa_final a) ?url = None"
    and b: "b = a\<lparr>pa_final := put_sorted ?url (fst node, (snd node)\<lparr>u_page := ?n\<rparr>) (pa_final a), pa_father := (pa_father a)\<lparr>u_page := to_int (?n + 1)\<rparr>\<rparr>"
  have "owned b = add_mset (fst node) (owned a)" using mset_put_sorted [OF new, of "fst \<circ> snd"] by (simp add: b owned_def)
  moreover have "pages_ok k b" if ok: "pages_ok k a" and k: "- (2 ^ 31) \<le> k" "k + int (length (pa_final a) + 1) < 2 ^ 31"
  proof -
    have n: "?n = k + int (length (pa_final a))" using ok by (simp add: pages_ok_def)
    have "mset (map (u_page \<circ> snd \<circ> snd) (pa_final b)) = add_mset ?n (mset (map (u_page \<circ> snd \<circ> snd) (pa_final a)))"
      using mset_put_sorted [OF new, of "u_page \<circ> snd \<circ> snd"] by (simp add: b)
    moreover have "length (pa_final b) = Suc (length (pa_final a))" using length_put_sorted [OF new] by (simp add: b)
    moreover have "to_int (?n + 1) = ?n + 1" using k n by (intro to_int_id) auto
    moreover have "distinct (map fst (pa_final b))" "list_all (\<lambda>(url, p, n). url = u_url n) (pa_final b)"
      using ok distinct_put_sorted [OF new] set_put_sorted [OF new] by (auto simp: b pages_ok_def list_all_iff)
    ultimately show ?thesis using ok n by (simp add: pages_ok_def b)
  qed
  ultimately show ?thesis using length_put_sorted [OF new] by (simp add: step_ok_def b)
qed (simp add: deleted_ok)

lemma add_made_ok: "add_made cfg t node a = Inr b \<Longrightarrow> step_ok k {#fst node#} a b"
  by (erule add_made_cases) (use deleted_ok put_final_ok in fastforce)+

lemma user_between_page: "user_between front back url u = Inr v \<Longrightarrow> u_page v = u_page u \<and> u_type v = u_type u"
  by (auto simp: user_between_def bind_r_eq_Inr copyusername_def split: option.splits)

lemma GetUserName_page: "GetUserName url u n n1 n2 = Inr (v, m, m1, m2) \<Longrightarrow> u_page v = u_page u \<and> u_type v = u_type u"
  by (auto simp: GetUserName_def Let_def bind_r_eq_Inr dest!: user_between_page split: if_splits)

lemma made_pages_ok:
  assumes "made_pages cfg t junk (p, p1, p2) a = Inr (m, b)"
  shows "step_ok k (if u_type (pa_father a) AND URL_TYPE_LISTPAGE \<noteq> 0 then {#p, p1, p2#} else {#}) a b"
proof (cases "u_type (pa_father a) AND URL_TYPE_LISTPAGE = 0")
  case True
  then show ?thesis using assms step_ok_refl by (simp add: made_pages_def)
next
  case False
  let ?f = "(pa_father a)\<lparr>u_nextpage := 2\<rparr>"
  obtain f n n1 n2 a1 a2 where g: "GetUserName (u_url ?f) ?f (UrlNode0 junk) (UrlNode0 junk) (UrlNode0 junk) = Inr (f, n, n1, n2)"
    and s: "add_made cfg t (p, n) (a\<lparr>pa_father := f\<rparr>) = Inr a1" "add_made cfg t (p1, n1) a1 = Inr a2" "add_made cfg t (p2, n2) a2 = Inr b"
    using assms False by (auto simp: made_pages_def Let_def bind_r_eq_Inr)
  have "step_ok k {#} a (a\<lparr>pa_father := f\<rparr>)" using GetUserName_page [OF g] by (simp add: step_ok_def owned_def pages_ok_def)
  from step_ok_trans [OF step_ok_trans [OF step_ok_trans [OF this add_made_ok [OF s(1)]] add_made_ok [OF s(2)]] add_made_ok [OF s(3)]]
  show ?thesis using False by (simp add: add_mset_commute)
qed

lemma keep_page_ok:
  assumes "keep_page t node a = Inr b" "t_sourcetype t \<noteq> SOURCE_TYPE_TOPIC"
  shows "step_ok k {#fst node#} a b"
proof -
  have "step_ok k {#fst node#} a (a\<lparr>pa_others := pa_others a @ [node]\<rparr>)" if "u_type (snd node) AND (URL_TYPE_LISTPAGE OR URL_TYPE_HOMEPAGE) \<noteq> 0"
    using that by (cases node) (simp add: step_ok_def owned_def pages_ok_def)
  then show ?thesis using assms delete_page_ok [of node a b] put_final_ok [of node a b] by (auto simp: keep_page_def Let_def split: if_splits)
qed

lemma classify_ok:
  assumes "classify cfg t no_need m node a = Inr b" "t_sourcetype t \<noteq> SOURCE_TYPE_TOPIC"
  shows "step_ok k {#fst node#} a b"
proof -
  obtain n where "delete_page (fst node, n) a = Inr b \<or> keep_page t (fst node, n) a = Inr b"
  proof -
    obtain new where e: "(if no_need \<and> u_type new = u_type (pa_father a) then delete_page (fst node, new) a
      else if u_type new AND URL_TYPE_NEEDTOADDNEW \<noteq> 0
      then bind_r (inherit_from (pa_father a) (company_page t m (pa_father a) new)) (\<lambda>new. keep_page t (fst node, new) a)
      else delete_page (fst node, new) a) = Inr b"
      using assms(1) unfolding classify_def Let_def bind_r_eq_Inr by (elim exE conjE)
    show thesis
    proof (cases "(no_need \<and> u_type new = u_type (pa_father a)) \<or> u_type new AND URL_TYPE_NEEDTOADDNEW = 0")
      case True
      then have "delete_page (fst node, new) a = Inr b" using e by (simp split: if_splits)
      then show thesis by (intro that disjI1)
    next
      case False
      then have "bind_r (inherit_from (pa_father a) (company_page t m (pa_father a) new)) (\<lambda>new. keep_page t (fst node, new) a) = Inr b"
        using e by (simp only: de_Morgan_disj if_False if_True not_not not_False_eq_True)
      then obtain n where "keep_page t (fst node, n) a = Inr b" unfolding bind_r_eq_Inr by (elim exE conjE)
      then show thesis by (intro that disjI2)
    qed
  qed
  then show ?thesis using delete_page_ok [of "(fst node, n)"] keep_page_ok [OF _ assms(2), of "(fst node, n)"] by auto
qed

lemma each_page_ok:
  assumes "\<And>node a b. f node a = Inr b \<Longrightarrow> step_ok k {#fst node#} a b"
  shows "each_page f nodes a = Inr b \<Longrightarrow> step_ok k (mset (map fst nodes)) a b"
proof (induction nodes arbitrary: a)
  case (Cons node nodes)
  then obtain c where "f node a = Inr c" "each_page f nodes c = Inr b" by (auto simp: bind_r_eq_Inr)
  then show ?case using step_ok_trans [OF assms Cons.IH, of node a c] by simp
qed (simp add: step_ok_refl)

lemma onfind_all_ids: "onfind_all untag father nums junk fs n = Inr (urls, n') \<Longrightarrow> map fst urls = map fst fs"
  by (induction fs arbitrary: n urls) (auto simp: bind_r_eq_Inr)

lemma sort_out_ok:
  assumes "sort_out cfg t no_need junk (p, p1, p2) urls a nextpageurl = Inr (n, b)"
    "\<forall>t'. t = Some t' \<longrightarrow> t_sourcetype t' \<noteq> SOURCE_TYPE_TOPIC"
  shows "step_ok k (mset (map fst urls) + (if looks_at (pa_father a) t \<and> u_type (pa_father a) AND URL_TYPE_LISTPAGE \<noteq> 0 then {#p, p1, p2#} else {#})) a b"
proof -
  have del: "each_page delete_page urls a = Inr b \<Longrightarrow> step_ok k (mset (map fst urls)) a b"
    using each_page_ok [where f = delete_page] delete_page_ok by blast
  show ?thesis
  proof (cases "looks_at (pa_father a) t")
    case False
    then have "each_page delete_page urls a = Inr b"
      using assms(1) by (auto simp: sort_out_def Let_def bind_r_eq_Inr looks_at_def split: if_splits option.splits)
    then show ?thesis using del False by simp
  next
    case True
    then obtain t' where t: "t = Some t'" by (auto simp: looks_at_def split: option.splits)
    obtain m c where m: "made_pages cfg (Some t') junk (p, p1, p2) a = Inr (m, c)" "each_page (classify cfg t' no_need m) urls c = Inr b"
      using assms(1) True by (auto simp: sort_out_def Let_def bind_r_eq_Inr looks_at_def t split: if_splits)
    have "step_ok k (mset (map fst urls)) c b"
      using each_page_ok [where f = "classify cfg t' no_need m"] classify_ok m(2) assms(2) t by blast
    from step_ok_trans [OF made_pages_ok [OF m(1)] this] show ?thesis using True by simp
  qed
qed

lemma hand_over_ids: "hand_over cfg t f nodes = Inr (is, ds) \<Longrightarrow> (\<And>node. fst (f node) = fst node) \<Longrightarrow> mset (map fst is) + mset ds = mset (map fst nodes)"
proof (induction nodes arbitrary: "is" ds)
  case (Cons node nodes)
  have n: "fst (f node) = fst node" by (rule Cons.prems(2))
  obtain i d is' ds' where h: "hand_over cfg t f nodes = Inr (is', ds')" "is = i @ is'" "ds = d @ ds'"
    "if ignored cfg t (snd node) then i = [] \<and> d = [fst node] else i = [f node] \<and> d = []"
    using Cons.prems(1) by (auto simp: bind_r_eq_Inr split: if_splits)
  then show ?case using Cons.IH [OF h(1) Cons.prems(2)] by (auto simp: n split: if_splits)
qed simp

lemma hand_over_some: "hand_over cfg t f nodes = Inr (is, ds) \<Longrightarrow> is = map f (filter (\<lambda>node. \<not> ignored cfg t (snd node)) nodes)"
  by (induction nodes arbitrary: "is" ds) (auto simp: bind_r_eq_Inr split: if_splits)

lemma analysed:
  assumes "analyseUrls cfg untag t no_need junk (p, p1, p2) father fs contentlen nextpageurl = Inr (r, nx, f', ins, del)" "contentlen \<noteq> 0"
    "\<forall>t'. t = Some t' \<longrightarrow> t_sourcetype t' \<noteq> SOURCE_TYPE_TOPIC"
  obtains a i1 d1 i2 d2 where
    "step_ok (u_page father) (mset (map fst fs) + (if looks_at father t \<and> u_type father AND URL_TYPE_LISTPAGE \<noteq> 0 then {#p, p1, p2#} else {#}))
       \<lparr>pa_father = father, pa_final = [], pa_others = [], pa_deleted = []\<rparr> a"
    "hand_over cfg t (insert_final (u_page f')) (map snd (pa_final a)) = Inr (i1, d1)" "hand_over cfg t insert_other (pa_others a) = Inr (i2, d2)"
    "ins = i1 @ i2" "del = pa_deleted a @ d1 @ d2" "u_page f' = u_page (pa_father a)"
proof -
  obtain urls n n' a i1 d1 i2 d2 f where e: "extractUrlsFromContent untag father junk fs nextpageurl = Inr (urls, n)"
    "sort_out cfg t no_need junk (p, p1, p2) urls \<lparr>pa_father = father, pa_final = [], pa_others = [], pa_deleted = []\<rparr> n = Inr (n', a)"
    "f = (let u = pa_father a in if u_type u AND URL_TYPE_LISTPAGE \<noteq> 0 then u\<lparr>u_totalpage := u_page u\<rparr> else u)"
    "hand_over cfg t (insert_final (u_page f)) (map snd (pa_final a)) = Inr (i1, d1)" "hand_over cfg t insert_other (pa_others a) = Inr (i2, d2)"
    "f' = f" "ins = i1 @ i2" "del = pa_deleted a @ d1 @ d2"
    using assms(1,2) by (auto simp: analyseUrls_def Let_def bind_r_eq_Inr)
  have "map fst urls = map fst fs" using e(1) onfind_all_ids by (auto simp: extractUrlsFromContent_def bind_r_eq_Inr)
  then have "step_ok (u_page father) (mset (map fst fs) + (if looks_at father t \<and> u_type father AND URL_TYPE_LISTPAGE \<noteq> 0 then {#p, p1, p2#} else {#}))
       \<lparr>pa_father = father, pa_final = [], pa_others = [], pa_deleted = []\<rparr> a"
    using sort_out_ok [OF e(2) assms(3), of "u_page father"] by simp
  moreover have "u_page f' = u_page (pa_father a)" using e(3,6) by (simp add: Let_def)
  ultimately show thesis using e(4,5,6,7,8) by (intro that) simp_all
qed

text \<open>
  C27. No address is lost and none handled twice: unless the task is a topic, every node made of an address of the page, and of a user name, is either given
  to the queues or deleted, exactly once.
\<close>

theorem every_address_once:
  assumes "analyseUrls cfg untag t no_need junk (p, p1, p2) father fs contentlen nextpageurl = Inr (r, nx, f', ins, del)" "contentlen \<noteq> 0"
    "\<forall>t'. t = Some t' \<longrightarrow> t_sourcetype t' \<noteq> SOURCE_TYPE_TOPIC"
  shows "mset (map fst ins) + mset del =
    mset (map fst fs) + (if looks_at father t \<and> u_type father AND URL_TYPE_LISTPAGE \<noteq> 0 then {#p, p1, p2#} else {#})"
proof -
  obtain a i1 d1 i2 d2 where
    s: "step_ok (u_page father) (mset (map fst fs) + (if looks_at father t \<and> u_type father AND URL_TYPE_LISTPAGE \<noteq> 0 then {#p, p1, p2#} else {#}))
       \<lparr>pa_father = father, pa_final = [], pa_others = [], pa_deleted = []\<rparr> a"
    and h: "hand_over cfg t (insert_final (u_page f')) (map snd (pa_final a)) = Inr (i1, d1)" "hand_over cfg t insert_other (pa_others a) = Inr (i2, d2)"
    and e: "ins = i1 @ i2" "del = pa_deleted a @ d1 @ d2" by (rule analysed [OF assms])
  have "mset (map fst i1) + mset d1 = mset (map fst (map snd (pa_final a)))" by (rule hand_over_ids [OF h(1)]) (simp add: insert_final_def)
  moreover have "mset (map fst i2) + mset d2 = mset (map fst (pa_others a))" by (rule hand_over_ids [OF h(2)]) (simp add: insert_other_def)
  moreover have "mset (map fst ins) + mset del = (mset (map fst i1) + mset d1) + (mset (map fst i2) + mset d2) + mset (pa_deleted a)"
    by (simp add: e ac_simps)
  ultimately have "mset (map fst ins) + mset del = owned a" by (simp add: owned_def)
  then show ?thesis using s by (simp add: step_ok_def owned_def)
qed


text \<open>A list page with two links to a final page, one to a list, and one that is neither.\<close>

definition demo_father :: urlnode where
  "demo_father = \<lparr>u_url = bytes_of ''http://h/l'', u_username = [], u_fatherurl = [], u_refererurl = [], u_title = [], u_topicsource = [],
     u_taskid = 7, u_other = None, u_type = 34, u_errornum = 0, u_id = 5, u_page = 1, u_maxtype = -1, u_layerid = 1, u_bbsid = -1,
     u_needtologin = False, u_redirectnum = 0, u_taskbatch = 3, u_task = 1, u_nextpage = 1, u_ipnum = 0, u_nowpage = 1, u_totalpage = 1,
     u_html = [], u_keyid = 0, u_searchid = 0, u_fetched_page = 0, u_onepage = [], u_sqlite_id = 0\<rparr>"

definition demo_list_task :: task where
  "demo_list_task = \<lparr>t_id = 7, t_name = [], t_host = [], t_industry = [], t_homeurl = bytes_of ''http://h/h'', t_pageurl = bytes_of ''http://h/l'',
     t_sourcestate0 = 49, t_sourcestate1 = 49, t_loginurl = [], t_ultimatepageurl = bytes_of ''http://h/f'', t_bbsultimatepageurl = [],
     t_ignoreurl = bytes_of ''-'', t_tasksendtype = 0, timeToFetch = 0, lastFetchNum = 0, t_interval = 0, currentInterval = 0,
     t_sourcetype = SOURCE_TYPE_INFO, t_depth = 3, t_intervalauto0 = 0, t_noaccessInterval = 0, t_intxt = []\<rparr>"

definition demo_cfg :: pagecfg where
  "demo_cfg = \<lparr>pc_rx = \<lambda>url pat. Some (prefix pat url), pc_urltemplate = [], pc_maxlist = 5, pc_maxfinal = 5\<rparr>"

definition demo_links :: "(nat \<times> found) list" where
  "demo_links = map (\<lambda>(p, u). (p, \<lparr>f_buff = bytes_of u, f_anchor = None\<rparr>))
     [(10, ''http://h/f2''), (11, ''http://h/l3''), (12, ''http://h/f2''), (13, ''http://h/x''), (14, ''http://h/f1'')]"

definition demo_analysis :: "(int \<times> bytes \<times> urlnode \<times> insertion list \<times> nat list) result" where
  "demo_analysis = analyseUrls demo_cfg (\<lambda>t. t) (Some demo_list_task) False demo_father (1, 2, 3) demo_father demo_links 100 []"

lemma demo_analysed:
  "case demo_analysis of Inl _ \<Rightarrow> False | Inr (r, nx, f, ins, del) \<Rightarrow>
     map (\<lambda>(p, n, back). (p, u_url n, u_page n, u_totalpage n, back)) ins =
       [(14, bytes_of ''http://h/f1'', 2, 3, True), (10, bytes_of ''http://h/f2'', 1, 3, True), (11, bytes_of ''http://h/l3'', 1, 1, True)]
     \<and> del = [1, 2, 3, 12, 13]"
  by code_simp

lemma demo_result: "\<exists>r nx f ins del. demo_analysis = Inr (r, nx, f, ins, del)"
proof (cases demo_analysis)
  case (Inl e)
  have False using demo_analysed unfolding Inl sum.case .
  then show ?thesis ..
next
  case (Inr x)
  moreover obtain r nx f ins del where "x = (r, nx, f, ins, del)" by (cases x)
  ultimately show ?thesis by blast
qed

theorem every_address_once_witness:
  "\<exists>r nx f ins del. demo_analysis = Inr (r, nx, f, ins, del) \<and> mset (map fst ins) + mset del = {#10, 11, 12, 13, 14#} + {#1, 2, 3#}"
proof -
  obtain r nx f ins del where d: "demo_analysis = Inr (r, nx, f, ins, del)" using demo_result by blast
  have t: "t_sourcetype demo_list_task \<noteq> SOURCE_TYPE_TOPIC" "looks_at demo_father (Some demo_list_task)" "u_type demo_father AND URL_TYPE_LISTPAGE \<noteq> 0"
    "map fst demo_links = [10, 11, 12, 13, 14]" by code_simp+
  have "mset (map fst ins) + mset del = mset (map fst demo_links) + {#1, 2, 3#}"
    using every_address_once [OF d [unfolded demo_analysis_def]] t by simp
  then have "mset (map fst ins) + mset del = {#10, 11, 12, 13, 14#} + {#1, 2, 3#}" unfolding t(4) by simp
  then show ?thesis using d by blast
qed


end
