(* ===== verification/UrlPath.thy ===== *)
theory UrlPath
  imports UrlParse
begin

text \<open>
  What \<open>normalizePath\<close> makes of a path. A path is seen as its segments, the texts between the slashes; each loop of the
  routine is an operation on the list of segments, and the end of the path before a \<open>'?'\<close> is known or lost on the way.
\<close>

section \<open>Segments\<close>

definition join_segs :: "bytes list \<Rightarrow> bytes" where
  "join_segs segs = concat (map ((#) 47) segs)"

lemma join_segs_simps [simp]:
  "join_segs [] = []" "join_segs (s # segs) = 47 # s @ join_segs segs" "join_segs (as @ bs) = join_segs as @ join_segs bs"
  by (simp_all add: join_segs_def)

lemma join_segs_empty [simp]: "join_segs segs = [] \<longleftrightarrow> segs = []"
  by (cases segs) simp_all

fun segs_of :: "bytes \<Rightarrow> bytes list" where
  "segs_of [] = [[]]"
| "segs_of (c # s) = (if c = 47 then [] # segs_of s else (c # hd (segs_of s)) # tl (segs_of s))"

lemma segs_of_nonempty [simp]: "segs_of s \<noteq> []"
  by (induction s) simp_all

lemma segs_of_no_slash: "x \<in> set (segs_of s) \<Longrightarrow> 47 \<notin> set x"
proof (induction s arbitrary: x)
  case (Cons c s)
  then show ?case by (cases "segs_of s") (auto split: if_splits)
qed simp

lemma segs_of_chars: "x \<in> set (segs_of s) \<Longrightarrow> set x \<subseteq> set s"
proof (induction s arbitrary: x)
  case (Cons c s)
  then show ?case by (cases "segs_of s") (fastforce split: if_splits)+
qed simp

lemma join_segs_of: "join_segs (segs_of s) = 47 # s"
proof (induction s)
  case (Cons c s)
  then show ?case by (cases "segs_of s") auto
qed simp

text \<open>Segments without slashes and question marks.\<close>

abbreviation plain :: "bytes \<Rightarrow> bool" where
  "plain s \<equiv> 47 \<notin> set s \<and> 63 \<notin> set s"

lemma find_join:
  "47 \<notin> set s \<Longrightarrow> find_sub (47 # y) (47 # s @ r) = (if prefix y (s @ r) then Some 0 else map_option ((+) (Suc (length s))) (find_sub (47 # y) r))"
proof -
  have *: "47 \<notin> set s \<Longrightarrow> find_sub (47 # y) (s @ r) = map_option ((+) (length s)) (find_sub (47 # y) r)"
    by (induction s) (cases "find_sub (47 # y) r"; auto)+
  assume "47 \<notin> set s"
  then show ?thesis using * by (cases "find_sub (47 # y) r") simp_all
qed

text \<open>The first segment with a beginning \<open>y\<close>, and the first inner segment that is \<open>x\<close>.\<close>

lemma prefix_seg: "47 \<notin> set y \<Longrightarrow> prefix y (s @ join_segs rest) \<longleftrightarrow> prefix y s"
proof -
  assume y: "47 \<notin> set y"
  have "prefix y s" if p: "prefix y (s @ join_segs rest)"
  proof (rule ccontr)
    assume "\<not> prefix y s"
    then obtain ys where ys: "y = s @ ys" "prefix ys (join_segs rest)"
      using p by (auto simp: prefix_append)
    then show False using y \<open>\<not> prefix y s\<close> by (cases rest; cases ys) auto
  qed
  then show ?thesis by (auto intro: prefix_prefix)
qed

lemma find_beginning:
  assumes "47 \<notin> set y" "\<forall>s\<in>set (as @ s # bs). 47 \<notin> set s" "\<forall>a\<in>set as. \<not> prefix y a" "prefix y s"
  shows "find_sub (47 # y) (join_segs (as @ s # bs)) = Some (length (join_segs as))"
  using assms
proof (induction as)
  case Nil
  then show ?case by (simp add: prefix_seg)
next
  case (Cons a as)
  have p: "\<not> prefix y (a @ join_segs (as @ s # bs))" using Cons.prems prefix_seg [of y a "as @ s # bs"] by simp
  show ?case using Cons p find_join [of a y "join_segs (as @ s # bs)"] by simp
qed

lemma find_no_beginning:
  "47 \<notin> set y \<Longrightarrow> \<forall>s\<in>set segs. 47 \<notin> set s \<and> \<not> prefix y s \<Longrightarrow> find_sub (47 # y) (join_segs segs) = None"
proof (induction segs)
  case (Cons a as)
  then show ?case using find_join [of a y "join_segs as"] prefix_seg [of y a as] by simp
qed simp

lemma prefix_whole_seg: "47 \<notin> set x \<Longrightarrow> 47 \<notin> set s \<Longrightarrow> prefix (x @ [47]) (s @ join_segs rest) \<longleftrightarrow> s = x \<and> rest \<noteq> []"
proof (induction x arbitrary: s)
  case Nil
  then show ?case by (cases s; cases rest) auto
next
  case (Cons c x)
  then show ?case by (cases s; cases rest) auto
qed

lemma find_inner:
  assumes "47 \<notin> set x" "\<forall>s\<in>set (as @ x # bs). 47 \<notin> set s" "x \<notin> set as" "bs \<noteq> []"
  shows "find_sub (47 # x @ [47]) (join_segs (as @ x # bs)) = Some (length (join_segs as))"
  using assms
proof (induction as)
  case Nil
  then show ?case using prefix_whole_seg [of x x bs] by simp
next
  case (Cons a as)
  have p: "\<not> prefix (x @ [47]) (a @ join_segs (as @ x # bs))" using Cons.prems prefix_whole_seg [of x a "as @ x # bs"] by auto
  show ?case using Cons p find_join [of a "x @ [47]" "join_segs (as @ x # bs)"] by simp
qed

lemma find_no_inner:
  "47 \<notin> set x \<Longrightarrow> \<forall>s\<in>set segs. 47 \<notin> set s \<Longrightarrow> x \<notin> set (butlast segs) \<Longrightarrow> find_sub (47 # x @ [47]) (join_segs segs) = None"
proof (induction segs)
  case (Cons a as)
  have p: "\<not> prefix (x @ [47]) (a @ join_segs as)" using Cons.prems prefix_whole_seg [of x a as] by (auto split: if_splits)
  show ?case using Cons p find_join [of a "x @ [47]" "join_segs as"] by (auto split: if_splits)
qed simp

lemma split_inner: "x \<in> set (butlast segs) \<Longrightarrow> \<exists>as bs. segs = as @ x # bs \<and> x \<notin> set as \<and> bs \<noteq> []"
proof -
  assume x: "x \<in> set (butlast segs)"
  then obtain as bs where "butlast segs = as @ x # bs" "x \<notin> set as" by (meson split_list_first)
  moreover have "segs = butlast segs @ [last segs]" using x by (cases segs) auto
  ultimately show ?thesis by (metis append.assoc append_Cons append_is_Nil_conv not_Cons_self2)
qed

section \<open>The end of the path\<close>

text \<open>
  A path \<open>p\<close> with a query \<open>q\<close>. Its end is known at the start, and is known for good when there is a query.
\<close>

definition path_end :: "bool \<Rightarrow> bytes \<Rightarrow> bytes \<Rightarrow> nat option" where
  "path_end known p q = (if known \<or> q \<noteq> [] then Some (length p) else None)"

abbreviation query :: "bytes \<Rightarrow> bool" where
  "query q \<equiv> q = [] \<or> hd q = 63"

lemma find_append: "find_sub pat p = Some i \<Longrightarrow> find_sub pat (p @ q) = Some i"
proof -
  assume f: "find_sub pat p = Some i"
  note d = find_subD [OF f]
  show ?thesis
  proof (rule find_subI)
    show "prefix pat (drop i (p @ q))" using d by (auto intro: prefix_prefix)
    fix j assume j: "j < i"
    show "\<not> prefix pat (drop j (p @ q))"
    proof
      assume a: "prefix pat (drop j (p @ q))"
      have "length pat \<le> length (drop j p)" "j \<le> length p" using j d by auto
      then have "prefix pat (drop j p)"
        using a prefix_length_prefix [of pat "drop j (p @ q)" "drop j p"] by simp
      then show False using d j by blast
    qed
  qed (use d in simp)
qed

lemma find_behind:
  assumes "63 \<notin> set pat" "query q" "find_sub pat p = None" "find_sub pat (p @ q) = Some i"
  shows "q \<noteq> [] \<and> length p \<le> i"
proof
  show "q \<noteq> []" using assms by auto
  show "length p \<le> i"
  proof (rule ccontr)
    assume i: "\<not> length p \<le> i"
    then have "prefix pat (drop i p @ q)" using find_subD [OF assms(4)] by simp
    moreover have n: "\<not> prefix pat (drop i p)" using assms(3) i find_sub_None [of pat p] by auto
    ultimately obtain us where us: "pat = drop i p @ us" "prefix us q" by (auto simp: prefix_append)
    then have "us \<noteq> []" using n by auto
    then have "63 \<in> set us" using us(2) assms(2) by (cases us; cases q) auto
    then show False using us(1) assms(1) by auto
  qed
qed

lemma query_pos_append: "63 \<notin> set p \<Longrightarrow> query q \<Longrightarrow> query_pos (p @ q) = path_end False p q"
proof (induction p)
  case Nil
  then show ?case by (cases q) (auto simp: query_pos_def path_end_def)
qed (auto simp: query_pos_def path_end_def)

lemma before_end:
  assumes "63 \<notin> set pat" "pat \<noteq> []" "query q"
  shows "find_sub pat p = Some i \<Longrightarrow> before i (path_end k p q)"
    and "find_sub pat p = None \<Longrightarrow> find_sub pat (p @ q) = Some i \<Longrightarrow> \<not> before i (path_end k p q)"
proof -
  have "i < length p" if "find_sub pat p = Some i" using find_subD [OF that] assms(2) by (cases pat) auto
  then show "find_sub pat p = Some i \<Longrightarrow> before i (path_end k p q)"
    by (auto simp: before_def path_end_def)
  show "find_sub pat p = None \<Longrightarrow> find_sub pat (p @ q) = Some i \<Longrightarrow> \<not> before i (path_end k p q)"
    using find_behind [OF assms(1,3), of p i] by (auto simp: before_def path_end_def)
qed

section \<open>The loops on segments\<close>

definition drop_inner :: "bytes \<Rightarrow> bytes list \<Rightarrow> bytes list" where
  "drop_inner x segs = [s \<leftarrow> butlast segs. s \<noteq> x] @ [last segs]"

text \<open>The segments from the left on a stack, from which \<open>..\<close> takes one away.\<close>

fun dots :: "bytes list \<Rightarrow> bytes list \<Rightarrow> bytes list" where
  "dots st [] = rev st"
| "dots st [x] = rev (x # st)"
| "dots st (x # y # ys) = (if x = [46, 46] then dots (tl st) (y # ys) else dots (x # st) (y # ys))"

definition end_dot :: "bool \<Rightarrow> bytes list \<Rightarrow> bytes list" where
  "end_dot known segs =
    (if known \<and> last segs = [46] \<and> list_all (\<lambda>s. \<not> prefix [46] s) (butlast segs) then butlast segs @ [[]] else segs)"

definition end_dotdot :: "bool \<Rightarrow> bytes list \<Rightarrow> bytes list" where
  "end_dotdot known segs =
    (if known \<and> last segs = [46, 46] \<and> list_all (\<lambda>s. \<not> prefix [46, 46] s) (butlast segs) then butlast (butlast segs) @ [[]] else segs)"

lemma cut_loop_step:
  assumes "find_sub pat p = Some i" "63 \<notin> set pat" "63 \<notin> set p" "query q" "0 < n" "n \<le> length pat"
  shows "cut_loop pat n (p @ q, path_end k p q) =
    cut_loop pat n ((take i p @ drop (i + n) p) @ q, path_end False (take i p @ drop (i + n) p) q)"
proof -
  have n: "pat \<noteq> []" using assms by auto
  have i: "i + length pat \<le> length p" using find_subD [OF assms(1)] by simp
  have "63 \<notin> set (take i p @ drop (i + n) p)" using assms(3) by (auto dest: in_set_takeD in_set_dropD)
  then show ?thesis
    using i assms query_pos_append [of "take i p @ drop (i + n) p" q] find_append [OF assms(1), of q] before_end(1) [OF assms(2) n assms(4,1), of k]
    by (simp add: cut_loop.simps [of pat n "p @ q"] Let_def)
qed

lemma cut_loop_stop:
  assumes "find_sub pat p = None" "63 \<notin> set pat" "pat \<noteq> []" "query q"
  shows "cut_loop pat n (p @ q, path_end k p q) = (p @ q, path_end k p q)"
  using before_end(2) [OF assms(2,3,4,1), of _ k] by (simp add: cut_loop.simps [of pat n "p @ q"] split: option.splits)

lemma no_query_join: "\<forall>s\<in>set segs. plain s \<Longrightarrow> 63 \<notin> set (join_segs segs)"
  by (induction segs) auto

lemma drop_inner_split: "bs \<noteq> [] \<Longrightarrow> drop_inner x (as @ x # bs) = drop_inner x (as @ bs)"
  by (simp add: drop_inner_def butlast_append)

lemma drop_inner_id: "segs \<noteq> [] \<Longrightarrow> x \<notin> set (butlast segs) \<Longrightarrow> drop_inner x segs = segs"
proof -
  assume "segs \<noteq> []" "x \<notin> set (butlast segs)"
  then have "[s \<leftarrow> butlast segs. s \<noteq> x] = butlast segs" by (auto simp: filter_id_conv)
  then show ?thesis using \<open>segs \<noteq> []\<close> by (simp add: drop_inner_def)
qed

lemma cut_inner:
  "segs \<noteq> [] \<Longrightarrow> \<forall>s\<in>set segs. plain s \<Longrightarrow> plain x \<Longrightarrow> query q \<Longrightarrow> pat = 47 # x @ [47] \<Longrightarrow> n = Suc (length x) \<Longrightarrow>
    cut_loop pat n (join_segs segs @ q, path_end k (join_segs segs) q) =
      (join_segs (drop_inner x segs) @ q, path_end (k \<and> x \<notin> set (butlast segs)) (join_segs (drop_inner x segs)) q)"
proof (induction "length segs" arbitrary: segs k rule: less_induct)
  case less
  have pat: "63 \<notin> set pat" "pat \<noteq> []" using less.prems by auto
  show ?case
  proof (cases "x \<in> set (butlast segs)")
    case True
    then obtain as bs where s: "segs = as @ x # bs" "x \<notin> set as" "bs \<noteq> []" using split_inner [OF True] by metis
    have f: "find_sub pat (join_segs segs) = Some (length (join_segs as))"
      using find_inner [of x as bs] s less.prems by auto
    have "cut_loop pat n (join_segs segs @ q, path_end k (join_segs segs) q) =
        cut_loop pat n (join_segs (as @ bs) @ q, path_end False (join_segs (as @ bs)) q)"
      using cut_loop_step [OF f pat(1) no_query_join [OF less.prems(2)] less.prems(4), of n k] s less.prems by simp
    also have "\<dots> = (join_segs (drop_inner x (as @ bs)) @ q, path_end False (join_segs (drop_inner x (as @ bs))) q)"
      using less.hyps [of "as @ bs" False] s less.prems by simp
    finally show ?thesis using True s by (simp add: drop_inner_split)
  next
    case False
    have "find_sub pat (join_segs segs) = None" using find_no_inner [OF _ _ False] less.prems by auto
    then show ?thesis using cut_loop_stop [OF _ pat less.prems(4)] False less.prems(1) by (simp add: drop_inner_id)
  qed
qed

lemma dots_append: "[46, 46] \<notin> set as \<Longrightarrow> bs \<noteq> [] \<Longrightarrow> dots st (as @ bs) = dots (rev as @ st) bs"
proof (induction as arbitrary: st)
  case (Cons a as)
  then obtain y ys where "as @ bs = y # ys" by (cases "as @ bs") auto
  moreover have "a \<noteq> [46, 46]" using Cons.prems by auto
  ultimately show ?case using Cons by simp
qed simp

lemma dots_split: "[46, 46] \<notin> set as \<Longrightarrow> bs \<noteq> [] \<Longrightarrow> dots [] (as @ [46, 46] # bs) = dots [] (butlast as @ bs)"
proof -
  assume a: "[46, 46] \<notin> set as" "bs \<noteq> []"
  have "tl (rev as) = rev (butlast as)" by (metis butlast_rev rev_rev_ident rev_is_rev_conv)
  moreover obtain y ys where "bs = y # ys" using a by (cases bs) auto
  moreover have "[46, 46] \<notin> set (butlast as)" using a by (auto dest: in_set_butlastD)
  ultimately show ?thesis using a dots_append [of as "[46, 46] # bs" "[]"] dots_append [of "butlast as" bs "[]"] by simp
qed

lemma dots_id: "[46, 46] \<notin> set (butlast segs) \<Longrightarrow> dots st segs = rev st @ segs"
  by (induction st segs rule: dots.induct) (auto split: if_splits)

lemma last_slash_join:
  assumes "as \<noteq> []" "\<forall>s\<in>set as. 47 \<notin> set s"
  shows "last_slash (length (join_segs as)) (join_segs as @ r) = Some (length (join_segs (butlast as)))"
proof -
  obtain as' a where a: "as = as' @ [a]" using assms(1) by (cases as rule: rev_cases) auto
  have "\<forall>x\<in>set (rev a). x \<noteq> 47" using assms(2) a by auto
  then have "takeWhile (\<lambda>x. x \<noteq> 47) (rev a @ 47 # rev (join_segs as')) = rev a"
    by (subst takeWhile_append2) auto
  then show ?thesis by (simp add: last_slash_def rfind_char_def a)
qed

lemma dotdot_loop_step:
  assumes "as \<noteq> []" "\<forall>s\<in>set (as @ [46, 46] # bs). plain s" "[46, 46] \<notin> set as" "bs \<noteq> []" "query q"
  shows "dotdot_loop (join_segs (as @ [46, 46] # bs) @ q) (path_end k (join_segs (as @ [46, 46] # bs)) q) =
    dotdot_loop (join_segs (butlast as @ bs) @ q) (path_end False (join_segs (butlast as @ bs)) q)"
proof -
  let ?p = "join_segs (as @ [46, 46] # bs)"
  have f: "find_sub [47, 46, 46, 47] ?p = Some (length (join_segs as))" using find_inner [of "[46, 46]" as bs] assms by auto
  have l: "last_slash (length (join_segs as)) (?p @ q) = Some (length (join_segs (butlast as)))"
    using last_slash_join [OF assms(1), of "join_segs ([46, 46] # bs) @ q"] assms(2) by simp
  have "join_segs as = join_segs (butlast as) @ join_segs [last as]" using assms(1) by (metis append_butlast_last_id join_segs_simps(3))
  then have t: "take (length (join_segs (butlast as))) (?p @ q) = join_segs (butlast as)" by simp
  have d: "drop (length (join_segs as) + 3) (?p @ q) = join_segs bs @ q" by simp
  have q: "query_pos (join_segs (butlast as @ bs) @ q) = path_end False (join_segs (butlast as @ bs)) q"
    using assms(2) by (intro query_pos_append no_query_join assms(5)) (auto dest: in_set_butlastD)
  have "before (length (join_segs as)) (path_end k ?p q)" by (rule before_end(1) [OF _ _ assms(5) f]) simp_all
  then show ?thesis
    using assms(1) q unfolding dotdot_loop.simps [of "?p @ q"] find_append [OF f] option.case Let_def l t d by simp
qed

lemma dotdot_loop_first:
  assumes "\<forall>s\<in>set bs. plain s" "bs \<noteq> []" "query q"
  shows "dotdot_loop (join_segs ([46, 46] # bs) @ q) (path_end k (join_segs ([46, 46] # bs)) q) =
    dotdot_loop (join_segs bs @ q) (path_end False (join_segs bs) q)"
proof -
  have f: "find_sub [47, 46, 46, 47] (join_segs ([46, 46] # bs)) = Some 0" using find_inner [of "[46, 46]" "[]" bs] assms by auto
  have "before 0 (path_end k (join_segs ([46, 46] # bs)) q)" by (rule before_end(1) [OF _ _ assms(3) f]) simp_all
  moreover have "query_pos (join_segs bs @ q) = path_end False (join_segs bs) q" by (intro query_pos_append no_query_join assms)
  moreover have "drop (0 + 3) (join_segs ([46, 46] # bs) @ q) = join_segs bs @ q" by simp
  ultimately show ?thesis unfolding dotdot_loop.simps [of "join_segs ([46, 46] # bs) @ q"] find_append [OF f] option.case Let_def by simp
qed

lemma dotdot_segs:
  "segs \<noteq> [] \<Longrightarrow> \<forall>s\<in>set segs. plain s \<Longrightarrow> query q \<Longrightarrow>
    dotdot_loop (join_segs segs @ q) (path_end k (join_segs segs) q) =
      Some (join_segs (dots [] segs) @ q, path_end (k \<and> [46, 46] \<notin> set (butlast segs)) (join_segs (dots [] segs)) q)"
proof (induction "length segs" arbitrary: segs k rule: less_induct)
  case less
  show ?case
  proof (cases "[46, 46] \<in> set (butlast segs)")
    case True
    then obtain as bs where s: "segs = as @ [46, 46] # bs" "[46, 46] \<notin> set as" "bs \<noteq> []" using split_inner [OF True] by metis
    have "dotdot_loop (join_segs segs @ q) (path_end k (join_segs segs) q) =
        dotdot_loop (join_segs (butlast as @ bs) @ q) (path_end False (join_segs (butlast as @ bs)) q)"
      using dotdot_loop_step [of as bs q k] dotdot_loop_first [of bs q k] s less.prems by (cases "as = []") simp_all
    also have "\<dots> = Some (join_segs (dots [] (butlast as @ bs)) @ q, path_end False (join_segs (dots [] (butlast as @ bs))) q)"
    proof -
      have "length (butlast as @ bs) < length segs" "\<forall>s\<in>set (butlast as @ bs). plain s"
        using s less.prems by (auto dest: in_set_butlastD)
      then show ?thesis using less.hyps [of "butlast as @ bs" False] s less.prems by simp
    qed
    finally show ?thesis using True dots_split [OF s(2,3)] s(1) by simp
  next
    case False
    have f: "find_sub [47, 46, 46, 47] (join_segs segs) = None" using find_no_inner [OF _ _ False] less.prems by auto
    have "\<not> before i (path_end k (join_segs segs) q)" if "find_sub [47, 46, 46, 47] (join_segs segs @ q) = Some i" for i
      by (rule before_end(2) [OF _ _ less.prems(3) f that]) simp_all
    then show ?thesis using False by (simp add: dotdot_loop.simps [of "join_segs segs @ q"] dots_id split: option.splits)
  qed
qed

lemma split_beginning:
  "(\<exists>s\<in>set segs. prefix y s) \<Longrightarrow> \<exists>as s bs. segs = as @ s # bs \<and> prefix y s \<and> (\<forall>a\<in>set as. \<not> prefix y a)"
  using split_list_first_prop [of segs "prefix y"] by blast

text \<open>A step for the end of the path is taken only if no earlier segment begins with the same characters.\<close>

lemma end_found:
  assumes "segs \<noteq> []" "\<forall>s\<in>set segs. plain s" "plain y" "query q"
  shows "(\<exists>i. find_sub (47 # y) (join_segs segs @ q) = Some i \<and> path_end k (join_segs segs) q = Some (i + Suc (length y)))
    \<longleftrightarrow> (k \<or> q \<noteq> []) \<and> last segs = y \<and> list_all (\<lambda>s. \<not> prefix y s) (butlast segs)"
proof (cases "\<exists>s\<in>set segs. prefix y s")
  case True
  then obtain as s bs where s: "segs = as @ s # bs" "prefix y s" "\<forall>a\<in>set as. \<not> prefix y a" using split_beginning [OF True] by metis
  have f: "find_sub (47 # y) (join_segs segs) = Some (length (join_segs as))"
    unfolding s(1) using s assms by (intro find_beginning) auto
  have len: "length y \<le> length s" using s(2) by (rule prefix_length_le)
  have b: "length (join_segs bs) = 0 \<longleftrightarrow> bs = []" by simp
  have "length (join_segs segs) = length (join_segs as) + Suc (length y) \<longleftrightarrow> length s = length y \<and> bs = []"
    unfolding s(1) b [symmetric] join_segs_simps length_append list.size using len by arith
  moreover have "length s = length y \<longleftrightarrow> s = y" using s(2) by (auto simp: prefix_def)
  moreover have "last segs = y \<and> list_all (\<lambda>s. \<not> prefix y s) (butlast segs) \<longleftrightarrow> s = y \<and> bs = []"
  proof
    assume a: "last segs = y \<and> list_all (\<lambda>s. \<not> prefix y s) (butlast segs)"
    then have "bs = []" using s by (cases bs rule: rev_cases) (auto simp: butlast_append)
    then show "s = y \<and> bs = []" using a s by simp
  qed (use s in \<open>auto simp: list_all_iff\<close>)
  ultimately show ?thesis using find_append [OF f, of q] by (auto simp: path_end_def)
next
  case False
  then have f: "find_sub (47 # y) (join_segs segs) = None" using assms by (intro find_no_beginning) auto
  have "last segs \<noteq> y" using False assms(1) last_in_set [of segs] by auto
  moreover have "path_end k (join_segs segs) q \<noteq> Some (i + Suc (length y))" if "find_sub (47 # y) (join_segs segs @ q) = Some i" for i
    using find_behind [OF _ assms(4) f that] assms(3) by (auto simp: path_end_def)
  ultimately show ?thesis by auto
qed

lemma end_position:
  assumes "segs \<noteq> []" "find_sub (47 # y) (join_segs segs @ q) = Some i" "path_end k (join_segs segs) q = Some (i + Suc (length y))"
    "last segs = y"
  shows "i = length (join_segs (butlast segs))"
proof -
  have "length (join_segs segs) = length (join_segs (butlast segs)) + Suc (length y)"
    using assms(1,4) by (cases segs rule: rev_cases) simp_all
  then show ?thesis using assms(3) by (auto simp: path_end_def split: if_splits)
qed

lemma join_butlast: "segs \<noteq> [] \<Longrightarrow> join_segs segs = join_segs (butlast segs) @ 47 # last segs"
  by (cases segs rule: rev_cases) simp_all

lemma trailing_dot_segs:
  assumes "segs \<noteq> []" "\<forall>s\<in>set segs. plain s" "query q"
  shows "trailing_dot (join_segs segs @ q, path_end k (join_segs segs) q) =
    (let segs = end_dot (k \<or> q \<noteq> []) segs in (join_segs segs @ q, path_end k (join_segs segs) q))"
proof -
  let ?pe = "path_end k (join_segs segs) q"
  have e: "(\<exists>i. find_sub [47, 46] (join_segs segs @ q) = Some i \<and> ?pe = Some (i + 2)) \<longleftrightarrow>
      (k \<or> q \<noteq> []) \<and> last segs = [46] \<and> list_all (\<lambda>s. \<not> prefix [46] s) (butlast segs)"
    using end_found [OF assms(1,2) _ assms(3), of "[46]" k] by simp
  show ?thesis
  proof (cases "end_dot (k \<or> q \<noteq> []) segs = segs")
    case True
    then have "\<not> ((k \<or> q \<noteq> []) \<and> last segs = [46] \<and> list_all (\<lambda>s. \<not> prefix [46] s) (butlast segs))"
      using assms(1) by (auto simp: end_dot_def) (metis last_snoc list.distinct(1))+
    then have "\<not> (\<exists>i. find_sub [47, 46] (join_segs segs @ q) = Some i \<and> ?pe = Some (i + 2))" using e by simp
    then show ?thesis by (auto simp: True trailing_dot_def split: option.splits)
  next
    case False
    then have c: "k \<or> q \<noteq> []" "last segs = [46]" and segs': "end_dot (k \<or> q \<noteq> []) segs = butlast segs @ [[]]" and "list_all (\<lambda>s. \<not> prefix [46] s) (butlast segs)"
      by (auto simp: end_dot_def split: if_splits)
    then obtain i where i: "find_sub [47, 46] (join_segs segs @ q) = Some i" "?pe = Some (i + 2)" using e by auto
    then have "i = length (join_segs (butlast segs))" using end_position [of segs "[46]" q i k] assms(1) c by simp
    then show ?thesis
      using i c(1) unfolding trailing_dot_def prod.case i(1) option.case segs' join_butlast [OF assms(1)] c(2)
      by (auto simp: path_end_def)
  qed
qed

lemma trailing_dotdot_segs:
  assumes "segs \<noteq> []" "\<forall>s\<in>set segs. plain s" "query q"
  shows "\<exists>k'. trailing_dotdot (join_segs segs @ q, path_end k (join_segs segs) q) =
    (let segs = end_dotdot (k \<or> q \<noteq> []) segs in (join_segs segs @ q, path_end k' (join_segs segs) q))"
proof -
  let ?pe = "path_end k (join_segs segs) q"
  have e: "(\<exists>i. find_sub [47, 46, 46] (join_segs segs @ q) = Some i \<and> ?pe = Some (i + 3)) \<longleftrightarrow>
      (k \<or> q \<noteq> []) \<and> last segs = [46, 46] \<and> list_all (\<lambda>s. \<not> prefix [46, 46] s) (butlast segs)"
  proof -
    have "plain [46, 46]" by simp
    from end_found [OF assms(1,2) this assms(3), of k] show ?thesis by (simp add: numeral_3_eq_3)
  qed
  show ?thesis
  proof (cases "end_dotdot (k \<or> q \<noteq> []) segs = segs")
    case True
    then have "\<not> ((k \<or> q \<noteq> []) \<and> last segs = [46, 46] \<and> list_all (\<lambda>s. \<not> prefix [46, 46] s) (butlast segs))"
      using assms(1) by (auto simp: end_dotdot_def) (metis last_snoc list.distinct(1))+
    then have "\<not> (\<exists>i. find_sub [47, 46, 46] (join_segs segs @ q) = Some i \<and> ?pe = Some (i + 3))" using e by simp
    then have "trailing_dotdot (join_segs segs @ q, ?pe) = (join_segs segs @ q, ?pe)" by (auto simp: trailing_dotdot_def split: option.splits)
    then show ?thesis unfolding True Let_def by blast
  next
    case False
    then have c: "last segs = [46, 46]" and segs': "end_dotdot (k \<or> q \<noteq> []) segs = butlast (butlast segs) @ [[]]"
        and "k \<or> q \<noteq> []" "list_all (\<lambda>s. \<not> prefix [46, 46] s) (butlast segs)"
      by (auto simp: end_dotdot_def split: if_splits)
    then obtain i where i: "find_sub [47, 46, 46] (join_segs segs @ q) = Some i" "?pe = Some (i + 3)" using e by auto
    then have i': "i = length (join_segs (butlast segs))" using end_position [of segs "[46, 46]" q i k] assms(1) c by simp
    have d: "drop (i + 3) (join_segs segs @ q) = q" unfolding i' join_butlast [OF assms(1)] c by simp
    have q: "query_pos (join_segs (butlast (butlast segs) @ [[]]) @ q) = path_end False (join_segs (butlast (butlast segs) @ [[]])) q"
      using assms(2) by (intro query_pos_append no_query_join assms(3)) (auto dest!: in_set_butlastD)
    let ?front = "if 0 < i then (case last_slash i (join_segs segs @ q) of None \<Rightarrow> [] | Some limit \<Rightarrow> take (limit + 1) (join_segs segs @ q)) else [47]"
    have "?front = join_segs (butlast (butlast segs) @ [[]])"
    proof (cases "butlast segs = []")
      case True
      then show ?thesis using i' by simp
    next
      case nonempty: False
      have "\<forall>s\<in>set (butlast segs). 47 \<notin> set s" using assms(2) by (auto dest: in_set_butlastD)
      then have "last_slash i (join_segs segs @ q) = Some (length (join_segs (butlast (butlast segs))))"
        using last_slash_join [OF nonempty, of "47 # last segs @ q"] unfolding i' join_butlast [OF assms(1)] by simp
      then show ?thesis using i' nonempty unfolding join_butlast [OF assms(1)] join_butlast [OF nonempty] by simp
    qed
    then have "trailing_dotdot (join_segs segs @ q, ?pe) =
        (join_segs (butlast (butlast segs) @ [[]]) @ q, path_end False (join_segs (butlast (butlast segs) @ [[]])) q)"
      unfolding trailing_dotdot_def prod.case i(1) option.case Let_def d using i(2) q by simp
    then show ?thesis unfolding segs' Let_def by blast
  qed
qed

section \<open>\<open>%7E\<close>\<close>

text \<open>A character that is not in the pattern separates a text into parts that are searched and replaced on their own.\<close>

lemma prefix_sep: "c \<notin> set pat \<Longrightarrow> prefix pat (u @ c # r) \<longleftrightarrow> prefix pat u"
proof -
  assume c: "c \<notin> set pat"
  have "prefix pat u" if p: "prefix pat (u @ c # r)"
  proof (rule ccontr)
    assume "\<not> prefix pat u"
    moreover obtain ys where ys: "prefix pat u \<or> pat = u @ ys \<and> prefix ys (c # r)" using p by (auto simp: prefix_append)
    ultimately show False using c by (cases ys) auto
  qed
  then show ?thesis by (auto intro: prefix_prefix)
qed

lemma find_sep_None: "pat \<noteq> [] \<Longrightarrow> c \<notin> set pat \<Longrightarrow> find_sub pat (u @ c # r) = None \<longleftrightarrow> find_sub pat u = None \<and> find_sub pat r = None"
proof (induction u)
  case Nil
  then have "\<not> prefix pat (c # r)" using prefix_sep [of c pat "[]" r] by simp
  then show ?case using Nil by simp
next
  case (Cons a u)
  have "prefix pat (a # u @ c # r) \<longleftrightarrow> prefix pat (a # u)" using prefix_sep [of c pat "a # u" r] Cons.prems by simp
  then show ?case using Cons by simp
qed

lemma replace_all_sep:
  "pat \<noteq> [] \<Longrightarrow> c \<notin> set pat \<Longrightarrow> replace_all pat ds (u @ c # r) = replace_all pat ds u @ c # replace_all pat ds r"
proof (induction pat ds u rule: replace_all.induct)
  case (1 pat ds u)
  have p: "prefix pat (u @ c # r) \<longleftrightarrow> prefix pat u" using 1(4) by (rule prefix_sep)
  show ?case
  proof (cases u)
    case Nil
    then show ?thesis using p 1(3) by (simp add: replace_all.simps [of pat ds "c # r"] replace_all.simps [of pat ds "[]"])
  next
    case (Cons a t)
    then have u: "u \<noteq> []" by simp
    show ?thesis
    proof (cases "prefix pat u")
      case True
      then have "length pat \<le> length u" by (rule prefix_length_le)
      then show ?thesis using True p 1 u by (simp add: replace_all.simps [of pat ds "u @ c # r"] replace_all.simps [of pat ds u])
    next
      case False
      then show ?thesis using p 1 u by (simp add: replace_all.simps [of pat ds "u @ c # r"] replace_all.simps [of pat ds u])
    qed
  qed
qed

lemma replace_all_none: "pat \<noteq> [] \<Longrightarrow> find_sub pat u = None \<Longrightarrow> replace_all pat ds u = u"
  by (simp add: replace_all_find)

lemma find_take: "find_sub pat p = Some i \<Longrightarrow> pat \<noteq> [] \<Longrightarrow> find_sub pat (take i p) = None"
proof -
  assume f: "find_sub pat p = Some i" and n: "pat \<noteq> []"
  have "\<not> prefix pat (drop j (take i p))" for j
  proof
    assume a: "prefix pat (drop j (take i p))"
    have j: "j < i"
    proof (rule ccontr)
      assume "\<not> j < i"
      then show False using a n by simp
    qed
    have "prefix pat (drop j p)" using a by (metis append_take_drop_id drop_take prefix_prefix)
    then show False using find_subD [OF f] j by blast
  qed
  then show ?thesis by (simp add: find_sub_None)
qed

lemma replace_all_first:
  "find_sub pat p = Some i \<Longrightarrow> pat \<noteq> [] \<Longrightarrow> c \<notin> set pat \<Longrightarrow>
    replace_all pat [c] (take i p @ c # drop (i + length pat) p) = replace_all pat [c] p"
  by (simp add: replace_all_sep replace_all_none [OF _ find_take] replace_all_find [of pat "[c]" p])

lemma replace_all_leaves_none: "pat \<noteq> [] \<Longrightarrow> c \<notin> set pat \<Longrightarrow> find_sub pat (replace_all pat [c] p) = None"
proof (induction "length p" arbitrary: p rule: less_induct)
  case less
  show ?case
  proof (cases "find_sub pat p")
    case (Some i)
    have "length (drop (i + length pat) p) < length p" using find_subD [OF Some] less.prems by (cases pat) auto
    then show ?thesis
      using less find_take [OF Some] Some by (simp add: replace_all_find [of pat "[c]" p] find_sep_None)
  qed (simp add: replace_all_none less.prems)
qed

lemma tilde_loop_all:
  "63 \<notin> set p \<Longrightarrow> query q \<Longrightarrow> fst (tilde_loop (p @ q, path_end k p q)) = replace_all [37, 55, 69] [126] p @ q"
proof (induction "length p" arbitrary: p k rule: less_induct)
  case less
  show ?case
  proof (cases "find_sub [37, 55, 69] p")
    case None
    have "\<not> before i (path_end k p q)" if "find_sub [37, 55, 69] (p @ q) = Some i" for i
      by (rule before_end(2) [OF _ _ less.prems(2) None that]) simp_all
    then show ?thesis using None by (simp add: tilde_loop.simps [of "p @ q"] replace_all_none split: option.splits)
  next
    case (Some i)
    let ?p = "take i p @ 126 # drop (i + 3) p"
    have i: "i + 3 \<le> length p" using find_subD [OF Some] by simp
    have q: "63 \<notin> set ?p" using less.prems(1) by (auto dest: in_set_takeD in_set_dropD)
    have "before i (path_end k p q)" by (rule before_end(1) [OF _ _ less.prems(2) Some]) simp_all
    then have "tilde_loop (p @ q, path_end k p q) = tilde_loop (?p @ q, path_end False ?p q)"
      using i query_pos_append [OF q less.prems(2)] by (simp add: tilde_loop.simps [of "p @ q"] find_append [OF Some] Let_def)
    moreover have "fst (tilde_loop (?p @ q, path_end False ?p q)) = replace_all [37, 55, 69] [126] ?p @ q"
      using i q less.prems(2) by (intro less.hyps) auto
    ultimately show ?thesis using replace_all_first [OF Some, of 126] by (simp add: numeral_3_eq_3)
  qed
qed

section \<open>The path as a whole\<close>

text \<open>
  The reference. Without a query the steps for the end are taken only while nothing has been reduced before.
\<close>

definition reduce_path :: "bool \<Rightarrow> bytes list \<Rightarrow> bytes list" where
  "reduce_path has_query segs =
    (let a = drop_inner [46] (drop_inner [] segs);
         b = end_dot (has_query \<or> a = segs) a;
         c = dots [] b
     in end_dotdot (has_query \<or> a = segs \<and> c = b) c)"

lemma length_drop_inner: "segs \<noteq> [] \<Longrightarrow> length (drop_inner x segs) \<le> length segs"
proof -
  assume "segs \<noteq> []"
  then have "0 < length segs" by simp
  moreover have "length [s \<leftarrow> butlast segs. s \<noteq> x] \<le> length (butlast segs)" by (rule length_filter_le)
  ultimately show ?thesis unfolding drop_inner_def length_append list.size length_butlast by linarith
qed

lemma drop_inner_nonempty [simp]: "drop_inner x segs \<noteq> []"
  by (simp add: drop_inner_def)

lemma drop_inner_shorter: "segs \<noteq> [] \<Longrightarrow> x \<in> set (butlast segs) \<Longrightarrow> length (drop_inner x segs) < length segs"
proof -
  assume "segs \<noteq> []" "x \<in> set (butlast segs)"
  then have "length [s \<leftarrow> butlast segs. s \<noteq> x] < length (butlast segs)" by (intro length_filter_less) auto
  then show ?thesis unfolding drop_inner_def length_append list.size length_butlast by linarith
qed

lemma drop_inner_same:
  assumes "segs \<noteq> []"
  shows "drop_inner y (drop_inner x segs) = segs \<longleftrightarrow> x \<notin> set (butlast segs) \<and> y \<notin> set (butlast (drop_inner x segs))"
proof
  assume "drop_inner y (drop_inner x segs) = segs"
  then have l: "length (drop_inner y (drop_inner x segs)) = length segs" by simp
  have "x \<notin> set (butlast segs)" using drop_inner_shorter [OF assms, of x] length_drop_inner [of "drop_inner x segs" y] l by force
  moreover have "y \<notin> set (butlast (drop_inner x segs))"
    using drop_inner_shorter [of "drop_inner x segs" y] length_drop_inner [OF assms, of x] l by force
  ultimately show "x \<notin> set (butlast segs) \<and> y \<notin> set (butlast (drop_inner x segs))" ..
next
  assume h: "x \<notin> set (butlast segs) \<and> y \<notin> set (butlast (drop_inner x segs))"
  then have e: "drop_inner x segs = segs" using drop_inner_id [OF assms] by blast
  show "drop_inner y (drop_inner x segs) = segs" using h drop_inner_id [OF assms] unfolding e by blast
qed

lemma dots_length:
  "length (dots st segs) \<le> length st + length segs \<and> ([46, 46] \<in> set (butlast segs) \<longrightarrow> length (dots st segs) < length st + length segs)"
  by (induction st segs rule: dots.induct) (auto split: if_splits)

lemma dots_same: "dots [] segs = segs \<longleftrightarrow> [46, 46] \<notin> set (butlast segs)"
  using dots_length [of "[]" segs] dots_id [of segs "[]"] by auto

lemma set_drop_inner: "segs \<noteq> [] \<Longrightarrow> set (drop_inner x segs) \<subseteq> set segs"
  by (auto simp: drop_inner_def dest: in_set_butlastD)

lemma set_dots: "set (dots st segs) \<subseteq> set st \<union> set segs"
proof (induction st segs rule: dots.induct)
  case (3 st x y ys)
  have "set (tl st) \<subseteq> set st" by (cases st) auto
  then show ?case using 3 by (cases "x = [46, 46]") fastforce+
qed auto

lemma set_end_dot: "set (end_dot k segs) \<subseteq> insert [] (set segs)" "set (end_dotdot k segs) \<subseteq> insert [] (set segs)"
  by (auto simp: end_dot_def end_dotdot_def dest: in_set_butlastD)

lemma dots_nonempty: "segs \<noteq> [] \<Longrightarrow> dots st segs \<noteq> []"
  by (induction st segs rule: dots.induct) auto

lemma normalize_segs:
  assumes "segs \<noteq> []" "\<forall>s\<in>set segs. plain s" "query q"
  shows "normalizePath (join_segs segs @ q) = Some (replace_all [37, 55, 69] [126] (join_segs (reduce_path (q \<noteq> []) segs)) @ q)"
proof -
  define e where "e = drop_inner [] segs"
  define a where "a = drop_inner [46] e"
  define b where "b = end_dot (q \<noteq> [] \<or> a = segs) a"
  define c where "c = dots [] b"
  have p: "\<forall>s\<in>set e. plain s" "\<forall>s\<in>set a. plain s" "\<forall>s\<in>set b. plain s" "\<forall>s\<in>set c. plain s"
    using assms(1,2) set_drop_inner [of segs "[]"] set_drop_inner [of e "[46]"] set_end_dot(1) [of _ a] set_dots [of "[]" b]
    by (fastforce simp: e_def a_def b_def c_def)+
  have n: "e \<noteq> []" "a \<noteq> []" "b \<noteq> []" "c \<noteq> []" by (simp_all add: e_def a_def b_def c_def end_dot_def dots_nonempty)
  have start: "(case find_sub [63] (join_segs segs @ q) of None \<Rightarrow> Some (length (join_segs segs @ q)) | Some i \<Rightarrow> Some i) = path_end True (join_segs segs) q"
    using query_pos_append [OF no_query_join [OF assms(2)] assms(3)] by (auto simp: query_pos_def path_end_def)
  have 1: "cut_loop [47, 47] 1 (join_segs segs @ q, path_end True (join_segs segs) q) = (join_segs e @ q, path_end ([] \<notin> set (butlast segs)) (join_segs e) q)"
    using cut_inner [OF assms(1,2) _ assms(3), of "[]" "[47, 47]" 1 True] by (simp add: e_def)
  have k: "([] \<notin> set (butlast segs) \<and> [46] \<notin> set (butlast e)) = (a = segs)"
    using drop_inner_same [OF assms(1), of "[46]" "[]"] by (auto simp: a_def e_def)
  have 2: "cut_loop [47, 46, 47] 2 (join_segs e @ q, path_end ([] \<notin> set (butlast segs)) (join_segs e) q) = (join_segs a @ q, path_end (a = segs) (join_segs a) q)"
  proof -
    have "plain [46]" by simp
    from cut_inner [OF n(1) p(1) this assms(3), of "[47, 46, 47]" 2 "[] \<notin> set (butlast segs)"] show ?thesis
      unfolding k by (simp add: a_def)
  qed
  have 3: "trailing_dot (join_segs a @ q, path_end (a = segs) (join_segs a) q) = (join_segs b @ q, path_end (a = segs) (join_segs b) q)"
    using trailing_dot_segs [OF n(2) p(2) assms(3), of "a = segs"] by (simp add: b_def Let_def disj_commute)
  have 4: "dotdot_loop (join_segs b @ q) (path_end (a = segs) (join_segs b) q) = Some (join_segs c @ q, path_end (a = segs \<and> c = b) (join_segs c) q)"
    using dotdot_segs [OF n(3) p(3) assms(3), of "a = segs"] dots_same [of b] by (simp add: c_def)
  obtain k' where 5: "trailing_dotdot (join_segs c @ q, path_end (a = segs \<and> c = b) (join_segs c) q) =
      (join_segs (reduce_path (q \<noteq> []) segs) @ q, path_end k' (join_segs (reduce_path (q \<noteq> []) segs)) q)"
    using trailing_dotdot_segs [OF n(4) p(4) assms(3), of "a = segs \<and> c = b"]
    by (auto simp: reduce_path_def Let_def a_def b_def c_def e_def disj_commute)
  have "63 \<notin> set (join_segs (reduce_path (q \<noteq> []) segs))"
    using p(4) set_end_dot(2) [of _ c] by (intro no_query_join) (fastforce simp: reduce_path_def Let_def a_def b_def c_def e_def)
  then show ?thesis unfolding normalizePath_def start 1 2 3 Let_def fst_conv snd_conv 4 option.map 5 by (simp add: tilde_loop_all assms(3))
qed

section \<open>Properties of paths\<close>

text \<open>
  C25. \<open>normalizePath\<close> takes a path through its segments: the inner empty ones and the inner \<open>.\<close> go, each inner \<open>..\<close> goes with the segment before it,
  a last \<open>.\<close> or \<open>..\<close> is resolved only if no earlier segment begins with dots and, without a query, nothing was reduced before, and \<open>%7E\<close> becomes
  a tilde; the query is left alone.
\<close>

theorem normalizePath_reduces:
  assumes "segs \<noteq> []" "list_all (\<lambda>s. 47 \<notin> set s \<and> 63 \<notin> set s) segs" "q = [] \<or> hd q = 63"
  shows "normalizePath (join_segs segs @ q) = Some (replace_all (bytes_of ''%7E'') [126] (join_segs (reduce_path (q \<noteq> []) segs)) @ q)"
proof -
  have "bytes_of ''%7E'' = [37, 55, 69]" by code_simp
  then show ?thesis using normalize_segs [OF assms(1) _ assms(3)] assms(2) by (simp add: list_all_iff)
qed

text \<open>The path \<open>/a/b/..\<close> is reduced to its end, \<open>/a/./b/..\<close> is not.\<close>

theorem normalizePath_reduces_witness:
  "normalizePath (bytes_of ''/a/b/..'') = Some (bytes_of ''/a/'') \<and> normalizePath (bytes_of ''/a/./b/..'') = Some (bytes_of ''/a/b/..'')"
proof -
  let ?s = "[[97], [98], [46, 46]]" and ?t = "[[97], [46], [98], [46, 46]]"
  have b: "bytes_of ''/a/b/..'' = join_segs ?s @ []" "bytes_of ''/a/./b/..'' = join_segs ?t @ []" by code_simp+
  have "replace_all (bytes_of ''%7E'') [126] (join_segs (reduce_path False ?s)) = bytes_of ''/a/''"
    "replace_all (bytes_of ''%7E'') [126] (join_segs (reduce_path False ?t)) = bytes_of ''/a/b/..''" by code_simp+
  then show ?thesis unfolding b using normalizePath_reduces [of ?s "[]"] normalizePath_reduces [of ?t "[]"] by simp
qed

lemma set_reduce_path: "segs \<noteq> [] \<Longrightarrow> set (reduce_path k segs) \<subseteq> insert [] (set segs)"
proof -
  assume n: "segs \<noteq> []"
  define a where "a = drop_inner [46] (drop_inner [] segs)"
  have "set a \<subseteq> set segs" using set_drop_inner [OF n] set_drop_inner [OF drop_inner_nonempty] unfolding a_def by blast
  moreover have "set (end_dotdot k' (dots [] (end_dot k'' a))) \<subseteq> insert [] (set a)" for k' k''
    using set_end_dot(2) [of k' "dots [] (end_dot k'' a)"] set_dots [of "[]" "end_dot k'' a"] set_end_dot(1) [of k'' a] by auto
  ultimately show ?thesis unfolding reduce_path_def Let_def a_def [symmetric] by blast
qed

lemma in_set_tlD: "x \<in> set (tl xs) \<Longrightarrow> x \<in> set xs"
  by (cases xs) auto

lemma dots_butlast: "set (butlast (dots st segs)) \<subseteq> set st \<union> set (butlast segs)"
proof (induction st segs rule: dots.induct)
  case (3 st x y ys)
  have "set (tl st) \<subseteq> set st" by (cases st) auto
  then show ?case using 3 by (cases "x = [46, 46]") force+
qed (auto dest: in_set_butlastD in_set_tlD)

lemma dots_no_dotdot: "[46, 46] \<notin> set st \<Longrightarrow> [46, 46] \<notin> set (butlast (dots st segs))"
proof (induction st segs rule: dots.induct)
  case (3 st x y ys)
  have "set (tl st) \<subseteq> set st" by (cases st) auto
  then have "[46, 46] \<notin> set (tl st)" using 3(3) by blast
  then show ?case using 3 by simp
qed (auto dest: in_set_butlastD in_set_tlD)

lemma butlast_steps:
  "set (butlast (end_dot k segs)) \<subseteq> set (butlast segs)" "set (butlast (end_dotdot k segs)) \<subseteq> set (butlast segs)"
  by (auto simp: end_dot_def end_dotdot_def dest: in_set_butlastD)

lemma reduced_segs:
  assumes "segs \<noteq> []"
  shows "[] \<notin> set (butlast (reduce_path k segs)) \<and> [46] \<notin> set (butlast (reduce_path k segs)) \<and> [46, 46] \<notin> set (butlast (reduce_path k segs))"
proof -
  define a where "a = drop_inner [46] (drop_inner [] segs)"
  have a: "[] \<notin> set (butlast a)" "[46] \<notin> set (butlast a)" by (simp_all add: a_def drop_inner_def)
  have "set (butlast (end_dotdot k'' (dots [] (end_dot k' a)))) \<subseteq> set (butlast a) - {[46, 46]}" for k' k''
    using butlast_steps(2) [of k'' "dots [] (end_dot k' a)"] dots_butlast [of "[]" "end_dot k' a"] butlast_steps(1) [of k' a]
      dots_no_dotdot [of "[]" "end_dot k' a"] by auto
  then have "set (butlast (reduce_path k segs)) \<subseteq> set (butlast a) - {[46, 46]}" unfolding reduce_path_def Let_def a_def [symmetric] by blast
  then show ?thesis using a by blast
qed

lemma replace_all_join:
  "pat \<noteq> [] \<Longrightarrow> 47 \<notin> set pat \<Longrightarrow> segs \<noteq> [] \<Longrightarrow> replace_all pat ds (join_segs segs) = join_segs (map (replace_all pat ds) segs)"
proof -
  assume p: "pat \<noteq> []" "47 \<notin> set pat"
  have sep: "replace_all pat ds (47 # r) = 47 # replace_all pat ds r" for r
    using replace_all_sep [OF p, of ds "[]" r] by (simp add: replace_all.simps [of pat ds "[]"])
  have "replace_all pat ds (u @ join_segs segs) = replace_all pat ds u @ join_segs (map (replace_all pat ds) segs)" for u
    by (induction segs arbitrary: u) (simp_all add: replace_all_sep [OF p])
  from this [of "[]"] show ?thesis by (simp add: replace_all.simps [of pat ds "[]"])
qed

lemma replace_all_chars: "set (replace_all pat ds s) \<subseteq> set ds \<union> set s"
proof (induction pat ds s rule: replace_all.induct)
  case (1 pat ds s)
  have "set (drop (length pat) s) \<subseteq> set s" "set (tl s) \<subseteq> set s" by (auto dest: in_set_dropD) (cases s; auto)
  then show ?case using 1 hd_in_set [of s] by (subst replace_all.simps) (auto 0 4)
qed

text \<open>A short segment is replaced by itself or has a tilde in it.\<close>

lemma replace_all_dots:
  assumes "replace_all [37, 55, 69] [126] s = d" "126 \<notin> set d"
  shows "s = d"
proof (cases "find_sub [37, 55, 69] s")
  case None
  then show ?thesis using assms by (simp add: replace_all_find)
next
  case (Some i)
  then show ?thesis using assms by (auto simp: replace_all_find)
qed

text \<open>What a path is left without.\<close>

definition no_loops :: "bytes \<Rightarrow> bool" where
  "no_loops p \<longleftrightarrow> prefix [47] p \<and> find_sub (bytes_of ''//'') p = None \<and> find_sub (bytes_of ''/./'') p = None
     \<and> find_sub (bytes_of ''/../'') p = None \<and> find_sub (bytes_of ''%7E'') p = None"

lemma patterns:
  "bytes_of ''//'' = [47, 47]" "bytes_of ''/./'' = [47, 46, 47]" "bytes_of ''/../'' = [47, 46, 46, 47]" "bytes_of ''%7E'' = [37, 55, 69]"
  by code_simp+

lemma no_loops_join:
  assumes "segs \<noteq> []" "\<forall>s\<in>set segs. 47 \<notin> set s"
  shows "no_loops (replace_all [37, 55, 69] [126] (join_segs (reduce_path k segs)))"
proof -
  let ?r = "reduce_path k segs" and ?f = "replace_all [37, 55, 69] [126]"
  have n: "?r \<noteq> []" by (simp add: reduce_path_def Let_def end_dotdot_def dots_nonempty end_dot_def)
  have sub: "set ?r \<subseteq> insert [] (set segs)" by (rule set_reduce_path [OF assms(1)])
  have no: "\<forall>s\<in>set (map ?f ?r). 47 \<notin> set s"
    using sub assms(2) replace_all_chars [of "[37, 55, 69]" "[126]"] by fastforce
  have e: "?f (join_segs ?r) = join_segs (map ?f ?r)" by (rule replace_all_join) (use n in auto)
  have inner: "d \<notin> set (butlast (map ?f ?r))" if "d \<notin> set (butlast ?r)" "126 \<notin> set d" for d
  proof
    assume "d \<in> set (butlast (map ?f ?r))"
    then obtain x where x: "x \<in> set (butlast ?r)" "?f x = d" by (auto simp: map_butlast [symmetric])
    show False using replace_all_dots [OF x(2) that(2)] x(1) that(1) by simp
  qed
  have "find_sub (47 # d @ [47]) (join_segs (map ?f ?r)) = None" if "d \<notin> set (butlast ?r)" "126 \<notin> set d" "47 \<notin> set d" for d
    using find_no_inner [OF that(3) no inner [OF that(1,2)]] .
  from this [of "[]"] this [of "[46]"] this [of "[46, 46]"]
  have "find_sub [47, 47] (?f (join_segs ?r)) = None" "find_sub [47, 46, 47] (?f (join_segs ?r)) = None" "find_sub [47, 46, 46, 47] (?f (join_segs ?r)) = None"
    using reduced_segs [OF assms(1), of k] unfolding e by simp_all
  moreover have "find_sub [37, 55, 69] (?f (join_segs ?r)) = None" by (rule replace_all_leaves_none) simp_all
  moreover have "prefix [47] (?f (join_segs ?r))" using n unfolding e by (cases ?r) simp_all
  ultimately show ?thesis unfolding no_loops_def patterns by simp
qed

lemma path_reduced:
  "prefix [47] path \<Longrightarrow> \<exists>p. normalizePath path = Some (p @ dropWhile (\<lambda>c. c \<noteq> 63) path) \<and> no_loops p \<and> 63 \<notin> set p"
proof -
  assume "prefix [47] path"
  then obtain r where r: "path = 47 # r" by (auto simp: prefix_def)
  define q where "q = dropWhile (\<lambda>c. c \<noteq> 63) path"
  define segs where "segs = segs_of (takeWhile (\<lambda>c. c \<noteq> 63) r)"
  have "path = join_segs segs @ q" by (simp add: r q_def segs_def join_segs_of)
  moreover have pl: "\<forall>s\<in>set segs. plain s"
    using segs_of_no_slash segs_of_chars unfolding segs_def by (fastforce dest: set_takeWhileD)
  moreover have q: "query q" using hd_dropWhile [of "\<lambda>c. c \<noteq> 63" path] by (auto simp: q_def)
  ultimately have n: "normalizePath path = Some (replace_all [37, 55, 69] [126] (join_segs (reduce_path (q \<noteq> []) segs)) @ q)"
    using normalize_segs [of segs q] by (simp add: segs_def)
  have "63 \<notin> set (replace_all [37, 55, 69] [126] (join_segs (reduce_path (q \<noteq> []) segs)))"
  proof -
    have "\<forall>s\<in>set (reduce_path (q \<noteq> []) segs). plain s"
      using pl set_reduce_path [of segs "q \<noteq> []"] by (fastforce simp: segs_def)
    then show ?thesis using replace_all_chars [of "[37, 55, 69]" "[126]"] no_query_join by fastforce
  qed
  then show ?thesis using n no_loops_join [of segs] pl unfolding q_def by (force simp: segs_def)
qed

text \<open>
  The reduction of a path that begins with a slash always comes to an end, though one of its loops may put a longer path in place of the path:
  what stands before the query then begins with a slash and has no \<open>//\<close>, \<open>/./\<close>, \<open>/../\<close> and \<open>%7E\<close>, and the query is as it was.
\<close>

theorem normalizePath_ends:
  assumes "prefix [47] path"
  shows "\<exists>p. normalizePath path = Some (p @ dropWhile (\<lambda>c. c \<noteq> 63) path) \<and> no_loops p \<and> 63 \<notin> set p"
  by (rule path_reduced [OF assms])

theorem normalizePath_ends_witness:
  "\<exists>p. normalizePath (bytes_of ''/../a//b/./../%7E?x=/../'') = Some (p @ bytes_of ''?x=/../'') \<and> no_loops p \<and> 63 \<notin> set p"
proof -
  have "prefix [47] (bytes_of ''/../a//b/./../%7E?x=/../'')" by code_simp
  moreover have "dropWhile (\<lambda>c. c \<noteq> 63) (bytes_of ''/../a//b/./../%7E?x=/../'') = bytes_of ''?x=/../''" by code_simp
  ultimately show ?thesis using normalizePath_ends [of "bytes_of ''/../a//b/./../%7E?x=/../''"] by simp
qed

section \<open>Parsing as a whole\<close>

lemma scheme_split:
  assumes "map to_lower s = a @ [58, 47, 47] @ b"
  shows "\<exists>t r. s = t @ [58, 47, 47] @ r \<and> toLowercase t = a"
proof -
  have c: "to_lower c = 58 \<Longrightarrow> c = 58" "to_lower c = 47 \<Longrightarrow> c = 47" for c :: u8
  proof -
    have "to_lower c \<noteq> 58 \<or> c = 58" "to_lower c \<noteq> 47 \<or> c = 47"
      by (auto simp: to_lower_def word_le_nat_alt unat_arith_simps split: if_splits)
    then show "to_lower c = 58 \<Longrightarrow> c = 58" "to_lower c = 47 \<Longrightarrow> c = 47" by auto
  qed
  obtain t u where s: "s = t @ u" "map to_lower t = a" "map to_lower u = [58, 47, 47] @ b"
    using assms by (auto simp: map_eq_append_conv)
  obtain r where "u = [58, 47, 47] @ r" using s(3) by (auto simp: map_eq_Cons_conv dest!: c)
  then show ?thesis using s(1,2) unfolding toLowercase_def by blast
qed

lemma has_scheme_split:
  assumes "has_scheme s ''http://'' \<or> has_scheme s ''https://''"
  shows "\<exists>t r. s = t @ [58, 47, 47] @ r \<and> (toLowercase t = bytes_of ''http'' \<or> toLowercase t = bytes_of ''https'')"
proof -
  have "bytes_of ''http://'' = bytes_of ''http'' @ [58, 47, 47]" "bytes_of ''https://'' = bytes_of ''https'' @ [58, 47, 47]" by code_simp+
  then show ?thesis using assms scheme_split [of s] unfolding has_scheme_def prefix_def by auto blast+
qed

lemma strtok_scheme:
  assumes "toLowercase t = bytes_of ''http'' \<or> toLowercase t = bytes_of ''https''"
  shows "strtok [58] (t @ [58, 47, 47] @ r) = (Some t, [47, 47] @ r)"
proof -
  have "58 \<notin> set (toLowercase t)" "toLowercase t \<noteq> []" using assms by (auto simp: bytes_of_def)
  moreover have "to_lower 58 = 58" by code_simp
  ultimately have "58 \<notin> set t" "t \<noteq> []" by (force simp: toLowercase_def)+
  moreover from this have "takeWhile (\<lambda>c. c \<noteq> 58) t = t" "dropWhile (\<lambda>c. c \<noteq> 58) t = []" "dropWhile (\<lambda>c. c = 58) (t @ x) = t @ x" for x
    by (auto simp: takeWhile_eq_all_conv dropWhile_eq_Nil_conv) (cases t; auto)
  ultimately show ?thesis by (auto simp: strtok_def Let_def takeWhile_append dropWhile_append)
qed

lemma strtok_rest: "\<exists>r'. fst (strtok [10] ([47, 47] @ r)) = Some ([47, 47] @ r')"
  by (simp add: strtok_def Let_def)

lemma member_path:
  "m_sPath (set_host t u) = m_sPath u" "m_sPath (set_port p u) = m_sPath u"
  "m_sProtocol (set_host t u) = m_sProtocol u" "m_sProtocol (set_port p u) = m_sProtocol u" "m_sProtocol (add_path t u) = m_sProtocol u"
  "m_sPort (set_host t u) = m_sPort u" "m_sPort (add_path t u) = m_sPort u"
  by (simp_all add: set_host_def set_port_def add_path_def Let_def split: option.splits)

lemma add_path_prefix: "prefix [47] (m_sPath u) \<Longrightarrow> prefix [47] (m_sPath (add_path t u))"
  by (auto simp: add_path_def prefix_def split: option.splits)

lemma atoi_range: "- (2 ^ 31) \<le> atoi s \<and> atoi s < 2 ^ 31"
proof -
  have "- (2 ^ 31) \<le> to_int i \<and> to_int i < 2 ^ 31" for i using pos_mod_bound [of "2 ^ 32" "i + 2 ^ 31"] by (simp add: to_int_def)
  then show ?thesis unfolding atoi_def Let_def by (simp only: prod.case_eq_if)
qed

lemma default_range: "- (2 ^ 31) \<le> DefaultPort u \<and> DefaultPort u < 2 ^ 31"
  by (simp add: DefaultPort_def Let_def)

abbreviation port_ok :: "curl \<Rightarrow> bool" where
  "port_ok u \<equiv> - (2 ^ 31) \<le> m_sPort u \<and> m_sPort u < 2 ^ 31"

lemma set_port_range: "port_ok u \<Longrightarrow> port_ok (set_port p u)"
  using atoi_range [of "the p"] default_range unfolding set_port_def Let_def by (cases p) auto

lemma parse_user_ok:
  assumes "prefix [47] (m_sPath u)" "port_ok u"
  shows "prefix [47] (m_sPath (parse_user slash at p u)) \<and> port_ok (parse_user slash at p u)"
proof -
  let ?u = "if (case slash of None \<Rightarrow> True | Some k \<Rightarrow> at < k) then u\<lparr>m_sUser := take at p\<rparr> else u"
  have u: "prefix [47] (m_sPath ?u)" "port_ok ?u" using assms by simp_all
  have "prefix [47] (m_sPath (add_path x (set_port y (set_host z ?u))))" "port_ok (add_path x (set_port y (set_host z ?u)))"
    "prefix [47] (m_sPath (add_path x (set_host z ?u)))" "port_ok (add_path x (set_host z ?u))" for x y z
    using u set_port_range [of "set_host z ?u" y] by (auto intro!: add_path_prefix simp: member_path)
  then show ?thesis by (auto simp: parse_user_def Let_def split: prod.splits if_splits)
qed

lemma parse_plain_ok:
  assumes "prefix [47] (m_sPath u)" "port_ok u"
  shows "prefix [47] (m_sPath (parse_plain slash p u)) \<and> port_ok (parse_plain slash p u)"
proof -
  have 1: "prefix [47] (m_sPath (add_path x (set_port y (set_host z u))))" "port_ok (add_path x (set_port y (set_host z u)))" for x y z
    using assms set_port_range [of "set_host z u" y] by (auto intro!: add_path_prefix simp: member_path)
  have 2: "prefix [47] (m_sPath (add_path x ((set_host z u)\<lparr>m_sPort := DefaultPort (set_host z u)\<rparr>)))"
    "port_ok (add_path x ((set_host z u)\<lparr>m_sPort := DefaultPort (set_host z u)\<rparr>))" for x z
    using assms default_range [of "set_host z u"] by (auto intro!: add_path_prefix simp: member_path)
  show ?thesis using 1 2 by (auto simp: parse_plain_def Let_def split: prod.splits if_splits)
qed

lemma parse_host_ok: "port_ok u \<Longrightarrow> prefix [47] (m_sPath (parse_host p u)) \<and> port_ok (parse_host p u)"
proof -
  assume p: "port_ok u"
  let ?u = "u\<lparr>m_sPath := [47]\<rparr>"
  have u: "prefix [47] (m_sPath ?u)" "port_ok ?u" using p by simp_all
  have "prefix [47] (m_sPath (parse_file p ?u)) \<and> port_ok (parse_file p ?u)" by (simp add: parse_file_def Let_def split: option.splits)
  then show ?thesis unfolding parse_host_def Let_def using parse_user_ok [OF u] parse_plain_ok [OF u]
    by (simp split: option.splits)
qed

lemma port_text_fits: "port_ok u \<Longrightarrow> port_text (m_sPort u) = Inl BufferOverflow \<or> (\<exists>s. port_text (m_sPort u) = Inr s)"
  using int2str_value [of 10 "m_sPort u" False] by (auto simp: port_text_def)

lemma constructURL_fits:
  "port_ok u \<Longrightarrow> constructURL u = Inl BufferOverflow \<or> (\<exists>b. constructURL u = Inr (u\<lparr>url_built := b\<rparr>))"
proof -
  assume p: "port_ok u"
  have *: "bind_r x (\<lambda>url. Inr (u\<lparr>url_built := url @ m_sPath u\<rparr>)) = Inl BufferOverflow \<or>
      (\<exists>b. bind_r x (\<lambda>url. Inr (u\<lparr>url_built := url @ m_sPath u\<rparr>)) = Inr (u\<lparr>url_built := b\<rparr>))"
    if "x = Inl BufferOverflow \<or> (\<exists>s. x = Inr s)" for x :: "bytes result"
    using that by (elim disjE exE) (simp, rule disjI2, simp only: bind_r_simps, rule exI, rule refl)
  show ?thesis
  proof (cases "m_sProtocol u \<noteq> bytes_of ''file'' \<and> m_sHost u = []")
    case True
    then have "constructURL u = Inr (u\<lparr>url_built := []\<rparr>)" by (simp add: constructURL_def)
    then show ?thesis by blast
  next
    case False
    then show ?thesis unfolding constructURL_def Let_def if_not_P [OF False] using port_text_fits [OF p] by (intro *) auto
  qed
qed

lemma ParseScheme_invalid: "m_eScheme (ParseScheme s u) \<noteq> SCHEME_HTTP \<and> m_eScheme (ParseScheme s u) \<noteq> SCHEME_HTTPS \<longleftrightarrow>
    m_eScheme (ParseScheme s u) = SCHEME_INVALID"
  by (simp add: ParseScheme_def)



section \<open>Checks\<close>

text \<open>\<open>IsValidHost\<close> looks at half of the characters only.\<close>

lemma valid_host_loop_half: "valid_host_loop i h \<longleftrightarrow> list_all IsValidHostChar (take ((length h - i + 1) div 2) h)"
proof (induction i h rule: valid_host_loop.induct)
  case (1 i host)
  show ?case
  proof (cases "i < length host")
    case True
    then obtain c t where h: "host = c # t" by (cases host) auto
    have "(length host - i + 1) div 2 = Suc ((length t - Suc i + 1) div 2)"
    proof (cases "Suc i \<le> length t")
      case False
      then have "length t = i" using True h by simp
      then show ?thesis using h by simp
    qed (use h in \<open>simp add: Suc_diff_le\<close>)
    then show ?thesis using 1 True h by (simp add: valid_host_loop.simps [of i "c # t"])
  qed (simp add: valid_host_loop.simps [of i host])
qed

lemma IsValidHost_half:
  "IsValidHost (Some h) \<longleftrightarrow> 6 \<le> length h \<and> list_all IsValidHostChar (take ((length h + 1) div 2) h)"
  by (auto simp: IsValidHost_def valid_host_loop_half)

lemma extension_raises:
  "url_extension u = [] \<Longrightarrow> length (m_sPath u) < 2 ^ 32 - 1 \<Longrightarrow>
    extension u = Inl (Raise OutOfRange) \<longleftrightarrow> m_sPath u \<noteq> [] \<and> 46 \<notin> set (m_sPath u)"
proof -
  assume a: "url_extension u = []" "length (m_sPath u) < 2 ^ 32 - 1"
  have "i mod 2 ^ 32 \<le> length (m_sPath u)" if "rfind_char 46 (m_sPath u) = Some i" for i
  proof -
    have "i \<le> length (m_sPath u)" using that by (auto simp: rfind_char_def split: if_splits)
    then show ?thesis using mod_less_eq_dividend [of i "2 ^ 32"] by linarith
  qed
  moreover have "rfind_char 46 (m_sPath u) = None \<longleftrightarrow> 46 \<notin> set (m_sPath u)" by (simp add: rfind_char_def)
  ultimately show ?thesis using a by (auto simp: extension_def Let_def split: option.splits)
qed

end
