(* ===== verification/UrlText.thy ===== *)
theory UrlText
  imports Prelude
begin

text \<open>
  The percent encodings of \<open>tools/util.cpp\<close>: \<open>URLencode\<close>, \<open>MyURLencode\<close> and \<open>MyURLBlankencode\<close>, which stop
  at the end of their buffer, and \<open>urlInCode\<close>, which does not know its size.
\<close>

section \<open>Operations\<close>

definition bin2hex :: "u8 \<Rightarrow> u8" where
  "bin2hex ch = (let ch = (ch AND 0x0f) + 48 in if ch > 57 then ch + 7 else ch)"

definition AlphaNumeric :: "u8 \<Rightarrow> bool" where
  "AlphaNumeric ch \<longleftrightarrow> (97 \<le> ch \<and> ch \<le> 122) \<or> (65 \<le> ch \<and> ch \<le> 90) \<or> (48 \<le> ch \<and> ch \<le> 57)"

text \<open>\<open>ch >> 4\<close> on a signed \<open>char\<close>.\<close>

definition percent :: "u8 \<Rightarrow> bytes" where
  "percent ch = [37, bin2hex (signed_drop_bit 4 ch), bin2hex ch]"

definition url_char :: "u8 \<Rightarrow> bytes" where
  "url_char ch = (if ch = 32 then [43] else if AlphaNumeric ch then [ch] else percent ch)"

text \<open>A \<open>char\<close> below 0 is a byte from 128 on.\<close>

definition my_url_char :: "u8 \<Rightarrow> bytes" where
  "my_url_char ch = (if 128 \<le> ch then percent ch else [ch])"

definition my_blank_char :: "u8 \<Rightarrow> bytes" where
  "my_blank_char ch = (if 128 \<le> ch then percent ch else if ch = 32 then [37, 50, 48] else [ch])"

text \<open>
  The loop the three functions share, with the bytes written so far. \<open>cap\<close> is the size of the block behind
  \<open>encode\<close>, of which the byte for the NUL is one. The flag tells the two exits apart.
\<close>

fun encode_loop :: "(u8 \<Rightarrow> bytes) \<Rightarrow> nat \<Rightarrow> int \<Rightarrow> bytes \<Rightarrow> bytes \<Rightarrow> (bool \<times> bytes) result" where
  "encode_loop enc cap maxlen [] out = (if length out < cap then Inr (True, out) else Inl BufferOverflow)"
| "encode_loop enc cap maxlen (ch # plain) out =
    (let out = out @ enc ch
     in if cap < length out then Inl BufferOverflow
        else if int (length out) > maxlen - 4
        then (if length out < cap then Inr (False, out) else Inl BufferOverflow)
        else encode_loop enc cap maxlen plain out)"

text \<open>
  The result is the value returned and the text written. \<open>start\<close> is never assigned: it stands for
  whatever address, counted from the buffer, the variable holds.
\<close>

definition encode_with :: "(u8 \<Rightarrow> bytes) \<Rightarrow> int \<Rightarrow> bytes \<Rightarrow> nat \<Rightarrow> int \<Rightarrow> (int \<times> bytes) result" where
  "encode_with enc start plain cap maxlen =
    bind_r (encode_loop enc cap maxlen plain []) (\<lambda>(done, out).
      Inr (if done then int (length out) - start else - 1, out))"

definition URLencode :: "int \<Rightarrow> bytes \<Rightarrow> nat \<Rightarrow> int \<Rightarrow> (int \<times> bytes) result" where
  "URLencode = encode_with url_char"

definition MyURLencode :: "int \<Rightarrow> bytes \<Rightarrow> nat \<Rightarrow> int \<Rightarrow> (int \<times> bytes) result" where
  "MyURLencode = encode_with my_url_char"

definition MyURLBlankencode :: "int \<Rightarrow> bytes \<Rightarrow> nat \<Rightarrow> int \<Rightarrow> (int \<times> bytes) result" where
  "MyURLBlankencode = encode_with my_blank_char"

text \<open>\<open>urlInCode\<close>: the two hexadecimal digits are computed from the value of 0 to 255.\<close>

definition hex_digit :: "nat \<Rightarrow> u8" where
  "hex_digit j = of_nat (if j > 9 then j + (65 - 10) else j + 48)"

definition in_code_char :: "u8 \<Rightarrow> bytes" where
  "in_code_char p =
    (if (p \<le> 57 \<and> 48 \<le> p) \<or> (p \<le> 122 \<and> 97 \<le> p) \<or> (p \<le> 90 \<and> 65 \<le> p) then [p]
     else let pp = unat p in [37, hex_digit (pp div 16), hex_digit (pp mod 16)])"

fun urlInCode :: "bytes option \<Rightarrow> bytes" where
  "urlInCode None = []"
| "urlInCode (Some pD) = concat (map in_code_char pD)"

section \<open>One character\<close>

lemma and_15: "(ch :: u8) AND 0x0f = take_bit 4 ch"
  by (simp add: take_bit_eq_mask mask_eq_exp_minus_1)

lemma unat_take_bit4: "unat (take_bit 4 (ch :: u8)) = unat ch mod 16"
  by (simp add: take_bit_eq_mod unat_mod_distrib)

text \<open>The two ways of writing a byte in hexadecimal agree.\<close>

lemma bin2hex_digit: "bin2hex ch = hex_digit (unat ch mod 16)"
proof -
  define k where "k = unat ch mod 16"
  have "k \<in> set [0..<16]" by (simp add: k_def)
  then have "(let c = of_nat k + 48 :: u8 in if c > 57 then c + 7 else c) = hex_digit k"
    by (auto simp: upt_rec hex_digit_def)
  moreover have "ch AND 0x0f = of_nat k"
    unfolding and_15 k_def unat_take_bit4 [symmetric] by simp
  ultimately show ?thesis by (simp add: bin2hex_def k_def)
qed

lemma unat_high_nibble: "unat (signed_drop_bit 4 (ch :: u8)) mod 16 = unat ch div 16"
proof -
  have "take_bit 4 (signed_drop_bit 4 ch) = drop_bit 4 ch"
    by (rule bit_eqI) (auto simp: bit_simps dest: bit_imp_le_length)
  then show ?thesis
    unfolding unat_take_bit4 [symmetric] by (simp add: drop_bit_eq_div unat_div_distrib)
qed

lemma percent_in_code: "percent ch = [37, hex_digit (unat ch div 16), hex_digit (unat ch mod 16)]"
  by (simp add: percent_def bin2hex_digit unat_high_nibble)

lemma in_code_char_eq: "in_code_char p = (if AlphaNumeric p then [p] else percent p)"
  by (auto simp: in_code_char_def percent_in_code AlphaNumeric_def Let_def)

section \<open>Bounds\<close>

lemma enc_length: "length (percent ch) = 3" "length (url_char ch) \<le> 3" "length (my_url_char ch) \<le> 3" "length (my_blank_char ch) \<le> 3"
  by (auto simp: percent_def url_char_def my_url_char_def my_blank_char_def)

lemma encode_loop_bounds:
  assumes enc: "\<And>ch. length (enc ch) \<le> 3" and cap: "maxlen \<le> int cap"
  shows "int (length out) \<le> maxlen - 4 \<Longrightarrow>
    (if int (length (out @ concat (map enc plain))) \<le> maxlen - 4
     then encode_loop enc cap maxlen plain out = Inr (True, out @ concat (map enc plain))
     else \<exists>k. encode_loop enc cap maxlen plain out = Inr (False, out @ concat (map enc (take k plain)))
       \<and> maxlen - 4 < int (length (out @ concat (map enc (take k plain))))
       \<and> int (length (out @ concat (map enc (take k plain)))) < maxlen)"
proof (induction plain arbitrary: out)
  case Nil
  then show ?case using cap by auto
next
  case (Cons ch plain)
  let ?out = "out @ enc ch"
  have len: "int (length ?out) \<le> maxlen - 1" using Cons.prems enc [of ch] by simp
  show ?case
  proof (cases "int (length ?out) \<le> maxlen - 4")
    case True
    then have step: "encode_loop enc cap maxlen (ch # plain) out = encode_loop enc cap maxlen plain ?out"
      using cap by (simp add: Let_def)
    show ?thesis
    proof (cases "int (length (?out @ concat (map enc plain))) \<le> maxlen - 4")
      case full: True
      then show ?thesis using Cons.IH [OF True] step by auto
    next
      case False
      then obtain k where "encode_loop enc cap maxlen plain ?out = Inr (False, ?out @ concat (map enc (take k plain)))"
        "maxlen - 4 < int (length (?out @ concat (map enc (take k plain))))" "int (length (?out @ concat (map enc (take k plain)))) < maxlen"
        using Cons.IH [OF True] by auto
      then show ?thesis using False step by (auto intro: exI [of _ "Suc k"])
    qed
  next
    case False
    then have "encode_loop enc cap maxlen (ch # plain) out = Inr (False, out @ concat (map enc (take 1 (ch # plain))))"
      using len cap by (simp add: Let_def)
    moreover have "\<not> int (length (out @ concat (map enc (ch # plain)))) \<le> maxlen - 4" using False by simp
    ultimately show ?thesis using False len
      by (auto intro!: exI [of _ 1] simp del: encode_loop.simps)
  qed
qed



section \<open>Decoding\<close>

text \<open>A decoder for the two encodings, with or without \<open>+\<close> for the blank.\<close>

definition hex_value :: "u8 \<Rightarrow> u8" where
  "hex_value c = (if c \<le> 57 then c - 48 else c - 55)"

fun url_decode :: "bool \<Rightarrow> bytes \<Rightarrow> bytes" where
  "url_decode blank [] = []"
| "url_decode blank (c # s) =
    (if c = 37 \<and> 2 \<le> length s then (16 * hex_value (s ! 0) + hex_value (s ! 1)) # url_decode blank (drop 2 s)
     else (if blank \<and> c = 43 then 32 else c) # url_decode blank s)"

lemma hex_value_digit: "k < 16 \<Longrightarrow> hex_value (hex_digit k) = of_nat k"
proof -
  assume "k < 16"
  then have "k \<in> set [0..<16]" by simp
  then show ?thesis by (auto simp: upt_rec hex_digit_def hex_value_def)
qed

lemma decode_percent: "url_decode blank (percent ch @ s) = ch # url_decode blank s"
proof -
  have "unat ch < 2 ^ LENGTH(8)" by (rule unsigned_less)
  then have less: "unat ch div 16 < 16" by (simp add: less_mult_imp_div_less)
  have "16 * of_nat (unat ch div 16) + of_nat (unat ch mod 16) = (of_nat (16 * (unat ch div 16) + unat ch mod 16) :: u8)"
    by (simp only: of_nat_add of_nat_mult) simp
  also have "\<dots> = ch" by simp
  finally show ?thesis by (simp add: percent_in_code hex_value_digit less)
qed

lemma decode_chars:
  "url_decode True (url_char ch @ s) = ch # url_decode True s"
  "url_decode blank (in_code_char ch @ s) = ch # url_decode blank s"
proof -
  have plain: "ch \<noteq> 37" "ch \<noteq> 43" if "AlphaNumeric ch" using that by (auto simp: AlphaNumeric_def)
  show "url_decode True (url_char ch @ s) = ch # url_decode True s"
    using plain by (auto simp: url_char_def decode_percent)
  show "url_decode blank (in_code_char ch @ s) = ch # url_decode blank s"
    using plain by (auto simp: in_code_char_eq decode_percent)
qed

lemma decode_all:
  "url_decode True (concat (map url_char s)) = s" "url_decode blank (concat (map in_code_char s)) = s"
  by (induction s) (simp_all add: decode_chars)

text \<open>
  Both full encodings lose nothing: decoding what \<open>URLencode\<close> wrote, with \<open>+\<close> for the blank, or what
  \<open>urlInCode\<close> wrote, gives back every byte of the text.
\<close>

theorem url_encodings_decode:
  assumes "maxlen \<le> int cap" "3 * int (length s) + 4 \<le> maxlen"
  shows "\<exists>r out. URLencode start s cap maxlen = Inr (r, out) \<and> url_decode True out = s \<and> url_decode False (urlInCode (Some s)) = s"
proof -
  have "length (concat (map url_char s)) \<le> 3 * length s"
  proof (induction s)
    case (Cons ch s)
    then show ?case using enc_length(2) [of ch] by simp
  qed simp
  then have "int (length (concat (map url_char s))) \<le> maxlen - 4" using assms(2) by linarith
  moreover have "length (url_char ch) \<le> 3" for ch by (rule enc_length)
  ultimately show ?thesis
    using encode_loop_bounds [of url_char maxlen cap "[]" s] assms
    by (simp add: URLencode_def encode_with_def decode_all)
qed

theorem url_encodings_decode_witness:
  "\<exists>r out. URLencode 0 [97, 32, 37] 20 20 = Inr (r, out) \<and> url_decode True out = [97, 32, 37]
    \<and> url_decode False (urlInCode (Some [97, 32, 37])) = [97, 32, 37]"
  by (rule url_encodings_decode) simp_all

text \<open>
  The other two leave the percent sign as it is, so different texts can have the same encoding: a byte from
  128 on, and the three characters of its code.
\<close>

lemma my_encodings_collide:
  "MyURLencode start [233] 20 20 = MyURLencode start [37, 69, 57] 20 20"
  "MyURLBlankencode start [32] 20 20 = MyURLBlankencode start [37, 50, 48] 20 20"
  by (simp_all add: MyURLencode_def MyURLBlankencode_def encode_with_def my_url_char_def my_blank_char_def
      percent_in_code hex_digit_def Let_def)

end
