(* ===== verification/IdGen.thy ===== *)
theory IdGen
  imports Prelude
begin

text \<open>
  The identifiers of \<open>module/CheckpointManager.cpp\<close>: \<open>GetMaxID\<close> builds one from the clock, the spider's
  number and a counter.
\<close>

section \<open>Operations\<close>

text \<open>The static variables of \<open>GetMaxID\<close>.\<close>

record idgen =
  last_millisecond :: u64
  last_id :: int

definition idgen0 :: idgen where
  "idgen0 = \<lparr>last_millisecond = 0, last_id = 0\<rparr>"

text \<open>\<open>tv_sec\<close> and \<open>tv_usec\<close>; a failed \<open>gettimeofday\<close> is \<open>None\<close>.\<close>

type_synonym reading = "(int \<times> int) option"

definition millis :: "int \<times> int \<Rightarrow> u64" where
  "millis tv = of_int (fst tv) * 1000 + of_int (snd tv div 1000)"

text \<open>
  \<open>GetMaxID\<close> with the readings the clock is going to give: each round takes one. \<open>None\<close>: still waiting
  when the readings end.
\<close>

fun GetMaxID :: "u64 \<Rightarrow> reading list \<Rightarrow> idgen \<Rightarrow> (u64 \<times> reading list \<times> idgen) option" where
  "GetMaxID pcid [] st = None"
| "GetMaxID pcid (None # cs) st = Some (0, cs, st)"
| "GetMaxID pcid (Some tv # cs) st =
    (let millisecond = millis tv
     in if millisecond > last_millisecond st
        then Some (push_bit 23 millisecond OR push_bit 12 pcid, cs, st\<lparr>last_millisecond := millisecond, last_id := 0\<rparr>)
        else if millisecond = last_millisecond st
        then if last_id st > 4095 then GetMaxID pcid cs st
             else Some ((push_bit 23 millisecond OR push_bit 12 pcid) OR of_int (last_id st + 1), cs, st\<lparr>last_id := last_id st + 1\<rparr>)
        else GetMaxID pcid cs st)"

text \<open>The identifiers of \<open>n\<close> calls.\<close>

fun get_ids :: "nat \<Rightarrow> u64 \<Rightarrow> reading list \<Rightarrow> idgen \<Rightarrow> u64 list" where
  "get_ids 0 pcid cs st = []"
| "get_ids (Suc n) pcid cs st =
    (case GetMaxID pcid cs st of None \<Rightarrow> [] | Some (i, cs, st) \<Rightarrow> i # get_ids n pcid cs st)"

section \<open>The number of an identifier\<close>

definition id_number :: "u64 \<Rightarrow> idgen \<Rightarrow> nat" where
  "id_number pcid st = unat (last_millisecond st) * 2 ^ 23 + unat pcid * 2 ^ 12 + nat (last_id st)"

lemma low_bits: "(k :: nat) < 2 ^ b \<Longrightarrow> bit k n \<Longrightarrow> n < b"
  by (metis bit_take_bit_iff take_bit_nat_eq_self)

lemma id_word:
  assumes "unat m < 2 ^ 41" "unat pcid < 2 ^ 11" "k < 2 ^ 12"
  shows "unat ((push_bit 23 m OR push_bit 12 pcid) OR of_nat k :: u64) = unat m * 2 ^ 23 + unat pcid * 2 ^ 12 + k"
proof -
  have p: "n < 11" if "bit pcid n" for n using low_bits [OF assms(2)] that by (simp add: bit_unsigned_iff)
  have k: "n < 12" if "bit k n" for n using low_bits [OF assms(3) that] .
  have "push_bit 23 m AND push_bit 12 pcid = 0"
    by (rule bit_eqI) (auto simp: bit_simps dest!: p)
  then have e1: "push_bit 23 m OR push_bit 12 pcid = push_bit 23 m + push_bit 12 pcid"
    by (simp add: disjunctive_add_eq_or)
  have "(push_bit 23 m OR push_bit 12 pcid) AND of_nat k = 0"
    by (rule bit_eqI) (auto simp: bit_simps dest!: k)
  then have "(push_bit 23 m OR push_bit 12 pcid) OR of_nat k = push_bit 23 m + push_bit 12 pcid + of_nat k"
    unfolding e1 by (simp add: disjunctive_add_eq_or)
  also have "\<dots> = of_nat (unat m * 2 ^ 23 + unat pcid * 2 ^ 12 + k)"
    by (simp add: push_bit_eq_mult)
  finally show ?thesis
    using assms by (simp only:) (rule unat_of_nat_u64, simp)
qed

section \<open>Runs\<close>

text \<open>How many readings of a list fall into one millisecond.\<close>

definition readings_in :: "u64 \<Rightarrow> reading list \<Rightarrow> nat" where
  "readings_in m cs = length (filter (\<lambda>r. case r of None \<Rightarrow> False | Some tv \<Rightarrow> millis tv = m) cs)"

text \<open>The clock works, and gives times from 1970 to 2039.\<close>

definition clock_ok :: "reading list \<Rightarrow> bool" where
  "clock_ok cs \<longleftrightarrow> (\<forall>r\<in>set cs. case r of None \<Rightarrow> False | Some tv \<Rightarrow> 0 < unat (millis tv) \<and> unat (millis tv) < 2 ^ 41)"

definition id_inv :: "reading list \<Rightarrow> idgen \<Rightarrow> bool" where
  "id_inv cs st \<longleftrightarrow> clock_ok cs \<and> (\<forall>m. readings_in m cs \<le> 4096) \<and> unat (last_millisecond st) < 2 ^ 41
    \<and> 0 \<le> last_id st \<and> last_id st + int (readings_in (last_millisecond st) cs) \<le> 4095"

lemma readings_in_simps [simp]:
  "readings_in m [] = 0" "readings_in m (None # cs) = readings_in m cs"
  "readings_in m (Some tv # cs) = (if millis tv = m then Suc (readings_in m cs) else readings_in m cs)"
  by (simp_all add: readings_in_def)

lemma id_inv_tl: "id_inv (r # cs) st \<Longrightarrow> id_inv cs st"
proof -
  have le: "readings_in m cs \<le> readings_in m (r # cs)" for m by (simp add: readings_in_def)
  assume "id_inv (r # cs) st"
  moreover from this le [of "last_millisecond st"] have "last_id st + int (readings_in (last_millisecond st) cs) \<le> 4095"
    unfolding id_inv_def by linarith
  ultimately show "id_inv cs st" using le unfolding id_inv_def clock_ok_def by (meson list.set_intros(2) order_trans)
qed

lemma GetMaxID_step:
  assumes "id_inv cs st" "unat pcid < 2 ^ 11" "GetMaxID pcid cs st = Some (i, cs', st')"
  shows "unat i = id_number pcid st' \<and> id_number pcid st < id_number pcid st' \<and> id_inv cs' st'"
  using assms
proof (induction pcid cs st rule: GetMaxID.induct)
  case (2 pcid cs st)
  then show ?case by (simp add: id_inv_def clock_ok_def)
next
  case (3 pcid tv cs st)
  note tl = id_inv_tl [OF 3(3)]
  let ?m = "millis tv"
  have m: "unat ?m < 2 ^ 41" using 3(3) by (simp add: id_inv_def clock_ok_def)
  have inv: "0 \<le> last_id st" "last_id st + int (readings_in (last_millisecond st) (Some tv # cs)) \<le> 4095"
    "\<forall>m. readings_in m (Some tv # cs) \<le> 4096"
    using 3(3) unfolding id_inv_def by blast+
  consider "last_millisecond st < ?m" | "last_millisecond st = ?m" | "?m < last_millisecond st" by (rule linorder_cases)
  then show ?case
  proof cases
    case 1
    have "readings_in ?m cs \<le> 4095" using spec [OF inv(3), of ?m] by simp
    moreover have "unat (last_millisecond st) * 2 ^ 23 + 2 ^ 23 \<le> unat ?m * 2 ^ 23"
      using 1 by (simp add: word_less_nat_alt)
    ultimately show ?thesis
      using 3(5) 1 tl inv(1,2) m id_word [OF m 3(4), of 0] 3(4) by (auto simp: id_inv_def id_number_def Let_def)
  next
    case 2
    define k where "k = nat (last_id st + 1)"
    have k: "last_id st + 1 = int k" "k < 2 ^ 12" "last_id st \<le> 4094" using inv 2 by (auto simp: k_def)
    then show ?thesis
      using 3(5) 2 tl inv(1,2) m id_word [OF m 3(4) k(2)] by (auto simp: id_inv_def id_number_def Let_def)
  next
    case 3
    then have "\<not> last_millisecond st < ?m" "?m \<noteq> last_millisecond st" by auto
    then show ?thesis using "3.IH" "3.prems" tl by (simp add: Let_def)
  qed
qed simp

lemma get_ids_increase:
  "id_inv cs st \<Longrightarrow> unat pcid < 2 ^ 11 \<Longrightarrow>
    sorted_wrt (<) (get_ids n pcid cs st) \<and> (\<forall>i\<in>set (get_ids n pcid cs st). id_number pcid st < unat i
      \<and> unat i div 2 ^ 12 mod 2 ^ 11 = unat pcid)"
proof (induction n arbitrary: cs st)
  case (Suc n)
  show ?case
  proof (cases "GetMaxID pcid cs st")
    case None
    then show ?thesis by simp
  next
    case (Some r)
    obtain i cs' st' where r: "r = (i, cs', st')" by (cases r)
    note s = GetMaxID_step [OF Suc.prems, of i cs' st', OF Some [unfolded r]]
    have inv: "id_inv cs' st'" and k: "nat (last_id st') < 2 ^ 12" using s by (auto simp: id_inv_def)
    have "unat i div 2 ^ 12 mod 2 ^ 11 = unat pcid"
    proof -
      have "unat i = (unat (last_millisecond st') * 2 ^ 11 + unat pcid) * 2 ^ 12 + nat (last_id st')"
        using s by (simp add: id_number_def)
      then have "unat i div 2 ^ 12 = unat (last_millisecond st') * 2 ^ 11 + unat pcid" using k by simp
      then show ?thesis using Suc.prems(2) by simp
    qed
    then show ?thesis
      using Suc.IH [OF inv Suc.prems(2)] s Some r by (auto simp: word_less_nat_alt)
  qed
qed simp

text \<open>
  As long as no millisecond is asked for more than 4096 times, the identifiers of one run of \<open>GetMaxID\<close>
  increase strictly, so none is given out twice, and each carries the spider's number: two spiders with
  different numbers never give out the same one. This holds for numbers below 2048, whatever the clock
  does, also when it goes backwards, between 1970 and 2039.
\<close>

theorem ids_increase:
  assumes "clock_ok cs" "\<forall>m. readings_in m cs \<le> 4096" "unat pcid < 2 ^ 11"
  shows "sorted_wrt (<) (get_ids n pcid cs idgen0)
    \<and> (\<forall>i\<in>set (get_ids n pcid cs idgen0). unat i div 2 ^ 12 mod 2 ^ 11 = unat pcid)"
proof -
  have "readings_in 0 cs = 0"
    using assms(1) by (force simp: readings_in_def clock_ok_def filter_empty_conv split: option.splits)
  then have "id_inv cs idgen0" using assms(1,2) by (simp add: id_inv_def idgen0_def)
  from get_ids_increase [OF this assms(3)] show ?thesis by blast
qed

lemma readings_in_le: "readings_in m cs \<le> length cs"
  unfolding readings_in_def by (rule length_filter_le)

theorem ids_increase_witness:
  "sorted_wrt (<) (get_ids 3 5 (replicate 3 (Some (1, 0))) idgen0)
    \<and> list_all (\<lambda>i. unat i div 2 ^ 12 mod 2 ^ 11 = unat (5 :: u64)) (get_ids 3 5 (replicate 3 (Some (1, 0))) idgen0)"
proof -
  have c: "clock_ok (replicate 3 (Some (1, 0)))" by (simp add: clock_ok_def millis_def)
  have "readings_in m (replicate 3 (Some (1, 0))) \<le> 4096" for m
    using readings_in_le [of m "replicate 3 (Some (1, 0))"] by simp
  then show ?thesis using ids_increase [of "replicate 3 (Some (1, 0))" 5 3, OF c] by (simp add: list_all_iff)
qed

section \<open>The last identifier of a millisecond\<close>

lemma ids_of_millisecond:
  "last_millisecond st = millis tv \<Longrightarrow> last_id st = int j \<Longrightarrow> j + k \<le> 4095 \<Longrightarrow>
    get_ids (Suc k) pcid (replicate (Suc k) (Some tv)) st ! k =
      (push_bit 23 (millis tv) OR push_bit 12 pcid) OR of_nat (j + k + 1)"
proof (induction k arbitrary: j st)
  case (Suc k)
  have "get_ids (Suc (Suc k)) pcid (replicate (Suc (Suc k)) (Some tv)) st ! Suc k =
      get_ids (Suc k) pcid (replicate (Suc k) (Some tv)) (st\<lparr>last_id := int (Suc j)\<rparr>) ! k"
    using Suc.prems by (simp add: Let_def add.commute)
  also have "\<dots> = (push_bit 23 (millis tv) OR push_bit 12 pcid) OR of_nat (Suc j + k + 1)"
    using Suc.prems by (intro Suc.IH) auto
  finally show ?case by simp
qed (simp add: Let_def add.commute)

text \<open>
  The counter is checked one step late: it reaches 4096, which does not fit its 12 bits. The 4097th
  identifier of a millisecond is the first one of that millisecond again when the spider's number is odd,
  and the first one of the next spider when it is even.
\<close>

theorem id_4097_repeats:
  assumes "last_millisecond st < millis tv"
  shows "get_ids 4097 pcid (replicate 4097 (Some tv)) st ! 4096 = hd (get_ids 1 (pcid OR 1) [Some tv] st)"
proof -
  let ?st = "st\<lparr>last_millisecond := millis tv, last_id := 0\<rparr>"
  have n: "(4097 :: nat) = Suc (Suc 4095)" "(4096 :: nat) = Suc 4095" by simp_all
  have "get_ids (Suc (Suc 4095)) pcid (replicate (Suc (Suc 4095)) (Some tv)) st ! Suc 4095 =
      get_ids (Suc 4095) pcid (replicate (Suc 4095) (Some tv)) ?st ! 4095"
    using assms by (simp only: replicate_Suc get_ids.simps GetMaxID.simps Let_def if_True option.case prod.case nth_Cons_Suc)
  also have "\<dots> = (push_bit 23 (millis tv) OR push_bit 12 pcid) OR of_nat (0 + 4095 + 1)"
    by (rule ids_of_millisecond) simp_all
  also have "(of_nat (0 + 4095 + 1) :: u64) = push_bit 12 1" by simp
  also have "(push_bit 23 (millis tv) OR push_bit 12 pcid) OR push_bit 12 1 = push_bit 23 (millis tv) OR push_bit 12 (pcid OR 1)"
    by (simp only: push_bit_or or.assoc)
  also have "\<dots> = hd (get_ids 1 (pcid OR 1) [Some tv] st)" using assms by (simp add: Let_def)
  finally show ?thesis unfolding n .
qed

theorem id_4097_repeats_witness:
  "get_ids 4097 7 (replicate 4097 (Some (1, 0))) idgen0 ! 4096 = hd (get_ids 1 7 [Some (1, 0)] idgen0)"
  using id_4097_repeats [of idgen0 "(1, 0)" 7] by (simp add: idgen0_def millis_def)

end
