(* ===== verification/BigFile.thy ===== *)
theory BigFile
  imports Prelude
begin

text \<open>
  \<open>tools/FSBigFile.cpp\<close>: a file larger than the file system's limit, kept as a list of chunk files
  whose names stand in a main file. The disk is a map from paths to contents, an open \<open>FILE *\<close> a
  path with a position. What the operating system decides (free space, whether a file can be
  opened or created, how much a write accepts) is a parameter, \<open>sysenv\<close>.
\<close>

section \<open>State\<close>

type_synonym path = bytes
type_synonym disk = "path \<Rightarrow> bytes option"

text \<open>A \<open>FILE *\<close>: null, open on a path at an offset, or a pointer already given to \<open>fclose\<close>.\<close>

datatype stream = NullStream | Stream path nat | ClosedStream

record bigfile =
  bOpen :: bool
  bf_mode :: char
  main_file :: path
  bf_name :: path
  bf_file :: "path list"
  file_size :: "int list"
  max_file_size :: int
  cur_file :: stream
  file_num :: nat
  dir_list :: "path list"
  bf_disk :: disk

record sysenv =
  can_open :: "path \<Rightarrow> bool"
  can_create :: "path \<Rightarrow> bool"
  can_remove :: "path \<Rightarrow> bool"
  accepts :: "nat \<Rightarrow> nat"
  statfs :: "path \<Rightarrow> (nat \<times> nat) option"

definition RC_BF_EOF :: int where "RC_BF_EOF = -1000"
definition RC_BF_DISK_FULL :: int where "RC_BF_DISK_FULL = -1001"
definition RC_BF_CANNOT_CREATE_FILE :: int where "RC_BF_CANNOT_CREATE_FILE = -1002"
definition RC_BF_CANNOT_OPEN_FILE :: int where "RC_BF_CANNOT_OPEN_FILE = -1003"
definition RC_BF_FILE_ACCESS_ERROR :: int where "RC_BF_FILE_ACCESS_ERROR = -1004"
definition RC_BF_READ_ERROR :: int where "RC_BF_READ_ERROR = -1005"
definition RC_BF_WRITE_ERROR :: int where "RC_BF_WRITE_ERROR = -1006"
definition RC_BF_FILE_OPEN :: int where "RC_BF_FILE_OPEN = -1008"
definition RC_BF_FILE_CLOSED :: int where "RC_BF_FILE_CLOSED = -1009"
definition RC_BF_READ_ONLY :: int where "RC_BF_READ_ONLY = -1010"
definition RC_BF_WRITE_ONLY :: int where "RC_BF_WRITE_ONLY = -1011"
definition RC_BF_BUFFER_TOO_LONG :: int where "RC_BF_BUFFER_TOO_LONG = -1012"
definition RC_BF_INVALID_PARAMETER :: int where "RC_BF_INVALID_PARAMETER = -1013"
definition MAX_FILE_SIZE :: int where "MAX_FILE_SIZE = 1024 * 1024 * 1024 * 1"

lemmas rc_defs = RC_BF_EOF_def RC_BF_DISK_FULL_def RC_BF_CANNOT_CREATE_FILE_def RC_BF_CANNOT_OPEN_FILE_def
  RC_BF_FILE_ACCESS_ERROR_def RC_BF_READ_ERROR_def RC_BF_WRITE_ERROR_def RC_BF_FILE_OPEN_def
  RC_BF_FILE_CLOSED_def RC_BF_READ_ONLY_def RC_BF_WRITE_ONLY_def RC_BF_BUFFER_TOO_LONG_def
  RC_BF_INVALID_PARAMETER_def

section \<open>Streams\<close>

definition content :: "disk \<Rightarrow> path \<Rightarrow> bytes" where
  "content d p = (case d p of None \<Rightarrow> [] | Some c \<Rightarrow> c)"

text \<open>The part of a path after its last slash.\<close>

definition FILENAME_ONLY :: "path \<Rightarrow> path" where
  "FILENAME_ONLY p = rev (takeWhile (\<lambda>c. c \<noteq> 47) (rev p))"

definition CREATE_FILE :: "sysenv \<Rightarrow> path \<Rightarrow> disk \<Rightarrow> int \<times> disk" where
  "CREATE_FILE env p d =
    (if \<not> can_create env p then (RC_BF_CANNOT_CREATE_FILE, d)
     else (0, d(p \<mapsto> content d p)))"

text \<open>\<open>fopen\<close>: \<open>r\<close> needs the file, \<open>w\<close> truncates it, \<open>a\<close> starts at its end; no other mode exists.\<close>

definition fopen :: "sysenv \<Rightarrow> path \<Rightarrow> char \<Rightarrow> disk \<Rightarrow> (stream \<times> disk) option" where
  "fopen env p m d =
    (if \<not> can_open env p then None
     else if m = CHR ''r'' then (case d p of None \<Rightarrow> None | Some c \<Rightarrow> Some (Stream p 0, d))
     else if m = CHR ''w'' then Some (Stream p 0, d(p \<mapsto> []))
     else if m = CHR ''a'' then Some (Stream p (length (content d p)), d(p \<mapsto> content d p))
     else None)"

definition fclose :: "stream \<Rightarrow> unit result" where
  "fclose s = (case s of NullStream \<Rightarrow> Inl NullDeref | ClosedStream \<Rightarrow> Inl UseAfterFree | Stream _ _ \<Rightarrow> Inr ())"

definition with_stream :: "stream \<Rightarrow> (path \<Rightarrow> nat \<Rightarrow> 'a result) \<Rightarrow> 'a result" where
  "with_stream s f =
    (case s of NullStream \<Rightarrow> Inl NullDeref | ClosedStream \<Rightarrow> Inl UseAfterFree | Stream p pos \<Rightarrow> f p pos)"

lemma with_stream_simps [simp]:
  "with_stream NullStream f = Inl NullDeref"
  "with_stream ClosedStream f = Inl UseAfterFree"
  "with_stream (Stream p pos) f = f p pos"
  by (simp_all add: with_stream_def)

text \<open>
  \<open>ftell\<close>, and \<open>fseek\<close> to an offset from the start (0), the position (1) or the end (2): an offset
  before the start of the file is refused.
\<close>

definition ftell :: "bigfile \<Rightarrow> int result" where
  "ftell f = with_stream (cur_file f) (\<lambda>p pos. Inr (int pos))"

definition fseek :: "int \<Rightarrow> nat \<Rightarrow> bigfile \<Rightarrow> (int \<times> bigfile) result" where
  "fseek off whence f = with_stream (cur_file f) (\<lambda>p pos.
    let base = (if whence = 0 then 0 else if whence = 1 then int pos else int (length (content (bf_disk f) p)))
    in if base + off < 0 then Inr (-1, f) else Inr (0, f\<lparr>cur_file := Stream p (nat (base + off))\<rparr>))"

text \<open>\<open>fwrite\<close> at a position, or at the end of a stream opened for appending.\<close>

definition overwrite_at :: "bytes \<Rightarrow> nat \<Rightarrow> bytes \<Rightarrow> bytes" where
  "overwrite_at c pos buf = take pos (c @ replicate (pos - length c) 0) @ buf @ drop (pos + length buf) c"

text \<open>
  \<open>WRITE_BUF\<close>: \<open>n\<close> bytes of the buffer, as many as the system accepts of them. A count that
  exceeds the buffer reads past it.
\<close>

definition WRITE_BUF :: "sysenv \<Rightarrow> bytes \<Rightarrow> int \<Rightarrow> bigfile \<Rightarrow> (int \<times> bigfile) result" where
  "WRITE_BUF env buf n f =
    (if n = 0 then Inr (0, f)
     else if n < 0 \<or> n > int (length buf) then Inl BufferOverflow
     else with_stream (cur_file f) (\<lambda>p pos.
       let rc = min (accepts env (nat n)) (nat n)
       in if rc = 0 then Inr (RC_BF_WRITE_ERROR, f)
          else let c = content (bf_disk f) p;
                   at_pos = (if bf_mode f = CHR ''a'' then length c else pos)
               in Inr (int rc,
                  f\<lparr>bf_disk := (bf_disk f)(p \<mapsto> overwrite_at c at_pos (take rc buf)),
                    cur_file := Stream p (at_pos + rc)\<rparr>)))"

text \<open>
  \<open>READ_BUF\<close>: the bytes that are there, up to \<open>n\<close>; none is an error. A negative \<open>n\<close> reaches \<open>fread\<close>
  as a \<open>size_t\<close>. The result is \<open>(rc, bytes)\<close>.
\<close>

definition READ_BUF :: "int \<Rightarrow> bigfile \<Rightarrow> (int \<times> bytes \<times> bigfile) result" where
  "READ_BUF n f =
    (if n = 0 then Inr (0, [], f)
     else with_stream (cur_file f) (\<lambda>p pos.
       let xs = take (nat (n mod 2 ^ 64)) (drop pos (content (bf_disk f) p))
       in if xs = [] then Inr (RC_BF_READ_ERROR, [], f)
          else Inr (int (length xs), xs, f\<lparr>cur_file := Stream p (pos + length xs)\<rparr>)))"

section \<open>Chunks\<close>

text \<open>The constructor of \<open>chunk_manager\<close>: each directory gets its slash, and one that cannot be examined ends the process.\<close>

definition mgr_dirs :: "sysenv \<Rightarrow> path list option \<Rightarrow> path list result" where
  "mgr_dirs env dirlist =
    (case dirlist of None \<Rightarrow> Inr []
     | Some ds \<Rightarrow>
         if [] \<in> set ds then Inl OutOfBounds
         else let ds = map (\<lambda>d. if last d \<noteq> 47 then d @ [47] else d) ds
              in if \<exists>d\<in>set ds. statfs env d = None then Inl ProcessExit else Inr ds)"

text \<open>
  \<open>chunk_manager::allocate\<close>: every directory must answer (blocks available, block size); the first
  with room for a chunk is taken.
\<close>

definition disksize :: "nat \<times> nat \<Rightarrow> int" where
  "disksize st = int (fst st * snd st div 1024)"

definition allocate :: "sysenv \<Rightarrow> path list \<Rightarrow> int \<times> path" where
  "allocate env dirs =
    (if \<exists>x\<in>set dirs. statfs env x = None then (RC_BF_FILE_ACCESS_ERROR, [])
     else case filter (\<lambda>d. disksize (the (statfs env d)) > (MAX_FILE_SIZE + 1024 - 1) div 1024) dirs of
            [] \<Rightarrow> (RC_BF_DISK_FULL, [])
          | d # _ \<Rightarrow> (0, d))"

definition main_text :: "path list \<Rightarrow> bytes" where
  "main_text ps = concat (map (\<lambda>p. p @ [10]) ps)"

definition chunk_name :: "path \<Rightarrow> path \<Rightarrow> nat \<Rightarrow> path" where
  "chunk_name dir name n = dir @ name @ [46] @ dec_nat n"

definition add_chunk :: "sysenv \<Rightarrow> bigfile \<Rightarrow> int \<times> bigfile" where
  "add_chunk env f =
    (let (rc, dir) = allocate env (dir_list f)
     in if rc < 0 then (rc, f)
        else let p = chunk_name dir (bf_name f) (length (bf_file f));
                 (rc, d) = CREATE_FILE env p (bf_disk f)
             in if rc < 0 then (rc, f)
                else let f = f\<lparr>bf_disk := d, bf_file := bf_file f @ [p], file_size := file_size f @ [0]\<rparr>
                     in if \<not> can_create env (main_file f) then (RC_BF_WRITE_ERROR, f)
                        else (0, f\<lparr>bf_disk := (bf_disk f)(main_file f \<mapsto> main_text (bf_file f))\<rparr>))"

definition set_current :: "sysenv \<Rightarrow> nat \<Rightarrow> bigfile \<Rightarrow> (int \<times> bigfile) result" where
  "set_current env n f =
    (if \<not> n < length (bf_file f) then Inl AssertFail
     else case fopen env (bf_file f ! n) (bf_mode f) (bf_disk f) of
            None \<Rightarrow> Inr (RC_BF_CANNOT_OPEN_FILE, f)
          | Some (tmp_file, d) \<Rightarrow>
              bind_r (if cur_file f \<noteq> NullStream then fclose (cur_file f) else Inr ()) (\<lambda>_.
                Inr (0, f\<lparr>cur_file := tmp_file, file_num := n, bf_disk := d\<rparr>)))"

section \<open>Opening and closing\<close>

text \<open>\<open>is >> chunkName\<close> until the end of file: a last name with nothing after it is not taken.\<close>

lemma read_names_shorter:
  assumes "dropWhile (\<lambda>c. \<not> is_space c) (dropWhile is_space s) \<noteq> []"
  shows "length (dropWhile (\<lambda>c. \<not> is_space c) (dropWhile is_space s)) < length s"
proof (cases "dropWhile is_space s")
  case Nil
  then show ?thesis using assms by (simp only: dropWhile.simps) blast
next
  case (Cons c t)
  then have "\<not> is_space c" by (metis dropWhile_eq_Cons_conv)
  then have "length (dropWhile (\<lambda>c. \<not> is_space c) (c # t)) \<le> length t"
    by (simp add: length_dropWhile_le)
  moreover have "length (c # t) \<le> length s"
    using length_dropWhile_le [of is_space s] Cons by simp
  ultimately show ?thesis using Cons by simp
qed

function read_names :: "bytes \<Rightarrow> path list" where
  "read_names s =
    (let s1 = dropWhile is_space s; w = takeWhile (\<lambda>c. \<not> is_space c) s1;
         rest = dropWhile (\<lambda>c. \<not> is_space c) s1
     in if rest = [] then [] else w # read_names rest)"
  by pat_completeness auto

termination
  by (relation "measure length") (simp, simp only: in_measure read_names_shorter not_False_eq_True)

declare read_names.simps [simp del]

text \<open>\<open>chunk_manager::create\<close>: the main file, its first chunk and the chunk's name.\<close>

definition mgr_create :: "sysenv \<Rightarrow> path \<Rightarrow> bigfile \<Rightarrow> int \<times> bigfile" where
  "mgr_create env filename f =
    (if \<not> can_create env filename then (RC_BF_CANNOT_CREATE_FILE, f)
     else let f = f\<lparr>bf_disk := (bf_disk f)(filename \<mapsto> [])\<rparr>; (rc, dir) = allocate env (dir_list f)
          in if rc < 0 then (rc, f)
             else let p = dir @ FILENAME_ONLY filename @ [46, 48]; (rc, d) = CREATE_FILE env p (bf_disk f)
                  in if rc < 0 then (rc, f)
                     else (0, f\<lparr>bf_disk := d(filename \<mapsto> main_text [p])\<rparr>))"

text \<open>\<open>chunk_manager::destroy\<close>.\<close>

definition remove_path :: "sysenv \<Rightarrow> path \<Rightarrow> disk \<Rightarrow> disk" where
  "remove_path env p d = (if can_remove env p then d(p := None) else d)"

definition mgr_destroy :: "sysenv \<Rightarrow> path \<Rightarrow> disk \<Rightarrow> int \<times> disk" where
  "mgr_destroy env filename d =
    (case d filename of None \<Rightarrow> (RC_BF_CANNOT_OPEN_FILE, d)
     | Some c \<Rightarrow>
         if \<not> can_open env filename then (RC_BF_CANNOT_OPEN_FILE, d)
         else (0, remove_path env filename (fold (remove_path env) (read_names c) d)))"

text \<open>The start of a file without chunks, shared by the \<open>w\<close> branch and by an empty main file.\<close>

definition open_fresh :: "sysenv \<Rightarrow> path \<Rightarrow> char \<Rightarrow> bigfile \<Rightarrow> (int \<times> bigfile) result" where
  "open_fresh env filename m f =
    (let (rc, f) = add_chunk env (f\<lparr>main_file := filename, bf_name := FILENAME_ONLY filename, bf_mode := m\<rparr>)
     in if rc < 0 then Inr (rc, f)
        else bind_r (set_current env 0 f) (\<lambda>(rc, f).
               if rc < 0 then Inr (rc, f) else Inr (0, f\<lparr>bOpen := True, max_file_size := MAX_FILE_SIZE\<rparr>)))"

definition mgr_open :: "sysenv \<Rightarrow> path \<Rightarrow> char \<Rightarrow> bigfile \<Rightarrow> (int \<times> bigfile) result" where
  "mgr_open env filename m f =
    (if bOpen f then Inr (RC_BF_FILE_OPEN, f)
     else let f = f\<lparr>bf_file := [], file_size := []\<rparr>
     in if m = CHR ''w'' then open_fresh env filename m f
        else if bf_disk f filename = None \<or> \<not> can_open env filename then Inr (RC_BF_CANNOT_OPEN_FILE, f)
        else let names = read_names (the (bf_disk f filename)); f = f\<lparr>bf_file := names\<rparr>
        in if names = [] then open_fresh env filename m f
           else if \<exists>p\<in>set names. bf_disk f p = None
           then Inr (RC_BF_CANNOT_OPEN_FILE,
                     f\<lparr>file_size := map (\<lambda>p. int (length (content (bf_disk f) p)))
                                      (takeWhile (\<lambda>p. bf_disk f p \<noteq> None) names)\<rparr>)
           else let f = f\<lparr>file_size := map (\<lambda>p. int (length (content (bf_disk f) p))) names\<rparr>;
                    n = (if m = CHR ''a'' then length names - 1 else 0)
                in case fopen env (names ! n) m (bf_disk f) of
                     None \<Rightarrow> Inr (RC_BF_CANNOT_OPEN_FILE, f)
                   | Some (s, d) \<Rightarrow>
                       Inr (0, f\<lparr>bf_disk := d, main_file := filename, bf_name := FILENAME_ONLY filename, bOpen := True,
                                 bf_mode := m, cur_file := s, file_num := n, max_file_size := MAX_FILE_SIZE\<rparr>))"

definition mgr_close :: "bigfile \<Rightarrow> (int \<times> bigfile) result" where
  "mgr_close f =
    (if \<not> bOpen f then Inr (RC_BF_FILE_CLOSED, f)
     else bind_r (if cur_file f \<noteq> NullStream then fclose (cur_file f) else Inr ()) (\<lambda>_.
       Inr (0, f\<lparr>cur_file := (if cur_file f \<noteq> NullStream then ClosedStream else NullStream),
                 bf_file := [], file_size := [], bOpen := False\<rparr>)))"

text \<open>
  The constructor: a missing main file is created unless the mode is \<open>r\<close>; every other failure ends
  the process. The fields it does not set come from \<open>junk\<close>.
\<close>

definition FSBigFile :: "sysenv \<Rightarrow> path \<Rightarrow> path list option \<Rightarrow> char \<Rightarrow> bigfile \<Rightarrow> bigfile result" where
  "FSBigFile env filename dirlist m junk =
    (if m \<noteq> CHR ''r'' \<and> dirlist = None then Inl ProcessExit
     else bind_r (mgr_dirs env dirlist) (\<lambda>dirs.
       let f = junk\<lparr>bOpen := False, cur_file := NullStream, dir_list := dirs, bf_file := [], file_size := []\<rparr>
       in bind_r (mgr_open env filename m f) (\<lambda>(rc, f).
         if \<not> rc < 0 then Inr f
         else if m = CHR ''r'' \<or> rc \<noteq> RC_BF_CANNOT_OPEN_FILE then Inl ProcessExit
         else let (rc, f) = mgr_create env filename f
              in if rc < 0 then Inl ProcessExit
                 else bind_r (mgr_open env filename m f) (\<lambda>(rc, f).
                        if rc < 0 then Inl ProcessExit else Inr f))))"

definition FSBigFile_destroy :: "bigfile \<Rightarrow> disk result" where
  "FSBigFile_destroy f =
    (if bOpen f then bind_r (mgr_close f) (\<lambda>(_, f). Inr (bf_disk f)) else Inr (bf_disk f))"

section \<open>Reading\<close>

text \<open>\<open>read\<close>: the result is \<open>(rc, bytes put into the buffer)\<close>; on 0 the caller's \<open>size\<close> is their number.\<close>

definition bf_read :: "sysenv \<Rightarrow> int \<Rightarrow> bigfile \<Rightarrow> (int \<times> bytes \<times> bigfile) result" where
  "bf_read env n f =
    (if \<not> bOpen f then Inr (RC_BF_FILE_CLOSED, [], f)
     else if bf_mode f \<noteq> CHR ''r'' then Inr (RC_BF_WRITE_ONLY, [], f)
     else if n > max_file_size f then Inr (RC_BF_BUFFER_TOO_LONG, [], f)
     else bind_r (ftell f) (\<lambda>pos.
       if pos < 0 then Inr (RC_BF_FILE_ACCESS_ERROR, [], f)
       else let size1 = to_int (file_size f ! file_num f - pos)
       in if size1 = 0 \<and> file_num f = length (bf_file f) - 1 then Inr (RC_BF_EOF, [], f)
          else if size1 \<ge> n \<or> file_num f = length (bf_file f) - 1
          then bind_r (READ_BUF n f) (\<lambda>(rc, xs, f).
                 if rc < 0 then Inr (rc, [], f) else Inr (0, xs, f))
          else bind_r (READ_BUF size1 f) (\<lambda>(rc, xs, f).
                 if rc < 0 then Inr (rc, [], f)
                 else bind_r (set_current env (file_num f + 1) f) (\<lambda>(rc, f).
                   if rc < 0 then Inr (rc, xs, f)
                   else bind_r (READ_BUF (n - size1) f) (\<lambda>(rc, ys, f).
                     if rc < 0 then Inr (rc, xs, f) else Inr (0, xs @ ys, f))))))"

section \<open>Writing\<close>

definition set_size :: "nat \<Rightarrow> int \<Rightarrow> bigfile \<Rightarrow> bigfile" where
  "set_size n v f = f\<lparr>file_size := (file_size f)[n := v]\<rparr>"

definition bf_append :: "sysenv \<Rightarrow> bytes \<Rightarrow> bigfile \<Rightarrow> (int \<times> bigfile) result" where
  "bf_append env buf f =
    (let n = int (length buf)
     in bind_r (if file_size f ! file_num f + n > max_file_size f
                then let (rc, f) = add_chunk env f
                     in if rc < 0 then Inr (rc, f) else set_current env (file_num f + 1) f
                else Inr (0, f)) (\<lambda>(rc, f).
          if rc < 0 then Inr (rc, f)
          else bind_r (WRITE_BUF env buf n f) (\<lambda>(rc, f).
               if rc \<noteq> n then Inr (rc, f)
               else Inr (0, set_size (file_num f) (file_size f ! file_num f + n) f))))"

definition bf_overwrite :: "sysenv \<Rightarrow> bytes \<Rightarrow> nat \<Rightarrow> bigfile \<Rightarrow> (int \<times> bigfile) result" where
  "bf_overwrite env buf last_file f =
    (let n = int (length buf)
     in bind_r (ftell f) (\<lambda>pos.
       if pos < 0 then Inr (RC_BF_FILE_ACCESS_ERROR, f)
       else bind_r (if pos + n < file_size f ! file_num f then WRITE_BUF env buf n f else Inr (n, f)) (\<lambda>(rc, f).
         if rc \<noteq> n then Inr (rc, f)
         else if file_num f = last_file \<and> pos + n < max_file_size f
         then bind_r (WRITE_BUF env buf n f) (\<lambda>(rc, f).
                if rc \<noteq> n then Inr (rc, f)
                else let old = file_size f ! file_num f
                     in Inr (0, set_size (file_num f) (old + (n - (old - pos))) f))
         else let (rc, f) = (if file_num f = last_file then add_chunk env f else (0, f))
         in if rc < 0 then Inr (rc, f)
            else let size1 = to_int (file_size f ! file_num f - pos)
            in bind_r (WRITE_BUF env buf size1 f) (\<lambda>(rc, f).
               if rc \<noteq> size1 then Inr (rc, f)
               else let buf2 = drop (nat size1) buf; size2 = n - size1
               in bind_r (set_current env (file_num f + 1) f) (\<lambda>(rc, f).
                  if rc < 0 then Inr (rc, f)
                  else bind_r (WRITE_BUF env buf2 size2 f) (\<lambda>(rc, f).
                       if rc \<noteq> size2 then Inr (rc, f)
                       else Inr (0, if file_size f ! file_num f < size2
                                    then set_size (file_num f) size2 f else f)))))))"

definition bf_write :: "sysenv \<Rightarrow> bytes \<Rightarrow> bigfile \<Rightarrow> (int \<times> bigfile) result" where
  "bf_write env buf f =
    (let last_file = length (bf_file f) - 1
     in if \<not> bOpen f then Inr (RC_BF_FILE_CLOSED, f)
        else if bf_mode f = CHR ''r'' then Inr (RC_BF_READ_ONLY, f)
        else if int (length buf) > max_file_size f then Inr (RC_BF_BUFFER_TOO_LONG, f)
        else bind_r (if bf_mode f = CHR ''a'' \<and> file_num f \<noteq> last_file then set_current env last_file f
                     else Inr (0, f)) (\<lambda>(rc, f).
          if rc < 0 then Inr (rc, f)
          else if bf_mode f = CHR ''a'' then bf_append env buf f
          else if bf_mode f = CHR ''w'' then bf_overwrite env buf last_file f
          else Inr (0, f)))"

section \<open>Positions\<close>

text \<open>
  \<open>seek\<close>: the forward loop takes whole chunks off an offset until it falls inside one, the backward
  loop adds them to a negative offset.
\<close>

definition seek_to :: "sysenv \<Rightarrow> nat \<Rightarrow> int \<Rightarrow> nat \<Rightarrow> bigfile \<Rightarrow> (int \<times> bigfile) result" where
  "seek_to env i pos whence f = bind_r (set_current env i f) (\<lambda>(rc, f).
    if rc < 0 then Inr (rc, f)
    else bind_r (fseek pos whence f) (\<lambda>(rc, f).
      if rc < 0 then Inr (RC_BF_FILE_ACCESS_ERROR, f) else Inr (0, f)))"

function seek_forward :: "sysenv \<Rightarrow> nat \<Rightarrow> int \<Rightarrow> bigfile \<Rightarrow> (int \<times> bigfile) result" where
  "seek_forward env i pos f =
    (if i < length (file_size f)
     then if pos < file_size f ! i then seek_to env i pos 0 f
          else seek_forward env (i + 1) (pos - file_size f ! i) f
     else Inr (RC_BF_INVALID_PARAMETER, f))"
  by pat_completeness auto
termination
  by (relation "measure (\<lambda>(env, i, pos, f). length (file_size f) - i)") auto

text \<open>The loop variable is an \<open>int\<close> that may start at \<open>-1\<close>: \<open>n\<close> is \<open>i + 1\<close>.\<close>

fun seek_backward :: "sysenv \<Rightarrow> nat \<Rightarrow> int \<Rightarrow> bigfile \<Rightarrow> (int \<times> bigfile) result" where
  "seek_backward env 0 pos f = Inr (RC_BF_INVALID_PARAMETER, f)"
| "seek_backward env (Suc i) pos f =
    (if pos + file_size f ! i \<ge> 0 then seek_to env i pos 2 f
     else seek_backward env i (pos + file_size f ! i) f)"

declare seek_forward.simps [simp del]

definition seek_here :: "int \<Rightarrow> bigfile \<Rightarrow> (int \<times> bigfile) result" where
  "seek_here pos f = bind_r (fseek pos 1 f) (\<lambda>(rc, f).
    if rc < 0 then Inr (RC_BF_FILE_ACCESS_ERROR, f) else Inr (0, f))"

definition bf_seek :: "sysenv \<Rightarrow> int \<Rightarrow> int \<Rightarrow> bigfile \<Rightarrow> (int \<times> bigfile) result" where
  "bf_seek env pos whence f =
    (if \<not> bOpen f then Inr (RC_BF_FILE_CLOSED, f)
     else if whence = 0
     then if pos < 0 then Inr (RC_BF_INVALID_PARAMETER, f) else seek_forward env 0 pos f
     else if whence = 2
     then if pos > 0 then Inr (RC_BF_INVALID_PARAMETER, f) else seek_backward env (length (bf_file f)) pos f
     else if whence = 1
     then if pos = 0 then Inr (0, f)
          else bind_r (ftell f) (\<lambda>offset.
            if offset < 0 then Inr (RC_BF_FILE_ACCESS_ERROR, f)
            else if pos > 0
            then if pos + offset < file_size f ! file_num f then seek_here pos f
                 else seek_forward env (file_num f + 1) (pos - (file_size f ! file_num f - offset)) f
            else if pos + offset \<ge> 0 then seek_here pos f
                 else seek_backward env (file_num f) (pos + offset) f)
     else Inr (RC_BF_INVALID_PARAMETER, f))"

text \<open>The private \<open>tell\<close> (chunk name and offset in it), and the public one.\<close>

definition tell_chunk :: "bigfile \<Rightarrow> (int \<times> (path \<times> int) option) result" where
  "tell_chunk f =
    (if \<not> bOpen f then Inr (RC_BF_FILE_CLOSED, None)
     else bind_r (ftell f) (\<lambda>pos.
       let offset = to_int pos
       in if offset < 0 then Inr (RC_BF_FILE_ACCESS_ERROR, None)
          else Inr (0, Some (c_str (bf_file f ! file_num f), offset))))"

definition bf_tell :: "bigfile \<Rightarrow> int result" where
  "bf_tell f =
    (if \<not> bOpen f then Inr RC_BF_FILE_CLOSED
     else bind_r (ftell f) (\<lambda>pos.
       if pos < 0 then Inr RC_BF_FILE_ACCESS_ERROR
       else Inr (pos + sum_list (take (file_num f) (file_size f)))))"

end
