(* ===== verification/BigFileProps.thy ===== *)
theory BigFileProps
  imports BigFile
begin

text \<open>
  What the chunked file promises: one byte sequence, the concatenation of the chunks, in which
  \<open>seek\<close>, \<open>tell\<close> and \<open>read\<close> address bytes and to whose end \<open>write\<close> in append mode adds; and that
  closing and opening again sees the same sequence.
\<close>

section \<open>The abstraction and the invariant\<close>

definition all_bytes :: "bigfile \<Rightarrow> bytes" where
  "all_bytes f = concat (map (content (bf_disk f)) (bf_file f))"

definition chunk_ok :: "sysenv \<Rightarrow> disk \<Rightarrow> path \<Rightarrow> int \<Rightarrow> bool" where
  "chunk_ok env d p sz \<longleftrightarrow> (case d p of None \<Rightarrow> False | Some c \<Rightarrow> sz = int (length c)) \<and> can_open env p \<and> sz \<le> MAX_FILE_SIZE"

definition good_file :: "sysenv \<Rightarrow> bigfile \<Rightarrow> bool" where
  "good_file env f \<longleftrightarrow> bOpen f \<and> max_file_size f = MAX_FILE_SIZE
    \<and> list_all2 (chunk_ok env (bf_disk f)) (bf_file f) (file_size f)
    \<and> file_num f < length (bf_file f)
    \<and> (case cur_file f of Stream p pos \<Rightarrow> p = bf_file f ! file_num f \<and> int pos \<le> file_size f ! file_num f
       | _ \<Rightarrow> False)"

text \<open>The byte \<open>f\<close> stands at, counted from the start of the whole file.\<close>

definition position :: "bigfile \<Rightarrow> nat" where
  "position f = (case cur_file f of Stream p pos \<Rightarrow> pos | _ \<Rightarrow> 0)
     + length (concat (map (content (bf_disk f)) (take (file_num f) (bf_file f))))"

lemma chunk_ok_content: "chunk_ok env d p sz \<Longrightarrow> sz = int (length (content d p)) \<and> d p = Some (content d p)
    \<and> can_open env p \<and> sz \<le> MAX_FILE_SIZE"
  by (auto simp: chunk_ok_def content_def split: option.splits)

lemma sizes_are_lengths:
  assumes "list_all2 (chunk_ok env d) ps szs"
  shows "szs = map (\<lambda>p. int (length (content d p))) ps"
  using assms by (induction rule: list_all2_induct) (auto dest: chunk_ok_content)

lemma sum_sizes: "sum_list (map (\<lambda>p. int (length (content d p))) ps) = int (length (concat (map (content d) ps)))"
  by (induction ps) auto

lemma good_fileD:
  assumes "good_file env f"
  obtains pos where "bOpen f" "max_file_size f = MAX_FILE_SIZE"
    "file_size f = map (\<lambda>p. int (length (content (bf_disk f) p))) (bf_file f)"
    "file_num f < length (bf_file f)" "cur_file f = Stream (bf_file f ! file_num f) pos"
    "pos \<le> length (content (bf_disk f) (bf_file f ! file_num f))"
    "\<And>i. i < length (bf_file f) \<Longrightarrow> can_open env (bf_file f ! i)
       \<and> bf_disk f (bf_file f ! i) = Some (content (bf_disk f) (bf_file f ! i))
       \<and> int (length (content (bf_disk f) (bf_file f ! i))) \<le> MAX_FILE_SIZE"
proof -
  from assms obtain pos where c: "cur_file f = Stream (bf_file f ! file_num f) pos" "int pos \<le> file_size f ! file_num f"
    by (auto simp: good_file_def split: stream.splits)
  from assms have l: "list_all2 (chunk_ok env (bf_disk f)) (bf_file f) (file_size f)" and n: "file_num f < length (bf_file f)"
    by (auto simp: good_file_def)
  have sz: "file_size f = map (\<lambda>p. int (length (content (bf_disk f) p))) (bf_file f)"
    using sizes_are_lengths [OF l] .
  have e: "can_open env (bf_file f ! i) \<and> bf_disk f (bf_file f ! i) = Some (content (bf_disk f) (bf_file f ! i))
       \<and> int (length (content (bf_disk f) (bf_file f ! i))) \<le> MAX_FILE_SIZE" if "i < length (bf_file f)" for i
    using chunk_ok_content [OF list_all2_nthD [OF l that]] by auto
  show ?thesis
    using that [of pos] assms c n sz e by (auto simp: good_file_def)
qed

lemma good_fileI:
  assumes "bOpen f" "max_file_size f = MAX_FILE_SIZE"
    "file_size f = map (\<lambda>p. int (length (content (bf_disk f) p))) (bf_file f)"
    "file_num f < length (bf_file f)" "cur_file f = Stream (bf_file f ! file_num f) pos"
    "pos \<le> length (content (bf_disk f) (bf_file f ! file_num f))"
    "\<And>i. i < length (bf_file f) \<Longrightarrow> can_open env (bf_file f ! i)
       \<and> bf_disk f (bf_file f ! i) = Some (content (bf_disk f) (bf_file f ! i))
       \<and> int (length (content (bf_disk f) (bf_file f ! i))) \<le> MAX_FILE_SIZE"
  shows "good_file env f"
proof -
  have "list_all2 (chunk_ok env (bf_disk f)) (bf_file f) (file_size f)"
    using assms by (auto simp: list_all2_conv_all_nth chunk_ok_def split: option.splits)
  then show ?thesis using assms by (simp add: good_file_def)
qed

lemma bf_tell_position:
  assumes "good_file env f" shows "bf_tell f = Inr (int (position f))"
proof -
  obtain pos where f: "bOpen f" "file_size f = map (\<lambda>p. int (length (content (bf_disk f) p))) (bf_file f)"
    "cur_file f = Stream (bf_file f ! file_num f) pos"
    by (rule good_fileD [OF assms]) blast
  have "sum_list (take (file_num f) (file_size f))
     = int (length (concat (map (content (bf_disk f)) (take (file_num f) (bf_file f)))))"
    unfolding f(2) by (simp add: take_map sum_sizes)
  then show ?thesis using f by (simp add: bf_tell_def ftell_def position_def)
qed

section \<open>Seeking\<close>

lemma set_current_r:
  assumes "good_file env f" "bf_mode f = CHR ''r''" "i < length (bf_file f)"
  shows "set_current env i f = Inr (0, f\<lparr>cur_file := Stream (bf_file f ! i) 0, file_num := i\<rparr>)"
proof -
  obtain pos where f: "cur_file f = Stream (bf_file f ! file_num f) pos" 
    "\<And>i. i < length (bf_file f) \<Longrightarrow> can_open env (bf_file f ! i)
       \<and> bf_disk f (bf_file f ! i) = Some (content (bf_disk f) (bf_file f ! i))
       \<and> int (length (content (bf_disk f) (bf_file f ! i))) \<le> MAX_FILE_SIZE"
    by (rule good_fileD [OF assms(1)]) blast
  with f(2) [OF assms(3)] assms show ?thesis
    by (simp add: set_current_def fopen_def fclose_def split: option.splits)
qed

lemma good_move:
  assumes "good_file env f" "i < length (bf_file f)" "p \<le> length (content (bf_disk f) (bf_file f ! i))"
  shows "good_file env (f\<lparr>cur_file := Stream (bf_file f ! i) p, file_num := i\<rparr>)"
  using assms by (elim good_fileD) (rule good_fileI [where pos = p], simp_all)

lemma position_move:
  "position (f\<lparr>cur_file := Stream q p, file_num := i\<rparr>)
   = p + length (concat (map (content (bf_disk f)) (take i (bf_file f))))"
  by (simp add: position_def)

definition moved :: "bigfile \<Rightarrow> nat \<Rightarrow> nat \<Rightarrow> bigfile" where
  "moved f i p = f\<lparr>cur_file := Stream (bf_file f ! i) p, file_num := i\<rparr>"

lemma seek_to_moves:
  assumes g: "good_file env f" "bf_mode f = CHR ''r''" and i: "i < length (bf_file f)"
    and q: "base + q = int p" "base = (if w = 0 then 0 else file_size f ! i)" "w = 0 \<or> w = 2"
  shows "seek_to env i q w f = Inr (0, moved f i p)"
proof -
  obtain pos where f: "file_size f = map (\<lambda>p. int (length (content (bf_disk f) p))) (bf_file f)"
    by (rule good_fileD [OF g(1)]) blast
  let ?g = "f\<lparr>cur_file := Stream (bf_file f ! i) 0, file_num := i\<rparr>"
  have "fseek q w ?g = Inr (0, moved f i p)"
  proof (cases "w = 0")
    case True
    with q have "q = int p" by simp
    with True show ?thesis by (simp add: fseek_def moved_def)
  next
    case False
    with q i f have "int (length (content (bf_disk f) (bf_file f ! i))) + q = int p" by simp
    then have "\<not> int (length (content (bf_disk f) (bf_file f ! i))) + q < 0"
      "nat (int (length (content (bf_disk f) (bf_file f ! i))) + q) = p" by linarith+
    with False q(3) show ?thesis by (simp add: fseek_def moved_def)
  qed
  then show ?thesis by (simp add: seek_to_def set_current_r [OF g i])
qed

lemma seek_forward_finds:
  assumes "0 \<le> p" "p < sum_list (drop i (file_size f))" "\<forall>s\<in>set (file_size f). 0 \<le> s"
  shows "\<exists>j q. seek_forward env i p f = seek_to env j q 0 f \<and> j < length (file_size f) \<and> 0 \<le> q
    \<and> q < file_size f ! j \<and> sum_list (take j (file_size f)) + q = sum_list (take i (file_size f)) + p"
  using assms
proof (induction env i p f rule: seek_forward.induct)
  case (1 env i pos f)
  show ?case
  proof (cases "i < length (file_size f)")
    case False
    with 1 show ?thesis by simp
  next
    case True
    show ?thesis
    proof (cases "pos < file_size f ! i")
      case True
      then show ?thesis using 1(2) \<open>i < _\<close>
        by (intro exI [of _ i] exI [of _ pos]) (subst seek_forward.simps, simp)
    next
      case False
      have "drop i (file_size f) = file_size f ! i # drop (i + 1) (file_size f)"
        using \<open>i < _\<close> by (simp add: Cons_nth_drop_Suc)
      then have "pos - file_size f ! i < sum_list (drop (i + 1) (file_size f))" using 1(3) by simp
      with 1(1) [OF \<open>i < _\<close> False] 1(4) False obtain j q where
        "seek_forward env (i + 1) (pos - file_size f ! i) f = seek_to env j q 0 f" "j < length (file_size f)" "0 \<le> q"
        "q < file_size f ! j" "sum_list (take j (file_size f)) + q = sum_list (take (i + 1) (file_size f)) + (pos - file_size f ! i)"
        by auto
      then show ?thesis using False \<open>i < _\<close>
        by (intro exI [of _ j] exI [of _ q]) (subst seek_forward.simps, simp add: take_Suc_conv_app_nth)
    qed
  qed
qed

lemma seek_backward_finds:
  assumes "p \<le> 0" "0 \<le> sum_list (take i (file_size f)) + p" "0 < i" "i \<le> length (file_size f)"
  shows "\<exists>j q. seek_backward env i p f = seek_to env j q 2 f \<and> j < length (file_size f) \<and> q \<le> 0
    \<and> 0 \<le> q + file_size f ! j \<and> sum_list (take j (file_size f)) + file_size f ! j + q = sum_list (take i (file_size f)) + p"
  using assms
proof (induction i arbitrary: p)
  case (Suc i)
  have t: "sum_list (take (Suc i) (file_size f)) = sum_list (take i (file_size f)) + file_size f ! i"
    using Suc.prems by (simp add: take_Suc_conv_app_nth)
  show ?case
  proof (cases "p + file_size f ! i \<ge> 0")
    case True
    then show ?thesis using Suc.prems t by (intro exI [of _ i] exI [of _ p]) simp
  next
    case False
    with Suc.prems t have "0 < i" by (cases i) auto
    with Suc.IH [of "p + file_size f ! i"] Suc.prems t False show ?thesis by (auto simp: algebra_simps)
  qed
qed simp

lemma position_moved:
  assumes "good_file env f" "i < length (bf_file f)" "int p + sum_list (take i (file_size f)) = int t"
  shows "position (moved f i p) = t"
proof -
  have f: "file_size f = map (\<lambda>p. int (length (content (bf_disk f) p))) (bf_file f)"
    by (rule good_fileD [OF assms(1)]) blast
  have "sum_list (take i (file_size f)) = int (length (concat (map (content (bf_disk f)) (take i (bf_file f)))))"
    unfolding f by (simp add: take_map sum_sizes)
  with assms(3) have "int (p + length (concat (map (content (bf_disk f)) (take i (bf_file f))))) = int t"
    by simp
  then show ?thesis unfolding moved_def position_move by (simp only: of_nat_eq_iff)
qed

lemma total_size:
  assumes "good_file env f" shows "sum_list (file_size f) = int (length (all_bytes f))"
proof -
  have f: "file_size f = map (\<lambda>p. int (length (content (bf_disk f) p))) (bf_file f)"
    by (rule good_fileD [OF assms]) blast
  show ?thesis unfolding f all_bytes_def by (rule sum_sizes)
qed

lemma seek_by_loop:
  assumes g: "good_file env f" "bf_mode f = CHR ''r''"
    and j: "j < length (file_size f)" "w = 0 \<or> w = 2" "0 \<le> q + (if w = 0 then 0 else file_size f ! j)"
      "q + (if w = 0 then 0 else file_size f ! j) \<le> file_size f ! j"
    and t: "sum_list (take j (file_size f)) + (if w = 0 then 0 else file_size f ! j) + q = int t"
  shows "\<exists>i p. seek_to env j q w f = Inr (0, moved f i p) \<and> good_file env (moved f i p) \<and> position (moved f i p) = t"
proof -
  define p where "p = nat (q + (if w = 0 then 0 else file_size f ! j))"
  have p: "(if w = 0 then 0 else file_size f ! j) + q = int p" using j(3) by (simp add: p_def)
  have f: "file_size f = map (\<lambda>p. int (length (content (bf_disk f) p))) (bf_file f)"
    by (rule good_fileD [OF g(1)]) blast
  have jl: "j < length (bf_file f)" using j(1) by (simp add: f)
  have "int p \<le> file_size f ! j" using j(4) p by linarith
  then have "p \<le> length (content (bf_disk f) (bf_file f ! j))" using jl by (simp add: f)
  then have "good_file env (moved f j p)" unfolding moved_def by (rule good_move [OF g(1) jl])
  moreover have "position (moved f j p) = t"
    using p t by (intro position_moved [OF g(1) jl]) linarith
  moreover have "seek_to env j q w f = Inr (0, moved f j p)"
    by (rule seek_to_moves [OF g jl p refl j(2)])
  ultimately show ?thesis by blast
qed

lemma forward_lands:
  assumes g: "good_file env f" "bf_mode f = CHR ''r''"
    and p: "0 \<le> p" "sum_list (take i (file_size f)) + p = int t" "t < length (all_bytes f)"
  shows "\<exists>j q. seek_forward env i p f = Inr (0, moved f j q) \<and> good_file env (moved f j q) \<and> position (moved f j q) = t"
proof -
  have f: "file_size f = map (\<lambda>p. int (length (content (bf_disk f) p))) (bf_file f)"
    by (rule good_fileD [OF g(1)]) blast
  have nn: "\<forall>s\<in>set (file_size f). 0 \<le> s" by (auto simp: f)
  have "sum_list (take i (file_size f)) + sum_list (drop i (file_size f)) = sum_list (file_size f)"
    by (metis append_take_drop_id sum_list_append)
  with p(2,3) total_size [OF g(1)] have "p < sum_list (drop i (file_size f))" by linarith
  then obtain j q where j: "seek_forward env i p f = seek_to env j q 0 f" "j < length (file_size f)" "0 \<le> q"
      "q < file_size f ! j" "sum_list (take j (file_size f)) + q = sum_list (take i (file_size f)) + p"
    using seek_forward_finds [OF p(1) _ nn] by blast
  show ?thesis unfolding j(1)
    by (rule seek_by_loop [OF g j(2)]) (use j p in auto)
qed

lemma backward_lands:
  assumes g: "good_file env f" "bf_mode f = CHR ''r''" and i: "0 < i" "i \<le> length (bf_file f)"
    and p: "p \<le> 0" "sum_list (take i (file_size f)) + p = int t"
  shows "\<exists>j q. seek_backward env i p f = Inr (0, moved f j q) \<and> good_file env (moved f j q) \<and> position (moved f j q) = t"
proof -
  have f: "file_size f = map (\<lambda>p. int (length (content (bf_disk f) p))) (bf_file f)"
    by (rule good_fileD [OF g(1)]) blast
  have il: "i \<le> length (file_size f)" using i by (simp add: f)
  obtain j q where j: "seek_backward env i p f = seek_to env j q 2 f" "j < length (file_size f)" "q \<le> 0"
      "0 \<le> q + file_size f ! j" "sum_list (take j (file_size f)) + file_size f ! j + q = sum_list (take i (file_size f)) + p"
    using seek_backward_finds [OF p(1) _ i(1) il, of env] p(2) by auto
  show ?thesis unfolding j(1)
    by (rule seek_by_loop [OF g j(2)]) (use j p in auto)
qed

lemma seek_here_moves:
  assumes g: "good_file env f" and o: "cur_file f = Stream (bf_file f ! file_num f) off"
    and p: "0 \<le> int off + p" "int off + p \<le> file_size f ! file_num f"
  shows "\<exists>j q. seek_here p f = Inr (0, moved f j q) \<and> good_file env (moved f j q) \<and> int (position (moved f j q)) = int (position f) + p"
proof -
  have f: "file_size f = map (\<lambda>p. int (length (content (bf_disk f) p))) (bf_file f)" and n: "file_num f < length (bf_file f)"
    by (rule good_fileD [OF g], blast)+
  define q where "q = nat (int off + p)"
  have q: "int q = int off + p" "nat (int off + p) = q" using p by (auto simp: q_def)
  have "seek_here p f = Inr (0, moved f (file_num f) q)"
    using o q p by (simp add: seek_here_def fseek_def moved_def)
  moreover have "q \<le> length (content (bf_disk f) (bf_file f ! file_num f))" using p q n f by simp
  then have "good_file env (moved f (file_num f) q)" unfolding moved_def by (rule good_move [OF g n])
  moreover have "int (position (moved f (file_num f) q)) = int (position f) + p"
    unfolding moved_def position_move using q(1) o by (simp add: position_def)
  ultimately show ?thesis by blast
qed

definition seek_base :: "bigfile \<Rightarrow> int \<Rightarrow> int" where
  "seek_base f w = (if w = 0 then 0 else if w = 1 then int (position f) else int (length (all_bytes f)))"

lemma position_split:
  assumes "good_file env f" "cur_file f = Stream (bf_file f ! file_num f) off"
  shows "int (position f) = int off + sum_list (take (file_num f) (file_size f))"
proof -
  have f: "file_size f = map (\<lambda>p. int (length (content (bf_disk f) p))) (bf_file f)"
    by (rule good_fileD [OF assms(1)]) blast
  show ?thesis unfolding f using assms(2) by (simp add: position_def take_map sum_sizes)
qed

lemma seek_lands:
  assumes g: "good_file env f" "bf_mode f = CHR ''r''" and w: "w \<in> {0, 1, 2}"
    and t: "seek_base f w + pos = int t" "t < length (all_bytes f)"
  shows "bf_seek env pos w f = Inr (0, f) \<and> position f = t
    \<or> (\<exists>j q. bf_seek env pos w f = Inr (0, moved f j q) \<and> good_file env (moved f j q) \<and> position (moved f j q) = t)"
proof -
  obtain off where f: "bOpen f" "file_size f = map (\<lambda>p. int (length (content (bf_disk f) p))) (bf_file f)"
    "file_num f < length (bf_file f)" "cur_file f = Stream (bf_file f ! file_num f) off"
    "off \<le> length (content (bf_disk f) (bf_file f ! file_num f))"
    by (rule good_fileD [OF g(1)]) blast
  have n: "file_num f < length (file_size f)" using f(2,3) by simp
  note pos = position_split [OF g(1) f(4)]
  have tk: "sum_list (take (file_num f + 1) (file_size f)) = sum_list (take (file_num f) (file_size f)) + file_size f ! file_num f"
    using n by (simp add: take_Suc_conv_app_nth)
  have all: "sum_list (take (length (bf_file f)) (file_size f)) = int (length (all_bytes f))"
    using total_size [OF g(1)] by (simp add: f(2))
  consider "w = 0" | "w = 2" | "w = 1" "pos = 0" | "w = 1" "pos > 0" "pos + int off < file_size f ! file_num f"
    | "w = 1" "pos > 0" "\<not> pos + int off < file_size f ! file_num f"
    | "w = 1" "pos < 0" "pos + int off \<ge> 0" | "w = 1" "pos < 0" "\<not> pos + int off \<ge> 0"
    using w by force
  then show ?thesis
  proof cases
    case 1
    with t have "bf_seek env pos w f = seek_forward env 0 pos f" using f(1) by (simp add: bf_seek_def seek_base_def)
    moreover have "0 \<le> pos" "sum_list (take 0 (file_size f)) + pos = int t" using 1 t by (auto simp: seek_base_def)
    ultimately show ?thesis using forward_lands [OF g _ _ t(2)] by metis
  next
    case 2
    with t have p: "pos \<le> 0" "int (length (all_bytes f)) + pos = int t" by (auto simp: seek_base_def)
    with 2 have "bf_seek env pos w f = seek_backward env (length (bf_file f)) pos f" using f(1) by (simp add: bf_seek_def)
    moreover have "0 < length (bf_file f)" "sum_list (take (length (bf_file f)) (file_size f)) + pos = int t"
      using p(2) all f(3) by auto
    ultimately show ?thesis using backward_lands [OF g _ order_refl p(1)] by metis
  next
    case 3
    then show ?thesis using t f(1) by (simp add: bf_seek_def seek_base_def)
  next
    case 4
    then have "bf_seek env pos w f = seek_here pos f" using f(1,4) by (simp add: bf_seek_def ftell_def)
    then show ?thesis using seek_here_moves [OF g(1) f(4), of pos] 4 t by (auto simp: seek_base_def)
  next
    case 5
    then have "bf_seek env pos w f = seek_forward env (file_num f + 1) (pos - (file_size f ! file_num f - int off)) f"
      using f(1,4) by (simp add: bf_seek_def ftell_def)
    moreover have "sum_list (take (file_num f + 1) (file_size f)) + (pos - (file_size f ! file_num f - int off)) = int t"
      using 5 t pos tk by (simp add: seek_base_def)
    ultimately show ?thesis using forward_lands [OF g _ _ t(2)] 5 by (metis diff_ge_0_iff_ge diff_diff_eq2 linorder_not_less)
  next
    case 6
    then have "bf_seek env pos w f = seek_here pos f" using f(1,4) by (simp add: bf_seek_def ftell_def)
    then show ?thesis using seek_here_moves [OF g(1) f(4), of pos] 6 t f(5) f(2,3) by (auto simp: seek_base_def)
  next
    case 7
    then have s: "bf_seek env pos w f = seek_backward env (file_num f) (pos + int off) f"
      using f(1,4) by (simp add: bf_seek_def ftell_def)
    have b: "sum_list (take (file_num f) (file_size f)) + (pos + int off) = int t"
      using 7 t pos by (simp add: seek_base_def)
    have "0 < file_num f" using b 7 by (cases "file_num f") auto
    moreover have "file_num f \<le> length (bf_file f)" "pos + int off \<le> 0" using f(3) 7 by auto
    ultimately show ?thesis using backward_lands [OF g _ _ _ b] s by metis
  qed
qed

text \<open>
  In a file opened for reading, a seek to any byte of the file, relative to the start, the
  position or the end, succeeds whatever chunk the byte is in, and \<open>tell\<close> then gives that byte; the
  contents are untouched.
\<close>

theorem seek_reaches_byte:
  assumes "good_file env f" "bf_mode f = CHR ''r''" "w \<in> {0, 1, 2}"
    and "seek_base f w + pos = int t" "t < length (all_bytes f)"
  shows "\<exists>f'. bf_seek env pos w f = Inr (0, f') \<and> bf_tell f' = Inr (int t) \<and> good_file env f'
    \<and> all_bytes f' = all_bytes f \<and> bf_mode f' = bf_mode f"
proof -
  consider "bf_seek env pos w f = Inr (0, f)" "position f = t"
    | j q where "bf_seek env pos w f = Inr (0, moved f j q)" "good_file env (moved f j q)" "position (moved f j q) = t"
    using seek_lands [OF assms] by blast
  then show ?thesis
    by cases (use assms bf_tell_position in \<open>auto simp: all_bytes_def moved_def\<close>)
qed

section \<open>Reading\<close>

text \<open>What one \<open>read\<close> can reach: the rest of the current chunk and the next chunk.\<close>

definition window :: "bigfile \<Rightarrow> bytes" where
  "window f = (case cur_file f of Stream p pos \<Rightarrow> drop pos (content (bf_disk f) p) | _ \<Rightarrow> [])
     @ (if file_num f + 1 < length (bf_file f) then content (bf_disk f) (bf_file f ! (file_num f + 1)) else [])"

lemma drop_position:
  assumes g: "good_file env f" and c: "cur_file f = Stream (bf_file f ! file_num f) off"
  shows "drop (position f) (all_bytes f)
    = drop off (content (bf_disk f) (bf_file f ! file_num f)) @ concat (map (content (bf_disk f)) (drop (Suc (file_num f)) (bf_file f)))"
proof -
  have n: "file_num f < length (bf_file f)" and off: "off \<le> length (content (bf_disk f) (bf_file f ! file_num f))"
    by (rule good_fileD [OF g]; use c in simp)+
  have "bf_file f = take (file_num f) (bf_file f) @ bf_file f ! file_num f # drop (Suc (file_num f)) (bf_file f)"
    using n by (simp add: id_take_nth_drop)
  then have "all_bytes f = concat (map (content (bf_disk f)) (take (file_num f) (bf_file f)))
     @ content (bf_disk f) (bf_file f ! file_num f) @ concat (map (content (bf_disk f)) (drop (Suc (file_num f)) (bf_file f)))"
    unfolding all_bytes_def by (metis concat.simps(2) concat_append list.simps(9) map_append)
  then show ?thesis using off c by (simp add: position_def)
qed

lemma position_le:
  assumes g: "good_file env f" shows "position f \<le> length (all_bytes f)"
proof -
  obtain off where f: "file_num f < length (bf_file f)" "cur_file f = Stream (bf_file f ! file_num f) off"
    "off \<le> length (content (bf_disk f) (bf_file f ! file_num f))"
    by (rule good_fileD [OF g]) blast
  have "all_bytes f = concat (map (content (bf_disk f)) (take (file_num f) (bf_file f)))
     @ content (bf_disk f) (bf_file f ! file_num f) @ concat (map (content (bf_disk f)) (drop (Suc (file_num f)) (bf_file f)))"
    unfolding all_bytes_def using f(1) by (metis concat.simps(2) concat_append id_take_nth_drop list.simps(9) map_append)
  then show ?thesis using f by (simp add: position_def)
qed

lemma window_prefix:
  assumes g: "good_file env f"
  shows "\<exists>rest. drop (position f) (all_bytes f) = window f @ rest"
proof -
  obtain off where c: "cur_file f = Stream (bf_file f ! file_num f) off"
    by (rule good_fileD [OF g]) blast
  show ?thesis
    using drop_position [OF g c] c
    by (cases "file_num f + 1 < length (bf_file f)") (auto simp: window_def Cons_nth_drop_Suc [symmetric])
qed

lemma READ_BUF_reads:
  assumes "cur_file f = Stream p off" "drop off (content (bf_disk f) p) \<noteq> []" "0 < n" "n < 2 ^ 63"
  shows "READ_BUF n f = Inr (int (length (take (nat n) (drop off (content (bf_disk f) p)))), take (nat n) (drop off (content (bf_disk f) p)),
     f\<lparr>cur_file := Stream p (off + length (take (nat n) (drop off (content (bf_disk f) p))))\<rparr>)"
proof -
  have "n mod 2 ^ 64 = n" using assms(3,4) by simp
  then show ?thesis using assms by (simp add: READ_BUF_def Let_def)
qed

lemma moved_here: "cur_file f = Stream (bf_file f ! file_num f) off \<Longrightarrow> f\<lparr>cur_file := Stream (bf_file f ! file_num f) p\<rparr> = moved f (file_num f) p"
  by (simp add: moved_def)

lemma moved_self: "cur_file f = Stream (bf_file f ! file_num f) p \<Longrightarrow> moved f (file_num f) p = f"
  by (cases f) (simp add: moved_def)

lemma moved_good:
  "good_file env f \<Longrightarrow> i < length (bf_file f) \<Longrightarrow> p \<le> length (content (bf_disk f) (bf_file f ! i)) \<Longrightarrow> good_file env (moved f i p)"
  unfolding moved_def by (rule good_move)

lemma read_ok:
  assumes g: "good_file env f" "bf_mode f = CHR ''r''" and n: "0 < n" "n \<le> MAX_FILE_SIZE"
    and ne: "\<forall>p\<in>set (bf_file f). content (bf_disk f) p \<noteq> []" and t: "position f < length (all_bytes f)"
  shows "\<exists>i p. bf_read env n f = Inr (0, take (nat n) (window f), moved f i p) \<and> good_file env (moved f i p)
    \<and> position (moved f i p) = position f + length (take (nat n) (window f)) \<and> window f \<noteq> []"
proof -
  obtain off where f: "bOpen f" "max_file_size f = MAX_FILE_SIZE"
    "file_size f = map (\<lambda>p. int (length (content (bf_disk f) p))) (bf_file f)"
    "file_num f < length (bf_file f)" "cur_file f = Stream (bf_file f ! file_num f) off"
    "off \<le> length (content (bf_disk f) (bf_file f ! file_num f))"
    "int (length (content (bf_disk f) (bf_file f ! file_num f))) \<le> MAX_FILE_SIZE"
    by (rule good_fileD [OF g(1)]) metis
  define c where "c = content (bf_disk f) (bf_file f ! file_num f)"
  define s where "s = int (length c) - int off"
  have sz: "file_size f ! file_num f = int (length c)" using f(3,4) by (simp add: c_def)
  have s: "0 \<le> s" "s \<le> MAX_FILE_SIZE" "to_int s = s" "nat s = length (drop off c)"
    using f(6,7) by (auto simp: s_def c_def MAX_FILE_SIZE_def)
  have n64: "n < 2 ^ 63" using n by (simp add: MAX_FILE_SIZE_def)
  have w: "window f = drop off c @ (if file_num f + 1 < length (bf_file f) then content (bf_disk f) (bf_file f ! (file_num f + 1)) else [])"
    by (simp add: window_def f(5) c_def)
  have pos: "position (moved f (file_num f) p) = position f + q" if "p = off + q" for p q
    using that unfolding moved_def position_move by (simp add: position_def f(5))
  show ?thesis
  proof (cases "s \<ge> n \<or> file_num f = length (bf_file f) - 1")
    case True
    have ne': "drop off c \<noteq> []"
    proof
      assume e: "drop off c = []"
      with s True n have "file_num f = length (bf_file f) - 1" by auto
      then have "drop (position f) (all_bytes f) = []" using drop_position [OF g(1) f(5)] e f(4) by (simp add: c_def)
      with t show False by simp
    qed
    then have s0: "s \<noteq> 0" using s by auto
    define xs where "xs = take (nat n) (drop off c)"
    have "take (nat n) (window f) = xs"
      unfolding w xs_def using True s n by (auto simp: f(4))
    moreover have "bf_read env n f = Inr (0, xs, moved f (file_num f) (off + length xs))"
      using f g n True s s0 sz READ_BUF_reads [OF f(5), folded c_def, OF ne' n(1) n64] moved_here [OF f(5)]
      by (simp add: bf_read_def ftell_def s_def [symmetric] xs_def [symmetric])
    moreover have "good_file env (moved f (file_num f) (off + length xs))"
      using f(4,6) by (intro moved_good [OF g(1)]) (auto simp: xs_def c_def)
    ultimately show ?thesis using pos ne' w by auto
  next
    case False
    then have lt: "s < n" "Suc (file_num f) < length (bf_file f)" using f(4) by auto
    define d where "d = content (bf_disk f) (bf_file f ! Suc (file_num f))"
    have dne: "d \<noteq> []" using ne lt(2) by (simp add: d_def)
    define ys where "ys = take (nat (n - s)) d"
    have tk: "take (nat n) (window f) = drop off c @ ys"
    proof -
      have "nat n - length (drop off c) = nat (n - s)" "length (drop off c) \<le> nat n" using s lt(1) by linarith+
      then show ?thesis unfolding w using lt(2) by (simp add: d_def ys_def)
    qed
    define f1 where "f1 = moved f (file_num f) (length c)"
    have g1: "good_file env f1" "bf_mode f1 = CHR ''r''" "bf_file f1 = bf_file f" "bf_disk f1 = bf_disk f" "file_num f1 = file_num f"
      unfolding f1_def using moved_good [OF g(1) f(4), of "length c"] g(2) by (auto simp: c_def moved_def)
    have r1: "READ_BUF s f = Inr (s, drop off c, f1)"
    proof (cases "s = 0")
      case True
      then have "off = length c" using s_def by simp
      then have "f1 = f" "drop off c = []" using moved_self [OF f(5)] by (auto simp: f1_def)
      then show ?thesis using True by (simp add: READ_BUF_def)
    next
      case False
      then have "drop off c \<noteq> []" "0 < s" "s < 2 ^ 63" "take (nat s) (drop off c) = drop off c" "off + (length c - off) = length c"
        using s n64 lt by auto
      then show ?thesis
        using READ_BUF_reads [OF f(5), folded c_def, of s] moved_here [OF f(5)] s by (simp add: f1_def)
    qed
    have r2: "set_current env (Suc (file_num f)) f1 = Inr (0, moved f (Suc (file_num f)) 0)"
      using set_current_r [OF g1(1,2)] lt(2) g1(3) by (simp add: f1_def moved_def)
    have "READ_BUF (n - s) (moved f (Suc (file_num f)) 0) = Inr (int (length ys), ys, moved f (Suc (file_num f)) (length ys))"
      using READ_BUF_reads [of "moved f (Suc (file_num f)) 0" "bf_file f ! Suc (file_num f)" 0 "n - s"] dne lt(1) s n64
      by (simp add: moved_def d_def [symmetric] ys_def [symmetric])
    then have "bf_read env n f = Inr (0, drop off c @ ys, moved f (Suc (file_num f)) (length ys))"
      using f g n False s sz r1 r2 g1(5) by (simp add: bf_read_def ftell_def s_def [symmetric])
    moreover have "good_file env (moved f (Suc (file_num f)) (length ys))"
      using lt(2) by (intro moved_good [OF g(1)]) (auto simp: ys_def d_def)
    moreover have "position (moved f (Suc (file_num f)) (length ys)) = position f + length (drop off c @ ys)"
      unfolding moved_def position_move using f(4,6)
      by (simp add: position_def f(5) take_Suc_conv_app_nth c_def)
    ultimately show ?thesis using tk dne w lt(2) by (auto simp: d_def)
  qed
qed

lemma read_eof:
  assumes g: "good_file env f" "bf_mode f = CHR ''r''" and n: "n \<le> MAX_FILE_SIZE"
    and ne: "\<forall>p\<in>set (bf_file f). content (bf_disk f) p \<noteq> []" and t: "position f = length (all_bytes f)"
  shows "bf_read env n f = Inr (RC_BF_EOF, [], f)"
proof -
  obtain off where f: "bOpen f" "max_file_size f = MAX_FILE_SIZE"
    "file_size f = map (\<lambda>p. int (length (content (bf_disk f) p))) (bf_file f)"
    "file_num f < length (bf_file f)" "cur_file f = Stream (bf_file f ! file_num f) off"
    "off \<le> length (content (bf_disk f) (bf_file f ! file_num f))"
    by (rule good_fileD [OF g(1)]) blast
  have e: "drop off (content (bf_disk f) (bf_file f ! file_num f)) = []"
    "concat (map (content (bf_disk f)) (drop (Suc (file_num f)) (bf_file f))) = []"
    using drop_position [OF g(1) f(5)] t by auto
  have "\<forall>p\<in>set (drop (Suc (file_num f)) (bf_file f)). content (bf_disk f) p \<noteq> []"
    using ne by (meson in_set_dropD)
  with e(2) have "drop (Suc (file_num f)) (bf_file f) = []"
    by (cases "drop (Suc (file_num f)) (bf_file f)") auto
  then have "file_num f = length (bf_file f) - 1" using f(4) by simp
  moreover have "length (content (bf_disk f) (bf_file f ! file_num f)) = off" using e(1) f(6) by simp
  ultimately show ?thesis using f g n by (simp add: bf_read_def ftell_def to_int_def)
qed


section \<open>Appending\<close>

text \<open>
  A file open for appending: its chunks are distinct, none of them is the main file, and the main
  file lists them.
\<close>

definition good_append :: "sysenv \<Rightarrow> bigfile \<Rightarrow> bool" where
  "good_append env f \<longleftrightarrow> good_file env f \<and> bf_mode f = CHR ''a'' \<and> distinct (bf_file f)
    \<and> main_file f \<notin> set (bf_file f) \<and> bf_disk f (main_file f) = Some (main_text (bf_file f))"

text \<open>No chunk that could be added next exists yet, and the main file is not such a chunk.\<close>

definition next_chunk_fresh :: "sysenv \<Rightarrow> bigfile \<Rightarrow> bool" where
  "next_chunk_fresh env f \<longleftrightarrow> (\<forall>dir\<in>set (dir_list f).
     let p = chunk_name dir (bf_name f) (length (bf_file f))
     in bf_disk f p = None \<and> p \<noteq> main_file f \<and> p \<notin> set (bf_file f) \<and> can_open env p)"

definition on_chunk :: "bigfile \<Rightarrow> nat \<Rightarrow> bigfile" where
  "on_chunk f i = f\<lparr>cur_file := Stream (bf_file f ! i) (length (content (bf_disk f) (bf_file f ! i))), file_num := i\<rparr>"

lemma on_chunk_mode [simp]: "bf_mode (on_chunk f i) = bf_mode f"
  by (simp add: on_chunk_def)

lemma set_current_a:
  assumes "good_file env f" "bf_mode f = CHR ''a''" "i < length (bf_file f)"
  shows "set_current env i f = Inr (0, on_chunk f i)"
proof -
  obtain pos where f: "cur_file f = Stream (bf_file f ! file_num f) pos" "can_open env (bf_file f ! i)"
     "bf_disk f (bf_file f ! i) = Some (content (bf_disk f) (bf_file f ! i))"
    by (rule good_fileD [OF assms(1)]) (use assms(3) in blast)
  have "(bf_disk f)(bf_file f ! i \<mapsto> content (bf_disk f) (bf_file f ! i)) = bf_disk f"
    using f(3) by (simp add: fun_upd_idem)
  with f assms show ?thesis
    by (cases f) (simp add: set_current_def fopen_def fclose_def on_chunk_def)
qed

lemma overwrite_at_end [simp]: "overwrite_at c (length c) buf = c @ buf"
  by (simp add: overwrite_at_def)

lemma content_upd: "content (d(p \<mapsto> c)) q = (if q = p then c else content d q)"
  by (simp add: content_def)

lemma map_content_upd: "distinct ps \<Longrightarrow> i < length ps \<Longrightarrow>
    map (content (d(ps ! i \<mapsto> c))) ps = (map (content d) ps)[i := c]"
  by (rule nth_equalityI) (auto simp: content_upd nth_list_update nth_eq_iff_index_eq)

text \<open>Writing to the last chunk of a file opened for appending.\<close>

definition appended :: "bytes \<Rightarrow> bigfile \<Rightarrow> bigfile" where
  "appended buf f = (let p = bf_file f ! file_num f; c = content (bf_disk f) p
    in f\<lparr>bf_disk := (bf_disk f)(p \<mapsto> c @ buf), cur_file := Stream p (length c + length buf),
         file_size := (file_size f)[file_num f := file_size f ! file_num f + int (length buf)]\<rparr>)"

lemma appended_bytes:
  assumes "distinct (bf_file f)" "file_num f = length (bf_file f) - 1" "bf_file f \<noteq> []"
  shows "all_bytes (appended buf f) = all_bytes f @ buf"
proof -
  obtain ps p where ps: "bf_file f = ps @ [p]" using assms(3) by (metis rev_exhaust)
  then have p: "p \<notin> set ps" "bf_file f ! file_num f = p" using assms by auto
  have "content ((bf_disk f)(p \<mapsto> c)) q = content (bf_disk f) q" if "q \<in> set ps" for q c
    using that p(1) by (auto simp: content_upd)
  then have m: "map (content ((bf_disk f)(p \<mapsto> c))) ps = map (content (bf_disk f)) ps" for c
    by simp
  have "(ps @ [p]) ! file_num f = p" using p(2) ps by simp
  then show ?thesis by (simp add: m all_bytes_def appended_def Let_def ps content_upd)
qed

lemma appended_good:
  assumes g: "good_append env f" and n: "file_size f ! file_num f + int (length buf) \<le> MAX_FILE_SIZE"
  shows "good_append env (appended buf f)"
proof -
  have a: "bf_mode f = CHR ''a''" "distinct (bf_file f)" "main_file f \<notin> set (bf_file f)"
    "bf_disk f (main_file f) = Some (main_text (bf_file f))" "good_file env f"
    using g by (auto simp: good_append_def)
  obtain pos where f: "bOpen f" "max_file_size f = MAX_FILE_SIZE"
    "file_size f = map (\<lambda>p. int (length (content (bf_disk f) p))) (bf_file f)"
    "file_num f < length (bf_file f)" "cur_file f = Stream (bf_file f ! file_num f) pos"
    "\<And>i. i < length (bf_file f) \<Longrightarrow> can_open env (bf_file f ! i)
       \<and> bf_disk f (bf_file f ! i) = Some (content (bf_disk f) (bf_file f ! i))
       \<and> int (length (content (bf_disk f) (bf_file f ! i))) \<le> MAX_FILE_SIZE"
    by (rule good_fileD [OF a(5)]) blast
  let ?p = "bf_file f ! file_num f"
  let ?d = "(bf_disk f)(?p \<mapsto> content (bf_disk f) ?p @ buf)"
  have sz: "file_size (appended buf f) = map (\<lambda>p. int (length (content ?d p))) (bf_file f)"
    using f(4) a(2) by (auto simp: appended_def Let_def f(3) content_upd nth_list_update nth_eq_iff_index_eq intro!: nth_equalityI)
  have "good_file env (appended buf f)"
  proof (rule good_fileI [where pos = "length (content (bf_disk f) ?p) + length buf"])
    fix i assume i: "i < length (bf_file (appended buf f))"
    then show "can_open env (bf_file (appended buf f) ! i)
       \<and> bf_disk (appended buf f) (bf_file (appended buf f) ! i) = Some (content (bf_disk (appended buf f)) (bf_file (appended buf f) ! i))
       \<and> int (length (content (bf_disk (appended buf f)) (bf_file (appended buf f) ! i))) \<le> MAX_FILE_SIZE"
      using f(6) [of i] n f(3,4) by (auto simp: appended_def Let_def content_upd)
  qed (use f sz in \<open>auto simp: appended_def Let_def content_upd\<close>)
  moreover have "main_file f \<noteq> ?p" using a(3) f(4) by (metis nth_mem)
  ultimately show ?thesis using a by (simp add: good_append_def appended_def Let_def)
qed

text \<open>A chunk added at the end.\<close>

definition with_chunk :: "path \<Rightarrow> bigfile \<Rightarrow> bigfile" where
  "with_chunk p f = f\<lparr>bf_disk := (bf_disk f)(p \<mapsto> [], main_file f \<mapsto> main_text (bf_file f @ [p])),
     bf_file := bf_file f @ [p], file_size := file_size f @ [0]\<rparr>"

lemma allocate_dir: "allocate env dirs = (rc, dir) \<Longrightarrow> \<not> rc < 0 \<Longrightarrow> rc = 0 \<and> dir \<in> set dirs"
  by (auto simp: allocate_def rc_defs split: if_splits list.splits dest!: filter_eq_ConsD)

lemma add_chunk_cases:
  assumes "next_chunk_fresh env f" "add_chunk env f = (rc, f')"
  obtains "rc < 0" "all_bytes f' = all_bytes f"
  | dir where "rc = 0" "dir \<in> set (dir_list f)" "f' = with_chunk (chunk_name dir (bf_name f) (length (bf_file f))) f"
proof -
  obtain r dir where al: "allocate env (dir_list f) = (r, dir)" by force
  let ?p = "chunk_name dir (bf_name f) (length (bf_file f))"
  consider "r < 0" | "r = 0" "dir \<in> set (dir_list f)" using allocate_dir [OF al] by fastforce
  then show ?thesis
  proof cases
    case 1
    with al assms(2) show ?thesis using that(1) by (auto simp: add_chunk_def)
  next
    case 2
    then have fr: "bf_disk f ?p = None" "?p \<noteq> main_file f" "?p \<notin> set (bf_file f)"
      using assms(1) by (auto simp: next_chunk_fresh_def Let_def)
    have same: "map (content ((bf_disk f)(?p \<mapsto> []))) (bf_file f) = map (content (bf_disk f)) (bf_file f)"
      using fr(3) by (auto simp: content_upd)
    have c0: "content (bf_disk f) ?p = []" using fr(1) by (simp add: content_def)
    show ?thesis
    proof (cases "can_create env ?p \<and> can_create env (main_file f)")
      case True
      with 2 al assms(2) c0 have "rc = 0" "f' = with_chunk ?p f"
        by (auto simp: add_chunk_def CREATE_FILE_def with_chunk_def Let_def)
      with 2 show ?thesis using that(2) by blast
    next
      case False
      with 2 al assms(2) c0 have "rc < 0 \<and> all_bytes f' = all_bytes f"
        by (auto simp: same Let_def add_chunk_def CREATE_FILE_def rc_defs all_bytes_def content_upd split: if_splits)
      then show ?thesis using that(1) by blast
    qed
  qed
qed

lemma with_chunk_good:
  assumes g: "good_append env f" and p: "p \<noteq> main_file f" "p \<notin> set (bf_file f)" "can_open env p"
  shows "good_append env (with_chunk p f)" "all_bytes (with_chunk p f) = all_bytes f"
proof -
  have a: "bf_mode f = CHR ''a''" "distinct (bf_file f)" "main_file f \<notin> set (bf_file f)" "good_file env f"
    using g by (auto simp: good_append_def)
  obtain pos where f: "bOpen f" "max_file_size f = MAX_FILE_SIZE"
    "file_size f = map (\<lambda>p. int (length (content (bf_disk f) p))) (bf_file f)"
    "file_num f < length (bf_file f)" "cur_file f = Stream (bf_file f ! file_num f) pos"
    "pos \<le> length (content (bf_disk f) (bf_file f ! file_num f))"
    "\<And>i. i < length (bf_file f) \<Longrightarrow> can_open env (bf_file f ! i)
       \<and> bf_disk f (bf_file f ! i) = Some (content (bf_disk f) (bf_file f ! i))
       \<and> int (length (content (bf_disk f) (bf_file f ! i))) \<le> MAX_FILE_SIZE"
    by (rule good_fileD [OF a(4)]) blast
  let ?d = "(bf_disk f)(p \<mapsto> [], main_file f \<mapsto> main_text (bf_file f @ [p]))"
  have old: "?d q = bf_disk f q \<and> content ?d q = content (bf_disk f) q" if "q \<in> set (bf_file f)" for q
    using that a(3) p(2) by (auto simp: content_upd)
  have new: "?d p = Some []" "content ?d p = []" using p(1) by (auto simp: content_upd)
  have w: "bf_disk (with_chunk p f) = ?d" "bf_file (with_chunk p f) = bf_file f @ [p]"
    "file_size (with_chunk p f) = file_size f @ [0]" "cur_file (with_chunk p f) = cur_file f"
    "file_num (with_chunk p f) = file_num f" "bOpen (with_chunk p f) = bOpen f" "bf_mode (with_chunk p f) = bf_mode f"
    "max_file_size (with_chunk p f) = max_file_size f" "main_file (with_chunk p f) = main_file f"
    by (simp_all add: with_chunk_def)
  have maps: "map (content ?d) (bf_file f) = map (content (bf_disk f)) (bf_file f)"
    "map (\<lambda>q. int (length (content ?d q))) (bf_file f) = map (\<lambda>p. int (length (content (bf_disk f) p))) (bf_file f)"
    using old by auto
  show "all_bytes (with_chunk p f) = all_bytes f"
    unfolding all_bytes_def w map_append concat_append maps by (simp add: new)
  have "good_file env (with_chunk p f)"
  proof (rule good_fileI [where pos = pos])
    show "file_size (with_chunk p f) = map (\<lambda>q. int (length (content (bf_disk (with_chunk p f)) q))) (bf_file (with_chunk p f))"
      unfolding w map_append maps using f(3) new by simp
  next
    fix i assume "i < length (bf_file (with_chunk p f))"
    then consider "i < length (bf_file f)" | "i = length (bf_file f)" by (auto simp: w less_Suc_eq)
    then show "can_open env (bf_file (with_chunk p f) ! i)
       \<and> bf_disk (with_chunk p f) (bf_file (with_chunk p f) ! i) = Some (content (bf_disk (with_chunk p f)) (bf_file (with_chunk p f) ! i))
       \<and> int (length (content (bf_disk (with_chunk p f)) (bf_file (with_chunk p f) ! i))) \<le> MAX_FILE_SIZE"
    proof cases
      case 1
      then have "bf_file f ! i \<in> set (bf_file f)" by simp
      with old f(7) [OF 1] 1 show ?thesis unfolding w by (simp only: nth_append if_True)
    next
      case 2
      then show ?thesis unfolding w using new p(3) by (simp add: nth_append MAX_FILE_SIZE_def)
    qed
  next
    show "pos \<le> length (content (bf_disk (with_chunk p f)) (bf_file (with_chunk p f) ! file_num (with_chunk p f)))"
      unfolding w using f(4,6) old by (simp add: nth_append)
    show "cur_file (with_chunk p f) = Stream (bf_file (with_chunk p f) ! file_num (with_chunk p f)) pos"
      unfolding w using f(4,5) by (simp add: nth_append)
  qed (use f w in auto)
  then show "good_append env (with_chunk p f)"
    using a p w by (simp add: good_append_def)
qed

lemma on_chunk_good:
  assumes "good_append env f" "i < length (bf_file f)"
  shows "good_append env (on_chunk f i)" "all_bytes (on_chunk f i) = all_bytes f"
  using good_move [of env f i "length (content (bf_disk f) (bf_file f ! i))"] assms
  by (auto simp: on_chunk_def good_append_def all_bytes_def)

lemma WRITE_BUF_appends:
  assumes g: "good_append env f" and acc: "\<forall>n. n \<le> accepts env n"
  shows "bind_r (WRITE_BUF env buf (int (length buf)) f) (\<lambda>(rc, f).
      if rc \<noteq> int (length buf) then Inr (rc, f)
      else Inr (0, set_size (file_num f) (file_size f ! file_num f + int (length buf)) f)) = Inr (0, if buf = [] then f else appended buf f)"
proof -
  obtain pos where f: "cur_file f = Stream (bf_file f ! file_num f) pos" "file_num f < length (file_size f)"
    by (rule good_fileD [of env f]) (use g in \<open>auto simp: good_append_def\<close>)
  show ?thesis
  proof (cases "buf = []")
    case True
    have "set_size (file_num f) (file_size f ! file_num f) f = f"
      by (cases f) (simp add: set_size_def)
    then show ?thesis using True by (auto simp: WRITE_BUF_def)
  next
    case False
    moreover have "min (accepts env (length buf)) (length buf) = length buf" using acc by (simp add: min.absorb2)
    ultimately show ?thesis using f g
      by (auto simp: WRITE_BUF_def good_append_def appended_def set_size_def Let_def)
  qed
qed


lemma appended_or_same:
  assumes "good_append env f" "file_num f = length (bf_file f) - 1" "file_size f ! file_num f + int (length buf) \<le> MAX_FILE_SIZE"
  shows "all_bytes (if buf = [] then f else appended buf f) = all_bytes f @ buf
    \<and> good_append env (if buf = [] then f else appended buf f)"
proof -
  have "bf_file f \<noteq> []" by (rule good_fileD [of env f]) (use assms(1) in \<open>auto simp: good_append_def\<close>)
  then show ?thesis
    using assms appended_good [OF assms(1,3)] appended_bytes [OF _ assms(2)] by (auto simp: good_append_def)
qed

lemma bf_append_last:
  assumes g: "good_append env f" and last: "file_num f = length (bf_file f) - 1"
    and n: "int (length buf) \<le> MAX_FILE_SIZE" and acc: "\<forall>n. n \<le> accepts env n" and fr: "next_chunk_fresh env f"
  shows "\<exists>rc f'. bf_append env buf f = Inr (rc, f') \<and> all_bytes f' = all_bytes f @ (if rc = 0 then buf else [])
    \<and> (rc = 0 \<longrightarrow> good_append env f') \<and> (file_size f ! file_num f + int (length buf) \<le> MAX_FILE_SIZE \<longrightarrow> rc = 0)"
proof (cases "file_size f ! file_num f + int (length buf) > MAX_FILE_SIZE")
  case False
  have "max_file_size f = MAX_FILE_SIZE" by (rule good_fileD [of env f]) (use g in \<open>auto simp: good_append_def\<close>)
  then have "bf_append env buf f = Inr (0, if buf = [] then f else appended buf f)"
    using False WRITE_BUF_appends [OF g acc] by (simp add: bf_append_def Let_def)
  then show ?thesis using appended_or_same [OF g last] False by auto
next
  case True
  have m: "max_file_size f = MAX_FILE_SIZE" "0 < length (bf_file f)"
    by (rule good_fileD [of env f]; use g in \<open>auto simp: good_append_def\<close>)+
  obtain rc f1 where ac: "add_chunk env f = (rc, f1)" by force
  from add_chunk_cases [OF fr ac] show ?thesis
  proof cases
    case 1
    then show ?thesis using True m ac by (auto simp: bf_append_def Let_def)
  next
    case (2 dir)
    let ?p = "chunk_name dir (bf_name f) (length (bf_file f))"
    have p: "?p \<noteq> main_file f" "?p \<notin> set (bf_file f)" "can_open env ?p"
      using fr 2(2) by (auto simp: next_chunk_fresh_def Let_def)
    note g1 = with_chunk_good [OF g p, folded 2(3)]
    have l1: "bf_file f1 = bf_file f @ [?p]" "file_num f1 = file_num f" using 2(3) by (auto simp: with_chunk_def)
    have i: "Suc (file_num f) < length (bf_file f1)" "file_num f + 1 = length (bf_file f1) - 1" using l1 last m by auto
    note g2 = on_chunk_good [OF g1(1) i(1)]
    have sc: "set_current env (Suc (file_num f)) f1 = Inr (0, on_chunk f1 (Suc (file_num f)))"
      using set_current_a [OF _ _ i(1)] g1(1) by (simp add: good_append_def)
    have z: "file_size (on_chunk f1 (Suc (file_num f))) ! file_num (on_chunk f1 (Suc (file_num f))) = 0"
    proof -
      have "length (file_size f) = length (bf_file f)" by (rule good_fileD [of env f]) (use g in \<open>auto simp: good_append_def\<close>)
      then show ?thesis using 2(3) last m(2) by (simp add: on_chunk_def with_chunk_def nth_append)
    qed
    let ?f2 = "on_chunk f1 (Suc (file_num f))"
    have "bf_append env buf f = Inr (0, if buf = [] then ?f2 else appended buf ?f2)"
      using True m ac 2(1) sc l1 WRITE_BUF_appends [OF g2(1) acc] by (simp add: bf_append_def Let_def)
    moreover have "all_bytes (if buf = [] then ?f2 else appended buf ?f2) = all_bytes ?f2 @ buf
        \<and> good_append env (if buf = [] then ?f2 else appended buf ?f2)"
      using i(2) n z by (intro appended_or_same [OF g2(1)]) (auto simp: on_chunk_def)
    ultimately show ?thesis using g1(2) g2(2) True by auto
  qed
qed


section \<open>Closing and opening again\<close>

lemma read_names_skip: "is_space c \<Longrightarrow> read_names (c # s) = read_names s"
  by (subst (1 2) read_names.simps) simp

lemma read_names_word:
  assumes "p \<noteq> []" "\<forall>c\<in>set p. \<not> is_space c" "is_space w"
  shows "read_names (p @ w # s) = p # read_names s"
proof -
  obtain c q where p: "p = c # q" using assms(1) by (cases p) auto
  then have d: "dropWhile is_space (p @ w # s) = p @ w # s" using assms(2) by simp
  have t: "takeWhile (\<lambda>c. \<not> is_space c) (p @ w # s) = p" "dropWhile (\<lambda>c. \<not> is_space c) (p @ w # s) = w # s"
    using assms(2,3) by (simp_all add: takeWhile_append2 dropWhile_append2)
  have "read_names (p @ w # s) = p # read_names (w # s)"
    by (subst read_names.simps) (simp add: d t Let_def del: dropWhile_eq_Nil_conv)
  then show ?thesis by (simp add: read_names_skip [OF assms(3)])
qed

lemma read_names_main_text:
  assumes "\<forall>p\<in>set ps. p \<noteq> [] \<and> (\<forall>c\<in>set p. \<not> is_space c)"
  shows "read_names (main_text ps) = ps"
  using assms
proof (induction ps)
  case Nil
  show ?case by (subst read_names.simps) (simp add: main_text_def)
next
  case (Cons p ps)
  then show ?case
    using read_names_word [of p 10 "main_text ps"] by (simp add: main_text_def is_space_def)
qed

lemma reopen_file:
  assumes "good_append env f" "can_open env (main_file f)"
    and "\<forall>p\<in>set (bf_file f). p \<noteq> [] \<and> (\<forall>c\<in>set p. \<not> is_space c)"
  shows "\<exists>f'. FSBigFile_destroy f = Inr (bf_disk f)
    \<and> FSBigFile env (main_file f) None (CHR ''r'') (junk\<lparr>bf_disk := bf_disk f\<rparr>) = Inr f'
    \<and> bf_file f' = bf_file f \<and> bf_disk f' = bf_disk f \<and> bf_mode f' = CHR ''r'' \<and> position f' = 0 \<and> good_file env f'"
proof -
  have a: "good_file env f" "bf_disk f (main_file f) = Some (main_text (bf_file f))" using assms(1) by (auto simp: good_append_def)
  obtain pos where f: "bOpen f" "file_num f < length (bf_file f)" "cur_file f = Stream (bf_file f ! file_num f) pos"
    "\<And>i. i < length (bf_file f) \<Longrightarrow> can_open env (bf_file f ! i)
       \<and> bf_disk f (bf_file f ! i) = Some (content (bf_disk f) (bf_file f ! i))
       \<and> int (length (content (bf_disk f) (bf_file f ! i))) \<le> MAX_FILE_SIZE"
    by (rule good_fileD [OF a(1)]) blast
  have ne: "bf_file f \<noteq> []" "0 < length (bf_file f)" using f(2) by auto
  have ex: "(\<exists>p\<in>set (bf_file f). bf_disk f p = None) = False"
    using f(4) by (metis in_set_conv_nth option.distinct(1))
  note rn = read_names_main_text [OF assms(3)]
  let ?m = "main_file f"
  define f' where "f' = junk\<lparr>bOpen := True, bf_mode := CHR ''r'', main_file := ?m, bf_name := FILENAME_ONLY ?m,
     bf_file := bf_file f, file_size := map (\<lambda>p. int (length (content (bf_disk f) p))) (bf_file f),
     max_file_size := MAX_FILE_SIZE, cur_file := Stream (bf_file f ! 0) 0, file_num := 0, dir_list := [], bf_disk := bf_disk f\<rparr>"
  have d: "FSBigFile_destroy f = Inr (bf_disk f)"
    using f(1,3) by (simp add: FSBigFile_destroy_def mgr_close_def fclose_def)
  have o: "fopen env (bf_file f ! 0) (CHR ''r'') (bf_disk f) = Some (Stream (bf_file f ! 0) 0, bf_disk f)"
    using f(4) [OF ne(2)] by (simp add: fopen_def split: option.splits)
  have "FSBigFile env ?m None (CHR ''r'') (junk\<lparr>bf_disk := bf_disk f\<rparr>) = Inr f'"
    using a(2) assms(2) rn ne o ex
    by (simp add: FSBigFile_def mgr_dirs_def mgr_open_def Let_def f'_def RC_BF_CANNOT_OPEN_FILE_def)
  moreover have g: "good_file env f'"
    by (rule good_fileI [where pos = 0]) (use ne f(4) in \<open>auto simp: f'_def\<close>)
  moreover have "bf_file f' = bf_file f" "bf_disk f' = bf_disk f" "bf_mode f' = CHR ''r''" "position f' = 0"
    by (simp_all add: f'_def position_def)
  ultimately show ?thesis using d by blast
qed

text \<open>
  Destroying a file opened for appending and constructing it again for reading, from the main
  file alone, gives the same chunks and the same bytes, at position 0. Chunk paths contain no white
  space.
\<close>

theorem close_then_reopen:
  assumes "good_append env f" "can_open env (main_file f)"
    and "\<forall>p\<in>set (bf_file f). p \<noteq> [] \<and> (\<forall>c\<in>set p. \<not> is_space c)"
  shows "\<exists>d f'. FSBigFile_destroy f = Inr d \<and> FSBigFile env (main_file f) None (CHR ''r'') (junk\<lparr>bf_disk := d\<rparr>) = Inr f'
    \<and> bf_file f' = bf_file f \<and> all_bytes f' = all_bytes f \<and> bf_tell f' = Inr 0 \<and> good_file env f'"
  using reopen_file [OF assms, of junk] bf_tell_position by (force simp: all_bytes_def)

section \<open>Rewriting\<close>

text \<open>
  In \<open>w\<close> mode, a write that falls inside the last chunk is done twice: the first branch writes the
  buffer and does not return, the second writes it again behind itself, over bytes it was not given,
  and records a size that forgets everything after the first copy.
\<close>

theorem rewrite_inside_chunk_repeats:
  assumes "good_file env f" "bf_mode f = CHR ''w''" "\<forall>n. n \<le> accepts env n"
    and "file_num f = length (bf_file f) - 1" "cur_file f = Stream p pos" "buf \<noteq> []"
    and "pos + length buf < length (content (bf_disk f) p)"
  shows "\<exists>f'. bf_write env buf f = Inr (0, f')
    \<and> content (bf_disk f') p = take pos (content (bf_disk f) p) @ buf @ buf @ drop (pos + length buf + length buf) (content (bf_disk f) p)
    \<and> file_size f' ! file_num f' = int (pos + length buf)"
proof -
  let ?c = "content (bf_disk f) p"
  have f: "bOpen f" "max_file_size f = MAX_FILE_SIZE" "file_num f < length (bf_file f)"
    "file_size f = map (\<lambda>p. int (length (content (bf_disk f) p))) (bf_file f)"
    by (rule good_fileD [OF assms(1)]; simp)+
  have p: "p = bf_file f ! file_num f" "int (length ?c) \<le> MAX_FILE_SIZE"
    by (rule good_fileD [OF assms(1)]; use assms(5) in auto)+
  have sz: "file_size f ! file_num f = int (length ?c)" "file_num f < length (file_size f)" using f(3,4) p(1) by auto
  have acc: "min (accepts env (length buf)) (length buf) = length buf" using assms(3) by (simp add: min.absorb2)
  have w: "WRITE_BUF env buf (int (length buf)) g = Inr (int (length buf),
      g\<lparr>bf_disk := (bf_disk g)(p \<mapsto> overwrite_at (content (bf_disk g) p) q buf), cur_file := Stream p (q + length buf)\<rparr>)"
    if "cur_file g = Stream p q" "bf_mode g = CHR ''w''" for g q
    using that acc assms(6) by (simp add: WRITE_BUF_def Let_def)
  define c1 where "c1 = overwrite_at ?c pos buf"
  have c1: "c1 = take pos ?c @ buf @ drop (pos + length buf) ?c" using assms(7) by (simp add: c1_def overwrite_at_def)
  have c2: "overwrite_at c1 (pos + length buf) buf = take pos ?c @ buf @ buf @ drop (pos + length buf + length buf) ?c"
    using assms(7) by (simp add: c1 overwrite_at_def min_def algebra_simps)
  have lt: "int pos + int (length buf) < int (length ?c)" using assms(7) by linarith
  have n: "int (length buf) \<le> MAX_FILE_SIZE" "int pos + int (length buf) < MAX_FILE_SIZE" using lt p(2) by linarith+
  let ?g = "f\<lparr>bf_disk := (bf_disk f)(p \<mapsto> c1), cur_file := Stream p (pos + length buf)\<rparr>"
  have w1: "WRITE_BUF env buf (int (length buf)) f = Inr (int (length buf), ?g)"
    using w [OF assms(5,2)] by (simp add: c1_def)
  have w2: "WRITE_BUF env buf (int (length buf)) ?g = Inr (int (length buf),
      ?g\<lparr>bf_disk := (bf_disk f)(p \<mapsto> overwrite_at c1 (pos + length buf) buf), cur_file := Stream p (pos + length buf + length buf)\<rparr>)"
    using w [of ?g "pos + length buf"] assms(2) by (simp add: content_upd)
  have "bf_write env buf f = Inr (0, set_size (file_num f) (int (length ?c) + (int (length buf) - (int (length ?c) - int pos)))
      (?g\<lparr>bf_disk := (bf_disk f)(p \<mapsto> overwrite_at c1 (pos + length buf) buf), cur_file := Stream p (pos + length buf + length buf)\<rparr>))"
    using f(1-3) n lt assms(2,4,5) sz w1 w2
    by (simp add: bf_write_def bf_overwrite_def ftell_def)
  then show ?thesis using sz c2 by (simp add: set_size_def content_upd)
qed

section \<open>Witnesses\<close>

text \<open>Two chunks \<open>a.0\<close> and \<open>a.1\<close> of the main file \<open>a\<close>, holding \<open>1 2 3\<close> and \<open>4 5\<close>.\<close>

definition demo_env :: sysenv where
  "demo_env = \<lparr>can_open = \<lambda>_. True, can_create = \<lambda>_. True, can_remove = \<lambda>_. True, accepts = \<lambda>n. n,
     statfs = \<lambda>_. Some (2097152, 1024)\<rparr>"

definition demo_file :: "char \<Rightarrow> nat \<Rightarrow> nat \<Rightarrow> bigfile" where
  "demo_file m n off = \<lparr>bOpen = True, bf_mode = m, main_file = [97], bf_name = [97],
     bf_file = [[97, 46, 48], [97, 46, 49]], file_size = [3, 2], max_file_size = MAX_FILE_SIZE,
     cur_file = Stream ([[97, 46, 48], [97, 46, 49]] ! n) off, file_num = n, dir_list = [[47]],
     bf_disk = (\<lambda>p. if p = [97, 46, 48] then Some [1, 2, 3] else if p = [97, 46, 49] then Some [4, 5]
        else if p = [97] then Some (main_text [[97, 46, 48], [97, 46, 49]]) else None)\<rparr>"

lemmas demo_simps = demo_file_def demo_env_def good_file_def chunk_ok_def content_def all_bytes_def
  MAX_FILE_SIZE_def

theorem seek_reaches_byte_witness:
  "\<exists>f'. bf_seek demo_env 2 1 (demo_file (CHR ''r'') 0 2) = Inr (0, f') \<and> bf_tell f' = Inr (int 4) \<and> good_file demo_env f'
    \<and> all_bytes f' = all_bytes (demo_file (CHR ''r'') 0 2) \<and> bf_mode f' = bf_mode (demo_file (CHR ''r'') 0 2)"
  by (rule seek_reaches_byte) (simp_all add: demo_simps seek_base_def position_def)



theorem close_then_reopen_witness:
  "\<exists>d f'. FSBigFile_destroy (demo_file (CHR ''a'') 1 2) = Inr d
    \<and> FSBigFile demo_env (main_file (demo_file (CHR ''a'') 1 2)) None (CHR ''r'') (demo_file (CHR ''w'') 0 0\<lparr>bf_disk := d\<rparr>) = Inr f'
    \<and> bf_file f' = bf_file (demo_file (CHR ''a'') 1 2) \<and> all_bytes f' = all_bytes (demo_file (CHR ''a'') 1 2)
    \<and> bf_tell f' = Inr 0 \<and> good_file demo_env f'"
  by (rule close_then_reopen) (simp_all add: demo_simps good_append_def is_space_def)

theorem rewrite_inside_chunk_repeats_witness:
  "\<exists>f'. bf_write demo_env [9] (demo_file (CHR ''w'') 1 0) = Inr (0, f')
    \<and> content (bf_disk f') [97, 46, 49] = [9, 9] \<and> file_size f' ! file_num f' = 1"
  using rewrite_inside_chunk_repeats [of demo_env "demo_file (CHR ''w'') 1 0" "[97, 46, 49]" 0 "[9]"]
  by (simp add: demo_simps)

end
