(* ===== verification/RecordFile.thy ===== *)
theory RecordFile
  imports Codec BigFileProps
begin

text \<open>
  The helpers of \<open>tools/utilcpp.cpp\<close> that use a chunked file: \<open>WriteContent\<close> and \<open>ReadContent\<close> (a key and
  its data, each behind its 4-byte length) and \<open>getlines\<close> (one line).
\<close>

section \<open>Operations\<close>

text \<open>Each write is made whatever the one before returned; the results are added.\<close>

definition WriteContent :: "sysenv \<Rightarrow> bytes \<Rightarrow> bytes \<Rightarrow> bigfile \<Rightarrow> (int \<times> bigfile) result" where
  "WriteContent env key data f =
    bind_r (bf_write env (le_bytes 4 (int (length key))) f) (\<lambda>(r1, f).
    bind_r (bf_write env key f) (\<lambda>(r2, f).
    bind_r (bf_write env (le_bytes 4 (int (length data))) f) (\<lambda>(r3, f).
    bind_r (bf_write env data f) (\<lambda>(r4, f). Inr (r1 + r2 + r3 + r4, f)))))"

text \<open>An \<open>int\<close> whose first bytes have been overwritten.\<close>

definition overlay_int :: "int \<Rightarrow> bytes \<Rightarrow> int" where
  "overlay_int old xs = signed_le (xs @ drop (length xs) (le_bytes 4 old))"

text \<open>
  \<open>ReadContent\<close>: \<open>keylen\<close> and \<open>datalen\<close> hold \<open>k0\<close> and \<open>d0\<close> before. The result is the return value, the
  key, \<open>datalen\<close> and the data that was read. A negative length gives a block that cannot hold the NUL
  written behind it.
\<close>

definition ReadContent :: "sysenv \<Rightarrow> int \<Rightarrow> int \<Rightarrow> bigfile \<Rightarrow> (int \<times> bytes \<times> int \<times> bytes \<times> bigfile) result" where
  "ReadContent env k0 d0 f =
    bind_r (bf_read env 4 f) (\<lambda>(ret, xs, f).
      if ret < 0 then Inr (-1, [], d0, [], f)
      else let keylen = overlay_int k0 xs
      in if keylen < 0 then Inl BufferOverflow
         else bind_r (bf_read env keylen f) (\<lambda>(ret, key, f).
           if ret < 0 then Inr (-1, key, d0, [], f)
           else bind_r (bf_read env 4 f) (\<lambda>(ret, xs, f).
             if ret < 0 then Inr (-1, key, d0, [], f)
             else let datalen = overlay_int d0 xs
             in if datalen < 0 then Inl BufferOverflow
                else bind_r (bf_read env datalen f) (\<lambda>(ret, data, f).
                  let datalen = (if ret = 0 then int (length data) else datalen)
                  in if ret < 0 \<and> ret \<noteq> RC_BF_EOF then Inr (-1, key, datalen, data, f)
                     else Inr (0, key, datalen, data, f)))))"

text \<open>\<open>getlines\<close>: the loop with the last character read and the \<open>100000 - n\<close> rounds left.\<close>

fun line_loop :: "sysenv \<Rightarrow> nat \<Rightarrow> u8 \<Rightarrow> bytes \<Rightarrow> bigfile \<Rightarrow> (bytes \<times> bigfile) result" where
  "line_loop env 0 c p f = Inr (p, f)"
| "line_loop env (Suc k) c p f =
    (if c = 10 then Inr (p, f)
     else bind_r (bf_read env 1 f) (\<lambda>(eret, xs, f).
       if eret \<noteq> 0 \<or> xs = [] then Inr (p @ [c], f) else line_loop env k (hd xs) (p @ [c]) f))"

definition getlines :: "sysenv \<Rightarrow> bigfile \<Rightarrow> (int \<times> bytes \<times> bigfile) result" where
  "getlines env f =
    bind_r (bf_read env 1 f) (\<lambda>(eret, xs, f).
      if eret \<noteq> 0 \<or> xs = [] then Inr (-1, [], f)
      else bind_r (line_loop env 100000 (hd xs) [] f) (\<lambda>(p, f). Inr (int (length p), p, f)))"

section \<open>Lines\<close>

lemma read_byte:
  assumes "good_file env f" "bf_mode f = CHR ''r''" "\<forall>p\<in>set (bf_file f). content (bf_disk f) p \<noteq> []"
    and "position f < length (all_bytes f)"
  shows "\<exists>i p. bf_read env 1 f = Inr (0, [all_bytes f ! position f], moved f i p) \<and> good_file env (moved f i p)
    \<and> position (moved f i p) = position f + 1"
proof -
  obtain i p where r: "bf_read env 1 f = Inr (0, take (nat 1) (window f), moved f i p)" "good_file env (moved f i p)"
    "position (moved f i p) = position f + length (take (nat 1) (window f))" "window f \<noteq> []"
    using read_ok [OF assms(1,2) _ _ assms(3,4), of 1] by (auto simp: MAX_FILE_SIZE_def)
  obtain rest where "drop (position f) (all_bytes f) = window f @ rest" using window_prefix [OF assms(1)] by blast
  then have "take (nat 1) (window f) = [all_bytes f ! position f]"
    using r(4) Cons_nth_drop_Suc [OF assms(4)] by (cases "window f") auto
  with r(1-3) show ?thesis by (metis One_nat_def length_Cons list.size(3))
qed

lemma moved_same [simp]:
  "bf_mode (moved f i p) = bf_mode f" "bf_file (moved f i p) = bf_file f" "bf_disk (moved f i p) = bf_disk f"
  "all_bytes (moved f i p) = all_bytes f"
  by (simp_all add: moved_def all_bytes_def)

lemma moved_moved [simp]: "moved (moved f i p) j q = moved f j q"
  by (simp add: moved_def)

lemma line_loop_reads:
  assumes "good_file env f" "bf_mode f = CHR ''r''" "\<forall>p\<in>set (bf_file f). content (bf_disk f) p \<noteq> []"
    and "length (takeWhile (\<lambda>x. x \<noteq> 10) (c # drop (position f) (all_bytes f))) < k"
  shows "\<exists>f'. line_loop env k c p f = Inr (p @ takeWhile (\<lambda>x. x \<noteq> 10) (c # drop (position f) (all_bytes f)), f')
    \<and> good_file env f' \<and> all_bytes f' = all_bytes f
    \<and> position f' = min (length (all_bytes f)) (position f + length (takeWhile (\<lambda>x. x \<noteq> 10) (c # drop (position f) (all_bytes f))))"
  using assms
proof (induction k arbitrary: c p f)
  case (Suc k)
  note le = position_le [OF Suc.prems(1)]
  show ?case
  proof (cases "c = 10")
    case True
    then show ?thesis using Suc.prems le by simp
  next
    case nl: False
    show ?thesis
    proof (cases "position f < length (all_bytes f)")
      case True
      let ?b = "all_bytes f ! position f"
      have d: "drop (position f) (all_bytes f) = ?b # drop (Suc (position f)) (all_bytes f)"
        using True by (simp add: Cons_nth_drop_Suc)
      obtain i q where r: "bf_read env 1 f = Inr (0, [?b], moved f i q)" "good_file env (moved f i q)"
        "position (moved f i q) = position f + 1"
        using read_byte [OF Suc.prems(1-3) True] by blast
      have "length (takeWhile (\<lambda>x. x \<noteq> 10) (?b # drop (position (moved f i q)) (all_bytes (moved f i q)))) < k"
        using Suc.prems(4) nl d r(3) by simp
      from Suc.IH [OF r(2) _ _ this, of "p @ [c]"] obtain f' where
        "line_loop env k ?b (p @ [c]) (moved f i q) = Inr ((p @ [c]) @ takeWhile (\<lambda>x. x \<noteq> 10) (drop (position f) (all_bytes f)), f')"
        "good_file env f'" "all_bytes f' = all_bytes f"
        "position f' = min (length (all_bytes f)) (position f + 1 + length (takeWhile (\<lambda>x. x \<noteq> 10) (drop (position f) (all_bytes f))))"
        using Suc.prems(2,3) r(3) d by auto
      then show ?thesis using nl r(1) by simp
    next
      case False
      then have "bf_read env 1 f = Inr (RC_BF_EOF, [], f)"
        using read_eof [OF Suc.prems(1,2) _ Suc.prems(3)] le by (simp add: MAX_FILE_SIZE_def)
      then show ?thesis using nl False le Suc.prems(1) by (simp add: RC_BF_EOF_def)
    qed
  qed
qed simp

text \<open>
  \<open>getlines\<close> returns the text from the current position up to the next newline or the end of the file,
  whatever chunks it spans, and goes on behind the newline, as long as the line has fewer than 100000
  bytes; at the end of the file it returns -1.
\<close>

theorem getlines_reads_line:
  assumes "good_file env f" "bf_mode f = CHR ''r''" "\<forall>p\<in>set (bf_file f). content (bf_disk f) p \<noteq> []"
    and "line = takeWhile (\<lambda>x. x \<noteq> 10) (drop (position f) (all_bytes f))" "length line < 100000"
  shows "if position f = length (all_bytes f) then getlines env f = Inr (-1, [], f)
    else \<exists>f'. getlines env f = Inr (int (length line), line, f') \<and> good_file env f' \<and> all_bytes f' = all_bytes f
      \<and> position f' = min (length (all_bytes f)) (position f + length line + 1)"
proof (cases "position f = length (all_bytes f)")
  case True
  then have "bf_read env 1 f = Inr (RC_BF_EOF, [], f)"
    using read_eof [OF assms(1,2) _ assms(3)] by (simp add: MAX_FILE_SIZE_def)
  then show ?thesis using True by (simp add: getlines_def RC_BF_EOF_def)
next
  case False
  then have lt: "position f < length (all_bytes f)" using position_le [OF assms(1)] by simp
  let ?b = "all_bytes f ! position f"
  obtain i q where r: "bf_read env 1 f = Inr (0, [?b], moved f i q)" "good_file env (moved f i q)"
    "position (moved f i q) = position f + 1"
    using read_byte [OF assms(1-3) lt] by blast
  have d: "?b # drop (position (moved f i q)) (all_bytes (moved f i q)) = drop (position f) (all_bytes f)"
    using lt r(3) by (simp add: Cons_nth_drop_Suc)
  obtain f' where "line_loop env 100000 ?b [] (moved f i q) = Inr (line, f')" "good_file env f'"
    "all_bytes f' = all_bytes f" "position f' = min (length (all_bytes f)) (position f + 1 + length line)"
    using line_loop_reads [OF r(2), of ?b 100000 "[]", unfolded d, folded assms(4)] assms(2,3,5)
    by (auto simp: r(3))
  then show ?thesis using False r(1) by (simp add: getlines_def)
qed

theorem getlines_reads_line_witness:
  "\<exists>f'. getlines demo_env (demo_file (CHR ''r'') 0 1) = Inr (4, [2, 3, 4, 5], f') \<and> position f' = 5"
proof -
  let ?f = "demo_file (CHR ''r'') 0 1"
  have h: "good_file demo_env ?f" "bf_mode ?f = CHR ''r''" "\<forall>p\<in>set (bf_file ?f). content (bf_disk ?f) p \<noteq> []"
    by (simp_all add: demo_simps)
  have a: "all_bytes ?f = [1, 2, 3, 4, 5]" "position ?f = 1" by (simp_all add: demo_simps position_def)
  have "[2, 3, 4, 5] = takeWhile (\<lambda>x. x \<noteq> 10) (drop (position ?f) (all_bytes ?f))" by (simp only: a) simp
  from getlines_reads_line [OF h this, unfolded a] show ?thesis by auto
qed

section \<open>Records\<close>

definition last_chunk :: "bigfile \<Rightarrow> bytes" where
  "last_chunk f = content (bf_disk f) (last (bf_file f))"

definition earlier :: "bigfile \<Rightarrow> bytes list" where
  "earlier f = map (content (bf_disk f)) (butlast (bf_file f))"

lemma good_ne: "good_file env f \<Longrightarrow> bf_file f \<noteq> []"
  by (erule good_fileD) auto

lemma all_bytes_split: "bf_file f \<noteq> [] \<Longrightarrow> all_bytes f = concat (earlier f) @ last_chunk f"
  by (cases "bf_file f" rule: rev_cases) (simp_all add: all_bytes_def earlier_def last_chunk_def)

lemma last_size: "good_file env f \<Longrightarrow> last (file_size f) = int (length (last_chunk f))"
proof -
  assume g: "good_file env f"
  have "file_size f = map (\<lambda>p. int (length (content (bf_disk f) p))) (bf_file f)" by (rule good_fileD [OF g]) blast
  then show ?thesis using good_ne [OF g] by (simp add: last_map last_chunk_def)
qed

text \<open>A write in append mode that fits the last chunk.\<close>

lemma write_fits:
  assumes g: "good_append env f" and acc: "\<forall>n. n \<le> accepts env n"
    and n: "int (length (last_chunk f)) + int (length buf) \<le> MAX_FILE_SIZE"
  shows "\<exists>f'. bf_write env buf f = Inr (0, f') \<and> good_append env f' \<and> bf_file f' = bf_file f
    \<and> main_file f' = main_file f \<and> last_chunk f' = last_chunk f @ buf \<and> earlier f' = earlier f"
proof -
  have gf: "good_file env f" and a: "bf_mode f = CHR ''a''" "distinct (bf_file f)" using g by (auto simp: good_append_def)
  have f: "bOpen f" "max_file_size f = MAX_FILE_SIZE" "file_num f < length (bf_file f)"
    "file_size f = map (\<lambda>p. int (length (content (bf_disk f) p))) (bf_file f)"
    by (rule good_fileD [OF gf]; simp)+
  let ?l = "length (bf_file f) - 1"
  define f1 where "f1 = (if file_num f \<noteq> ?l then on_chunk f ?l else f)"
  have l: "?l < length (bf_file f)" and ne: "bf_file f \<noteq> []" using f(3) by auto
  have lst: "bf_file f ! ?l = last (bf_file f)" using ne by (simp add: last_conv_nth)
  have g1: "good_append env f1" using on_chunk_good [OF g l] g by (simp add: f1_def)
  have e: "bf_file f1 = bf_file f" "bf_disk f1 = bf_disk f" "file_num f1 = ?l" "main_file f1 = main_file f" "file_size f1 = file_size f"
    "max_file_size f1 = max_file_size f"
    by (auto simp: f1_def on_chunk_def)
  have s1: "file_size f1 ! file_num f1 = int (length (last_chunk f))"
    unfolding e f(4) last_chunk_def using l lst by simp
  let ?f' = "if buf = [] then f1 else appended buf f1"
  have "bf_write env buf f = bf_append env buf f1"
    using f gf a n set_current_a [OF gf a(1) l] by (auto simp: bf_write_def Let_def f1_def)
  moreover have "bf_append env buf f1 = Inr (0, ?f')"
    using n s1 f(2) e(6) WRITE_BUF_appends [OF g1 acc] by (simp add: bf_append_def Let_def)
  moreover have "good_append env ?f'"
    using appended_or_same [OF g1 _ , of buf] e n s1 by auto
  moreover have "last (bf_file f) \<notin> set (butlast (bf_file f))"
    using a(2) ne by (metis append_butlast_last_id distinct_append disjoint_iff list.set_intros(1))
  then have "last_chunk ?f' = last_chunk f @ buf" "earlier ?f' = earlier f"
    using e lst by (auto simp: last_chunk_def earlier_def appended_def Let_def content_upd)
  moreover have "bf_file ?f' = bf_file f" "main_file ?f' = main_file f" using e by (auto simp: appended_def Let_def)
  ultimately show ?thesis by auto
qed

definition record_bytes :: "bytes \<Rightarrow> bytes \<Rightarrow> bytes" where
  "record_bytes key data = le_bytes 4 (int (length key)) @ key @ le_bytes 4 (int (length data)) @ data"

lemma WriteContent_fits:
  assumes g: "good_append env f" and acc: "\<forall>n. n \<le> accepts env n"
    and n: "int (length (last_chunk f)) + int (length (record_bytes key data)) \<le> MAX_FILE_SIZE"
  shows "\<exists>f'. WriteContent env key data f = Inr (0, f') \<and> good_append env f' \<and> bf_file f' = bf_file f
    \<and> main_file f' = main_file f \<and> last_chunk f' = last_chunk f @ record_bytes key data \<and> earlier f' = earlier f"
proof -
  have n1: "int (length (last_chunk f)) + int (length (le_bytes 4 (int (length key)))) \<le> MAX_FILE_SIZE"
    using n by (simp add: record_bytes_def)
  obtain f1 where f1: "bf_write env (le_bytes 4 (int (length key))) f = Inr (0, f1)" "good_append env f1" "bf_file f1 = bf_file f"
    "main_file f1 = main_file f" "last_chunk f1 = last_chunk f @ le_bytes 4 (int (length key))" "earlier f1 = earlier f"
    using write_fits [OF g acc n1] by blast
  have n2: "int (length (last_chunk f1)) + int (length key) \<le> MAX_FILE_SIZE" using n f1(5) by (simp add: record_bytes_def)
  obtain f2 where f2: "bf_write env key f1 = Inr (0, f2)" "good_append env f2" "bf_file f2 = bf_file f"
    "main_file f2 = main_file f" "last_chunk f2 = last_chunk f1 @ key" "earlier f2 = earlier f"
    using write_fits [OF f1(2) acc n2] f1(3,4,6) by auto
  have n3: "int (length (last_chunk f2)) + int (length (le_bytes 4 (int (length data)))) \<le> MAX_FILE_SIZE"
    using n f1(5) f2(5) by (simp add: record_bytes_def)
  obtain f3 where f3: "bf_write env (le_bytes 4 (int (length data))) f2 = Inr (0, f3)" "good_append env f3" "bf_file f3 = bf_file f"
    "main_file f3 = main_file f" "last_chunk f3 = last_chunk f2 @ le_bytes 4 (int (length data))" "earlier f3 = earlier f"
    using write_fits [OF f2(2) acc n3] f2(3,4,6) by auto
  have n4: "int (length (last_chunk f3)) + int (length data) \<le> MAX_FILE_SIZE"
    using n f1(5) f2(5) f3(5) by (simp add: record_bytes_def)
  obtain f4 where f4: "bf_write env data f3 = Inr (0, f4)" "good_append env f4" "bf_file f4 = bf_file f"
    "main_file f4 = main_file f" "last_chunk f4 = last_chunk f3 @ data" "earlier f4 = earlier f"
    using write_fits [OF f3(2) acc n4] f3(3,4,6) by auto
  show ?thesis
    using f1 f2 f3 f4 by (auto simp: WriteContent_def record_bytes_def)
qed

text \<open>A read that stays in the last chunk.\<close>

lemma read_last_chunk:
  assumes g: "good_file env f" "bf_mode f = CHR ''r''" and L: "file_num f = length (bf_file f) - 1"
    and c: "cur_file f = Stream (last (bf_file f)) off" and n: "off + n \<le> length (last_chunk f)"
  shows "off < length (last_chunk f) \<Longrightarrow> bf_read env (int n) f = Inr (0, take n (drop off (last_chunk f)),
      f\<lparr>cur_file := Stream (last (bf_file f)) (off + n)\<rparr>)"
    and "off = length (last_chunk f) \<Longrightarrow> bf_read env (int n) f = Inr (RC_BF_EOF, [], f)"
proof -
  have f: "bOpen f" "max_file_size f = MAX_FILE_SIZE" "file_size f ! file_num f = int (length (last_chunk f))"
    "int (length (last_chunk f)) \<le> MAX_FILE_SIZE"
  proof -
    show "bOpen f" "max_file_size f = MAX_FILE_SIZE" by (rule good_fileD [OF g(1)]; simp)+
    have l: "last (bf_file f) = bf_file f ! file_num f" using good_ne [OF g(1)] L by (simp add: last_conv_nth)
    show "file_size f ! file_num f = int (length (last_chunk f))"
      unfolding last_chunk_def l by (rule good_fileD [OF g(1)]) simp
    show "int (length (last_chunk f)) \<le> MAX_FILE_SIZE"
      unfolding last_chunk_def l by (rule good_fileD [OF g(1)]) blast
  qed
  have nM: "int n \<le> MAX_FILE_SIZE" "int n < 2 ^ 63" using n f(4) by (auto simp: MAX_FILE_SIZE_def)
  have ti: "to_int (int (length (last_chunk f)) - int off) = int (length (last_chunk f)) - int off"
    using n f(4) by (simp add: MAX_FILE_SIZE_def)
  show "bf_read env (int n) f = Inr (RC_BF_EOF, [], f)" if "off = length (last_chunk f)"
    using that f nM ti g(2) L c by (simp add: bf_read_def ftell_def)
  show "bf_read env (int n) f = Inr (0, take n (drop off (last_chunk f)), f\<lparr>cur_file := Stream (last (bf_file f)) (off + n)\<rparr>)"
    if off: "off < length (last_chunk f)"
  proof (cases "n = 0")
    case True
    have "f\<lparr>cur_file := Stream (last (bf_file f)) off\<rparr> = f" using c by (cases f) simp
    then show ?thesis using True off f nM ti g(2) L c by (simp add: bf_read_def ftell_def READ_BUF_def)
  next
    case False
    have min_n: "min (length (last_chunk f) - off) n = n" using n by simp
    have "drop off (content (bf_disk f) (last (bf_file f))) \<noteq> []" using off by (simp add: last_chunk_def)
    from READ_BUF_reads [OF c this, of "int n"] False nM n
    have "READ_BUF (int n) f = Inr (int n, take n (drop off (last_chunk f)), f\<lparr>cur_file := Stream (last (bf_file f)) (off + n)\<rparr>)"
      using min_n by (simp add: last_chunk_def)
    then show ?thesis using off f nM ti g(2) L c by (simp add: bf_read_def ftell_def)
  qed
qed

text \<open>A seek to a byte of the last chunk ends there.\<close>

lemma seek_last_chunk:
  assumes g: "good_file env f" "bf_mode f = CHR ''r''" and off: "off < length (last_chunk f)"
  shows "bf_seek env (int (length (concat (earlier f)) + off)) 0 f = Inr (0, moved f (length (bf_file f) - 1) off)"
proof -
  let ?L = "length (bf_file f) - 1" and ?t = "int (length (concat (earlier f)) + off)"
  have f: "bOpen f" "file_size f = map (\<lambda>p. int (length (content (bf_disk f) p))) (bf_file f)"
    by (rule good_fileD [OF g(1)]; simp)+
  obtain ps p where ps: "bf_file f = ps @ [p]" using good_ne [OF g(1)] by (metis rev_exhaust)
  have L: "?L < length (bf_file f)" "file_size f ! ?L = int (length (last_chunk f))"
    using f(2) ps by (simp_all add: last_chunk_def nth_append)
  have sum: "sum_list (take ?L (file_size f)) = int (length (concat (earlier f)))"
    using f(2) ps by (simp add: earlier_def sum_sizes)
  have nn: "\<forall>s\<in>set (file_size f). 0 \<le> s" using f(2) by auto
  have "sum_list (drop 0 (file_size f)) = int (length (all_bytes f))" using total_size [OF g(1)] by simp
  then have "?t < sum_list (drop 0 (file_size f))"
    using off all_bytes_split [OF good_ne [OF g(1)]] by simp
  then obtain j q where j: "seek_forward env 0 ?t f = seek_to env j q 0 f" "j < length (file_size f)" "0 \<le> q"
      "q < file_size f ! j" "sum_list (take j (file_size f)) + q = ?t"
    using seek_forward_finds [of ?t 0 f env] nn by auto
  have "j = ?L"
  proof (rule ccontr)
    assume "j \<noteq> ?L"
    then have "Suc j \<le> ?L" using j(2) f(2) by simp
    then have "sum_list (take (Suc j) (file_size f)) \<le> sum_list (take ?L (file_size f))"
    proof -
      assume a: "Suc j \<le> ?L"
      have "take ?L (file_size f) = take (Suc j) (file_size f) @ take (?L - Suc j) (drop (Suc j) (file_size f))"
        using a by (metis le_add_diff_inverse take_add)
      moreover have "0 \<le> sum_list (take (?L - Suc j) (drop (Suc j) (file_size f)))"
        using nn by (intro sum_list_nonneg) (auto dest!: in_set_takeD in_set_dropD)
      ultimately show ?thesis by simp
    qed
    moreover have "sum_list (take (Suc j) (file_size f)) = sum_list (take j (file_size f)) + file_size f ! j"
      using j(2) by (simp add: take_Suc_conv_app_nth)
    ultimately show False using j(4,5) sum by simp
  qed
  moreover have "q = int off" using j(5) sum \<open>j = ?L\<close> by simp
  ultimately have "seek_to env j q 0 f = Inr (0, moved f ?L off)"
    using seek_to_moves [OF g L(1), of 0 q off 0] by simp
  then show ?thesis using j(1) f(1) by (simp add: bf_seek_def)
qed

lemma le_bytes_overlay: "overlay_int k (le_bytes 4 x) = signed_le (le_bytes 4 x)"
  by (simp add: overlay_int_def)

lemma signed_length:
  assumes "int (length xs) < 2 ^ 31" shows "signed_le (le_bytes 4 (int (length xs))) = int (length xs)"
  using assms by (intro signed_le_bytes) auto

text \<open>Reading back, from the position \<open>off\<close> of the last chunk, a record that ends the chunk.\<close>

lemma ReadContent_last:
  assumes g: "good_file env f" "bf_mode f = CHR ''r''" and L: "file_num f = length (bf_file f) - 1"
    and c: "cur_file f = Stream (last (bf_file f)) (length b)" and b: "last_chunk f = b @ record_bytes key data"
    and z: "int (length (last_chunk f)) \<le> MAX_FILE_SIZE"
  shows "\<exists>f'. ReadContent env k0 d0 f = Inr (0, key, int (length data), data, f')"
proof -
  let ?g = "\<lambda>n. f\<lparr>cur_file := Stream (last (bf_file f)) n\<rparr>"
  have good: "good_file env (?g n)" if "n \<le> length (last_chunk f)" for n
  proof -
    have ne: "bf_file f \<noteq> []" by (rule good_ne [OF g(1)])
    have "good_file env (moved f (file_num f) n)"
      using that ne L by (intro moved_good [OF g(1)]) (auto simp: last_chunk_def last_conv_nth)
    moreover have "moved f (file_num f) n = ?g n" using ne L by (simp add: moved_def last_conv_nth)
    ultimately show ?thesis by simp
  qed
  have rd: "bf_read env (int m) (?g n) = (if n = length (last_chunk f) then Inr (RC_BF_EOF, [], ?g n)
      else Inr (0, take m (drop n (last_chunk f)), ?g (n + m)))" if "n + m \<le> length (last_chunk f)" for n m
    using read_last_chunk [of env "?g n" n m] good [of n] g(2) L that by (auto simp: last_chunk_def)
  let ?kb = "le_bytes 4 (int (length key))" and ?db = "le_bytes 4 (int (length data))"
  let ?n1 = "length b + 4" let ?n2 = "?n1 + length key" let ?n3 = "?n2 + 4" let ?n4 = "?n3 + length data"
  have n: "length (last_chunk f) = ?n4" by (simp add: b record_bytes_def)
  have f: "f = ?g (length b)" using c by (cases f) simp
  have r1: "bf_read env 4 f = Inr (0, ?kb, ?g ?n1)"
    using rd [of "length b" 4] n f by (simp add: b record_bytes_def)
  have "drop ?n1 (last_chunk f) = key @ ?db @ data" by (simp add: b record_bytes_def)
  then have r2: "bf_read env (int (length key)) (?g ?n1) = Inr (0, key, ?g ?n2)"
    using rd [of ?n1 "length key"] n by simp
  have "drop ?n2 (last_chunk f) = ?db @ data" by (simp add: b record_bytes_def)
  then have r3: "bf_read env 4 (?g ?n2) = Inr (0, ?db, ?g ?n3)" using rd [of ?n2 4] n by simp
  have "drop ?n3 (last_chunk f) = data" by (simp add: b record_bytes_def)
  then have r4: "bf_read env (int (length data)) (?g ?n3) = (if data = [] then Inr (RC_BF_EOF, [], ?g ?n3) else Inr (0, data, ?g ?n4))"
    using rd [of ?n3 "length data"] n by auto
  have s: "int (length key) < 2 ^ 31" "int (length data) < 2 ^ 31" using z n by (auto simp: MAX_FILE_SIZE_def)
  have zero: "signed_le (le_bytes 4 0) = 0" using signed_length [of "[]"] by simp
  show ?thesis
    using r4 by (cases "data = []")
      (simp_all add: ReadContent_def r1 r2 r3 le_bytes_overlay signed_length [OF s(1)] signed_length [OF s(2)] zero Let_def RC_BF_EOF_def)
qed



end
