(* ===== verification/Bitmap.thy ===== *)
theory Bitmap
  imports Prelude
begin

text \<open>
  The bit map of a Bloom filter: \<open>bitmap_set\<close>, \<open>bitmap_clear\<close> and \<open>bitmap_check\<close> of
  \<open>bloom_filter.cpp\<close> over the \<open>std::vector<int>\<close> that holds the bits, and the interface
  \<open>bit_array\<close> that the filter relies on, interpreted on these operations.
\<close>

section \<open>The operations\<close>

text \<open>\<open>map[i >> SHIFT]\<close> outside the vector is undefined in C++: a fault of the model.\<close>

definition bitmap_set :: "u32 list \<Rightarrow> u64 \<Rightarrow> u32 list result" where
  "bitmap_set mp i =
    (let w = unat (drop_bit 5 i)
     in if w < length mp
        then Inr (mp[w := mp ! w OR push_bit (unat (i AND 0x1F)) 1])
        else Inl OutOfBounds)"

definition bitmap_clear :: "u32 list \<Rightarrow> u64 \<Rightarrow> u32 list result" where
  "bitmap_clear mp i =
    (let w = unat (drop_bit 5 i)
     in if w < length mp
        then Inr (mp[w := mp ! w AND NOT (push_bit (unat (i AND 0x1F)) 1)])
        else Inl OutOfBounds)"

definition bitmap_check :: "u32 list \<Rightarrow> u64 \<Rightarrow> u32 result" where
  "bitmap_check mp i =
    (let w = unat (drop_bit 5 i)
     in if w < length mp
        then Inr (mp ! w AND push_bit (unat (i AND 0x1F)) 1)
        else Inl OutOfBounds)"

section \<open>What the bits say\<close>

definition bm_valid :: "u32 list \<Rightarrow> u64 \<Rightarrow> bool" where
  "bm_valid mp i \<longleftrightarrow> unat i < 32 * length mp"

definition bm_test :: "u32 list \<Rightarrow> u64 \<Rightarrow> bool" where
  "bm_test mp i \<longleftrightarrow> unat i < 32 * length mp \<and> bit (mp ! (unat i div 32)) (unat i mod 32)"

definition bm_set :: "u32 list \<Rightarrow> u64 \<Rightarrow> u32 list" where
  "bm_set mp i = mp[unat i div 32 := mp ! (unat i div 32) OR push_bit (unat i mod 32) 1]"

definition bm_clear :: "u32 list \<Rightarrow> u64 \<Rightarrow> u32 list" where
  "bm_clear mp i = mp[unat i div 32 := mp ! (unat i div 32) AND NOT (push_bit (unat i mod 32) 1)]"

lemma word_index_less: "unat i div 32 < n \<longleftrightarrow> unat (i :: u64) < 32 * n"
  by (simp add: div_less_iff_less_mult mult.commute)

lemma bitmap_set_eq:
  "bitmap_set mp i = (if bm_valid mp i then Inr (bm_set mp i) else Inl OutOfBounds)"
  by (simp add: bitmap_set_def bm_set_def bm_valid_def unat_drop_bit5 unat_and_mask5 word_index_less Let_def)

lemma bitmap_clear_eq:
  "bitmap_clear mp i = (if bm_valid mp i then Inr (bm_clear mp i) else Inl OutOfBounds)"
  by (simp add: bitmap_clear_def bm_clear_def bm_valid_def unat_drop_bit5 unat_and_mask5 word_index_less Let_def)

lemma bit_exp_word [simp]: "bit ((2 :: u32) ^ m) n \<longleftrightarrow> m = n \<and> n < 32"
  by (auto simp: bit_exp_iff)

lemma and_exp_eq_0: "n < 32 \<Longrightarrow> (x :: u32) AND 2 ^ n = 0 \<longleftrightarrow> \<not> bit x n"
proof -
  assume n: "n < 32"
  have x: "x AND 2 ^ n = (if bit x n then 2 ^ n else 0)"
    by (rule bit_word_eqI) (auto simp: bit_and_iff)
  have "bit ((2 :: u32) ^ n) n" using n by simp
  then have "(2 :: u32) ^ n \<noteq> 0" by (metis bit_0_eq bot_apply bot_bool_def)
  with x show ?thesis by simp
qed

lemma bitmap_check_eq:
  "bitmap_check mp i =
    (if bm_valid mp i then Inr (mp ! (unat i div 32) AND push_bit (unat i mod 32) 1)
     else Inl OutOfBounds)"
  by (simp add: bitmap_check_def bm_valid_def unat_drop_bit5 unat_and_mask5 word_index_less Let_def)

lemma bitmap_check_test:
  "bm_valid mp i \<Longrightarrow> \<exists>w. bitmap_check mp i = Inr w \<and> (w \<noteq> 0 \<longleftrightarrow> bm_test mp i)"
  by (auto simp: bitmap_check_eq and_exp_eq_0 bm_test_def bm_valid_def)

lemma length_bm_set [simp]: "length (bm_set mp i) = length mp"
  by (simp add: bm_set_def)

lemma length_bm_clear [simp]: "length (bm_clear mp i) = length mp"
  by (simp add: bm_clear_def)

lemma unat_divmod_eq: "unat i div 32 = unat j div 32 \<Longrightarrow> unat i mod 32 = unat j mod 32 \<Longrightarrow> i = (j :: u64)"
  by (metis div_mult_mod_eq word_unat_eq_iff)

lemma bm_test_set: "bm_valid mp i \<Longrightarrow> bm_test (bm_set mp i) j \<longleftrightarrow> j = i \<or> bm_test mp j"
  using unat_divmod_eq [of i j] word_index_less [of i "length mp"]
  by (cases "unat i div 32 = unat j div 32")
     (auto simp: bm_test_def bm_set_def bm_valid_def bit_or_iff nth_list_update)

lemma bm_test_clear: "bm_valid mp i \<Longrightarrow> bm_test (bm_clear mp i) j \<longleftrightarrow> j \<noteq> i \<and> bm_test mp j"
  using unat_divmod_eq [of i j] word_index_less [of i "length mp"]
  by (cases "unat i div 32 = unat j div 32")
     (auto simp: bm_test_def bm_clear_def bm_valid_def bit_and_iff bit_not_iff nth_list_update)

lemma bm_test_zero: "\<not> bm_test (replicate n 0) i"
  by (auto simp: bm_test_def word_index_less [symmetric])

section \<open>The interface of a bit array\<close>

locale bit_array =
  fixes put :: "'m \<Rightarrow> 'i \<Rightarrow> 'm"
    and test :: "'m \<Rightarrow> 'i \<Rightarrow> bool"
    and valid :: "'m \<Rightarrow> 'i \<Rightarrow> bool"
  assumes valid_put: "valid (put m i) j \<longleftrightarrow> valid m j"
    and test_put: "valid m i \<Longrightarrow> test (put m i) j \<longleftrightarrow> j = i \<or> test m j"
begin

text \<open>Setting a list of positions adds exactly these positions.\<close>

lemma valid_fold_put: "valid (fold (\<lambda>i m. put m i) is m) j \<longleftrightarrow> valid m j"
  by (induction "is" arbitrary: m) (simp_all add: valid_put)

lemma test_fold_put:
  "list_all (valid m) is \<Longrightarrow> test (fold (\<lambda>i m. put m i) is m) j \<longleftrightarrow> j \<in> set is \<or> test m j"
proof (induction "is" arbitrary: m)
  case Nil
  then show ?case by simp
next
  case (Cons i "is")
  then have "list_all (valid (put m i)) is" by (simp add: valid_put list_all_iff)
  with Cons show ?case by (auto simp: test_put)
qed

lemma member_after_insert:
  "list_all (valid m) is \<Longrightarrow> list_all (test (fold (\<lambda>i m. put m i) is m)) is"
  by (simp add: list_all_iff test_fold_put)

lemma member_mono:
  "list_all (valid m) is \<Longrightarrow> list_all (test m) js \<Longrightarrow> list_all (test (fold (\<lambda>i m. put m i) is m)) js"
  by (auto simp: list_all_iff test_fold_put)

end

interpretation bm: bit_array bm_set bm_test bm_valid
  by unfold_locales (auto simp: bm_valid_def bm_test_set)

end
