(* ===== verification/Murmur.thy ===== *)
theory Murmur
  imports Prelude
begin

text \<open>
  \<open>src/src/module/bloomfilter/murmur.cpp\<close>: the 128-bit x64 MurmurHash3 that gives a Bloom filter
  its two base hashes, and the Bernstein hash of \<open>bloom_filter.cpp\<close> that picks a bucket.
  64-bit loads are little-endian, as on the x86-64 targets of the build.
\<close>

section \<open>Mixing\<close>

definition rotl64 :: "u64 \<Rightarrow> nat \<Rightarrow> u64" where
  "rotl64 x r = push_bit r x OR drop_bit (64 - r) x"

definition fmix64 :: "u64 \<Rightarrow> u64" where
  "fmix64 k0 =
    (let k = k0 XOR drop_bit 33 k0;
         k = k * 0xff51afd7ed558ccd;
         k = k XOR drop_bit 33 k;
         k = k * 0xc4ceb9fe1a85ec53
     in k XOR drop_bit 33 k)"

definition murmur_c1 :: u64 where "murmur_c1 = 0x87c37b91114253d5"
definition murmur_c2 :: u64 where "murmur_c2 = 0x4cf5ad432745937f"

section \<open>Body\<close>

text \<open>\<open>getblock(blocks, i)\<close>: eight bytes at offset \<open>8 i\<close>, least significant first.\<close>

definition getblock :: "bytes \<Rightarrow> nat \<Rightarrow> u64" where
  "getblock data i =
    foldr (\<lambda>b acc. ucast b OR push_bit 8 acc) (take 8 (drop (8 * i) data)) 0"

definition mix_k1 :: "u64 \<Rightarrow> u64" where
  "mix_k1 k = rotl64 (k * murmur_c1) 31 * murmur_c2"

definition mix_k2 :: "u64 \<Rightarrow> u64" where
  "mix_k2 k = rotl64 (k * murmur_c2) 33 * murmur_c1"

definition body_step :: "bytes \<Rightarrow> nat \<Rightarrow> u64 \<times> u64 \<Rightarrow> u64 \<times> u64" where
  "body_step data i h =
    (let (h1, h2) = h;
         k1 = getblock data (i * 2 + 0);
         k2 = getblock data (i * 2 + 1);
         h1 = h1 XOR mix_k1 k1;
         h1 = rotl64 h1 27; h1 = h1 + h2; h1 = h1 * 5 + 0x52dce729;
         h2 = h2 XOR mix_k2 k2;
         h2 = rotl64 h2 31; h2 = h2 + h1; h2 = h2 * 5 + 0x38495ab5
     in (h1, h2))"

function body_loop :: "bytes \<Rightarrow> nat \<Rightarrow> nat \<Rightarrow> u64 \<times> u64 \<Rightarrow> u64 \<times> u64" where
  "body_loop data i nblocks h =
    (if i < nblocks then body_loop data (Suc i) nblocks (body_step data i h) else h)"
  by pat_completeness auto
termination
  by (relation "measure (\<lambda>(data, i, nblocks, h). nblocks - i)") auto

declare body_loop.simps [simp del]

section \<open>Tail\<close>

text \<open>
  The fall-through \<open>switch (len & 15)\<close>: every case from \<open>len & 15\<close> down to 1 runs. Each case
  xors one tail byte into \<open>k2\<close> (positions 8 to 14) or \<open>k1\<close> (positions 0 to 7); the mixing into
  \<open>h2\<close> happens at case 9, the one into \<open>h1\<close> at case 1.
\<close>

definition tail_xor :: "bytes \<Rightarrow> nat \<Rightarrow> nat \<Rightarrow> nat \<Rightarrow> u64 \<Rightarrow> u64" where
  "tail_xor tail rem c sh k =
    (if c \<le> rem then k XOR push_bit sh (ucast (tail ! (c - 1))) else k)"

definition tail_k2 :: "bytes \<Rightarrow> nat \<Rightarrow> u64" where
  "tail_k2 tail rem =
    (let k = tail_xor tail rem 15 48 0;
         k = tail_xor tail rem 14 40 k;
         k = tail_xor tail rem 13 32 k;
         k = tail_xor tail rem 12 24 k;
         k = tail_xor tail rem 11 16 k;
         k = tail_xor tail rem 10 8 k
     in tail_xor tail rem 9 0 k)"

definition tail_k1 :: "bytes \<Rightarrow> nat \<Rightarrow> u64" where
  "tail_k1 tail rem =
    (let k = tail_xor tail rem 8 56 0;
         k = tail_xor tail rem 7 48 k;
         k = tail_xor tail rem 6 40 k;
         k = tail_xor tail rem 5 32 k;
         k = tail_xor tail rem 4 24 k;
         k = tail_xor tail rem 3 16 k;
         k = tail_xor tail rem 2 8 k
     in tail_xor tail rem 1 0 k)"

definition tail_step :: "bytes \<Rightarrow> nat \<Rightarrow> u64 \<times> u64 \<Rightarrow> u64 \<times> u64" where
  "tail_step tail rem h =
    (let (h1, h2) = h;
         h2 = (if 9 \<le> rem then h2 XOR mix_k2 (tail_k2 tail rem) else h2);
         h1 = (if 1 \<le> rem then h1 XOR mix_k1 (tail_k1 tail rem) else h1)
     in (h1, h2))"

section \<open>Finalization\<close>

definition murmur_finalize :: "nat \<Rightarrow> u64 \<times> u64 \<Rightarrow> u64 \<times> u64" where
  "murmur_finalize len h =
    (let (h1, h2) = h;
         h1 = h1 XOR of_nat len; h2 = h2 XOR of_nat len;
         h1 = h1 + h2; h2 = h2 + h1;
         h1 = fmix64 h1; h2 = fmix64 h2;
         h1 = h1 + h2; h2 = h2 + h1
     in (h1, h2))"

definition MurmurHash3_x64_128_for_bloomfilter :: "bytes \<Rightarrow> u32 \<Rightarrow> u64 \<times> u64" where
  "MurmurHash3_x64_128_for_bloomfilter key seed =
    (let len = length key;
         nblocks = len div 16;
         h = body_loop key 0 nblocks (ucast seed, ucast seed);
         tail = drop (nblocks * 16) key;
         h = tail_step tail (len mod 16) h
     in murmur_finalize len h)"

section \<open>Bucket hash\<close>

text \<open>\<open>dictGenHashFunction\<close>: \<open>hash = hash * 33 + c\<close> from 5381, modulo \<open>2 ^ 32\<close>.\<close>

fun dict_hash_loop :: "bytes \<Rightarrow> u32 \<Rightarrow> u32" where
  "dict_hash_loop [] hash = hash"
| "dict_hash_loop (c # buf) hash = dict_hash_loop buf (push_bit 5 hash + hash + ucast c)"

definition dictGenHashFunction :: "bytes \<Rightarrow> u32" where
  "dictGenHashFunction buf = dict_hash_loop buf 5381"

section \<open>The mixers lose nothing\<close>

text \<open>
  Contract of a mixing step: it has a left inverse, so distinct inputs stay distinct.
\<close>

locale mixer =
  fixes mix :: "u64 \<Rightarrow> u64"
    and unmix :: "u64 \<Rightarrow> u64"
  assumes unmix_mix: "unmix (mix x) = x"
begin

lemma mix_inj: "mix x = mix y \<longleftrightarrow> x = y"
  by (metis unmix_mix)

lemma xor_mix_inj: "h XOR mix x = h XOR mix y \<longleftrightarrow> x = y"
  by (metis mix_inj bit.xor_left_self)

end

lemma bit_rotl64:
  assumes "0 < r" and "r < 64"
  shows "bit (rotl64 x r) n \<longleftrightarrow> n < 64 \<and> bit x (if r \<le> n then n - r else n + 64 - r)"
proof (cases "n < 64")
  case True
  have "\<not> bit x (64 - r + n)" if "r \<le> n"
    using that by (auto dest: bit_imp_le_length)
  then show ?thesis
    using assms True by (auto simp: rotl64_def bit_simps add.commute)
next
  case False
  then show ?thesis by (auto dest: bit_imp_le_length)
qed

lemma rotl64_inverse:
  assumes "0 < r" and "r < 64"
  shows "rotl64 (rotl64 x r) (64 - r) = x"
proof (rule bit_word_eqI)
  fix n assume "n < LENGTH(64)"
  with assms show "bit (rotl64 (rotl64 x r) (64 - r)) n = bit x n"
    by (auto simp: bit_rotl64)
qed

lemma xorshift33_inverse: "(k XOR drop_bit 33 k) XOR drop_bit 33 (k XOR drop_bit 33 k) = (k :: u64)"
proof (rule bit_word_eqI)
  fix n assume n: "n < LENGTH(64)"
  have "\<not> bit k (33 + (33 + n))"
    by (auto dest: bit_imp_le_length)
  then show "bit ((k XOR drop_bit 33 k) XOR drop_bit 33 (k XOR drop_bit 33 k)) n = bit k n"
    by (auto simp: bit_simps)
qed

text \<open>The inverse mixers, with the inverse multipliers modulo \<open>2 ^ 64\<close>.\<close>

definition unfmix64 :: "u64 \<Rightarrow> u64" where
  "unfmix64 k0 =
    (let k = k0 XOR drop_bit 33 k0;
         k = k * 0x9cb4b2f8129337db;
         k = k XOR drop_bit 33 k;
         k = k * 0x4f74430c22a54005
     in k XOR drop_bit 33 k)"

definition unmix_k1 :: "u64 \<Rightarrow> u64" where
  "unmix_k1 k = rotl64 (k * 0xa81e14edd9de2c7f) 33 * 0xa98409e882ce4d7d"

definition unmix_k2 :: "u64 \<Rightarrow> u64" where
  "unmix_k2 k = rotl64 (k * 0xa98409e882ce4d7d) 31 * 0xa81e14edd9de2c7f"

lemma mult_cancel_inverse: "c * d = (1 :: u64) \<Longrightarrow> x * c * d = x"
  by (simp add: mult.assoc)

lemma fmix64_unmix: "unfmix64 (fmix64 x) = x"
proof -
  have 1: "y * 0xc4ceb9fe1a85ec53 * 0x9cb4b2f8129337db = y" for y :: u64
    by (rule mult_cancel_inverse) simp
  have 2: "y * 0xff51afd7ed558ccd * 0x4f74430c22a54005 = y" for y :: u64
    by (rule mult_cancel_inverse) simp
  show ?thesis
    by (simp only: unfmix64_def fmix64_def Let_def xorshift33_inverse 1 2)
qed

lemma mix_k1_unmix: "unmix_k1 (mix_k1 k) = k"
proof -
  have 1: "y * murmur_c2 * 0xa81e14edd9de2c7f = y" for y
    by (rule mult_cancel_inverse) (simp add: murmur_c2_def)
  have 2: "y * murmur_c1 * 0xa98409e882ce4d7d = y" for y
    by (rule mult_cancel_inverse) (simp add: murmur_c1_def)
  have 3: "rotl64 (rotl64 y 31) 33 = y" for y
    using rotl64_inverse [of 31 y] by simp
  show ?thesis by (simp only: unmix_k1_def mix_k1_def 1 2 3)
qed

lemma mix_k2_unmix: "unmix_k2 (mix_k2 k) = k"
proof -
  have 1: "y * murmur_c1 * 0xa98409e882ce4d7d = y" for y
    by (rule mult_cancel_inverse) (simp add: murmur_c1_def)
  have 2: "y * murmur_c2 * 0xa81e14edd9de2c7f = y" for y
    by (rule mult_cancel_inverse) (simp add: murmur_c2_def)
  have 3: "rotl64 (rotl64 y 33) 31 = y" for y
    using rotl64_inverse [of 33 y] by simp
  show ?thesis by (simp only: unmix_k2_def mix_k2_def 1 2 3)
qed

interpretation fmix: mixer fmix64 unfmix64
  by unfold_locales (rule fmix64_unmix)

interpretation mixk1: mixer mix_k1 unmix_k1
  by unfold_locales (rule mix_k1_unmix)

interpretation mixk2: mixer mix_k2 unmix_k2
  by unfold_locales (rule mix_k2_unmix)

lemma add_step_inj:
  fixes a b a' b' :: u64
  assumes "a + b = a' + b'" and "b + (a + b) = b' + (a' + b')"
  shows "a = a'" and "b = b'"
proof -
  show b: "b = b'" using assms by (simp only: add_right_cancel)
  show "a = a'" using assms(1) unfolding b by (simp only: add_right_cancel)
qed

lemma finalize_inj:
  assumes "murmur_finalize len h = murmur_finalize len h'"
  shows "h = h'"
proof -
  obtain a b a' b' where h: "h = (a, b)" "h' = (a', b')" by (cases h; cases h')
  define l :: u64 where "l = of_nat len"
  note eq = assms [unfolded h murmur_finalize_def Let_def split prod.inject, folded l_def]
  from add_step_inj [OF eq [THEN conjunct1] eq [THEN conjunct2]]
  have m: "(a XOR l) + (b XOR l) = (a' XOR l) + (b' XOR l)"
      "(b XOR l) + ((a XOR l) + (b XOR l)) = (b' XOR l) + ((a' XOR l) + (b' XOR l))"
    by (simp_all only: fmix.mix_inj)
  from add_step_inj [OF m] show ?thesis
    unfolding h by (metis bit.xor_left_self xor.commute)
qed

section \<open>Short keys of one length never collide\<close>

definition pack :: "bytes \<Rightarrow> u64" where
  "pack bs = foldr (\<lambda>b acc. ucast b OR push_bit 8 acc) bs 0"

lemma pack_simps [simp]: "pack [] = 0" "pack (b # bs) = ucast b OR push_bit 8 (pack bs)"
  by (simp_all add: pack_def)

lemma bit_pack:
  "length bs \<le> 8 \<Longrightarrow>
    bit (pack bs) n \<longleftrightarrow> n < 8 * length bs \<and> bit (bs ! (n div 8)) (n mod 8)"
proof (induction bs arbitrary: n)
  case Nil
  then show ?case by simp
next
  case (Cons b bs)
  show ?case
  proof (cases "n < 8")
    case True
    then show ?thesis by (auto simp: bit_simps)
  next
    case False
    then have n: "n div 8 = Suc ((n - 8) div 8)" "n mod 8 = (n - 8) mod 8"
      by (simp_all add: le_div_geq le_mod_geq not_less)
    obtain m where m: "n = 8 + m" using False by (metis le_add_diff_inverse not_less)
    have b: "\<not> bit b (8 + m)" by (auto dest: bit_imp_le_length)
    have d: "(8 + m) div 8 = Suc (m div 8)" "(8 + m) mod 8 = m mod 8" by simp_all
    have l: "m < 8 * length bs \<Longrightarrow> m < 56" using Cons.prems by simp
    have "bit (pack (b # bs)) n \<longleftrightarrow> 8 + m < 64 \<and> bit (pack bs) m"
      unfolding m by (simp add: b bit_or_iff bit_push_bit_iff bit_unsigned_iff)
    also have "\<dots> \<longleftrightarrow> m < 8 * length bs \<and> bit (bs ! (m div 8)) (m mod 8)"
    proof -
      have "bit (pack bs) m \<longleftrightarrow> m < 8 * length bs \<and> bit (bs ! (m div 8)) (m mod 8)"
        by (rule Cons.IH) (use Cons.prems in simp)
      with l show ?thesis by linarith
    qed
    finally show ?thesis unfolding m d by simp
  qed
qed

lemma pack_inj:
  assumes "length xs = length ys" and "length xs \<le> 8" and "pack xs = pack ys"
  shows "xs = ys"
proof (rule nth_equalityI)
  show "length xs = length ys" by fact
  fix i assume i: "i < length xs"
  show "xs ! i = ys ! i"
  proof (rule bit_word_eqI)
    fix j assume j: "j < LENGTH(8)"
    then have "bit (pack xs) (8 * i + j) = bit (xs ! i) j" "bit (pack ys) (8 * i + j) = bit (ys ! i) j"
      using i assms(1,2) by (simp_all add: bit_pack)
    with assms(3) show "bit (xs ! i) j = bit (ys ! i) j" by simp
  qed
qed

lemma getblock_inj:
  assumes "length d = 16" and "length d' = 16" and "i < 2" and "getblock d i = getblock d' i"
  shows "take 8 (drop (8 * i) d) = take 8 (drop (8 * i) d')"
  using assms by (intro pack_inj) (auto simp: getblock_def pack_def)

lemma bit_tail_xor:
  "bit (tail_xor t r c sh k) n \<longleftrightarrow>
    (bit k n \<noteq> (c \<le> r \<and> sh \<le> n \<and> n < 64 \<and> n - sh < 8 \<and> bit (t ! (c - 1)) (n - sh)))"
proof -
  have "bit (t ! (c - 1)) m \<Longrightarrow> m < 8" for m
    by (auto dest: bit_imp_le_length)
  then show ?thesis
    by (auto simp: tail_xor_def bit_xor_iff bit_push_bit_iff bit_unsigned_iff)
qed

lemma less_8_cases:
  "i < (8 :: nat) \<Longrightarrow> i = 0 \<or> i = 1 \<or> i = 2 \<or> i = 3 \<or> i = 4 \<or> i = 5 \<or> i = 6 \<or> i = 7"
  by arith

lemma bit_tail_k1:
  assumes "i < 8" and "i < r" and "j < 8"
  shows "bit (tail_k1 t r) (8 * i + j) = bit (t ! i) j"
  using less_8_cases [OF assms(1)]
  by (elim disjE; use assms(2,3) in \<open>simp add: tail_k1_def Let_def bit_tail_xor\<close>)

lemma bit_tail_k2:
  assumes "i < 7" and "8 + i < r" and "j < 8"
  shows "bit (tail_k2 t r) (8 * i + j) = bit (t ! (8 + i)) j"
  using less_8_cases [OF less_trans [OF assms(1)], simplified]
  by (elim disjE; use assms in \<open>simp add: tail_k2_def Let_def bit_tail_xor\<close>)

lemma tail_k_inj:
  assumes len: "length t = length t'" "length t < 16"
    and k1: "tail_k1 t (length t) = tail_k1 t' (length t)"
    and k2: "tail_k2 t (length t) = tail_k2 t' (length t)"
  shows "t = t'"
proof (rule nth_equalityI)
  fix i assume i: "i < length t"
  show "t ! i = t' ! i"
  proof (rule bit_word_eqI)
    fix j assume "j < LENGTH(8)"
    then have j: "j < 8" by simp
    show "bit (t ! i) j = bit (t' ! i) j"
    proof (cases "i < 8")
      case True
      with bit_tail_k1 [OF _ i j, of t] bit_tail_k1 [OF _ i j, of t'] k1 show ?thesis by simp
    next
      case False
      then obtain m where m: "i = 8 + m" by (metis le_add_diff_inverse not_less)
      with i len have "m < 7" "8 + m < length t" by auto
      with bit_tail_k2 [OF _ _ j, of m "length t" t] bit_tail_k2 [OF _ _ j, of m "length t" t'] k2 m
      show ?thesis by simp
    qed
  qed
qed (use len in simp)

lemma rotl64_inj: "0 < r \<Longrightarrow> r < 64 \<Longrightarrow> rotl64 x r = rotl64 y r \<longleftrightarrow> x = y"
  by (metis rotl64_inverse)

lemma times5_inj: "(x :: u64) * 5 = y * 5 \<longleftrightarrow> x = y"
proof -
  have "(z :: u64) * 5 * 0xcccccccccccccccd = z" for z
    by (rule mult_cancel_inverse) simp
  then show ?thesis by metis
qed

lemma body_step_inj:
  assumes "body_step d i h = body_step d' i h"
  shows "getblock d (i * 2) = getblock d' (i * 2)" and "getblock d (i * 2 + 1) = getblock d' (i * 2 + 1)"
proof -
  obtain a b where h: "h = (a, b)" by (cases h)
  note eq = assms [unfolded h body_step_def Let_def split prod.inject]
  have r: "rotl64 x 27 = rotl64 y 27 \<longleftrightarrow> x = y" "rotl64 x 31 = rotl64 y 31 \<longleftrightarrow> x = y" for x y
    by (simp_all add: rotl64_inj)
  from eq [THEN conjunct1] have k1: "getblock d (i * 2 + 0) = getblock d' (i * 2 + 0)"
    by (simp only: times5_inj r add_right_cancel mixk1.xor_mix_inj)
  then show "getblock d (i * 2) = getblock d' (i * 2)" by simp
  from eq [THEN conjunct2, unfolded k1] show "getblock d (i * 2 + 1) = getblock d' (i * 2 + 1)"
    by (simp only: times5_inj r add_right_cancel mixk2.xor_mix_inj)
qed

lemma tail_k_short: "tail_k1 t 0 = 0" "r < 9 \<Longrightarrow> tail_k2 t r = 0"
  by (simp_all add: tail_k1_def tail_k2_def tail_xor_def)

lemma tail_step_inj:
  assumes "tail_step t r h = tail_step t' r h"
  shows "tail_k1 t r = tail_k1 t' r" and "tail_k2 t r = tail_k2 t' r"
proof -
  obtain a b where h: "h = (a, b)" by (cases h)
  note eq = assms [unfolded h tail_step_def Let_def split prod.inject]
  show "tail_k1 t r = tail_k1 t' r"
  proof (cases "1 \<le> r")
    case True
    with eq show ?thesis by (simp add: mixk1.xor_mix_inj)
  next
    case False
    then show ?thesis by (simp add: tail_k_short not_le)
  qed
  show "tail_k2 t r = tail_k2 t' r"
  proof (cases "9 \<le> r")
    case True
    with eq show ?thesis by (simp add: mixk2.xor_mix_inj)
  next
    case False
    then show ?thesis by (simp add: tail_k_short)
  qed
qed

lemma take_drop_16: "length d = 16 \<Longrightarrow> d = take 8 d @ take 8 (drop 8 d)"
  by (metis append_take_drop_id length_drop diff_numeral_special(1) take_all_iff
      arith_simps(1) numeral_eq_iff order_refl add_diff_cancel_left' numeral_Bit0)

text \<open>
  For keys of one length, up to one 16-byte block, MurmurHash3 is collision free: the two
  64-bit words determine the key. The Bloom filter derives every probe from these two words, so
  two such keys can only collide through the reduction modulo the table size.
\<close>

theorem murmur_short_keys_collision_free:
  assumes "length key = length key'" and "length key \<le> 16"
    and "MurmurHash3_x64_128_for_bloomfilter key seed = MurmurHash3_x64_128_for_bloomfilter key' seed"
  shows "key = key'"
proof -
  define s :: "u64 \<times> u64" where "s = (ucast seed, ucast seed)"
  note hash = MurmurHash3_x64_128_for_bloomfilter_def Let_def body_loop.simps s_def [symmetric]
  show ?thesis
  proof (cases "length key = 16")
    case True
    with assms(1) have len: "length key = 16" "length key' = 16" by simp_all
    have t0: "tail_step t 0 h = h" for t h by (simp add: tail_step_def Let_def)
    have "murmur_finalize 16 (body_step key 0 s) = murmur_finalize 16 (body_step key' 0 s)"
      using assms(3) len by (simp add: hash t0)
    then have "body_step key 0 s = body_step key' 0 s" by (rule finalize_inj)
    from body_step_inj [OF this] have "getblock key 0 = getblock key' 0" "getblock key 1 = getblock key' 1"
      by simp_all
    from getblock_inj [OF len _ this(1)] getblock_inj [OF len _ this(2)]
    have "take 8 key = take 8 key'" "take 8 (drop 8 key) = take 8 (drop 8 key')" by simp_all
    with take_drop_16 [OF len(1)] take_drop_16 [OF len(2)] show ?thesis by simp
  next
    case False
    with assms(2) have len: "length key < 16" by simp
    have "murmur_finalize (length key) (tail_step key (length key) s) =
        murmur_finalize (length key) (tail_step key' (length key) s)"
      using assms(1,3) len by (simp add: hash)
    then have "tail_step key (length key) s = tail_step key' (length key) s" by (rule finalize_inj)
    from tail_k_inj [OF assms(1) len tail_step_inj [OF this]] show ?thesis .
  qed
qed

theorem murmur_short_keys_collision_free_witness:
  "MurmurHash3_x64_128_for_bloomfilter [1, 2, 3] 0x97c29b3a =
     MurmurHash3_x64_128_for_bloomfilter (rev [3, 2, 1]) 0x97c29b3a \<and>
   [1, 2, 3] = rev [3, 2, 1 :: u8]"
proof -
  have h: "length [1, 2, 3 :: u8] = length (rev [3, 2, 1 :: u8])" "length [1, 2, 3 :: u8] \<le> 16"
    "MurmurHash3_x64_128_for_bloomfilter [1, 2, 3] 0x97c29b3a =
     MurmurHash3_x64_128_for_bloomfilter (rev [3, 2, 1]) 0x97c29b3a"
    by simp_all
  from murmur_short_keys_collision_free [OF h] show ?thesis using h(3) by (rule conjI [rotated])
qed

section \<open>The bucket hash in closed form\<close>

lemma dict_hash_loop_eq:
  "dict_hash_loop buf h =
    h * 33 ^ length buf + (\<Sum>i<length buf. ucast (buf ! i) * 33 ^ (length buf - 1 - i))"
proof (induction buf arbitrary: h)
  case Nil
  then show ?case by simp
next
  case (Cons c buf)
  have p: "push_bit 5 h + h + ucast c = h * 33 + ucast c"
    by (simp add: push_bit_eq_mult algebra_simps)
  show ?case
    unfolding dict_hash_loop.simps p Cons.IH
    by (simp add: sum.lessThan_Suc_shift algebra_simps del: sum.lessThan_Suc)
qed

end
