(* ===== verification/Bloom.thy ===== *)
theory Bloom
  imports Bitmap Murmur
begin

text \<open>
  One Bloom filter: \<open>struct _bloom\<close> of \<open>bloom_filter.h\<close> with \<open>calculate\<close>, \<open>bloom_init\<close>,
  \<open>bloom_set\<close> and \<open>bloom_get\<close> of \<open>bloom_filter.cpp\<close>.
\<close>

section \<open>Data\<close>

text \<open>
  The type \<open>'d\<close> stands for \<open>double\<close> and the record \<open>libm\<close> for the IEEE operations and the \<open>math.h\<close>
  functions the sizing formula calls; they are not code of the repository.
\<close>

record 'd libm =
  of_integer :: "int \<Rightarrow> 'd"
  d_log :: "'d \<Rightarrow> 'd"
  d_exp :: "'d \<Rightarrow> 'd"
  d_pow :: "'d \<Rightarrow> 'd \<Rightarrow> 'd"
  d_ceil :: "'d \<Rightarrow> 'd"
  d_mul :: "'d \<Rightarrow> 'd \<Rightarrow> 'd"
  d_div :: "'d \<Rightarrow> 'd \<Rightarrow> 'd"
  d_sub :: "'d \<Rightarrow> 'd \<Rightarrow> 'd"
  d_gt :: "'d \<Rightarrow> 'd \<Rightarrow> bool"
  d_to_int :: "'d \<Rightarrow> int"

text \<open>\<open>struct _bloom\<close>; the intrusive list node is never linked in, \<open>hash_next\<close> is the list tail.\<close>

record 'd bloom_t =
  bl_bytes :: u64
  bl_key :: bytes
  bl_n :: u64
  bl_m :: u64
  bl_get_count :: u64
  bl_set_count :: u64
  bl_get_miss_count :: u64
  bl_e :: 'd
  bl_e2 :: 'd
  bl_k :: int
  v_hash :: "u32 list"

definition MAX_KEY_LEN :: nat where "MAX_KEY_LEN = 32"
definition SALT_CONSTANT :: u32 where "SALT_CONSTANT = 0x97c29b3a"

text \<open>\<open>sizeof(bloom_t)\<close> on x86-64: two list pointers, \<open>hash_next\<close>, \<open>bytes\<close>, the key, five counters, two doubles, \<open>k\<close> with its padding, \<open>v_hash\<close>.\<close>

definition sizeof_bloom_t :: u64 where "sizeof_bloom_t = 136"

section \<open>Sizing\<close>

text \<open>\<open>for (x = 2; te > e && x < 100; x++)\<close> with \<open>kk\<close> and \<open>te\<close> carried along.\<close>

function calc_loop :: "'d libm \<Rightarrow> 'd \<Rightarrow> int \<Rightarrow> int \<Rightarrow> 'd \<Rightarrow> int \<times> int \<times> 'd" where
  "calc_loop fp e x kk te =
    (if d_gt fp te e \<and> x < 100
     then let kk = d_to_int fp (d_ceil fp (d_mul fp (of_integer fp x) (d_log fp (of_integer fp 2))));
              te = d_pow fp
                     (d_sub fp (of_integer fp 1)
                        (d_exp fp (d_div fp (of_integer fp (- kk)) (of_integer fp x))))
                     (of_integer fp kk)
          in calc_loop fp e (x + 1) kk te
     else (x, kk, te))"
  by pat_completeness auto
termination
  by (relation "measure (\<lambda>(fp, e, x, kk, te). nat (100 - x))") auto

declare calc_loop.simps [simp del]

text \<open>
  The result is \<open>(returned size, *m, *k, *tmp_e)\<close>; on the overflow exits the three out
  parameters keep the values they came with.
\<close>

definition calculate ::
  "'d libm \<Rightarrow> u64 \<Rightarrow> 'd \<Rightarrow> u64 \<Rightarrow> int \<Rightarrow> 'd \<Rightarrow> u64 \<times> u64 \<times> int \<times> 'd" where
  "calculate fp n e m k tmp_e =
    (let (x, kk, te) = calc_loop fp e 2 0 (of_integer fp 1)
     in if d_gt fp (d_mul fp (of_integer fp (x - 1)) (of_integer fp (uint n))) (of_integer fp (2 ^ 64 - 1))
        then (0, m, k, tmp_e)
        else let mm = of_int (x - 1) * n;
                 bytes = drop_bit 3 ((mm + 0x1F) AND NOT 0x1F) + sizeof_bloom_t
             in if bytes > - 1 then (0, m, k, tmp_e)
                else (bytes, mm, kk, te))"

section \<open>Creation\<close>

text \<open>
  \<open>bloom_init\<close>: \<open>room\<close> is \<open>blooms->max_bytes - blooms->bytes\<close> and \<open>mem\<close> says whether \<open>malloc\<close>
  succeeds. \<open>strcpy\<close> into the 32-byte key field overflows for a key of 32 bytes or more.
\<close>

definition bloom_init ::
  "'d libm \<Rightarrow> bool \<Rightarrow> u64 \<Rightarrow> bytes \<Rightarrow> u64 \<Rightarrow> 'd \<Rightarrow> 'd bloom_t option result" where
  "bloom_init fp mem room key n e =
    (let (bytes, m, k, tmp_e) = calculate fp n e 0 0 (of_integer fp 1)
     in if bytes = 0 then Inr None
        else if bytes > room then Inr None
        else if \<not> mem then Inr None
        else if length key \<ge> MAX_KEY_LEN then Inl BufferOverflow
        else Inr (Some
          \<lparr> bl_bytes = bytes, bl_key = key, bl_n = n, bl_m = m,
            bl_get_count = 0, bl_set_count = 0, bl_get_miss_count = 0,
            bl_e = e, bl_e2 = tmp_e, bl_k = k,
            v_hash = replicate (unat ((bytes - sizeof_bloom_t) div 4)) 0 \<rparr>))"

section \<open>Probing\<close>

text \<open>\<open>(h1 + i * h2) % bloom->m\<close>; a zero \<open>m\<close> traps.\<close>

definition probe :: "u64 \<Rightarrow> u64 \<Rightarrow> u64 \<Rightarrow> int \<Rightarrow> u64 result" where
  "probe m h1 h2 i =
    (if m = 0 then Inl DivByZero else Inr ((h1 + of_int i * h2) mod m))"

function set_loop :: "u64 \<Rightarrow> u64 \<Rightarrow> u64 \<Rightarrow> int \<Rightarrow> int \<Rightarrow> u32 list \<Rightarrow> u32 list result" where
  "set_loop m h1 h2 i k mp =
    (if i < k
     then (case probe m h1 h2 i of Inl f \<Rightarrow> Inl f
           | Inr hashes \<Rightarrow>
             (case bitmap_set mp hashes of Inl f \<Rightarrow> Inl f
              | Inr mp' \<Rightarrow> set_loop m h1 h2 (i + 1) k mp'))
     else Inr mp)"
  by pat_completeness auto
termination
  by (relation "measure (\<lambda>(m, h1, h2, i, k, mp). nat (k - i))") auto

function check_loop :: "u64 \<Rightarrow> u64 \<Rightarrow> u64 \<Rightarrow> int \<Rightarrow> int \<Rightarrow> u32 list \<Rightarrow> bool result" where
  "check_loop m h1 h2 i k mp =
    (if i < k
     then (case probe m h1 h2 i of Inl f \<Rightarrow> Inl f
           | Inr hashes \<Rightarrow>
             (case bitmap_check mp hashes of Inl f \<Rightarrow> Inl f
              | Inr w \<Rightarrow> if w = 0 then Inr False else check_loop m h1 h2 (i + 1) k mp))
     else Inr True)"
  by pat_completeness auto
termination
  by (relation "measure (\<lambda>(m, h1, h2, i, k, mp). nat (k - i))") auto

declare set_loop.simps [simp del] check_loop.simps [simp del]

definition bloom_hash :: "bytes \<Rightarrow> u64 \<times> u64" where
  "bloom_hash key = MurmurHash3_x64_128_for_bloomfilter key SALT_CONSTANT"

definition bloom_set :: "'d bloom_t \<Rightarrow> bytes \<Rightarrow> 'd bloom_t result" where
  "bloom_set b key =
    (let (h1, h2) = bloom_hash key
     in case set_loop (bl_m b) h1 h2 0 (bl_k b) (v_hash b) of
          Inl f \<Rightarrow> Inl f
        | Inr mp \<Rightarrow> Inr (b\<lparr>v_hash := mp, bl_set_count := bl_set_count b + 1\<rparr>))"

text \<open>\<open>bloom_get\<close> returns 0 or 1; which of the two also says which global counter moves.\<close>

definition bloom_get :: "'d bloom_t \<Rightarrow> bytes \<Rightarrow> (int \<times> 'd bloom_t) result" where
  "bloom_get b key =
    (let (h1, h2) = bloom_hash key
     in case check_loop (bl_m b) h1 h2 0 (bl_k b) (v_hash b) of
          Inl f \<Rightarrow> Inl f
        | Inr hit \<Rightarrow>
            Inr (if hit then (1, b\<lparr>bl_get_count := bl_get_count b + 1\<rparr>)
                 else (0, b\<lparr>bl_get_miss_count := bl_get_miss_count b + 1\<rparr>)))"

section \<open>A filter as a set of bits\<close>

definition probes :: "u64 \<Rightarrow> u64 \<Rightarrow> u64 \<Rightarrow> int \<Rightarrow> int \<Rightarrow> u64 list" where
  "probes m h1 h2 i k = map (\<lambda>j. (h1 + of_int j * h2) mod m) [i..k - 1]"

lemma probes_rec: "probes m h1 h2 i k =
    (if i < k then ((h1 + of_int i * h2) mod m) # probes m h1 h2 (i + 1) k else [])"
  by (simp add: probes_def upto_rec1)

definition bloom_probes :: "'d bloom_t \<Rightarrow> bytes \<Rightarrow> u64 list" where
  "bloom_probes b key = (let (h1, h2) = bloom_hash key in probes (bl_m b) h1 h2 0 (bl_k b))"

text \<open>The bits that are set, and the filter's answer as an inclusion.\<close>

definition bits :: "'d bloom_t \<Rightarrow> u64 set" where
  "bits b = {i. bm_test (v_hash b) i}"

definition bloom_member :: "'d bloom_t \<Rightarrow> bytes \<Rightarrow> bool" where
  "bloom_member b key \<longleftrightarrow> list_all (bm_test (v_hash b)) (bloom_probes b key)"

lemma bloom_member_bits: "bloom_member b key \<longleftrightarrow> set (bloom_probes b key) \<subseteq> bits b"
  by (auto simp: bloom_member_def bits_def list_all_iff)

text \<open>
  A filter the probes cannot leave: the size is not zero and every bit position below it lies
  in the vector. Without a hash function nothing is probed.
\<close>

definition bloom_ok :: "'d bloom_t \<Rightarrow> bool" where
  "bloom_ok b \<longleftrightarrow> (0 < bl_k b \<longrightarrow> bl_m b \<noteq> 0 \<and> unat (bl_m b) \<le> 32 * length (v_hash b))"

lemma probe_valid:
  "m \<noteq> 0 \<Longrightarrow> unat m \<le> 32 * length mp \<Longrightarrow> bm_valid mp (x mod m)"
  using unat_mod_less [of m x] by (simp add: bm_valid_def)

lemma set_loop_eq:
  "m \<noteq> 0 \<Longrightarrow> unat m \<le> 32 * length mp \<Longrightarrow>
    set_loop m h1 h2 i k mp = Inr (fold (\<lambda>i m. bm_set m i) (probes m h1 h2 i k) mp)"
proof (induction m h1 h2 i k mp rule: set_loop.induct)
  case (1 m h1 h2 i k mp)
  show ?case
  proof (cases "i < k")
    case True
    have v: "bm_valid mp ((h1 + of_int i * h2) mod m)"
      using "1.prems" by (rule probe_valid)
    with "1.IH" [OF True] "1.prems" True show ?thesis
      by (simp add: set_loop.simps [of m h1 h2 i k mp] probes_rec [of m h1 h2 i k] probe_def bitmap_set_eq)
  next
    case False
    then show ?thesis
      by (simp add: set_loop.simps [of m h1 h2 i k mp] probes_rec [of m h1 h2 i k])
  qed
qed

lemma check_loop_eq:
  "m \<noteq> 0 \<Longrightarrow> unat m \<le> 32 * length mp \<Longrightarrow>
    check_loop m h1 h2 i k mp = Inr (list_all (bm_test mp) (probes m h1 h2 i k))"
proof (induction m h1 h2 i k mp rule: check_loop.induct)
  case (1 m h1 h2 i k mp)
  show ?case
  proof (cases "i < k")
    case True
    let ?p = "(h1 + of_int i * h2) mod m"
    have "bm_valid mp ?p" using "1.prems" by (rule probe_valid)
    then obtain w where w: "bitmap_check mp ?p = Inr w" "w \<noteq> 0 \<longleftrightarrow> bm_test mp ?p"
      using bitmap_check_test by blast
    have IH: "w \<noteq> 0 \<Longrightarrow> check_loop m h1 h2 (i + 1) k mp =
        Inr (list_all (bm_test mp) (probes m h1 h2 (i + 1) k))"
      using "1.IH" [OF True, of ?p w] "1.prems" w by (simp add: probe_def)
    show ?thesis
      using True w IH "1.prems"
      by (auto simp: check_loop.simps [of m h1 h2 i k mp] probes_rec [of m h1 h2 i k] probe_def)
  next
    case False
    then show ?thesis
      by (simp add: check_loop.simps [of m h1 h2 i k mp] probes_rec [of m h1 h2 i k])
  qed
qed

lemma loops_no_hash: "k \<le> 0 \<Longrightarrow> set_loop m h1 h2 0 k mp = Inr mp"
  "k \<le> 0 \<Longrightarrow> check_loop m h1 h2 0 k mp = Inr True" "k \<le> 0 \<Longrightarrow> probes m h1 h2 0 k = []"
  by (simp_all add: set_loop.simps check_loop.simps probes_rec)

lemma probes_valid:
  "bloom_ok b \<Longrightarrow> list_all (bm_valid (v_hash b)) (bloom_probes b key)"
proof (cases "0 < bl_k b")
  case True
  assume "bloom_ok b"
  with True show ?thesis
    by (auto simp: bloom_ok_def bloom_probes_def probes_def list_all_iff probe_valid split: prod.splits)
qed (auto simp: bloom_probes_def loops_no_hash split: prod.splits)

lemma bloom_set_eq:
  "bloom_ok b \<Longrightarrow> bloom_set b key =
    Inr (b\<lparr>v_hash := fold (\<lambda>i m. bm_set m i) (bloom_probes b key) (v_hash b),
           bl_set_count := bl_set_count b + 1\<rparr>)"
  by (cases "0 < bl_k b")
     (auto simp: bloom_set_def bloom_ok_def set_loop_eq bloom_probes_def loops_no_hash split: prod.splits)

lemma bloom_get_eq:
  "bloom_ok b \<Longrightarrow> bloom_get b key =
    Inr (if bloom_member b key then (1, b\<lparr>bl_get_count := bl_get_count b + 1\<rparr>)
         else (0, b\<lparr>bl_get_miss_count := bl_get_miss_count b + 1\<rparr>))"
  by (cases "0 < bl_k b")
     (auto simp: bloom_get_def bloom_ok_def check_loop_eq bloom_member_def bloom_probes_def
        loops_no_hash split: prod.splits)

lemma length_fold_bm_set [simp]: "length (fold (\<lambda>i m. bm_set m i) is mp) = length mp"
  by (induction "is" arbitrary: mp) simp_all

lemma bloom_ok_update [simp]:
  "bloom_ok (b\<lparr>bl_set_count := c\<rparr>) = bloom_ok b"
  "bloom_ok (b\<lparr>bl_get_count := c\<rparr>) = bloom_ok b"
  "bloom_ok (b\<lparr>bl_get_miss_count := c\<rparr>) = bloom_ok b"
  "length mp = length (v_hash b) \<Longrightarrow> bloom_ok (b\<lparr>v_hash := mp\<rparr>) = bloom_ok b"
  by (simp_all add: bloom_ok_def)

lemma bloom_probes_update [simp]:
  "bloom_probes (b\<lparr>bl_set_count := c\<rparr>) = bloom_probes b"
  "bloom_probes (b\<lparr>bl_get_count := c\<rparr>) = bloom_probes b"
  "bloom_probes (b\<lparr>bl_get_miss_count := c\<rparr>) = bloom_probes b"
  "bloom_probes (b\<lparr>v_hash := mp\<rparr>) = bloom_probes b"
  by (simp_all add: bloom_probes_def fun_eq_iff)

lemma bits_update [simp]:
  "bits (b\<lparr>bl_set_count := c\<rparr>) = bits b"
  "bits (b\<lparr>bl_get_count := c\<rparr>) = bits b"
  "bits (b\<lparr>bl_get_miss_count := c\<rparr>) = bits b"
  by (simp_all add: bits_def)

text \<open>Insertion is set union on the bits, and keeps the filter well formed.\<close>

lemma bloom_set_bits:
  assumes "bloom_ok b" and "bloom_set b key = Inr b'"
  shows "bits b' = set (bloom_probes b key) \<union> bits b" and "bloom_probes b' = bloom_probes b"
    and "bloom_ok b'"
  using assms probes_valid [OF assms(1), of key]
  by (auto simp: bloom_set_eq bits_def bm.test_fold_put)

lemma bloom_get_bits:
  assumes "bloom_ok b" and "bloom_get b key = Inr (r, b')"
  shows "bits b' = bits b" and "bloom_probes b' = bloom_probes b" and "bloom_ok b'"
    and "r = (if bloom_member b key then 1 else 0)"
  using assms by (auto simp: bloom_get_eq split: if_splits)

section \<open>Creation gives a well-formed empty filter\<close>

lemma calc_loop_range:
  "2 \<le> x \<Longrightarrow> x \<le> 100 \<Longrightarrow> calc_loop fp e x kk te = (x', kk', te') \<Longrightarrow> x \<le> x' \<and> x' \<le> 100"
proof (induction fp e x kk te rule: calc_loop.induct)
  case (1 fp e x kk te)
  show ?case
  proof (cases "d_gt fp te e \<and> x < 100")
    case True
    have eq: "calc_loop fp e x kk te = calc_loop fp e (x + 1)
        (d_to_int fp (d_ceil fp (d_mul fp (of_integer fp x) (d_log fp (of_integer fp 2)))))
        (d_pow fp (d_sub fp (of_integer fp 1) (d_exp fp (d_div fp
          (of_integer fp (- (d_to_int fp (d_ceil fp (d_mul fp (of_integer fp x) (d_log fp (of_integer fp 2)))))))
          (of_integer fp x))))
          (of_integer fp (d_to_int fp (d_ceil fp (d_mul fp (of_integer fp x) (d_log fp (of_integer fp 2)))))))"
      using True by (subst calc_loop.simps) (simp add: Let_def)
    have "x + 1 \<le> x' \<and> x' \<le> 100"
      by (rule "1.IH" [OF True refl refl]) (use "1.prems" True eq in auto)
    then show ?thesis by simp
  next
    case False
    then show ?thesis
      using "1.prems" by (subst (asm) calc_loop.simps) (auto split: if_splits)
  qed
qed

lemma and_not_31: "(x :: u64) AND NOT 31 = push_bit 5 (drop_bit 5 x)"
proof -
  have m: "(31 :: u64) = mask 5" by (simp add: mask_eq_exp_minus_1)
  have "x AND NOT (mask 5) = push_bit 5 (drop_bit 5 x)"
    by (rule bit_word_eqI)
       (auto simp: bit_and_iff bit_not_iff bit_mask_iff bit_push_bit_iff bit_drop_bit_eq)
  then show ?thesis by (simp only: m)
qed

lemma map_words: "unat ((drop_bit 3 ((x :: u64) AND NOT 31) + sizeof_bloom_t - sizeof_bloom_t) div 4) = unat x div 32"
proof -
  have "drop_bit 3 (x AND NOT 31) = push_bit 2 (drop_bit 5 x)"
    unfolding and_not_31
    by (rule bit_word_eqI) (auto simp: bit_push_bit_iff bit_drop_bit_eq add.commute dest: bit_imp_le_length)
  moreover have "push_bit 2 (drop_bit 5 x) div 4 = drop_bit 5 x"
  proof -
    have "push_bit 2 (drop_bit 5 x) div 4 = drop_bit 2 (push_bit 2 (drop_bit 5 x))"
      by (simp add: drop_bit_eq_div)
    also have "\<dots> = drop_bit 5 x"
      by (rule bit_word_eqI) (auto simp: bit_push_bit_iff bit_drop_bit_eq dest: bit_imp_le_length)
    finally show ?thesis .
  qed
  ultimately show ?thesis by (simp add: unat_drop_bit5)
qed

lemma unat_of_int_mult:
  assumes "0 \<le> y" and "y \<le> 99" and "unat (n :: u64) \<le> 2 ^ 57"
  shows "unat (of_int y * n) = nat y * unat n"
proof -
  have "nat y * unat n \<le> 99 * 2 ^ 57"
    using assms by (intro mult_mono) auto
  then have lt: "nat y * unat n < 2 ^ 64" by simp
  obtain k where k: "y = int k" using assms(1) nonneg_int_cases by blast
  have "unat (of_int y :: u64) = nat y"
    using assms(2) by (simp add: k unat_of_nat)
  with lt show ?thesis by (simp add: unat_mult_lem [THEN iffD1])
qed

text \<open>
  Up to \<open>2 ^ 57\<close> elements nothing in the sizing wraps: \<open>m = (x - 1) * n\<close> bits with \<open>2 \<le> x \<le> 100\<close>,
  all of them inside the vector.
\<close>

lemma bloom_init_spec:
  assumes init: "bloom_init fp mem room key n e = Inr (Some b)" and n: "unat n \<le> 2 ^ 57"
  obtains x kk te where "calc_loop fp e 2 0 (of_integer fp 1) = (x, kk, te)" "2 \<le> x" "x \<le> 100"
    "unat (bl_m b) = nat (x - 1) * unat n" "bl_k b = kk" "bl_n b = n" "bl_key b = key"
    "unat (bl_m b) \<le> 32 * length (v_hash b)" "bits b = {}" "length key < MAX_KEY_LEN"
    "bl_bytes b \<le> room" "bl_bytes b \<noteq> 0" "bl_set_count b = 0"
proof -
  obtain x kk te where c: "calc_loop fp e 2 0 (of_integer fp 1) = (x, kk, te)"
    by (metis prod_cases3)
  have x: "2 \<le> x" "x \<le> 100" using calc_loop_range [OF _ _ c] by auto
  define mm :: u64 where "mm = of_int (x - 1) * n"
  define sz where "sz = drop_bit 3 ((mm + 0x1F) AND NOT 0x1F) + sizeof_bloom_t"
  have b: "b = \<lparr> bl_bytes = sz, bl_key = key, bl_n = n, bl_m = mm, bl_get_count = 0, bl_set_count = 0,
      bl_get_miss_count = 0, bl_e = e, bl_e2 = te, bl_k = kk,
      v_hash = replicate (unat ((sz - sizeof_bloom_t) div 4)) 0 \<rparr>"
    and k: "length key < MAX_KEY_LEN" "sz \<le> room" "sz \<noteq> 0"
    using init unfolding bloom_init_def calculate_def c sz_def mm_def
    by (auto simp: Let_def split: if_splits)
  have mm: "unat mm = nat (x - 1) * unat n"
    unfolding mm_def by (rule unat_of_int_mult) (use x n in auto)
  have "nat (x - 1) * unat n \<le> 99 * 2 ^ 57"
    using x n by (intro mult_mono) auto
  then have "unat (mm + 31) = unat mm + 31"
    using mm by (subst unat_add_lem [THEN iffD1]) auto
  moreover have "length (v_hash b) = unat (mm + 31) div 32"
    unfolding b sz_def using map_words [of "mm + 31"] by simp
  ultimately have "unat (bl_m b) \<le> 32 * length (v_hash b)"
    unfolding b by simp
  moreover have "bits b = {}" unfolding b by (simp add: bits_def bm_test_zero)
  ultimately show thesis
    using that [OF c x] mm k unfolding b by simp
qed

lemma bloom_init_ok:
  assumes "bloom_init fp mem room key n e = Inr (Some b)" and "0 < n" and "unat n \<le> 2 ^ 57"
  shows "bloom_ok b"
proof -
  from assms obtain x where "2 \<le> x" "unat (bl_m b) = nat (x - 1) * unat n"
    "unat (bl_m b) \<le> 32 * length (v_hash b)"
    by (metis bloom_init_spec)
  moreover from \<open>0 < n\<close> have "0 < unat n" by (simp add: unat_gt_0)
  ultimately have "bl_m b \<noteq> 0" by auto
  with \<open>unat (bl_m b) \<le> _\<close> show ?thesis by (simp add: bloom_ok_def)
qed

end
