(* ===== verification/Blooms.thy ===== *)
theory Blooms
  imports Bloom
begin

text \<open>
  The table of named filters of \<open>bloom_filter.cpp\<close>: \<open>blooms_t\<close>, its hash chains, and every
  \<open>blooms_*\<close> entry point with its locks. A chain of \<open>hash_next\<close> pointers is the list of its
  nodes: each node hangs in one chain only, so the list carries the same information.
\<close>

section \<open>Data\<close>

record 'd blooms_t =
  bs_bytes :: u64
  max_bytes :: u64
  bs_count :: u32
  bs_power :: nat
  bs_get_count :: u64
  bs_set_count :: u64
  bs_get_miss_count :: u64
  hashtable :: "nat \<Rightarrow> 'd bloom_t list"

text \<open>
  The globals of the file. \<open>blooms\<close> is the pointer (\<open>None\<close> is \<open>NULL\<close>).
\<close>

record 'd bloomlib =
  blooms :: "'d blooms_t option"
  bloom_hash_lock :: rwlock
  bloom_dlist_lock :: rwlock
  dump_file_lock :: rwlock

definition HASH_POWER :: nat where "HASH_POWER = 20"

definition hashsize :: "nat \<Rightarrow> u32" where "hashsize p = push_bit p 1"
definition hashmask :: "nat \<Rightarrow> u32" where "hashmask p = hashsize p - 1"

definition bucket :: "'d blooms_t \<Rightarrow> bytes \<Rightarrow> nat" where
  "bucket B key = unat (dictGenHashFunction key AND hashmask (bs_power B))"

section \<open>Walking a chain\<close>

text \<open>\<open>while (bloom) { if (!strcmp(bloom->key, key)) ...; bloom = bloom->hash_next; }\<close>\<close>

fun chain_find :: "'d bloom_t list \<Rightarrow> bytes \<Rightarrow> 'd bloom_t option" where
  "chain_find [] key = None"
| "chain_find (b # bs) key = (if bl_key b = key then Some b else chain_find bs key)"

text \<open>Assigning through the pointer the walk returned.\<close>

fun chain_write :: "'d bloom_t list \<Rightarrow> 'd bloom_t \<Rightarrow> 'd bloom_t list" where
  "chain_write [] b' = []"
| "chain_write (b # bs) b' = (if bl_key b = bl_key b' then b' # bs else b # chain_write bs b')"

definition table_find :: "'d blooms_t \<Rightarrow> bytes \<Rightarrow> 'd bloom_t option" where
  "table_find B key = chain_find (hashtable B (bucket B key)) key"

definition table_write :: "'d blooms_t \<Rightarrow> 'd bloom_t \<Rightarrow> 'd blooms_t" where
  "table_write B b =
    (let hv = bucket B (bl_key b)
     in B\<lparr>hashtable := (hashtable B)(hv := chain_write (hashtable B hv) b)\<rparr>)"

text \<open>\<open>bloom->hash_next = blooms->hashtable[hv]; blooms->hashtable[hv] = bloom;\<close>\<close>

definition table_insert :: "'d blooms_t \<Rightarrow> 'd bloom_t \<Rightarrow> 'd blooms_t" where
  "table_insert B b =
    (let hv = bucket B (bl_key b)
     in B\<lparr>hashtable := (hashtable B)(hv := b # hashtable B hv)\<rparr>)"

definition with_blooms :: "'d bloomlib \<Rightarrow> ('d blooms_t \<Rightarrow> 'a result) \<Rightarrow> 'a result" where
  "with_blooms s f = (case blooms s of None \<Rightarrow> Inl NullDeref | Some B \<Rightarrow> f B)"

section \<open>Creation, insertion, query\<close>

text \<open>\<open>blooms_init\<close>: \<open>mem\<close> says whether \<open>malloc\<close> succeeds; the result is 1 when it does not.\<close>

definition blooms_init :: "bool \<Rightarrow> u64 \<Rightarrow> 'd bloomlib \<Rightarrow> int \<times> 'd bloomlib" where
  "blooms_init mem mx s =
    (if \<not> mem then (1, s\<lparr>blooms := None\<rparr>)
     else (0, s\<lparr>blooms := Some \<lparr> bs_bytes = 0, max_bytes = mx, bs_count = 0, bs_power = HASH_POWER,
                    bs_get_count = 0, bs_set_count = 0, bs_get_miss_count = 0,
                    hashtable = (\<lambda>_. []) \<rparr>,
                bloom_hash_lock := Unlocked, bloom_dlist_lock := Unlocked, dump_file_lock := Unlocked\<rparr>))"

definition blooms_search :: "'d bloomlib \<Rightarrow> bytes \<Rightarrow> 'd bloom_t option result" where
  "blooms_search s key = with_blooms s (\<lambda>B. Inr (table_find B key))"

definition blooms_add ::
  "'d libm \<Rightarrow> bool \<Rightarrow> 'd bloomlib \<Rightarrow> bytes \<Rightarrow> u64 \<Rightarrow> 'd \<Rightarrow> (int \<times> 'd bloomlib) result" where
  "blooms_add fp mem s key n e = with_blooms s (\<lambda>B.
     bind_r (wr_lock (bloom_hash_lock s)) (\<lambda>hl.
       case table_find B key of
         Some _ \<Rightarrow> bind_r (rw_unlock hl) (\<lambda>hl. Inr (1, s\<lparr>bloom_hash_lock := hl\<rparr>))
       | None \<Rightarrow>
           bind_r (bloom_init fp mem (max_bytes B - bs_bytes B) key n e) (\<lambda>bo.
             case bo of
               None \<Rightarrow> bind_r (rw_unlock hl) (\<lambda>hl. Inr (2, s\<lparr>bloom_hash_lock := hl\<rparr>))
             | Some b \<Rightarrow>
                 bind_r (rw_unlock hl) (\<lambda>hl.
                   let B = table_insert B b;
                       B = B\<lparr>bs_count := bs_count B + 1\<rparr>;
                       B = B\<lparr>bs_bytes := bs_bytes B + bl_bytes b\<rparr>
                   in bind_r (wr_lock (bloom_dlist_lock s)) (\<lambda>dl.
                      bind_r (rw_unlock dl) (\<lambda>dl.
                        Inr (0, s\<lparr>blooms := Some B, bloom_hash_lock := hl, bloom_dlist_lock := dl\<rparr>)))))))"

definition blooms_set :: "'d bloomlib \<Rightarrow> bytes \<Rightarrow> bytes \<Rightarrow> (int \<times> 'd bloomlib) result" where
  "blooms_set s key subkey = with_blooms s (\<lambda>B.
     bind_r (wr_lock (bloom_hash_lock s)) (\<lambda>hl.
       case table_find B key of
         None \<Rightarrow> bind_r (rw_unlock hl) (\<lambda>hl. Inr (1, s\<lparr>bloom_hash_lock := hl\<rparr>))
       | Some b \<Rightarrow>
           bind_r (bloom_set b subkey) (\<lambda>b'.
             let B = table_write B b';
                 B = B\<lparr>bs_set_count := bs_set_count B + 1\<rparr>
             in bind_r (rw_unlock hl) (\<lambda>hl.
                  Inr (0, s\<lparr>blooms := Some B, bloom_hash_lock := hl\<rparr>)))))"

definition blooms_get :: "'d bloomlib \<Rightarrow> bytes \<Rightarrow> bytes \<Rightarrow> (int \<times> 'd bloomlib) result" where
  "blooms_get s key subkey = with_blooms s (\<lambda>B.
     bind_r (rd_lock (bloom_hash_lock s)) (\<lambda>hl.
       case table_find B key of
         None \<Rightarrow> bind_r (rw_unlock hl) (\<lambda>hl. Inr (-1, s\<lparr>bloom_hash_lock := hl\<rparr>))
       | Some b \<Rightarrow>
           bind_r (bloom_get b subkey) (\<lambda>(r, b').
             let B = table_write B b';
                 B = (if r = 1 then B\<lparr>bs_get_count := bs_get_count B + 1\<rparr>
                      else B\<lparr>bs_get_miss_count := bs_get_miss_count B + 1\<rparr>)
             in bind_r (rw_unlock hl) (\<lambda>hl.
                  Inr (r, s\<lparr>blooms := Some B, bloom_hash_lock := hl\<rparr>)))))"

text \<open>\<open>bloom_status\<close>: what it prints, as the fields in the order of the \<open>printf\<close>s.\<close>

definition bloom_status ::
  "'d bloomlib \<Rightarrow> bytes \<Rightarrow> (int \<times> (bytes \<times> u64 \<times> 'd \<times> 'd \<times> int \<times> u64 \<times> u64 \<times> u64 \<times> u64 \<times> u64) option \<times> 'd bloomlib) result" where
  "bloom_status s key = with_blooms s (\<lambda>B.
     bind_r (rd_lock (bloom_hash_lock s)) (\<lambda>hl.
       case table_find B key of
         None \<Rightarrow> bind_r (rw_unlock hl) (\<lambda>hl. Inr (-1, None, s\<lparr>bloom_hash_lock := hl\<rparr>))
       | Some b \<Rightarrow>
           bind_r (rw_unlock hl) (\<lambda>hl.
             Inr (0, Some (bl_key b, bl_n b, bl_e b, bl_e2 b, bl_k b, bl_m b, bl_bytes b,
                           bl_set_count b, bl_get_count b, bl_get_miss_count b),
                  s\<lparr>bloom_hash_lock := hl\<rparr>))))"

section \<open>Deletion\<close>

definition bloom_delete :: "'d blooms_t \<Rightarrow> 'd bloom_t \<Rightarrow> 'd blooms_t" where
  "bloom_delete B b = B\<lparr>bs_bytes := bs_bytes B - bl_bytes b, bs_count := bs_count B - 1\<rparr>"

text \<open>
  The pair \<open>(bloom, next)\<close> moving down the chain; the result is the unlinked node and the chain
  from \<open>bloom\<close> on.
\<close>

fun delete_walk :: "'d bloom_t \<Rightarrow> 'd bloom_t list \<Rightarrow> bytes \<Rightarrow> ('d bloom_t \<times> 'd bloom_t list) option" where
  "delete_walk b [] key = None"
| "delete_walk b (next # rest) key =
    (if bl_key next = key then Some (next, b # rest)
     else (case delete_walk next rest key of
             None \<Rightarrow> None
           | Some (d, chain) \<Rightarrow> Some (d, b # chain)))"

definition chain_delete :: "'d bloom_t list \<Rightarrow> bytes \<Rightarrow> ('d bloom_t \<times> 'd bloom_t list) option" where
  "chain_delete chain key =
    (case chain of
       [] \<Rightarrow> None
     | b # rest \<Rightarrow> if bl_key b = key then Some (b, rest) else delete_walk b rest key)"

definition blooms_delete :: "'d bloomlib \<Rightarrow> bytes \<Rightarrow> (int \<times> 'd bloomlib) result" where
  "blooms_delete s key =
     bind_r (wr_lock (bloom_hash_lock s)) (\<lambda>hl.
     bind_r (wr_lock (bloom_dlist_lock s)) (\<lambda>dl.
     with_blooms s (\<lambda>B.
       let hv = bucket B key
       in case chain_delete (hashtable B hv) key of
            None \<Rightarrow>
              bind_r (rw_unlock hl) (\<lambda>hl. bind_r (rw_unlock dl) (\<lambda>dl.
                Inr (1, s\<lparr>bloom_hash_lock := hl, bloom_dlist_lock := dl\<rparr>)))
          | Some (d, chain) \<Rightarrow>
              let B = bloom_delete (B\<lparr>hashtable := (hashtable B)(hv := chain)\<rparr>) d
              in bind_r (rw_unlock hl) (\<lambda>hl. bind_r (rw_unlock dl) (\<lambda>dl.
                   Inr (0, s\<lparr>blooms := Some B, bloom_hash_lock := hl, bloom_dlist_lock := dl\<rparr>))))))"

text \<open>
  One bucket of \<open>blooms_delete_all\<close>. The loop unlinks the successor of \<open>bloom\<close>, then moves to the
  node after it and reads that node's \<open>hash_next\<close>: a null dereference when there is none.
\<close>

fun delete_all_chain :: "'d blooms_t \<Rightarrow> 'd bloom_t list \<Rightarrow> ('d blooms_t \<times> 'd bloom_t list) result" where
  "delete_all_chain B [] = Inr (B, [])"
| "delete_all_chain B [b] = Inr (B, [b])"
| "delete_all_chain B [b, next] = Inl NullDeref"
| "delete_all_chain B (b # next # c # rest) =
    (case delete_all_chain (bloom_delete B next) (c # rest) of
       Inl f \<Rightarrow> Inl f
     | Inr (B', chain) \<Rightarrow> Inr (B', b # chain))"

function delete_all_loop :: "nat \<Rightarrow> nat \<Rightarrow> 'd blooms_t \<Rightarrow> 'd blooms_t result" where
  "delete_all_loop hv num B =
    (if hv < num
     then (case delete_all_chain B (hashtable B hv) of
             Inl f \<Rightarrow> Inl f
           | Inr (B', chain) \<Rightarrow>
               delete_all_loop (Suc hv) num (B'\<lparr>hashtable := (hashtable B')(hv := chain)\<rparr>))
     else Inr B)"
  by pat_completeness auto
termination
  by (relation "measure (\<lambda>(hv, num, B). num - hv)") auto

declare delete_all_loop.simps [simp del]

definition blooms_delete_all :: "'d bloomlib \<Rightarrow> 'd bloomlib result" where
  "blooms_delete_all s =
     bind_r (wr_lock (bloom_hash_lock s)) (\<lambda>hl.
     bind_r (wr_lock (bloom_dlist_lock s)) (\<lambda>dl.
     with_blooms s (\<lambda>B.
     bind_r (delete_all_loop 0 (unat (hashsize HASH_POWER)) B) (\<lambda>B.
     bind_r (rw_unlock hl) (\<lambda>hl. bind_r (rw_unlock dl) (\<lambda>dl.
       Inr (s\<lparr>blooms := Some B, bloom_hash_lock := hl, bloom_dlist_lock := dl\<rparr>)))))))"

end
