(* ===== verification/BloomsTable.thy ===== *)
theory BloomsTable
  imports Blooms
begin

text \<open>
  The hash table of filters as a finite map from names to filters: the interface
  \<open>keyed_store\<close>, its interpretation on the chains of \<open>Blooms\<close>, and the invariant of the table
  (every filter in the bucket of its name, names distinct, memory accounting exact).
\<close>

section \<open>The interface of a keyed store\<close>

locale keyed_store =
  fixes lookup :: "'t \<Rightarrow> 'k \<Rightarrow> 'v option"
    and insert :: "'t \<Rightarrow> 'v \<Rightarrow> 't"
    and overwrite :: "'t \<Rightarrow> 'v \<Rightarrow> 't"
    and remove :: "'t \<Rightarrow> 'k \<Rightarrow> 't"
    and key_of :: "'v \<Rightarrow> 'k"
    and good :: "'v \<Rightarrow> bool"
    and inv :: "'t \<Rightarrow> bool"
  assumes lookup_good: "inv t \<Longrightarrow> lookup t k = Some v \<Longrightarrow> key_of v = k \<and> good v"
    and lookup_insert: "inv t \<Longrightarrow> lookup t (key_of v) = None \<Longrightarrow>
      lookup (insert t v) k = (if k = key_of v then Some v else lookup t k)"
    and lookup_overwrite: "inv t \<Longrightarrow> lookup t (key_of v) \<noteq> None \<Longrightarrow>
      lookup (overwrite t v) k = (if k = key_of v then Some v else lookup t k)"
    and lookup_remove: "inv t \<Longrightarrow> lookup (remove t k') k = (if k = k' then None else lookup t k)"
    and inv_insert: "inv t \<Longrightarrow> lookup t (key_of v) = None \<Longrightarrow> good v \<Longrightarrow> inv (insert t v)"
    and inv_overwrite: "inv t \<Longrightarrow> lookup t (key_of v) \<noteq> None \<Longrightarrow> good v \<Longrightarrow> inv (overwrite t v)"
    and inv_remove: "inv t \<Longrightarrow> inv (remove t k)"
begin

text \<open>A stored value moves only along a reflexive relation the overwrites respect.\<close>

lemma insert_keeps:
  "inv t \<Longrightarrow> lookup t (key_of v) = None \<Longrightarrow> lookup t k = Some w \<Longrightarrow> lookup (insert t v) k = Some w"
  by (auto simp: lookup_insert)

lemma overwrite_keeps:
  assumes "inv t" and "lookup t (key_of v) = Some v0" and "R v0 v" and "\<And>x. R x x"
    and "lookup t k = Some w"
  obtains w' where "lookup (overwrite t v) k = Some w'" "R w w'"
  using assms by (cases "k = key_of v") (auto simp: lookup_overwrite)

lemma remove_keeps:
  "inv t \<Longrightarrow> k \<noteq> k' \<Longrightarrow> lookup t k = Some w \<Longrightarrow> lookup (remove t k') k = Some w"
  by (simp add: lookup_remove)

end

section \<open>Chains\<close>

lemma chain_find_None: "chain_find c k = None \<longleftrightarrow> k \<notin> bl_key ` set c"
  by (induction c) auto

lemma chain_find_Some: "chain_find c k = Some b \<Longrightarrow> b \<in> set c \<and> bl_key b = k"
  by (induction c) (auto split: if_splits)

lemma chain_find_write:
  "chain_find c (bl_key b) \<noteq> None \<Longrightarrow>
    chain_find (chain_write c b) k = (if k = bl_key b then Some b else chain_find c k)"
  by (induction c) (auto split: if_splits)

lemma map_key_chain_write [simp]: "map bl_key (chain_write c b) = map bl_key c"
  by (induction c) auto

lemma set_chain_write: "set (chain_write c b) \<subseteq> Set.insert b (set c)"
  by (induction c) auto

lemma map_bytes_chain_write:
  "chain_find c (bl_key b) = Some b0 \<Longrightarrow> bl_bytes b = bl_bytes b0 \<Longrightarrow>
    map bl_bytes (chain_write c b) = map bl_bytes c"
  by (induction c) (auto split: if_splits)

lemma length_chain_write [simp]: "length (chain_write c b) = length c"
  by (induction c) auto

lemma filter_key_id: "k \<notin> bl_key ` set c \<Longrightarrow> filter (\<lambda>b. bl_key b \<noteq> k) c = c"
  by (auto simp: filter_id_conv)

lemma delete_walk_spec:
  "distinct (map bl_key (b # rest)) \<Longrightarrow> bl_key b \<noteq> k \<Longrightarrow>
    delete_walk b rest k =
      (case chain_find rest k of
         None \<Rightarrow> None
       | Some d \<Rightarrow> Some (d, b # filter (\<lambda>x. bl_key x \<noteq> k) rest))"
proof (induction b rest k rule: delete_walk.induct)
  case (2 b nxt rest key)
  show ?case
  proof (cases "bl_key nxt = key")
    case True
    with "2.prems" have "filter (\<lambda>x. bl_key x \<noteq> key) rest = rest"
      by (intro filter_key_id) auto
    with True show ?thesis by simp
  next
    case False
    then show ?thesis using "2.IH" [OF False] "2.prems" by (auto split: option.splits)
  qed
qed simp

lemma chain_delete_spec:
  "distinct (map bl_key c) \<Longrightarrow>
    chain_delete c k =
      (case chain_find c k of
         None \<Rightarrow> None
       | Some d \<Rightarrow> Some (d, filter (\<lambda>x. bl_key x \<noteq> k) c))"
proof (cases c)
  case (Cons b rest)
  assume d: "distinct (map bl_key c)"
  then have "bl_key b = k \<Longrightarrow> filter (\<lambda>x. bl_key x \<noteq> k) rest = rest"
    unfolding Cons by (intro filter_key_id) auto
  with d Cons show ?thesis
    by (auto simp: chain_delete_def delete_walk_spec split: option.splits)
qed (simp add: chain_delete_def)

lemma chain_find_filter: "chain_find (filter (\<lambda>x. bl_key x \<noteq> k') c) k = (if k = k' then None else chain_find c k)"
  by (induction c) auto

section \<open>The table\<close>

definition NBUCKETS :: nat where "NBUCKETS = 2 ^ 20"

lemma hashsize_20: "unat (hashsize HASH_POWER) = NBUCKETS"
  by (simp add: hashsize_def HASH_POWER_def NBUCKETS_def)

lemma bucket_less: "bs_power B = HASH_POWER \<Longrightarrow> bucket B key < NBUCKETS"
proof -
  assume "bs_power B = HASH_POWER"
  then have m: "hashmask (bs_power B) = 1048575"
    by (simp add: hashmask_def hashsize_def HASH_POWER_def)
  have "bucket B key \<le> unat (1048575 :: u32)"
    unfolding bucket_def m by (rule word_and_le1 [THEN word_le_nat_alt [THEN iffD1]])
  then show ?thesis by (simp add: NBUCKETS_def)
qed

lemma bucket_cong: "bs_power B' = bs_power B \<Longrightarrow> bucket B' key = bucket B key"
  by (simp add: bucket_def)

definition table_wf :: "'d blooms_t \<Rightarrow> bool" where
  "table_wf B \<longleftrightarrow> bs_power B = HASH_POWER \<and>
    (\<forall>hv. distinct (map bl_key (hashtable B hv)) \<and>
      (\<forall>b \<in> set (hashtable B hv). bucket B (bl_key b) = hv \<and> bloom_ok b))"

definition table_remove :: "'d blooms_t \<Rightarrow> bytes \<Rightarrow> 'd blooms_t" where
  "table_remove B key =
    (let hv = bucket B key
     in case chain_delete (hashtable B hv) key of
          None \<Rightarrow> B
        | Some (d, chain) \<Rightarrow> bloom_delete (B\<lparr>hashtable := (hashtable B)(hv := chain)\<rparr>) d)"

lemma bucket_update [simp]:
  "bucket (B\<lparr>hashtable := h\<rparr>) = bucket B" "bucket (B\<lparr>bs_bytes := x\<rparr>) = bucket B"
  "bucket (B\<lparr>bs_count := c\<rparr>) = bucket B" "bucket (B\<lparr>bs_set_count := x\<rparr>) = bucket B"
  "bucket (B\<lparr>bs_get_count := x\<rparr>) = bucket B" "bucket (B\<lparr>bs_get_miss_count := x\<rparr>) = bucket B"
  by (simp_all add: bucket_def fun_eq_iff)

lemma table_update [simp]:
  "table_find (B\<lparr>bs_bytes := x\<rparr>) = table_find B" "table_find (B\<lparr>bs_count := c\<rparr>) = table_find B"
  "table_find (B\<lparr>bs_set_count := x\<rparr>) = table_find B" "table_find (B\<lparr>bs_get_count := x\<rparr>) = table_find B"
  "table_find (B\<lparr>bs_get_miss_count := x\<rparr>) = table_find B"
  "table_wf (B\<lparr>bs_bytes := x\<rparr>) = table_wf B" "table_wf (B\<lparr>bs_count := c\<rparr>) = table_wf B"
  "table_wf (B\<lparr>bs_set_count := x\<rparr>) = table_wf B" "table_wf (B\<lparr>bs_get_count := x\<rparr>) = table_wf B"
  "table_wf (B\<lparr>bs_get_miss_count := x\<rparr>) = table_wf B"
  by (simp_all add: table_find_def table_wf_def fun_eq_iff)

lemma table_find_bucket: "table_wf B \<Longrightarrow> bl_key b \<in> bl_key ` set (hashtable B hv) \<Longrightarrow> hv = bucket B (bl_key b)"
  by (auto simp: table_wf_def)

lemma table_wf_write:
  assumes "table_wf B" and "bloom_ok b"
  shows "table_wf (table_write B b)"
  using assms set_chain_write [of "hashtable B (bucket B (bl_key b))" b]
  unfolding table_wf_def table_write_def Let_def by (auto simp: fun_upd_apply)

lemma table_wf_insert:
  assumes "table_wf B" and "bloom_ok b" and "table_find B (bl_key b) = None"
  shows "table_wf (table_insert B b)"
  using assms unfolding table_wf_def table_insert_def Let_def table_find_def chain_find_None by auto

lemma table_remove_eq:
  "table_wf B \<Longrightarrow> table_remove B k =
    (case table_find B k of
       None \<Rightarrow> B
     | Some d \<Rightarrow> bloom_delete (B\<lparr>hashtable := (hashtable B)(bucket B k :=
          filter (\<lambda>x. bl_key x \<noteq> k) (hashtable B (bucket B k)))\<rparr>) d)"
  by (auto simp: table_remove_def table_find_def table_wf_def chain_delete_spec Let_def split: option.splits)

lemma table_wf_remove: "table_wf B \<Longrightarrow> table_wf (table_remove B k)"
  unfolding table_remove_eq by (auto simp: bloom_delete_def table_wf_def distinct_map_filter split: option.splits)

interpretation tbl: keyed_store table_find table_insert table_write table_remove bl_key bloom_ok table_wf
proof (unfold_locales, goal_cases)
  case (1 B k b)
  then show ?case
    by (auto simp: table_find_def table_wf_def dest!: chain_find_Some)
next
  case (2 B b k)
  then show ?case by (auto simp: table_find_def table_insert_def Let_def)
next
  case (3 B b k)
  then show ?case by (auto simp: table_find_def table_write_def Let_def chain_find_write)
next
  case (4 B k' k)
  then show ?case
    by (auto simp: table_remove_eq table_find_def bloom_delete_def chain_find_filter split: option.splits)
qed (simp_all add: table_wf_insert table_wf_write table_wf_remove)

section \<open>Memory accounting\<close>

definition chain_bytes :: "'d bloom_t list \<Rightarrow> nat" where
  "chain_bytes c = sum_list (map (\<lambda>b. unat (bl_bytes b)) c)"

text \<open>
  \<open>blooms->bytes\<close> is the exact sum of the sizes of the filters in the table, within the budget,
  and \<open>blooms->count\<close> their number.
\<close>

definition table_acct :: "'d blooms_t \<Rightarrow> bool" where
  "table_acct B \<longleftrightarrow>
    unat (bs_bytes B) = (\<Sum>hv<NBUCKETS. chain_bytes (hashtable B hv)) \<and>
    bs_bytes B \<le> max_bytes B \<and>
    bs_count B = of_nat (\<Sum>hv<NBUCKETS. length (hashtable B hv))"

definition table_ok :: "'d blooms_t \<Rightarrow> bool" where
  "table_ok B \<longleftrightarrow> table_wf B \<and> table_acct B"

lemma sum_bucket_upd:
  fixes f :: "'a \<Rightarrow> nat"
  assumes "h < NBUCKETS"
  shows "(\<Sum>hv<NBUCKETS. f ((t(h := c)) hv)) + f (t h) = (\<Sum>hv<NBUCKETS. f (t hv)) + f c"
proof -
  have s: "(\<Sum>hv<NBUCKETS. f (u hv)) = f (u h) + (\<Sum>hv\<in>{..<NBUCKETS} - {h}. f (u hv))" for u
    using assms by (intro sum.remove) auto
  have "(\<Sum>hv\<in>{..<NBUCKETS} - {h}. f ((t(h := c)) hv)) = (\<Sum>hv\<in>{..<NBUCKETS} - {h}. f (t hv))"
    by (rule sum.cong) auto
  then show ?thesis using s [of "t(h := c)"] s [of t] by simp
qed

lemma table_acct_update [simp]:
  "table_acct (B\<lparr>bs_set_count := x\<rparr>) = table_acct B"
  "table_acct (B\<lparr>bs_get_count := x\<rparr>) = table_acct B"
  "table_acct (B\<lparr>bs_get_miss_count := x\<rparr>) = table_acct B"
  by (simp_all add: table_acct_def)

lemma table_acct_write:
  assumes wf: "table_wf B" and acct: "table_acct B"
    and b: "table_find B (bl_key b) = Some b0" "bl_bytes b = bl_bytes b0"
  shows "table_acct (table_write B b)"
proof -
  let ?h = "bucket B (bl_key b)"
  have bytes: "map bl_bytes (chain_write (hashtable B ?h) b) = map bl_bytes (hashtable B ?h)"
    using b by (intro map_bytes_chain_write) (auto simp: table_find_def)
  have "map (\<lambda>x. unat (bl_bytes x)) (chain_write (hashtable B ?h) b) = map (\<lambda>x. unat (bl_bytes x)) (hashtable B ?h)"
    using arg_cong [OF bytes, of "map unat"] by (simp add: comp_def)
  then have "chain_bytes (((hashtable B)(?h := chain_write (hashtable B ?h) b)) hv) = chain_bytes (hashtable B hv)" for hv
    by (simp add: chain_bytes_def)
  moreover have "length (((hashtable B)(?h := chain_write (hashtable B ?h) b)) hv) = length (hashtable B hv)" for hv
    by simp
  ultimately show ?thesis using acct by (simp add: table_acct_def table_write_def Let_def del: fun_upd_apply)
qed

lemma table_acct_insert:
  assumes wf: "table_wf B" and acct: "table_acct B" and room: "bl_bytes b \<le> max_bytes B - bs_bytes B"
  shows "table_acct ((table_insert B b)\<lparr>bs_count := bs_count B + 1, bs_bytes := bs_bytes B + bl_bytes b\<rparr>)"
proof -
  let ?h = "bucket B (bl_key b)"
  have h: "?h < NBUCKETS" using wf by (simp add: table_wf_def bucket_less)
  have le: "unat (bs_bytes B) \<le> unat (max_bytes B)"
    using acct by (simp add: table_acct_def word_le_nat_alt)
  have "unat (bl_bytes b) \<le> unat (max_bytes B) - unat (bs_bytes B)"
    using room le by (simp add: word_le_nat_alt unat_sub)
  with le have sum: "unat (bs_bytes B) + unat (bl_bytes b) \<le> unat (max_bytes B)" by simp
  then have add: "unat (bs_bytes B + bl_bytes b) = unat (bs_bytes B) + unat (bl_bytes b)"
    using unat_u64_less [of "max_bytes B"] by (intro unat_add_lem [THEN iffD1]) simp
  have "(\<Sum>hv<NBUCKETS. chain_bytes (((hashtable B)(?h := b # hashtable B ?h)) hv)) =
      (\<Sum>hv<NBUCKETS. chain_bytes (hashtable B hv)) + unat (bl_bytes b)"
    using sum_bucket_upd [OF h, of chain_bytes "hashtable B" "b # hashtable B ?h"]
    by (simp add: chain_bytes_def del: fun_upd_apply)
  moreover have "(\<Sum>hv<NBUCKETS. length (((hashtable B)(?h := b # hashtable B ?h)) hv)) =
      (\<Sum>hv<NBUCKETS. length (hashtable B hv)) + 1"
    using sum_bucket_upd [OF h, of length "hashtable B" "b # hashtable B ?h"] by (simp del: fun_upd_apply)
  ultimately show ?thesis
    using acct add sum by (simp add: table_acct_def table_insert_def Let_def word_le_nat_alt del: fun_upd_apply)
qed

lemma chain_bytes_filter:
  "distinct (map bl_key c) \<Longrightarrow> chain_find c k = Some d \<Longrightarrow>
    chain_bytes c = unat (bl_bytes d) + chain_bytes (filter (\<lambda>x. bl_key x \<noteq> k) c) \<and>
    length c = Suc (length (filter (\<lambda>x. bl_key x \<noteq> k) c))"
proof (induction c)
  case (Cons b c)
  show ?case
  proof (cases "bl_key b = k")
    case True
    then have "filter (\<lambda>x. bl_key x \<noteq> k) c = c" using Cons.prems by (intro filter_key_id) auto
    with True Cons.prems show ?thesis by (simp add: chain_bytes_def)
  next
    case False
    with Cons show ?thesis by (simp add: chain_bytes_def)
  qed
qed simp

lemma table_acct_remove:
  assumes wf: "table_wf B" and acct: "table_acct B"
  shows "table_acct (table_remove B k)"
proof (cases "table_find B k")
  case None
  with assms show ?thesis by (simp add: table_remove_eq)
next
  case (Some d)
  let ?h = "bucket B k" and ?c = "filter (\<lambda>x. bl_key x \<noteq> k) (hashtable B (bucket B k))"
  have h: "?h < NBUCKETS" using wf by (simp add: table_wf_def bucket_less)
  have c: "chain_bytes (hashtable B ?h) = unat (bl_bytes d) + chain_bytes ?c"
      "length (hashtable B ?h) = Suc (length ?c)"
    using chain_bytes_filter [of "hashtable B ?h" k d] wf Some by (auto simp: table_wf_def table_find_def)
  have bytes: "unat (bs_bytes B) = (\<Sum>hv<NBUCKETS. chain_bytes (((hashtable B)(?h := ?c)) hv)) + unat (bl_bytes d)"
    using sum_bucket_upd [OF h, of chain_bytes "hashtable B" ?c] c acct
    by (simp add: table_acct_def del: fun_upd_apply)
  then have sub: "unat (bs_bytes B - bl_bytes d) = (\<Sum>hv<NBUCKETS. chain_bytes (((hashtable B)(?h := ?c)) hv))"
    by (simp add: unat_sub word_le_nat_alt del: fun_upd_apply)
  have "bs_bytes B - bl_bytes d \<le> max_bytes B"
    using acct bytes sub by (simp add: table_acct_def word_le_nat_alt del: fun_upd_apply)
  moreover have "(\<Sum>hv<NBUCKETS. length (hashtable B hv)) =
      Suc (\<Sum>hv<NBUCKETS. length (((hashtable B)(?h := ?c)) hv))"
    using sum_bucket_upd [OF h, of length "hashtable B" ?c] c by (simp del: fun_upd_apply)
  ultimately show ?thesis
    using acct sub Some wf
    by (simp add: table_remove_eq table_acct_def bloom_delete_def del: fun_upd_apply)
qed

lemma table_acct_budget: "table_acct B \<Longrightarrow> bs_bytes B \<le> max_bytes B"
  by (simp add: table_acct_def)

end
