(* ===== verification/BloomsOps.thy ===== *)
theory BloomsOps
  imports BloomsTable
begin

text \<open>
  The entry points of \<open>bloom_filter.cpp\<close> as the handlers call them: what each returns and leaves
  behind on a consistent library, runs of several calls, and the abstract specification (a map
  from filter names to bit sets) they implement.
\<close>

section \<open>A consistent library\<close>

definition lib_ok :: "'d bloomlib \<Rightarrow> bool" where
  "lib_ok s \<longleftrightarrow> bloom_hash_lock s = Unlocked \<and> bloom_dlist_lock s = Unlocked \<and>
    (case blooms s of None \<Rightarrow> False | Some B \<Rightarrow> table_ok B)"

definition filter_at :: "'d bloomlib \<Rightarrow> bytes \<Rightarrow> 'd bloom_t option" where
  "filter_at s key = (case blooms s of None \<Rightarrow> None | Some B \<Rightarrow> table_find B key)"

lemma lib_okE:
  assumes "lib_ok s"
  obtains B where "blooms s = Some B" "table_wf B" "table_acct B"
    "bloom_hash_lock s = Unlocked" "bloom_dlist_lock s = Unlocked"
  using assms by (auto simp: lib_ok_def table_ok_def split: option.splits)

lemma lib_ok_intro:
  "table_wf B \<Longrightarrow> table_acct B \<Longrightarrow> bloom_hash_lock s = Unlocked \<Longrightarrow> bloom_dlist_lock s = Unlocked \<Longrightarrow>
    blooms s = Some B \<Longrightarrow> lib_ok s"
  by (simp add: lib_ok_def table_ok_def)

lemma filter_at_Some: "blooms s = Some B \<Longrightarrow> filter_at s key = table_find B key"
  by (simp add: filter_at_def)

lemma filter_at_good: "lib_ok s \<Longrightarrow> filter_at s key = Some b \<Longrightarrow> bl_key b = key \<and> bloom_ok b"
  by (erule lib_okE) (simp add: filter_at_def tbl.lookup_good)

section \<open>What each call does\<close>

lemma lib_same: "bloom_hash_lock s = Unlocked \<Longrightarrow> s\<lparr>bloom_hash_lock := Unlocked\<rparr> = s"
  by simp

lemma blooms_init_lib_ok: "blooms_init True mx s = (0, s') \<Longrightarrow> lib_ok s' \<and> filter_at s' = (\<lambda>_. None)"
  by (auto simp: blooms_init_def lib_ok_def table_ok_def table_wf_def table_acct_def chain_bytes_def
      filter_at_def table_find_def fun_eq_iff)

lemma blooms_search_eq: "lib_ok s \<Longrightarrow> blooms_search s key = Inr (filter_at s key)"
  by (auto elim!: lib_okE simp: blooms_search_def with_blooms_def filter_at_def)

lemma bloom_status_eq:
  "lib_ok s \<Longrightarrow> bloom_status s key = Inr (case filter_at s key of
     None \<Rightarrow> (-1, None, s)
   | Some b \<Rightarrow> (0, Some (key, bl_n b, bl_e b, bl_e2 b, bl_k b, bl_m b, bl_bytes b,
                        bl_set_count b, bl_get_count b, bl_get_miss_count b), s))"
  using filter_at_good [of s key]
  by (auto elim!: lib_okE simp: bloom_status_def with_blooms_def filter_at_def split: option.splits)

text \<open>The library after a filter was replaced, and after one was added.\<close>

definition put_filter :: "'d bloomlib \<Rightarrow> 'd bloom_t \<Rightarrow> 'd bloomlib" where
  "put_filter s b = s\<lparr>blooms := map_option (\<lambda>B. table_write B b) (blooms s)\<rparr>"

definition add_filter :: "'d bloomlib \<Rightarrow> 'd bloom_t \<Rightarrow> 'd bloomlib" where
  "add_filter s b = s\<lparr>blooms := map_option (\<lambda>B.
     (table_insert B b)\<lparr>bs_count := bs_count B + 1, bs_bytes := bs_bytes B + bl_bytes b\<rparr>) (blooms s)\<rparr>"

lemma add_filter_ok:
  assumes "lib_ok s" and "filter_at s (bl_key b) = None" and "bloom_ok b"
    and "blooms s = Some B" and "bl_bytes b \<le> max_bytes B - bs_bytes B"
  shows "lib_ok (add_filter s b)"
    and "filter_at (add_filter s b) = (filter_at s)(bl_key b \<mapsto> b)"
proof -
  from assms have ok: "table_wf B" "table_acct B" "table_find B (bl_key b) = None"
      "bloom_hash_lock s = Unlocked" "bloom_dlist_lock s = Unlocked"
    by (auto elim!: lib_okE simp: filter_at_def)
  show "lib_ok (add_filter s b)"
    using assms ok table_acct_insert [OF ok(1,2) assms(5)] tbl.inv_insert [OF ok(1,3) assms(3)]
    by (intro lib_ok_intro) (auto simp: add_filter_def)
  show "filter_at (add_filter s b) = (filter_at s)(bl_key b \<mapsto> b)"
    using assms ok tbl.lookup_insert [OF ok(1,3)] by (auto simp: add_filter_def filter_at_def fun_eq_iff)
qed

lemma blooms_add_eq:
  assumes "lib_ok s" and "blooms s = Some B"
  shows "blooms_add fp mem s key n e =
    (if filter_at s key \<noteq> None then Inr (1, s)
     else bind_r (bloom_init fp mem (max_bytes B - bs_bytes B) key n e) (\<lambda>bo.
       Inr (case bo of None \<Rightarrow> (2, s) | Some b \<Rightarrow> (0, add_filter s b))))"
  using assms
  by (auto elim!: lib_okE simp: blooms_add_def with_blooms_def filter_at_def bind_r_def add_filter_def
      table_insert_def Let_def split: option.splits sum.splits)

text \<open>A write through a pointer keeps the table, the accounting and every other filter.\<close>

definition same_size :: "'d bloom_t \<Rightarrow> 'd bloom_t \<Rightarrow> bool" where
  "same_size b b' \<longleftrightarrow> bl_key b' = bl_key b \<and> bl_bytes b' = bl_bytes b"

lemma write_ok:
  assumes "table_wf B" and "table_acct B" and "table_find B key = Some b0"
    and "same_size b0 b" and "bloom_ok b"
  shows "table_wf (table_write B b)" and "table_acct (table_write B b)"
    and "table_find (table_write B b) = (table_find B)(key \<mapsto> b)"
proof -
  have k: "bl_key b = key"
    using assms tbl.lookup_good by (auto simp: same_size_def)
  with assms show "table_wf (table_write B b)"
    by (intro tbl.inv_overwrite) auto
  show "table_acct (table_write B b)"
    using assms k by (intro table_acct_write [where b = b]) (auto simp: same_size_def)
  show "table_find (table_write B b) = (table_find B)(key \<mapsto> b)"
    using assms k tbl.lookup_overwrite [of B b] by (auto simp: fun_eq_iff)
qed

lemma same_size_bloom_set: "bloom_ok b \<Longrightarrow> bloom_set b k = Inr b' \<Longrightarrow> same_size b b'"
  by (auto simp: bloom_set_eq same_size_def)

lemma same_size_bloom_get: "bloom_ok b \<Longrightarrow> bloom_get b k = Inr (r, b') \<Longrightarrow> same_size b b'"
  by (auto simp: bloom_get_eq same_size_def split: if_splits)

lemma blooms_set_missing:
  "lib_ok s \<Longrightarrow> filter_at s key = None \<Longrightarrow> blooms_set s key sub = Inr (1, s)"
  by (auto elim!: lib_okE simp: blooms_set_def with_blooms_def filter_at_def)

lemma blooms_set_present:
  assumes "lib_ok s" and "filter_at s key = Some b"
  obtains s' b' where "blooms_set s key sub = Inr (0, s')" "bloom_set b sub = Inr b'" "lib_ok s'"
    "filter_at s' = (filter_at s)(key \<mapsto> b')"
proof -
  from assms obtain B where B: "blooms s = Some B" "table_wf B" "table_acct B" "table_find B key = Some b"
      "bloom_hash_lock s = Unlocked" "bloom_dlist_lock s = Unlocked"
    by (auto elim!: lib_okE simp: filter_at_def)
  have ok: "bloom_ok b" using assms filter_at_good by blast
  then obtain b' where b': "bloom_set b sub = Inr b'" by (simp add: bloom_set_eq)
  let ?B = "(table_write B b')\<lparr>bs_set_count := bs_set_count (table_write B b') + 1\<rparr>"
  note w = write_ok [OF B(2,3,4) same_size_bloom_set [OF ok b'] bloom_set_bits(3) [OF ok b']]
  show thesis
  proof (rule that)
    show "blooms_set s key sub = Inr (0, s\<lparr>blooms := Some ?B\<rparr>)"
      using B b' by (simp add: blooms_set_def with_blooms_def Let_def)
    show "lib_ok (s\<lparr>blooms := Some ?B\<rparr>)" using B w by (intro lib_ok_intro [where B = ?B]) auto
    show "filter_at (s\<lparr>blooms := Some ?B\<rparr>) = (filter_at s)(key \<mapsto> b')"
      using B w by (auto simp: filter_at_def fun_eq_iff)
  qed (rule b')
qed

lemma blooms_get_missing:
  "lib_ok s \<Longrightarrow> filter_at s key = None \<Longrightarrow> blooms_get s key sub = Inr (-1, s)"
  by (auto elim!: lib_okE simp: blooms_get_def with_blooms_def filter_at_def)

lemma blooms_get_present:
  assumes "lib_ok s" and "filter_at s key = Some b"
  obtains r s' b' where "blooms_get s key sub = Inr (r, s')" "bloom_get b sub = Inr (r, b')" "lib_ok s'"
    "filter_at s' = (filter_at s)(key \<mapsto> b')"
proof -
  from assms obtain B where B: "blooms s = Some B" "table_wf B" "table_acct B" "table_find B key = Some b"
      "bloom_hash_lock s = Unlocked" "bloom_dlist_lock s = Unlocked"
    by (auto elim!: lib_okE simp: filter_at_def)
  have ok: "bloom_ok b" using assms filter_at_good by blast
  then obtain r b' where b': "bloom_get b sub = Inr (r, b')" by (metis bloom_get_eq surj_pair)
  let ?B = "if r = 1 then (table_write B b')\<lparr>bs_get_count := bs_get_count (table_write B b') + 1\<rparr>
            else (table_write B b')\<lparr>bs_get_miss_count := bs_get_miss_count (table_write B b') + 1\<rparr>"
  note w = write_ok [OF B(2,3,4) same_size_bloom_get [OF ok b'] bloom_get_bits(3) [OF ok b']]
  show thesis
  proof (rule that)
    show "blooms_get s key sub = Inr (r, s\<lparr>blooms := Some ?B\<rparr>)"
      using B b' by (simp add: blooms_get_def with_blooms_def Let_def)
    show "lib_ok (s\<lparr>blooms := Some ?B\<rparr>)" using B w by (intro lib_ok_intro [where B = ?B]) auto
    show "filter_at (s\<lparr>blooms := Some ?B\<rparr>) = (filter_at s)(key \<mapsto> b')"
      using B w by (auto simp: filter_at_def fun_eq_iff)
  qed (rule b')
qed

lemma chain_delete_find: "table_wf B \<Longrightarrow> table_find B key = None \<longleftrightarrow> chain_delete (hashtable B (bucket B key)) key = None"
  by (auto simp: table_find_def table_wf_def chain_delete_spec split: option.splits)

lemma blooms_delete_eq:
  assumes "lib_ok s" and "blooms s = Some B"
  shows "blooms_delete s key = Inr
    (if filter_at s key = None then (1, s) else (0, s\<lparr>blooms := Some (table_remove B key)\<rparr>))"
  using assms chain_delete_find [of B key]
  by (auto elim!: lib_okE simp: blooms_delete_def with_blooms_def filter_at_def table_remove_def Let_def
      split: option.splits)

lemma blooms_delete_ok:
  assumes "lib_ok s"
  obtains s' where "blooms_delete s key = Inr (if filter_at s key = None then 1 else 0, s')" "lib_ok s'"
    "filter_at s' = (filter_at s)(key := None)"
proof -
  from assms obtain B where B: "blooms s = Some B" "table_wf B" "table_acct B"
      "bloom_hash_lock s = Unlocked" "bloom_dlist_lock s = Unlocked"
    by (auto elim!: lib_okE)
  show thesis
  proof (cases "filter_at s key = None")
    case True
    then show ?thesis
      using that [of s] blooms_delete_eq [OF assms B(1), of key] assms by (auto simp: fun_eq_iff)
  next
    case False
    let ?s = "s\<lparr>blooms := Some (table_remove B key)\<rparr>"
    have "lib_ok ?s"
      using B table_acct_remove tbl.inv_remove by (intro lib_ok_intro [where B = "table_remove B key"]) auto
    moreover have "filter_at ?s = (filter_at s)(key := None)"
      using B tbl.lookup_remove [OF B(2)] by (auto simp: filter_at_def fun_eq_iff)
    ultimately show ?thesis
      using that [of ?s] blooms_delete_eq [OF assms B(1), of key] False by simp
  qed
qed

end
