(* ===== verification/BloomsSpec.thy ===== *)
theory BloomsSpec
  imports BloomsOps
begin

text \<open>
  The contract of the filter library: a map from names to bit sets with sizes, one abstract step
  per entry point, and the simulation of these steps by the code's operations over any sequence
  of calls. The guarantees a client relies on (no false negatives, exact answers, isolation of
  the filters, memory budget) follow from it.
\<close>

section \<open>Calls and runs\<close>

datatype 'd op =
    OpAdd bool bytes u64 'd
  | OpSet bytes bytes
  | OpGet bytes bytes
  | OpDelete bytes
  | OpStatus bytes

definition run_op :: "'d libm \<Rightarrow> 'd op \<Rightarrow> 'd bloomlib \<Rightarrow> (int \<times> 'd bloomlib) result" where
  "run_op fp c s = (case c of
     OpAdd mem key n e \<Rightarrow> blooms_add fp mem s key n e
   | OpSet key sub \<Rightarrow> blooms_set s key sub
   | OpGet key sub \<Rightarrow> blooms_get s key sub
   | OpDelete key \<Rightarrow> blooms_delete s key
   | OpStatus key \<Rightarrow> bind_r (bloom_status s key) (\<lambda>(r, out, s). Inr (r, s)))"

fun run_ops :: "'d libm \<Rightarrow> 'd op list \<Rightarrow> 'd bloomlib \<Rightarrow> (int list \<times> 'd bloomlib) result" where
  "run_ops fp [] s = Inr ([], s)"
| "run_ops fp (c # cs) s =
    bind_r (run_op fp c s) (\<lambda>(r, s). bind_r (run_ops fp cs s) (\<lambda>(rs, s). Inr (r # rs, s)))"

text \<open>What the callers have to respect: a name that fits \<open>key[MAX_KEY_LEN]\<close>, and a size.\<close>

definition op_pre :: "'d op \<Rightarrow> bool" where
  "op_pre c = (case c of
     OpAdd mem key n e \<Rightarrow> length key < MAX_KEY_LEN \<and> 0 < n \<and> n \<le> 2 ^ 57
   | _ \<Rightarrow> True)"

section \<open>The abstract library\<close>

text \<open>A filter is its bits, its size in bits and its number of hash functions.\<close>

type_synonym absfilter = "u64 set \<times> u64 \<times> int"
type_synonym abslib = "bytes \<Rightarrow> absfilter option"

definition absf :: "'d bloom_t \<Rightarrow> absfilter" where
  "absf b = (bits b, bl_m b, bl_k b)"

definition abs_lib :: "'d bloomlib \<Rightarrow> abslib" where
  "abs_lib s = (\<lambda>key. map_option absf (filter_at s key))"

definition positions :: "u64 \<Rightarrow> int \<Rightarrow> bytes \<Rightarrow> u64 set" where
  "positions m k sub = (let (h1, h2) = bloom_hash sub in set (probes m h1 h2 0 k))"

definition spec_step :: "'d op \<Rightarrow> abslib \<Rightarrow> int \<Rightarrow> abslib \<Rightarrow> bool" where
  "spec_step c A r A' = (case c of
     OpAdd mem key n e \<Rightarrow>
       (if A key \<noteq> None then r = 1 \<and> A' = A
        else r = 2 \<and> A' = A \<or> r = 0 \<and> (\<exists>m k. A' = A(key \<mapsto> ({}, m, k))))
   | OpSet key sub \<Rightarrow>
       (case A key of None \<Rightarrow> r = 1 \<and> A' = A
        | Some (S, m, k) \<Rightarrow> r = 0 \<and> A' = A(key \<mapsto> (S \<union> positions m k sub, m, k)))
   | OpGet key sub \<Rightarrow>
       A' = A \<and> r = (case A key of None \<Rightarrow> -1 | Some (S, m, k) \<Rightarrow> if positions m k sub \<subseteq> S then 1 else 0)
   | OpDelete key \<Rightarrow> A' = A(key := None) \<and> r = (if A key = None then 1 else 0)
   | OpStatus key \<Rightarrow> A' = A \<and> r = (if A key = None then -1 else 0))"

fun spec_steps :: "'d op list \<Rightarrow> abslib \<Rightarrow> int list \<Rightarrow> abslib \<Rightarrow> bool" where
  "spec_steps [] A rs A' \<longleftrightarrow> rs = [] \<and> A' = A"
| "spec_steps (c # cs) A rs A' \<longleftrightarrow>
    (case rs of [] \<Rightarrow> False | r # rs \<Rightarrow> \<exists>A1. spec_step c A r A1 \<and> spec_steps cs A1 rs A')"

lemma positions_eq: "set (bloom_probes b sub) = positions (bl_m b) (bl_k b) sub"
  by (simp add: bloom_probes_def positions_def split: prod.splits)

lemma abs_lib_upd: "filter_at s' = (filter_at s)(key \<mapsto> b) \<Longrightarrow> abs_lib s' = (abs_lib s)(key \<mapsto> absf b)"
  by (auto simp: abs_lib_def fun_eq_iff)

lemma abs_lib_None: "abs_lib s key = None \<longleftrightarrow> filter_at s key = None"
  by (simp add: abs_lib_def)

section \<open>Simulation\<close>

text \<open>A short name never makes the creation of a filter fault.\<close>

lemma bloom_init_cases:
  assumes "length key < MAX_KEY_LEN"
  obtains "bloom_init fp mem room key n e = Inr None" | b where "bloom_init fp mem room key n e = Inr (Some b)"
proof -
  have "is_ok (bloom_init fp mem room key n e)"
    using assms by (auto simp: bloom_init_def split: prod.splits)
  then obtain bo where "bloom_init fp mem room key n e = Inr bo" by (auto simp: is_ok_iff)
  then show thesis using that by (cases bo) auto
qed

lemma sim_add:
  assumes ok: "lib_ok s" and pre: "op_pre (OpAdd mem key n e)"
  shows "\<exists>r s'. blooms_add fp mem s key n e = Inr (r, s') \<and> lib_ok s' \<and>
    spec_step (OpAdd mem key n e) (abs_lib s) r (abs_lib s')"
proof (cases "filter_at s key")
  case (Some b)
  from ok obtain B where "blooms s = Some B" by (rule lib_okE)
  with ok Some show ?thesis
    by (auto simp: blooms_add_eq spec_step_def abs_lib_def)
next
  case None
  from ok obtain B where B: "blooms s = Some B" by (rule lib_okE)
  let ?i = "bloom_init fp mem (max_bytes B - bs_bytes B) key n e"
  have key: "length key < MAX_KEY_LEN" and n: "0 < n" "unat n \<le> 2 ^ 57"
    using pre by (auto simp: op_pre_def word_le_nat_alt)
  from key consider "?i = Inr None" | b where "?i = Inr (Some b)"
    by (rule bloom_init_cases)
  then show ?thesis
  proof cases
    case 1
    with None ok B show ?thesis by (auto simp: blooms_add_eq spec_step_def abs_lib_def)
  next
    case (2 b)
    have b: "bl_key b = key" "bl_bytes b \<le> max_bytes B - bs_bytes B" "bits b = {}"
      by (rule bloom_init_spec [OF 2 n(2)], assumption)+
    have fresh: "filter_at s (bl_key b) = None" using None b by simp
    note a = add_filter_ok [OF ok fresh bloom_init_ok [OF 2 n] B b(2)]
    have "abs_lib (add_filter s b) = (abs_lib s)(key \<mapsto> ({}, bl_m b, bl_k b))"
      using abs_lib_upd [OF a(2)] b by (simp add: absf_def)
    with None ok B 2 a(1) show ?thesis
      by (auto simp: blooms_add_eq spec_step_def abs_lib_None)
  qed
qed

lemma sim_set:
  assumes ok: "lib_ok s"
  shows "\<exists>r s'. blooms_set s key sub = Inr (r, s') \<and> lib_ok s' \<and>
    spec_step (OpSet key sub) (abs_lib s) r (abs_lib s')"
proof (cases "filter_at s key")
  case None
  with ok show ?thesis by (simp add: blooms_set_missing spec_step_def abs_lib_def)
next
  case (Some b)
  from ok Some obtain s' b' where s': "blooms_set s key sub = Inr (0, s')" "bloom_set b sub = Inr b'" "lib_ok s'"
    "filter_at s' = (filter_at s)(key \<mapsto> b')" by (rule blooms_set_present)
  have b: "bloom_ok b" using ok Some filter_at_good by blast
  have "bl_m b' = bl_m b" "bl_k b' = bl_k b" using s'(2) b by (auto simp: bloom_set_eq)
  then have "absf b' = (bits b \<union> positions (bl_m b) (bl_k b) sub, bl_m b, bl_k b)"
    using bloom_set_bits(1) [OF b s'(2)] by (auto simp: absf_def positions_eq)
  with s' Some show ?thesis by (auto simp: spec_step_def abs_lib_def absf_def)
qed

lemma sim_get:
  assumes ok: "lib_ok s"
  shows "\<exists>r s'. blooms_get s key sub = Inr (r, s') \<and> lib_ok s' \<and>
    spec_step (OpGet key sub) (abs_lib s) r (abs_lib s')"
proof (cases "filter_at s key")
  case None
  with ok show ?thesis by (simp add: blooms_get_missing spec_step_def abs_lib_def)
next
  case (Some b)
  from ok Some obtain r s' b' where s': "blooms_get s key sub = Inr (r, s')" "bloom_get b sub = Inr (r, b')" "lib_ok s'"
    "filter_at s' = (filter_at s)(key \<mapsto> b')" by (rule blooms_get_present)
  have b: "bloom_ok b" using ok Some filter_at_good by blast
  have "bl_m b' = bl_m b" "bl_k b' = bl_k b" using s'(2) b by (auto simp: bloom_get_eq split: if_splits)
  then have "absf b' = absf b" using bloom_get_bits(1) [OF b s'(2)] by (simp add: absf_def)
  then have "abs_lib s' = abs_lib s" using s'(4) Some by (auto simp: abs_lib_def fun_eq_iff)
  with s' Some b show ?thesis
    using bloom_get_bits(4) [OF b s'(2)]
    by (auto simp: spec_step_def abs_lib_def absf_def bloom_member_bits positions_eq)
qed

lemma sim_delete:
  assumes ok: "lib_ok s"
  shows "\<exists>r s'. blooms_delete s key = Inr (r, s') \<and> lib_ok s' \<and>
    spec_step (OpDelete key) (abs_lib s) r (abs_lib s')"
proof -
  from ok obtain s' where "blooms_delete s key = Inr (if filter_at s key = None then 1 else 0, s')" "lib_ok s'"
    "filter_at s' = (filter_at s)(key := None)" by (rule blooms_delete_ok)
  then show ?thesis by (auto simp: spec_step_def abs_lib_def fun_eq_iff)
qed

lemma sim_op:
  assumes "lib_ok s" and "op_pre c"
  shows "\<exists>r s'. run_op fp c s = Inr (r, s') \<and> lib_ok s' \<and> spec_step c (abs_lib s) r (abs_lib s')"
proof (cases c)
  case OpAdd
  then show ?thesis using sim_add assms by (simp add: run_op_def)
next
  case (OpStatus key)
  then show ?thesis
    using assms by (auto simp: run_op_def bloom_status_eq spec_step_def abs_lib_def split: option.splits)
qed (use assms sim_set sim_get sim_delete in \<open>simp_all add: run_op_def\<close>)

lemma sim_ops:
  "lib_ok s \<Longrightarrow> list_all op_pre cs \<Longrightarrow>
    \<exists>rs s'. run_ops fp cs s = Inr (rs, s') \<and> lib_ok s' \<and> spec_steps cs (abs_lib s) rs (abs_lib s')"
proof (induction cs arbitrary: s)
  case (Cons c cs)
  from Cons.prems sim_op [of s c fp] obtain r s1 where
    1: "run_op fp c s = Inr (r, s1)" "lib_ok s1" "spec_step c (abs_lib s) r (abs_lib s1)" by auto
  from Cons.IH [OF 1(2)] Cons.prems obtain rs s' where
    2: "run_ops fp cs s1 = Inr (rs, s')" "lib_ok s'" "spec_steps cs (abs_lib s1) rs (abs_lib s')" by auto
  from 1 2 show ?case by auto
qed simp

lemma sim_ops_run:
  assumes "lib_ok s" and "list_all op_pre cs" and "run_ops fp cs s = Inr (rs, s')"
  shows "lib_ok s' \<and> spec_steps cs (abs_lib s) rs (abs_lib s')"
  using sim_ops [OF assms(1,2), of fp] assms(3) by auto

section \<open>Consequences on the abstract side\<close>

definition knows :: "abslib \<Rightarrow> bytes \<Rightarrow> bytes \<Rightarrow> bool" where
  "knows A key sub \<longleftrightarrow> (case A key of None \<Rightarrow> False | Some (S, m, k) \<Rightarrow> positions m k sub \<subseteq> S)"

lemma knows_step: "spec_step c A r A' \<Longrightarrow> c \<noteq> OpDelete key \<Longrightarrow> knows A key sub \<Longrightarrow> knows A' key sub"
  by (auto simp: spec_step_def knows_def split: op.splits option.splits if_splits)

lemma knows_steps:
  "spec_steps cs A rs A' \<Longrightarrow> OpDelete key \<notin> set cs \<Longrightarrow> knows A key sub \<Longrightarrow> knows A' key sub"
proof (induction cs arbitrary: A rs)
  case (Cons c cs)
  then obtain r rs' A1 where "spec_step c A r A1" "spec_steps cs A1 rs' A'" by (cases rs) auto
  moreover from this Cons.prems have "knows A1 key sub" by (intro knows_step [of c A r A1 key]) auto
  ultimately show ?case using Cons.IH [of A1 rs'] Cons.prems by simp
qed simp

lemma knows_set: "spec_step (OpSet key sub) A 0 A' \<Longrightarrow> knows A' key sub"
  by (auto simp: spec_step_def knows_def split: option.splits)

text \<open>Which filter a call can change.\<close>

definition op_key :: "'d op \<Rightarrow> bytes" where
  "op_key c = (case c of OpAdd mem key n e \<Rightarrow> key | OpSet key sub \<Rightarrow> key | OpGet key sub \<Rightarrow> key
     | OpDelete key \<Rightarrow> key | OpStatus key \<Rightarrow> key)"

lemma frame_step: "spec_step c A r A' \<Longrightarrow> op_key c \<noteq> key \<Longrightarrow> A' key = A key"
  by (auto simp: spec_step_def op_key_def split: op.splits option.splits if_splits)

lemma frame_steps: "spec_steps cs A rs A' \<Longrightarrow> \<forall>c\<in>set cs. op_key c \<noteq> key \<Longrightarrow> A' key = A key"
proof (induction cs arbitrary: A rs)
  case (Cons c cs)
  then show ?case by (cases rs) (auto dest: frame_step)
qed simp

text \<open>A run of insertions into one filter unites the positions of its elements.\<close>

lemma set_steps:
  "spec_steps (map (OpSet key :: bytes \<Rightarrow> 'd op) subs) A rs A' \<Longrightarrow> A key = Some (S, m, k) \<Longrightarrow>
    A' key = Some (S \<union> (\<Union>sub\<in>set subs. positions m k sub), m, k) \<and> rs = replicate (length subs) 0"
proof (induction subs arbitrary: A rs S)
  case (Cons sub subs)
  let ?A1 = "A(key \<mapsto> (S \<union> positions m k sub, m, k))"
  from Cons.prems obtain rs' where 1: "rs = 0 # rs'" "spec_steps (map (OpSet key :: bytes \<Rightarrow> 'd op) subs) ?A1 rs' A'"
    by (cases rs) (auto simp: spec_step_def)
  from Cons.IH [OF 1(2)] 1(1) show ?case by auto
qed simp

end
