(* ===== verification/BloomsDeleteAll.thy ===== *)
theory BloomsDeleteAll
  imports BloomsSpec
begin

text \<open>
  What \<open>blooms_delete_all\<close> really does to a table: in every bucket it removes each second filter,
  keeps the others, and runs into a null pointer when a bucket holds a positive even number.
\<close>

fun evens :: "'a list \<Rightarrow> 'a list" where
  "evens [] = []"
| "evens [x] = [x]"
| "evens (x # y # xs) = x # evens xs"

fun odds :: "'a list \<Rightarrow> 'a list" where
  "odds [] = []"
| "odds [x] = []"
| "odds (x # y # xs) = y # odds xs"

lemma set_evens: "set (evens xs) \<subseteq> set xs"
  by (induction xs rule: evens.induct) auto

lemma hd_in_evens: "xs \<noteq> [] \<Longrightarrow> hd xs \<in> set (evens xs)"
  by (cases xs rule: evens.cases) auto

lemma distinct_map_evens: "distinct (map f xs) \<Longrightarrow> distinct (map f (evens xs))"
proof (induction xs rule: evens.induct)
  case (3 x y xs)
  then show ?case using set_evens [of xs] by auto
qed simp_all

definition even_chain :: "'a list \<Rightarrow> bool" where
  "even_chain c \<longleftrightarrow> c \<noteq> [] \<and> even (length c)"

definition drop_all :: "'d blooms_t \<Rightarrow> 'd bloom_t list \<Rightarrow> 'd blooms_t" where
  "drop_all B ds = fold (\<lambda>d B. bloom_delete B d) ds B"

lemma delete_all_chain_eq:
  "delete_all_chain B c = (if even_chain c then Inl NullDeref else Inr (drop_all B (odds c), evens c))"
proof (induction B c rule: delete_all_chain.induct)
  case (4 B b nxt d rest)
  then show ?case by (auto simp: even_chain_def drop_all_def)
qed (simp_all add: even_chain_def drop_all_def)

lemma drop_all_same [simp]:
  "hashtable (drop_all B ds) = hashtable B" "bs_power (drop_all B ds) = bs_power B"
  by (induction ds arbitrary: B) (simp_all add: drop_all_def bloom_delete_def)

lemma delete_all_loop_eq:
  assumes "\<forall>hv\<in>{lo..<num}. \<not> even_chain (hashtable B hv)"
  shows "\<exists>B'. delete_all_loop lo num B = Inr B' \<and> bs_power B' = bs_power B \<and>
    hashtable B' = (\<lambda>hv. if lo \<le> hv \<and> hv < num then evens (hashtable B hv) else hashtable B hv)"
  using assms
proof (induction lo num B rule: delete_all_loop.induct)
  case (1 lo num B)
  show ?case
  proof (cases "lo < num")
    case True
    let ?D = "drop_all B (odds (hashtable B lo))"
    let ?B1 = "?D\<lparr>hashtable := (hashtable ?D)(lo := evens (hashtable B lo))\<rparr>"
    have c: "delete_all_chain B (hashtable B lo) = Inr (?D, evens (hashtable B lo))"
      using True 1(2) by (simp add: delete_all_chain_eq)
    have step: "delete_all_loop lo num B = delete_all_loop (Suc lo) num ?B1"
      using True c by (subst delete_all_loop.simps) simp
    have "\<forall>hv\<in>{Suc lo..<num}. \<not> even_chain (hashtable ?B1 hv)" using 1(2) by auto
    from 1(1) [OF True c refl this] obtain B' where
      "delete_all_loop (Suc lo) num ?B1 = Inr B'" "bs_power B' = bs_power ?B1"
      "hashtable B' = (\<lambda>hv. if Suc lo \<le> hv \<and> hv < num then evens (hashtable ?B1 hv) else hashtable ?B1 hv)"
      by blast
    moreover from this(3) True
    have "hashtable B' = (\<lambda>hv. if lo \<le> hv \<and> hv < num then evens (hashtable B hv) else hashtable B hv)"
      by (simp add: fun_eq_iff)
    ultimately show ?thesis unfolding step by simp
  next
    case False
    then show ?thesis by (subst delete_all_loop.simps) (auto simp: fun_eq_iff)
  qed
qed

lemma delete_all_loop_fault:
  assumes "lo \<le> hv" "hv < num" "even_chain (hashtable B hv)"
  shows "delete_all_loop lo num B = Inl NullDeref"
  using assms
proof (induction lo num B rule: delete_all_loop.induct)
  case (1 lo num B)
  have lo: "lo < num" using "1.prems" by simp
  show ?case
  proof (cases "even_chain (hashtable B lo)")
    case True
    with lo show ?thesis by (subst delete_all_loop.simps) (simp add: delete_all_chain_eq)
  next
    case False
    let ?D = "drop_all B (odds (hashtable B lo))"
    let ?B1 = "?D\<lparr>hashtable := (hashtable ?D)(lo := evens (hashtable B lo))\<rparr>"
    have c: "delete_all_chain B (hashtable B lo) = Inr (?D, evens (hashtable B lo))"
      using False by (simp add: delete_all_chain_eq)
    have "lo \<noteq> hv" using False "1.prems" by auto
    with "1.IH" [OF lo c refl] "1.prems" have "delete_all_loop (Suc lo) num ?B1 = Inl NullDeref" by simp
    with lo c show ?thesis by (subst delete_all_loop.simps) simp
  qed
qed

lemma blooms_delete_all_cases:
  assumes "lib_ok s" and "blooms s = Some B"
  shows "(\<exists>hv<NBUCKETS. even_chain (hashtable B hv)) \<and> blooms_delete_all s = Inl NullDeref \<or>
    (\<forall>hv<NBUCKETS. \<not> even_chain (hashtable B hv)) \<and>
    (\<exists>s' B'. blooms_delete_all s = Inr s' \<and> blooms s' = Some B' \<and> bs_power B' = bs_power B \<and>
      (\<forall>hv<NBUCKETS. hashtable B' hv = evens (hashtable B hv)))"
proof (cases "\<exists>hv<NBUCKETS. even_chain (hashtable B hv)")
  case True
  then have "delete_all_loop 0 NBUCKETS B = Inl NullDeref" using delete_all_loop_fault by blast
  with True assms show ?thesis
    by (auto elim!: lib_okE simp: blooms_delete_all_def with_blooms_def hashsize_20)
next
  case False
  then obtain B' where "delete_all_loop 0 NBUCKETS B = Inr B'" "bs_power B' = bs_power B"
    "hashtable B' = (\<lambda>hv. if 0 \<le> hv \<and> hv < NBUCKETS then evens (hashtable B hv) else hashtable B hv)"
    using delete_all_loop_eq [of 0 NBUCKETS B] by auto
  moreover from assms this(1) obtain s' where "blooms_delete_all s = Inr s'" "blooms s' = Some B'"
    by (auto elim!: lib_okE simp: blooms_delete_all_def with_blooms_def hashsize_20)
  ultimately show ?thesis using False by auto
qed

lemma find_head:
  assumes "table_wf B" and "hashtable B hv \<noteq> []" and "bs_power B' = bs_power B"
    and "hashtable B' hv = evens (hashtable B hv)"
  shows "table_find B' (bl_key (hd (hashtable B hv))) = Some (hd (hashtable B hv))"
proof -
  obtain b bs where c: "hashtable B hv = b # bs" using assms(2) by (cases "hashtable B hv") auto
  have "bucket B (bl_key b) = hv" using assms(1) c by (auto simp: table_wf_def)
  then have "bucket B' (bl_key b) = hv" using bucket_cong [OF assms(3), of "bl_key b"] by simp
  moreover obtain bs' where "evens (b # bs) = b # bs'" by (cases bs) auto
  ultimately show ?thesis using assms(4) c by (simp add: table_find_def)
qed

end
