(* ===== verification/BloomsProps.thy ===== *)
theory BloomsProps
  imports BloomsDeleteAll
begin

text \<open>
  The properties of the filter library: what a client of \<open>bloom_filter.h\<close> may rely on, and the
  calls on which the code faults. A small instance of the \<open>double\<close> operations over the integers
  serves the concrete instances.
\<close>

section \<open>A concrete library\<close>

definition toy_fp :: "int libm" where
  "toy_fp = \<lparr> of_integer = (\<lambda>i. i), d_log = (\<lambda>x. 1), d_exp = (\<lambda>x. 0), d_pow = (\<lambda>x y. 0), d_ceil = (\<lambda>x. x),
     d_mul = (*), d_div = (div), d_sub = (-), d_gt = (>), d_to_int = (\<lambda>x. x) \<rparr>"

definition toy_s0 :: "int bloomlib" where
  "toy_s0 = snd (blooms_init True 1000
     \<lparr> blooms = None, bloom_hash_lock = Unlocked, bloom_dlist_lock = Unlocked, dump_file_lock = Unlocked \<rparr>)"

definition toy_b :: "u64 \<Rightarrow> bytes \<Rightarrow> int bloom_t" where
  "toy_b n key = \<lparr> bl_bytes = (if n = 0 then 136 else 140), bl_key = key, bl_n = n, bl_m = 2 * n, bl_get_count = 0,
     bl_set_count = 0, bl_get_miss_count = 0, bl_e = 0, bl_e2 = 0, bl_k = 2,
     v_hash = (if n = 0 then [] else [0]) \<rparr>"

lemma toy_init: "blooms_init True 1000 \<lparr> blooms = None, bloom_hash_lock = Unlocked,
    bloom_dlist_lock = Unlocked, dump_file_lock = Unlocked \<rparr> = (0, toy_s0)"
  by (simp add: toy_s0_def blooms_init_def)

lemma toy_s0_ok: "lib_ok toy_s0" "filter_at toy_s0 = (\<lambda>_. None)"
  using blooms_init_lib_ok [OF toy_init] by auto

lemma toy_fields [simp]:
  "of_integer toy_fp = (\<lambda>i. i)" "d_mul toy_fp = (*)" "d_gt toy_fp = (>)" "d_pow toy_fp = (\<lambda>x y. 0)"
  "d_log toy_fp = (\<lambda>x. 1)" "d_ceil toy_fp = (\<lambda>x. x)" "d_to_int toy_fp = (\<lambda>x. x)"
  by (simp_all add: toy_fp_def)

lemma toy_calc: "calc_loop toy_fp 0 2 0 1 = (3, 2, 0)"
  by (simp add: calc_loop.simps)

lemma toy_calculate:
  "calculate toy_fp 8 0 0 0 1 = (140, 16, 2, 0)" "calculate toy_fp 0 0 0 0 1 = (136, 0, 2, 0)"
  by (simp_all add: calculate_def toy_calc sizeof_bloom_t_def)

lemma toy_bloom_init:
  "140 \<le> room \<Longrightarrow> length key < 32 \<Longrightarrow> bloom_init toy_fp True room key 8 0 = Inr (Some (toy_b 8 key))"
  "136 \<le> room \<Longrightarrow> length key < 32 \<Longrightarrow> bloom_init toy_fp True room key 0 0 = Inr (Some (toy_b 0 key))"
  by (auto simp: bloom_init_def toy_calculate toy_b_def MAX_KEY_LEN_def sizeof_bloom_t_def not_less [symmetric])

lemma toy_added:
  "length key < 32 \<Longrightarrow> blooms_add toy_fp True toy_s0 key 8 0 = Inr (0, add_filter toy_s0 (toy_b 8 key))"
  "length key < 32 \<Longrightarrow> blooms_add toy_fp True toy_s0 key 0 0 = Inr (0, add_filter toy_s0 (toy_b 0 key))"
  by (subst blooms_add_eq [OF toy_s0_ok(1)], simp add: toy_s0_def blooms_init_def,
      simp add: toy_s0_ok toy_bloom_init)+

definition toy_s1 :: "int bloomlib" where
  "toy_s1 = add_filter toy_s0 (toy_b 8 [97])"

lemma toy_b_ok: "bloom_ok (toy_b 8 key)"
  by (simp add: bloom_ok_def toy_b_def)

lemma toy_s1_ok: "lib_ok toy_s1" "filter_at toy_s1 = [[97] \<mapsto> toy_b 8 [97]]"
proof -
  have f: "filter_at toy_s0 (bl_key (toy_b 8 [97])) = None" by (simp add: toy_s0_ok)
  have B: "blooms toy_s0 = Some \<lparr> bs_bytes = 0, max_bytes = 1000, bs_count = 0, bs_power = HASH_POWER,
      bs_get_count = 0, bs_set_count = 0, bs_get_miss_count = 0, hashtable = (\<lambda>_. []) \<rparr>"
    by (simp add: toy_s0_def blooms_init_def)
  note a = add_filter_ok [OF toy_s0_ok(1) f toy_b_ok B]
  show "lib_ok toy_s1" "filter_at toy_s1 = [[97] \<mapsto> toy_b 8 [97]]"
    unfolding toy_s1_def by (rule a(1), simp add: toy_b_def) (subst a(2), simp_all add: toy_b_def toy_s0_ok)
qed

lemma toy_add1: "blooms_add toy_fp True toy_s0 [97] 8 0 = Inr (0, toy_s1)"
  by (simp add: toy_added toy_s1_def)

section \<open>Membership\<close>

text \<open>
  C1. No false negatives: once \<open>blooms_set\<close> has accepted an element, \<open>blooms_get\<close> answers 1 for it
  after any further calls on the library (insertions, queries, other filters created and
  deleted), as long as that filter itself is not deleted.
\<close>

theorem no_false_negatives:
  assumes "lib_ok s" and "blooms_set s key sub = Inr (0, s1)"
    and "list_all op_pre cs" and "OpDelete key \<notin> set cs" and "run_ops fp cs s1 = Inr (rs, s2)"
  shows "\<exists>s3. blooms_get s2 key sub = Inr (1, s3)"
proof -
  from sim_set [OF assms(1), of key sub] assms(2)
  have s1: "lib_ok s1" "spec_step (OpSet key sub :: 'a op) (abs_lib s) 0 (abs_lib s1)" by auto
  from sim_ops_run [OF s1(1) assms(3,5)]
  have s2: "lib_ok s2" "spec_steps cs (abs_lib s1) rs (abs_lib s2)" by auto
  have "knows (abs_lib s2) key sub"
    using knows_steps [OF s2(2) assms(4) knows_set [OF s1(2)]] .
  then show ?thesis
    using sim_get [OF s2(1), of key sub] by (auto simp: knows_def spec_step_def split: option.splits)
qed

theorem no_false_negatives_witness:
  "\<exists>s1 rs s2 s3. blooms_set toy_s1 [97] [98] = Inr (0, s1) \<and>
     run_ops toy_fp [OpAdd True [99] 8 0, OpSet [99] [100], OpDelete [99]] s1 = Inr (rs, s2) \<and>
     blooms_get s2 [97] [98] = Inr (1, s3)"
proof -
  let ?cs = "[OpAdd True [99] 8 0, OpSet [99] [100], OpDelete [99]] :: int op list"
  have cs: "list_all op_pre ?cs" "OpDelete [97] \<notin> set ?cs" by (simp_all add: op_pre_def MAX_KEY_LEN_def)
  have f: "filter_at toy_s1 [97] = Some (toy_b 8 [97])" by (simp add: toy_s1_ok)
  obtain s1 where s1: "blooms_set toy_s1 [97] [98] = Inr (0, s1)" "lib_ok s1"
    by (rule blooms_set_present [OF toy_s1_ok(1) f])
  obtain rs s2 where "run_ops toy_fp ?cs s1 = Inr (rs, s2)" using sim_ops [OF s1(2) cs(1)] by blast
  then show ?thesis using no_false_negatives [OF toy_s1_ok(1) s1(1) cs] s1(1) by blast
qed



text \<open>
  C3. Exact answers: after a filter was created and a list of elements inserted, a query is
  answered 1 exactly when its probe positions lie in the union of the elements' probe positions,
  and 0 otherwise; every insertion returns 0. With no insertion a filter that has a hash function
  answers 0 to everything.
\<close>

theorem blooms_get_exact:
  assumes "lib_ok s" and "op_pre (OpAdd mem key n e)" and "blooms_add fp mem s key n e = Inr (0, s1)"
    and "run_ops fp (map (OpSet key) subs) s1 = Inr (rs, s2)"
  shows "\<exists>b s3. filter_at s1 key = Some b \<and> rs = replicate (length subs) 0 \<and>
    blooms_get s2 key q = Inr (if positions (bl_m b) (bl_k b) q \<subseteq>
      (\<Union>sub\<in>set subs. positions (bl_m b) (bl_k b) sub) then 1 else 0, s3)"
proof -
  from sim_add [OF assms(1,2), of fp] assms(3)
  have s1: "lib_ok s1" "spec_step (OpAdd mem key n e) (abs_lib s) 0 (abs_lib s1)" by auto
  then obtain m k where "abs_lib s1 key = Some ({}, m, k)" by (auto simp: spec_step_def split: if_splits)
  then obtain b where b: "filter_at s1 key = Some b" "absf b = ({}, bl_m b, bl_k b)"
    by (auto simp: abs_lib_def absf_def)
  then have A: "abs_lib s1 key = Some ({}, bl_m b, bl_k b)" by (simp add: abs_lib_def)
  have "list_all op_pre (map (OpSet key) subs)" by (simp add: list_all_iff op_pre_def)
  from sim_ops_run [OF s1(1) this assms(4)]
  have s2: "lib_ok s2" "spec_steps (map (OpSet key :: bytes \<Rightarrow> 'a op) subs) (abs_lib s1) rs (abs_lib s2)" by auto
  note run = set_steps [OF s2(2), of "{}" "bl_m b" "bl_k b", OF A]
  obtain r s3 where get: "blooms_get s2 key q = Inr (r, s3)"
      "spec_step (OpGet key q :: 'a op) (abs_lib s2) r (abs_lib s3)" using sim_get [OF s2(1)] by blast
  then have "r = (if positions (bl_m b) (bl_k b) q \<subseteq> (\<Union>sub\<in>set subs. positions (bl_m b) (bl_k b) sub)
      then 1 else 0)" using run by (simp add: spec_step_def)
  with get(1) run b(1) show ?thesis by blast
qed

theorem blooms_get_exact_witness:
  "\<exists>s2 s3. run_ops toy_fp (map (OpSet [97]) [[98], [99]]) toy_s1 = Inr ([0, 0], s2) \<and>
    blooms_get s2 [97] [100] = Inr (if positions 16 2 [100] \<subseteq> (\<Union>sub\<in>set [[98], [99]]. positions 16 2 sub)
      then 1 else 0, s3)"
proof -
  have pre: "op_pre (OpAdd True [97] 8 (0 :: int))" by (simp add: op_pre_def MAX_KEY_LEN_def)
  have "list_all op_pre (map (OpSet [97]) [[98], [99]])" by (simp add: op_pre_def)
  then obtain rs s2 where run: "run_ops toy_fp (map (OpSet [97]) [[98], [99]]) toy_s1 = Inr (rs, s2)"
    using sim_ops [OF toy_s1_ok(1)] by blast
  from blooms_get_exact [OF toy_s0_ok(1) pre toy_add1 this, of "[100]"] obtain b s3 where
    b: "filter_at toy_s1 [97] = Some b" "rs = replicate (length [[98], [99 :: u8]]) 0"
      "blooms_get s2 [97] [100] = Inr (if positions (bl_m b) (bl_k b) [100] \<subseteq>
        (\<Union>sub\<in>set [[98], [99]]. positions (bl_m b) (bl_k b) sub) then 1 else 0, s3)" by blast
  have "rs = [0, 0]" "bl_m b = 16" "bl_k b = 2" using b(1,2) by (auto simp: toy_s1_ok toy_b_def)
  with run b(3) show ?thesis by metis
qed

text \<open>
  Isolation: calls that name other filters do not change what a filter answers.
\<close>

theorem filters_are_isolated:
  assumes "lib_ok s" and "list_all op_pre cs" and "\<forall>c\<in>set cs. op_key c \<noteq> key"
    and "run_ops fp cs s = Inr (rs, s')"
  shows "\<exists>r t t'. blooms_get s key sub = Inr (r, t) \<and> blooms_get s' key sub = Inr (r, t')"
proof -
  from sim_ops_run [OF assms(1,2,4)] have "lib_ok s'" "abs_lib s' key = abs_lib s key"
    using frame_steps [OF _ assms(3)] by blast+
  then show ?thesis
    using sim_get [OF assms(1), of key sub] sim_get [of s' key sub] by (auto simp: spec_step_def)
qed

theorem filters_are_isolated_witness:
  "\<exists>rs s' r t t'. run_ops toy_fp [OpAdd True [99] 8 0, OpSet [99] [98]] toy_s1 = Inr (rs, s') \<and>
     blooms_get toy_s1 [97] [98] = Inr (r, t) \<and> blooms_get s' [97] [98] = Inr (r, t')"
proof -
  let ?cs = "[OpAdd True [99] 8 0, OpSet [99] [98]] :: int op list"
  have cs: "list_all op_pre ?cs" "\<forall>c\<in>set ?cs. op_key c \<noteq> [97]"
    by (simp_all add: op_pre_def op_key_def MAX_KEY_LEN_def)
  obtain rs s' where "run_ops toy_fp ?cs toy_s1 = Inr (rs, s')" using sim_ops [OF toy_s1_ok(1) cs(1)] by blast
  then show ?thesis using filters_are_isolated [OF toy_s1_ok(1) cs] by blast
qed

text \<open>
  Deletion: \<open>blooms_delete\<close> returns 0 when the filter exists and 1 when it does not; after
  it the name is unknown to every call, so a second deletion returns 1.
\<close>

theorem delete_removes_filter:
  assumes "lib_ok s" and "blooms_delete s key = Inr (r, s')"
  shows "r = (if filter_at s key = None then 1 else 0) \<and> blooms_search s' key = Inr None \<and>
    blooms_get s' key sub = Inr (-1, s') \<and> blooms_set s' key sub = Inr (1, s') \<and>
    bloom_status s' key = Inr (-1, None, s') \<and> blooms_delete s' key = Inr (1, s')"
proof -
  obtain t where "blooms_delete s key = Inr (if filter_at s key = None then 1 else 0, t)" "lib_ok t"
      "filter_at t = (filter_at s)(key := None)" by (rule blooms_delete_ok [OF assms(1)])
  with assms(2) have *: "r = (if filter_at s key = None then 1 else 0)" "lib_ok s'" "filter_at s' key = None"
    by auto
  from *(2) obtain B where "blooms s' = Some B" by (rule lib_okE)
  with * show ?thesis
    by (simp add: blooms_search_eq blooms_get_missing blooms_set_missing bloom_status_eq blooms_delete_eq)
qed

theorem delete_removes_filter_witness:
  "\<exists>s'. blooms_delete toy_s1 [97] = Inr (0, s') \<and> blooms_get s' [97] [98] = Inr (-1, s')"
proof -
  obtain s' where "blooms_delete toy_s1 [97] = Inr (if filter_at toy_s1 [97] = None then 1 else 0, s')"
    by (rule blooms_delete_ok [OF toy_s1_ok(1)])
  moreover from delete_removes_filter [OF toy_s1_ok(1) this, of "[98]"]
  have "blooms_get s' [97] [98] = Inr (-1, s')" by blast
  ultimately show ?thesis by (simp add: toy_s1_ok)
qed

lemma table_insert_same [simp]:
  "max_bytes (table_insert B b) = max_bytes B" "max_bytes (table_write B b) = max_bytes B"
  "max_bytes (bloom_delete B b) = max_bytes B"
  by (simp_all add: table_insert_def table_write_def bloom_delete_def Let_def)

lemma table_remove_max [simp]: "max_bytes (table_remove B k) = max_bytes B"
  by (simp add: table_remove_def Let_def split: option.splits prod.splits)

definition lib_max :: "'d bloomlib \<Rightarrow> u64 option" where
  "lib_max s = map_option max_bytes (blooms s)"

lemma lib_max_op:
  assumes ok: "lib_ok s" and run: "run_op fp c s = Inr (r, s')"
  shows "lib_max s' = lib_max s"
proof -
  from ok obtain B where B: "blooms s = Some B" "bloom_hash_lock s = Unlocked" "bloom_dlist_lock s = Unlocked"
    by (rule lib_okE)
  show ?thesis
  proof (cases c)
    case (OpAdd mem key n e)
    with run ok B show ?thesis
      by (auto simp: run_op_def blooms_add_eq bind_r_eq_Inr lib_max_def add_filter_def split: if_splits option.splits)
  next
    case (OpSet key sub)
    with run B show ?thesis
      by (auto simp: run_op_def blooms_set_def with_blooms_def bind_r_eq_Inr lib_max_def Let_def split: option.splits)
  next
    case (OpGet key sub)
    with run B show ?thesis
      by (auto simp: run_op_def blooms_get_def with_blooms_def bind_r_eq_Inr lib_max_def Let_def
          split: option.splits if_splits)
  next
    case (OpDelete key)
    with run B ok show ?thesis by (auto simp: run_op_def blooms_delete_eq lib_max_def split: if_splits)
  next
    case (OpStatus key)
    with run ok show ?thesis by (auto simp: run_op_def bloom_status_eq lib_max_def split: option.splits)
  qed
qed

lemma lib_max_ops:
  "lib_ok s \<Longrightarrow> list_all op_pre cs \<Longrightarrow> run_ops fp cs s = Inr (rs, s') \<Longrightarrow> lib_max s' = lib_max s"
proof (induction cs arbitrary: s rs)
  case (Cons c cs)
  then obtain r s1 rs' where 1: "run_op fp c s = Inr (r, s1)" "run_ops fp cs s1 = Inr (rs', s')"
    by (auto simp: bind_r_eq_Inr)
  moreover have "lib_ok s1" using sim_op [OF Cons.prems(1), of c fp] Cons.prems(2) 1(1) by auto
  ultimately show ?case using Cons lib_max_op [OF Cons.prems(1) 1(1)] by auto
qed simp



section \<open>Sizing\<close>

lemma calc_loop_stop: "calc_loop fp e x kk te = (x', kk', te') \<Longrightarrow> \<not> d_gt fp te' e \<or> 100 \<le> x'"
proof (induction fp e x kk te rule: calc_loop.induct)
  case (1 fp e x kk te)
  show ?case
  proof (cases "d_gt fp te e \<and> x < 100")
    case True
    show ?thesis
      by (rule "1.IH" [OF True refl refl]) (use "1.prems" True in \<open>subst (asm) calc_loop.simps, simp add: Let_def\<close>)
  next
    case False
    then show ?thesis using "1.prems" by (subst (asm) calc_loop.simps) (auto split: if_splits)
  qed
qed



section \<open>Calls that fault\<close>

text \<open>
  The only way \<open>blooms_add\<close> can go wrong on a consistent library is a new name of 32 bytes or
  more: when the filter fits the budget and its memory is obtained, \<open>strcpy\<close> runs past
  \<open>key[MAX_KEY_LEN]\<close>. The name comes from the client and is not checked anywhere.
\<close>

theorem blooms_add_fault_iff:
  assumes "lib_ok s" and "blooms s = Some B"
  shows "blooms_add fp mem s key n e = Inl f \<longleftrightarrow>
    f = BufferOverflow \<and> 32 \<le> length key \<and> filter_at s key = None \<and> mem \<and>
    fst (calculate fp n e 0 0 (of_integer fp 1)) \<noteq> 0 \<and>
    fst (calculate fp n e 0 0 (of_integer fp 1)) \<le> max_bytes B - bs_bytes B"
proof (cases "calculate fp n e 0 0 (of_integer fp 1)")
  case (fields bytes m k te)
  then show ?thesis
    using blooms_add_eq [OF assms, of fp mem key n e]
    by (auto simp: bloom_init_def MAX_KEY_LEN_def not_le)
qed

theorem blooms_add_fault_iff_witness:
  "blooms_add toy_fp True toy_s0 (replicate 32 97) 8 0 = Inl BufferOverflow"
proof -
  obtain B where B: "blooms toy_s0 = Some B" "max_bytes B = 1000" "bs_bytes B = 0"
    by (simp add: toy_s0_def blooms_init_def)
  show ?thesis
    unfolding blooms_add_fault_iff [OF toy_s0_ok(1) B(1)]
    by (simp add: B(2,3) toy_calculate toy_s0_ok)
qed

lemma add_filter_finds: "blooms s = Some B \<Longrightarrow> filter_at (add_filter s b) (bl_key b) = Some b"
  by (simp add: add_filter_def filter_at_def table_insert_def Let_def table_find_def)

text \<open>
  A filter created for 0 elements is accepted, has 0 bits, and makes the next insertion or
  query on it divide by zero (as soon as the requested rate asks for a hash function).
\<close>

theorem zero_elements_trap:
  assumes "lib_ok s" and "blooms_add fp mem s key 0 e = Inr (0, s')"
    and "filter_at s' key = Some b" and "0 < bl_k b"
  shows "bl_m b = 0 \<and> blooms_set s' key sub = Inl DivByZero \<and> blooms_get s' key sub = Inl DivByZero"
proof -
  from assms(1) obtain B where B: "blooms s = Some B" "bloom_hash_lock s = Unlocked" by (rule lib_okE)
  from assms(2) obtain b0 where b0: "bloom_init fp mem (max_bytes B - bs_bytes B) key 0 e = Inr (Some b0)"
      "s' = add_filter s b0"
    by (auto simp: blooms_add_eq [OF assms(1) B(1)] bind_r_eq_Inr split: if_splits option.splits)
  have k: "bl_key b0 = key" "unat (bl_m b0) = 0"
    by (rule bloom_init_spec [OF b0(1)], simp, simp)+
  obtain B' where B': "blooms s' = Some B'" "bloom_hash_lock s' = Unlocked" "table_find B' key = Some b"
    using b0(2) B assms(3) by (auto simp: add_filter_def filter_at_def)
  have "b = b0"
    using assms(3) b0(2) B k(1) by (auto simp: filter_at_def add_filter_def table_insert_def Let_def table_find_def)
  then have m: "bl_m b = 0" using k(2) by (simp add: unat_eq_0)
  then have "set_loop (bl_m b) h1 h2 0 (bl_k b) mp = Inl DivByZero" "check_loop (bl_m b) h1 h2 0 (bl_k b) mp = Inl DivByZero"
    for h1 h2 mp
    using assms(4) by (simp_all add: set_loop.simps check_loop.simps probe_def)
  then have "bloom_set b sub = Inl DivByZero" "bloom_get b sub = Inl DivByZero"
    by (auto simp: bloom_set_def bloom_get_def split: prod.splits)
  with m B' show ?thesis by (simp add: blooms_set_def blooms_get_def with_blooms_def)
qed

theorem zero_elements_trap_witness:
  "\<exists>s'. blooms_add toy_fp True toy_s0 [97] 0 0 = Inr (0, s') \<and> blooms_set s' [97] [98] = Inl DivByZero"
proof -
  have a: "blooms_add toy_fp True toy_s0 [97] 0 0 = Inr (0, add_filter toy_s0 (toy_b 0 [97]))"
    by (simp add: toy_added)
  have "filter_at (add_filter toy_s0 (toy_b 0 [97])) [97] = Some (toy_b 0 [97])"
    using add_filter_finds [of toy_s0 _ "toy_b 0 [97]"] by (simp add: toy_s0_def blooms_init_def toy_b_def)
  from zero_elements_trap [OF toy_s0_ok(1) a this, of "[98]"] a show ?thesis
    by (simp add: toy_b_def)
qed

text \<open>
  C8. \<open>blooms_delete_all\<close> never empties a library: on one that holds a filter it either runs
  into a null pointer (exactly when some bucket holds a positive even number of filters) or
  leaves at least one filter in the table.
\<close>

theorem delete_all_leaves_filters:
  assumes "lib_ok s" and "blooms s = Some B" and "filter_at s key = Some b"
  shows "if \<exists>hv<NBUCKETS. hashtable B hv \<noteq> [] \<and> even (length (hashtable B hv))
    then blooms_delete_all s = Inl NullDeref
    else \<exists>s' key' b'. blooms_delete_all s = Inr s' \<and> filter_at s' key' = Some b'"
proof (cases "\<exists>hv<NBUCKETS. even_chain (hashtable B hv)")
  case True
  with blooms_delete_all_cases [OF assms(1,2)] show ?thesis by (auto simp: even_chain_def)
next
  case False
  with blooms_delete_all_cases [OF assms(1,2)] obtain s' B' where
    s': "blooms_delete_all s = Inr s'" "blooms s' = Some B'" "bs_power B' = bs_power B"
      "\<forall>hv<NBUCKETS. hashtable B' hv = evens (hashtable B hv)" by blast
  have wf: "table_wf B" using assms(1,2) by (auto elim!: lib_okE)
  let ?hv = "bucket B key"
  have "?hv < NBUCKETS" using wf by (simp add: table_wf_def bucket_less)
  moreover have "hashtable B ?hv \<noteq> []" using assms(2,3) by (auto simp: filter_at_def table_find_def)
  ultimately have "filter_at s' (bl_key (hd (hashtable B ?hv))) = Some (hd (hashtable B ?hv))"
    using find_head [OF wf _ s'(3)] s'(2,4) by (simp add: filter_at_def)
  with s'(1) False show ?thesis by (auto simp: even_chain_def)
qed

theorem delete_all_leaves_filters_witness:
  "\<exists>B. blooms toy_s1 = Some B \<and> (if \<exists>hv<NBUCKETS. hashtable B hv \<noteq> [] \<and> even (length (hashtable B hv))
    then blooms_delete_all toy_s1 = Inl NullDeref
    else \<exists>s' key' b'. blooms_delete_all toy_s1 = Inr s' \<and> filter_at s' key' = Some b')"
proof -
  obtain B where B: "blooms toy_s1 = Some B" by (rule lib_okE [OF toy_s1_ok(1)])
  have "filter_at toy_s1 [97] = Some (toy_b 8 [97])" by (simp add: toy_s1_ok)
  from delete_all_leaves_filters [OF toy_s1_ok(1) B this] B show ?thesis by blast
qed

section \<open>The bit map\<close>

text \<open>
  \<open>bitmap_set\<close> and \<open>bitmap_clear\<close> change exactly the named bit as \<open>bitmap_check\<close> sees it.
\<close>

theorem bitmap_ops_pointwise:
  assumes "bm_valid mp i" and "bm_valid mp j"
  shows "\<exists>s c w ws wc. bitmap_set mp i = Inr s \<and> bitmap_clear mp i = Inr c \<and> bitmap_check mp j = Inr w \<and>
    bitmap_check s j = Inr ws \<and> bitmap_check c j = Inr wc \<and>
    (ws \<noteq> 0 \<longleftrightarrow> j = i \<or> w \<noteq> 0) \<and> (wc \<noteq> 0 \<longleftrightarrow> j \<noteq> i \<and> w \<noteq> 0)"
proof -
  have v: "bm_valid (bm_set mp i) j" "bm_valid (bm_clear mp i) j" using assms(2) by (simp_all add: bm_valid_def)
  from bitmap_check_test [OF assms(2)] bitmap_check_test [OF v(1)] bitmap_check_test [OF v(2)]
  show ?thesis
    using assms(1) by (auto simp: bitmap_set_eq bitmap_clear_eq bm_test_set bm_test_clear)
qed

theorem bitmap_ops_pointwise_witness:
  "\<exists>s c w ws wc. bitmap_set [0, 5] 33 = Inr s \<and> bitmap_clear [0, 5] 33 = Inr c \<and> bitmap_check [0, 5] 34 = Inr w \<and>
    bitmap_check s 34 = Inr ws \<and> bitmap_check c 34 = Inr wc \<and>
    (ws \<noteq> 0 \<longleftrightarrow> (34 :: u64) = 33 \<or> w \<noteq> 0) \<and> (wc \<noteq> 0 \<longleftrightarrow> (34 :: u64) \<noteq> 33 \<and> w \<noteq> 0)"
  by (rule bitmap_ops_pointwise) (simp_all add: bm_valid_def)

end
