(* ===== verification/BloomsDump.thy ===== *)
theory BloomsDump
  imports BloomsSpec
begin

text \<open>
  Saving and restoring the library: the \<open>serialize\<close> members of \<open>bloom_filter.h\<close> (which fields are
  written), \<open>blooms_dump\<close>, \<open>blooms_dump1\<close> and \<open>blooms_load\<close> of \<open>bloom_filter.cpp\<close>, and the status
  line of \<open>blooms_status\<close>. The encoding of a value into the archive file belongs to Boost: the
  functions \<open>enc\<close> and \<open>dec\<close> are parameters.
\<close>

section \<open>What is written\<close>

text \<open>
  \<open>ar & ...\<close> of \<open>bloom_t\<close>: every field but \<open>bytes\<close> (the list node writes nothing, \<open>hash_next\<close> is
  the order of the chain).
\<close>

record 'd bloom_image =
  im_key :: bytes
  im_n :: u64
  im_m :: u64
  im_get_count :: u64
  im_set_count :: u64
  im_get_miss_count :: u64
  im_e :: 'd
  im_e2 :: 'd
  im_k :: int
  im_v_hash :: "u32 list"

record 'd blooms_image =
  is_bytes :: u64
  is_max_bytes :: u64
  is_count :: u32
  is_power :: nat
  is_get_count :: u64
  is_set_count :: u64
  is_get_miss_count :: u64
  is_hashtable :: "nat \<Rightarrow> 'd bloom_image list"

definition bloom_save :: "'d bloom_t \<Rightarrow> 'd bloom_image" where
  "bloom_save b = \<lparr> im_key = bl_key b, im_n = bl_n b, im_m = bl_m b, im_get_count = bl_get_count b,
     im_set_count = bl_set_count b, im_get_miss_count = bl_get_miss_count b, im_e = bl_e b,
     im_e2 = bl_e2 b, im_k = bl_k b, im_v_hash = v_hash b \<rparr>"

definition blooms_save :: "'d blooms_t \<Rightarrow> 'd blooms_image" where
  "blooms_save B = \<lparr> is_bytes = bs_bytes B, is_max_bytes = max_bytes B, is_count = bs_count B,
     is_power = bs_power B, is_get_count = bs_get_count B, is_set_count = bs_set_count B,
     is_get_miss_count = bs_get_miss_count B,
     is_hashtable = (\<lambda>hv. map bloom_save (hashtable B hv)) \<rparr>"

text \<open>
  Reading back allocates fresh nodes. \<open>bytes\<close> is not in the archive, so it holds what the memory
  held: \<open>junk\<close> gives it for each name.
\<close>

definition bloom_restore :: "(bytes \<Rightarrow> u64) \<Rightarrow> 'd bloom_image \<Rightarrow> 'd bloom_t" where
  "bloom_restore junk im = \<lparr> bl_bytes = junk (im_key im), bl_key = im_key im, bl_n = im_n im, bl_m = im_m im,
     bl_get_count = im_get_count im, bl_set_count = im_set_count im,
     bl_get_miss_count = im_get_miss_count im, bl_e = im_e im, bl_e2 = im_e2 im, bl_k = im_k im,
     v_hash = im_v_hash im \<rparr>"

definition blooms_restore :: "(bytes \<Rightarrow> u64) \<Rightarrow> 'd blooms_image \<Rightarrow> 'd blooms_t" where
  "blooms_restore junk im = \<lparr> bs_bytes = is_bytes im, max_bytes = is_max_bytes im, bs_count = is_count im,
     bs_power = is_power im, bs_get_count = is_get_count im, bs_set_count = is_set_count im,
     bs_get_miss_count = is_get_miss_count im,
     hashtable = (\<lambda>hv. map (bloom_restore junk) (is_hashtable im hv)) \<rparr>"

section \<open>The three functions\<close>

text \<open>The contents of \<open>file.txt\<close> are the second component. One round of the loop of \<open>blooms_dump\<close>.\<close>

definition blooms_dump_round ::
  "('d blooms_image option \<Rightarrow> 'f) \<Rightarrow> 'd bloomlib \<Rightarrow> ('d bloomlib \<times> 'f) result" where
  "blooms_dump_round enc s =
     bind_r (wr_lock (dump_file_lock s)) (\<lambda>fl.
     bind_r (rd_lock (bloom_hash_lock s)) (\<lambda>hl.
       let file = enc (map_option blooms_save (blooms s))
       in bind_r (rw_unlock hl) (\<lambda>hl. bind_r (rw_unlock fl) (\<lambda>fl.
            Inr (s\<lparr>bloom_hash_lock := hl, dump_file_lock := fl\<rparr>, file)))))"

definition blooms_dump1 ::
  "('d blooms_image option \<Rightarrow> 'f) \<Rightarrow> 'd bloomlib \<Rightarrow> ('d bloomlib \<times> 'f) result" where
  "blooms_dump1 enc s =
     bind_r (wr_lock (dump_file_lock s)) (\<lambda>fl.
     bind_r (rd_lock (bloom_hash_lock s)) (\<lambda>hl.
       let file = enc (map_option blooms_save (blooms s))
       in bind_r (rw_unlock hl) (\<lambda>hl.
            Inr (s\<lparr>bloom_hash_lock := hl, dump_file_lock := fl\<rparr>, file))))"

definition blooms_load ::
  "('f \<Rightarrow> 'd blooms_image option) \<Rightarrow> (bytes \<Rightarrow> u64) \<Rightarrow> 'f \<Rightarrow> 'd bloomlib \<Rightarrow> (int \<times> 'd bloomlib) result" where
  "blooms_load dec junk file s =
     bind_r (wr_lock Unlocked) (\<lambda>fl.
     bind_r (wr_lock (bloom_hash_lock s)) (\<lambda>hl.
       let B = map_option (blooms_restore junk) (dec file)
       in bind_r (rw_unlock hl) (\<lambda>hl. bind_r (rw_unlock fl) (\<lambda>fl.
            Inr (0, s\<lparr>blooms := B, bloom_hash_lock := hl, dump_file_lock := fl\<rparr>)))))"

section \<open>Restoring gives back the filters\<close>

lemma restore_save: "bloom_restore junk (bloom_save b) = b\<lparr>bl_bytes := junk (bl_key b)\<rparr>"
  by (simp add: bloom_restore_def bloom_save_def)

lemma chain_find_restore:
  "chain_find (map (bloom_restore junk) (map bloom_save c)) key =
    map_option (\<lambda>b. b\<lparr>bl_bytes := junk (bl_key b)\<rparr>) (chain_find c key)"
  by (induction c) (simp_all add: restore_save)

lemma bucket_restore: "bucket (blooms_restore junk (blooms_save B)) key = bucket B key"
  by (simp add: bucket_def blooms_restore_def blooms_save_def)

lemma table_find_restore:
  "table_find (blooms_restore junk (blooms_save B)) key =
    map_option (\<lambda>b. b\<lparr>bl_bytes := junk (bl_key b)\<rparr>) (table_find B key)"
  unfolding table_find_def bucket_restore
  using chain_find_restore [of junk "hashtable B (bucket B key)" key]
  by (simp add: blooms_restore_def blooms_save_def)

lemma table_wf_restore: "table_wf B \<Longrightarrow> table_wf (blooms_restore junk (blooms_save B))"
  unfolding table_wf_def bucket_restore
  by (auto simp: blooms_restore_def blooms_save_def bloom_restore_def bloom_save_def comp_def bloom_ok_def)

lemma absf_bytes [simp]: "absf (b\<lparr>bl_bytes := x\<rparr>) = absf b"
  by (simp add: absf_def bits_def)

section \<open>The status line\<close>

text \<open>
  \<open>blooms_status(char *buf)\<close>: each \<open>sprintf(buf, ...)\<close> starts again at the beginning of \<open>buf\<close>. The
  member list is empty, as \<open>blooms_add\<close> never links a filter into it. \<open>show\<close> renders a number.
\<close>

definition CRLF :: bytes where "CRLF = [13, 10]"

definition sprintf_buf :: "bytes \<Rightarrow> bytes \<Rightarrow> bytes" where
  "sprintf_buf txt buf = txt"

definition blooms_status_buf ::
  "(int \<Rightarrow> bytes) \<Rightarrow> 'd bloomlib \<Rightarrow> bytes \<Rightarrow> (bytes \<times> 'd bloomlib) result" where
  "blooms_status_buf show s buf =
     bind_r (rd_lock (bloom_hash_lock s)) (\<lambda>hl.
     bind_r (rd_lock (bloom_dlist_lock s)) (\<lambda>dl.
     with_blooms s (\<lambda>B.
       let buf = sprintf_buf (bytes_of ''blooms count: '' @ show (sint (bs_count B)) @ CRLF) buf;
           buf = sprintf_buf (bytes_of ''blooms total bytes: '' @ show (uint (bs_bytes B)) @ CRLF) buf;
           buf = sprintf_buf (bytes_of ''blooms set count: '' @ show (uint (bs_set_count B)) @ CRLF) buf;
           buf = sprintf_buf (bytes_of ''blooms get count: '' @ show (uint (bs_get_count B)) @ CRLF) buf;
           buf = sprintf_buf (bytes_of ''blooms get miss count: '' @ show (uint (bs_get_miss_count B)) @ CRLF) buf;
           buf = sprintf_buf (bytes_of ''-----------------------------'' @ CRLF @ CRLF) buf
       in bind_r (rw_unlock hl) (\<lambda>hl. bind_r (rw_unlock dl) (\<lambda>dl.
            Inr (buf, s\<lparr>bloom_hash_lock := hl, bloom_dlist_lock := dl\<rparr>))))))"

section \<open>Properties\<close>



text \<open>
  \<open>blooms_dump1\<close> never releases \<open>dump_file_lock\<close>: after one call, a second call and the
  periodic \<open>blooms_dump\<close> both block for ever.
\<close>

theorem dump1_blocks_later_dumps:
  assumes "blooms_dump1 enc s = Inr (s', file)"
  shows "blooms_dump1 enc s' = Inl Deadlock \<and> blooms_dump_round enc s' = Inl Deadlock"
  using assms by (cases "dump_file_lock s") (auto simp: blooms_dump1_def blooms_dump_round_def bind_r_eq_Inr)

theorem dump1_blocks_later_dumps_witness:
  "\<exists>s' file. blooms_dump1 (\<lambda>x. x) \<lparr> blooms = None, bloom_hash_lock = Unlocked, bloom_dlist_lock = Unlocked,
      dump_file_lock = Unlocked \<rparr> = Inr (s' :: int bloomlib, file) \<and> blooms_dump_round (\<lambda>x. x) s' = Inl Deadlock"
proof -
  let ?z = "\<lparr> blooms = None, bloom_hash_lock = Unlocked, bloom_dlist_lock = Unlocked,
      dump_file_lock = Unlocked \<rparr> :: int bloomlib"
  obtain s' f where d: "blooms_dump1 (\<lambda>x. x) ?z = Inr (s', f)" by (simp add: blooms_dump1_def)
  with dump1_blocks_later_dumps [OF d] show ?thesis by blast
qed

text \<open>
  \<open>blooms_status(buf)\<close> leaves the same text in \<open>buf\<close> whatever the library holds: each line
  overwrites the one before, and only the closing rule survives.
\<close>

theorem status_buffer_is_constant:
  assumes "lib_ok s"
  shows "blooms_status_buf show s buf =
    Inr (bytes_of ''-----------------------------'' @ [13, 10, 13, 10], s)"
  using assms by (auto elim!: lib_okE simp: blooms_status_buf_def with_blooms_def sprintf_buf_def CRLF_def)

theorem status_buffer_is_constant_witness:
  "\<exists>s0 :: int bloomlib. lib_ok s0 \<and> blooms_status_buf (\<lambda>_. []) s0 [1] =
    Inr (bytes_of ''-----------------------------'' @ [13, 10, 13, 10], s0)"
proof -
  let ?z = "\<lparr> blooms = None, bloom_hash_lock = Unlocked, bloom_dlist_lock = Unlocked,
      dump_file_lock = Unlocked \<rparr> :: int bloomlib"
  obtain s0 where s0: "blooms_init True 5 ?z = (0, s0)" by (simp add: blooms_init_def)
  then have l: "lib_ok s0" using blooms_init_lib_ok by blast
  from status_buffer_is_constant [OF l, of "\<lambda>_. []" "[1]"] l show ?thesis by blast
qed

end
