(* ===== verification/ThriftServer.thy ===== *)
theory ThriftServer
  imports BloomsProps BloomsDump
begin

text \<open>
  The server side of the filters: the class \<open>BloomFilter\<close> and the Thrift handler \<open>ServHandler\<close> of
  \<open>ThriftManager.cpp\<close>, on top of the library of \<open>Blooms\<close>. A \<open>std::string\<close> argument reaches the
  library through \<open>c_str()\<close>, so only its part before the first NUL counts.
\<close>

section \<open>State\<close>

text \<open>The two global buffers of 128 bytes, as the strings they hold, beside the library.\<close>

record 'd server =
  lib :: "'d bloomlib"
  bloom_key_str :: bytes
  bloom_key_str1 :: bytes

definition KEY_BUF :: nat where "KEY_BUF = 128"

text \<open>\<open>strcpy\<close> into a buffer of \<open>n\<close> bytes.\<close>

definition strcpy_n :: "nat \<Rightarrow> bytes \<Rightarrow> bytes result" where
  "strcpy_n n src = (if length (c_str src) < n then Inr (c_str src) else Inl BufferOverflow)"

definition with_lib :: "('d bloomlib \<Rightarrow> ('a \<times> 'd bloomlib) result) \<Rightarrow> 'd server \<Rightarrow> ('a \<times> 'd server) result" where
  "with_lib f srv = bind_r (f (lib srv)) (\<lambda>(r, s). Inr (r, srv\<lparr>lib := s\<rparr>))"

section \<open>The class BloomFilter\<close>

text \<open>\<open>initialize\<close>: \<open>saved\<close> is the archive file when it can be read.\<close>

definition bf_initialize ::
  "('f \<Rightarrow> 'd blooms_image option) \<Rightarrow> (bytes \<Rightarrow> u64) \<Rightarrow> bool \<Rightarrow> 'f option \<Rightarrow> u64 \<Rightarrow> 'd server \<Rightarrow> (int \<times> 'd server) result" where
  "bf_initialize dec junk mem saved sz srv =
    (case saved of
       None \<Rightarrow> Inr (0, srv\<lparr>lib := snd (blooms_init mem sz (lib srv))\<rparr>)
     | Some file \<Rightarrow> bind_r (blooms_load dec junk file (lib srv)) (\<lambda>(r, s). Inr (0, srv\<lparr>lib := s\<rparr>)))"

definition bf_get :: "bytes \<Rightarrow> bytes \<Rightarrow> 'd server \<Rightarrow> (int \<times> 'd server) result" where
  "bf_get bloom_key key srv = with_lib (\<lambda>s. blooms_get s (bloom_key_str srv) (bloom_key_str1 srv)) srv"

definition bf_add :: "'d libm \<Rightarrow> bool \<Rightarrow> bytes \<Rightarrow> u64 \<Rightarrow> 'd \<Rightarrow> 'd server \<Rightarrow> (int \<times> 'd server) result" where
  "bf_add fp mem key n e srv =
    bind_r (strcpy_n KEY_BUF key) (\<lambda>ks.
      with_lib (\<lambda>s. blooms_add fp mem s ks n e) (srv\<lparr>bloom_key_str := ks\<rparr>))"

text \<open>The local \<open>bloom_key_str1\<close> of \<open>set\<close> hides the global one.\<close>

definition bf_set :: "bytes \<Rightarrow> bytes \<Rightarrow> 'd server \<Rightarrow> (int \<times> 'd server) result" where
  "bf_set bloom_key key srv =
    bind_r (strcpy_n KEY_BUF bloom_key) (\<lambda>ks.
    bind_r (strcpy_n KEY_BUF key) (\<lambda>ks1.
    bind_r (with_lib (\<lambda>s. blooms_set s ks ks1) (srv\<lparr>bloom_key_str := ks\<rparr>)) (\<lambda>(r, srv).
      Inr (if r = 0 then 0 else -1, srv))))"

definition bf_remove :: "bytes \<Rightarrow> 'd server \<Rightarrow> (int \<times> 'd server) result" where
  "bf_remove bloom_key srv =
    bind_r (with_lib (\<lambda>s. blooms_delete s (c_str bloom_key)) srv) (\<lambda>(r, srv).
      Inr (if r = 0 then 0 else -1, srv))"

definition bf_remove_all :: "'d server \<Rightarrow> (int \<times> 'd server) result" where
  "bf_remove_all srv = with_lib (\<lambda>s. bind_r (blooms_delete_all s) (\<lambda>s. Inr (0, s))) srv"

text \<open>The body ends without a \<open>return\<close> of its \<open>int16_t\<close>.\<close>

definition bf_dump_to_file :: "('d blooms_image option \<Rightarrow> 'f) \<Rightarrow> 'd server \<Rightarrow> (int \<times> 'd server) result" where
  "bf_dump_to_file enc srv = bind_r (blooms_dump1 enc (lib srv)) (\<lambda>_. Inl NoReturnValue)"

section \<open>The handler ServHandler\<close>

record element =
  is_exist :: int
  url :: bytes

text \<open>A negative \<open>int32_t\<close> is sign extended to the \<open>UINT64_RC\<close> parameter.\<close>

definition sh_add :: "'d libm \<Rightarrow> bool \<Rightarrow> bytes \<Rightarrow> u32 \<Rightarrow> 'd \<Rightarrow> 'd server \<Rightarrow> (int \<times> 'd server) result" where
  "sh_add fp mem key max_elements false_rate srv =
    with_lib (\<lambda>s. blooms_add fp mem s (c_str key) (scast max_elements) false_rate) srv"

fun sh_fill :: "bytes \<Rightarrow> element list \<Rightarrow> 'd server \<Rightarrow> (element list \<times> 'd server) result" where
  "sh_fill key [] srv = Inr ([], srv)"
| "sh_fill key (x # xs) srv =
    bind_r (with_lib (\<lambda>s. blooms_set s (c_str key) (c_str (url x))) srv) (\<lambda>(ret, srv).
    bind_r (sh_fill key xs srv) (\<lambda>(rest, srv).
      Inr (if ret = 0 then \<lparr> is_exist = 0, url = url x \<rparr> # rest
           else if ret = 1 then \<lparr> is_exist = 1, url = url x \<rparr> # rest
           else rest, srv)))"

fun sh_get :: "bytes \<Rightarrow> element list \<Rightarrow> 'd server \<Rightarrow> (element list \<times> 'd server) result" where
  "sh_get key [] srv = Inr ([], srv)"
| "sh_get key (x # xs) srv =
    bind_r (with_lib (\<lambda>s. blooms_get s (c_str key) (c_str (url x))) srv) (\<lambda>(ret, srv).
    bind_r (sh_get key xs srv) (\<lambda>(rest, srv).
      Inr (if ret = 1 then \<lparr> is_exist = 1, url = url x \<rparr> # rest
           else if ret = 0 then \<lparr> is_exist = 0, url = url x \<rparr> # rest
           else if ret = -1 then \<lparr> is_exist = -1, url = url x \<rparr> # rest
           else rest, srv)))"

definition sh_get_one :: "bytes \<Rightarrow> bytes \<Rightarrow> 'd server \<Rightarrow> (int \<times> 'd server) result" where
  "sh_get_one key u srv = with_lib (\<lambda>s. blooms_get s (c_str key) (c_str u)) srv"

definition sh_fill_one :: "bytes \<Rightarrow> bytes \<Rightarrow> 'd server \<Rightarrow> (int \<times> 'd server) result" where
  "sh_fill_one key u srv = with_lib (\<lambda>s. blooms_set s (c_str key) (c_str u)) srv"

definition sh_delete_blooms :: "bytes \<Rightarrow> 'd server \<Rightarrow> (int \<times> 'd server) result" where
  "sh_delete_blooms key srv = with_lib (\<lambda>s. blooms_delete s (c_str key)) srv"

text \<open>These two print a line and end without a \<open>return\<close>; the statistics calls return nothing.\<close>

definition sh_delete_blooms_all :: "'d server \<Rightarrow> (int \<times> 'd server) result" where
  "sh_delete_blooms_all srv = Inl NoReturnValue"

definition sh_set_mem :: "u32 \<Rightarrow> 'd server \<Rightarrow> (int \<times> 'd server) result" where
  "sh_set_mem sz srv = Inl NoReturnValue"

definition sh_get_stats :: "'d server \<Rightarrow> (element list \<times> 'd server) result" where
  "sh_get_stats srv = Inr ([], srv)"

section \<open>Runs of a batch\<close>

lemma fill_missing:
  "lib_ok (lib srv) \<Longrightarrow> filter_at (lib srv) (c_str key) = None \<Longrightarrow>
    sh_fill key xs srv = Inr (map (\<lambda>x. \<lparr> is_exist = 1, url = url x \<rparr>) xs, srv)"
  by (induction xs) (simp_all add: with_lib_def blooms_set_missing)

lemma get_missing:
  "lib_ok (lib srv) \<Longrightarrow> filter_at (lib srv) (c_str key) = None \<Longrightarrow>
    sh_get key xs srv = Inr (map (\<lambda>x. \<lparr> is_exist = -1, url = url x \<rparr>) xs, srv)"
  by (induction xs) (simp_all add: with_lib_def blooms_get_missing)

lemma knows_present: "knows (abs_lib s) key sub \<Longrightarrow> \<exists>b. filter_at s key = Some b"
  by (auto simp: knows_def abs_lib_def split: option.splits)

lemma fill_present:
  "lib_ok (lib srv) \<Longrightarrow> filter_at (lib srv) (c_str key) \<noteq> None \<Longrightarrow>
    \<exists>srv'. sh_fill key xs srv = Inr (map (\<lambda>x. \<lparr> is_exist = 0, url = url x \<rparr>) xs, srv') \<and> lib_ok (lib srv') \<and>
      (\<forall>x\<in>set xs. knows (abs_lib (lib srv')) (c_str key) (c_str (url x))) \<and>
      (\<forall>k q. knows (abs_lib (lib srv)) k q \<longrightarrow> knows (abs_lib (lib srv')) k q)"
proof (induction xs arbitrary: srv)
  case (Cons x xs)
  let ?k = "c_str key" and ?u = "c_str (url x)"
  from Cons.prems obtain b where b: "filter_at (lib srv) ?k = Some b" by auto
  obtain s1 where
    set: "blooms_set (lib srv) ?k ?u = Inr (0, s1)" "filter_at s1 ?k \<noteq> None" "lib_ok s1"
    by (rule blooms_set_present [OF Cons.prems(1) b, of ?u]) auto
  with sim_set [OF Cons.prems(1), of ?k ?u]
  have sp: "spec_step (OpSet ?k ?u :: 'a op) (abs_lib (lib srv)) 0 (abs_lib s1)" by auto
  have n1: "knows (abs_lib s1) ?k ?u" using knows_set [OF sp] .
  have n2: "knows (abs_lib (lib srv)) k q \<Longrightarrow> knows (abs_lib s1) k q" for k q
    using knows_step [OF sp, of k q] by simp
  from Cons.IH [of "srv\<lparr>lib := s1\<rparr>"] set(2,3) obtain srv' where
    IH: "sh_fill key xs (srv\<lparr>lib := s1\<rparr>) = Inr (map (\<lambda>x. \<lparr> is_exist = 0, url = url x \<rparr>) xs, srv')"
      "lib_ok (lib srv')" "\<forall>x\<in>set xs. knows (abs_lib (lib srv')) ?k (c_str (url x))"
      "\<forall>k q. knows (abs_lib s1) k q \<longrightarrow> knows (abs_lib (lib srv')) k q" by auto
  then show ?case using set n1 n2 by (auto simp: with_lib_def)
qed simp

lemma get_present:
  "lib_ok (lib srv) \<Longrightarrow> \<forall>x\<in>set xs. knows (abs_lib (lib srv)) (c_str key) (c_str (url x)) \<Longrightarrow>
    \<exists>srv'. sh_get key xs srv = Inr (map (\<lambda>x. \<lparr> is_exist = 1, url = url x \<rparr>) xs, srv') \<and>
      lib_ok (lib srv') \<and> abs_lib (lib srv') = abs_lib (lib srv)"
proof (induction xs arbitrary: srv)
  case (Cons x xs)
  let ?k = "c_str key" and ?u = "c_str (url x)"
  from sim_get [OF Cons.prems(1), of ?k ?u] Cons.prems(2) obtain s1 where
    get: "blooms_get (lib srv) ?k ?u = Inr (1, s1)" "lib_ok s1" "abs_lib s1 = abs_lib (lib srv)"
    by (auto simp: spec_step_def knows_def split: option.splits if_splits)
  from Cons.IH [of "srv\<lparr>lib := s1\<rparr>"] get Cons.prems(2) obtain srv' where
    "sh_get key xs (srv\<lparr>lib := s1\<rparr>) = Inr (map (\<lambda>x. \<lparr> is_exist = 1, url = url x \<rparr>) xs, srv')"
    "lib_ok (lib srv')" "abs_lib (lib srv') = abs_lib (lib srv)" by auto
  with get show ?case by (simp add: with_lib_def)
qed simp

section \<open>Properties\<close>

definition toy_srv :: "int server" where
  "toy_srv = \<lparr> lib = toy_s1, bloom_key_str = [], bloom_key_str1 = [] \<rparr>"

lemma toy_srv_ok: "lib_ok (lib toy_srv)" "filter_at (lib toy_srv) [97] = Some (toy_b 8 [97])"
    "filter_at (lib toy_srv) [99] = None"
  by (simp_all add: toy_srv_def toy_s1_ok)

text \<open>
  C4. A batch that \<open>fill\<close> stores in an existing filter comes back from \<open>get\<close> in full: \<open>fill\<close>
  answers 0 for every url, a following \<open>get\<close> of the same batch answers 1 for every url, in
  order, and no call faults.
\<close>

theorem fill_then_get:
  assumes "lib_ok (lib srv)" and "filter_at (lib srv) (c_str key) = Some b"
  shows "\<exists>srv1 srv2. sh_fill key xs srv = Inr (map (\<lambda>x. \<lparr> is_exist = 0, url = url x \<rparr>) xs, srv1) \<and>
    sh_get key xs srv1 = Inr (map (\<lambda>x. \<lparr> is_exist = 1, url = url x \<rparr>) xs, srv2) \<and> lib_ok (lib srv2)"
proof -
  from fill_present [OF assms(1), of key xs] assms(2) obtain srv1 where
    "sh_fill key xs srv = Inr (map (\<lambda>x. \<lparr> is_exist = 0, url = url x \<rparr>) xs, srv1)" "lib_ok (lib srv1)"
    "\<forall>x\<in>set xs. knows (abs_lib (lib srv1)) (c_str key) (c_str (url x))" by auto
  with get_present [of srv1 xs key] show ?thesis by auto
qed

theorem fill_then_get_witness:
  "\<exists>srv1 srv2. sh_fill [97] [\<lparr> is_exist = 5, url = [98] \<rparr>] toy_srv = Inr ([\<lparr> is_exist = 0, url = [98] \<rparr>], srv1) \<and>
    sh_get [97] [\<lparr> is_exist = 5, url = [98] \<rparr>] srv1 = Inr ([\<lparr> is_exist = 1, url = [98] \<rparr>], srv2)"
proof -
  have "filter_at (lib toy_srv) (c_str [97]) = Some (toy_b 8 [97])" by (simp add: toy_srv_ok)
  from fill_then_get [OF toy_srv_ok(1) this, of "[\<lparr> is_exist = 5, url = [98] \<rparr>]"]
  show ?thesis by (simp only: list.map element.simps) blast
qed

text \<open>
  On a filter that does not exist \<open>fill\<close> reports \<open>is_exist = 1\<close> for every url, the value that
  means "present" in the answers of \<open>get\<close>, although nothing was stored; \<open>get\<close> reports -1.
\<close>

theorem fill_missing_filter:
  assumes "lib_ok (lib srv)" and "filter_at (lib srv) (c_str key) = None"
  shows "sh_fill key xs srv = Inr (map (\<lambda>x. \<lparr> is_exist = 1, url = url x \<rparr>) xs, srv) \<and>
    sh_get key xs srv = Inr (map (\<lambda>x. \<lparr> is_exist = -1, url = url x \<rparr>) xs, srv)"
  using assms by (simp add: fill_missing get_missing)

theorem fill_missing_filter_witness:
  "sh_fill [99] [\<lparr> is_exist = 0, url = [98] \<rparr>] toy_srv = Inr ([\<lparr> is_exist = 1, url = [98] \<rparr>], toy_srv)"
proof -
  have "filter_at (lib toy_srv) (c_str [99]) = None" by (simp add: toy_srv_ok)
  from fill_missing_filter [OF toy_srv_ok(1) this, of "[\<lparr> is_exist = 0, url = [98] \<rparr>]"]
  show ?thesis by (simp only: list.map element.simps)
qed

text \<open>
  \<open>BloomFilter::get\<close> ignores both of its arguments: it answers for the name of the last
  \<open>add\<close> or \<open>set\<close> and for the empty element, so right after \<open>set\<close> stored an element any query of
  that class gives the same answer, whatever it asks for.
\<close>

theorem bloomfilter_get_ignores_query:
  assumes "bf_set bk k srv = Inr (r, srv1)" and "bloom_key_str1 srv = []"
  shows "bf_get q1 q2 srv1 = with_lib (\<lambda>s. blooms_get s (c_str bk) []) srv1"
  using assms by (auto simp: bf_set_def bf_get_def bind_r_eq_Inr strcpy_n_def with_lib_def split: if_splits)

theorem bloomfilter_get_ignores_query_witness:
  "\<exists>srv1. bf_set [97] [98] toy_srv = Inr (0, srv1) \<and>
     bf_get [99] [98] srv1 = with_lib (\<lambda>s. blooms_get s (c_str [97]) []) srv1"
proof -
  obtain s1 where "blooms_set toy_s1 [97] [98] = Inr (0, s1)"
    by (rule blooms_set_present [OF toy_s1_ok(1), of "[97]" "toy_b 8 [97]" "[98]"]) (simp add: toy_s1_ok)
  then obtain srv1 where s: "bf_set [97] [98] toy_srv = Inr (0, srv1)"
    by (simp add: bf_set_def strcpy_n_def KEY_BUF_def c_str_def with_lib_def toy_srv_def)
  have "bloom_key_str1 toy_srv = []" by (simp add: toy_srv_def)
  from bloomfilter_get_ignores_query [OF s this] s show ?thesis by blast
qed

text \<open>
  The handler never sees past a NUL byte: after \<open>fill_one\<close> stored one url, \<open>get_one\<close>
  answers 1 for every url with the same part before the first NUL, stored or not.
\<close>

theorem nul_truncation_is_visible:
  assumes "lib_ok (lib srv)" and "sh_fill_one key u srv = Inr (0, srv1)" and "c_str u' = c_str u"
  shows "\<exists>srv2. sh_get_one key u' srv1 = Inr (1, srv2)"
proof -
  from assms(2) obtain s1 where s1: "blooms_set (lib srv) (c_str key) (c_str u) = Inr (0, s1)" "lib srv1 = s1"
    by (auto simp: sh_fill_one_def with_lib_def bind_r_eq_Inr)
  with sim_set [OF assms(1), of "c_str key" "c_str u"]
  have "lib_ok s1" and sp: "spec_step (OpSet (c_str key) (c_str u) :: 'a op) (abs_lib (lib srv)) 0 (abs_lib s1)"
    by auto
  from sim_get [OF this(1), of "c_str key" "c_str u"] knows_set [OF sp]
  obtain s2 where "blooms_get s1 (c_str key) (c_str u) = Inr (1, s2)"
    by (auto simp: spec_step_def knows_def split: option.splits if_splits)
  then show ?thesis using s1(2) assms(3) by (simp add: sh_get_one_def with_lib_def)
qed

theorem nul_truncation_is_visible_witness:
  "\<exists>srv1 srv2. sh_fill_one [97] [98] toy_srv = Inr (0, srv1) \<and>
    sh_get_one [97] [98, 0, 99] srv1 = Inr (1, srv2)"
proof -
  obtain s1 where "blooms_set toy_s1 [97] [98] = Inr (0, s1)"
    by (rule blooms_set_present [OF toy_s1_ok(1), of "[97]" "toy_b 8 [97]" "[98]"]) (simp add: toy_s1_ok)
  then obtain srv1 where s: "sh_fill_one [97] [98] toy_srv = Inr (0, srv1)"
    by (simp add: sh_fill_one_def with_lib_def toy_srv_def)
  have "c_str [98, 0, 99] = c_str [98]" by (simp add: c_str_def)
  from nul_truncation_is_visible [OF toy_srv_ok(1) s this] s show ?thesis by blast
qed

end
