(* ===== verification/RWBuffer.thy ===== *)
theory RWBuffer
  imports Prelude
begin

text \<open>
  \<open>tools/ReadWriteBuffer.cpp\<close>: a byte buffer with a write and a read cursor, over memory it owns
  and grows or over memory of the caller. A byte that was never written is \<open>None\<close>. The buffer is
  a byte queue: the interface \<open>byte_queue\<close> states that, interpreted on \<open>WriteBytes\<close> and
  \<open>ReadBytes\<close>.
\<close>

section \<open>Data\<close>

type_synonym mem = "u8 option list"

record rwbuf =
  mBufSiz :: u64
  mBufLen :: u64
  mBufIdx :: u64
  mGrowBy :: u64
  mIsExt :: bool
  mBuf :: "mem option"

definition rb_new :: rwbuf where
  "rb_new = \<lparr> mBufSiz = 0, mBufLen = 0, mBufIdx = 0, mGrowBy = 1024, mIsExt = False, mBuf = None \<rparr>"

text \<open>The bytes behind the buffer pointer; a null pointer has none.\<close>

definition rb_mem :: "rwbuf \<Rightarrow> mem" where
  "rb_mem b = (case mBuf b of None \<Rightarrow> [] | Some m \<Rightarrow> m)"

text \<open>\<open>memcpy\<close> into and out of a block, at an offset; outside it the behaviour is undefined.\<close>

definition mem_write :: "mem \<Rightarrow> nat \<Rightarrow> mem \<Rightarrow> mem result" where
  "mem_write m off xs =
    (if off + length xs \<le> length m then Inr (take off m @ xs @ drop (off + length xs) m)
     else Inl BufferOverflow)"

definition mem_read :: "mem \<Rightarrow> nat \<Rightarrow> nat \<Rightarrow> mem result" where
  "mem_read m off n = (if off + n \<le> length m then Inr (take n (drop off m)) else Inl OutOfBounds)"

definition malloc_block :: "nat \<Rightarrow> mem" where
  "malloc_block n = replicate n None"

text \<open>\<open>realloc\<close> keeps the common prefix.\<close>

definition realloc_block :: "mem \<Rightarrow> nat \<Rightarrow> mem" where
  "realloc_block m n = take n m @ replicate (n - length m) None"

section \<open>Operations\<close>

definition rb_deallocate :: "rwbuf \<Rightarrow> rwbuf" where
  "rb_deallocate b = b\<lparr>mBufSiz := 0, mBufIdx := 0, mBufLen := 0, mGrowBy := 1024, mIsExt := False, mBuf := None\<rparr>"

definition rb_set_read_empty :: "rwbuf \<Rightarrow> rwbuf" where
  "rb_set_read_empty b = b\<lparr>mBufIdx := 0\<rparr>"

definition rb_set_write_empty :: "rwbuf \<Rightarrow> rwbuf" where
  "rb_set_write_empty b = b\<lparr>mBufLen := 0\<rparr>"

definition rb_set_empty :: "rwbuf \<Rightarrow> rwbuf" where
  "rb_set_empty b = b\<lparr>mBufIdx := 0, mBufLen := 0\<rparr>"

definition rb_set_external :: "mem option \<Rightarrow> u64 \<Rightarrow> u64 \<Rightarrow> u64 \<Rightarrow> rwbuf \<Rightarrow> rwbuf result" where
  "rb_set_external a_pBuf a_nBufSiz a_nBufLen a_nGrowBy b =
    (if a_pBuf = None then Inl (Raise InvalidArgument)
     else if a_nBufSiz < 1 then Inl (Raise InvalidArgument)
     else if a_nBufLen > a_nBufSiz then Inl (Raise InvalidArgument)
     else Inr ((rb_deallocate b)\<lparr>mBufSiz := a_nBufSiz, mBufIdx := 0, mBufLen := a_nBufLen,
            mGrowBy := a_nGrowBy, mIsExt := True, mBuf := a_pBuf\<rparr>))"

definition roundup :: "u64 \<Rightarrow> u64 \<Rightarrow> u64" where
  "roundup nValue nBlock =
    (if nValue mod nBlock \<noteq> 0 then (nValue div nBlock) * nBlock + nBlock else nValue)"

text \<open>\<open>ok\<close> says whether the allocation succeeds.\<close>

definition rb_set_internal :: "bool \<Rightarrow> u64 \<Rightarrow> u64 \<Rightarrow> rwbuf \<Rightarrow> rwbuf result" where
  "rb_set_internal ok a_nInitialSize a_nGrowBy b =
    (if a_nInitialSize < 1 then Inl (Raise InvalidArgument)
     else if a_nGrowBy < 1 then Inl (Raise InvalidArgument)
     else let b = rb_deallocate b; sz = roundup a_nInitialSize a_nGrowBy
          in if \<not> ok then Inl (Raise BadAlloc)
             else Inr (b\<lparr>mBuf := Some (malloc_block (unat sz)), mBufSiz := sz, mGrowBy := a_nGrowBy\<rparr>))"

text \<open>The returned pointer is \<open>mBuf + mBufLen\<close>; the model returns the new state.\<close>

definition rb_get_write_buffer :: "bool \<Rightarrow> u64 \<Rightarrow> rwbuf \<Rightarrow> rwbuf result" where
  "rb_get_write_buffer ok a_nMinBytes b =
    (if mBufLen b + a_nMinBytes > mBufSiz b
     then if mIsExt b
          then if mGrowBy b = 0 then Inl (Raise OverflowError)
               else let nNewSiz = mBufSiz b + roundup a_nMinBytes (mGrowBy b)
                    in if \<not> ok then Inl (Raise BadAlloc)
                       else bind_r (mem_read (rb_mem b) 0 (unat (mBufLen b))) (\<lambda>xs.
                            bind_r (mem_write (malloc_block (unat nNewSiz)) 0 xs) (\<lambda>m.
                              Inr (b\<lparr>mBuf := Some m, mBufSiz := nNewSiz, mIsExt := False\<rparr>)))
          else let nNewSiz = mBufSiz b + roundup a_nMinBytes (mGrowBy b)
               in if \<not> ok then Inl (Raise BadAlloc)
                  else Inr (b\<lparr>mBuf := Some (realloc_block (rb_mem b) (unat nNewSiz)), mBufSiz := nNewSiz\<rparr>)
     else Inr b)"

definition rb_commit_write :: "u64 \<Rightarrow> rwbuf \<Rightarrow> rwbuf result" where
  "rb_commit_write a_nBytes b =
    (if mBufLen b + a_nBytes > mBufSiz b then Inl (Raise InvalidArgument)
     else Inr (b\<lparr>mBufLen := mBufLen b + a_nBytes\<rparr>))"

definition rb_write_size :: "rwbuf \<Rightarrow> u64" where
  "rb_write_size b = mBufSiz b - mBufLen b"

definition rb_write_bytes :: "bool \<Rightarrow> mem \<Rightarrow> rwbuf \<Rightarrow> rwbuf result" where
  "rb_write_bytes ok xs b =
    bind_r (rb_get_write_buffer ok (of_nat (length xs)) b) (\<lambda>b.
    bind_r (mem_write (rb_mem b) (unat (mBufLen b)) xs) (\<lambda>m.
      rb_commit_write (of_nat (length xs)) (b\<lparr>mBuf := map_option (\<lambda>_. m) (mBuf b)\<rparr>)))"

definition rb_commit_read :: "u64 \<Rightarrow> rwbuf \<Rightarrow> rwbuf result" where
  "rb_commit_read a_nBytes b =
    (if mBufIdx b + a_nBytes > mBufLen b then Inl (Raise InvalidArgument)
     else Inr (b\<lparr>mBufIdx := mBufIdx b + a_nBytes\<rparr>))"

definition rb_read_size :: "rwbuf \<Rightarrow> u64" where
  "rb_read_size b = mBufLen b - mBufIdx b"

definition rb_read_bytes :: "u64 \<Rightarrow> rwbuf \<Rightarrow> (mem \<times> rwbuf) result" where
  "rb_read_bytes a_nBufLen b =
    (if rb_read_size b < a_nBufLen then Inl (Raise InvalidArgument)
     else bind_r (mem_read (rb_mem b) (unat (mBufIdx b)) (unat a_nBufLen)) (\<lambda>xs.
          bind_r (rb_commit_read a_nBufLen b) (\<lambda>b. Inr (xs, b))))"

text \<open>\<open>memmove\<close> of the unread bytes to the front.\<close>

definition rb_compact :: "rwbuf \<Rightarrow> rwbuf result" where
  "rb_compact b =
    bind_r (if rb_read_size b > 0
            then bind_r (mem_read (rb_mem b) (unat (mBufIdx b)) (unat (rb_read_size b))) (\<lambda>xs.
                 bind_r (mem_write (rb_mem b) 0 xs) (\<lambda>m. Inr (b\<lparr>mBuf := map_option (\<lambda>_. m) (mBuf b)\<rparr>)))
            else Inr b) (\<lambda>b.
      Inr (b\<lparr>mBufLen := mBufLen b - mBufIdx b, mBufIdx := 0\<rparr>))"

text \<open>\<open>operator=\<close>; when the operand is the buffer itself it has just been deallocated.\<close>

definition rb_assign :: "bool \<Rightarrow> bool \<Rightarrow> rwbuf \<Rightarrow> rwbuf \<Rightarrow> rwbuf result" where
  "rb_assign ok aliased b rhs0 =
    (let b = rb_deallocate b; rhs = (if aliased then b else rhs0)
     in if mBufSiz rhs > 0
        then bind_r (rb_set_internal ok (mBufSiz rhs) (if mGrowBy rhs \<noteq> 0 then mGrowBy rhs else 1024) b) (\<lambda>b.
             bind_r (rb_get_write_buffer ok (mBufLen rhs) b) (\<lambda>b.
             bind_r (mem_read (rb_mem rhs) 0 (unat (mBufLen rhs))) (\<lambda>xs.
             bind_r (mem_write (rb_mem b) (unat (mBufLen b)) xs) (\<lambda>m.
               Inr (b\<lparr>mBuf := Some m, mBufIdx := mBufIdx rhs, mBufLen := mBufLen rhs\<rparr>)))))
        else Inr b)"

definition rb_equal :: "rwbuf \<Rightarrow> rwbuf \<Rightarrow> bool result" where
  "rb_equal b rhs =
    (if rb_read_size b \<noteq> rb_read_size rhs then Inr False
     else bind_r (mem_read (rb_mem b) (unat (mBufIdx b)) (unat (rb_read_size b))) (\<lambda>xs.
          bind_r (mem_read (rb_mem rhs) (unat (mBufIdx rhs)) (unat (rb_read_size b))) (\<lambda>ys.
            Inr (xs = ys))))"

section \<open>Invariant and contents\<close>

definition rb_ok :: "rwbuf \<Rightarrow> bool" where
  "rb_ok b \<longleftrightarrow> mBufIdx b \<le> mBufLen b \<and> mBufLen b \<le> mBufSiz b \<and> length (rb_mem b) = unat (mBufSiz b)"

text \<open>The committed bytes that were not read yet.\<close>

definition rb_contents :: "rwbuf \<Rightarrow> mem" where
  "rb_contents b = take (unat (mBufLen b) - unat (mBufIdx b)) (drop (unat (mBufIdx b)) (rb_mem b))"

lemma rb_ok_nat:
  "rb_ok b \<longleftrightarrow> unat (mBufIdx b) \<le> unat (mBufLen b) \<and> unat (mBufLen b) \<le> unat (mBufSiz b) \<and>
    length (rb_mem b) = unat (mBufSiz b)"
  by (simp add: rb_ok_def word_le_nat_alt)

lemma length_contents: "rb_ok b \<Longrightarrow> length (rb_contents b) = unat (mBufLen b) - unat (mBufIdx b)"
  by (auto simp: rb_ok_nat rb_contents_def)

lemma rb_mem_simps [simp]:
  "rb_mem (b\<lparr>mBufLen := x\<rparr>) = rb_mem b" "rb_mem (b\<lparr>mBufIdx := x\<rparr>) = rb_mem b"
  "rb_mem (b\<lparr>mBufSiz := x\<rparr>) = rb_mem b" "rb_mem (b\<lparr>mIsExt := e\<rparr>) = rb_mem b"
  "rb_mem (b\<lparr>mBuf := Some m\<rparr>) = m"
  by (simp_all add: rb_mem_def)

text \<open>Committed bytes survive the growth of the buffer.\<close>

lemma get_write_buffer_keeps:
  assumes "rb_ok b" and "rb_get_write_buffer ok n b = Inr b'"
  shows "mBufLen b' = mBufLen b" and "mBufIdx b' = mBufIdx b" and "length (rb_mem b') = unat (mBufSiz b')"
    and "unat (mBufLen b) \<le> length (rb_mem b') \<Longrightarrow> take (unat (mBufLen b)) (rb_mem b') = take (unat (mBufLen b)) (rb_mem b)"
  using assms
  by (auto simp: rb_get_write_buffer_def Let_def bind_r_eq_Inr mem_read_def mem_write_def malloc_block_def
      realloc_block_def rb_ok_nat min_def split: if_splits)

lemma write_bytes_ok:
  assumes ok: "rb_ok b" and run: "rb_write_bytes al xs b = Inr b'"
  shows "rb_ok b'" and "rb_contents b' = rb_contents b @ xs"
proof -
  let ?n = "of_nat (length xs) :: u64"
  from run obtain b1 m b2 where 1: "rb_get_write_buffer al ?n b = Inr b1"
      "mem_write (rb_mem b1) (unat (mBufLen b1)) xs = Inr m" "b2 = b1\<lparr>mBuf := map_option (\<lambda>_. m) (mBuf b1)\<rparr>"
      "rb_commit_write ?n b2 = Inr b'"
    by (auto simp: rb_write_bytes_def bind_r_eq_Inr)
  note k = get_write_buffer_keeps [OF ok 1(1)]
  from 1(2) have m: "unat (mBufLen b) + length xs \<le> length (rb_mem b1)"
      "m = take (unat (mBufLen b)) (rb_mem b1) @ xs @ drop (unat (mBufLen b) + length xs) (rb_mem b1)"
    by (auto simp: mem_write_def k(1) split: if_splits)
  have lt: "unat (mBufLen b) + length xs < 2 ^ 64"
    using m(1) k(3) unat_u64_less [of "mBufSiz b1"] by simp
  then have n: "unat ?n = length xs" by (intro unat_of_nat_u64) simp
  then have add: "unat (mBufLen b + ?n) = unat (mBufLen b) + length xs"
    using lt by (subst unat_add_lem [THEN iffD1]) auto
  have b2: "rb_mem b2 = m"
    using m 1(3) by (cases "mBuf b1") (auto simp: rb_mem_def)
  have b': "b' = b2\<lparr>mBufLen := mBufLen b + ?n\<rparr>"
    using 1(3,4) k(1) by (auto simp: rb_commit_write_def split: if_splits)
  have idx: "unat (mBufIdx b) \<le> unat (mBufLen b)" using ok by (simp add: rb_ok_nat)
  show "rb_ok b'"
    using 1(3) m k b2 add idx ok unfolding b' rb_ok_nat by auto
  have "take (unat (mBufLen b)) (rb_mem b1) = take (unat (mBufLen b)) (rb_mem b)"
    using k(4) m(1) by simp
  moreover have "length (rb_mem b) = unat (mBufSiz b)" "unat (mBufLen b) \<le> unat (mBufSiz b)"
    using ok by (simp_all add: rb_ok_nat)
  ultimately show "rb_contents b' = rb_contents b @ xs"
    using idx 1(3) k(1,2) b2 add m unfolding b' rb_contents_def
    by (simp add: drop_take [symmetric] min_def)
qed

lemma read_bytes_ok:
  assumes ok: "rb_ok b" and run: "rb_read_bytes n b = Inr (xs, b')"
  shows "rb_ok b'" and "rb_contents b = xs @ rb_contents b'" and "length xs = unat n"
proof -
  have le: "unat (mBufIdx b) \<le> unat (mBufLen b)" "unat (mBufLen b) \<le> length (rb_mem b)"
      "length (rb_mem b) = unat (mBufSiz b)" "unat (mBufLen b) \<le> unat (mBufSiz b)"
    using ok by (auto simp: rb_ok_nat)
  then have sz: "unat (rb_read_size b) = unat (mBufLen b) - unat (mBufIdx b)"
    by (simp add: rb_read_size_def unat_sub word_le_nat_alt)
  from run have n: "unat n \<le> unat (mBufLen b) - unat (mBufIdx b)"
    by (auto simp: rb_read_bytes_def sz [symmetric] word_le_nat_alt word_less_nat_alt split: if_splits)
  then have add: "unat (mBufIdx b + n) = unat (mBufIdx b) + unat n"
    using le unat_u64_less [of "mBufLen b"] by (subst unat_add_lem [THEN iffD1]) auto
  from run have x: "xs = take (unat n) (drop (unat (mBufIdx b)) (rb_mem b))" "b' = b\<lparr>mBufIdx := mBufIdx b + n\<rparr>"
    by (auto simp: rb_read_bytes_def bind_r_eq_Inr mem_read_def rb_commit_read_def split: if_splits)
  show "rb_ok b'" using n le add unfolding x rb_ok_nat by auto
  show "length xs = unat n" using n le unfolding x by simp
  show "rb_contents b = xs @ rb_contents b'"
  proof -
    have "unat (mBufLen b) - unat (mBufIdx b) = unat n + (unat (mBufLen b) - (unat (mBufIdx b) + unat n))"
      using n le by simp
    then show ?thesis
      using add unfolding x rb_contents_def by (simp add: take_add add.commute)
  qed
qed

section \<open>The interface of a byte queue\<close>

locale byte_queue =
  fixes put :: "'x list \<Rightarrow> 'b \<Rightarrow> 'b option"
    and get :: "nat \<Rightarrow> 'b \<Rightarrow> ('x list \<times> 'b) option"
    and contents :: "'b \<Rightarrow> 'x list"
    and inv :: "'b \<Rightarrow> bool"
  assumes put_law: "inv b \<Longrightarrow> put xs b = Some b' \<Longrightarrow> inv b' \<and> contents b' = contents b @ xs"
    and get_law: "inv b \<Longrightarrow> get n b = Some (xs, b') \<Longrightarrow>
      inv b' \<and> contents b = xs @ contents b' \<and> length xs = n"
begin

fun puts :: "'x list list \<Rightarrow> 'b \<Rightarrow> 'b option" where
  "puts [] b = Some b"
| "puts (xs # xss) b = Option.bind (put xs b) (puts xss)"

fun gets :: "nat list \<Rightarrow> 'b \<Rightarrow> ('x list list \<times> 'b) option" where
  "gets [] b = Some ([], b)"
| "gets (n # ns) b = Option.bind (get n b) (\<lambda>(xs, b). Option.bind (gets ns b) (\<lambda>(xss, b). Some (xs # xss, b)))"

lemma puts_law: "inv b \<Longrightarrow> puts xss b = Some b' \<Longrightarrow> inv b' \<and> contents b' = contents b @ concat xss"
proof (induction xss arbitrary: b)
  case (Cons xs xss)
  then obtain b1 where 1: "put xs b = Some b1" "puts xss b1 = Some b'" by (auto simp: bind_eq_Some_conv)
  from put_law [OF Cons.prems(1) 1(1)] Cons.IH [OF _ 1(2)] show ?case by simp
qed simp

lemma gets_law:
  "inv b \<Longrightarrow> gets ns b = Some (xss, b') \<Longrightarrow> inv b' \<and> contents b = concat xss @ contents b' \<and> map length xss = ns"
proof (induction ns arbitrary: b xss)
  case (Cons n ns)
  then obtain xs b1 yss where 1: "get n b = Some (xs, b1)" "gets ns b1 = Some (yss, b')" "xss = xs # yss"
    by (auto simp: bind_eq_Some_conv)
  from get_law [OF Cons.prems(1) 1(1)] Cons.IH [OF _ 1(2)] 1(3) show ?case by simp
qed simp

lemma fifo:
  assumes "inv b" and "contents b = []" and "puts xss b = Some b1" and "gets ns b1 = Some (yss, b2)"
  shows "concat xss = concat yss @ contents b2"
  using assms puts_law [OF assms(1,3)] gets_law [of b1 ns yss b2] by simp

end

definition opt_of :: "'a result \<Rightarrow> 'a option" where
  "opt_of r = (case r of Inl _ \<Rightarrow> None | Inr x \<Rightarrow> Some x)"

lemma opt_of_Some [simp]: "opt_of r = Some x \<longleftrightarrow> r = Inr x"
  by (cases r) (auto simp: opt_of_def)

interpretation rb: byte_queue
  "\<lambda>xs b. opt_of (rb_write_bytes True xs b)"
  "\<lambda>n b. if n < 2 ^ 64 then opt_of (rb_read_bytes (of_nat n) b) else None"
  rb_contents rb_ok
proof (unfold_locales, goal_cases)
  case (1 b xs b')
  then show ?case using write_bytes_ok by simp
next
  case (2 b n xs b')
  then have "n < 2 ^ 64" "rb_read_bytes (of_nat n) b = Inr (xs, b')" by (auto split: if_splits)
  moreover from this(1) have "unat (of_nat n :: u64) = n" by (rule unat_of_nat_u64)
  ultimately show ?case using read_bytes_ok [OF 2(1)] by auto
qed

section \<open>Runs\<close>

lemma compact_ok:
  assumes "rb_ok b"
  shows "\<exists>b'. rb_compact b = Inr b' \<and> rb_ok b' \<and> rb_contents b' = rb_contents b \<and> mBufIdx b' = 0 \<and> mBufSiz b' = mBufSiz b"
proof -
  let ?i = "unat (mBufIdx b)" and ?l = "unat (mBufLen b)"
  have le: "?i \<le> ?l" "?l \<le> length (rb_mem b)" "length (rb_mem b) = unat (mBufSiz b)"
    using assms by (auto simp: rb_ok_nat)
  then have sz: "unat (rb_read_size b) = ?l - ?i"
    by (simp add: rb_read_size_def unat_sub word_le_nat_alt)
  have sub: "unat (mBufLen b - mBufIdx b) = ?l - ?i" using sz by (simp add: rb_read_size_def)
  show ?thesis
  proof (cases "rb_read_size b > 0")
    case True
    then obtain m0 where m0: "mBuf b = Some m0" using le sz by (cases "mBuf b") (auto simp: rb_mem_def word_less_nat_alt)
    let ?xs = "take (?l - ?i) (drop ?i (rb_mem b))"
    let ?m = "?xs @ drop (?l - ?i) (rb_mem b)"
    let ?b = "b\<lparr>mBuf := Some ?m, mBufLen := mBufLen b - mBufIdx b, mBufIdx := 0\<rparr>"
    have "rb_compact b = Inr ?b"
      using True le m0 sz by (simp add: rb_compact_def mem_read_def mem_write_def)
    moreover have "rb_ok ?b" using le sub by (auto simp: rb_ok_nat)
    moreover have "rb_contents ?b = rb_contents b" using le sub by (simp add: rb_contents_def)
    ultimately show ?thesis by auto
  next
    case False
    then have "?l - ?i = 0" using sz by (simp add: word_less_nat_alt)
    then show ?thesis using False le sub by (auto simp: rb_compact_def rb_ok_nat rb_contents_def)
  qed
qed

datatype rb_op = RbWrite mem | RbRead u64 | RbCompact

fun rb_run :: "rb_op list \<Rightarrow> rwbuf \<Rightarrow> (mem \<times> rwbuf) result" where
  "rb_run [] b = Inr ([], b)"
| "rb_run (RbWrite xs # ops) b = bind_r (rb_write_bytes True xs b) (rb_run ops)"
| "rb_run (RbRead n # ops) b =
    bind_r (rb_read_bytes n b) (\<lambda>(xs, b). bind_r (rb_run ops b) (\<lambda>(out, b). Inr (xs @ out, b)))"
| "rb_run (RbCompact # ops) b = bind_r (rb_compact b) (rb_run ops)"

fun rb_input :: "rb_op list \<Rightarrow> mem" where
  "rb_input [] = []"
| "rb_input (RbWrite xs # ops) = xs @ rb_input ops"
| "rb_input (_ # ops) = rb_input ops"

section \<open>Properties\<close>

text \<open>
  C11. First in, first out: over any sequence of \<open>WriteBytes\<close>, \<open>ReadBytes\<close> and \<open>Compact\<close> calls
  that all return, what was in the buffer followed by everything written equals everything
  read followed by what is left, whatever growth and compaction did; the cursors stay in order.
\<close>

theorem buffer_is_fifo:
  assumes "rb_ok b" and "rb_run ops b = Inr (out, b')"
  shows "rb_ok b' \<and> rb_contents b @ rb_input ops = out @ rb_contents b'"
  using assms
proof (induction ops b arbitrary: out rule: rb_run.induct)
  case (2 xs ops b)
  then obtain b1 where 1: "rb_write_bytes True xs b = Inr b1" "rb_run ops b1 = Inr (out, b')"
    by (auto simp: bind_r_eq_Inr)
  note w = write_bytes_ok [OF "2.prems"(1) 1(1)]
  from "2.IH" [OF w(1) 1(2)] w(2) show ?case by simp
next
  case (3 n ops b)
  then obtain xs b1 out1 where 1: "rb_read_bytes n b = Inr (xs, b1)" "rb_run ops b1 = Inr (out1, b')" "out = xs @ out1"
    by (auto simp: bind_r_eq_Inr)
  note r = read_bytes_ok [OF "3.prems"(1) 1(1)]
  from "3.IH" [OF r(1) 1(2)] r(2) 1(3) show ?case by simp
next
  case (4 ops b)
  from compact_ok [OF "4.prems"(1)] obtain b1 where
    c: "rb_compact b = Inr b1" "rb_ok b1" "rb_contents b1 = rb_contents b" by blast
  with "4.IH" [OF c(2)] "4.prems"(2) show ?case by simp
qed simp

theorem buffer_is_fifo_witness:
  "\<exists>b'. rb_run [RbWrite [Some 1, Some 2, Some 3], RbRead 2, RbCompact, RbWrite [Some 4]] rb_new = Inr ([Some 1, Some 2], b') \<and>
    rb_contents b' = [Some 3, Some 4]"
proof -
  let ?ops = "[RbWrite [Some 1, Some 2, Some 3], RbRead 2, RbCompact, RbWrite [Some 4]]"
  have ok: "rb_ok rb_new" by (simp add: rb_ok_def rb_new_def rb_mem_def)
  have run: "rb_run ?ops rb_new = Inr ([Some 1, Some 2],
      \<lparr> mBufSiz = 1024, mBufLen = 2, mBufIdx = 0, mGrowBy = 1024, mIsExt = False,
        mBuf = Some ([Some 3, Some 4, Some 3] @ replicate 1021 None) \<rparr>)"
    by (simp add: rb_new_def rb_write_bytes_def rb_get_write_buffer_def roundup_def realloc_block_def rb_mem_def
        mem_write_def mem_read_def rb_commit_write_def rb_read_bytes_def rb_read_size_def rb_commit_read_def
        rb_compact_def Let_def)
  from buffer_is_fifo [OF ok run] run show ?thesis
    by (simp add: rb_new_def rb_contents_def rb_mem_def)
qed

text \<open>
  \<open>ReadBytes\<close> on a consistent buffer returns when at least that much was committed, and
  otherwise throws \<open>invalid_argument\<close>; it has no other outcome.
\<close>

theorem read_bytes_outcome:
  assumes "rb_ok b"
  shows "if unat n \<le> length (rb_contents b) then \<exists>b'. rb_read_bytes n b = Inr (take (unat n) (rb_contents b), b')
    else rb_read_bytes n b = Inl (Raise InvalidArgument)"
proof -
  have le: "unat (mBufIdx b) \<le> unat (mBufLen b)" "unat (mBufLen b) \<le> length (rb_mem b)"
    using assms by (auto simp: rb_ok_nat)
  then have sz: "unat (rb_read_size b) = length (rb_contents b)"
    by (simp add: rb_read_size_def unat_sub word_le_nat_alt length_contents [OF assms])
  show ?thesis
  proof (cases "unat n \<le> length (rb_contents b)")
    case True
    then have n: "unat (mBufIdx b) + unat n \<le> unat (mBufLen b)" using le by (simp add: length_contents [OF assms])
    then have "unat (mBufIdx b + n) = unat (mBufIdx b) + unat n"
      using unat_u64_less [of "mBufLen b"] by (subst unat_add_lem [THEN iffD1]) auto
    then have "rb_read_bytes n b = Inr (take (unat n) (drop (unat (mBufIdx b)) (rb_mem b)), b\<lparr>mBufIdx := mBufIdx b + n\<rparr>)"
      using True n le sz
      by (auto simp: rb_read_bytes_def word_less_nat_alt word_le_nat_alt mem_read_def rb_commit_read_def)
    then show ?thesis using True n by (auto simp: rb_contents_def min_def)
  next
    case False
    then show ?thesis using sz by (simp add: rb_read_bytes_def word_less_nat_alt)
  qed
qed

theorem read_bytes_outcome_witness:
  "rb_read_bytes 1 rb_new = Inl (Raise InvalidArgument)"
proof -
  have "rb_ok rb_new" by (simp add: rb_ok_def rb_new_def rb_mem_def)
  from read_bytes_outcome [OF this, of 1] show ?thesis by (simp add: rb_contents_def rb_new_def rb_mem_def)
qed

text \<open>
  \<open>SetWriteBufLenEmpty\<close> on a partly read buffer breaks it: the write cursor falls behind
  the read cursor, and \<open>GetReadSize\<close> wraps round to a number near \<open>2 ^ 64\<close>.
\<close>

theorem set_write_empty_breaks_buffer:
  assumes "mBufIdx b \<noteq> 0"
  shows "\<not> rb_ok (rb_set_write_empty b) \<and>
    unat (rb_read_size (rb_set_write_empty b)) = 2 ^ 64 - unat (mBufIdx b)"
  using assms by (simp add: rb_ok_nat rb_set_write_empty_def rb_read_size_def unat_u64_neg unat_gt_0)

theorem set_write_empty_breaks_buffer_witness:
  "\<exists>b'. rb_run [RbWrite [Some 1, Some 2], RbRead 1] rb_new = Inr ([Some 1], b') \<and>
    unat (rb_read_size (rb_set_write_empty b')) = 2 ^ 64 - 1"
proof -
  let ?b = "\<lparr> mBufSiz = 1024, mBufLen = 2, mBufIdx = 1, mGrowBy = 1024, mIsExt = False,
        mBuf = Some ([Some 1, Some 2] @ replicate 1022 None) \<rparr>"
  have run: "rb_run [RbWrite [Some 1, Some 2], RbRead 1] rb_new = Inr ([Some 1], ?b)"
    by (simp add: rb_new_def rb_write_bytes_def rb_get_write_buffer_def roundup_def realloc_block_def rb_mem_def
        mem_write_def mem_read_def rb_commit_write_def rb_read_bytes_def rb_read_size_def rb_commit_read_def Let_def)
  have "mBufIdx ?b \<noteq> 0" by simp
  from set_write_empty_breaks_buffer [OF this] run show ?thesis by auto
qed

end
