(* ===== verification/ListHead.thy ===== *)
theory ListHead
  imports Prelude
begin

text \<open>
  \<open>bloomfilter/list.h\<close>: circular doubly linked lists threaded through their elements, as pointer
  updates on a heap of \<open>next\<close> and \<open>prev\<close> fields, and the proof that each operation does to the
  chain of nodes what its comment says. The single-pointer \<open>hlist\<close> variant follows.
\<close>

section \<open>Heap and operations\<close>

type_synonym addr = nat

record lheap =
  l_next :: "addr \<Rightarrow> addr"
  l_prev :: "addr \<Rightarrow> addr"

definition LIST_POISON1 :: addr where "LIST_POISON1 = 0x00100100"
definition LIST_POISON2 :: addr where "LIST_POISON2 = 0x00200200"

definition set_next :: "addr \<Rightarrow> addr \<Rightarrow> lheap \<Rightarrow> lheap" where
  "set_next a v h = h\<lparr>l_next := (l_next h)(a := v)\<rparr>"

definition set_prev :: "addr \<Rightarrow> addr \<Rightarrow> lheap \<Rightarrow> lheap" where
  "set_prev a v h = h\<lparr>l_prev := (l_prev h)(a := v)\<rparr>"

definition INIT_LIST_HEAD :: "addr \<Rightarrow> lheap \<Rightarrow> lheap" where
  "INIT_LIST_HEAD l h = set_prev l l (set_next l l h)"

definition list_add_between :: "addr \<Rightarrow> addr \<Rightarrow> addr \<Rightarrow> lheap \<Rightarrow> lheap" where
  "list_add_between new_one prev nxt h =
    (let h = set_prev nxt new_one h;
         h = set_next new_one nxt h;
         h = set_prev new_one prev h
     in set_next prev new_one h)"

definition list_add :: "addr \<Rightarrow> addr \<Rightarrow> lheap \<Rightarrow> lheap" where
  "list_add new_one head h = list_add_between new_one head (l_next h head) h"

definition list_add_tail :: "addr \<Rightarrow> addr \<Rightarrow> lheap \<Rightarrow> lheap" where
  "list_add_tail new_one head h = list_add_between new_one (l_prev h head) head h"

definition list_del_between :: "addr \<Rightarrow> addr \<Rightarrow> lheap \<Rightarrow> lheap" where
  "list_del_between prev nxt h = set_next prev nxt (set_prev nxt prev h)"

definition list_del :: "addr \<Rightarrow> lheap \<Rightarrow> lheap" where
  "list_del entry h =
    (let h = list_del_between (l_prev h entry) (l_next h entry) h;
         h = set_next entry LIST_POISON1 h
     in set_prev entry LIST_POISON2 h)"

definition list_replace :: "addr \<Rightarrow> addr \<Rightarrow> lheap \<Rightarrow> lheap" where
  "list_replace old new_one h =
    (let h = set_next new_one (l_next h old) h;
         h = set_prev (l_next h new_one) new_one h;
         h = set_prev new_one (l_prev h old) h
     in set_next (l_prev h new_one) new_one h)"

definition list_replace_init :: "addr \<Rightarrow> addr \<Rightarrow> lheap \<Rightarrow> lheap" where
  "list_replace_init old new_one h = INIT_LIST_HEAD old (list_replace old new_one h)"

definition list_del_init :: "addr \<Rightarrow> lheap \<Rightarrow> lheap" where
  "list_del_init entry h = INIT_LIST_HEAD entry (list_del_between (l_prev h entry) (l_next h entry) h)"

definition list_move :: "addr \<Rightarrow> addr \<Rightarrow> lheap \<Rightarrow> lheap" where
  "list_move l head h = list_add l head (list_del_between (l_prev h l) (l_next h l) h)"

definition list_move_tail :: "addr \<Rightarrow> addr \<Rightarrow> lheap \<Rightarrow> lheap" where
  "list_move_tail l head h = list_add_tail l head (list_del_between (l_prev h l) (l_next h l) h)"

definition list_is_last :: "addr \<Rightarrow> addr \<Rightarrow> lheap \<Rightarrow> bool" where
  "list_is_last l head h \<longleftrightarrow> l_next h l = head"

definition list_empty :: "addr \<Rightarrow> lheap \<Rightarrow> bool" where
  "list_empty head h \<longleftrightarrow> l_next h head = head"

definition list_empty_careful :: "addr \<Rightarrow> lheap \<Rightarrow> bool" where
  "list_empty_careful head h \<longleftrightarrow> (let nxt = l_next h head in nxt = head \<and> nxt = l_prev h head)"

definition list_is_singular :: "addr \<Rightarrow> lheap \<Rightarrow> bool" where
  "list_is_singular head h \<longleftrightarrow> \<not> list_empty head h \<and> l_next h head = l_prev h head"

definition list_cut_at :: "addr \<Rightarrow> addr \<Rightarrow> addr \<Rightarrow> lheap \<Rightarrow> lheap" where
  "list_cut_at l head entry h =
    (let new_first = l_next h entry;
         h = set_next l (l_next h head) h;
         h = set_prev (l_next h l) l h;
         h = set_prev l entry h;
         h = set_next entry l h;
         h = set_next head new_first h
     in set_prev new_first head h)"

definition list_cut_position :: "addr \<Rightarrow> addr \<Rightarrow> addr \<Rightarrow> lheap \<Rightarrow> lheap" where
  "list_cut_position l head entry h =
    (if list_empty head h then h
     else if list_is_singular head h \<and> l_next h head \<noteq> entry \<and> head \<noteq> entry then h
     else if entry = head then INIT_LIST_HEAD l h
     else list_cut_at l head entry h)"

definition list_splice_between :: "addr \<Rightarrow> addr \<Rightarrow> addr \<Rightarrow> lheap \<Rightarrow> lheap" where
  "list_splice_between l prev nxt h =
    (let first = l_next h l; last = l_prev h l;
         h = set_prev first prev h;
         h = set_next prev first h;
         h = set_next last nxt h
     in set_prev nxt last h)"

definition list_splice :: "addr \<Rightarrow> addr \<Rightarrow> lheap \<Rightarrow> lheap" where
  "list_splice l head h =
    (if \<not> list_empty l h then list_splice_between l head (l_next h head) h else h)"

definition list_splice_tail :: "addr \<Rightarrow> addr \<Rightarrow> lheap \<Rightarrow> lheap" where
  "list_splice_tail l head h =
    (if \<not> list_empty l h then list_splice_between l (l_prev h head) head h else h)"

definition list_splice_init :: "addr \<Rightarrow> addr \<Rightarrow> lheap \<Rightarrow> lheap" where
  "list_splice_init l head h =
    (if \<not> list_empty l h then INIT_LIST_HEAD l (list_splice_between l head (l_next h head) h) else h)"

definition list_splice_tail_init :: "addr \<Rightarrow> addr \<Rightarrow> lheap \<Rightarrow> lheap" where
  "list_splice_tail_init l head h =
    (if \<not> list_empty l h then INIT_LIST_HEAD l (list_splice_between l (l_prev h head) head h) else h)"

section \<open>Chains of nodes\<close>

fun links :: "lheap \<Rightarrow> addr list \<Rightarrow> bool" where
  "links h (a # b # r) \<longleftrightarrow> l_next h a = b \<and> l_prev h b = a \<and> links h (b # r)"
| "links h _ \<longleftrightarrow> True"

text \<open>The circular list at \<open>head\<close> holds the nodes \<open>xs\<close> in this order.\<close>

definition is_list :: "lheap \<Rightarrow> addr \<Rightarrow> addr list \<Rightarrow> bool" where
  "is_list h head xs \<longleftrightarrow> distinct (head # xs) \<and> links h (head # xs @ [head])"

lemma links_append: "links h (xs @ a # ys) \<longleftrightarrow> links h (xs @ [a]) \<and> links h (a # ys)"
proof (induction xs)
  case (Cons x xs)
  then show ?case by (cases xs) auto
qed simp

lemma links_set_next: "a \<notin> set (butlast xs) \<Longrightarrow> links (set_next a v h) xs = links h xs"
  by (induction h xs rule: links.induct) (auto simp: set_next_def split: if_splits)

lemma links_set_prev: "a \<notin> set (tl xs) \<Longrightarrow> links (set_prev a v h) xs = links h xs"
  by (induction h xs rule: links.induct) (auto simp: set_prev_def)

lemma field_simps_upd [simp]:
  "l_next (set_next a v h) b = (if b = a then v else l_next h b)" "l_prev (set_next a v h) = l_prev h"
  "l_prev (set_prev a v h) b = (if b = a then v else l_prev h b)" "l_next (set_prev a v h) = l_next h"
  by (simp_all add: set_next_def set_prev_def)

lemma links_between:
  assumes "links h (ps @ [p])" "links h (n # ns)" "p \<notin> set ps" "n \<notin> set (tl (ps @ [p]))"
    "n \<notin> set ns" "p \<notin> set (butlast (n # ns))"
  shows "links (list_del_between p n h) (ps @ p # n # ns)"
proof -
  have "links (list_del_between p n h) (ps @ [p])"
    using assms by (simp add: list_del_between_def links_set_next links_set_prev)
  moreover have "links (list_del_between p n h) (n # ns)"
    using assms by (simp add: list_del_between_def links_set_next links_set_prev)
  ultimately show ?thesis
    by (subst links_append) (simp add: list_del_between_def)
qed

text \<open>The neighbours of a position in a circular list.\<close>

lemma is_list_split:
  assumes "is_list h head (xs @ ys)"
  shows "l_next h (last (head # xs)) = hd (ys @ [head])" and "l_prev h (hd (ys @ [head])) = last (head # xs)"
proof -
  obtain ps p where p: "head # xs = ps @ [p]" by (metis list.distinct(1) rev_exhaust)
  obtain n ns where n: "ys @ [head] = n # ns" by (cases ys) auto
  have "links h (ps @ p # n # ns)"
    using assms p n by (metis append.assoc append_Cons append_Nil is_list_def)
  then have "links h (p # n # ns)" by (subst (asm) links_append) simp
  then show "l_next h (last (head # xs)) = hd (ys @ [head])" "l_prev h (hd (ys @ [head])) = last (head # xs)"
    using p n by auto
qed

lemma is_list_cong:
  assumes "\<And>a. a \<in> set (head # xs) \<Longrightarrow> l_next h' a = l_next h a \<and> l_prev h' a = l_prev h a"
  shows "is_list h' head xs = is_list h head xs"
proof -
  have "links h' zs = links h zs" if "set zs \<subseteq> set (head # xs)" for zs
    using that assms by (induction h' zs rule: links.induct) auto
  from this [of "head # xs @ [head]"] show ?thesis by (simp add: is_list_def)
qed

text \<open>The two halves of a circular list at a position, as open chains.\<close>

lemma is_list_halves:
  assumes "is_list h head (xs @ ys)"
  obtains ps p n ns where "head # xs = ps @ [p]" "ys @ [head] = n # ns"
    "p = last (head # xs)" "n = hd (ys @ [head])"
    "links h (ps @ [p])" "links h (n # ns)" "p \<notin> set ps" "n \<notin> set xs" "n \<notin> set ns" "p \<notin> set ys"
    "tl (ps @ [p]) = xs" "butlast (n # ns) = ys"
proof -
  have d: "distinct (head # xs @ ys)" and l: "links h (head # xs @ ys @ [head])"
    using assms by (auto simp: is_list_def)
  obtain ps p where p: "head # xs = ps @ [p]" by (metis list.distinct(1) rev_exhaust)
  obtain n ns where n: "ys @ [head] = n # ns" by (cases ys) auto
  have "p \<in> set (head # xs)" using p by simp
  then have pys: "p \<notin> set ys" using d by auto
  have "distinct (ps @ [p])" using d p by (metis append_Cons distinct_append)
  then have pps: "p \<notin> set ps" by simp
  have nxs: "n \<notin> set xs" "n \<notin> set ns" using n d by (cases ys; auto)+
  have "links h (ps @ p # n # ns)" using l p n by (metis append.assoc append_Cons append_Nil)
  then have "links h (ps @ [p])" "links h (p # n # ns)" using links_append [of h ps p "n # ns"] by blast+
  then have ll: "links h (ps @ [p])" "links h (n # ns)" by auto
  have t: "tl (ps @ [p]) = xs" "butlast (n # ns) = ys" "p = last (head # xs)" "n = hd (ys @ [head])"
    using arg_cong [OF p, of tl] arg_cong [OF n, of butlast] arg_cong [OF p, of last] arg_cong [OF n, of hd]
    by simp_all
  show thesis
    by (rule that [OF p n t(3,4) ll pps nxs pys t(1,2)])
qed

lemma list_add_between_alt: "list_add_between e p n h = list_del_between p e (list_del_between e n h)"
  by (simp add: list_add_between_def list_del_between_def Let_def)

lemma links_frame: "p \<notin> set (butlast xs) \<Longrightarrow> n \<notin> set (tl xs) \<Longrightarrow> links (list_del_between p n h) xs = links h xs"
  by (simp add: list_del_between_def links_set_next links_set_prev)

lemma insert_between:
  assumes "is_list h head (xs @ ys)" and "e \<notin> set (head # xs @ ys)"
  shows "is_list (list_add_between e (last (head # xs)) (hd (ys @ [head])) h) head (xs @ e # ys)"
proof -
  from assms(1) obtain ps p n ns where c: "head # xs = ps @ [p]" "ys @ [head] = n # ns"
    "p = last (head # xs)" "n = hd (ys @ [head])"
    "links h (ps @ [p])" "links h (n # ns)" "p \<notin> set ps" "n \<notin> set xs" "n \<notin> set ns" "p \<notin> set ys"
    "tl (ps @ [p]) = xs" "butlast (n # ns) = ys" by (rule is_list_halves)
  let ?h1 = "list_del_between e n h"
  have e: "e \<notin> set (ps @ [p])" "e \<notin> set (n # ns)"
    using assms(2) unfolding c(1,2) [symmetric] by auto
  have ns: "set (butlast (n # ns)) = set ys" by (simp only: c(12))
  have "links ?h1 (e # n # ns)"
    using links_between [of h "[]" e n ns] c(6,9) e ns assms(2) by auto
  moreover have "links ?h1 (ps @ [p])"
    using c(5,8,11) e by (subst links_frame) auto
  ultimately have "links (list_del_between p e ?h1) (ps @ p # e # n # ns)"
    using c(7,10,11) e ns assms(2) by (intro links_between) auto
  moreover have "ps @ p # e # n # ns = head # xs @ e # ys @ [head]"
    using c(1,2) by (metis append.assoc append_Cons append_Nil)
  ultimately have "links (list_del_between p e ?h1) (head # xs @ e # ys @ [head])" by simp
  moreover have "distinct (head # xs @ e # ys)" using assms by (auto simp: is_list_def)
  ultimately show ?thesis
    unfolding is_list_def list_add_between_alt c(3) [symmetric] c(4) [symmetric] by simp
qed

lemma delete_between:
  assumes "is_list h head (xs @ e # ys)"
  shows "is_list (list_del_between (last (head # xs)) (hd (ys @ [head])) h) head (xs @ ys)"
proof -
  obtain ps p where c: "head # xs = ps @ [p]" "p = last (head # xs)"
    "links h (ps @ [p])" "p \<notin> set ps" "tl (ps @ [p]) = xs"
    by (rule is_list_halves [OF assms])
  have a2: "is_list h head ((xs @ [e]) @ ys)" using assms by simp
  obtain n ns where
    d: "ys @ [head] = n # ns" "n = hd (ys @ [head])" "links h (n # ns)" "n \<notin> set (xs @ [e])" "n \<notin> set ns"
      "butlast (n # ns) = ys"
    by (rule is_list_halves [OF a2])
  have "p \<in> set (head # xs)" using c(1) by simp
  then have "p \<notin> set ys" using assms by (auto simp: is_list_def)
  then have "links (list_del_between p n h) (ps @ p # n # ns)"
    using c(3-5) d(3-5) by (intro links_between) (simp_all only: d(6) c(5), simp_all)
  moreover have "ps @ p # n # ns = head # xs @ ys @ [head]"
    using c(1) d(1) by (metis append.assoc append_Cons append_Nil)
  ultimately have "links (list_del_between p n h) (head # xs @ ys @ [head])" by simp
  moreover have "distinct (head # xs @ ys)" using assms by (auto simp: is_list_def)
  ultimately show ?thesis
    unfolding is_list_def c(2) [symmetric] d(2) [symmetric] by simp
qed

section \<open>What each operation does\<close>

lemma INIT_is_list: "is_list (INIT_LIST_HEAD l h) l []"
  by (simp add: is_list_def INIT_LIST_HEAD_def)

lemma list_add_spec: "is_list h head xs \<Longrightarrow> e \<notin> set (head # xs) \<Longrightarrow> is_list (list_add e head h) head (e # xs)"
  using insert_between [of h head "[]" xs e] is_list_split(1) [of h head "[]" xs] by (simp add: list_add_def)

lemma list_add_tail_spec:
  "is_list h head xs \<Longrightarrow> e \<notin> set (head # xs) \<Longrightarrow> is_list (list_add_tail e head h) head (xs @ [e])"
  using insert_between [of h head xs "[]" e] is_list_split(2) [of h head xs "[]"] by (simp add: list_add_tail_def)

lemma neighbours:
  assumes "is_list h head (xs @ e # ys)"
  shows "l_prev h e = last (head # xs)" and "l_next h e = hd (ys @ [head])"
  using is_list_split(2) [of h head xs "e # ys"] is_list_split(1) [of h head "xs @ [e]" ys] assms by auto

lemma unlink_spec:
  "is_list h head (xs @ e # ys) \<Longrightarrow> is_list (list_del_between (l_prev h e) (l_next h e) h) head (xs @ ys)"
  by (simp only: neighbours delete_between)

lemma unlink_frame:
  assumes "is_list h head (xs @ e # ys)" and "a \<notin> set (head # xs @ ys)"
  shows "l_next (list_del_between (l_prev h e) (l_next h e) h) a = l_next h a"
    and "l_prev (list_del_between (l_prev h e) (l_next h e) h) a = l_prev h a"
proof -
  have "last (head # xs) \<in> set (head # xs)" "hd (ys @ [head]) \<in> set (head # ys)"
    by (simp, cases ys, simp_all)
  with assms(2) show "l_next (list_del_between (l_prev h e) (l_next h e) h) a = l_next h a"
    "l_prev (list_del_between (l_prev h e) (l_next h e) h) a = l_prev h a"
    by (auto simp: list_del_between_def neighbours [OF assms(1)] split: if_splits)
qed

lemma list_del_spec:
  assumes "is_list h head (xs @ e # ys)"
  shows "is_list (list_del e h) head (xs @ ys)" and "l_next (list_del e h) e = LIST_POISON1"
    and "l_prev (list_del e h) e = LIST_POISON2"
proof -
  have e: "e \<notin> set (head # xs @ ys)" using assms by (auto simp: is_list_def)
  have "is_list (list_del e h) head (xs @ ys) = is_list (list_del_between (l_prev h e) (l_next h e) h) head (xs @ ys)"
    by (rule is_list_cong) (use e in \<open>auto simp: list_del_def\<close>)
  then show "is_list (list_del e h) head (xs @ ys)" using unlink_spec [OF assms] by simp
qed (simp_all add: list_del_def Let_def)

lemma list_del_init_spec:
  assumes "is_list h head (xs @ e # ys)"
  shows "is_list (list_del_init e h) head (xs @ ys)" and "is_list (list_del_init e h) e []"
proof -
  have e: "e \<notin> set (head # xs @ ys)" using assms by (auto simp: is_list_def)
  have "is_list (list_del_init e h) head (xs @ ys) = is_list (list_del_between (l_prev h e) (l_next h e) h) head (xs @ ys)"
    by (rule is_list_cong) (use e in \<open>auto simp: list_del_init_def INIT_LIST_HEAD_def\<close>)
  then show "is_list (list_del_init e h) head (xs @ ys)" using unlink_spec [OF assms] by simp
qed (simp add: list_del_init_def INIT_is_list)

lemma list_empty_iff: "is_list h head xs \<Longrightarrow> list_empty head h \<longleftrightarrow> xs = []"
  by (cases xs) (auto simp: is_list_def list_empty_def)

lemma list_empty_careful_iff: "is_list h head xs \<Longrightarrow> list_empty_careful head h \<longleftrightarrow> xs = []"
  by (cases xs) (auto simp: is_list_def list_empty_careful_def)

lemma list_is_last_iff:
  "is_list h head (xs @ e # ys) \<Longrightarrow> list_is_last e head h \<longleftrightarrow> ys = []"
  using neighbours(2) [of h head xs e ys] by (cases ys) (auto simp: is_list_def list_is_last_def)

lemma list_is_singular_iff: "is_list h head xs \<Longrightarrow> list_is_singular head h \<longleftrightarrow> length xs = 1"
proof -
  assume l: "is_list h head xs"
  have "l_prev h head = last (head # xs)" using is_list_split(2) [of h head xs "[]"] l by simp
  moreover have "l_next h head = hd (xs @ [head])" using is_list_split(1) [of h head "[]" xs] l by simp
  moreover have "distinct (head # xs)" using l by (simp add: is_list_def)
  ultimately show ?thesis
    using list_empty_iff [OF l] by (cases xs) (auto simp: list_is_singular_def)
qed

text \<open>Moving a node to the front or the back of its own list, or of another one.\<close>

lemma list_move_same:
  assumes "is_list h head (xs @ e # ys)"
  shows "is_list (list_move e head h) head (e # xs @ ys)" and "is_list (list_move_tail e head h) head (xs @ ys @ [e])"
proof -
  have "e \<notin> set (head # xs @ ys)" using assms by (auto simp: is_list_def)
  with unlink_spec [OF assms] show "is_list (list_move e head h) head (e # xs @ ys)"
    "is_list (list_move_tail e head h) head (xs @ ys @ [e])"
    unfolding list_move_def list_move_tail_def
    using list_add_spec list_add_tail_spec by (blast, metis append.assoc)
qed

lemma add_frame:
  assumes "a \<notin> {e, p, n}"
  shows "l_next (list_add_between e p n h) a = l_next h a" "l_prev (list_add_between e p n h) a = l_prev h a"
  using assms by (simp_all add: list_add_between_def Let_def)

lemma list_move_other:
  assumes l: "is_list h head (xs @ e # ys)" and o: "is_list h head2 zs"
    and dis: "set (head # xs @ e # ys) \<inter> set (head2 # zs) = {}"
  shows "is_list (list_move e head2 h) head (xs @ ys)" and "is_list (list_move e head2 h) head2 (e # zs)"
proof -
  let ?h = "list_del_between (l_prev h e) (l_next h e) h"
  have o1: "is_list ?h head2 zs = is_list h head2 zs"
    by (rule is_list_cong) (use dis in \<open>auto intro!: unlink_frame [OF l]\<close>)
  have e: "e \<notin> set (head2 # zs)" using dis by auto
  show "is_list (list_move e head2 h) head2 (e # zs)"
    unfolding list_move_def using list_add_spec [OF _ e, of ?h] o1 o by simp
  have n: "l_next ?h head2 = hd (zs @ [head2])" using is_list_split(1) [of ?h head2 "[]" zs] o1 o by simp
  have "hd (zs @ [head2]) \<in> set (head2 # zs)" by (cases zs) auto
  then have "is_list (list_move e head2 h) head (xs @ ys) = is_list ?h head (xs @ ys)"
    unfolding list_move_def list_add_def n
    by (intro is_list_cong conjI add_frame) (use dis l in \<open>auto simp: is_list_def\<close>)
  then show "is_list (list_move e head2 h) head (xs @ ys)" using unlink_spec [OF l] by simp
qed

text \<open>Replacing a node by a fresh one.\<close>

lemma list_replace_spec:
  assumes l: "is_list h head (xs @ old # ys)" and f: "new \<notin> set (head # xs @ old # ys)"
  shows "is_list (list_replace old new h) head (xs @ new # ys)"
proof -
  let ?p = "l_prev h old" and ?n = "l_next h old"
  have pn: "?p \<noteq> new" "?n \<noteq> new" "?p \<noteq> old" "?n \<noteq> old"
    using f l neighbours [OF l] by (cases ys; cases "xs = []"; auto simp: is_list_def)+
  have "list_replace old new h = list_add_between new ?p ?n h"
    using pn by (simp add: list_replace_def list_add_between_def Let_def set_next_def set_prev_def fun_upd_twist)
  also have "\<dots> = list_add_between new ?p ?n (list_del_between ?p ?n h)"
    by (simp add: list_del_between_def list_add_between_def Let_def set_next_def set_prev_def)
  finally show ?thesis
    using insert_between [of "list_del_between ?p ?n h" head xs ys new] unlink_spec [OF l] f
    by (simp add: neighbours [OF l])
qed

text \<open>Splicing the nodes of one list into another at a position.\<close>

lemma splice_between:
  assumes l: "is_list h head (as @ bs)" and o: "is_list h l (ys @ [z])"
    and dis: "set (head # as @ bs) \<inter> set (l # ys @ [z]) = {}"
  shows "is_list (list_splice_between l (last (head # as)) (hd (bs @ [head])) h) head (as @ ys @ z # bs)"
proof -
  obtain ps p n ns where c: "head # as = ps @ [p]" "bs @ [head] = n # ns"
    "p = last (head # as)" "n = hd (bs @ [head])"
    "links h (ps @ [p])" "links h (n # ns)" "p \<notin> set ps" "n \<notin> set as" "n \<notin> set ns" "p \<notin> set bs"
    "tl (ps @ [p]) = as" "butlast (n # ns) = bs" by (rule is_list_halves [OF l])
  obtain f rest where f: "ys @ [z] = f # rest" by (cases ys) auto
  have fz: "last (f # rest) = z" using f by (metis last_snoc)
  have first: "l_next h l = f" "l_prev h l = z"
    using is_list_split(1) [of h l "[]" "ys @ [z]"] is_list_split(2) [of h l "ys @ [z]" "[]"] o f fz by simp_all
  let ?h1 = "list_del_between p f h"
  have eq: "list_splice_between l p n h = list_del_between z n ?h1"
    by (simp add: list_splice_between_def list_del_between_def Let_def first set_next_def set_prev_def)
  have lo: "links h (l # (ys @ [z]) @ [l])" using o by (simp add: is_list_def)
  then have "links h (l # ys @ [z])"
    using links_append [of h "l # ys" z "[l]"] by simp
  then have lf: "links h (f # rest)" by (simp add: f)
  have sets: "set (ps @ [p]) = set (head # as)" "set (n # ns) = set (head # bs)" "set (f # rest) = set (ys @ [z])"
    unfolding c(1) [symmetric] c(2) [symmetric] f [symmetric] by auto
  have dy: "distinct (f # rest)" using o f unfolding is_list_def by (metis distinct.simps(2))
  have fr: "f \<notin> set (ps @ [p])" "f \<notin> set (n # ns)" "z \<notin> set (ps @ [p])" "z \<notin> set (n # ns)"
      "p \<notin> set (f # rest)" "n \<notin> set (f # rest)"
    using dis sets by auto
  have 1: "links ?h1 (ps @ p # f # rest)"
    using c(5,7) lf dy fr by (intro links_between) (auto dest: in_set_butlastD list.set_sel(2) [rotated])
  have 2: "links ?h1 (n # ns)"
    using c(6,10,12) fr by (subst links_frame) auto
  have tl1: "set (tl ((ps @ p # ys) @ [z])) = set as \<union> set (ys @ [z])"
    using c(11) by (cases ps) auto
  have "links (list_del_between z n ?h1) ((ps @ p # ys) @ z # n # ns)"
  proof (rule links_between)
    show "links ?h1 ((ps @ p # ys) @ [z])" using 1 f by simp
    show "links ?h1 (n # ns)" by (rule 2)
    show "z \<notin> set (ps @ p # ys)" using fr o by (auto simp: is_list_def)
    show "n \<notin> set (tl ((ps @ p # ys) @ [z]))" unfolding tl1 using c(8) fr sets(3) by auto
    show "n \<notin> set ns" by (rule c(9))
    show "z \<notin> set (butlast (n # ns))" unfolding c(12) using dis by auto
  qed
  moreover have "(ps @ p # ys) @ z # n # ns = head # as @ ys @ z # bs @ [head]"
    using c(1,2) by (metis append.assoc append_Cons append_Nil)
  ultimately have "links (list_splice_between l p n h) (head # as @ ys @ z # bs @ [head])" unfolding eq by simp
  moreover have "distinct (head # as @ ys @ z # bs)" using l o dis by (auto simp: is_list_def)
  ultimately show ?thesis unfolding is_list_def c(3) [symmetric] c(4) [symmetric] by simp
qed

lemma splice_frame:
  assumes l: "is_list h head (as @ bs)" and o: "is_list h l (ys @ [z])"
    and a: "a \<notin> set (head # as @ bs)" "a \<notin> set (ys @ [z])"
  shows "l_next (list_splice_between l (last (head # as)) (hd (bs @ [head])) h) a = l_next h a"
    and "l_prev (list_splice_between l (last (head # as)) (hd (bs @ [head])) h) a = l_prev h a"
proof -
  have "l_next h l \<in> set (ys @ [z])" "l_prev h l = z"
    using is_list_split(1) [of h l "[]" "ys @ [z]"] is_list_split(2) [of h l "ys @ [z]" "[]"] o
    by (cases ys; simp)+
  moreover have "last (head # as) \<in> set (head # as)" "hd (bs @ [head]) \<in> set (head # bs)"
    by (simp, cases bs, simp_all)
  ultimately show "l_next (list_splice_between l (last (head # as)) (hd (bs @ [head])) h) a = l_next h a"
    "l_prev (list_splice_between l (last (head # as)) (hd (bs @ [head])) h) a = l_prev h a"
    using a by (auto simp: list_splice_between_def Let_def split: if_splits)
qed

lemma list_splice_spec:
  assumes l: "is_list h head xs" and o: "is_list h l ys" and dis: "set (head # xs) \<inter> set (l # ys) = {}"
  shows "is_list (list_splice l head h) head (ys @ xs)" and "is_list (list_splice_tail l head h) head (xs @ ys)"
proof -
  have n: "l_next h head = hd (xs @ [head])" "l_prev h head = last (head # xs)"
    using is_list_split(1) [of h head "[]" xs] is_list_split(2) [of h head xs "[]"] l by simp_all
  show "is_list (list_splice l head h) head (ys @ xs)" "is_list (list_splice_tail l head h) head (xs @ ys)"
    using list_empty_iff [OF o] splice_between [of h head "[]" xs l] splice_between [of h head xs "[]" l] l o dis
    by (cases ys rule: rev_cases; simp add: list_splice_def list_splice_tail_def n)+
qed

lemma list_splice_init_spec:
  assumes l: "is_list h head xs" and o: "is_list h l ys" and dis: "set (head # xs) \<inter> set (l # ys) = {}"
  shows "is_list (list_splice_init l head h) head (ys @ xs) \<and> is_list (list_splice_init l head h) l []"
    and "is_list (list_splice_tail_init l head h) head (xs @ ys) \<and> is_list (list_splice_tail_init l head h) l []"
proof -
  have i: "is_list (INIT_LIST_HEAD l g) head zs = is_list g head zs" if "l \<notin> set (head # zs)" for g zs
    by (rule is_list_cong) (use that in \<open>auto simp: INIT_LIST_HEAD_def\<close>)
  have nin: "l \<notin> set (head # ys @ xs)" "l \<notin> set (head # xs @ ys)" using dis o by (auto simp: is_list_def)
  show "is_list (list_splice_init l head h) head (ys @ xs) \<and> is_list (list_splice_init l head h) l []"
    using list_splice_spec(1) [OF l o dis] o list_empty_iff [OF o] i [OF nin(1)]
    by (auto simp: list_splice_init_def list_splice_def INIT_is_list split: if_splits)
  show "is_list (list_splice_tail_init l head h) head (xs @ ys) \<and> is_list (list_splice_tail_init l head h) l []"
    using list_splice_spec(2) [OF l o dis] o list_empty_iff [OF o] i [OF nin(2)]
    by (auto simp: list_splice_tail_init_def list_splice_tail_def INIT_is_list split: if_splits)
qed

lemma links_cons:
  "links h (n # ns) \<Longrightarrow> n \<notin> set ns \<Longrightarrow> p \<notin> set (butlast (n # ns)) \<Longrightarrow>
    links (list_del_between p n h) (p # n # ns)"
  using links_between [of h "[]" p n ns] by simp

text \<open>Cutting a list after a node.\<close>

lemma list_cut_at_alt:
  assumes "entry \<noteq> l" and "l_next h head \<noteq> l" and "l_next h entry \<noteq> l" and "head \<noteq> l"
  shows "list_cut_at l head entry h = list_del_between head (l_next h entry)
    (list_del_between entry l (list_del_between l (l_next h head) h))"
  using assms by (simp add: list_cut_at_def list_del_between_def Let_def set_next_def set_prev_def)

lemma list_cut_position_spec:
  assumes l: "is_list h head (xs @ e # ys)" and f: "l \<notin> set (head # xs @ e # ys)"
  shows "is_list (list_cut_position l head e h) l (xs @ [e])" and "is_list (list_cut_position l head e h) head ys"
proof -
  have l2: "is_list h head ((xs @ [e]) @ ys)" using l by simp
  obtain n ns where d: "ys @ [head] = n # ns" "n = hd (ys @ [head])" "links h (n # ns)" "n \<notin> set (xs @ [e])"
      "n \<notin> set ns" "butlast (n # ns) = ys"
    by (rule is_list_halves [OF l2])
  obtain g rest where g: "xs @ [e] = g # rest" by (cases xs) auto
  have "is_list h head ([] @ (g # rest) @ ys)" using l2 unfolding g by simp
  from is_list_split(1) [OF this] have nb1: "l_next h head = g" by simp
  have nb2: "l_next h e = n" using is_list_split(1) [OF l2] d(2) by simp
  note nb = nb1 nb2
  have dist: "distinct (head # (g # rest) @ ys)" using l2 g by (simp add: is_list_def)
  have sets: "set (n # ns) = set (head # ys)" "set (g # rest) = set (xs @ [e])"
    unfolding d(1) [symmetric] g [symmetric] by auto
  have lg: "links h (g # rest)"
  proof -
    have "links h ((head # xs) @ e # ys @ [head])" using l by (simp add: is_list_def)
    then have "links h (head # g # rest)" using links_append [of h "head # xs" e "ys @ [head]"] g by simp
    then show ?thesis by simp
  qed
  let ?h1 = "list_del_between l g h" and ?h2 = "list_del_between e l (list_del_between l g h)"
  let ?h3 = "list_del_between head n ?h2"
  have fresh: "l \<notin> set (g # rest)" "l \<notin> set (n # ns)" "g \<notin> set (n # ns)" "e \<notin> set (n # ns)" "head \<notin> set (g # rest)"
      "head \<notin> set ys" "n \<notin> set (g # rest)"
    using f dist sets d(4) l by (auto simp: is_list_def)
  have "links ?h1 (l # g # rest)"
    by (rule links_cons [OF lg]) (use fresh(1) dist in \<open>auto dest: in_set_butlastD simp del: butlast.simps\<close>)
  then have a1: "links ?h1 ((l # xs) @ [e])" using g by simp
  have "links ?h2 ((l # xs) @ e # l # [])"
    by (rule links_between [OF a1]) (use f l in \<open>auto simp: is_list_def\<close>)
  moreover have "head \<notin> set ((l # xs) @ e # l # [])" "n \<notin> set (tl ((l # xs) @ e # l # []))"
    using f l d(4) fresh(2) by (auto simp: is_list_def)
  ultimately have a2: "links ?h3 ((l # xs) @ e # l # [])"
    using links_frame in_set_butlastD by metis
  have "links ?h1 (n # ns)"
    using links_frame [of l "n # ns" g h] d(3,6) fresh(3) f by auto
  then have "links ?h2 (n # ns)"
    using links_frame [of e "n # ns" l ?h1] d(6) fresh(2) l by (auto simp: is_list_def)
  then have b: "links ?h3 (head # n # ns)"
    by (rule links_cons) (use d(5,6) fresh(6) in simp_all)
  have cut: "list_cut_position l head e h = ?h3"
  proof -
    have ne: "head \<noteq> e" "\<not> list_empty head h" using l list_empty_iff [OF l] by (auto simp: is_list_def)
    have "list_is_singular head h \<Longrightarrow> l_next h head = e"
      using list_is_singular_iff [OF l] nb1 g by (cases xs) auto
    moreover have "list_cut_at l head e h = ?h3"
      using list_cut_at_alt [of e l h head] f nb fresh by auto
    ultimately show ?thesis using ne by (auto simp: list_cut_position_def)
  qed
  show "is_list (list_cut_position l head e h) l (xs @ [e])"
    unfolding cut is_list_def using a2 f l by (auto simp: is_list_def)
  have "head # n # ns = head # ys @ [head]" using d(1) by simp
  then show "is_list (list_cut_position l head e h) head ys"
    unfolding cut is_list_def using b dist by auto
qed

section \<open>Runs of list operations\<close>

datatype lop =
    LAdd addr
  | LAddTail addr
  | LDel addr
  | LMove addr
  | LMoveTail addr
  | LReplace addr addr

definition lop_heap :: "addr \<Rightarrow> lop \<Rightarrow> lheap \<Rightarrow> lheap" where
  "lop_heap head c h = (case c of
     LAdd e \<Rightarrow> list_add e head h
   | LAddTail e \<Rightarrow> list_add_tail e head h
   | LDel e \<Rightarrow> list_del e h
   | LMove e \<Rightarrow> list_move e head h
   | LMoveTail e \<Rightarrow> list_move_tail e head h
   | LReplace old new \<Rightarrow> list_replace old new h)"

definition lop_list :: "lop \<Rightarrow> addr list \<Rightarrow> addr list" where
  "lop_list c xs = (case c of
     LAdd e \<Rightarrow> e # xs
   | LAddTail e \<Rightarrow> xs @ [e]
   | LDel e \<Rightarrow> remove1 e xs
   | LMove e \<Rightarrow> e # remove1 e xs
   | LMoveTail e \<Rightarrow> remove1 e xs @ [e]
   | LReplace old new \<Rightarrow> map (\<lambda>x. if x = old then new else x) xs)"

definition lop_pre :: "addr \<Rightarrow> lop \<Rightarrow> addr list \<Rightarrow> bool" where
  "lop_pre head c xs = (case c of
     LAdd e \<Rightarrow> e \<notin> set (head # xs)
   | LAddTail e \<Rightarrow> e \<notin> set (head # xs)
   | LDel e \<Rightarrow> e \<in> set xs
   | LMove e \<Rightarrow> e \<in> set xs
   | LMoveTail e \<Rightarrow> e \<in> set xs
   | LReplace old new \<Rightarrow> old \<in> set xs \<and> new \<notin> set (head # xs))"

fun lops_pre :: "addr \<Rightarrow> lop list \<Rightarrow> addr list \<Rightarrow> bool" where
  "lops_pre head [] xs \<longleftrightarrow> True"
| "lops_pre head (c # cs) xs \<longleftrightarrow> lop_pre head c xs \<and> lops_pre head cs (lop_list c xs)"

lemma remove1_middle: "distinct (xs @ e # ys) \<Longrightarrow> remove1 e (xs @ e # ys) = xs @ ys"
  by (induction xs) auto

lemma lop_sim:
  assumes l: "is_list h head xs" and pre: "lop_pre head c xs"
  shows "is_list (lop_heap head c h) head (lop_list c xs)"
proof -
  have split: "\<exists>as bs. xs = as @ e # bs \<and> remove1 e xs = as @ bs" if "e \<in> set xs" for e
  proof -
    from split_list [OF that] obtain as bs where "xs = as @ e # bs" by blast
    then show ?thesis using l remove1_middle [of as e bs] by (auto simp: is_list_def)
  qed
  show ?thesis
  proof (cases c)
    case (LReplace old new)
    with pre have "old \<in> set xs" by (simp add: lop_pre_def)
    from split [OF this] obtain as bs where s: "xs = as @ old # bs" by blast
    then have "map (\<lambda>x. if x = old then new else x) xs = as @ new # bs"
      using l by (auto simp: is_list_def intro!: map_idI)
    then show ?thesis
      using LReplace s pre l list_replace_spec [of h head as old bs new] by (simp add: lop_heap_def lop_list_def lop_pre_def)
  qed (use l pre split list_add_spec list_add_tail_spec list_del_spec(1) list_move_same in
      \<open>fastforce simp: lop_heap_def lop_list_def lop_pre_def\<close>)+
qed

section \<open>Properties\<close>

text \<open>
  C12. Every run of \<open>list_add\<close>, \<open>list_add_tail\<close>, \<open>list_del\<close>, \<open>list_move\<close>, \<open>list_move_tail\<close> and
  \<open>list_replace\<close> on a circular list, each applied to nodes it is meant for, keeps the list
  circular in both directions and leaves exactly the sequence of nodes that the same operations
  on a functional list give.
\<close>

theorem list_runs_refine:
  assumes "is_list h head xs" and "lops_pre head cs xs"
  shows "is_list (fold (lop_heap head) cs h) head (fold lop_list cs xs)"
  using assms
proof (induction cs arbitrary: h xs)
  case (Cons c cs)
  then show ?case using lop_sim [of h head xs c] by simp
qed simp

definition lheap0 :: lheap where "lheap0 = \<lparr> l_next = (\<lambda>_. 0), l_prev = (\<lambda>_. 0) \<rparr>"

theorem list_runs_refine_witness:
  "is_list (fold (lop_heap 1) [LAdd 5, LAddTail 6, LAdd 7, LMove 6, LDel 5, LReplace 7 8] (INIT_LIST_HEAD 1 lheap0)) 1 [6, 8]"
  using list_runs_refine [OF INIT_is_list, of 1 "[LAdd 5, LAddTail 6, LAdd 7, LMove 6, LDel 5, LReplace 7 8]" lheap0]
  by (simp add: lop_pre_def lop_list_def)

text \<open>
  \<open>list_cut_position\<close> moves the nodes up to the named one into the new list and leaves the
  rest, and \<open>list_splice_init\<close> of the cut part restores the original list and empties the other.
\<close>

theorem cut_then_splice:
  assumes "is_list h head (xs @ e # ys)" and "l \<notin> set (head # xs @ e # ys)"
  shows "is_list (list_cut_position l head e h) l (xs @ [e]) \<and> is_list (list_cut_position l head e h) head ys \<and>
    is_list (list_splice_init l head (list_cut_position l head e h)) head (xs @ e # ys) \<and>
    is_list (list_splice_init l head (list_cut_position l head e h)) l []"
proof -
  note c = list_cut_position_spec [OF assms]
  have "set (head # ys) \<inter> set (l # xs @ [e]) = {}" using assms by (auto simp: is_list_def)
  from list_splice_init_spec(1) [OF c(2,1) this] c show ?thesis by simp
qed

theorem cut_then_splice_witness:
  "is_list (list_cut_position 9 1 5 (list_add 5 1 (INIT_LIST_HEAD 1 lheap0))) 9 [5]"
proof -
  have "is_list (list_add 5 1 (INIT_LIST_HEAD 1 lheap0)) 1 ([] @ 5 # [])"
    using list_add_spec [OF INIT_is_list, of 5 1] by simp
  from cut_then_splice [OF this, of 9] show ?thesis by simp
qed

end
