(* ===== verification/HList.thy ===== *)
theory HList
  imports ListHead
begin

text \<open>
  The \<open>hlist\<close> part of \<open>bloomfilter/list.h\<close>: doubly linked lists with a single-pointer head. A
  node's \<open>pprev\<close> is the address of the field that points to the node, the \<open>first\<close> of a head or the
  \<open>next\<close> of a node; the null pointer is 0.
\<close>

section \<open>Heap and operations\<close>

datatype pref = PNull | PFirst addr | PNext addr | PPoison

record hheap =
  h_first :: "addr \<Rightarrow> addr"
  h_next :: "addr \<Rightarrow> addr"
  h_pprev :: "addr \<Rightarrow> pref"

definition set_hnext :: "addr \<Rightarrow> addr \<Rightarrow> hheap \<Rightarrow> hheap" where
  "set_hnext n v h = h\<lparr>h_next := (h_next h)(n := v)\<rparr>"

definition set_pprev :: "addr \<Rightarrow> pref \<Rightarrow> hheap \<Rightarrow> hheap" where
  "set_pprev n v h = h\<lparr>h_pprev := (h_pprev h)(n := v)\<rparr>"

definition set_first :: "addr \<Rightarrow> addr \<Rightarrow> hheap \<Rightarrow> hheap" where
  "set_first n v h = h\<lparr>h_first := (h_first h)(n := v)\<rparr>"

text \<open>\<open>*pprev\<close> read, and \<open>*pprev = v\<close>; a null or poisoned \<open>pprev\<close> faults.\<close>

definition deref :: "hheap \<Rightarrow> pref \<Rightarrow> addr" where
  "deref h r = (case r of PFirst a \<Rightarrow> h_first h a | PNext a \<Rightarrow> h_next h a | _ \<Rightarrow> 0)"

definition store :: "pref \<Rightarrow> addr \<Rightarrow> hheap \<Rightarrow> hheap result" where
  "store r v h = (case r of
     PFirst a \<Rightarrow> Inr (set_first a v h)
   | PNext a \<Rightarrow> Inr (set_hnext a v h)
   | PNull \<Rightarrow> Inl NullDeref
   | PPoison \<Rightarrow> Inl UseAfterFree)"

definition INIT_HLIST_NODE :: "addr \<Rightarrow> hheap \<Rightarrow> hheap" where
  "INIT_HLIST_NODE n h = set_pprev n PNull (set_hnext n 0 h)"

definition hlist_unhashed :: "addr \<Rightarrow> hheap \<Rightarrow> bool" where
  "hlist_unhashed n h \<longleftrightarrow> h_pprev h n = PNull"

definition hlist_empty :: "addr \<Rightarrow> hheap \<Rightarrow> bool" where
  "hlist_empty head h \<longleftrightarrow> h_first h head = 0"

definition hlist_unlink :: "addr \<Rightarrow> hheap \<Rightarrow> hheap result" where
  "hlist_unlink n h =
    (let nxt = h_next h n; pprev = h_pprev h n
     in bind_r (store pprev nxt h) (\<lambda>h.
          Inr (if nxt \<noteq> 0 then set_pprev nxt pprev h else h)))"

definition hlist_del :: "addr \<Rightarrow> hheap \<Rightarrow> hheap result" where
  "hlist_del n h = bind_r (hlist_unlink n h) (\<lambda>h. Inr (set_pprev n PPoison (set_hnext n LIST_POISON1 h)))"

definition hlist_del_init :: "addr \<Rightarrow> hheap \<Rightarrow> hheap result" where
  "hlist_del_init n h =
    (if \<not> hlist_unhashed n h then bind_r (hlist_unlink n h) (\<lambda>h. Inr (INIT_HLIST_NODE n h)) else Inr h)"

definition hlist_add_head :: "addr \<Rightarrow> addr \<Rightarrow> hheap \<Rightarrow> hheap" where
  "hlist_add_head n head h =
    (let first = h_first h head;
         h = set_hnext n first h;
         h = (if first \<noteq> 0 then set_pprev first (PNext n) h else h);
         h = set_first head n h
     in set_pprev n (PFirst head) h)"

definition hlist_add_before :: "addr \<Rightarrow> addr \<Rightarrow> hheap \<Rightarrow> hheap result" where
  "hlist_add_before n nxt h =
    (let h = set_pprev n (h_pprev h nxt) h;
         h = set_hnext n nxt h;
         h = set_pprev nxt (PNext n) h
     in store (h_pprev h n) n h)"

definition hlist_add_after :: "addr \<Rightarrow> addr \<Rightarrow> hheap \<Rightarrow> hheap" where
  "hlist_add_after n nxt h =
    (let h = set_hnext nxt (h_next h n) h;
         h = set_hnext n nxt h;
         h = set_pprev nxt (PNext n) h
     in if h_next h nxt \<noteq> 0 then set_pprev (h_next h nxt) (PNext nxt) h else h)"

definition hlist_move_list :: "addr \<Rightarrow> addr \<Rightarrow> hheap \<Rightarrow> hheap" where
  "hlist_move_list old new_one h =
    (let h = set_first new_one (h_first h old) h;
         h = (if h_first h new_one \<noteq> 0 then set_pprev (h_first h new_one) (PFirst new_one) h else h)
     in set_first old 0 h)"

section \<open>Chains\<close>

text \<open>From the field \<open>r\<close> on, the nodes \<open>xs\<close> follow and the last one points to \<open>e\<close>.\<close>

fun hpath :: "hheap \<Rightarrow> pref \<Rightarrow> addr list \<Rightarrow> addr \<Rightarrow> bool" where
  "hpath h r [] e \<longleftrightarrow> deref h r = e"
| "hpath h r (x # xs) e \<longleftrightarrow> deref h r = x \<and> x \<noteq> 0 \<and> h_pprev h x = r \<and> hpath h (PNext x) xs e"

definition is_hlist :: "hheap \<Rightarrow> addr \<Rightarrow> addr list \<Rightarrow> bool" where
  "is_hlist h head xs \<longleftrightarrow> distinct xs \<and> hpath h (PFirst head) xs 0"

text \<open>The field that points behind a prefix.\<close>

definition href :: "pref \<Rightarrow> addr list \<Rightarrow> pref" where
  "href r xs = (if xs = [] then r else PNext (last xs))"

lemma href_simps [simp]: "href r [] = r" "href r (x # xs) = href (PNext x) xs" "href r (xs @ [x]) = PNext x"
  by (auto simp: href_def)

lemma hpath_append: "hpath h r (xs @ ys) e \<longleftrightarrow> hpath h r xs (hd (ys @ [e])) \<and> hpath h (href r xs) ys e"
proof (induction xs arbitrary: r)
  case Nil
  then show ?case by (cases ys) auto
qed auto

lemma deref_simps [simp]:
  "deref (set_hnext n v h) (PNext a) = (if a = n then v else h_next h a)" "deref (set_hnext n v h) (PFirst a) = h_first h a"
  "deref (set_first n v h) (PFirst a) = (if a = n then v else h_first h a)" "deref (set_first n v h) (PNext a) = h_next h a"
  "deref (set_pprev n p h) = deref h" "deref h PNull = 0" "deref h PPoison = 0"
  by (auto simp: deref_def set_hnext_def set_first_def set_pprev_def fun_eq_iff split: pref.split)

lemma deref_PFirst [simp]: "deref h (PFirst a) = h_first h a"
  by (simp add: deref_def)

lemma pprev_simps [simp]:
  "h_pprev (set_hnext n v h) = h_pprev h" "h_pprev (set_first n v h) = h_pprev h"
  "h_pprev (set_pprev n p h) a = (if a = n then p else h_pprev h a)"
  "h_next (set_pprev n p h) = h_next h" "h_next (set_first n v h) = h_next h"
  "h_next (set_hnext n v h) a = (if a = n then v else h_next h a)"
  "h_first (set_pprev n p h) = h_first h" "h_first (set_hnext n v h) = h_first h"
  "h_first (set_first n v h) a = (if a = n then v else h_first h a)"
  by (auto simp: set_hnext_def set_first_def set_pprev_def)

lemma hpath_cong:
  "(\<And>a. a \<in> set xs \<Longrightarrow> h_pprev h' a = h_pprev h a \<and> h_next h' a = h_next h a) \<Longrightarrow>
    deref h' r = deref h r \<Longrightarrow> hpath h' r xs e = hpath h r xs e"
  by (induction xs arbitrary: r) (auto simp: deref_def)

text \<open>Only the last link of a prefix depends on where it ends.\<close>

lemma hpath_end: "hpath h r xs e \<Longrightarrow> deref h (href r xs) = e"
  by (induction xs arbitrary: r) auto

lemma hpath_snoc: "hpath h r (xs @ [x]) e \<longleftrightarrow> hpath h r xs x \<and> x \<noteq> 0 \<and> h_pprev h x = href r xs \<and> deref h (PNext x) = e"
  by (auto simp: hpath_append dest: hpath_end)

text \<open>Redirecting the end of a prefix.\<close>

lemma hpath_store:
  assumes "hpath h r xs e" and "distinct xs" and "href r xs \<noteq> PNull" "href r xs \<noteq> PPoison"
    and "\<forall>x\<in>set xs. r \<noteq> PNext x"
  obtains h' where "store (href r xs) e' h = Inr h'" "hpath h' r xs e'" "h_pprev h' = h_pprev h"
    "\<And>q. q \<noteq> href r xs \<Longrightarrow> deref h' q = deref h q"
proof -
  obtain h' where h': "store (href r xs) e' h = Inr h'" "h_pprev h' = h_pprev h"
      "\<And>q. deref h' q = (if q = href r xs then e' else deref h q)"
    using assms(3,4) by (cases "href r xs") (auto simp: store_def deref_def set_first_def set_hnext_def split: pref.split)
  have "hpath h' r xs e'"
  proof (cases xs rule: rev_cases)
    case Nil
    then show ?thesis using h'(3) by simp
  next
    case (snoc ys y)
    have "hpath h' q zs y = hpath h q zs y" if "y \<notin> set zs" "q \<noteq> PNext y" for q zs
      using that by (induction zs arbitrary: q) (auto simp: h' snoc)
    with snoc assms h' show ?thesis by (auto simp: hpath_snoc)
  qed
  with h' show thesis by (intro that [of h']) auto
qed

section \<open>What each operation does\<close>

lemma is_hlist_split:
  "is_hlist h head (xs @ ys) \<longleftrightarrow> distinct (xs @ ys) \<and> hpath h (PFirst head) xs (hd (ys @ [0])) \<and>
    hpath h (href (PFirst head) xs) ys 0"
  by (simp add: is_hlist_def hpath_append)

lemma href_valid [simp]: "href (PFirst a) xs \<noteq> PNull" "href (PFirst a) xs \<noteq> PPoison"
  by (auto simp: href_def)

lemma href_in: "href (PFirst head) xs = PNext a \<Longrightarrow> a \<in> set xs"
  by (auto simp: href_def split: if_splits)

text \<open>A suffix survives when only its first \<open>pprev\<close> and foreign fields change.\<close>

lemma hpath_rebase:
  assumes "hpath h q ys 0" and "distinct ys" and "deref h' r = hd (ys @ [0])"
    and "ys \<noteq> [] \<Longrightarrow> h_pprev h' (hd ys) = r"
    and "\<And>a. a \<in> set ys \<Longrightarrow> deref h' (PNext a) = deref h (PNext a)"
    and "\<And>a. a \<in> set (tl ys) \<Longrightarrow> h_pprev h' a = h_pprev h a"
  shows "hpath h' r ys 0"
proof (cases ys)
  case (Cons y zs)
  have "hpath h' p zs 0 = hpath h p zs 0" if "deref h' p = deref h p" for p
    using assms(5,6) that unfolding Cons
    by (intro hpath_cong) (auto simp: deref_def)
  with assms Cons show ?thesis by auto
qed (use assms in simp)

lemma hlist_unlink_spec:
  assumes l: "is_hlist h head (xs @ n # ys)"
  obtains h' where "hlist_unlink n h = Inr h'" "is_hlist h' head (xs @ ys)"
proof -
  let ?r = "href (PFirst head) xs" and ?e = "hd (ys @ [0])"
  from l have d: "distinct xs" "distinct ys" "n \<notin> set xs" "n \<notin> set ys" "set xs \<inter> set ys = {}"
    and p: "hpath h (PFirst head) xs n" "n \<noteq> 0" "h_pprev h n = ?r" "hpath h (PNext n) ys 0"
    by (auto simp: is_hlist_split)
  have nx: "h_next h n = ?e" using p(4) by (cases ys) (auto simp: deref_def)
  obtain h1 where h1: "store ?r ?e h = Inr h1" "hpath h1 (PFirst head) xs ?e" "h_pprev h1 = h_pprev h"
      "\<And>q. q \<noteq> ?r \<Longrightarrow> deref h1 q = deref h q"
    by (rule hpath_store [OF p(1) d(1), of ?e]) auto
  let ?h2 = "if ?e \<noteq> 0 then set_pprev ?e ?r h1 else h1"
  have run: "hlist_unlink n h = Inr ?h2" using h1(1) by (simp add: hlist_unlink_def nx p(3))
  have pre: "hpath ?h2 (PFirst head) xs ?e"
  proof -
    have "?e \<noteq> 0 \<Longrightarrow> ?e \<in> set ys" by (cases ys) auto
    then have "hpath ?h2 (PFirst head) xs ?e = hpath h1 (PFirst head) xs ?e"
      using d(5) by (intro hpath_cong) auto
    with h1(2) show ?thesis by simp
  qed
  have ynz: "\<forall>y\<in>set ys. y \<noteq> 0" using p(4) by (auto dest!: split_list simp: hpath_append)
  have "hpath ?h2 ?r ys 0"
  proof (rule hpath_rebase [OF p(4) d(2)])
    show "deref ?h2 ?r = ?e" using hpath_end [OF pre] by simp
    show "ys \<noteq> [] \<Longrightarrow> h_pprev ?h2 (hd ys) = ?r" using ynz by (cases ys) auto
    show "deref ?h2 (PNext a) = deref h (PNext a)" if "a \<in> set ys" for a
    proof -
      have "PNext a \<noteq> ?r" using href_in [of head xs a] d(5) that by auto
      with h1(4) show ?thesis by simp
    qed
    show "a \<in> set (tl ys) \<Longrightarrow> h_pprev ?h2 a = h_pprev h a" for a
      using d(2) h1(3) by (cases ys) auto
  qed
  with pre d run show thesis by (intro that [of ?h2]) (auto simp: is_hlist_split)
qed

lemma hlist_add_head_spec:
  assumes l: "is_hlist h head xs" and n: "n \<noteq> 0" "n \<notin> set xs"
  shows "is_hlist (hlist_add_head n head h) head (n # xs)"
proof -
  let ?h = "hlist_add_head n head h"
  have p: "hpath h (PFirst head) xs 0" "distinct xs" using l by (auto simp: is_hlist_def)
  then have f: "h_first h head = hd (xs @ [0])" by (cases xs) (auto simp: deref_def)
  have xnz: "\<forall>x\<in>set xs. x \<noteq> 0" using p(1) by (auto dest!: split_list simp: hpath_append)
  have "hpath ?h (PNext n) xs 0"
    by (rule hpath_rebase [OF p])
      (use n xnz p(2) in \<open>cases xs; auto simp: hlist_add_head_def Let_def f deref_def\<close>)+
  then show ?thesis
    using n p(2) by (auto simp: is_hlist_def hlist_add_head_def Let_def deref_def)
qed

lemma hpath_nonnull: "hpath h r xs e \<Longrightarrow> \<forall>x\<in>set xs. x \<noteq> 0"
  by (induction xs arbitrary: r) auto

lemma hlist_add_after_spec:
  assumes l: "is_hlist h head (xs @ n # ys)" and f: "nxt \<noteq> 0" "nxt \<notin> set (xs @ n # ys)"
  shows "is_hlist (hlist_add_after n nxt h) head (xs @ n # nxt # ys)"
proof -
  let ?h = "hlist_add_after n nxt h" and ?e = "hd (ys @ [0])"
  from l have d: "distinct xs" "distinct ys" "n \<notin> set xs" "n \<notin> set ys" "set xs \<inter> set ys = {}"
    and p: "hpath h (PFirst head) xs n" "n \<noteq> 0" "h_pprev h n = href (PFirst head) xs" "hpath h (PNext n) ys 0"
    by (auto simp: is_hlist_split)
  have nx: "h_next h n = ?e" using p(4) by (cases ys) (auto simp: deref_def)
  have e: "?e \<noteq> 0 \<Longrightarrow> ?e \<in> set ys" by (cases ys) auto
  have ynz: "\<forall>y\<in>set ys. y \<noteq> 0" using hpath_nonnull [OF p(4)] .
  have ne: "?e \<noteq> n" "?e \<noteq> nxt" "?e \<notin> set xs \<or> ?e = 0" using e f d p(2) by auto
  have fields: "h_next ?h a = (if a = n then nxt else if a = nxt then ?e else h_next h a)"
      "h_pprev ?h a = (if ?e \<noteq> 0 \<and> a = ?e then PNext nxt else if a = nxt then PNext n else h_pprev h a)"
      "h_first ?h = h_first h" for a
    using ne f by (auto simp: hlist_add_after_def Let_def nx)
  have pre: "hpath ?h (PFirst head) xs n = hpath h (PFirst head) xs n"
    using d f e ne by (intro hpath_cong) (auto simp: fields deref_def)
  have "hpath ?h (PNext nxt) ys 0"
    by (rule hpath_rebase [OF p(4) d(2)]) (use d f ynz in \<open>cases ys; auto simp: fields deref_def\<close>)+
  then have "hpath ?h (href (PFirst head) xs) (n # nxt # ys) 0"
    using pre p hpath_end [of ?h "PFirst head" xs n] f ne d by (auto simp: fields deref_def)
  then show ?thesis using pre p d f by (auto simp: is_hlist_split)
qed

lemma hlist_add_before_spec:
  assumes l: "is_hlist h head (xs @ nxt # ys)" and f: "n \<noteq> 0" "n \<notin> set (xs @ nxt # ys)"
  obtains h' where "hlist_add_before n nxt h = Inr h'" "is_hlist h' head (xs @ n # nxt # ys)"
proof -
  let ?r = "href (PFirst head) xs"
  let ?h1 = "set_pprev nxt (PNext n) (set_hnext n nxt (set_pprev n (h_pprev h nxt) h))"
  from l have d: "distinct xs" "distinct ys" "nxt \<notin> set xs" "nxt \<notin> set ys" "set xs \<inter> set ys = {}"
    and p: "hpath h (PFirst head) xs nxt" "nxt \<noteq> 0" "h_pprev h nxt = ?r" "hpath h (PNext nxt) ys 0"
    by (auto simp: is_hlist_split)
  have "hpath ?h1 (PFirst head) xs nxt = hpath h (PFirst head) xs nxt"
    using d f by (intro hpath_cong) auto
  then have p1: "hpath ?h1 (PFirst head) xs nxt" using p(1) by simp
  obtain h2 where h2: "store ?r n ?h1 = Inr h2" "hpath h2 (PFirst head) xs n" "h_pprev h2 = h_pprev ?h1"
      "\<And>q. q \<noteq> ?r \<Longrightarrow> deref h2 q = deref ?h1 q"
    by (rule hpath_store [OF p1 d(1), of n]) auto
  have run: "hlist_add_before n nxt h = Inr h2"
    using h2(1) f p(3) by (simp add: hlist_add_before_def Let_def)
  have away: "deref h2 (PNext a) = deref ?h1 (PNext a)" if "a \<notin> set xs" for a
  proof -
    have "PNext a \<noteq> ?r" using href_in [of head xs a] that by auto
    then show ?thesis by (rule h2(4))
  qed
  have nx: "h_next h nxt = hd (ys @ [0])" using p(4) by (cases ys) (auto simp: deref_def)
  have h2y: "deref h2 (PNext a) = deref h (PNext a)" "h_pprev h2 a = h_pprev h a" if "a \<in> set ys" for a
  proof -
    have "a \<notin> set xs" "a \<noteq> n" "a \<noteq> nxt" using that d f by auto
    then show "deref h2 (PNext a) = deref h (PNext a)" "h_pprev h2 a = h_pprev h a"
      using away [of a] h2(3) by (simp_all add: deref_def)
  qed
  have suf: "hpath h2 (PNext nxt) ys 0"
  proof (rule hpath_rebase [OF p(4) d(2)])
    show "deref h2 (PNext nxt) = hd (ys @ [0])" using away [of nxt] d f nx by simp
    show "ys \<noteq> [] \<Longrightarrow> h_pprev h2 (hd ys) = PNext nxt" using h2y(2) [of "hd ys"] p(4) by (cases ys) auto
    show "a \<in> set ys \<Longrightarrow> deref h2 (PNext a) = deref h (PNext a)" for a by (rule h2y)
    show "a \<in> set (tl ys) \<Longrightarrow> h_pprev h2 a = h_pprev h a" for a using h2y(2) by (cases ys) auto
  qed
  have "hpath h2 ?r (n # nxt # ys) 0"
    using suf f d p(2,3) away [of n] away [of nxt] hpath_end [OF h2(2)] h2(3) by auto
  with h2(2) d f run show thesis by (intro that [of h2]) (auto simp: is_hlist_split)
qed

lemma hlist_del_spec:
  assumes l: "is_hlist h head (xs @ n # ys)"
  obtains h' where "hlist_del n h = Inr h'" "is_hlist h' head (xs @ ys)" "h_pprev h' n = PPoison"
proof -
  obtain h1 where h1: "hlist_unlink n h = Inr h1" "is_hlist h1 head (xs @ ys)"
    by (rule hlist_unlink_spec [OF l])
  have n: "n \<notin> set (xs @ ys)" using l by (auto simp: is_hlist_def)
  let ?h = "set_pprev n PPoison (set_hnext n LIST_POISON1 h1)"
  have "hpath ?h (PFirst head) (xs @ ys) 0 = hpath h1 (PFirst head) (xs @ ys) 0"
    using n by (intro hpath_cong) auto
  then have "is_hlist ?h head (xs @ ys)" using h1(2) by (simp add: is_hlist_def)
  then show thesis using h1(1) by (intro that [of ?h]) (simp_all add: hlist_del_def)
qed

lemma hlist_del_init_spec:
  assumes l: "is_hlist h head (xs @ n # ys)"
  obtains h' where "hlist_del_init n h = Inr h'" "is_hlist h' head (xs @ ys)" "hlist_unhashed n h'"
proof -
  obtain h1 where h1: "hlist_unlink n h = Inr h1" "is_hlist h1 head (xs @ ys)"
    by (rule hlist_unlink_spec [OF l])
  have n: "n \<notin> set (xs @ ys)" using l by (auto simp: is_hlist_def)
  have "h_pprev h n = href (PFirst head) xs" using l by (auto simp: is_hlist_split)
  then have u: "\<not> hlist_unhashed n h" by (simp add: hlist_unhashed_def)
  let ?h = "INIT_HLIST_NODE n h1"
  have "hpath ?h (PFirst head) (xs @ ys) 0 = hpath h1 (PFirst head) (xs @ ys) 0"
    using n by (intro hpath_cong) (auto simp: INIT_HLIST_NODE_def)
  then have "is_hlist ?h head (xs @ ys)" using h1(2) by (simp add: is_hlist_def)
  then show thesis using h1(1) u
    by (intro that [of ?h]) (simp_all add: hlist_del_init_def hlist_unhashed_def INIT_HLIST_NODE_def)
qed

lemma hlist_move_list_spec:
  assumes l: "is_hlist h old xs" and ne: "old \<noteq> new"
  shows "is_hlist (hlist_move_list old new h) new xs" and "is_hlist (hlist_move_list old new h) old []"
proof -
  let ?h = "hlist_move_list old new h"
  have p: "hpath h (PFirst old) xs 0" "distinct xs" using l by (auto simp: is_hlist_def)
  then have f: "h_first h old = hd (xs @ [0])" by (cases xs) (auto simp: deref_def)
  have xnz: "\<forall>x\<in>set xs. x \<noteq> 0" using hpath_nonnull [OF p(1)] .
  have "hpath ?h (PFirst new) xs 0"
    by (rule hpath_rebase [OF p])
      (use ne xnz p(2) in \<open>cases xs; auto simp: hlist_move_list_def Let_def f deref_def\<close>)+
  then show "is_hlist ?h new xs" using p(2) by (simp add: is_hlist_def)
  show "is_hlist ?h old []" by (simp add: is_hlist_def hlist_move_list_def Let_def deref_def)
qed

lemma hlist_empty_iff: "is_hlist h head xs \<Longrightarrow> hlist_empty head h \<longleftrightarrow> xs = []"
  by (cases xs) (auto simp: is_hlist_def hlist_empty_def deref_def)

section \<open>Properties\<close>

text \<open>
  The \<open>hlist\<close> operations on a well-formed list: \<open>hlist_add_head\<close>, \<open>hlist_add_before\<close> and
  \<open>hlist_add_after\<close> insert the new node exactly at the named place, \<open>hlist_del\<close> and
  \<open>hlist_del_init\<close> take exactly the named node out, none of them meets a null pointer, and the
  result is well formed again.
\<close>

theorem hlist_ops_correct:
  assumes "is_hlist h head (xs @ n # ys)" and "m \<noteq> 0" and "m \<notin> set (xs @ n # ys)"
  shows "is_hlist (hlist_add_head m head h) head (m # xs @ n # ys) \<and>
    (\<exists>h'. hlist_add_before m n h = Inr h' \<and> is_hlist h' head (xs @ m # n # ys)) \<and>
    is_hlist (hlist_add_after n m h) head (xs @ n # m # ys) \<and>
    (\<exists>h'. hlist_del n h = Inr h' \<and> is_hlist h' head (xs @ ys)) \<and>
    (\<exists>h'. hlist_del_init n h = Inr h' \<and> is_hlist h' head (xs @ ys) \<and> hlist_unhashed n h')"
proof (intro conjI)
  show "is_hlist (hlist_add_head m head h) head (m # xs @ n # ys)"
    using assms by (intro hlist_add_head_spec)
  show "\<exists>h'. hlist_add_before m n h = Inr h' \<and> is_hlist h' head (xs @ m # n # ys)"
    by (rule hlist_add_before_spec [OF assms]) blast
  show "is_hlist (hlist_add_after n m h) head (xs @ n # m # ys)"
    by (rule hlist_add_after_spec [OF assms])
  show "\<exists>h'. hlist_del n h = Inr h' \<and> is_hlist h' head (xs @ ys)"
    by (rule hlist_del_spec [OF assms(1)]) blast
  show "\<exists>h'. hlist_del_init n h = Inr h' \<and> is_hlist h' head (xs @ ys) \<and> hlist_unhashed n h'"
    by (rule hlist_del_init_spec [OF assms(1)]) blast
qed

definition hheap0 :: hheap where
  "hheap0 = \<lparr> h_first = (\<lambda>_. 0), h_next = (\<lambda>_. 0), h_pprev = (\<lambda>_. PNull) \<rparr>"

theorem hlist_ops_correct_witness:
  "is_hlist (hlist_add_after 5 6 (hlist_add_head 5 1 hheap0)) 1 [5, 6]"
proof -
  have "is_hlist hheap0 1 []" by (simp add: is_hlist_def hheap0_def)
  then have "is_hlist (hlist_add_head 5 1 hheap0) 1 ([] @ 5 # [])" using hlist_add_head_spec by simp
  from hlist_ops_correct [OF this, of 6] show ?thesis by simp
qed

end
