(* ===== verification/ConnPool.thy ===== *)
theory ConnPool
  imports Prelude
begin

text \<open>
  \<open>thrift_filter/BloomfilterConnectionPool.cpp\<close>: the pool of client connections the crawler
  threads share. Every method holds \<open>mutex_connectionpool\<close> while it touches the vector, so the
  methods are atomic steps; the threads' interleaving is a step relation over them.
\<close>

section \<open>State and methods\<close>

type_synonym u16 = "16 word"
type_synonym conn = nat

record pooled =
  pc_connection :: conn
  pc_busy :: bool

record cpool =
  initialConnections :: u16
  incrementalConnections :: u16
  maxConnections :: u16
  isClosing :: u16
  connections :: "pooled list"

definition pool_new :: "u16 \<Rightarrow> u16 \<Rightarrow> cpool" where
  "pool_new incr n = \<lparr> initialConnections = n, incrementalConnections = incr, maxConnections = 60000,
     isClosing = 0, connections = [] \<rparr>"

definition setInitialConnections :: "u16 \<Rightarrow> cpool \<Rightarrow> cpool" where
  "setInitialConnections n p = p\<lparr>initialConnections := n\<rparr>"

definition getInitialConnections :: "cpool \<Rightarrow> u16" where
  "getInitialConnections p = initialConnections p"

definition setIncrementalConnections :: "int \<Rightarrow> cpool \<Rightarrow> cpool" where
  "setIncrementalConnections n p = p\<lparr>incrementalConnections := of_int n\<rparr>"

text \<open>
  \<open>createConnections\<close>: \<open>tries\<close> gives the outcome of each \<open>newConnection\<close>, a fresh client or an
  exception (\<open>None\<close>), which leaves the loop with the clients made so far in the vector. The result
  says whether the loop ended without an exception.
\<close>

fun successes :: "conn option list \<Rightarrow> conn list" where
  "successes [] = []"
| "successes (None # ts) = successes ts"
| "successes (Some c # ts) = c # successes ts"

fun create_loop :: "nat \<Rightarrow> conn option list \<Rightarrow> cpool \<Rightarrow> bool \<times> cpool" where
  "create_loop 0 tries p = (True, p)"
| "create_loop (Suc i) tries p =
    (if maxConnections p > 0 \<and> length (connections p) \<ge> unat (maxConnections p) then (True, p)
     else (case tries of
             [] \<Rightarrow> (False, p)
           | None # _ \<Rightarrow> (False, p)
           | Some c # rest \<Rightarrow>
               create_loop i rest (p\<lparr>connections := connections p @ [\<lparr>pc_connection = c, pc_busy = False\<rparr>]\<rparr>)))"

definition createConnections :: "u16 \<Rightarrow> conn option list \<Rightarrow> cpool \<Rightarrow> bool \<times> cpool" where
  "createConnections numConnections tries p = create_loop (unat numConnections) tries p"

definition createPool :: "conn option list \<Rightarrow> cpool \<Rightarrow> u16 \<times> cpool" where
  "createPool tries p =
    (if connections p = []
     then (let (ok, p') = createConnections (initialConnections p) tries p in (if ok then 0 else -1, p'))
     else (0, p))"

fun find_free :: "pooled list \<Rightarrow> conn option \<times> pooled list" where
  "find_free [] = (None, [])"
| "find_free (pc # pcs) =
    (if \<not> pc_busy pc then (Some (pc_connection pc), pc\<lparr>pc_busy := True\<rparr> # pcs)
     else let (c, pcs') = find_free pcs in (c, pc # pcs'))"

definition findFreeConnection :: "cpool \<Rightarrow> conn option \<times> cpool" where
  "findFreeConnection p = (let (c, pcs) = find_free (connections p) in (c, p\<lparr>connections := pcs\<rparr>))"

text \<open>
  \<open>getConnection\<close> first checks for an unborn pool, then tries; when nothing is free it tries again
  after a pause, without checking the pool again. One attempt inside that loop:
\<close>

datatype got = GotNull | GotConn conn | Retry

definition get_first :: "cpool \<Rightarrow> got \<times> cpool" where
  "get_first p =
    (if connections p = [] then (GotNull, p)
     else let (c, p) = findFreeConnection p in (case c of None \<Rightarrow> Retry | Some c \<Rightarrow> GotConn c, p))"

definition get_again :: "cpool \<Rightarrow> got \<times> cpool" where
  "get_again p = (let (c, p) = findFreeConnection p in (case c of None \<Rightarrow> Retry | Some c \<Rightarrow> GotConn c, p))"

fun return_loop :: "conn \<Rightarrow> pooled list \<Rightarrow> pooled list" where
  "return_loop c [] = []"
| "return_loop c (pc # pcs) =
    (if c = pc_connection pc then pc\<lparr>pc_busy := False\<rparr> # pcs else pc # return_loop c pcs)"

definition returnConnection :: "conn \<Rightarrow> cpool \<Rightarrow> cpool" where
  "returnConnection c p =
    (if connections p = [] then p else p\<lparr>connections := return_loop c (connections p)\<rparr>)"

text \<open>
  \<open>closeConnectionPool\<close> and \<open>recycleConnectionPool\<close>: every entry goes, the client of an entry
  that is not busy is deleted. The first component lists the deleted clients.
\<close>

definition close_deletes :: "pooled list \<Rightarrow> conn list" where
  "close_deletes pcs = map pc_connection (filter (\<lambda>pc. \<not> pc_busy pc) pcs)"

definition closeConnectionPool :: "cpool \<Rightarrow> conn list \<times> cpool" where
  "closeConnectionPool p =
    (if connections p = [] then ([], p) else (close_deletes (connections p), p\<lparr>connections := []\<rparr>))"

definition recycleConnectionPool :: "cpool \<Rightarrow> conn list \<times> cpool" where
  "recycleConnectionPool p =
    (if connections p = [] then ([], p) else (close_deletes (connections p), p\<lparr>connections := []\<rparr>))"

section \<open>Threads sharing the pool\<close>

text \<open>
  The system: the pool, the clients that threads got and did not give back, the clients that
  exist. A thread returns only a client it holds; a new client is one that does not exist yet.
\<close>

record psys =
  sys_pool :: cpool
  held :: "conn set"
  alive :: "conn set"

inductive pstep :: "psys \<Rightarrow> psys \<Rightarrow> bool" where
  Create: "createPool tries (sys_pool s) = (r, p) \<Longrightarrow> distinct (successes tries) \<Longrightarrow>
    set (successes tries) \<inter> alive s = {} \<Longrightarrow>
    pstep s (s\<lparr>sys_pool := p, alive := alive s \<union> pc_connection ` set (connections p)\<rparr>)"
| Get: "get_first (sys_pool s) = (GotConn c, p) \<or> get_again (sys_pool s) = (GotConn c, p) \<Longrightarrow>
    pstep s (s\<lparr>sys_pool := p, held := insert c (held s)\<rparr>)"
| Wait: "get_first (sys_pool s) = (g, p) \<or> get_again (sys_pool s) = (g, p) \<Longrightarrow> g = GotNull \<or> g = Retry \<Longrightarrow>
    pstep s (s\<lparr>sys_pool := p\<rparr>)"
| Return: "c \<in> held s \<Longrightarrow> pstep s (s\<lparr>sys_pool := returnConnection c (sys_pool s), held := held s - {c}\<rparr>)"
| Close: "closeConnectionPool (sys_pool s) = (ds, p) \<or> recycleConnectionPool (sys_pool s) = (ds, p) \<Longrightarrow>
    pstep s (s\<lparr>sys_pool := p, alive := alive s - set ds\<rparr>)"

inductive_simps pstep_simps: "pstep s s'"

inductive preach :: "u16 \<Rightarrow> u16 \<Rightarrow> psys \<Rightarrow> bool" for incr n where
  Start: "preach incr n \<lparr> sys_pool = pool_new incr n, held = {}, alive = {} \<rparr>"
| Step: "preach incr n s \<Longrightarrow> pstep s s' \<Longrightarrow> preach incr n s'"

section \<open>Invariant\<close>

definition pool_inv :: "psys \<Rightarrow> bool" where
  "pool_inv s \<longleftrightarrow>
    distinct (map pc_connection (connections (sys_pool s))) \<and>
    pc_connection ` set (connections (sys_pool s)) \<subseteq> alive s \<and>
    held s \<subseteq> alive s \<and>
    (\<forall>pc\<in>set (connections (sys_pool s)). pc_busy pc \<longleftrightarrow> pc_connection pc \<in> held s)"

lemma create_loop_spec:
  "create_loop n tries p = (ok, p') \<Longrightarrow> \<exists>k. connections p' = connections p @
      map (\<lambda>c. \<lparr>pc_connection = c, pc_busy = False\<rparr>) (take k (successes tries)) \<and>
    (ok \<longrightarrow> length (connections p') = length (connections p) + n \<or>
      unat (maxConnections p) \<le> length (connections p'))"
proof (induction n tries p rule: create_loop.induct)
  case (2 i tries p)
  show ?case
  proof (cases "maxConnections p > 0 \<and> length (connections p) \<ge> unat (maxConnections p)")
    case True
    with "2.prems" show ?thesis by (intro exI [of _ 0]) auto
  next
    case F: False
    show ?thesis
    proof (cases tries)
      case Nil
      with F "2.prems" show ?thesis by (intro exI [of _ 0]) auto
    next
      case (Cons t rest)
      show ?thesis
      proof (cases t)
        case None
        with F Cons "2.prems" show ?thesis by (intro exI [of _ 0]) auto
      next
        case (Some c)
        let ?p1 = "p\<lparr>connections := connections p @ [\<lparr>pc_connection = c, pc_busy = False\<rparr>]\<rparr>"
        have "create_loop i rest ?p1 = (ok, p')" using "2.prems" F Cons Some by simp
        from "2.IH" [OF F Cons Some this] obtain k where
          "connections p' = connections ?p1 @
            map (\<lambda>c. \<lparr>pc_connection = c, pc_busy = False\<rparr>) (take k (successes rest))"
          "ok \<longrightarrow> length (connections p') = length (connections ?p1) + i \<or>
            unat (maxConnections ?p1) \<le> length (connections p')" by blast
        with Cons Some show ?thesis
          by (intro exI [of _ "Suc k"]) auto
      qed
    qed
  qed
qed (auto intro: exI [of _ 0])

lemma find_free_None: "find_free pcs = (None, pcs') \<Longrightarrow> pcs' = pcs \<and> (\<forall>pc\<in>set pcs. pc_busy pc)"
  by (induction pcs arbitrary: pcs') (auto split: if_splits prod.splits)

lemma find_free_Some:
  "find_free pcs = (Some c, pcs') \<Longrightarrow>
    \<exists>as pc bs. pcs = as @ pc # bs \<and> pcs' = as @ pc\<lparr>pc_busy := True\<rparr> # bs \<and> \<not> pc_busy pc \<and> pc_connection pc = c"
proof (induction pcs arbitrary: pcs')
  case (Cons pc pcs)
  show ?case
  proof (cases "pc_busy pc")
    case True
    then obtain qs where "find_free pcs = (Some c, qs)" "pcs' = pc # qs"
      using Cons.prems by (auto split: prod.splits)
    with Cons.IH [OF this(1)] show ?thesis by (metis append_Cons)
  next
    case False
    with Cons.prems show ?thesis by (intro exI [of _ "[]"]) auto
  qed
qed simp

lemma return_loop_spec:
  "distinct (map pc_connection pcs) \<Longrightarrow>
    return_loop c pcs = map (\<lambda>pc. if pc_connection pc = c then pc\<lparr>pc_busy := False\<rparr> else pc) pcs"
  by (induction pcs) (auto intro!: map_idI [symmetric] simp: image_iff)

lemma return_loop_map: "map pc_connection (return_loop c pcs) = map pc_connection pcs"
  by (induction pcs) auto

lemma create_loop_2: "create_loop 2 ts p = create_loop (Suc (Suc 0)) ts p"
  by (simp only: numeral_2_eq_2)

lemma get_cases:
  assumes "get_first p = (GotConn c, p') \<or> get_again p = (GotConn c, p')"
  obtains as pc bs where "connections p = as @ pc # bs" "connections p' = as @ pc\<lparr>pc_busy := True\<rparr> # bs"
    "\<not> pc_busy pc" "pc_connection pc = c"
proof -
  have "findFreeConnection p = (Some c, p')"
    using assms by (auto simp: get_first_def get_again_def split: if_splits prod.splits option.splits)
  then have "find_free (connections p) = (Some c, connections p')"
    by (auto simp: findFreeConnection_def split: prod.splits)
  from find_free_Some [OF this] that show thesis by blast
qed

lemma wait_same:
  assumes "get_first p = (g, p') \<or> get_again p = (g, p')" and "g = GotNull \<or> g = Retry"
  shows "p' = p"
proof -
  have "p' = p \<or> findFreeConnection p = (None, p')"
    using assms by (auto simp: get_first_def get_again_def split: if_splits prod.splits option.splits)
  then show ?thesis
    by (auto simp: findFreeConnection_def dest!: find_free_None split: prod.splits)
qed

section \<open>Preservation\<close>

lemma inv_start: "pool_inv \<lparr> sys_pool = pool_new incr n, held = {}, alive = {} \<rparr>"
  by (simp add: pool_inv_def pool_new_def)

lemma inv_create:
  assumes inv: "pool_inv s" and c: "createPool tries (sys_pool s) = (r, p)" "distinct (successes tries)"
    "set (successes tries) \<inter> alive s = {}"
  shows "pool_inv (s\<lparr>sys_pool := p, alive := alive s \<union> pc_connection ` set (connections p)\<rparr>)"
proof (cases "connections (sys_pool s) = []")
  case True
  then obtain ok where "create_loop (unat (initialConnections (sys_pool s))) tries (sys_pool s) = (ok, p)"
    using c(1) by (auto simp: createPool_def createConnections_def split: prod.splits)
  from create_loop_spec [OF this] True obtain k where
    k: "connections p = map (\<lambda>c. \<lparr>pc_connection = c, pc_busy = False\<rparr>) (take k (successes tries))" by auto
  have sub: "set (take k (successes tries)) \<subseteq> set (successes tries)" by (rule set_take_subset)
  have "distinct (map pc_connection (connections p))"
    using c(2) by (simp add: k comp_def distinct_take)
  moreover have "\<not> pc_busy pc \<and> pc_connection pc \<notin> held s" if "pc \<in> set (connections p)" for pc
  proof -
    from that obtain x where x: "pc = \<lparr>pc_connection = x, pc_busy = False\<rparr>" "x \<in> set (successes tries)"
      using sub unfolding k by auto
    with c(3) inv show ?thesis by (auto simp: pool_inv_def)
  qed
  ultimately show ?thesis using inv by (auto simp: pool_inv_def)
next
  case False
  with c(1) inv show ?thesis by (auto simp: createPool_def pool_inv_def)
qed

lemma inv_get:
  assumes inv: "pool_inv s" and g: "get_first (sys_pool s) = (GotConn c, p) \<or> get_again (sys_pool s) = (GotConn c, p)"
  shows "pool_inv (s\<lparr>sys_pool := p, held := insert c (held s)\<rparr>)" and "c \<notin> held s" and "c \<in> alive s"
proof -
  obtain as pc bs where d: "connections (sys_pool s) = as @ pc # bs" "connections p = as @ pc\<lparr>pc_busy := True\<rparr> # bs"
    "\<not> pc_busy pc" "pc_connection pc = c" by (rule get_cases [OF g])
  have "\<And>q. q \<in> set as \<union> set bs \<Longrightarrow> pc_connection q \<noteq> c"
    using inv d by (auto simp: pool_inv_def image_iff)
  with inv d show "pool_inv (s\<lparr>sys_pool := p, held := insert c (held s)\<rparr>)" "c \<notin> held s" "c \<in> alive s"
    by (auto simp: pool_inv_def)
qed

lemma inv_return:
  assumes inv: "pool_inv s"
  shows "pool_inv (s\<lparr>sys_pool := returnConnection c (sys_pool s), held := held s - {c}\<rparr>)"
proof -
  have d: "distinct (map pc_connection (connections (sys_pool s)))" using inv by (simp add: pool_inv_def)
  let ?pcs = "connections (sys_pool s)"
  have con: "connections (returnConnection c (sys_pool s)) = return_loop c ?pcs"
    by (cases ?pcs) (simp_all add: returnConnection_def)
  have m: "map pc_connection (return_loop c ?pcs) = map pc_connection ?pcs"
    by (rule return_loop_map)
  then have im: "pc_connection ` set (return_loop c ?pcs) = pc_connection ` set ?pcs"
    by (metis list.set_map)
  have busy: "\<forall>pc\<in>set (return_loop c ?pcs). pc_busy pc \<longleftrightarrow> pc_connection pc \<in> held s - {c}"
    using inv by (auto simp: return_loop_spec [OF d] pool_inv_def)
  show ?thesis
    using inv busy by (auto simp: pool_inv_def con m im)
qed

lemma inv_close:
  assumes inv: "pool_inv s" and c: "closeConnectionPool (sys_pool s) = (ds, p) \<or> recycleConnectionPool (sys_pool s) = (ds, p)"
  shows "pool_inv (s\<lparr>sys_pool := p, alive := alive s - set ds\<rparr>)"
proof (cases "connections (sys_pool s) = []")
  case True
  with c inv show ?thesis by (auto simp: closeConnectionPool_def recycleConnectionPool_def pool_inv_def)
next
  case False
  with c have "ds = close_deletes (connections (sys_pool s))" "connections p = []"
    by (auto simp: closeConnectionPool_def recycleConnectionPool_def)
  with inv show ?thesis by (auto simp: pool_inv_def close_deletes_def)
qed

lemma inv_step: "pstep s s' \<Longrightarrow> pool_inv s \<Longrightarrow> pool_inv s'"
proof (induction rule: pstep.induct)
  case (Create tries s r p)
  then show ?case by (intro inv_create)
next
  case (Get s c p)
  then show ?case using inv_get(1) by blast
next
  case (Wait s g p)
  then have "p = sys_pool s" by (intro wait_same)
  with Wait show ?case by simp
next
  case (Return c s)
  then show ?case by (intro inv_return)
next
  case (Close s ds p)
  then show ?case by (intro inv_close)
qed

lemma inv_reach: "preach incr n s \<Longrightarrow> pool_inv s"
  by (induction rule: preach.induct) (auto intro: inv_start inv_step)

section \<open>Properties\<close>

text \<open>
  C13. Exclusive use: in every state the threads can reach, a client that \<open>getConnection\<close> hands
  out exists and is held by no other thread, and no client that a thread holds has been deleted,
  also across \<open>closeConnectionPool\<close>, \<open>recycleConnectionPool\<close> and a new \<open>createPool\<close>.
\<close>

theorem pool_exclusive:
  assumes "preach incr n s"
  shows "held s \<subseteq> alive s \<and>
    (\<forall>c p. get_first (sys_pool s) = (GotConn c, p) \<or> get_again (sys_pool s) = (GotConn c, p) \<longrightarrow>
      c \<notin> held s \<and> c \<in> alive s)"
proof (intro conjI allI impI)
  have inv: "pool_inv s" by (rule inv_reach [OF assms])
  then show "held s \<subseteq> alive s" by (simp add: pool_inv_def)
  fix c p
  assume g: "get_first (sys_pool s) = (GotConn c, p) \<or> get_again (sys_pool s) = (GotConn c, p)"
  show "c \<notin> held s" by (rule inv_get(2) [OF inv g])
  show "c \<in> alive s" by (rule inv_get(3) [OF inv g])
qed

theorem pool_exclusive_witness:
  "\<exists>s. preach 1 2 s \<and> held s = {7} \<and> (\<forall>c p. get_first (sys_pool s) = (GotConn c, p) \<longrightarrow> c \<notin> held s)"
proof -
  let ?s0 = "\<lparr> sys_pool = pool_new 1 2, held = {}, alive = {} \<rparr>"
  let ?p1 = "(pool_new 1 2)\<lparr>connections := [\<lparr>pc_connection = 7, pc_busy = False\<rparr>, \<lparr>pc_connection = 8, pc_busy = False\<rparr>]\<rparr>"
  let ?p2 = "(pool_new 1 2)\<lparr>connections := [\<lparr>pc_connection = 7, pc_busy = True\<rparr>, \<lparr>pc_connection = 8, pc_busy = False\<rparr>]\<rparr>"
  let ?s1 = "?s0\<lparr>sys_pool := ?p1, alive := alive ?s0 \<union> pc_connection ` set (connections ?p1)\<rparr>"
  let ?s2 = "?s1\<lparr>sys_pool := ?p2, held := insert 7 (held ?s1)\<rparr>"
  have "createPool [Some 7, Some 8] (sys_pool ?s0) = (0, ?p1)"
    by (simp add: createPool_def createConnections_def pool_new_def create_loop_2)
  then have "pstep ?s0 ?s1" by (rule pstep.Create) simp_all
  then have r1: "preach 1 2 ?s1" using preach.Start preach.Step by blast
  have "get_first (sys_pool ?s1) = (GotConn 7, ?p2)"
    by (simp add: get_first_def findFreeConnection_def pool_new_def)
  then have "pstep ?s1 ?s2" by (intro pstep.Get) simp
  with r1 have r2: "preach 1 2 ?s2" by (rule preach.Step)
  have "\<exists>s. preach 1 2 s \<and> held s = {7}" by (intro exI [of _ ?s2] conjI r2) simp
  then obtain s where s: "preach 1 2 s" "held s = {7}" by blast
  from pool_exclusive [OF s(1)] s show ?thesis by blast
qed

text \<open>
  A returned client can be had again: when a thread gives back a client of a pool that is
  still open, the next \<open>getConnection\<close> of any thread succeeds at once.
\<close>

theorem returned_connection_is_available:
  assumes "preach incr n s" and "c \<in> pc_connection ` set (connections (sys_pool s))"
  shows "\<exists>c' p. get_first (returnConnection c (sys_pool s)) = (GotConn c', p)"
proof -
  let ?p = "returnConnection c (sys_pool s)"
  have d: "distinct (map pc_connection (connections (sys_pool s)))"
    using inv_reach [OF assms(1)] by (simp add: pool_inv_def)
  from assms(2) obtain pc where pc: "pc \<in> set (connections (sys_pool s))" "pc_connection pc = c" by auto
  then have ne: "connections (sys_pool s) \<noteq> []" by auto
  have "pc\<lparr>pc_busy := False\<rparr> \<in> set (connections ?p)"
    using pc ne by (force simp: returnConnection_def return_loop_spec [OF d])
  then have "\<exists>pc\<in>set (connections ?p). \<not> pc_busy pc" by (rule bexI [rotated]) simp
  then have "\<not> (\<forall>pc\<in>set (connections ?p). pc_busy pc)" "connections ?p \<noteq> []" by auto
  then show ?thesis
    using find_free_None [of "connections ?p"]
    by (cases "find_free (connections ?p)") (auto simp: get_first_def findFreeConnection_def split: option.splits)
qed

theorem returned_connection_is_available_witness:
  "\<exists>c' p. get_first (returnConnection 7 ((pool_new 1 1)\<lparr>connections := [\<lparr>pc_connection = 7, pc_busy = False\<rparr>]\<rparr>)) = (GotConn c', p)"
proof -
  let ?s0 = "\<lparr> sys_pool = pool_new 1 1, held = {}, alive = {} \<rparr>"
  let ?p1 = "(pool_new 1 1)\<lparr>connections := [\<lparr>pc_connection = 7, pc_busy = False\<rparr>]\<rparr>"
  let ?s1 = "?s0\<lparr>sys_pool := ?p1, alive := alive ?s0 \<union> pc_connection ` set (connections ?p1)\<rparr>"
  have "createPool [Some 7] (sys_pool ?s0) = (0, ?p1)"
    by (simp add: createPool_def createConnections_def pool_new_def)
  then have "pstep ?s0 ?s1" by (rule pstep.Create) simp_all
  then have r1: "preach 1 1 ?s1" using preach.Start preach.Step by blast
  from returned_connection_is_available [OF r1, of 7] show ?thesis by simp
qed

text \<open>
  A \<open>createPool\<close> that fails part-way leaves the clients made so far in the pool, and the next
  \<open>createPool\<close> then reports success without making the missing ones.
\<close>

theorem failed_create_leaves_partial_pool:
  assumes "createPool tries p = (r, p')" and "r \<noteq> 0" and "connections p' \<noteq> []"
  shows "length (connections p') < unat (initialConnections p) \<and> createPool tries2 p' = (0, p')"
proof -
  have e: "connections p = []" using assms by (auto simp: createPool_def split: if_splits)
  then have f: "create_loop (unat (initialConnections p)) tries p = (False, p')"
    using assms by (auto simp: createPool_def createConnections_def split: prod.splits if_splits)
  have "create_loop n ts q = (False, q') \<Longrightarrow> length (connections q') < length (connections q) + n" for n ts q q'
    by (induction n ts q rule: create_loop.induct) (auto split: if_splits list.splits option.splits)
  from this [OF f] e assms(3) show ?thesis by (simp add: createPool_def)
qed

theorem failed_create_leaves_partial_pool_witness:
  "\<exists>p'. createPool [Some 7, None] (pool_new 1 2) = (-1, p') \<and> connections p' \<noteq> [] \<and>
    createPool [Some 8, Some 9] p' = (0, p') \<and> length (connections p') < 2"
proof -
  let ?p = "(pool_new 1 2)\<lparr>connections := [\<lparr>pc_connection = 7, pc_busy = False\<rparr>]\<rparr>"
  have c: "createPool [Some 7, None] (pool_new 1 2) = (-1, ?p)"
    by (simp add: createPool_def createConnections_def pool_new_def create_loop_2)
  have "(-1 :: u16) \<noteq> 0" "connections ?p \<noteq> []" by simp_all
  from failed_create_leaves_partial_pool [OF c this, of "[Some 8, Some 9]"] c show ?thesis
    by (auto simp: pool_new_def)
qed

end
