(* ===== verification/DateTime.thy ===== *)
theory DateTime
  imports DateText
begin

text \<open>
  \<open>tools/CDateTime.cpp\<close>: the date parser of the crawler. A \<open>cdt\<close> is one \<open>CDateTime\<close> object; the clock,
  \<open>localtime\<close>, \<open>mktime\<close> (which normalises its argument), \<open>strftime\<close> and the Boost regular expressions are the
  parameter \<open>tenv\<close>. The source is GBK encoded; its Chinese literals are given by their bytes.
\<close>

section \<open>State\<close>

record tm =
  tm_sec :: int
  tm_min :: int
  tm_hour :: int
  tm_mday :: int
  tm_mon :: int
  tm_year :: int
  tm_wday :: int
  tm_yday :: int
  tm_isdst :: int

record cdt =
  sYear :: "16 word"
  sMonth :: u8
  sDay :: u8
  sHour :: u8
  sMinute :: u8
  sSecond :: u8
  sStamp :: int
  sTm :: tm

record tenv =
  now :: int
  localtime :: "int \<Rightarrow> tm"
  mktime :: "tm \<Rightarrow> int \<times> tm"
  strftime :: "bytes \<Rightarrow> tm \<Rightarrow> bytes"
  regex_replace :: "bytes \<Rightarrow> bytes \<Rightarrow> bytes \<Rightarrow> bytes option"
  remain_search :: "bytes \<Rightarrow> (bytes option \<times> bytes option \<times> bytes option) option"

definition minuteseconds :: int where "minuteseconds = 60"
definition hourseconds :: int where "hourseconds = 60 * 60"
definition dayseconds :: int where "dayseconds = 24 * 60 * 60"
definition weekseconds :: int where "weekseconds = 7 * 24 * 60 * 60"

definition ClearHourMinuteSecond :: "cdt \<Rightarrow> cdt" where
  "ClearHourMinuteSecond st = st\<lparr>sTm := (sTm st)\<lparr>tm_hour := 0, tm_min := 0, tm_sec := 0\<rparr>, sHour := 0, sMinute := 0, sSecond := 0\<rparr>"

text \<open>The constructor copies \<open>tm_year\<close> (years since 1900) and \<open>tm_mon\<close> (from 0).\<close>

definition CDateTime :: "tenv \<Rightarrow> cdt" where
  "CDateTime env =
    (let t = (localtime env (now env))\<lparr>tm_isdst := 0, tm_wday := 0, tm_yday := 0\<rparr>
     in ClearHourMinuteSecond
          \<lparr>sYear = word_of_int (tm_year t), sMonth = word_of_int (tm_mon t), sDay = word_of_int (tm_mday t),
           sHour = word_of_int (tm_hour t), sMinute = word_of_int (tm_min t), sSecond = word_of_int (tm_sec t),
           sStamp = now env, sTm = t\<rparr>)"

definition make_stamp :: "tenv \<Rightarrow> cdt \<Rightarrow> cdt" where
  "make_stamp env st = (let (t, m) = mktime env (sTm st) in st\<lparr>sStamp := t, sTm := m\<rparr>)"

definition set_stamp :: "tenv \<Rightarrow> int \<Rightarrow> cdt \<Rightarrow> cdt" where
  "set_stamp env t st = st\<lparr>sStamp := t, sTm := localtime env t\<rparr>"

section \<open>Calendar\<close>

definition IsLeapYear :: "int \<Rightarrow> bool" where
  "IsLeapYear y \<longleftrightarrow> y mod 4 = 0 \<and> y mod 100 \<noteq> 0 \<or> y mod 400 = 0"

definition ValidateYear :: "int \<Rightarrow> bool" where
  "ValidateYear y \<longleftrightarrow> y > 0 \<and> y \<le> 9999"

definition ValidateMonth :: "int \<Rightarrow> int \<Rightarrow> bool" where
  "ValidateMonth y m = (if \<not> ValidateYear y then False else m > 0 \<and> m < 13)"

definition GetDaysOfMonth :: "int \<Rightarrow> int \<Rightarrow> int" where
  "GetDaysOfMonth y m =
    (if \<not> ValidateMonth y m then 0
     else if m = 4 \<or> m = 6 \<or> m = 9 \<or> m = 11 then 30
     else if m = 1 \<or> m = 3 \<or> m = 5 \<or> m = 7 \<or> m = 8 \<or> m = 10 \<or> m = 12 then 31
     else if m = 2 then if IsLeapYear y then 29 else 28
     else 0)"

definition ValidateDate :: "int \<Rightarrow> int \<Rightarrow> int \<Rightarrow> bool" where
  "ValidateDate y m d =
    (if \<not> ValidateMonth y m then False
     else if d < 1 \<or> d > GetDaysOfMonth y m then False else True)"

definition ValidateHour :: "int \<Rightarrow> bool" where
  "ValidateHour h \<longleftrightarrow> h \<ge> 0 \<and> h < 24"

definition ValidateMinute :: "int \<Rightarrow> int \<Rightarrow> bool" where
  "ValidateMinute h mi = (if \<not> ValidateHour h then False else mi \<ge> 0 \<and> mi < 60)"

definition ValidateTime :: "int \<Rightarrow> int \<Rightarrow> int \<Rightarrow> bool" where
  "ValidateTime h mi s = (if \<not> ValidateMinute h mi then False else s \<ge> 0 \<and> s < 60)"

definition ValidateDateTime :: "int \<Rightarrow> int \<Rightarrow> int \<Rightarrow> int \<Rightarrow> int \<Rightarrow> int \<Rightarrow> bool" where
  "ValidateDateTime y m d h mi s \<longleftrightarrow> ValidateDate y m d \<and> ValidateTime h mi s"

definition Validate :: "cdt \<Rightarrow> bool" where
  "Validate st = ValidateDateTime (uint (sYear st)) (uint (sMonth st)) (uint (sDay st))
     (uint (sHour st)) (uint (sMinute st)) (uint (sSecond st))"

text \<open>\<open>ToUnixDatetime\<close>: the fields of \<open>tm\<close> it does not set are left as they are on the stack (\<open>junk\<close>).\<close>

definition ToUnixDatetime :: "tenv \<Rightarrow> tm \<Rightarrow> cdt \<Rightarrow> int" where
  "ToUnixDatetime env junk st = fst (mktime env (junk
     \<lparr>tm_year := uint (sYear st) - 1900, tm_mon := uint (sMonth st) - 1, tm_mday := uint (sDay st),
      tm_hour := uint (sHour st), tm_min := uint (sMinute st), tm_sec := uint (sSecond st)\<rparr>))"

text \<open>\<open>isOverCurTime\<close>: a date after today moves back to a year in which it is not.\<close>

definition back_to_past :: "tm \<Rightarrow> tm \<Rightarrow> tm" where
  "back_to_past cur t =
    (let t = (if tm_year t > tm_year cur then t\<lparr>tm_year := tm_year cur\<rparr> else t);
         t = (if tm_year t = tm_year cur \<and> tm_mon t > tm_mon cur then t\<lparr>tm_year := tm_year cur - 1\<rparr> else t)
     in if tm_year t = tm_year cur \<and> tm_mon t = tm_mon cur \<and> tm_mday t > tm_mday cur
        then t\<lparr>tm_year := tm_year cur - 1\<rparr> else t)"

definition isOverCurTime :: "tenv \<Rightarrow> cdt \<Rightarrow> cdt" where
  "isOverCurTime env st = make_stamp env (st\<lparr>sTm := back_to_past (localtime env (now env)) (sTm st)\<rparr>)"

section \<open>Replacing\<close>

text \<open>
  \<open>ReplaceSpace\<close>: the pattern defaults to a set of blanks and brackets; an empty text and an exception
  of the library leave the text alone.
\<close>

definition default_blanks :: bytes where
  "default_blanks = [32, 124, 9, 124, 13, 124, 10, 124, 92, 40, 124, 92, 41, 124, 92, 91, 124, 92, 93, 124, 59, 124, 44, 124, 163, 187, 124, 163, 172, 124, 38, 110, 98, 115, 112, 124, 161, 161]"

definition ReplaceSpace :: "tenv \<Rightarrow> bytes \<Rightarrow> bytes option \<Rightarrow> bytes option \<Rightarrow> bytes" where
  "ReplaceSpace env s inputstr outstr =
    (if s = [] then s
     else let replaced = (case outstr of None \<Rightarrow> [] | Some r \<Rightarrow> r);
              pat = (case inputstr of None \<Rightarrow> default_blanks | Some p \<Rightarrow> if p = [] then default_blanks else p)
          in case regex_replace env s pat replaced of None \<Rightarrow> s | Some out \<Rightarrow> out)"

section \<open>Relative dates\<close>

definition stringdaystamp :: "(bytes \<times> int) list" where
  "stringdaystamp = [
    ([210, 187, 204, 236, 199, 176], 1 * dayseconds), ([49, 204, 236, 199, 176], 1 * dayseconds),
    ([182, 254, 204, 236, 199, 176], 2 * dayseconds), ([50, 204, 236, 199, 176], 2 * dayseconds),
    ([193, 189, 204, 236, 199, 176], 2 * dayseconds), ([200, 253, 204, 236, 199, 176], 3 * dayseconds),
    ([51, 204, 236, 199, 176], 3 * dayseconds), ([203, 196, 204, 236, 199, 176], 4 * dayseconds),
    ([52, 204, 236, 199, 176], 4 * dayseconds), ([206, 229, 204, 236, 199, 176], 5 * dayseconds),
    ([53, 204, 236, 199, 176], 5 * dayseconds), ([193, 249, 204, 236, 199, 176], 6 * dayseconds),
    ([54, 204, 236, 199, 176], 6 * dayseconds)]"

definition stringminstamp :: "(bytes \<times> int) list" where
  "stringminstamp = [
    ([210, 187, 183, 214, 214, 211, 199, 176], 1 * minuteseconds),
    ([49, 183, 214, 214, 211, 199, 176], 1 * minuteseconds),
    ([182, 254, 183, 214, 214, 211, 199, 176], 2 * minuteseconds),
    ([50, 183, 214, 214, 211, 199, 176], 2 * minuteseconds),
    ([200, 253, 183, 214, 214, 211, 199, 176], 3 * minuteseconds),
    ([51, 183, 214, 214, 211, 199, 176], 3 * minuteseconds),
    ([203, 196, 183, 214, 214, 211, 199, 176], 4 * minuteseconds),
    ([52, 183, 214, 214, 211, 199, 176], 4 * minuteseconds),
    ([206, 229, 183, 214, 214, 211, 199, 176], 5 * minuteseconds),
    ([53, 183, 214, 214, 211, 199, 176], 5 * minuteseconds),
    ([193, 249, 183, 214, 214, 211, 199, 176], 6 * minuteseconds),
    ([54, 183, 214, 214, 211, 199, 176], 6 * minuteseconds),
    ([198, 223, 183, 214, 214, 211, 199, 176], 7 * minuteseconds),
    ([55, 183, 214, 214, 211, 199, 176], 7 * minuteseconds),
    ([176, 203, 183, 214, 214, 211, 199, 176], 8 * minuteseconds),
    ([56, 183, 214, 214, 211, 199, 176], 8 * minuteseconds),
    ([190, 197, 183, 214, 214, 211, 199, 176], 9 * minuteseconds),
    ([57, 183, 214, 214, 211, 199, 176], 9 * minuteseconds),
    ([202, 174, 183, 214, 214, 211, 199, 176], 10 * minuteseconds),
    ([49, 48, 183, 214, 214, 211, 199, 176], 10 * minuteseconds),
    ([202, 174, 210, 187, 183, 214, 214, 211, 199, 176], 11 * minuteseconds),
    ([49, 49, 183, 214, 214, 211, 199, 176], 11 * minuteseconds),
    ([202, 174, 182, 254, 183, 214, 214, 211, 199, 176], 12 * minuteseconds),
    ([49, 50, 183, 214, 214, 211, 199, 176], 12 * minuteseconds),
    ([202, 174, 200, 253, 183, 214, 214, 211, 199, 176], 13 * minuteseconds),
    ([49, 51, 183, 214, 214, 211, 199, 176], 13 * minuteseconds),
    ([202, 174, 203, 196, 183, 214, 214, 211, 199, 176], 14 * minuteseconds),
    ([49, 52, 183, 214, 214, 211, 199, 176], 14 * minuteseconds),
    ([202, 174, 206, 229, 183, 214, 214, 211, 199, 176], 15 * minuteseconds),
    ([49, 53, 183, 214, 214, 211, 199, 176], 15 * minuteseconds),
    ([202, 174, 193, 249, 183, 214, 214, 211, 199, 176], 16 * minuteseconds),
    ([49, 54, 183, 214, 214, 211, 199, 176], 16 * minuteseconds),
    ([202, 174, 198, 223, 183, 214, 214, 211, 199, 176], 17 * minuteseconds),
    ([49, 55, 183, 214, 214, 211, 199, 176], 17 * minuteseconds),
    ([202, 174, 176, 203, 183, 214, 214, 211, 199, 176], 18 * minuteseconds),
    ([49, 56, 183, 214, 214, 211, 199, 176], 18 * minuteseconds),
    ([202, 174, 190, 197, 183, 214, 214, 211, 199, 176], 19 * minuteseconds),
    ([49, 57, 183, 214, 214, 211, 199, 176], 19 * minuteseconds),
    ([182, 254, 202, 174, 183, 214, 214, 211, 199, 176], 20 * minuteseconds),
    ([49, 48, 183, 214, 214, 211, 199, 176], 20 * minuteseconds),
    ([182, 254, 202, 174, 210, 187, 183, 214, 214, 211, 199, 176], 21 * minuteseconds),
    ([50, 49, 183, 214, 214, 211, 199, 176], 21 * minuteseconds),
    ([182, 254, 202, 174, 182, 254, 183, 214, 214, 211, 199, 176], 22 * minuteseconds),
    ([50, 50, 183, 214, 214, 211, 199, 176], 22 * minuteseconds),
    ([182, 254, 202, 174, 200, 253, 183, 214, 214, 211, 199, 176], 23 * minuteseconds),
    ([50, 51, 183, 214, 214, 211, 199, 176], 23 * minuteseconds),
    ([182, 254, 202, 174, 203, 196, 183, 214, 214, 211, 199, 176], 24 * minuteseconds),
    ([50, 52, 183, 214, 214, 211, 199, 176], 24 * minuteseconds),
    ([182, 254, 202, 174, 206, 229, 183, 214, 214, 211, 199, 176], 25 * minuteseconds),
    ([50, 53, 183, 214, 214, 211, 199, 176], 25 * minuteseconds),
    ([182, 254, 202, 174, 193, 249, 183, 214, 214, 211, 199, 176], 26 * minuteseconds),
    ([50, 54, 183, 214, 214, 211, 199, 176], 26 * minuteseconds),
    ([182, 254, 202, 174, 198, 223, 183, 214, 214, 211, 199, 176], 27 * minuteseconds),
    ([50, 55, 183, 214, 214, 211, 199, 176], 27 * minuteseconds),
    ([182, 254, 202, 174, 176, 203, 183, 214, 214, 211, 199, 176], 28 * minuteseconds),
    ([50, 56, 183, 214, 214, 211, 199, 176], 28 * minuteseconds),
    ([182, 254, 202, 174, 190, 197, 183, 214, 214, 211, 199, 176], 29 * minuteseconds),
    ([50, 57, 183, 214, 214, 211, 199, 176], 29 * minuteseconds),
    ([200, 253, 202, 174, 183, 214, 214, 211, 199, 176], 30 * minuteseconds),
    ([176, 235, 208, 161, 202, 177, 199, 176], 30 * minuteseconds),
    ([51, 48, 183, 214, 214, 211, 199, 176], 30 * minuteseconds),
    ([200, 253, 202, 174, 210, 187, 183, 214, 214, 211, 199, 176], 31 * minuteseconds),
    ([51, 49, 183, 214, 214, 211, 199, 176], 31 * minuteseconds),
    ([200, 253, 202, 174, 182, 254, 183, 214, 214, 211, 199, 176], 32 * minuteseconds),
    ([51, 50, 183, 214, 214, 211, 199, 176], 32 * minuteseconds),
    ([200, 253, 202, 174, 200, 253, 183, 214, 214, 211, 199, 176], 33 * minuteseconds),
    ([51, 51, 183, 214, 214, 211, 199, 176], 33 * minuteseconds),
    ([200, 253, 202, 174, 203, 196, 183, 214, 214, 211, 199, 176], 34 * minuteseconds),
    ([51, 52, 183, 214, 214, 211, 199, 176], 34 * minuteseconds),
    ([200, 253, 202, 174, 206, 229, 183, 214, 214, 211, 199, 176], 35 * minuteseconds),
    ([51, 53, 183, 214, 214, 211, 199, 176], 35 * minuteseconds),
    ([200, 253, 202, 174, 193, 249, 183, 214, 214, 211, 199, 176], 36 * minuteseconds),
    ([51, 54, 183, 214, 214, 211, 199, 176], 36 * minuteseconds),
    ([200, 253, 202, 174, 198, 223, 183, 214, 214, 211, 199, 176], 37 * minuteseconds),
    ([51, 55, 183, 214, 214, 211, 199, 176], 37 * minuteseconds),
    ([200, 253, 202, 174, 176, 203, 183, 214, 214, 211, 199, 176], 38 * minuteseconds),
    ([51, 56, 183, 214, 214, 211, 199, 176], 38 * minuteseconds),
    ([200, 253, 202, 174, 190, 197, 183, 214, 214, 211, 199, 176], 39 * minuteseconds),
    ([51, 57, 183, 214, 214, 211, 199, 176], 39 * minuteseconds),
    ([203, 196, 202, 174, 183, 214, 214, 211, 199, 176], 40 * minuteseconds),
    ([52, 48, 183, 214, 214, 211, 199, 176], 40 * minuteseconds),
    ([203, 196, 202, 174, 210, 187, 183, 214, 214, 211, 199, 176], 41 * minuteseconds),
    ([52, 49, 183, 214, 214, 211, 199, 176], 41 * minuteseconds),
    ([203, 196, 202, 174, 182, 254, 183, 214, 214, 211, 199, 176], 42 * minuteseconds),
    ([52, 50, 183, 214, 214, 211, 199, 176], 42 * minuteseconds),
    ([203, 196, 202, 174, 200, 253, 183, 214, 214, 211, 199, 176], 43 * minuteseconds),
    ([52, 51, 183, 214, 214, 211, 199, 176], 43 * minuteseconds),
    ([203, 196, 202, 174, 203, 196, 183, 214, 214, 211, 199, 176], 44 * minuteseconds),
    ([52, 52, 183, 214, 214, 211, 199, 176], 44 * minuteseconds),
    ([203, 196, 202, 174, 206, 229, 183, 214, 214, 211, 199, 176], 45 * minuteseconds),
    ([52, 53, 183, 214, 214, 211, 199, 176], 45 * minuteseconds),
    ([203, 196, 202, 174, 193, 249, 183, 214, 214, 211, 199, 176], 46 * minuteseconds),
    ([52, 54, 183, 214, 214, 211, 199, 176], 46 * minuteseconds),
    ([203, 196, 202, 174, 198, 223, 183, 214, 214, 211, 199, 176], 47 * minuteseconds),
    ([52, 55, 183, 214, 214, 211, 199, 176], 47 * minuteseconds),
    ([203, 196, 202, 174, 176, 203, 183, 214, 214, 211, 199, 176], 48 * minuteseconds),
    ([52, 56, 183, 214, 214, 211, 199, 176], 48 * minuteseconds),
    ([203, 196, 202, 174, 190, 197, 183, 214, 214, 211, 199, 176], 49 * minuteseconds),
    ([52, 57, 183, 214, 214, 211, 199, 176], 49 * minuteseconds),
    ([206, 229, 202, 174, 183, 214, 214, 211, 199, 176], 50 * minuteseconds),
    ([53, 48, 183, 214, 214, 211, 199, 176], 50 * minuteseconds),
    ([206, 229, 202, 174, 210, 187, 183, 214, 214, 211, 199, 176], 51 * minuteseconds),
    ([53, 49, 183, 214, 214, 211, 199, 176], 51 * minuteseconds),
    ([206, 229, 202, 174, 182, 254, 183, 214, 214, 211, 199, 176], 52 * minuteseconds),
    ([53, 50, 183, 214, 214, 211, 199, 176], 52 * minuteseconds),
    ([206, 229, 202, 174, 200, 253, 183, 214, 214, 211, 199, 176], 53 * minuteseconds),
    ([53, 51, 183, 214, 214, 211, 199, 176], 53 * minuteseconds),
    ([206, 229, 202, 174, 203, 196, 183, 214, 214, 211, 199, 176], 54 * minuteseconds),
    ([53, 52, 183, 214, 214, 211, 199, 176], 54 * minuteseconds),
    ([206, 229, 202, 174, 206, 229, 183, 214, 214, 211, 199, 176], 55 * minuteseconds),
    ([53, 53, 183, 214, 214, 211, 199, 176], 55 * minuteseconds),
    ([206, 229, 202, 174, 193, 249, 183, 214, 214, 211, 199, 176], 56 * minuteseconds),
    ([53, 54, 183, 214, 214, 211, 199, 176], 56 * minuteseconds),
    ([206, 229, 202, 174, 198, 223, 183, 214, 214, 211, 199, 176], 57 * minuteseconds),
    ([53, 55, 183, 214, 214, 211, 199, 176], 57 * minuteseconds),
    ([206, 229, 202, 174, 176, 203, 183, 214, 214, 211, 199, 176], 58 * minuteseconds),
    ([53, 56, 183, 214, 214, 211, 199, 176], 58 * minuteseconds),
    ([206, 229, 202, 174, 190, 197, 183, 214, 214, 211, 199, 176], 59 * minuteseconds),
    ([53, 57, 183, 214, 214, 211, 199, 176], 59 * minuteseconds)]"

definition stringhourstamp :: "(bytes \<times> int) list" where
  "stringhourstamp = [
    ([210, 187, 208, 161, 202, 177, 199, 176], 1 * hourseconds), ([49, 208, 161, 202, 177, 199, 176], 1 * hourseconds),
    ([182, 254, 208, 161, 202, 177, 199, 176], 2 * hourseconds), ([50, 208, 161, 202, 177, 199, 176], 2 * hourseconds),
    ([200, 253, 208, 161, 202, 177, 199, 176], 3 * hourseconds), ([51, 208, 161, 202, 177, 199, 176], 3 * hourseconds),
    ([203, 196, 208, 161, 202, 177, 199, 176], 4 * hourseconds), ([52, 208, 161, 202, 177, 199, 176], 4 * hourseconds),
    ([206, 229, 208, 161, 202, 177, 199, 176], 5 * hourseconds), ([53, 208, 161, 202, 177, 199, 176], 5 * hourseconds),
    ([193, 249, 208, 161, 202, 177, 199, 176], 6 * hourseconds), ([54, 208, 161, 202, 177, 199, 176], 6 * hourseconds),
    ([198, 223, 208, 161, 202, 177, 199, 176], 7 * hourseconds), ([55, 208, 161, 202, 177, 199, 176], 7 * hourseconds),
    ([176, 203, 208, 161, 202, 177, 199, 176], 8 * hourseconds), ([56, 208, 161, 202, 177, 199, 176], 8 * hourseconds),
    ([190, 197, 208, 161, 202, 177, 199, 176], 9 * hourseconds), ([57, 208, 161, 202, 177, 199, 176], 9 * hourseconds),
    ([202, 174, 208, 161, 202, 177, 199, 176], 10 * hourseconds),
    ([49, 48, 208, 161, 202, 177, 199, 176], 10 * hourseconds),
    ([202, 174, 210, 187, 208, 161, 202, 177, 199, 176], 11 * hourseconds),
    ([49, 49, 208, 161, 202, 177, 199, 176], 11 * hourseconds),
    ([202, 174, 182, 254, 208, 161, 202, 177, 199, 176], 12 * hourseconds),
    ([49, 50, 208, 161, 202, 177, 199, 176], 12 * hourseconds),
    ([202, 174, 200, 253, 208, 161, 202, 177, 199, 176], 13 * hourseconds),
    ([49, 51, 208, 161, 202, 177, 199, 176], 13 * hourseconds),
    ([202, 174, 203, 196, 208, 161, 202, 177, 199, 176], 14 * hourseconds),
    ([49, 52, 208, 161, 202, 177, 199, 176], 14 * hourseconds),
    ([202, 174, 206, 229, 208, 161, 202, 177, 199, 176], 15 * hourseconds),
    ([49, 53, 208, 161, 202, 177, 199, 176], 15 * hourseconds),
    ([202, 174, 193, 249, 208, 161, 202, 177, 199, 176], 16 * hourseconds),
    ([49, 54, 208, 161, 202, 177, 199, 176], 16 * hourseconds),
    ([202, 174, 198, 223, 208, 161, 202, 177, 199, 176], 17 * hourseconds),
    ([49, 55, 208, 161, 202, 177, 199, 176], 17 * hourseconds),
    ([202, 174, 176, 203, 208, 161, 202, 177, 199, 176], 18 * hourseconds),
    ([49, 56, 208, 161, 202, 177, 199, 176], 18 * hourseconds),
    ([202, 174, 190, 197, 208, 161, 202, 177, 199, 176], 19 * hourseconds),
    ([49, 57, 208, 161, 202, 177, 199, 176], 19 * hourseconds),
    ([182, 254, 202, 174, 208, 161, 202, 177, 199, 176], 20 * hourseconds),
    ([50, 48, 208, 161, 202, 177, 199, 176], 20 * hourseconds),
    ([182, 254, 202, 174, 210, 187, 208, 161, 202, 177, 199, 176], 21 * hourseconds),
    ([50, 49, 208, 161, 202, 177, 199, 176], 21 * hourseconds),
    ([182, 254, 202, 174, 182, 254, 208, 161, 202, 177, 199, 176], 22 * hourseconds),
    ([50, 50, 208, 161, 202, 177, 199, 176], 22 * hourseconds),
    ([182, 254, 202, 174, 200, 253, 208, 161, 202, 177, 199, 176], 23 * hourseconds),
    ([50, 51, 208, 161, 202, 177, 199, 176], 23 * hourseconds)]"

definition stringweekstamp :: "(bytes \<times> int) list" where
  "stringweekstamp = [
    ([210, 187, 214, 220, 199, 176], 1 * weekseconds), ([49, 214, 220, 199, 176], 1 * weekseconds),
    ([182, 254, 214, 220, 199, 176], 2 * weekseconds), ([50, 214, 220, 199, 176], 2 * weekseconds),
    ([200, 253, 214, 220, 199, 176], 3 * weekseconds), ([51, 214, 220, 199, 176], 3 * weekseconds),
    ([203, 196, 214, 220, 199, 176], 4 * weekseconds), ([52, 214, 220, 199, 176], 4 * weekseconds)]"


text \<open>\<open>Findstr\<close>: the first entry of the table that occurs anywhere in the text.\<close>

fun Findstr :: "tenv \<Rightarrow> bytes \<Rightarrow> (bytes \<times> int) list \<Rightarrow> cdt \<Rightarrow> bool \<times> cdt" where
  "Findstr env text [] st = (False, st)"
| "Findstr env text ((s, n) # tab) st =
    (if text = s \<or> str_find s text then (True, set_stamp env (now env - (n + 1)) st)
     else Findstr env text tab st)"

definition ParseStepFirst :: "tenv \<Rightarrow> bytes \<Rightarrow> cdt \<Rightarrow> bool \<times> cdt" where
  "ParseStepFirst env text st =
    (let text = ReplaceSpace env text None None
     in if str_find [189, 241, 204, 236] text then (True, ClearHourMinuteSecond (set_stamp env (now env) st))
        else if str_find [215, 242, 204, 236] text then (True, ClearHourMinuteSecond (set_stamp env (now env - dayseconds) st))
        else if str_find [199, 176, 204, 236] text then (True, ClearHourMinuteSecond (set_stamp env (now env - dayseconds * 2) st))
        else if str_find [183, 214, 214, 211, 199, 176] text then Findstr env text stringminstamp st
        else if str_find [208, 161, 202, 177, 199, 176] text then Findstr env text stringhourstamp st
        else if str_find [204, 236, 199, 176] text
        then (let (ret, st) = Findstr env text stringdaystamp st in (ret, ClearHourMinuteSecond st))
        else if str_find [214, 220, 199, 176] text
        then (let (ret, st) = Findstr env text stringweekstamp st in (ret, ClearHourMinuteSecond st))
        else (False, st))"

section \<open>Dates with an English month\<close>

text \<open>The digits that end the text before \<open>p\<close>, once blanks are removed; \<open>-1\<close> if there are none.\<close>

definition getHeaderDigit :: "tenv \<Rightarrow> bytes \<Rightarrow> int \<Rightarrow> int" where
  "getHeaderDigit env text p =
    (if p < 1 then -1
     else let text = ReplaceSpace env (take (nat p) text) None (Some []);
              ds = takeWhile ISDIGIT (rev text)
          in if length ds = length text then atoi text
             else if ds = [] then -1 else atoi (rev ds))"

definition year_1930 :: "int \<Rightarrow> int" where
  "year_1930 y = (if y > 29 then y else y + 100)"

definition set_ymd :: "int \<Rightarrow> int \<Rightarrow> int \<Rightarrow> cdt \<Rightarrow> cdt" where
  "set_ymd year month day st =
    (let t = sTm st;
         t = (if year \<noteq> -1 then t\<lparr>tm_year := year_1930 (if year < 1900 then year else year - 1900)\<rparr> else t)
     in st\<lparr>sTm := t\<lparr>tm_mon := month, tm_mday := (if day \<noteq> -1 then day else 1)\<rparr>\<rparr>)"

definition getYMD :: "tenv \<Rightarrow> bytes \<Rightarrow> int \<Rightarrow> int \<Rightarrow> cdt \<Rightarrow> bool \<times> cdt" where
  "getYMD env text month p st =
    (let year = getHeaderDigit env text p; p0 = findDigit text p
     in if p0 = -1 \<and> year = -1 then (False, st)
        else let p1 = findNonDigit text p0
        in if p0 = -1 \<and> p1 = -1 then (False, st)
           else let day = (if p1 \<noteq> 0 \<and> p0 \<noteq> -1 then atoi (drop (nat p0) text) else -1);
                    year = (if year = -1 \<and> p1 \<noteq> -1 \<and> p0 \<noteq> -1
                            then let p2 = findDigit text p1
                                 in if p2 \<noteq> -1 \<and> findNonDigit text p2 = -1 then atoi (drop (nat p2) text) else year
                            else year);
                    (day, year) = (if day > 31 \<or> year \<ge> 0 \<and> day = -1 then (year, day) else (day, year))
                in (True, set_ymd year month day st))"

fun english_loop :: "tenv \<Rightarrow> bytes \<Rightarrow> bytes list \<Rightarrow> nat \<Rightarrow> cdt \<Rightarrow> bool \<times> cdt" where
  "english_loop env text [] i st = (False, st)"
| "english_loop env text (m # ms) i st =
    (let p = indexOfIgoreCase text m
     in if p > -1 then getYMD env text (int i) p st else english_loop env text ms (i + 1) st)"

definition parse_english :: "tenv \<Rightarrow> bytes \<Rightarrow> cdt \<Rightarrow> bool \<times> cdt" where
  "parse_english env text st = english_loop env text month_names 0 st"

section \<open>Times\<close>

text \<open>
  The search for a colon between two digits; \<open>None\<close> when the last character of the text is reached
  (the function then returns \<open>false\<close>), \<open>Some None\<close> when there is none.
\<close>

fun colon_scan :: "bytes \<Rightarrow> nat list \<Rightarrow> nat option option" where
  "colon_scan text [] = Some None"
| "colon_scan text (c # cs) =
    (if c = 0 then colon_scan text cs
     else if c = length text - 1 then None
     else if ISDIGIT (text ! (c - 1)) \<and> ISDIGIT (text ! (c + 1)) then Some (Some c)
     else colon_scan text cs)"

definition colons :: "bytes \<Rightarrow> nat list" where
  "colons text = filter (\<lambda>i. text ! i = 58) [0..<length text]"

text \<open>One token of the time: the last two characters of the first, all of the second, two characters of the third.\<close>

definition set_hms :: "bool \<Rightarrow> bool \<Rightarrow> nat \<Rightarrow> bytes \<Rightarrow> tm \<Rightarrow> tm" where
  "set_hms isam ispm i tok t =
    (if i = 0
     then let h = atoi (dropWhile (\<lambda>c. \<not> ISDIGIT c) (drop (length tok - 2) tok))
          in t\<lparr>tm_hour := (if isam then \<bar>if h = 12 then 0 else h\<bar> else if ispm then h + 12 else h)\<rparr>
     else if i = 1 then t\<lparr>tm_min := atoi tok\<rparr>
     else if i = 2 then t\<lparr>tm_sec := atoi (take 2 tok)\<rparr>
     else t)"

fun hms_loop :: "bool \<Rightarrow> bool \<Rightarrow> nat \<Rightarrow> bytes list \<Rightarrow> tm \<Rightarrow> tm" where
  "hms_loop isam ispm i [] t = t"
| "hms_loop isam ispm i (tok # toks) t = hms_loop isam ispm (i + 1) toks (set_hms isam ispm i tok t)"

definition getHMS :: "tenv \<Rightarrow> bytes \<Rightarrow> cdt \<Rightarrow> bool \<times> cdt" where
  "getHMS env text st =
    (let text = ReplaceSpace env text (Some [202, 177, 124, 183, 214]) (Some [58]);
         text = ReplaceSpace env text (Some [195, 235]) (Some [32])
     in case colon_scan text (colons text) of
          None \<Rightarrow> (False, st)
        | Some None \<Rightarrow> (False, st)
        | Some (Some c) \<Rightarrow>
            let s = take 20 (drop (c - 4) text);
                isam = (str_find [97, 109] s \<or> str_find [65, 77] s);
                ispm = (str_find [112, 109] s \<or> str_find [80, 77] s);
                t = sTm st;
                t = (if isam then t\<lparr>tm_hour := -12\<rparr> else t);
                t = (if ispm then t\<lparr>tm_hour := 12\<rparr> else t);
                s = ReplaceSpace env s (Some [97, 124, 65, 124, 112, 124, 80, 124, 109, 124, 77]) (Some [])
            in (True, st\<lparr>sTm := hms_loop isam ispm 0 (tokens {58} s) t\<rparr>))"

section \<open>Numeric dates\<close>

text \<open>\<open>parseYMD\<close>: the numbers of the first ten tokens, each at the place of its token.\<close>

definition date_of_token :: "bytes \<Rightarrow> int option" where
  "date_of_token tok =
    (let p = findDigit tok 0
     in if p \<noteq> -1 \<and> 58 \<notin> set tok then Some (atoi (drop (nat p) tok)) else None)"

definition date_numbers :: "bytes list \<Rightarrow> int option list" where
  "date_numbers toks = map date_of_token (take 10 toks)"

definition date_array :: "int option list \<Rightarrow> int list" where
  "date_array ns = map (\<lambda>n. case n of None \<Rightarrow> 0 | Some v \<Rightarrow> v) ns @ replicate (10 - length ns) 0"

fun pick_ymd :: "int list \<Rightarrow> int \<Rightarrow> int \<Rightarrow> int \<Rightarrow> int \<times> int \<times> int" where
  "pick_ymd [] year month day = (year, month, day)"
| "pick_ymd (n # ns) year month day =
    (if year = 0 \<and> (n > 1900 \<or> n > 0 \<and> n < 99)
     then pick_ymd ns (if n > 1900 then n - 1900 else n) month day
     else if month = 0 \<and> n < 12 \<and> day = 0 then pick_ymd ns year n day
     else if day = 0 \<and> n < 31 \<and> (year \<noteq> 0 \<or> month \<noteq> 0) then pick_ymd ns year month n
     else if year \<noteq> 0 \<and> month \<noteq> 0 \<and> day \<noteq> 0 then (year, month, day)
     else pick_ymd ns year month day)"

definition parseYMD :: "tenv \<Rightarrow> bytes \<Rightarrow> cdt \<Rightarrow> bool \<times> cdt" where
  "parseYMD env text st =
    (let text = ReplaceSpace env text (Some [32, 124, 92, 46, 124, 45, 124, 92, 92, 124, 163, 173, 124, 196, 234, 124, 212, 194, 124, 200, 213]) (Some [47]);
         ns = date_numbers (tokens {47} text)
     in if length (filter (\<lambda>n. n \<noteq> None) ns) < 2 then (False, st)
        else let (year, month, day) = pick_ymd (date_array ns) 0 0 0; t = sTm st
        in if year \<noteq> 0 \<and> month \<noteq> 0 \<or> month \<noteq> 0 \<and> day \<noteq> 0
           then (True, st\<lparr>sTm := t\<lparr>tm_year := year_1930 year, tm_mon := (if month > 0 then month - 1 else 0),
                                   tm_mday := (if day = 0 then 1 else day)\<rparr>\<rparr>)
           else if year \<noteq> 0 \<and> day \<noteq> 0
           then (True, st\<lparr>sTm := t\<lparr>tm_mon := (if year > 0 then year - 1 else 0),
                                   tm_mday := (if day = 0 then 1 else day)\<rparr>\<rparr>)
           else (False, st))"

section \<open>Dates in a given format\<close>

record date_fields =
  f_year :: bytes
  f_month :: bytes
  f_day :: bytes
  f_hour :: bytes
  f_min :: bytes
  f_sec :: bytes

text \<open>The digits from \<open>c0\<close> on; the character after them is consumed too.\<close>

fun take_digits :: "u8 \<Rightarrow> bytes \<Rightarrow> bytes \<times> bytes" where
  "take_digits c0 [] = (if ISDIGIT c0 then [c0] else [], [])"
| "take_digits c0 (c # s) =
    (if ISDIGIT c0 then let (ds, rest) = take_digits c s in (c0 # ds, rest) else ([], c # s))"

text \<open>The letters of one field from \<open>cf\<close> on; the character after them is consumed too.\<close>

fun drop_letters :: "u8 set \<Rightarrow> u8 \<Rightarrow> bytes \<Rightarrow> bytes" where
  "drop_letters cs cf [] = []"
| "drop_letters cs cf (c # p) = (if cf \<in> cs then drop_letters cs c p else c # p)"

lemma take_digits_le: "length (snd (take_digits c0 s)) \<le> length s"
  by (induction c0 s rule: take_digits.induct) (auto split: prod.splits)

lemma take_digits_snd: "(ds, rest) = take_digits c0 s \<Longrightarrow> length rest < Suc (length s)"
  using take_digits_le [of c0 s] by (cases "take_digits c0 s") auto

text \<open>The fields by the letter that begins them: \<open>Yy\<close>, \<open>M\<close>, \<open>Dd\<close>, \<open>Hh\<close>, \<open>m\<close>, \<open>Ss\<close>.\<close>

definition field_letters :: "u8 \<Rightarrow> u8 set" where
  "field_letters cf =
    (if cf \<in> {89, 121} then {89, 121} else if cf = 77 then {77} else if cf \<in> {68, 100} then {68, 100}
     else if cf \<in> {72, 104} then {72, 104} else if cf = 109 then {109}
     else if cf \<in> {115, 83} then {115, 83} else {})"

definition add_field :: "u8 \<Rightarrow> bytes \<Rightarrow> date_fields \<Rightarrow> date_fields" where
  "add_field cf ds f =
    (if cf \<in> {89, 121} then f\<lparr>f_year := f_year f @ ds\<rparr> else if cf = 77 then f\<lparr>f_month := f_month f @ ds\<rparr>
     else if cf \<in> {68, 100} then f\<lparr>f_day := f_day f @ ds\<rparr> else if cf \<in> {72, 104} then f\<lparr>f_hour := f_hour f @ ds\<rparr>
     else if cf = 109 then f\<lparr>f_min := f_min f @ ds\<rparr> else f\<lparr>f_sec := f_sec f @ ds\<rparr>)"

text \<open>The loop: \<open>None\<close> is \<open>return false\<close>. After a quote the pattern character is read, but not passed.\<close>

function format_loop :: "bytes \<Rightarrow> bytes \<Rightarrow> date_fields \<Rightarrow> date_fields option result" where
  "format_loop [] p f = Inr (Some f)"
| "format_loop (c0 # s) [] f = Inl (Raise OutOfRange)"
| "format_loop (c0 # s) (q # p) f =
    (if q = 39 \<and> drop 1 p = [] then Inr None
     else let cf = (if q = 39 then hd (drop 1 p) else q); p = (if q = 39 then drop 1 p else p)
     in if field_letters cf \<noteq> {}
        then let (ds, rest) = take_digits c0 s; f = add_field cf ds f; p = drop_letters (field_letters cf) cf p
             in if p = [] then Inr (Some f) else format_loop rest p f
        else if c0 \<noteq> cf then Inr None
        else if p = [] then Inr (Some f) else format_loop s p f)"
  by pat_completeness auto
termination
  by (relation "measure (\<lambda>(s, p, f). length s)") (auto intro: take_digits_snd)

definition apply_fields :: "date_fields \<Rightarrow> cdt \<Rightarrow> cdt" where
  "apply_fields f st =
    (let st = (if f_year f \<noteq> []
               then let y = word_of_int (atoi (f_year f)) :: 16 word
                    in st\<lparr>sYear := y, sTm := (sTm st)\<lparr>tm_year := year_1930 (if uint y > 1900 then uint y - 1900 else uint y)\<rparr>\<rparr>
               else st);
         st = (if f_month f \<noteq> []
               then let m = word_of_int (atoi (f_month f)) :: u8
                    in st\<lparr>sMonth := m, sTm := (sTm st)\<lparr>tm_mon := (if uint m > 0 then uint m - 1 else 0)\<rparr>\<rparr>
               else st);
         st = (if f_day f \<noteq> [] then st\<lparr>sTm := (sTm st)\<lparr>tm_mday := atoi (f_day f)\<rparr>\<rparr> else st);
         st = (if f_hour f \<noteq> [] then st\<lparr>sTm := (sTm st)\<lparr>tm_hour := atoi (f_hour f)\<rparr>\<rparr> else st);
         st = (if f_min f \<noteq> [] then st\<lparr>sTm := (sTm st)\<lparr>tm_min := atoi (f_min f)\<rparr>\<rparr> else st)
     in if f_sec f \<noteq> [] then st\<lparr>sTm := (sTm st)\<lparr>tm_sec := atoi (f_sec f)\<rparr>\<rparr> else st)"

definition parseFormatDate :: "tenv \<Rightarrow> bytes \<Rightarrow> bytes \<Rightarrow> cdt \<Rightarrow> (bool \<times> cdt) result" where
  "parseFormatDate env s pattern st =
    bind_r (format_loop s pattern \<lparr>f_year = [], f_month = [], f_day = [], f_hour = [], f_min = [], f_sec = []\<rparr>) (\<lambda>f.
      case f of None \<Rightarrow> Inr (False, st) | Some f \<Rightarrow> Inr (True, make_stamp env (apply_fields f st)))"

section \<open>Entry points\<close>

definition ParseStepSecond :: "tenv \<Rightarrow> bytes \<Rightarrow> cdt \<Rightarrow> bool \<times> cdt" where
  "ParseStepSecond env text st =
    (let (ret, st) = parse_english env text st
     in if ret then (True, make_stamp env (snd (getHMS env text st))) else (False, st))"

definition ParseStepThird :: "tenv \<Rightarrow> bytes \<Rightarrow> cdt \<Rightarrow> bool \<times> cdt" where
  "ParseStepThird env text st =
    (let (ret, st) = parseYMD env text st
     in if ret then (True, make_stamp env (snd (getHMS env text st))) else (False, st))"

text \<open>\<open>ParseSteFourth\<close> (time that remains): the three groups of the pattern add days, hours and minutes.\<close>

definition add_group :: "bytes option \<Rightarrow> int \<Rightarrow> bool \<times> cdt \<Rightarrow> bool \<times> cdt" where
  "add_group g unit r =
    (case g of None \<Rightarrow> r | Some ds \<Rightarrow> (True, (snd r)\<lparr>sStamp := sStamp (snd r) + to_int (atoi ds * unit)\<rparr>))"

definition ParseSteFourth :: "tenv \<Rightarrow> bytes \<Rightarrow> cdt \<Rightarrow> bool \<times> cdt" where
  "ParseSteFourth env text st =
    (case remain_search env text of
       None \<Rightarrow> (False, st)
     | Some (d, h, m) \<Rightarrow>
         let (found, st) = add_group m minuteseconds (add_group h hourseconds (add_group d dayseconds (False, st)))
         in (found, set_stamp env (sStamp st) st))"

text \<open>\<open>defaultparse\<close> (outside Windows) and \<open>ParseSteFifth\<close> answer \<open>false\<close>.\<close>

definition try_steps :: "tenv \<Rightarrow> bytes \<Rightarrow> cdt \<Rightarrow> bool \<times> cdt" where
  "try_steps env text st =
    (let (r1, st) = ParseStepFirst env text st in if r1 then (True, st)
     else let (r2, st) = ParseStepSecond env text st in if r2 then (True, st)
     else let (r3, st) = ParseStepThird env text st in if r3 then (True, st)
     else let (r4, st) = ParseSteFourth env text st in if r4 then (True, st)
     else let (r6, st) = getHMS env text st
          in if r6 then (True, st\<lparr>sTm := (sTm st)\<lparr>tm_year := uint (sYear st), tm_mon := uint (sMonth st), tm_mday := uint (sDay st)\<rparr>\<rparr>)
             else (False, st))"

definition ParseDateTime :: "tenv \<Rightarrow> bytes option \<Rightarrow> bytes option \<Rightarrow> cdt \<Rightarrow> (bool \<times> cdt) result" where
  "ParseDateTime env input fmt st =
    (case input of None \<Rightarrow> Inr (False, st)
     | Some s \<Rightarrow>
         if s = [] then Inr (False, st)
         else bind_r (case fmt of None \<Rightarrow> Inr (False, st) | Some p \<Rightarrow> parseFormatDate env s p st) (\<lambda>(ret, st).
           if ret then Inr (True, st)
           else let s = ReplaceSpace env s (Some [181, 227]) (Some [202, 177]);
                    s = ReplaceSpace env (FilteTag s) None (Some [32])
                in if s = [] then Inr (False, st) else Inr (try_steps env s st)))"

definition GetTimestamp :: "tenv \<Rightarrow> bytes option \<Rightarrow> bool \<Rightarrow> bytes option \<Rightarrow> cdt \<Rightarrow> (bool \<times> int \<times> cdt) result" where
  "GetTimestamp env input decision fmt st =
    bind_r (ParseDateTime env input fmt st) (\<lambda>(ret, st).
      let st = (if decision \<and> sStamp st \<ge> now env then isOverCurTime env st else st)
      in Inr (ret, if ret \<and> sStamp st \<noteq> -1 then sStamp st else now env, st))"

definition GetDateStr :: "tenv \<Rightarrow> bytes option \<Rightarrow> bytes \<Rightarrow> bool \<Rightarrow> bytes option \<Rightarrow> cdt \<Rightarrow> (bool \<times> bytes \<times> cdt) result" where
  "GetDateStr env input outformat decision fmt st =
    bind_r (ParseDateTime env input fmt st) (\<lambda>(ret, st).
      if ret
      then let st = (if decision \<and> sStamp st \<ge> now env then isOverCurTime env st else st)
           in Inr (True, strftime env outformat (sTm st), st)
      else Inr (False, strftime env outformat (localtime env (now env)), st))"

end
