(* ===== verification/DateTimeProps.thy ===== *)
theory DateTimeProps
  imports DateTime
begin

text \<open>
  What the date parser promises: numbers are read back as printed, a date printed in a format is
  read back, a date that lies ahead is moved to the past, and removing tags never needs more room
  than the input. Also what it gets wrong: numeric dates in December and ages of eleven hours and more.
\<close>

section \<open>Formats\<close>

lemma take_digits_all:
  assumes "\<forall>d\<in>set (c # ds). ISDIGIT d" shows "take_digits c ds = (c # ds, [])"
  using assms by (induction c ds rule: take_digits.induct) auto

lemma take_digits_sep:
  assumes "\<forall>d\<in>set (c # ds). ISDIGIT d" "\<not> ISDIGIT x" shows "take_digits c (ds @ x # r) = (c # ds, r)"
  using assms by (induction ds arbitrary: c) (cases r; auto)+

lemma format_field:
  assumes "ds \<noteq> []" "\<forall>d\<in>set ds. ISDIGIT d" "field_letters cf \<noteq> {}" "cf \<noteq> 39"
  shows "drop_letters (field_letters cf) cf p \<noteq> [] \<Longrightarrow> \<not> ISDIGIT x \<Longrightarrow>
      format_loop (ds @ x # s) (cf # p) f = format_loop s (drop_letters (field_letters cf) cf p) (add_field cf ds f)"
    and "drop_letters (field_letters cf) cf p = [] \<Longrightarrow> format_loop ds (cf # p) f = Inr (Some (add_field cf ds f))"
proof -
  obtain c t where ds: "ds = c # t" using assms(1) by (cases ds) auto
  show "format_loop ds (cf # p) f = Inr (Some (add_field cf ds f))" if "drop_letters (field_letters cf) cf p = []"
    using that assms take_digits_all [of c t] by (simp add: ds)
  show "format_loop (ds @ x # s) (cf # p) f = format_loop s (drop_letters (field_letters cf) cf p) (add_field cf ds f)"
    if "drop_letters (field_letters cf) cf p \<noteq> []" "\<not> ISDIGIT x"
    using that assms take_digits_sep [of c t x s] by (simp add: ds)
qed

text \<open>\<open>yyyy-MM-dd HH:mm:ss\<close>, and a date printed in it.\<close>

definition iso_format :: bytes where
  "iso_format = [121, 121, 121, 121, 45, 77, 77, 45, 100, 100, 32, 72, 72, 58, 109, 109, 58, 115, 115]"

definition iso_date :: "nat \<Rightarrow> nat \<Rightarrow> nat \<Rightarrow> nat \<Rightarrow> nat \<Rightarrow> nat \<Rightarrow> bytes" where
  "iso_date y m d h mi s = dec_nat y @ 45 # pad2 m @ 45 # pad2 d @ 32 # pad2 h @ 58 # pad2 mi @ 58 # pad2 s"

lemma separators [simp]: "\<not> ISDIGIT 45" "\<not> ISDIGIT 32" "\<not> ISDIGIT 58" "\<not> ISDIGIT 47"
  by (simp_all add: ISDIGIT_def)

lemma iso_fields:
  "format_loop (iso_date y m d h mi s) iso_format \<lparr>f_year = [], f_month = [], f_day = [], f_hour = [], f_min = [], f_sec = []\<rparr>
   = Inr (Some \<lparr>f_year = dec_nat y, f_month = pad2 m, f_day = pad2 d, f_hour = pad2 h, f_min = pad2 mi, f_sec = pad2 s\<rparr>)"
  unfolding iso_date_def iso_format_def
  using dec_nat_digits pad2_digits
  by (simp add: format_field field_letters_def add_field_def del: format_loop.simps)

text \<open>
  C14. A date printed as \<open>YYYY-MM-DD hh:mm:ss\<close> is read back by \<open>parseFormatDate\<close> with that format: the
  fields that go to \<open>mktime\<close> are the ones that were printed, for every valid date from 1930 on.
\<close>

theorem format_date_roundtrip:
  assumes "ValidateDateTime (int y) (int m) (int d) (int h) (int mi) (int s)" "1930 \<le> y"
  shows "\<exists>st'. parseFormatDate env (iso_date y m d h mi s) iso_format st = Inr (True, make_stamp env st')
    \<and> sTm st' = (sTm st)\<lparr>tm_year := int y - 1900, tm_mon := int m - 1, tm_mday := int d, tm_hour := int h, tm_min := int mi, tm_sec := int s\<rparr>"
proof -
  have v: "1930 \<le> y" "y \<le> 9999" "0 < m" "m \<le> 12" "0 < d" "d \<le> 31" "h < 24" "mi < 60" "s < 60"
    using assms by (auto simp: ValidateDateTime_def ValidateDate_def ValidateMonth_def ValidateYear_def GetDaysOfMonth_def
        ValidateTime_def ValidateMinute_def ValidateHour_def split: if_splits)
  have a: "atoi (dec_nat y) = int y" "atoi (pad2 m) = int m" "atoi (pad2 d) = int d" "atoi (pad2 h) = int h"
    "atoi (pad2 mi) = int mi" "atoi (pad2 s) = int s"
    using v by (simp_all add: atoi_dec_nat atoi_pad2)
  have w: "uint (of_nat y :: 16 word) = int y" "uint (of_nat m :: u8) = int m"
    using v by (simp_all add: unsigned_of_nat take_bit_nat_eq_self)
  let ?f = "\<lparr>f_year = dec_nat y, f_month = pad2 m, f_day = pad2 d, f_hour = pad2 h, f_min = pad2 mi, f_sec = pad2 s\<rparr>"
  have "sTm (apply_fields ?f st) = (sTm st)\<lparr>tm_year := int y - 1900, tm_mon := int m - 1, tm_mday := int d,
      tm_hour := int h, tm_min := int mi, tm_sec := int s\<rparr>"
    using a w v by (simp add: apply_fields_def Let_def year_1930_def)
  then show ?thesis
    unfolding parseFormatDate_def iso_fields by auto
qed

section \<open>The calendar\<close>

text \<open>
  \<open>ValidateDate\<close> accepts 365 days in an ordinary year and 366 in a leap year, and rejects every day of
  a year outside 1 to 9999.
\<close>

theorem valid_days_per_year:
  "finite {(m, d). ValidateDate y m d} \<and> card {(m, d). ValidateDate y m d}
    = (if 1 \<le> y \<and> y \<le> 9999 then if IsLeapYear y then 366 else 365 else 0)"
proof (cases "1 \<le> y \<and> y \<le> 9999")
  case False
  then have "{(m, d). ValidateDate y m d} = {}"
    by (auto simp: ValidateDate_def ValidateMonth_def ValidateYear_def)
  then show ?thesis using False by simp
next
  case True
  then have eq: "{(m, d). ValidateDate y m d} = (SIGMA m:{1..12}. {1..GetDaysOfMonth y m})"
    by (auto simp: ValidateDate_def ValidateMonth_def ValidateYear_def)
  have ms: "{1..12} = {1, 2, 3, 4, 5, 6, 7, 8, 9, 10, 11, 12 :: int}"
    by (rule set_eqI, simp only: atLeastAtMost_iff insert_iff empty_iff) presburger
  have "(\<Sum>m\<in>{1..12}. nat (GetDaysOfMonth y m)) = (if IsLeapYear y then 366 else 365)"
    unfolding ms using True by (simp add: GetDaysOfMonth_def ValidateMonth_def ValidateYear_def)
  then show ?thesis unfolding eq using True by simp
qed

section \<open>Dates ahead\<close>

text \<open>
  \<open>isOverCurTime\<close> hands \<open>mktime\<close> a date that is not after today, with the month, the day and the
  time of the one it was given; a date that was not ahead is handed over unchanged.
\<close>

theorem over_current_time_goes_back:
  "\<exists>t. isOverCurTime env st = make_stamp env (st\<lparr>sTm := t\<rparr>)
    \<and> (let cur = localtime env (now env); old = sTm st;
          le = (\<lambda>a b. tm_year a < tm_year b \<or> tm_year a = tm_year b \<and>
                 (tm_mon a < tm_mon b \<or> tm_mon a = tm_mon b \<and> tm_mday a \<le> tm_mday b))
       in le t cur \<and> (le old cur \<longrightarrow> t = old) \<and> tm_year t \<le> tm_year old
          \<and> t = old\<lparr>tm_year := tm_year t\<rparr>)"
  by (intro exI [of _ "back_to_past (localtime env (now env)) (sTm st)"])
     (auto simp: isOverCurTime_def back_to_past_def Let_def split: if_splits)


section \<open>Tags\<close>

text \<open>
  \<open>FilteTag\<close> never writes more than it reads, so the buffer of \<open>ParseDateTime\<close>, one byte longer than the
  text, is large enough; and nothing of the form \<open><\<close> remains.
\<close>

theorem filte_tag_fits: "length (FilteTag s) \<le> length s \<and> 60 \<notin> set (FilteTag s)"
proof (induction s rule: FilteTag.induct)
  case (1 s)
  let ?r = "dropWhile (\<lambda>c. c \<noteq> 60) s"
  let ?b = "takeWhile (\<lambda>c. c \<noteq> 60) s"
  show ?case
  proof (cases "?r = []")
    case True
    then show ?thesis by (auto simp: FilteTag.simps [of s])
  next
    case False
    have "length s = length ?b + length ?r" by (metis length_append takeWhile_dropWhile_id)
    moreover have "length (after_tag (tl ?r)) < length ?r"
      using after_tag_le [of "tl ?r"] False by (cases ?r) auto
    ultimately show ?thesis
      using 1 [OF False] False by (auto simp: FilteTag.simps [of s] dest: set_takeWhileD)
  qed
qed

section \<open>Numeric dates\<close>

lemma tokens_sep:
  assumes "ds \<noteq> []" "\<forall>c\<in>set ds. c \<notin> delim" "x \<in> delim"
  shows "tokens delim (ds @ x # r) = ds # tokens delim r" "tokens delim ds = [ds]"
proof -
  obtain c t where ds: "ds = c # t" using assms(1) by (cases ds) auto
  have d: "dropWhile (\<lambda>c. c \<in> delim) (ds @ u) = ds @ u" for u using assms(2) by (simp add: ds)
  have t: "takeWhile (\<lambda>c. c \<notin> delim) (ds @ x # r) = ds" "dropWhile (\<lambda>c. c \<notin> delim) (ds @ x # r) = x # r"
    using assms(2,3) by (simp_all add: takeWhile_append2 dropWhile_append2)
  have a: "takeWhile (\<lambda>c. c \<notin> delim) ds = ds" "dropWhile (\<lambda>c. c \<notin> delim) ds = []"
    using assms(2) by (simp_all add: takeWhile_eq_all_conv)
  show "tokens delim (ds @ x # r) = ds # tokens delim r"
    by (subst tokens.simps) (simp add: mystrtok_r_def d t ds [symmetric] assms(1))
  have "tokens delim [] = []" by (subst tokens.simps) (simp add: mystrtok_r_def)
  then show "tokens delim ds = [ds]"
    using d [of "[]"] by (subst tokens.simps) (simp add: mystrtok_r_def a assms(1))
qed

lemma date_of_digits:
  assumes "ds \<noteq> []" "\<forall>c\<in>set ds. ISDIGIT c" shows "date_of_token ds = Some (atoi ds)"
proof -
  obtain c t where ds: "ds = c # t" using assms(1) by (cases ds) auto
  have "findDigit ds 0 = 0" using assms(2) by (simp add: findDigit_def ds)
  moreover have "58 \<notin> set ds" using assms(2) separators by blast
  ultimately show ?thesis by (simp add: date_of_token_def)
qed

lemma pick_numeric:
  assumes "1900 < y" "1 \<le> m" "m \<le> 12" "1 \<le> d" "d \<le> 31"
  shows "pick_ymd [y, m, d, 0, 0, 0, 0, 0, 0, 0] 0 0 0
    = (if m < 12 then (y - 1900, m, if d < 31 then d else 0) else (y - 1900, 0, 12))"
  using assms by (auto simp: not_less)

text \<open>
  \<open>parseYMD\<close> on a year, a month and a day with separators between them: right from January to
  November up to the 30th; the 31st becomes the 1st, and in December the year is left as it was, the
  month becomes the year's number and the day 12.
\<close>

theorem numeric_dates:
  assumes "ReplaceSpace env text (Some [32, 124, 92, 46, 124, 45, 124, 92, 92, 124, 163, 173, 124, 196, 234, 124, 212, 194, 124, 200, 213]) (Some [47])
      = dec_nat y @ 47 # pad2 m @ 47 # pad2 d"
    and "1930 \<le> y" "y \<le> 9999" "1 \<le> m" "m \<le> 12" "1 \<le> d" "d \<le> 31"
  shows "parseYMD env text st = (True, st\<lparr>sTm := if m < 12
      then (sTm st)\<lparr>tm_year := int y - 1900, tm_mon := int m - 1, tm_mday := if d < 31 then int d else 1\<rparr>
      else (sTm st)\<lparr>tm_mon := int y - 1901, tm_mday := 12\<rparr>\<rparr>)"
proof -
  have dig: "\<forall>c\<in>set (dec_nat y). ISDIGIT c" "\<forall>c\<in>set (pad2 k). ISDIGIT c" for k using dec_nat_digits pad2_digits by auto
  then have no47: "\<forall>c\<in>set (dec_nat y). c \<notin> {47}" "\<forall>c\<in>set (pad2 k). c \<notin> {47}" for k using separators by fastforce+
  have "tokens {47} (dec_nat y @ 47 # pad2 m @ 47 # pad2 d) = [dec_nat y, pad2 m, pad2 d]"
    using tokens_sep [OF _ no47(1)] tokens_sep [OF _ no47(2)] by simp
  then have ns: "date_numbers (tokens {47} (dec_nat y @ 47 # pad2 m @ 47 # pad2 d)) = [Some (int y), Some (int m), Some (int d)]"
    using assms by (simp add: date_numbers_def date_of_digits dig atoi_dec_nat atoi_pad2)
  have arr: "date_array [Some (int y), Some (int m), Some (int d)] = [int y, int m, int d, 0, 0, 0, 0, 0, 0, 0]"
    by (simp add: date_array_def eval_nat_numeral)
  note pk = pick_numeric [of "int y" "int m" "int d"]
  show ?thesis
    unfolding parseYMD_def assms(1) Let_def ns arr using pk assms(2-)
    by (auto simp: year_1930_def)
qed

section \<open>Ages\<close>

text \<open>
  An age of 11 to 23 hours other than 20, written with digits, is read as its last digit: the table
  lists \<open>1\<close> to \<open>9\<close> hours first and \<open>Findstr\<close> takes the first entry that occurs anywhere in the text.
\<close>

theorem two_digit_hours_misread:
  assumes "n \<in> {11, 12, 13, 14, 15, 16, 17, 18, 19, 21, 22, 23}"
  shows "(dec_nat n @ [208, 161, 202, 177, 199, 176], int n * hourseconds) \<in> set stringhourstamp
     \<and> Findstr env (dec_nat n @ [208, 161, 202, 177, 199, 176]) stringhourstamp st
       = (True, set_stamp env (now env - (int (n mod 10) * hourseconds + 1)) st)"
proof -
  have "\<forall>n\<in>{11, 12, 13, 14, 15, 16, 17, 18, 19, 21, 22, 23}.
     (dec_nat n @ [208, 161, 202, 177, 199, 176], int n * hourseconds) \<in> set stringhourstamp
     \<and> Findstr env (dec_nat n @ [208, 161, 202, 177, 199, 176]) stringhourstamp st
       = (True, set_stamp env (now env - (int (n mod 10) * hourseconds + 1)) st)"
    by (simp add: stringhourstamp_def dec_nat.simps)
  with assms show ?thesis by (rule bspec [rotated])
qed

section \<open>Witnesses\<close>

definition demo_tenv :: tenv where
  "demo_tenv = \<lparr>now = 0, localtime = \<lambda>_. \<lparr>tm_sec = 0, tm_min = 0, tm_hour = 0, tm_mday = 7, tm_mon = 3, tm_year = 112,
       tm_wday = 0, tm_yday = 0, tm_isdst = 0\<rparr>, mktime = \<lambda>t. (1, t), strftime = \<lambda>_ _. [],
     regex_replace = \<lambda>s p r. Some (map (\<lambda>c. if c = 45 \<and> p \<noteq> default_blanks then 47 else c) s), remain_search = \<lambda>_. None\<rparr>"

theorem format_date_roundtrip_witness:
  "\<exists>st'. parseFormatDate demo_tenv (iso_date 2012 2 29 23 59 58) iso_format (CDateTime demo_tenv) = Inr (True, make_stamp demo_tenv st')
    \<and> tm_year (sTm st') = 112 \<and> tm_mon (sTm st') = 1 \<and> tm_mday (sTm st') = 29 \<and> tm_sec (sTm st') = 58"
proof -
  have "ValidateDateTime (int 2012) (int 2) (int 29) (int 23) (int 59) (int 58)"
    by (simp add: ValidateDateTime_def ValidateDate_def ValidateMonth_def ValidateYear_def GetDaysOfMonth_def
        IsLeapYear_def ValidateTime_def ValidateMinute_def ValidateHour_def)
  from format_date_roundtrip [OF this, of demo_tenv "CDateTime demo_tenv"] show ?thesis by auto
qed

theorem numeric_dates_witness:
  "snd (parseYMD demo_tenv (dec_nat 2012 @ 45 # pad2 12 @ 45 # pad2 25) (CDateTime demo_tenv)) = (CDateTime demo_tenv)\<lparr>sTm := (sTm (CDateTime demo_tenv))\<lparr>tm_mon := 111, tm_mday := 12\<rparr>\<rparr>"
  using numeric_dates [of demo_tenv "dec_nat 2012 @ 45 # pad2 12 @ 45 # pad2 25" 2012 12 25 "CDateTime demo_tenv"]
  by (simp add: ReplaceSpace_def demo_tenv_def default_blanks_def pad2_def dec_nat.simps)

definition ahead :: cdt where
  "ahead = (CDateTime demo_tenv)\<lparr>sTm := (localtime demo_tenv 0)\<lparr>tm_year := 130, tm_mday := 8\<rparr>\<rparr>"

theorem over_current_time_goes_back_witness:
  "\<exists>t. isOverCurTime demo_tenv ahead = make_stamp demo_tenv (ahead\<lparr>sTm := t\<rparr>) \<and> tm_year t < 112 \<and> tm_mday t = 8"
proof -
  obtain t where t: "isOverCurTime demo_tenv ahead = make_stamp demo_tenv (ahead\<lparr>sTm := t\<rparr>)"
    "tm_year t < 112 \<or> tm_year t = 112 \<and> (tm_mon t < 3 \<or> tm_mon t = 3 \<and> tm_mday t \<le> 7)"
    "t = (sTm ahead)\<lparr>tm_year := tm_year t\<rparr>"
    using over_current_time_goes_back [of demo_tenv ahead] by (auto simp: Let_def demo_tenv_def)
  have "tm_mday t = 8" "tm_mon t = 3" by (subst t(3), simp add: ahead_def demo_tenv_def)+
  with t show ?thesis by auto
qed

theorem two_digit_hours_misread_witness:
  "sStamp (snd (Findstr demo_tenv (dec_nat 11 @ [208, 161, 202, 177, 199, 176]) stringhourstamp ahead)) = - (hourseconds + 1)"
proof -
  have "11 \<in> {11, 12, 13, 14, 15, 16, 17, 18, 19, 21, 22, 23 :: nat}" by simp
  from two_digit_hours_misread [OF this, of demo_tenv ahead] show ?thesis
    by (simp add: set_stamp_def demo_tenv_def)
qed

end
