(* ===== verification/Spec2Isabelle.thy ===== *)
theory Spec2Isabelle
  imports PageStoreProps HostSched PageUrls UrlPath NumText UrlText IdGen UrlNode TaskOther RecordFile ThriftServer RWBuffer ListHead HList ConnPool BigFileProps DateTimeProps
begin

text \<open>
  \<^bold>\<open>Verification library of bloomServer.\<close>

  bloomServer keeps named Bloom filters in memory for web crawlers and answers over Thrift. A client
  calls \<open>ServHandler\<close> (\<open>src/module/ThriftManager.cpp\<close>), which calls the C-style library in
  \<open>src/module/bloomfilter/\<close>: a hash table of filters under three read/write locks
  (\<open>bloom_filter.cpp\<close>), each filter a bit map probed by MurmurHash3 (\<open>murmur.cpp\<close>), the whole saved and
  restored through a Boost archive. The client side (\<open>src/module/thrift_filter/\<close>) shares Thrift clients
  through a connection pool. Around it stand the crawler's scheduler of tasks and its queue elements
  (\<open>src/module/\<close>) and the tools (\<open>src/tools/\<close>): addresses, text and number helpers, records in chunked files,
  a byte buffer, dates, and the kernel's intrusive lists.

  \<^bold>\<open>The theories\<close>, in the order in which they build on each other:

  \<^item> \<open>Prelude\<close>: machine types, C strings, the faults (undefined behaviour, uncaught exceptions, blocking
    for ever) as the left side of a result, the read/write lock, shared lemmas.
  \<^item> \<open>Murmur\<close>, \<open>Bitmap\<close>: \<open>MurmurHash3_x64_128_for_bloomfilter\<close>, the bucket hash
    \<open>dictGenHashFunction\<close>, and \<open>bitmap_set\<close>, \<open>bitmap_clear\<close>, \<open>bitmap_check\<close> on the vector of 32-bit words.
  \<^item> \<open>Bloom\<close>: one filter, \<open>bloom_t\<close>: \<open>calculate\<close> and \<open>bloom_init\<close> (sizing), \<open>bloom_set\<close>, \<open>bloom_get\<close>;
    the double arithmetic of \<open>calculate\<close> is a parameter.
  \<^item> \<open>Blooms\<close>: the library, \<open>bloomlib\<close> (the globals: table, locks, dump file lock): \<open>blooms_init\<close>,
    \<open>blooms_add\<close>, \<open>blooms_search\<close>, \<open>blooms_set\<close>, \<open>blooms_get\<close>, \<open>bloom_status\<close>, \<open>blooms_delete\<close>,
    \<open>blooms_delete_all\<close>, \<open>blooms_status\<close>. \<open>BloomsTable\<close> has the lemmas on chains, buckets and accounting,
    \<open>BloomsOps\<close> one equation per call on a consistent library (\<open>lib_ok\<close>), \<open>BloomsSpec\<close> the abstract
    library (a map from names to bit sets) and the simulation, \<open>BloomsDeleteAll\<close> the analysis of
    \<open>blooms_delete_all\<close>, \<open>BloomsProps\<close> the properties, \<open>BloomsDump\<close> dump and load.
  \<^item> \<open>ThriftServer\<close>: \<open>ServHandler\<close> and \<open>BloomFilter\<close> over the library, with the truncation at NUL that
    passing \<open>c_str()\<close> causes.
  \<^item> \<open>RWBuffer\<close>: \<open>ReadWriteBuffer\<close>, with 64-bit cursors; the queue contract is the locale \<open>byte_queue\<close>,
    interpreted on the model.
  \<^item> \<open>ListHead\<close>, \<open>HList\<close>: \<open>list.h\<close> over a heap of pointers.
  \<^item> \<open>ConnPool\<close>: \<open>BloomfilterConnectionPool\<close> as a transition system of any number of threads; one step
    is one critical section.
  \<^item> \<open>BigFile\<close>, \<open>BigFileProps\<close>: \<open>FSBigFile\<close> and \<open>chunk_manager\<close> over a disk (a map from paths to bytes).
    \<open>RecordFile\<close>: the records of \<open>CContent\<close> and the lines that \<open>getlines\<close> reads from such a file.
  \<^item> \<open>DateText\<close>, \<open>DateTime\<close>, \<open>DateTimeProps\<close>: \<open>CDateTime\<close> and the tables of \<open>StrToStamp.h\<close>.
  \<^item> \<open>NumText\<close>, \<open>UrlText\<close>, \<open>CText\<close>: the helpers of \<open>util.cpp\<close> and \<open>utilcpp.cpp\<close>: numbers in any radix
    (\<open>int2str\<close>, \<open>str2int\<close>), the percent encodings, replacing, erasing, trimming and splitting of texts.
  \<^item> \<open>UrlParse\<close>, \<open>UrlPath\<close>: \<open>CUrl\<close> of \<open>Url.cpp\<close>. A path is a list of segments; each loop of
    \<open>normalizePath\<close> is an operation on that list.
  \<^item> \<open>Codec\<close>, \<open>UrlNode\<close>: the field codec and the element \<open>UrlNode\<close> of the crawler's queues, written to
    and read from bytes.
  \<^item> \<open>PQueue\<close>, \<open>TaskSched\<close>, \<open>TaskOther\<close>: \<open>TaskScheduleManager\<close>: the priority queue of tasks and their
    map, the objects that threads share per task as a transition system, the keywords and cookies.
  \<^item> \<open>IdGen\<close>: the generator of identifiers of \<open>CheckpointManager\<close>.
  \<^item> \<open>UrlAnalyse\<close>, \<open>FinalPage\<close>, \<open>PageUrls\<close>: what \<open>UrlAnalyseManager\<close> makes of a page: the kind of an address, the
    guess of the next page (\<open>finalpage.cpp\<close>), and \<open>analyseUrls\<close>, which sorts the addresses of a page into nodes.
  \<^item> \<open>HostDb\<close>, \<open>HostSched\<close>: the queues of the hosts: \<open>insertUrl\<close>, which puts a node into the queue of its host or into
    the tables of \<open>DbManager.cpp\<close>, and \<open>getUrl\<close>, which takes the next one out. Each operation is shown to be a
    sequence of steps of a small state machine of hosts (\<open>host_step\<close>), and the properties are proved for its runs.

  \<^item> \<open>HashDb\<close>: the hash database of \<open>db.cpp\<close>, \<open>hdb\<close> (\<open>DB\<close> with the bytes of its two files in place of the descriptors) and
    \<open>dbd\<close> (\<open>DBD\<close>): \<open>db_open\<close>, \<open>db_store\<close>, \<open>db_fetch\<close>, \<open>db_delete\<close>, \<open>db_nextrec\<close> and what they are made of.
    \<open>HashDbFile\<close> says what records and pointers in the bytes of the index file are (\<open>lay\<close>), \<open>HashDbChains\<close> which chains of
    records they form (\<open>linked\<close>) and when a database holds a map (\<open>holds_map\<close>), \<open>HashDbOps\<close> what each operation does to
    that, \<open>HashDbProps\<close> the runs.
  \<^item> \<open>DbAccess\<close>, \<open>DbAccessProps\<close>: \<open>DBAccess\<close> (\<open>DBAccess.cpp\<close>), tables of several hash databases with a configuration that
    lists them; a table in order (\<open>tab_ok\<close>) is one map, looked up in the order of the configuration (\<open>look_up\<close>).
  \<^item> \<open>PageBuffer\<close>, \<open>PageStore\<close>, \<open>PageStoreProps\<close>: \<open>buffer.c\<close> and the store of pages of \<open>LocalDbManager.cpp\<close> over these tables:
    a record is a head that lists its pages (\<open>head_text\<close>) and their compressed bytes (\<open>record_of\<close>).

  \<^bold>\<open>What is shown.\<close> The filters: no false negatives, exact answers, isolation, the memory budget, sizing,
  refinement of the abstract map, restoring a dump, and which calls fault. The server: a stored batch is
  answered in full; NUL truncation. The buffer: first in, first out. The lists: every operation refines
  the operation on sequences. The pool: exclusive use in every reachable state. The chunked file:
  \<open>seek\<close>, \<open>tell\<close>, \<open>read\<close> address one byte sequence, append is all or nothing, reopening sees the same
  bytes, records are found again. Dates: printed dates are read back. Numbers and percent encodings: exact,
  bounded and inverted by their readers. Texts: the three replacing routines agree with one reference and
  return. Addresses: parsing returns for every input, and the reduced path is the reduction of its
  segments. The scheduler: queue and map agree in every reachable state, due tasks are served once, task
  objects are used by one thread at a time. Identifiers increase. Pages: every node made of an address is handed on
  or deleted once, final pages are numbered. Hosts: vector, map and queue agree, sites are not asked too often, and what
  was put into the tables comes back in order. The hash database: every run is a run on a map, also after the files are
  opened again, and a failed replacement removes the key. A table of databases: what was stored is what is
  fetched, also when databases are full. The store of pages: heads are read back, pages stand one behind the other, and a record
  is read when it has as many pages as it expects, which only \<open>altertotalpageforced\<close> can bring about when the first page announced more.

  \<^bold>\<open>Bounds and fuel.\<close> Most loops are structural or have a measure. \<open>match_loop\<close> (\<open>isMatchedDateFormat\<close>) has
  one unit of fuel per character of the text and one more; every round moves forward in the text, so it never
  runs out. A walk along the records of a hash database has one unit of fuel per byte of the index file and one more: a
  longer walk has been at some offset twice and never ends (\<open>LoopsForEver\<close>); on a database that holds a map it never runs
  out. The map is kept for keys of at most 4000 bytes whose length has the same number of digits (the others break a chain,
  see the findings of the project), data of at most 2 MB each and 2 GB together. The loops that may not end (\<open>reply_loop\<close>, \<open>dotdot_loop\<close>) are partial functions with the value
  \<open>None\<close> for not returning, and when they return is a theorem. Chunks have at most \<open>MAX_FILE_SIZE\<close> bytes,
  the 1 GB of the code. \<open>int\<close> and \<open>long\<close> arithmetic that can overflow wraps through \<open>to_int\<close> and \<open>to_long\<close>.

  \<^bold>\<open>Parameters.\<close> Code outside the repository is an argument: the real arithmetic of \<open>calculate\<close>, the
  success of \<open>malloc\<close>, the archive, Thrift transports, the file system, the clock and its calendar
  functions, zlib (it gives back what it compressed when the room is enough), Boost.Regex, \<open>HtRegex\<close>, the lexers that find addresses in a page, SQLite (which does what a statement says as long as its
  texts have no quote), \<open>iconv\<close>, \<open>inet_addr\<close>, the order in which \<open>std::priority_queue\<close> takes equal elements.
  A lock that is held over a region makes the region one step.

  \<^bold>\<open>Not modelled.\<close> Generated code (Thrift stubs, the lexers \<open>hlink.c\<close> and \<open>uri.c\<close>), the threads and
  sockets around the handler, those of the crawler's managers that drive a MySQL database, HTTP and threads, the
  Memcached and MySQL clients, tests, and the older copies of the library under \<open>testbloomfilter/\<close>,
  \<open>bloomfilterthrift/\<close> and \<open>thrift_filter/bloom/\<close>.
\<close>

end
